(* ===== verification/Prelude.thy ===== *)
theory Prelude
  imports Main "HOL-Library.Word"
begin

text \<open>
  Shared vocabulary of the development: the fixed-width integers of Go as words, the result type
  of Go functions that may panic with its sequencing operator, loops over a slice with an early
  exit, and the generic lemmas on words and lists that the components use.  The collections
  \<open>go_simps\<close> (sequencing and constants) and \<open>unat_simps\<close> (reading words as natural numbers)
  are extended by the components.
\<close>

unbundle bit_operations_syntax

type_synonym u8 = "8 word"
type_synonym u16 = "16 word"
type_synonym u32 = "32 word"
type_synonym u64 = "64 word"

named_theorems go_simps "rules for the result type and for named constants of the sources"
named_theorems unat_simps "rules that read a word as a natural number"

subsection \<open>Results of functions that may panic\<close>

text \<open>
  A Go function that may panic returns \<open>Ok v\<close> or \<open>Panic msg\<close>, where \<open>msg\<close> is the message
  given to \<^verbatim>\<open>panic\<close> (or the name of the error that \<^verbatim>\<open>throw\<close> builds).
\<close>

datatype 'a res = Ok 'a | Panic string

fun bnd :: "'a res \<Rightarrow> ('a \<Rightarrow> 'b res) \<Rightarrow> 'b res" where
  "bnd (Ok v) f = f v"
| "bnd (Panic e) f = Panic e"

fun is_ok :: "'a res \<Rightarrow> bool" where
  "is_ok (Ok v) = True"
| "is_ok (Panic e) = False"

lemma bnd_cong [fundef_cong]:
  "m = m' \<Longrightarrow> (\<And>v. m' = Ok v \<Longrightarrow> f v = f' v) \<Longrightarrow> bnd m f = bnd m' f'"
  by (cases m') auto

lemma bnd_Ok_iff [go_simps]: "bnd m f = Ok r \<longleftrightarrow> (\<exists>v. m = Ok v \<and> f v = Ok r)"
  by (cases m) auto

lemma bnd_Panic_iff [go_simps]:
  "bnd m f = Panic e \<longleftrightarrow> m = Panic e \<or> (\<exists>v. m = Ok v \<and> f v = Panic e)"
  by (cases m) auto

lemma bnd_assoc: "bnd (bnd m f) g = bnd m (\<lambda>v. bnd (f v) g)"
  by (cases m) auto

lemma bnd_right_Ok [simp]: "bnd m Ok = m"
  by (cases m) auto

lemma is_ok_iff: "is_ok m \<longleftrightarrow> (\<exists>v. m = Ok v)"
  by (cases m) auto

lemma not_is_ok_iff: "\<not> is_ok m \<longleftrightarrow> (\<exists>e. m = Panic e)"
  by (cases m) auto

lemma bnd_split:
  "P (bnd m f) \<longleftrightarrow> (\<forall>v. m = Ok v \<longrightarrow> P (f v)) \<and> (\<forall>e. m = Panic e \<longrightarrow> P (Panic e))"
  by (cases m) auto

subsection \<open>Slice indexing\<close>

text \<open>Reading the first or the last element of an empty slice panics at run time.\<close>

fun first_of :: "'a list \<Rightarrow> 'a res" where
  "first_of [] = Panic ''index out of range''"
| "first_of (x # xs) = Ok x"

definition last_of :: "'a list \<Rightarrow> 'a res" where
  "last_of xs = (if xs = [] then Panic ''index out of range'' else Ok (last xs))"

lemma first_of_hd: "xs \<noteq> [] \<Longrightarrow> first_of xs = Ok (hd xs)"
  by (cases xs) auto

lemma last_of_last: "xs \<noteq> [] \<Longrightarrow> last_of xs = Ok (last xs)"
  by (simp add: last_of_def)

subsection \<open>Callbacks with a stop flag\<close>

text \<open>
  An enumeration callback of the sources returns a boolean, where true asks the loop to stop, and
  may change variables of its caller.  It is modelled as a function of the element and of the
  caller's state that returns the flag and the new state; \<open>run_until\<close> is the plain loop
  \<^verbatim>\<open>for _, x := range xs { if fn(x) { return true } }; return false\<close>.
\<close>

fun run_until :: "('a \<Rightarrow> 's \<Rightarrow> bool \<times> 's) \<Rightarrow> 'a list \<Rightarrow> 's \<Rightarrow> bool \<times> 's" where
  "run_until fn [] s = (False, s)"
| "run_until fn (x # xs) s =
     (case fn x s of (stop, s') \<Rightarrow> if stop then (True, s') else run_until fn xs s')"

lemma run_until_append:
  "run_until fn (xs @ ys) s =
     (case run_until fn xs s of (stop, s') \<Rightarrow> if stop then (True, s') else run_until fn ys s')"
  by (induction xs arbitrary: s) (auto split: prod.splits)

text \<open>The callback that collects every element it is given and never stops.\<close>

definition collect :: "'a \<Rightarrow> 'a list \<Rightarrow> bool \<times> 'a list" where
  "collect x acc = (False, acc @ [x])"

lemma run_until_collect: "run_until collect xs acc = (False, acc @ xs)"
  by (induction xs arbitrary: acc) (auto simp: collect_def)

lemma run_until_map: "run_until fn (map g xs) s = run_until (\<lambda>x. fn (g x)) xs s"
  by (induction xs arbitrary: s) (auto split: prod.splits)

lemma run_until_fold: "run_until (\<lambda>x s. (False, f x s)) xs s = (False, fold f xs s)"
  by (induction xs arbitrary: s) auto

lemma run_until_search: "run_until (\<lambda>x s. (P x, s)) xs s = (list_ex P xs, s)"
  by (induction xs) auto

lemma run_until_skip:
  "run_until (\<lambda>x s. if p x then (False, s) else fn x s) xs s = run_until fn (filter (\<lambda>x. \<not> p x) xs) s"
  by (induction xs arbitrary: s) (auto split: prod.splits)

lemma run_until_stateless: "fst (run_until (\<lambda>x s. (P x, s)) xs s) = list_ex P xs"
  by (simp add: run_until_search)

lemma fold_snoc: "fold (\<lambda>x acc. acc @ [x]) xs acc = acc @ xs"
  by (induction xs arbitrary: acc) auto

lemma collect_fold: "collect = (\<lambda>x s. (False, (\<lambda>x acc. acc @ [x]) x s))"
  by (simp add: collect_def fun_eq_iff)

text \<open>
  The two contracts of an enumeration method.  A foldable enumeration visits every item of a valid
  container in order when the callback never stops it; a stoppable one also honours the callback's
  request to stop, so that it can be used to search.
\<close>

locale foldable_enum =
  fixes items :: "'r \<Rightarrow> 'x list"
    and enum :: "'r \<Rightarrow> ('x \<Rightarrow> 's \<Rightarrow> bool \<times> 's) \<Rightarrow> 's \<Rightarrow> (bool \<times> 's) res"
    and valid :: "'r \<Rightarrow> bool"
  assumes enum_fold: "valid r \<Longrightarrow> enum r (\<lambda>x s. (False, f x s)) s = Ok (False, fold f (items r) s)"
begin

lemma enum_invariant:
  assumes "valid r" "I s" "\<And>x s. x \<in> set (items r) \<Longrightarrow> I s \<Longrightarrow> I (f x s)"
  shows "\<exists>s'. enum r (\<lambda>x s. (False, f x s)) s = Ok (False, s') \<and> I s'"
proof -
  have "I (fold f xs s)" if "I s" "set xs \<subseteq> set (items r)" for xs s
    using that assms(3) by (induction xs arbitrary: s) auto
  with assms show ?thesis by (auto simp: enum_fold)
qed

end

locale stoppable_enum =
  fixes items :: "'r \<Rightarrow> 'x list"
    and enum :: "'r \<Rightarrow> ('x \<Rightarrow> 's \<Rightarrow> bool \<times> 's) \<Rightarrow> 's \<Rightarrow> (bool \<times> 's) res"
    and valid :: "'r \<Rightarrow> bool"
  assumes enum_run: "valid r \<Longrightarrow> enum r fn s = Ok (run_until fn (items r) s)"
begin

sublocale foldable_enum items enum valid
  by unfold_locales (simp add: enum_run run_until_fold)

lemma enum_search: "valid r \<Longrightarrow> enum r (\<lambda>x s. (P x, s)) s = Ok (list_ex P (items r), s)"
  by (simp add: enum_run run_until_search)

end

subsection \<open>Duplicate-free lists as sets\<close>

lemma longer_not_covered:
  assumes "distinct xs" "length ys < length xs"
  shows "\<exists>x \<in> set xs. x \<notin> set ys"
proof (rule ccontr)
  assume "\<not> ?thesis"
  then have "card (set xs) \<le> card (set ys)" by (intro card_mono) auto
  with assms card_length [of ys] show False by (simp add: distinct_card)
qed

lemma same_length_covered:
  assumes "distinct xs" "length ys \<le> length xs" "set xs \<subseteq> set ys"
  shows "set xs = set ys"
  using assms card_length [of ys] by (intro card_seteq) (auto simp: distinct_card)

lemma covered_not_longer: "distinct xs \<Longrightarrow> set xs \<subseteq> set ys \<Longrightarrow> length xs \<le> length ys"
  using longer_not_covered [of xs ys] by (auto simp: not_less [symmetric])

lemma length_eq_if_set_eq: "distinct xs \<Longrightarrow> distinct ys \<Longrightarrow> set xs = set ys \<Longrightarrow> length xs = length ys"
  by (metis distinct_card)

lemma infinite_not_covered:
  fixes xs ys :: "'a list list"
  shows "\<exists>x. x \<notin> set xs \<and> x \<notin> set ys"
  using ex_new_if_finite [of "set xs \<union> set ys"] by (auto simp: infinite_UNIV_listI)

subsection \<open>Words as natural numbers\<close>

lemmas word_unat_iff = word_le_nat_alt word_less_nat_alt word_unat_eq_iff

lemma unat_lt_16 [unat_simps]: "unat (d :: u16) < 65536"
  using unsigned_less [of d, where ?'a = nat] by simp

lemma unat_lt_8 [unat_simps]: "unat (d :: u8) < 256"
  using unsigned_less [of d, where ?'a = nat] by simp

lemma unat_lt_32 [unat_simps]: "unat (d :: u32) < 4294967296"
  using unsigned_less [of d, where ?'a = nat] by simp

lemma unat_ucast_16_32 [unat_simps]: "unat (ucast (d :: u16) :: u32) = unat d"
  using unat_lt_16 [of d] by (simp add: unsigned_ucast_eq take_bit_nat_eq_self)

lemma ucast_16_32_eq_iff [simp]: "(ucast (d :: u16) :: u32) = ucast d' \<longleftrightarrow> d = d'"
  by (simp add: word_unat_eq_iff unat_simps)

lemma unat_ucast_32_16:
  "unat (n :: u32) < 65536 \<Longrightarrow> unat (ucast n :: u16) = unat n"
  by (simp add: unsigned_ucast_eq take_bit_nat_eq_self)

lemma unat_add_no_wrap:
  fixes a b :: u32
  shows "unat a + unat b < 4294967296 \<Longrightarrow> unat (a + b) = unat a + unat b"
  by (simp add: unat_word_ariths)

lemma unat_sub_no_wrap:
  fixes a b :: u32
  shows "unat b \<le> unat a \<Longrightarrow> unat (a - b) = unat a - unat b"
  by (simp add: unat_sub word_le_nat_alt)

subsection \<open>Lists of lists of one length\<close>

lemma concat_nth:
  assumes "\<forall>xs \<in> set xss. length xs = c" "i < length xss * c"
  shows "concat xss ! i = xss ! (i div c) ! (i mod c)"
  using assms
proof (induction xss arbitrary: i)
  case (Cons xs xss)
  show ?case
  proof (cases "i < c")
    case True
    then show ?thesis using Cons.prems by (simp add: nth_append)
  next
    case False
    then have "c > 0" using Cons.prems by (cases c) auto
    have i: "i div c = Suc ((i - c) div c)" "i mod c = (i - c) mod c" using False \<open>c > 0\<close> by (simp_all add: le_div_geq le_mod_geq)
    have "concat xss ! (i - c) = xss ! ((i - c) div c) ! ((i - c) mod c)" using Cons.prems False by (intro Cons.IH) auto
    then show ?thesis using Cons.prems False i by (simp add: nth_append)
  qed
qed simp

lemma length_concat_const: "\<forall>xs \<in> set xss. length xs = c \<Longrightarrow> length (concat xss) = length xss * c"
  by (induction xss) auto

lemma take_concat_const:
  assumes "\<forall>xs \<in> set xss. length xs = c" "k < length xss" "j \<le> c"
  shows "take (k * c + j) (concat xss) = concat (take k xss) @ take j (xss ! k)"
proof -
  have "concat xss = concat (take k xss) @ xss ! k @ concat (drop (Suc k) xss)"
    using assms(2) by (metis concat.simps(2) concat_append id_take_nth_drop)
  moreover have "length (concat (take k xss)) = k * c"
    using assms length_concat_const [of "take k xss" c] by (auto dest: in_set_takeD)
  moreover have "length (xss ! k) = c" using assms by simp
  ultimately show ?thesis using assms(3) by simp
qed

lemma concat_update:
  assumes "\<forall>xs \<in> set xss. length xs = c" "k < length xss" "j < c"
  shows "concat (xss[k := (xss ! k)[j := x]]) = (concat xss)[k * c + j := x]"
proof -
  have l: "length (concat (take k xss)) = k * c" using assms length_concat_const [of "take k xss" c] by (auto dest: in_set_takeD)
  have "concat xss = concat (take k xss) @ xss ! k @ concat (drop (Suc k) xss)" using assms(2) by (metis concat.simps(2) concat_append id_take_nth_drop)
  moreover have "concat (xss[k := (xss ! k)[j := x]]) = concat (take k xss) @ (xss ! k)[j := x] @ concat (drop (Suc k) xss)"
    using assms(2) by (simp add: upd_conv_take_nth_drop)
  moreover have "length (xss ! k) = c" using assms by simp
  ultimately show ?thesis using assms(3) l by (simp add: list_update_append)
qed

end
