(* ===== verification/Pulse_Number.thy ===== *)
theory Pulse_Number
  imports Prelude
begin

text \<open>
  Pulse numbers and pulse epochs: \<^verbatim>\<open>pulse/pulse_number.go\<close>, \<^verbatim>\<open>pulse/pulse_epoch.go\<close> and the
  named special pulses of \<^verbatim>\<open>pulse/special_pulse_numbers.go\<close>.  A \<^verbatim>\<open>Number\<close> and an \<^verbatim>\<open>Epoch\<close> are
  32-bit words, a delta is a 16-bit word, and every \<^verbatim>\<open>+\<close> and \<^verbatim>\<open>-\<close> of the sources is the
  wrapping one of the word.  The untyped Go constants are polymorphic numerals.
\<close>

type_synonym Number = u32
type_synonym Epoch = u32

subsection \<open>Constants\<close>

definition Unknown :: "'a::zero" where "Unknown = 0"
definition MinPackagePrivate :: "'a::numeral" where "MinPackagePrivate = 1"
definition MaxPackagePrivate :: "'a::numeral" where "MaxPackagePrivate = 255"
definition Reserved0 :: "'a::numeral" where "Reserved0 = 256"
definition LocalRelative :: "'a::numeral" where "LocalRelative = 65536"
definition MinTimePulse :: "'a::numeral" where "MinTimePulse = 65537"
definition MaxTimePulse :: "'a::numeral" where "MaxTimePulse = 1073741823"
definition UnixTimeOfMinTimePulse :: "'a::numeral" where "UnixTimeOfMinTimePulse = 1546300800"
definition UnixTimeOfMaxTimePulse :: int where
  "UnixTimeOfMaxTimePulse = UnixTimeOfMinTimePulse - MinTimePulse + MaxTimePulse"

lemmas pulse_consts = Unknown_def MinPackagePrivate_def MaxPackagePrivate_def Reserved0_def
  LocalRelative_def MinTimePulse_def MaxTimePulse_def UnixTimeOfMinTimePulse_def
  UnixTimeOfMaxTimePulse_def

text \<open>The special pulses, numbered by \<^verbatim>\<open>iota\<close> from the reserved value 256 on.\<close>

datatype SpecialPulse = Jet | BuiltinContract | JetGeneration | Node | RecordPayload
  | ExternalCall | EndpointAddress | DataOfPulse

fun special_number :: "SpecialPulse \<Rightarrow> Number" where
  "special_number Jet = 256 + 1"
| "special_number BuiltinContract = 256 + 2"
| "special_number JetGeneration = 256 + 3"
| "special_number Node = 256 + 4"
| "special_number RecordPayload = 256 + 5"
| "special_number ExternalCall = 256 + 6"
| "special_number EndpointAddress = 256 + 7"
| "special_number DataOfPulse = 256 + 8"

subsection \<open>Pulse numbers\<close>

definition IsValidAsPulseNumber :: "int \<Rightarrow> bool" where
  "IsValidAsPulseNumber n \<longleftrightarrow> n \<ge> MinTimePulse \<and> n \<le> MaxTimePulse"

definition IsTimePulse :: "Number \<Rightarrow> bool" where
  "IsTimePulse n = IsValidAsPulseNumber (uint n)"

definition OfUnixTime :: "int \<Rightarrow> Number" where
  "OfUnixTime u =
     (if u < UnixTimeOfMinTimePulse \<or> u > UnixTimeOfMaxTimePulse then Unknown
      else MinTimePulse + word_of_int (u - UnixTimeOfMinTimePulse))"

text \<open>
  \<^verbatim>\<open>AsApproximateTime\<close> returns a time and an error; times are Unix seconds here, and the error is
  the second component.
\<close>

definition AsApproximateTime :: "Number \<Rightarrow> int \<times> string option" where
  "AsApproximateTime n =
     (if \<not> IsTimePulse n then (UnixTimeOfMinTimePulse, Some ''illegal state'')
      else (UnixTimeOfMinTimePulse + uint (n - MinTimePulse), None))"

definition IsPackagePrivate :: "Number \<Rightarrow> bool" where
  "IsPackagePrivate n \<longleftrightarrow> n \<ge> MinPackagePrivate \<and> n \<le> MaxPackagePrivate"

definition IsBefore :: "Number \<Rightarrow> Number \<Rightarrow> bool" where
  "IsBefore n pn \<longleftrightarrow> n \<ge> MinTimePulse \<and> n < pn"

definition IsAfter :: "Number \<Rightarrow> Number \<Rightarrow> bool" where
  "IsAfter n pn \<longleftrightarrow> n > pn \<and> n \<le> MaxTimePulse"

definition IsBeforeOrEq :: "Number \<Rightarrow> Number \<Rightarrow> bool" where
  "IsBeforeOrEq n pn \<longleftrightarrow> n \<ge> MinTimePulse \<and> n \<le> pn"

definition IsEqOrAfter :: "Number \<Rightarrow> Number \<Rightarrow> bool" where
  "IsEqOrAfter n pn \<longleftrightarrow> n \<ge> pn \<and> n \<le> MaxTimePulse"

definition IsEqOrOut :: "Number \<Rightarrow> Number \<Rightarrow> u16 \<Rightarrow> u16 \<Rightarrow> bool" where
  "IsEqOrOut n pn prevDelta nextDelta =
     (if \<not> IsTimePulse n \<or> \<not> IsTimePulse pn then False
      else if n = pn then True
      else if pn \<le> n - ucast prevDelta then True
      else if pn \<ge> n + ucast nextDelta then True
      else False)"

definition IsSpecialOrTimePulse :: "Number \<Rightarrow> bool" where
  "IsSpecialOrTimePulse n \<longleftrightarrow> n > Unknown \<and> n \<le> MaxTimePulse"

definition IsSpecial :: "Number \<Rightarrow> bool" where
  "IsSpecial n \<longleftrightarrow> n > MaxPackagePrivate \<and> n < MinTimePulse"

definition IsSpecialOrPrivate :: "Number \<Rightarrow> bool" where
  "IsSpecialOrPrivate n \<longleftrightarrow> n > Unknown \<and> n < MinTimePulse"

definition IsUnknown :: "Number \<Rightarrow> bool" where
  "IsUnknown n \<longleftrightarrow> n = Unknown"

definition IsUnknownOrTimePulse :: "Number \<Rightarrow> bool" where
  "IsUnknownOrTimePulse n \<longleftrightarrow> n = Unknown \<or> n \<ge> MinTimePulse \<and> n \<le> MaxTimePulse"

definition IsUnknownOrEqualTo :: "Number \<Rightarrow> Number \<Rightarrow> bool" where
  "IsUnknownOrEqualTo n o' \<longleftrightarrow> IsUnknown n \<or> n = o'"

definition TryNext :: "Number \<Rightarrow> u16 \<Rightarrow> Number \<times> bool" where
  "TryNext n delta =
     (if \<not> IsTimePulse n then (Unknown, False)
      else let n = n + ucast delta
           in if n > MaxTimePulse then (MaxTimePulse, False) else (n, True))"

definition Next :: "Number \<Rightarrow> u16 \<Rightarrow> Number res" where
  "Next n delta =
     (case TryNext n delta of (n, ok) \<Rightarrow>
        if ok then Ok n
        else if IsUnknown n then Panic ''not a time pulse''
        else Panic ''overflow'')"

definition TryPrev :: "Number \<Rightarrow> u16 \<Rightarrow> Number \<times> bool" where
  "TryPrev n delta =
     (if \<not> IsTimePulse n then (Unknown, False)
      else let n = n - ucast delta
           in if n < MinTimePulse then (MinTimePulse, False) else (n, True))"

definition Prev :: "Number \<Rightarrow> u16 \<Rightarrow> Number res" where
  "Prev n delta =
     (case TryPrev n delta of (n, ok) \<Rightarrow>
        if ok then Ok n
        else if IsUnknown n then Panic ''not a time pulse''
        else Panic ''underflow'')"

definition WithFlags :: "Number \<Rightarrow> int \<Rightarrow> u32 res" where
  "WithFlags n flags =
     (if n > MaxTimePulse then Panic ''illegal value''
      else if flags > 3 then Panic ''illegal value''
      else Ok (n OR push_bit 30 (word_of_int flags)))"

definition OfInt :: "int \<Rightarrow> Number" where
  "OfInt n = word_of_int n AND MaxTimePulse"

definition OfUint32 :: "u32 \<Rightarrow> Number" where
  "OfUint32 n = n AND MaxTimePulse"

definition FlagsOf :: "u32 \<Rightarrow> int" where
  "FlagsOf n = uint (drop_bit 30 n)"

text \<open>Big-endian serialization of a number into four bytes.\<close>

definition NumberBytes :: "Number \<Rightarrow> u8 list" where
  "NumberBytes n = [ucast (drop_bit 24 n), ucast (drop_bit 16 n), ucast (drop_bit 8 n), ucast n]"

definition EnsureTimePulse :: "Number \<Rightarrow> Number res" where
  "EnsureTimePulse n = (if IsTimePulse n then Ok n else Panic ''illegal value'')"

definition AsEpoch :: "Number \<Rightarrow> Epoch res" where
  "AsEpoch n = (if IsTimePulse n then Ok n else Panic ''illegal value'')"

subsection \<open>Epochs\<close>

definition InvalidPulseEpoch :: Epoch where "InvalidPulseEpoch = 0"
definition EphemeralPulseEpoch :: Epoch where "EphemeralPulseEpoch = 1"
definition ArticulationPulseEpoch :: Epoch where "ArticulationPulseEpoch = 2"
definition MaxSpecialEpoch :: Epoch where "MaxSpecialEpoch = 2"

lemmas epoch_consts = InvalidPulseEpoch_def EphemeralPulseEpoch_def ArticulationPulseEpoch_def
  MaxSpecialEpoch_def

definition epoch_IsUnknown :: "Epoch \<Rightarrow> bool" where
  "epoch_IsUnknown v \<longleftrightarrow> v = InvalidPulseEpoch"

definition IsEphemeral :: "Epoch \<Rightarrow> bool" where
  "IsEphemeral v \<longleftrightarrow> v = EphemeralPulseEpoch"

definition IsArticulation :: "Epoch \<Rightarrow> bool" where
  "IsArticulation v \<longleftrightarrow> v = ArticulationPulseEpoch"

text \<open>The result is the pair \<^verbatim>\<open>(isValid, isSpecial)\<close>.\<close>

definition Classify :: "Epoch \<Rightarrow> bool \<times> bool" where
  "Classify v =
     (if v > MaxTimePulse then (False, False)
      else if v \<ge> MinTimePulse then (True, False)
      else if v \<le> MaxSpecialEpoch then (v \<noteq> InvalidPulseEpoch, True)
      else (False, False))"

definition IsTimeEpoch :: "Epoch \<Rightarrow> bool" where
  "IsTimeEpoch v = (case Classify v of (isValid, isSpecial) \<Rightarrow> isValid \<and> \<not> isSpecial)"

definition IsValidEpoch :: "Epoch \<Rightarrow> bool" where
  "IsValidEpoch v = fst (Classify v)"

definition IsCompatible :: "Epoch \<Rightarrow> Epoch \<Rightarrow> bool" where
  "IsCompatible v vv =
     (case Classify v of (isValid, isSpecial) \<Rightarrow>
        if \<not> isValid then False
        else if \<not> isSpecial then vv = ArticulationPulseEpoch \<or> IsTimeEpoch vv
        else if v = vv then True
        else if v = ArticulationPulseEpoch then IsTimeEpoch vv
        else False)"

subsection \<open>Reading pulse numbers as natural numbers\<close>

lemma IsTimePulse_unat: "IsTimePulse n \<longleftrightarrow> 65537 \<le> unat n \<and> unat n \<le> 1073741823"
  unfolding IsTimePulse_def IsValidAsPulseNumber_def pulse_consts uint_nat by linarith

lemma IsTimePulse_word: "IsTimePulse n \<longleftrightarrow> MinTimePulse \<le> n \<and> n \<le> MaxTimePulse"
  by (simp add: IsTimePulse_unat pulse_consts word_le_nat_alt)

lemma IsTimePulse_not_Unknown [simp]: "\<not> IsTimePulse Unknown" "\<not> IsTimePulse 0"
  by (simp_all add: IsTimePulse_unat pulse_consts)

text \<open>Adding a delta to a time pulse never wraps, nor does subtracting one.\<close>

lemma unat_pulse_add [unat_simps]:
  "IsTimePulse n \<Longrightarrow> unat (n + ucast (d :: u16)) = unat n + unat d"
  using unat_lt_16 [of d] by (simp add: IsTimePulse_unat unat_add_no_wrap unat_ucast_16_32)

lemma unat_pulse_sub [unat_simps]:
  "IsTimePulse n \<Longrightarrow> unat (n - ucast (d :: u16)) = unat n - unat d"
  using unat_lt_16 [of d] by (simp add: IsTimePulse_unat unat_sub_no_wrap unat_ucast_16_32)

lemma TryNext_Ok_iff:
  "TryNext n d = (m, True) \<longleftrightarrow> IsTimePulse n \<and> IsTimePulse m \<and> unat m = unat n + unat d"
  by (auto simp: TryNext_def Let_def word_unat_iff unat_simps IsTimePulse_unat pulse_consts
      split: if_splits)

lemma TryPrev_Ok_iff:
  "TryPrev n d = (m, True) \<longleftrightarrow> IsTimePulse n \<and> IsTimePulse m \<and> unat n = unat m + unat d"
  by (auto simp: TryPrev_def Let_def word_unat_iff unat_simps IsTimePulse_unat pulse_consts
      split: if_splits)

lemma Next_Ok_iff:
  "Next n d = Ok m \<longleftrightarrow> IsTimePulse n \<and> IsTimePulse m \<and> unat m = unat n + unat d"
  by (auto simp: Next_def simp flip: TryNext_Ok_iff split: prod.splits if_splits)

lemma Prev_Ok_iff:
  "Prev n d = Ok m \<longleftrightarrow> IsTimePulse n \<and> IsTimePulse m \<and> unat n = unat m + unat d"
  by (auto simp: Prev_def simp flip: TryPrev_Ok_iff split: prod.splits if_splits)

lemma Next_cases:
  "Next n d =
     (if \<not> IsTimePulse n then Panic ''not a time pulse''
      else if 1073741823 < unat n + unat d then Panic ''overflow''
      else Ok (n + ucast d))"
  by (auto simp: Next_def TryNext_def Let_def IsUnknown_def word_unat_iff unat_simps pulse_consts)

lemma Prev_cases:
  "Prev n d =
     (if \<not> IsTimePulse n then Panic ''not a time pulse''
      else if unat n < 65537 + unat d then Panic ''underflow''
      else Ok (n - ucast d))"
  by (auto simp: Prev_def TryPrev_def Let_def IsUnknown_def word_unat_iff unat_simps pulse_consts)

lemma IsTimePulse_pulse_add:
  "IsTimePulse n \<Longrightarrow> IsTimePulse (n + ucast (d :: u16)) \<longleftrightarrow> unat n + unat d \<le> 1073741823"
  by (auto simp: IsTimePulse_unat [of "n + ucast d"] unat_pulse_add) (simp add: IsTimePulse_unat)

lemma pulse_add_eq_iff:
  "IsTimePulse n \<Longrightarrow> n + ucast (d :: u16) = m \<longleftrightarrow> unat m = unat n + unat d"
  by (auto simp: word_unat_eq_iff unat_pulse_add)

lemma MinTimePulse_le: "(65537 :: u32) \<le> n \<longleftrightarrow> 65537 \<le> unat n"
  by (simp add: word_le_nat_alt)

lemma IsBeforeOrEq_unat:
  "IsBeforeOrEq n pn \<longleftrightarrow> 65537 \<le> unat n \<and> unat n \<le> unat pn"
  by (simp add: IsBeforeOrEq_def pulse_consts word_le_nat_alt)

subsection \<open>Epochs\<close>

lemma Classify_cases:
  "Classify v =
     (if IsTimePulse v then (True, False)
      else if v = 0 then (False, True)
      else if v = 1 \<or> v = 2 then (True, True)
      else (False, False))"
  by (auto simp: Classify_def IsTimePulse_unat word_unat_iff pulse_consts epoch_consts)

lemma small_not_time_pulse [simp]: "\<not> IsTimePulse 1" "\<not> IsTimePulse 2"
  by (simp_all add: IsTimePulse_unat)

lemma IsTimeEpoch_iff: "IsTimeEpoch v \<longleftrightarrow> IsTimePulse v"
  by (simp add: IsTimeEpoch_def Classify_cases)

lemma IsValidEpoch_iff: "IsValidEpoch v \<longleftrightarrow> IsTimePulse v \<or> v = 1 \<or> v = 2"
  by (auto simp: IsValidEpoch_def Classify_cases)

lemma IsCompatible_iff:
  "IsCompatible v vv \<longleftrightarrow> IsValidEpoch v \<and> IsValidEpoch vv \<and> (v = 1 \<longleftrightarrow> vv = 1)"
  by (auto simp: IsCompatible_def IsValidEpoch_iff IsTimeEpoch_iff Classify_cases epoch_consts)

lemma IsCompatible_sym: "IsCompatible v vv \<longleftrightarrow> IsCompatible vv v"
  by (auto simp: IsCompatible_iff)

subsection \<open>Time and flags\<close>

lemma MaxTimePulse_mask: "(1073741823 :: u32) = mask 30"
  by (simp add: mask_eq_exp_minus_1)

lemma drop_push_30: "drop_bit 30 (push_bit 30 (x :: u32)) = take_bit 2 x"
  by (rule bit_word_eqI) (auto simp: bit_simps)

lemma take_bit_30_eq: "unat (n :: u32) \<le> 1073741823 \<Longrightarrow> take_bit 30 n = n"
  by (simp add: word_unat_eq_iff unsigned_take_bit_eq take_bit_nat_eq_self)

lemma unat_word_of_int_32: "0 \<le> i \<Longrightarrow> i < 4294967296 \<Longrightarrow> unat (word_of_int i :: u32) = nat i"
  by (simp add: unat_eq_nat_uint uint_word_of_int)

lemma uint_minus_MinTimePulse:
  "IsTimePulse n \<Longrightarrow> uint (n - MinTimePulse) = int (unat n) - 65537"
  unfolding uint_nat by (simp add: unat_sub_no_wrap IsTimePulse_unat pulse_consts)

lemma unat_OfUnixTime:
  assumes "1546300800 \<le> u" "u \<le> 2619977086"
  shows "unat (OfUnixTime u) = nat (u - 1546300800) + 65537"
proof -
  have "unat (word_of_int (u - 1546300800) :: u32) = nat (u - 1546300800)"
    using assms by (intro unat_word_of_int_32) auto
  then have "unat (65537 + word_of_int (u - 1546300800) :: u32) = nat (u - 1546300800) + 65537"
    using assms by (subst unat_add_no_wrap) auto
  with assms show ?thesis by (simp add: OfUnixTime_def pulse_consts)
qed

subsection \<open>Properties\<close>

text \<open>
  Stepping forward by a delta and stepping back by the same delta are inverse to each other:
  \<^verbatim>\<open>TryNext\<close> succeeds with \<open>m\<close> exactly when \<^verbatim>\<open>TryPrev\<close> of \<open>m\<close> succeeds with \<open>n\<close>, no arithmetic
  wraps around, and a failure of the former is exactly a non-time pulse or a sum beyond the last
  time pulse, in which case the panicking variant \<^verbatim>\<open>Next\<close> reports which of the two it was.
\<close>

theorem TryNext_TryPrev_inverse:
  "(TryNext n d = (m, True) \<longleftrightarrow> TryPrev m d = (n, True)) \<and>
   (Next n d = Ok m \<longleftrightarrow> IsTimePulse n \<and> IsTimePulse m \<and> unat m = unat n + unat d) \<and>
   (Next n d = Panic ''overflow'' \<longleftrightarrow> IsTimePulse n \<and> unat n + unat d > unat (MaxTimePulse :: Number)) \<and>
   (Next n d = Panic ''not a time pulse'' \<longleftrightarrow> \<not> IsTimePulse n)"
proof (intro conjI)
  show "TryNext n d = (m, True) \<longleftrightarrow> TryPrev m d = (n, True)"
    by (auto simp: TryNext_Ok_iff TryPrev_Ok_iff)
qed (rule Next_Ok_iff, simp_all add: Next_cases pulse_consts)

text \<open>
  Every 32-bit value falls into exactly one class: unknown, package private, special, time
  pulse, or beyond the range of pulse numbers; the named special pulses are special and distinct.
\<close>

theorem pulse_number_classes:
  "length (filter (\<lambda>P. P n)
     [IsUnknown, IsPackagePrivate, IsSpecial, IsTimePulse, \<lambda>n. n > MaxTimePulse]) = 1 \<and>
   (IsSpecialOrTimePulse n \<longleftrightarrow> IsPackagePrivate n \<or> IsSpecial n \<or> IsTimePulse n) \<and>
   (IsSpecialOrPrivate n \<longleftrightarrow> IsPackagePrivate n \<or> IsSpecial n) \<and>
   (IsUnknownOrTimePulse n \<longleftrightarrow> IsUnknown n \<or> IsTimePulse n) \<and>
   IsSpecial (special_number s) \<and> inj special_number"
proof (intro conjI)
  show "inj special_number"
  proof (rule injI)
    fix x y show "special_number x = special_number y \<Longrightarrow> x = y"
      by (cases x; cases y) simp_all
  qed
  show "IsSpecial (special_number s)"
    by (cases s) (simp_all add: IsSpecial_def pulse_consts)
qed (auto simp: IsUnknown_def IsPackagePrivate_def IsSpecial_def IsTimePulse_word pulse_consts
    IsSpecialOrTimePulse_def IsSpecialOrPrivate_def IsUnknownOrTimePulse_def word_unat_iff)

text \<open>
  Epoch compatibility is exactly membership of the same class of valid epochs, where the
  ephemeral epoch is one class and the articulation epoch together with all time epochs is the
  other; in particular it is symmetric, transitive, and reflexive exactly on the valid epochs.
\<close>

theorem epoch_compatibility:
  "(IsCompatible v w \<longleftrightarrow> IsValidEpoch v \<and> IsValidEpoch w \<and> (IsEphemeral v \<longleftrightarrow> IsEphemeral w)) \<and>
   (IsValidEpoch v \<longleftrightarrow> IsTimeEpoch v \<or> IsEphemeral v \<or> IsArticulation v) \<and>
   (IsTimeEpoch v \<longleftrightarrow> IsTimePulse v)"
  by (auto simp: IsCompatible_iff IsValidEpoch_iff IsTimeEpoch_iff IsEphemeral_def
      IsArticulation_def epoch_consts)

text \<open>
  Packing two flag bits above a pulse number loses nothing: for every number within the 30-bit
  range and every flags value up to 3, \<^verbatim>\<open>WithFlags\<close> succeeds, \<^verbatim>\<open>OfUint32\<close> gives the number back and
  \<^verbatim>\<open>FlagsOf\<close> the flags modulo 4 (so the flags themselves when they are not negative).
\<close>

theorem WithFlags_roundtrip:
  assumes "n \<le> MaxTimePulse" and "f \<le> 3"
  shows "\<exists>w. WithFlags n f = Ok w \<and> OfUint32 w = n \<and> FlagsOf w = f mod 4"
proof -
  let ?w = "n OR push_bit 30 (word_of_int f)"
  have n: "unat n \<le> 1073741823"
    using assms(1) by (simp add: pulse_consts word_le_nat_alt)
  have "WithFlags n f = Ok ?w"
    using assms by (auto simp: WithFlags_def)
  moreover have "OfUint32 ?w = n"
    using n by (simp add: OfUint32_def MaxTimePulse_def MaxTimePulse_mask take_bit_30_eq
        take_bit_push_bit flip: take_bit_eq_mask)
  moreover have "drop_bit 30 n = 0"
    using n by (simp add: take_bit_30_eq flip: take_bit_eq_self_iff_drop_bit_eq_0)
  then have "FlagsOf ?w = uint (take_bit 2 (word_of_int f :: u32))"
    by (simp add: FlagsOf_def drop_push_30)
  moreover have "uint (take_bit 2 (word_of_int f :: u32)) = f mod 4"
    by (simp only: unsigned_take_bit_eq uint_word_of_int) (simp add: take_bit_eq_mod mod_mod_cancel)
  ultimately show ?thesis by auto
qed

theorem WithFlags_roundtrip_witness:
  "\<exists>w. WithFlags 65537 2 = Ok w \<and> OfUint32 w = 65537 \<and> FlagsOf w = 2"
  using WithFlags_roundtrip [of 65537 2] by (simp add: pulse_consts)

text \<open>
  Unix seconds within the supported years and time pulses correspond one to one:
  \<^verbatim>\<open>OfUnixTime\<close> of such a time is a time pulse whose \<^verbatim>\<open>AsApproximateTime\<close> is that time, and
  \<^verbatim>\<open>OfUnixTime\<close> of the approximate time of a time pulse is that pulse again.
\<close>

theorem unix_time_roundtrip:
  assumes "UnixTimeOfMinTimePulse \<le> u" "u \<le> UnixTimeOfMaxTimePulse" "IsTimePulse n"
  shows "IsTimePulse (OfUnixTime u) \<and> AsApproximateTime (OfUnixTime u) = (u, None) \<and>
         OfUnixTime (fst (AsApproximateTime n)) = n"
proof -
  have u: "1546300800 \<le> u" "u \<le> 2619977086"
    using assms by (simp_all add: pulse_consts)
  then have t: "IsTimePulse (OfUnixTime u)"
    by (simp add: IsTimePulse_unat unat_OfUnixTime)
  then have "AsApproximateTime (OfUnixTime u) = (u, None)"
    using u by (simp add: AsApproximateTime_def uint_minus_MinTimePulse unat_OfUnixTime
        UnixTimeOfMinTimePulse_def)
  moreover have "65537 \<le> uint n" "uint n \<le> 1073741823"
    using assms(3) by (simp_all add: IsTimePulse_def IsValidAsPulseNumber_def pulse_consts)
  then have "unat (OfUnixTime (1546235263 + uint n)) = unat n"
    using assms(3) [unfolded IsTimePulse_unat] by (simp add: unat_OfUnixTime nat_diff_distrib)
  then have "OfUnixTime (fst (AsApproximateTime n)) = n"
    using assms(3) by (simp add: AsApproximateTime_def uint_minus_MinTimePulse
        UnixTimeOfMinTimePulse_def word_unat_eq_iff)
  ultimately show ?thesis using t by simp
qed

theorem unix_time_roundtrip_witness:
  "AsApproximateTime (OfUnixTime 1600000000) = (1600000000, None) \<and>
   OfUnixTime (fst (AsApproximateTime 65537)) = 65537"
  using unix_time_roundtrip [of 1600000000 65537] by (simp add: pulse_consts IsTimePulse_unat)

end
