(* ===== verification/Pulse_Data.thy ===== *)
theory Pulse_Data
  imports Pulse_Number
begin

text \<open>
  Pulse data of \<^verbatim>\<open>pulse/pulse_data.go\<close>, with the fixed entropy of ephemeral pulses from
  \<^verbatim>\<open>vanilla/longbits/long_bits.go\<close>.  The embedded struct \<^verbatim>\<open>DataExt\<close> is flattened into the record
  \<open>Data\<close>.  The current time of \<^verbatim>\<open>time.Now().Unix()\<close> is an argument \<open>now\<close> of the operations
  that read it, and the value returned by an \<^verbatim>\<open>EntropyFunc\<close> is an argument \<open>entropy\<close>.
\<close>

type_synonym Bits256 = "u8 list"

record Data =
  PulseNumber :: Number
  PulseEpoch :: Epoch
  NextPulseDelta :: u16
  PrevPulseDelta :: u16
  Timestamp :: u32
  PulseEntropy :: Bits256

definition zeroBits256 :: Bits256 where
  "zeroBits256 = replicate 32 0"

subsection \<open>Fixed entropy\<close>

definition OnesCount32 :: "u32 \<Rightarrow> nat" where
  "OnesCount32 w = length (filter (bit w) [0..<32])"

definition PutUint64LE :: "u64 \<Rightarrow> u8 list" where
  "PutUint64LE u = map (\<lambda>k. ucast (drop_bit (8 * k) u)) [0..<8]"

definition noise_word :: "u32 \<Rightarrow> u64" where
  "noise_word n =
     (let u = ucast ((NOT n) XOR push_bit 16 n) :: u64;
          u = u OR push_bit 31 (u + 1)
      in u XOR drop_bit 1 u)"

function fill_noise :: "u32 \<Rightarrow> u32 \<Rightarrow> u8 list \<Rightarrow> u8 list res" where
  "fill_noise base i v =
     (if v = [] then Ok []
      else if length v < 8 then Panic ''index out of range''
      else bnd (fill_noise base (i + 8) (drop 8 v))
             (\<lambda>r. Ok (PutUint64LE (noise_word (base + drop_bit 3 i)) @ r)))"
  by pat_completeness auto
termination
  by (relation "measure (\<lambda>(base, i, v). length v)") auto

declare fill_noise.simps [simp del]

definition FillBitsWithStaticNoise :: "u32 \<Rightarrow> u8 list \<Rightarrow> u8 list res" where
  "FillBitsWithStaticNoise base v =
     (let base = (if OnesCount32 base < 8 then base XOR 0x6206cc91 else base)
      in fill_noise base 0 v)"

definition fixedPulseEntropy :: "Bits256 \<Rightarrow> Number \<Rightarrow> Bits256 res" where
  "fixedPulseEntropy v pn = FillBitsWithStaticNoise pn v"

subsection \<open>Constructors\<close>

definition newPulsarData :: "int \<Rightarrow> Number \<Rightarrow> u16 \<Rightarrow> Bits256 \<Rightarrow> Data res" where
  "newPulsarData now pn delta entropy =
     (if delta = 0 then Panic ''delta cant be zero''
      else bnd (AsEpoch pn) (\<lambda>ep. Ok
        \<lparr>PulseNumber = pn, PulseEpoch = ep, NextPulseDelta = delta, PrevPulseDelta = 0,
         Timestamp = word_of_int now, PulseEntropy = entropy\<rparr>))"

definition NewFirstPulsarData :: "int \<Rightarrow> u16 \<Rightarrow> Bits256 \<Rightarrow> Data res" where
  "NewFirstPulsarData now delta entropy = newPulsarData now (OfUnixTime now) delta entropy"

definition NewPulsarData :: "int \<Rightarrow> Number \<Rightarrow> u16 \<Rightarrow> u16 \<Rightarrow> Bits256 \<Rightarrow> Data res" where
  "NewPulsarData now pn deltaNext deltaPrev entropy =
     bnd (newPulsarData now pn deltaNext entropy) (\<lambda>r. Ok (r\<lparr>PrevPulseDelta := deltaPrev\<rparr>))"

definition NewExpectedPulsarData :: "int \<Rightarrow> Number \<Rightarrow> u16 \<Rightarrow> Data res" where
  "NewExpectedPulsarData now pn deltaPrev =
     bnd (AsEpoch pn) (\<lambda>ep. Ok
       \<lparr>PulseNumber = pn, PulseEpoch = ep, NextPulseDelta = 0, PrevPulseDelta = deltaPrev,
        Timestamp = word_of_int now, PulseEntropy = zeroBits256\<rparr>)"

definition newEphemeralData :: "Number \<Rightarrow> Data res" where
  "newEphemeralData pn =
     (let s = \<lparr>PulseNumber = pn, PulseEpoch = EphemeralPulseEpoch, NextPulseDelta = 1,
               PrevPulseDelta = 0, Timestamp = 0, PulseEntropy = zeroBits256\<rparr>
      in bnd (fixedPulseEntropy (PulseEntropy s) (PulseNumber s))
           (\<lambda>e. Ok (s\<lparr>PulseEntropy := e\<rparr>)))"

definition NewFirstEphemeralData :: "Data res" where
  "NewFirstEphemeralData = newEphemeralData MinTimePulse"

subsection \<open>Validity checks\<close>

definition HasValidEpoch :: "Data \<Rightarrow> bool" where
  "HasValidEpoch r =
     (case Classify (PulseEpoch r) of (isValid, isSpecial) \<Rightarrow>
        if \<not> isValid then False
        else if isSpecial then True
        else PulseEpoch r \<le> PulseNumber r)"

definition HasValidTimeEpoch :: "Data \<Rightarrow> bool" where
  "HasValidTimeEpoch r \<longleftrightarrow> PulseEpoch r \<le> PulseNumber r \<and> IsTimeEpoch (PulseEpoch r)"

definition isExpected :: "Data \<Rightarrow> bool" where
  "isExpected r \<longleftrightarrow> NextPulseDelta r = 0"

definition isFirst :: "Data \<Rightarrow> bool" where
  "isFirst r \<longleftrightarrow> PrevPulseDelta r = 0"

definition ensureRangeData :: "Data \<Rightarrow> unit res" where
  "ensureRangeData r =
     (if \<not> IsTimePulse (PulseNumber r) then Panic ''incorrect pulse number''
      else if \<not> HasValidEpoch r then Panic ''incorrect pulse epoch''
      else bnd (Prev (PulseNumber r) (PrevPulseDelta r)) (\<lambda>_. Ok ()))"

definition EnsurePulseData :: "Data \<Rightarrow> unit res" where
  "EnsurePulseData r =
     (if isExpected r then Panic ''next delta can't be zero'' else ensureRangeData r)"

definition IsValidPulseData :: "Data \<Rightarrow> bool" where
  "IsValidPulseData r =
     (if isExpected r then False
      else if \<not> IsTimePulse (PulseNumber r) then False
      else if \<not> HasValidEpoch r then False
      else True)"

definition IsEmptyCompatibleWith :: "Data \<Rightarrow> Epoch \<Rightarrow> bool" where
  "IsEmptyCompatibleWith r epoch \<longleftrightarrow> IsUnknown (PulseNumber r) \<and> IsCompatible (PulseEpoch r) epoch"

definition data_IsEmpty :: "Data \<Rightarrow> bool" where
  "data_IsEmpty r = IsUnknown (PulseNumber r)"

definition IsValidExpectedPulseData :: "Data \<Rightarrow> bool" where
  "IsValidExpectedPulseData r \<longleftrightarrow> isExpected r \<and> IsTimePulse (PulseNumber r) \<and> HasValidEpoch r"

definition IsValidExpectedPulsarData :: "Data \<Rightarrow> bool" where
  "IsValidExpectedPulsarData r \<longleftrightarrow>
     isExpected r \<and> IsTimePulse (PulseNumber r) \<and> HasValidTimeEpoch r"

definition EnsurePulsarData :: "Data \<Rightarrow> unit res" where
  "EnsurePulsarData r =
     (if \<not> IsTimeEpoch (PulseEpoch r) then Panic ''incorrect pulse epoch by pulsar''
      else EnsurePulseData r)"

definition IsValidPulsarData :: "Data \<Rightarrow> bool" where
  "IsValidPulsarData r = (if \<not> IsTimeEpoch (PulseEpoch r) then False else IsValidPulseData r)"

definition EnsureEphemeralData :: "Data \<Rightarrow> unit res" where
  "EnsureEphemeralData r =
     (if \<not> IsEphemeral (PulseEpoch r) then Panic ''incorrect pulse epoch''
      else EnsurePulseData r)"

definition IsValidEphemeralData :: "Data \<Rightarrow> bool" where
  "IsValidEphemeralData r = (if \<not> IsEphemeral (PulseEpoch r) then False else IsValidPulseData r)"

definition IsFromPulsar :: "Data \<Rightarrow> bool" where
  "IsFromPulsar r \<longleftrightarrow> IsTimeEpoch (PulseEpoch r) \<and> IsTimePulse (PulseNumber r)"

definition IsFromEphemeral :: "Data \<Rightarrow> bool" where
  "IsFromEphemeral r \<longleftrightarrow> IsEphemeral (PulseEpoch r) \<and> IsTimePulse (PulseNumber r)"

definition GetStartOfEpoch :: "Data \<Rightarrow> Number" where
  "GetStartOfEpoch r =
     (if \<not> IsTimePulse (PulseNumber r) then Unknown
      else if HasValidTimeEpoch r then OfUint32 (PulseEpoch r)
      else PulseNumber r)"

definition IsExpectedPulse :: "Data \<Rightarrow> bool" where
  "IsExpectedPulse r \<longleftrightarrow> isExpected r \<and> IsTimePulse (PulseNumber r)"

definition IsFirstPulse :: "Data \<Rightarrow> bool" where
  "IsFirstPulse r \<longleftrightarrow> isFirst r \<and> IsTimePulse (PulseNumber r)"

subsection \<open>Neighbouring pulses\<close>

definition IsValidNext :: "Data \<Rightarrow> Data \<Rightarrow> bool" where
  "IsValidNext r n =
     (if NextPulseDelta r \<noteq> PrevPulseDelta n \<or> isExpected r \<or> isExpected n then False
      else if \<not> IsTimePulse (PulseNumber r) then False
      else if PulseNumber r + ucast (NextPulseDelta r) \<noteq> PulseNumber n then False
      else if \<not> IsCompatible (PulseEpoch r) (PulseEpoch n) then False
      else True)"

definition IsValidPrev :: "Data \<Rightarrow> Data \<Rightarrow> bool" where
  "IsValidPrev r p =
     (if NextPulseDelta p \<noteq> PrevPulseDelta r \<or> isFirst r then False
      else if \<not> IsTimePulse (PulseNumber r) then False
      else if PulseNumber p + ucast (NextPulseDelta p) \<noteq> PulseNumber r then False
      else if \<not> IsCompatible (PulseEpoch r) (PulseEpoch p) then False
      else True)"

definition GetNextPulseNumber :: "Data \<Rightarrow> Number \<times> bool" where
  "GetNextPulseNumber r =
     (if isExpected r then (PulseNumber r, False)
      else TryNext (PulseNumber r) (NextPulseDelta r))"

definition GetPrevPulseNumber :: "Data \<Rightarrow> Number \<times> bool" where
  "GetPrevPulseNumber r =
     (if isFirst r then (PulseNumber r, False)
      else TryPrev (PulseNumber r) (PrevPulseDelta r))"

definition NextPulseNumber :: "Data \<Rightarrow> Number res" where
  "NextPulseNumber r =
     (if isExpected r then Panic ''illegal state''
      else Next (PulseNumber r) (NextPulseDelta r))"

definition PrevPulseNumber :: "Data \<Rightarrow> Number res" where
  "PrevPulseNumber r =
     (if isFirst r then Panic ''illegal state''
      else Prev (PulseNumber r) (PrevPulseDelta r))"

subsection \<open>Creation of the next pulse\<close>

definition CreateNextExpected :: "Data \<Rightarrow> Data res" where
  "CreateNextExpected r =
     bnd (NextPulseNumber r) (\<lambda>pn.
       let s = \<lparr>PulseNumber = pn, PulseEpoch = PulseEpoch r, NextPulseDelta = 0,
                PrevPulseDelta = NextPulseDelta r, Timestamp = 0, PulseEntropy = zeroBits256\<rparr>
       in if IsTimeEpoch (PulseEpoch r)
          then bnd (AsEpoch (PulseNumber s)) (\<lambda>ep. Ok (s\<lparr>PulseEpoch := ep\<rparr>))
          else Ok s)"

definition createNextEphemeralPulse :: "Data \<Rightarrow> Data res" where
  "createNextEphemeralPulse r =
     bnd (NextPulseNumber r) (\<lambda>pn.
     bnd (newEphemeralData pn) (\<lambda>s. Ok (s\<lparr>PrevPulseDelta := NextPulseDelta r\<rparr>)))"

definition CreateNextEphemeralPulse :: "Data \<Rightarrow> Data res" where
  "CreateNextEphemeralPulse r =
     (if \<not> IsFromEphemeral r then Panic ''prev is not ephemeral''
      else createNextEphemeralPulse r)"

definition createNextPulsarPulse :: "int \<Rightarrow> Data \<Rightarrow> u16 \<Rightarrow> Bits256 \<Rightarrow> Data res" where
  "createNextPulsarPulse now r delta entropy =
     bnd (NextPulseNumber r) (\<lambda>pn.
     bnd (newPulsarData now pn delta entropy) (\<lambda>s. Ok (s\<lparr>PrevPulseDelta := NextPulseDelta r\<rparr>)))"

definition CreateNextPulsarPulse :: "int \<Rightarrow> Data \<Rightarrow> u16 \<Rightarrow> Bits256 \<Rightarrow> Data res" where
  "CreateNextPulsarPulse now r delta entropy =
     (if \<not> IsTimeEpoch (PulseEpoch r) then Panic ''not time pulse''
      else createNextPulsarPulse now r delta entropy)"

definition CreateNextPulse :: "int \<Rightarrow> Data \<Rightarrow> Bits256 \<Rightarrow> Data res" where
  "CreateNextPulse now r entropy =
     (if IsEphemeral (PulseEpoch r) then createNextEphemeralPulse r
      else if IsTimeEpoch (PulseEpoch r)
        then createNextPulsarPulse now r (NextPulseDelta r) entropy
      else if IsArticulation (PulseEpoch r) then Panic ''articulation pulse''
      else Panic ''unknown pulse type'')"

subsection \<open>Lemmas on fixed entropy and on the checks\<close>

lemma length_PutUint64LE [simp]: "length (PutUint64LE u) = 8"
  by (simp add: PutUint64LE_def)

lemma fill_noise_total:
  "8 dvd length v \<Longrightarrow> \<exists>r. fill_noise base i v = Ok r \<and> length r = length v"
proof (induction base i v rule: fill_noise.induct)
  case (1 base i v)
  show ?case
  proof (cases "v = []")
    case True
    then show ?thesis by (simp add: fill_noise.simps)
  next
    case False
    with "1.prems" have len: "8 \<le> length v" by (auto dest: dvd_imp_le)
    with "1.prems" have "8 dvd length (drop 8 v)" by (simp add: dvd_diff_nat)
    with "1.IH" False len obtain r where
      "fill_noise base (i + 8) (drop 8 v) = Ok r" "length r = length v - 8"
      by auto
    with False len show ?thesis by (simp add: fill_noise.simps [of base i v])
  qed
qed

lemma fixedPulseEntropy_total:
  "\<exists>e. fixedPulseEntropy zeroBits256 pn = Ok e \<and> length e = 32"
  using fill_noise_total [of zeroBits256]
  by (simp add: fixedPulseEntropy_def FillBitsWithStaticNoise_def Let_def zeroBits256_def)

lemma fill_noise_Ok_iff: "is_ok (fill_noise base i v) \<longleftrightarrow> 8 dvd length v"
proof (induction base i v rule: fill_noise.induct)
  case (1 base i v)
  show ?case
  proof (cases "v = [] \<or> length v < 8")
    case True
    then show ?thesis by (subst fill_noise.simps) (auto dest: dvd_imp_le)
  next
    case False
    then have "8 dvd length v \<longleftrightarrow> 8 dvd length (drop 8 v)"
      by (auto simp: dvd_diff_nat) (metis dvd_refl dvd_diffD leI)
    with False "1.IH" show ?thesis
      by (subst fill_noise.simps) (auto simp: is_ok_iff go_simps)
  qed
qed

lemmas data_check_defs = IsValidPulseData_def IsValidPulsarData_def IsValidEphemeralData_def
  HasValidEpoch_def HasValidTimeEpoch_def isExpected_def isFirst_def

lemma HasValidEpoch_iff:
  "HasValidEpoch r \<longleftrightarrow> PulseEpoch r = 1 \<or> PulseEpoch r = 2 \<or>
     IsTimePulse (PulseEpoch r) \<and> PulseEpoch r \<le> PulseNumber r"
  by (auto simp: HasValidEpoch_def Classify_cases)

lemma newEphemeralData_Ok:
  "\<exists>s. newEphemeralData pn = Ok s \<and> PulseNumber s = pn \<and> PulseEpoch s = 1 \<and>
     NextPulseDelta s = 1 \<and> length (PulseEntropy s) = 32"
  using fixedPulseEntropy_total [of pn] by (auto simp: newEphemeralData_def Let_def epoch_consts)

lemma newPulsarData_Ok_iff:
  "newPulsarData now pn d e = Ok s \<longleftrightarrow> d \<noteq> 0 \<and> IsTimePulse pn \<and>
     s = \<lparr>PulseNumber = pn, PulseEpoch = pn, NextPulseDelta = d, PrevPulseDelta = 0,
          Timestamp = word_of_int now, PulseEntropy = e\<rparr>"
  by (auto simp: newPulsarData_def AsEpoch_def go_simps)

lemma NextPulseNumber_Ok:
  "\<not> isExpected r \<Longrightarrow> IsTimePulse (PulseNumber r) \<Longrightarrow>
   NextPulseNumber r =
     (if unat (PulseNumber r) + unat (NextPulseDelta r) \<le> 1073741823
      then Ok (PulseNumber r + ucast (NextPulseDelta r)) else Panic ''overflow'')"
  by (auto simp: NextPulseNumber_def Next_cases)

lemma EnsurePulseData_Ok_iff:
  "EnsurePulseData r = Ok () \<longleftrightarrow>
     IsValidPulseData r \<and> 65537 + unat (PrevPulseDelta r) \<le> unat (PulseNumber r)"
  by (auto simp: EnsurePulseData_def ensureRangeData_def IsValidPulseData_def Prev_cases)

lemma EnsurePulseData_unit: "EnsurePulseData r = Ok u \<longleftrightarrow> EnsurePulseData r = Ok ()"
  by simp

subsection \<open>Properties\<close>

text \<open>
  C35: The next-pulse generator is correct and total.  For valid pulsar or ephemeral data,
  \<^verbatim>\<open>CreateNextPulse\<close> panics exactly when the next number would leave the range of time pulses;
  otherwise it creates data of the same kind, numbered by the announced delta, which both
  neighbour checks, \<^verbatim>\<open>IsValidNext\<close> and \<^verbatim>\<open>IsValidPrev\<close>, accept.
\<close>

theorem CreateNextPulse_valid:
  assumes "IsValidPulsarData r \<or> IsValidEphemeralData r"
  shows "if unat (PulseNumber r) + unat (NextPulseDelta r) \<le> unat (MaxTimePulse :: Number)
         then \<exists>s. CreateNextPulse now r e = Ok s \<and> 
            PulseNumber s = PulseNumber r + ucast (NextPulseDelta r) \<and>
            PrevPulseDelta s = NextPulseDelta r \<and>
            IsValidNext r s \<and> IsValidPrev s r \<and>
            (IsValidPulsarData r \<longrightarrow> IsValidPulsarData s \<and> NextPulseDelta s = NextPulseDelta r) \<and>
            (IsValidEphemeralData r \<longrightarrow> IsValidEphemeralData s \<and> NextPulseDelta s = 1)
         else CreateNextPulse now r e = Panic ''overflow''"
proof -
  let ?pn = "PulseNumber r + ucast (NextPulseDelta r)"
  let ?fits = "unat (PulseNumber r) + unat (NextPulseDelta r) \<le> 1073741823"
  have r: "\<not> isExpected r" "IsTimePulse (PulseNumber r)"
    using assms by (auto simp: data_check_defs split: if_splits)
  have pn: "?fits \<Longrightarrow> IsTimePulse ?pn"
    using r by (simp add: IsTimePulse_pulse_add)
  show ?thesis
  proof (cases "IsEphemeral (PulseEpoch r)")
    case True
    obtain s where s: "newEphemeralData ?pn = Ok s" "PulseNumber s = ?pn" "PulseEpoch s = 1"
        "NextPulseDelta s = 1"
      using newEphemeralData_Ok [of ?pn] by blast
    with True r pn show ?thesis
      by (auto simp: CreateNextPulse_def createNextEphemeralPulse_def NextPulseNumber_Ok pulse_consts
         IsValidNext_def IsValidPrev_def data_check_defs Classify_cases IsEphemeral_def epoch_consts
         IsTimeEpoch_iff IsCompatible_iff IsValidEpoch_iff split: if_splits)
  next
    case False
    then have ep: "IsTimePulse (PulseEpoch r)"
      using assms by (auto simp: IsValidPulsarData_def IsValidEphemeralData_def IsTimeEpoch_iff split: if_splits)
    with False r pn show ?thesis
      by (auto simp: CreateNextPulse_def createNextPulsarPulse_def NextPulseNumber_Ok pulse_consts newPulsarData_def
         IsValidNext_def IsValidPrev_def data_check_defs Classify_cases IsEphemeral_def epoch_consts AsEpoch_def
         IsTimeEpoch_iff IsCompatible_iff IsValidEpoch_iff split: if_splits)
  qed
qed


theorem CreateNextPulse_valid_witness:
  "\<exists>s. CreateNextPulse 1600000000
         \<lparr>PulseNumber = 70000, PulseEpoch = 70000, NextPulseDelta = 10, PrevPulseDelta = 5,
          Timestamp = 0, PulseEntropy = zeroBits256\<rparr> zeroBits256 = Ok s \<and>
       PulseNumber s = 70010 \<and> IsValidPulsarData s"
proof -
  let ?r = "\<lparr>PulseNumber = 70000, PulseEpoch = 70000, NextPulseDelta = 10, PrevPulseDelta = 5,
             Timestamp = 0, PulseEntropy = zeroBits256\<rparr>"
  have r: "IsValidPulsarData ?r"
    by (simp add: data_check_defs IsTimeEpoch_iff Classify_cases IsTimePulse_unat)
  show ?thesis
    using CreateNextPulse_valid [of ?r 1600000000 zeroBits256] r by (auto simp: pulse_consts)
qed

text \<open>
  The expected pulse that \<^verbatim>\<open>CreateNextExpected\<close> announces is the pulse that
  \<^verbatim>\<open>CreateNextPulse\<close> later creates: they agree on number, previous delta and epoch, the announced
  data passes \<^verbatim>\<open>IsValidExpectedPulseData\<close>, and both panic in the same cases.
\<close>

theorem CreateNextExpected_announces:
  assumes "IsValidPulsarData r \<or> IsValidEphemeralData r"
  shows "(\<exists>s x. CreateNextPulse now r e = Ok s \<and> CreateNextExpected r = Ok x \<and>
            IsValidExpectedPulseData x \<and> PulseNumber x = PulseNumber s \<and>
            PrevPulseDelta x = PrevPulseDelta s \<and> PulseEpoch x = PulseEpoch s) \<or>
         (CreateNextPulse now r e = Panic ''overflow'' \<and> CreateNextExpected r = Panic ''overflow'')"
proof -
  let ?pn = "PulseNumber r + ucast (NextPulseDelta r)"
  have r: "\<not> isExpected r" "IsTimePulse (PulseNumber r)"
    using assms by (auto simp: data_check_defs split: if_splits)
  have ep: "IsTimePulse (PulseEpoch r) \<or> PulseEpoch r = 1"
    using assms by (auto simp: IsValidPulsarData_def IsValidEphemeralData_def IsTimeEpoch_iff
        IsEphemeral_def epoch_consts split: if_splits)
  show ?thesis
    using r ep newEphemeralData_Ok [of ?pn]
    by (auto simp: CreateNextPulse_def createNextEphemeralPulse_def createNextPulsarPulse_def
        CreateNextExpected_def NextPulseNumber_Ok newPulsarData_def AsEpoch_def Let_def
        IsTimePulse_pulse_add IsValidExpectedPulseData_def HasValidEpoch_iff isExpected_def
        IsTimeEpoch_iff IsEphemeral_def epoch_consts)
qed

theorem CreateNextExpected_announces_witness:
  "\<exists>x. CreateNextExpected
         \<lparr>PulseNumber = 70000, PulseEpoch = 70000, NextPulseDelta = 10, PrevPulseDelta = 5,
          Timestamp = 0, PulseEntropy = zeroBits256\<rparr> = Ok x \<and> IsValidExpectedPulseData x"
proof -
  let ?r = "\<lparr>PulseNumber = 70000, PulseEpoch = 70000, NextPulseDelta = 10, PrevPulseDelta = 5,
             Timestamp = 0, PulseEntropy = zeroBits256\<rparr>"
  have r: "IsValidPulsarData ?r"
    by (simp add: data_check_defs IsTimeEpoch_iff Classify_cases IsTimePulse_unat)
  have "CreateNextExpected ?r \<noteq> Panic ''overflow''"
    by (simp add: CreateNextExpected_def NextPulseNumber_Ok isExpected_def IsTimePulse_unat Let_def
        AsEpoch_def IsTimeEpoch_iff)
  then show ?thesis
    using CreateNextExpected_announces [of ?r 0 zeroBits256] r by blast
qed

text \<open>
  The two neighbour checks are dual: data \<open>n\<close> is accepted as the next of \<open>r\<close> and has a time
  pulse number exactly when \<open>r\<close>, being a time pulse, is accepted as the previous of \<open>n\<close> and \<open>n\<close> is
  not an expected pulse.
\<close>

theorem IsValidNext_IsValidPrev_dual:
  "IsValidNext r n \<and> IsTimePulse (PulseNumber n) \<longleftrightarrow>
   IsValidPrev n r \<and> \<not> isExpected n \<and> IsTimePulse (PulseNumber r)"
  by (auto simp: IsValidNext_def IsValidPrev_def isExpected_def isFirst_def IsCompatible_sym)

end
