(* ===== verification/Pulse_Range.thy ===== *)
theory Pulse_Range
  imports Pulse_Data "HOL-Library.Sublist"
begin

text \<open>
  Pulse ranges of \<^verbatim>\<open>pulse/pulse_range.go\<close>: the four implementations of the interface \<^verbatim>\<open>Range\<close>
  are the constructors of one datatype, and each method of the interface is one function by cases
  on it.  An enumeration callback is a function of the enumerated step and of the caller's state
  (see \<open>run_until\<close>); callbacks are never \<^verbatim>\<open>nil\<close> here.  Every way to read a range is related to the
  list of steps that it stands for.
\<close>

text \<open>A step is what a \<^verbatim>\<open>FindNumberFunc\<close> receives: the number, the previous and the next delta.\<close>

type_synonym step = "Number \<times> u16 \<times> u16"

definition stepOf :: "Data \<Rightarrow> step" where
  "stepOf d = (PulseNumber d, PrevPulseDelta d, NextPulseDelta d)"

datatype Range =
    OnePulseRange Data
  | gapPulseRange Number u16 Data
  | seqPulseRange "Data list"
  | sparsePulseRange "Data list"

subsection \<open>Constructors\<close>

definition NewOnePulseRange :: "Data \<Rightarrow> Range res" where
  "NewOnePulseRange data = bnd (ensureRangeData data) (\<lambda>_. Ok (OnePulseRange data))"

definition AsRange :: "Data \<Rightarrow> Range res" where
  "AsRange r = NewOnePulseRange r"

definition NewLeftGapRange :: "Number \<Rightarrow> u16 \<Rightarrow> Data \<Rightarrow> Range res" where
  "NewLeftGapRange left leftPrevDelta right =
     bnd (EnsurePulseData right) (\<lambda>_.
       if left = PulseNumber right then
         if leftPrevDelta = PrevPulseDelta right then AsRange right else Panic ''illegal value''
       else bnd (PrevPulseNumber right) (\<lambda>rp.
         if IsBeforeOrEq left rp
         then bnd (Prev left leftPrevDelta) (\<lambda>_. Ok (gapPulseRange left leftPrevDelta right))
         else Panic ''illegal value''))"

text \<open>
  The loop of \<^verbatim>\<open>checkSequence\<close> after its first element: \<open>prev\<close> is the element at the index before
  the remaining ones, \<open>sequence\<close> the local variable.
\<close>

fun checkSequence_loop :: "Data \<Rightarrow> Data list \<Rightarrow> bool \<Rightarrow> bool res" where
  "checkSequence_loop prev [] sequence = Ok sequence"
| "checkSequence_loop prev (d # ds) sequence =
     bnd (EnsurePulseData d) (\<lambda>_.
       if IsValidNext prev d then checkSequence_loop d ds sequence
       else bnd (NextPulseNumber prev) (\<lambda>pn. bnd (PrevPulseNumber d) (\<lambda>dp.
         if pn > dp then Panic ''illegal value - unordered or intersecting pulses''
         else checkSequence_loop d ds False)))"

fun checkSequence :: "Data list \<Rightarrow> bool res" where
  "checkSequence [] = Ok True"
| "checkSequence (d # ds) = bnd (EnsurePulseData d) (\<lambda>_. checkSequence_loop d ds True)"

definition NewSequenceRange :: "Data list \<Rightarrow> Range res" where
  "NewSequenceRange data =
     (case data of
        [] \<Rightarrow> Panic ''illegal value''
      | [d] \<Rightarrow> AsRange d
      | _ \<Rightarrow> bnd (checkSequence data) (\<lambda>sequence.
               if sequence then Ok (seqPulseRange data) else Panic ''illegal value''))"

definition NewPulseRange :: "Data list \<Rightarrow> Range res" where
  "NewPulseRange data =
     (case data of
        [] \<Rightarrow> Panic ''illegal value''
      | [d] \<Rightarrow> AsRange d
      | d0 # d1 # rest \<Rightarrow>
          if \<not> isExpected d0 then
            bnd (checkSequence data) (\<lambda>sequence.
              if sequence then Ok (seqPulseRange data) else Ok (sparsePulseRange data))
          else bnd (PrevPulseNumber d1) (\<lambda>p1.
            if p1 < PulseNumber d0 \<or> \<not> IsValidExpectedPulseData d0 then Panic ''illegal value''
            else if rest = [] then NewLeftGapRange (PulseNumber d0) (PrevPulseDelta d0) d1
            else bnd (checkSequence (d1 # rest)) (\<lambda>_. Ok (sparsePulseRange data))))"

subsection \<open>Segments between two pulses\<close>

definition minSegmentPulseDelta :: "'a::numeral" where "minSegmentPulseDelta = 10"
definition MaxUint16 :: "'a::numeral" where "MaxUint16 = 65535"

definition segmentDelta :: "Number \<Rightarrow> Number" where
  "segmentDelta delta =
     (if delta \<le> MaxUint16 then delta
      else if delta < MaxUint16 + minSegmentPulseDelta then delta - minSegmentPulseDelta
      else MaxUint16)"

lemma segmentDelta_bounds:
  "0 < delta \<Longrightarrow> 0 < unat (segmentDelta delta) \<and> unat (segmentDelta delta) \<le> 65535 \<and>
     unat (segmentDelta delta) \<le> unat delta"
  by (auto simp: segmentDelta_def MaxUint16_def minSegmentPulseDelta_def word_unat_iff
      unat_sub_no_wrap)

lemma unat_ucast_segmentDelta:
  "0 < delta \<Longrightarrow> unat (ucast (segmentDelta delta) :: u16) = unat (segmentDelta delta)"
  using segmentDelta_bounds [of delta] by (intro unat_ucast_32_16) simp

function enumSegments ::
  "Number \<Rightarrow> u16 \<Rightarrow> Number \<Rightarrow> u16 \<Rightarrow> (step \<Rightarrow> 's \<Rightarrow> bool \<times> 's) \<Rightarrow> 's \<Rightarrow> (bool \<times> 's) res" where
  "enumSegments next' prevDelta end' endNextDelta fn s =
     (if next' < end' then
        let delta = segmentDelta (end' - next')
        in case fn (next', prevDelta, ucast delta) s of (stop, s') \<Rightarrow>
          if stop then Ok (True, s')
          else bnd (Next next' (ucast delta)) (\<lambda>n.
                 enumSegments n (ucast delta) end' endNextDelta fn s')
      else if next' = end' then Ok (fn (next', prevDelta, endNextDelta) s)
      else Panic ''illegal state'')"
  by pat_completeness auto
termination
proof (relation "measure (\<lambda>(n, p, e, d, fn, s). unat e - unat n)", goal_cases)
  case (2 next' prevDelta end' endNextDelta fn s delta stop s' n)
  then have "0 < end' - next'" by (simp add: word_less_nat_alt unat_sub_no_wrap)
  then have "0 < unat (ucast delta :: u16)"
    using 2 segmentDelta_bounds unat_ucast_segmentDelta by metis
  with 2 show ?case by (auto simp: Next_Ok_iff word_less_nat_alt)
qed simp

declare enumSegments.simps [simp del]

fun articulated :: "step \<Rightarrow> Data" where
  "articulated (n, prevDelta, nextDelta) =
     \<lparr>PulseNumber = n, PulseEpoch = ArticulationPulseEpoch, NextPulseDelta = nextDelta,
      PrevPulseDelta = prevDelta, Timestamp = 0, PulseEntropy = zeroBits256\<rparr>"

definition enumSegmentData ::
  "Number \<Rightarrow> u16 \<Rightarrow> Data \<Rightarrow> (Data \<Rightarrow> 's \<Rightarrow> bool \<times> 's) \<Rightarrow> 's \<Rightarrow> (bool \<times> 's) res" where
  "enumSegmentData start prevDelta end' fn s =
     bnd (if start \<noteq> PulseNumber end'
          then bnd (PrevPulseNumber end') (\<lambda>ep.
                 enumSegments start prevDelta ep (PrevPulseDelta end')
                   (\<lambda>st. fn (articulated st)) s)
          else Ok (False, s))
       (\<lambda>(stop, s'). if stop then Ok (True, s') else Ok (fn end' s'))"

subsection \<open>Methods of the interface\<close>

fun LeftBoundNumber :: "Range \<Rightarrow> Number res" where
  "LeftBoundNumber (OnePulseRange d) = Ok (PulseNumber d)"
| "LeftBoundNumber (gapPulseRange start prevDelta end') = Ok start"
| "LeftBoundNumber (seqPulseRange data) = bnd (first_of data) (\<lambda>d. Ok (PulseNumber d))"
| "LeftBoundNumber (sparsePulseRange data) = bnd (first_of data) (\<lambda>d. Ok (PulseNumber d))"

fun LeftPrevDelta :: "Range \<Rightarrow> u16 res" where
  "LeftPrevDelta (OnePulseRange d) = Ok (PrevPulseDelta d)"
| "LeftPrevDelta (gapPulseRange start prevDelta end') = Ok prevDelta"
| "LeftPrevDelta (seqPulseRange data) = bnd (first_of data) (\<lambda>d. Ok (PrevPulseDelta d))"
| "LeftPrevDelta (sparsePulseRange data) = bnd (first_of data) (\<lambda>d. Ok (PrevPulseDelta d))"

fun RightBoundData :: "Range \<Rightarrow> Data res" where
  "RightBoundData (OnePulseRange d) = Ok d"
| "RightBoundData (gapPulseRange start prevDelta end') = Ok end'"
| "RightBoundData (seqPulseRange data) = last_of data"
| "RightBoundData (sparsePulseRange data) = last_of data"

fun IsArticulated :: "Range \<Rightarrow> bool" where
  "IsArticulated (OnePulseRange d) = False"
| "IsArticulated (gapPulseRange start prevDelta end') = True"
| "IsArticulated (seqPulseRange data) = False"
| "IsArticulated (sparsePulseRange data) = True"

fun IsSingular :: "Range \<Rightarrow> bool" where
  "IsSingular (OnePulseRange d) = True"
| "IsSingular _ = False"

fun range_IsValidNext :: "Range \<Rightarrow> Range \<Rightarrow> bool res" where
  "range_IsValidNext (OnePulseRange d) a =
     (if NextPulseDelta d = 0 then Ok False
      else bnd (LeftPrevDelta a) (\<lambda>lp.
        if NextPulseDelta d \<noteq> lp then Ok False
        else case GetNextPulseNumber d of (n, ok) \<Rightarrow>
          if ok then bnd (LeftBoundNumber a) (\<lambda>l. Ok (n = l)) else Ok False))"
| "range_IsValidNext p a =
     bnd (RightBoundData p) (\<lambda>end'. bnd (LeftPrevDelta a) (\<lambda>lp.
        if NextPulseDelta end' \<noteq> lp then Ok False
        else case GetNextPulseNumber end' of (n, ok) \<Rightarrow>
          if ok then bnd (LeftBoundNumber a) (\<lambda>l. Ok (n = l)) else Ok False))"

definition range_IsValidPrev :: "Range \<Rightarrow> Range \<Rightarrow> bool res" where
  "range_IsValidPrev p a = range_IsValidNext a p"

fun range_Equal :: "Range \<Rightarrow> Range \<Rightarrow> bool" where
  "range_Equal (OnePulseRange d) (OnePulseRange d') = (d = d')"
| "range_Equal (gapPulseRange st p e) (gapPulseRange st' p' e') = (st = st' \<and> p = p' \<and> e = e')"
| "range_Equal (seqPulseRange ds) (seqPulseRange ds') =
     (length ds = length ds' \<and> (\<forall>i < length ds. ds ! i = ds' ! i))"
| "range_Equal (sparsePulseRange ds) (sparsePulseRange ds') =
     (length ds = length ds' \<and> (\<forall>i < length ds. ds ! i = ds' ! i))"
| "range_Equal _ _ = False"

text \<open>
  The loops of \<^verbatim>\<open>sparsePulseRange.EnumNumbers\<close> and \<^verbatim>\<open>EnumData\<close> over \<^verbatim>\<open>p.data[1:]\<close>, with the local
  variables \<^verbatim>\<open>next\<close> and \<^verbatim>\<open>prevDelta\<close>.
\<close>

fun sparse_numbers ::
  "Number \<Rightarrow> u16 \<Rightarrow> Data list \<Rightarrow> (step \<Rightarrow> 's \<Rightarrow> bool \<times> 's) \<Rightarrow> 's \<Rightarrow> (bool \<times> 's) res" where
  "sparse_numbers next' prevDelta [] fn s = Ok (False, s)"
| "sparse_numbers next' prevDelta (d # ds) fn s =
     bnd (if next' = PulseNumber d
          then enumSegments next' prevDelta (PulseNumber d) (NextPulseDelta d) fn s
          else bnd (PrevPulseNumber d) (\<lambda>dp.
               bnd (enumSegments next' prevDelta dp (PrevPulseDelta d) fn s) (\<lambda>(stop, s').
                 if stop then Ok (True, s') else Ok (fn (stepOf d) s'))))
       (\<lambda>(stop, s'). if stop then Ok (True, s')
          else bnd (NextPulseNumber d) (\<lambda>n. sparse_numbers n (NextPulseDelta d) ds fn s'))"

fun sparse_data ::
  "Number \<Rightarrow> u16 \<Rightarrow> Data list \<Rightarrow> (Data \<Rightarrow> 's \<Rightarrow> bool \<times> 's) \<Rightarrow> 's \<Rightarrow> (bool \<times> 's) res" where
  "sparse_data next' prevDelta [] fn s = Ok (False, s)"
| "sparse_data next' prevDelta (d # ds) fn s =
     bnd (enumSegmentData next' prevDelta d fn s) (\<lambda>(stop, s').
       if stop then Ok (True, s')
       else bnd (NextPulseNumber d) (\<lambda>n. sparse_data n (NextPulseDelta d) ds fn s'))"

fun EnumNonArticulatedNumbers :: "Range \<Rightarrow> (step \<Rightarrow> 's \<Rightarrow> bool \<times> 's) \<Rightarrow> 's \<Rightarrow> (bool \<times> 's) res" where
  "EnumNonArticulatedNumbers (OnePulseRange d) fn s = Ok (fn (stepOf d) s)"
| "EnumNonArticulatedNumbers (gapPulseRange start prevDelta end') fn s = Ok (fn (stepOf end') s)"
| "EnumNonArticulatedNumbers (seqPulseRange data) fn s =
     Ok (run_until (\<lambda>d. fn (stepOf d)) data s)"
| "EnumNonArticulatedNumbers (sparsePulseRange data) fn s =
     bnd (first_of data) (\<lambda>first.
       let startIdx = (if NextPulseDelta first = 0 then 1 else 0)
       in Ok (run_until (\<lambda>d. fn (stepOf d)) (drop startIdx data) s))"

fun EnumNonArticulatedData :: "Range \<Rightarrow> (Data \<Rightarrow> 's \<Rightarrow> bool \<times> 's) \<Rightarrow> 's \<Rightarrow> (bool \<times> 's) res" where
  "EnumNonArticulatedData (OnePulseRange d) fn s = Ok (fn d s)"
| "EnumNonArticulatedData (gapPulseRange start prevDelta end') fn s = Ok (fn end' s)"
| "EnumNonArticulatedData (seqPulseRange data) fn s = Ok (run_until fn data s)"
| "EnumNonArticulatedData (sparsePulseRange data) fn s =
     bnd (first_of data) (\<lambda>first.
       let startIdx = (if NextPulseDelta first = 0 then 1 else 0)
       in Ok (run_until fn (drop startIdx data) s))"

text \<open>
  In the sparse case the callback's answer for the first element is dropped, as the sources do.
\<close>

fun EnumNumbers :: "Range \<Rightarrow> (step \<Rightarrow> 's \<Rightarrow> bool \<times> 's) \<Rightarrow> 's \<Rightarrow> (bool \<times> 's) res" where
  "EnumNumbers (OnePulseRange d) fn s = Ok (fn (stepOf d) s)"
| "EnumNumbers (gapPulseRange start prevDelta end') fn s =
     bnd (PrevPulseNumber end') (\<lambda>ep.
     bnd (enumSegments start prevDelta ep (PrevPulseDelta end') fn s) (\<lambda>(stop, s').
       if stop then Ok (True, s') else Ok (fn (stepOf end') s')))"
| "EnumNumbers (seqPulseRange data) fn s = EnumNonArticulatedNumbers (seqPulseRange data) fn s"
| "EnumNumbers (sparsePulseRange data) fn s =
     bnd (first_of data) (\<lambda>first.
       if NextPulseDelta first = 0
       then sparse_numbers (PulseNumber first) (PrevPulseDelta first) (tl data) fn s
       else bnd (NextPulseNumber first) (\<lambda>n.
              sparse_numbers n (NextPulseDelta first) (tl data) fn (snd (fn (stepOf first) s))))"

fun EnumData :: "Range \<Rightarrow> (Data \<Rightarrow> 's \<Rightarrow> bool \<times> 's) \<Rightarrow> 's \<Rightarrow> (bool \<times> 's) res" where
  "EnumData (OnePulseRange d) fn s = Ok (fn d s)"
| "EnumData (gapPulseRange start prevDelta end') fn s = enumSegmentData start prevDelta end' fn s"
| "EnumData (seqPulseRange data) fn s = EnumNonArticulatedData (seqPulseRange data) fn s"
| "EnumData (sparsePulseRange data) fn s =
     bnd (first_of data) (\<lambda>first.
       if NextPulseDelta first = 0
       then sparse_data (PulseNumber first) (PrevPulseDelta first) (tl data) fn s
       else bnd (NextPulseNumber first) (\<lambda>n.
              sparse_data n (NextPulseDelta first) (tl data) fn (snd (fn first s))))"

subsection \<open>The steps between two pulses\<close>

text \<open>
  The list of steps that \<^verbatim>\<open>_enumSegments\<close> walks through.  It is a specification: the loop of the
  sources is shown to run its callback over exactly this list.
\<close>

function segs :: "Number \<Rightarrow> u16 \<Rightarrow> Number \<Rightarrow> u16 \<Rightarrow> step list" where
  "segs n p e d =
     (if n < e then let dl = segmentDelta (e - n) in (n, p, ucast dl) # segs (n + dl) (ucast dl) e d
      else [(n, p, d)])"
  by pat_completeness auto
termination
proof (relation "measure (\<lambda>(n, p, e, d). unat e - unat n)", goal_cases)
  case (2 n p e d dl)
  then have "0 < e - n" "unat (e - n) = unat e - unat n" "unat n < unat e"
    by (simp_all add: word_less_nat_alt unat_sub_no_wrap)
  then have "0 < unat dl" "unat dl \<le> unat e - unat n"
    using 2 segmentDelta_bounds [of "e - n"] by auto
  moreover have "unat (n + dl) = unat n + unat dl"
    using calculation \<open>unat n < unat e\<close> unat_lt_32 [of e] by (intro unat_add_no_wrap) simp
  ultimately show ?case using \<open>unat n < unat e\<close> by simp
qed simp

declare segs.simps [simp del]

text \<open>One step of the segmentation, in natural numbers.\<close>

lemma segment_step:
  assumes "IsTimePulse n" "IsTimePulse e" "n < e"
  defines "dl \<equiv> segmentDelta (e - n)"
  shows "0 < unat dl" "unat dl \<le> unat e - unat n" "unat (ucast dl :: u16) = unat dl"
    "Next n (ucast dl) = Ok (n + dl)" "IsTimePulse (n + dl)" "unat (n + dl) = unat n + unat dl" "n + dl \<le> e"
proof -
  have ne: "unat n < unat e" "0 < e - n" "unat (e - n) = unat e - unat n"
    using assms(3) by (simp_all add: word_less_nat_alt unat_sub_no_wrap)
  then show 0: "0 < unat dl" and le: "unat dl \<le> unat e - unat n"
    using segmentDelta_bounds [of "e - n"] by (auto simp: dl_def)
  show uc: "unat (ucast dl :: u16) = unat dl"
    using unat_ucast_segmentDelta [OF ne(2)] by (simp add: dl_def)
  then have dl: "dl = ucast (ucast dl :: u16)"
    by (simp add: word_unat_eq_iff unat_simps)
  show u: "unat (n + dl) = unat n + unat dl"
    using assms(1) uc by (subst dl) (simp add: unat_pulse_add)
  then show "n + dl \<le> e"
    using le ne by (simp add: word_le_nat_alt)
  show t: "IsTimePulse (n + dl)"
    using u le ne assms(1,2) by (simp add: IsTimePulse_unat)
  show "Next n (ucast dl) = Ok (n + dl)"
    using assms(1) t u uc by (simp add: Next_Ok_iff)
qed

lemma enumSegments_same [simp]: "enumSegments e p e d fn s = Ok (fn (e, p, d) s)"
  by (simp add: enumSegments.simps [of e])

lemma enumSegments_segs:
  "IsTimePulse n \<Longrightarrow> IsTimePulse e \<Longrightarrow> n \<le> e \<Longrightarrow>
   enumSegments n p e d fn s = Ok (run_until fn (segs n p e d) s)"
proof (induction n p e d arbitrary: s rule: segs.induct)
  case (1 n p e d)
  show ?case
  proof (cases "n < e")
    case True
    note st = segment_step [OF "1.prems"(1,2) True]
    with True "1.IH" [OF True refl st(5) "1.prems"(2) st(7)] show ?thesis
      by (simp add: enumSegments.simps [of n] segs.simps [of n] Let_def split: prod.split)
  next
    case False
    with "1.prems" have "n = e" by simp
    then show ?thesis
      by (simp add: enumSegments.simps [of e] segs.simps [of e] split: prod.split)
  qed
qed

definition follows :: "step \<Rightarrow> step \<Rightarrow> bool" where
  "follows = (\<lambda>(n, p, d) (n', p', d'). d \<noteq> 0 \<and> unat n' = unat n + unat d \<and> p' = d)"

lemma segs_first: "fst (hd (segs n p e d)) = n" "fst (snd (hd (segs n p e d))) = p"
    "segs n p e d \<noteq> []"
  by (simp_all add: segs.simps [of n] Let_def)

lemma segs_chain:
  "IsTimePulse n \<Longrightarrow> IsTimePulse e \<Longrightarrow> n \<le> e \<Longrightarrow>
   successively follows (segs n p e d) \<and> (\<exists>p'. last (segs n p e d) = (e, p', d)) \<and> list_all (IsTimePulse \<circ> fst) (segs n p e d)"
proof (induction n p e d rule: segs.induct)
  case (1 n p e d)
  show ?case
  proof (cases "n < e")
    case True
    note st = segment_step [OF "1.prems"(1,2) True]
    have "segs n p e d = (n, p, ucast (segmentDelta (e - n))) # segs (n + segmentDelta (e - n)) (ucast (segmentDelta (e - n))) e d"
      using True by (simp add: segs.simps [of n] Let_def)
    moreover have "follows (n, p, ucast (segmentDelta (e - n))) (hd (segs (n + segmentDelta (e - n)) (ucast (segmentDelta (e - n))) e d))"
      using st segs_first [of "n + segmentDelta (e - n)" "ucast (segmentDelta (e - n))" e d]
      by (cases "hd (segs (n + segmentDelta (e - n)) (ucast (segmentDelta (e - n))) e d)")
        (auto simp: follows_def simp flip: unat_gt_0)
    ultimately show ?thesis
      using "1.IH" [OF True refl st(5) "1.prems"(2) st(7)] "1.prems" st segs_first
      by (simp add: successively_Cons)
  next
    case False
    with "1.prems" have "n = e" "IsTimePulse e" by simp_all
    then show ?thesis by (simp add: segs.simps [of e])
  qed
qed


definition wf_data :: "Data \<Rightarrow> bool" where
  "wf_data d \<longleftrightarrow> EnsurePulseData d = Ok ()"

lemma wf_dataD:
  "wf_data d \<Longrightarrow> IsTimePulse (PulseNumber d)" "wf_data d \<Longrightarrow> NextPulseDelta d \<noteq> 0"
  "wf_data d \<Longrightarrow> 65537 + unat (PrevPulseDelta d) \<le> unat (PulseNumber d)"
  by (auto simp: wf_data_def EnsurePulseData_Ok_iff IsValidPulseData_def isExpected_def split: if_splits)

definition apart :: "Data \<Rightarrow> Data \<Rightarrow> bool" where
  "apart p d \<longleftrightarrow> PrevPulseDelta d \<noteq> 0 \<and>
     unat (PulseNumber p) + unat (NextPulseDelta p) + unat (PrevPulseDelta d) \<le> unat (PulseNumber d)"

definition linked :: "Data \<Rightarrow> Data \<Rightarrow> bool" where
  "linked p d \<longleftrightarrow> IsValidNext p d \<or> apart p d"

lemma PrevPulseNumber_wf:
  "wf_data d \<Longrightarrow> PrevPulseNumber d =
     (if PrevPulseDelta d = 0 then Panic ''illegal state'' else Ok (PulseNumber d - ucast (PrevPulseDelta d)))"
  using wf_dataD [of d] by (auto simp: PrevPulseNumber_def isFirst_def Prev_cases)

lemma wf_prev:
  assumes "wf_data d"
  shows "unat (PulseNumber d - ucast (PrevPulseDelta d)) = unat (PulseNumber d) - unat (PrevPulseDelta d)"
    "IsTimePulse (PulseNumber d - ucast (PrevPulseDelta d))"
  using wf_dataD [OF assms] by (auto simp: unat_pulse_sub IsTimePulse_unat [of "_ - _"]) (simp add: IsTimePulse_unat)

lemma NextPulseNumber_wf:
  "wf_data d \<Longrightarrow> NextPulseNumber d =
     (if unat (PulseNumber d) + unat (NextPulseDelta d) \<le> 1073741823
      then Ok (PulseNumber d + ucast (NextPulseDelta d)) else Panic ''overflow'')"
  using wf_dataD [of d] by (intro NextPulseNumber_Ok) (simp_all add: isExpected_def)

lemma IsValidNext_unat:
  "IsValidNext p d \<Longrightarrow> NextPulseDelta p = PrevPulseDelta d \<and> NextPulseDelta p \<noteq> 0 \<and>
     unat (PulseNumber d) = unat (PulseNumber p) + unat (NextPulseDelta p)"
  by (auto simp: IsValidNext_def isExpected_def pulse_add_eq_iff split: if_splits)

lemma checkSequence_loop_Ok:
  "wf_data p \<Longrightarrow> checkSequence_loop p ds b = Ok r \<Longrightarrow>
   list_all wf_data ds \<and> successively linked (p # ds) \<and>
   (r \<longleftrightarrow> b \<and> successively IsValidNext (p # ds))"
proof (induction p ds b rule: checkSequence_loop.induct)
  case (2 p d ds b)
  from "2.prems"(2) have d: "wf_data d"
    by (auto simp: wf_data_def go_simps)
  show ?case
  proof (cases "IsValidNext p d")
    case True
    with "2.prems" d have "checkSequence_loop d ds b = Ok r" by (auto simp: go_simps)
    with 2 d True show ?thesis
      by (auto simp: linked_def go_simps wf_data_def)
  next
    case False
    with "2.prems" d obtain pn dp where *: "NextPulseNumber p = Ok pn" "PrevPulseNumber d = Ok dp"
        "pn \<le> dp" "checkSequence_loop d ds False = Ok r"
      by (auto simp: go_simps split: if_splits)
    then have "apart p d"
      using "2.prems"(1) d wf_dataD [OF d] wf_dataD [OF "2.prems"(1)]
      by (auto simp: NextPulseNumber_wf PrevPulseNumber_wf word_le_nat_alt wf_prev unat_pulse_add
          apart_def split: if_splits)
    with 2 d False * show ?thesis
      by (auto simp: linked_def go_simps wf_data_def)
  qed
qed auto

lemma checkSequence_Ok:
  "checkSequence ds = Ok r \<Longrightarrow>
   list_all wf_data ds \<and> successively linked ds \<and> (r \<longleftrightarrow> successively IsValidNext ds)"
proof (cases ds)
  case (Cons d ds')
  assume "checkSequence ds = Ok r"
  with Cons show ?thesis
    using checkSequence_loop_Ok [of d ds' True r] by (auto simp: go_simps wf_data_def)
qed auto


declare checkSequence.simps [simp del]

fun rangeWF :: "Range \<Rightarrow> bool" where
  "rangeWF (OnePulseRange d) = (ensureRangeData d = Ok ())"
| "rangeWF (gapPulseRange start prevDelta end') \<longleftrightarrow>
     wf_data end' \<and> PrevPulseDelta end' \<noteq> 0 \<and> 65537 + unat prevDelta \<le> unat start \<and>
     unat start + unat (PrevPulseDelta end') \<le> unat (PulseNumber end')"
| "rangeWF (seqPulseRange ds) \<longleftrightarrow>
     2 \<le> length ds \<and> list_all wf_data ds \<and> successively IsValidNext ds"
| "rangeWF (sparsePulseRange []) = False"
| "rangeWF (sparsePulseRange (d0 # ds)) \<longleftrightarrow>
     ds \<noteq> [] \<and> list_all wf_data ds \<and> successively linked ds \<and>
     (if isExpected d0
      then IsTimePulse (PulseNumber d0) \<and> PrevPulseDelta (hd ds) \<noteq> 0 \<and>
           unat (PulseNumber d0) + unat (PrevPulseDelta (hd ds)) \<le> unat (PulseNumber (hd ds))
      else wf_data d0 \<and> linked d0 (hd ds))"

lemma wf_data_range: "wf_data d \<Longrightarrow> ensureRangeData d = Ok ()"
  by (simp add: wf_data_def EnsurePulseData_def split: if_splits)

lemma AsRange_WF: "AsRange d = Ok rg \<Longrightarrow> rangeWF rg"
  by (auto simp: AsRange_def NewOnePulseRange_def go_simps)

lemma NewLeftGapRange_WF: "NewLeftGapRange left lp right = Ok rg \<Longrightarrow> rangeWF rg"
  using wf_dataD [of right] wf_prev [of right] unfolding NewLeftGapRange_def
  by (auto simp: go_simps PrevPulseNumber_wf Prev_Ok_iff IsBeforeOrEq_unat AsRange_WF IsTimePulse_unat
      simp flip: wf_data_def split: if_splits)

lemma NewSequenceRange_WF: "NewSequenceRange data = Ok rg \<Longrightarrow> rangeWF rg"
  by (auto simp: NewSequenceRange_def go_simps AsRange_WF dest!: checkSequence_Ok
      split: list.splits if_splits)

lemma NewPulseRange_WF: "NewPulseRange data = Ok rg \<Longrightarrow> rangeWF rg"
proof -
  assume ok: "NewPulseRange data = Ok rg"
  consider d where "data = [d]" | d0 d1 rest where "data = d0 # d1 # rest"
    using ok by (auto simp: NewPulseRange_def split: list.splits)
  then show ?thesis
  proof cases
    case 1
    with ok show ?thesis by (simp add: NewPulseRange_def AsRange_WF)
  next
    case 2
    show ?thesis
    proof (cases "isExpected d0")
      case False
      with 2 ok obtain b where "checkSequence data = Ok b"
          "rg = (if b then seqPulseRange data else sparsePulseRange data)"
        by (auto simp: NewPulseRange_def go_simps split: if_splits)
      with 2 False show ?thesis by (auto dest!: checkSequence_Ok)
    next
      case True
      with 2 ok obtain p1 where p1: "PrevPulseNumber d1 = Ok p1" "PulseNumber d0 \<le> p1"
          "IsValidExpectedPulseData d0"
        by (auto simp: NewPulseRange_def go_simps split: if_splits)
      show ?thesis
      proof (cases "rest = []")
        case True
        with 2 ok p1 \<open>isExpected d0\<close> show ?thesis
          by (auto simp: NewPulseRange_def go_simps NewLeftGapRange_WF split: if_splits)
      next
        case False
        with 2 ok p1 \<open>isExpected d0\<close> have rg: "rg = sparsePulseRange data"
            "list_all wf_data (d1 # rest) \<and> successively linked (d1 # rest)"
          by (auto simp: NewPulseRange_def go_simps split: if_splits dest!: checkSequence_Ok)
        then have "PrevPulseDelta d1 \<noteq> 0"
            "unat (PulseNumber d0) + unat (PrevPulseDelta d1) \<le> unat (PulseNumber d1)"
          using p1 wf_prev [of d1] wf_dataD [of d1]
          by (auto simp: PrevPulseNumber_wf word_le_nat_alt split: if_splits)
        with rg 2 p1 \<open>isExpected d0\<close> show ?thesis
          by (simp add: IsValidExpectedPulseData_def)
      qed
    qed
  qed
qed

definition gap_steps :: "Number \<Rightarrow> u16 \<Rightarrow> Data \<Rightarrow> step list" where
  "gap_steps n p d =
     (if n = PulseNumber d then [(n, p, NextPulseDelta d)]
      else segs n p (PulseNumber d - ucast (PrevPulseDelta d)) (PrevPulseDelta d) @ [stepOf d])"

fun sparse_steps :: "Number \<Rightarrow> u16 \<Rightarrow> Data list \<Rightarrow> step list" where
  "sparse_steps n p [] = []"
| "sparse_steps n p (d # ds) =
     gap_steps n p d @ sparse_steps (PulseNumber d + ucast (NextPulseDelta d)) (NextPulseDelta d) ds"

fun range_steps :: "Range \<Rightarrow> step list" where
  "range_steps (OnePulseRange d) = [stepOf d]"
| "range_steps (gapPulseRange start prevDelta end') =
     gap_steps start prevDelta end'"
| "range_steps (seqPulseRange ds) = map stepOf ds"
| "range_steps (sparsePulseRange []) = []"
| "range_steps (sparsePulseRange (d0 # ds)) =
     (if isExpected d0 then sparse_steps (PulseNumber d0) (PrevPulseDelta d0) ds
      else stepOf d0 # sparse_steps (PulseNumber d0 + ucast (NextPulseDelta d0)) (NextPulseDelta d0) ds)"

text \<open>What may come before an element of a sparse range: the position reached so far.\<close>

definition reaches :: "Number \<Rightarrow> u16 \<Rightarrow> Data \<Rightarrow> bool" where
  "reaches n p d \<longleftrightarrow> IsTimePulse n \<and>
     (n = PulseNumber d \<and> p = PrevPulseDelta d \<or>
      PrevPulseDelta d \<noteq> 0 \<and> unat n + unat (PrevPulseDelta d) \<le> unat (PulseNumber d))"

lemma linked_reaches:
  "wf_data p \<Longrightarrow> wf_data d \<Longrightarrow> linked p d \<Longrightarrow>
   reaches (PulseNumber p + ucast (NextPulseDelta p)) (NextPulseDelta p) d \<and>
   unat (PulseNumber p) + unat (NextPulseDelta p) \<le> 1073741823"
  using wf_dataD [of p] wf_dataD [of d] IsValidNext_unat [of p d]
  by (auto simp: linked_def reaches_def IsTimePulse_pulse_add pulse_add_eq_iff apart_def unat_pulse_add)
    (auto simp: IsTimePulse_unat)

lemma sparse_numbers_steps:
  assumes "list_all wf_data ds" "successively linked ds" "ds \<noteq> []" "reaches n p (hd ds)"
    "unat (PulseNumber (last ds)) + unat (NextPulseDelta (last ds)) \<le> 1073741823"
  shows "sparse_numbers n p ds fn s = Ok (run_until fn (sparse_steps n p ds) s)"
  using assms
proof (induction ds arbitrary: n p s)
  case (Cons d ds)
  have d: "wf_data d" and dn: "unat (PulseNumber d) + unat (NextPulseDelta d) \<le> 1073741823"
    and IH: "\<And>s. sparse_numbers (PulseNumber d + ucast (NextPulseDelta d)) (NextPulseDelta d) ds fn s =
      Ok (run_until fn (sparse_steps (PulseNumber d + ucast (NextPulseDelta d)) (NextPulseDelta d) ds) s)"
    using Cons linked_reaches [of d "hd ds"] by (cases ds; auto)+
  show ?case
  proof (cases "n = PulseNumber d")
    case True
    then show ?thesis
      using IH d dn by (simp add: gap_steps_def NextPulseNumber_wf split: prod.split)
  next
    case False
    then have "PrevPulseDelta d \<noteq> 0" "IsTimePulse n" "n \<le> PulseNumber d - ucast (PrevPulseDelta d)"
      using Cons.prems(4) wf_prev [OF d] by (auto simp: reaches_def word_le_nat_alt)
    with False show ?thesis
      using IH d dn wf_prev [OF d]
      by (simp add: gap_steps_def enumSegments_segs NextPulseNumber_wf PrevPulseNumber_wf run_until_append split: prod.split)
  qed
qed simp


definition chain :: "Number \<Rightarrow> u16 \<Rightarrow> Data \<Rightarrow> step list \<Rightarrow> bool" where
  "chain l lp r xs \<longleftrightarrow> xs \<noteq> [] \<and> fst (hd xs) = l \<and> fst (snd (hd xs)) = lp \<and> last xs = stepOf r \<and>
     successively follows xs \<and> list_all (IsTimePulse \<circ> fst) xs"

lemma chain_append:
  assumes "chain l lp r xs" "chain l' lp' r' ys" "NextPulseDelta r \<noteq> 0"
    "unat l' = unat (PulseNumber r) + unat (NextPulseDelta r)" "lp' = NextPulseDelta r"
  shows "chain l lp r' (xs @ ys)"
proof -
  obtain y2 where "hd ys = (l', lp', y2)"
    using assms(2) by (cases "hd ys") (auto simp: chain_def)
  then have "follows (last xs) (hd ys)"
    using assms by (simp add: chain_def follows_def stepOf_def)
  with assms(1,2) show ?thesis
    by (auto simp: chain_def successively_append_iff)
qed

lemma gap_steps_chain:
  assumes d: "wf_data d" and r: "reaches n p d"
  shows "chain n p d (gap_steps n p d)"
proof (cases "n = PulseNumber d")
  case True
  with r d have "p = PrevPulseDelta d" by (auto simp: reaches_def unat_0_iff)
  with True show ?thesis using wf_dataD [OF d] by (simp add: gap_steps_def chain_def stepOf_def)
next
  case False
  let ?e = "PulseNumber d - ucast (PrevPulseDelta d)"
  let ?xs = "segs n p ?e (PrevPulseDelta d)"
  have *: "PrevPulseDelta d \<noteq> 0" "IsTimePulse n" "n \<le> ?e"
    using False r wf_prev [OF d] by (auto simp: reaches_def word_le_nat_alt)
  obtain p' where c: "successively follows ?xs" "last ?xs = (?e, p', PrevPulseDelta d)"
      "list_all (IsTimePulse \<circ> fst) ?xs"
    using segs_chain [of n ?e] * wf_prev [OF d] by auto
  then have "follows (last ?xs) (stepOf d)"
    using * wf_prev [OF d] wf_dataD [OF d] by (simp add: follows_def stepOf_def)
  with c * False show ?thesis
    using segs_first [of n p ?e "PrevPulseDelta d"] wf_dataD [OF d]
    by (auto simp: gap_steps_def chain_def successively_append_iff stepOf_def)
qed

lemma sparse_steps_chain:
  assumes "list_all wf_data ds" "successively linked ds" "ds \<noteq> []" "reaches n p (hd ds)"
  shows "chain n p (last ds) (sparse_steps n p ds)"
  using assms
proof (induction ds arbitrary: n p)
  case (Cons d ds)
  then have g: "chain n p d (gap_steps n p d)" and d: "wf_data d" by (simp_all add: gap_steps_chain)
  show ?case
  proof (cases "ds = []")
    case True
    with g show ?thesis by simp
  next
    case False
    with Cons.prems have "linked d (hd ds)" "wf_data (hd ds)" "successively linked ds" "list_all wf_data ds"
      by (cases ds; simp)+
    with Cons.IH d False have
      "chain (PulseNumber d + ucast (NextPulseDelta d)) (NextPulseDelta d) (last ds)
         (sparse_steps (PulseNumber d + ucast (NextPulseDelta d)) (NextPulseDelta d) ds)"
      using linked_reaches [of d "hd ds"] by blast
    from chain_append [OF g this] show ?thesis
      using d False wf_dataD [OF d] by (simp add: unat_pulse_add)
  qed
qed simp

lemma seq_chain:
  "list_all wf_data ds \<Longrightarrow> successively IsValidNext ds \<Longrightarrow> ds \<noteq> [] \<Longrightarrow>
   chain (PulseNumber (hd ds)) (PrevPulseDelta (hd ds)) (last ds) (map stepOf ds)"
proof (induction ds)
  case (Cons d ds)
  have one: "chain (PulseNumber d) (PrevPulseDelta d) d [stepOf d]"
    using Cons.prems wf_dataD [of d] by (simp add: chain_def stepOf_def)
  show ?case
  proof (cases ds)
    case Nil
    with one show ?thesis by simp
  next
    case (Cons d' ds')
    with Cons.IH Cons.prems have "chain (PulseNumber d') (PrevPulseDelta d') (last ds) (map stepOf ds)"
      "IsValidNext d d'" by auto
    then show ?thesis
      using chain_append [OF one] IsValidNext_unat [of d d'] Cons by auto
  qed
qed simp

lemma range_chain:
  assumes "rangeWF rg"
  shows "\<exists>l lp r. LeftBoundNumber rg = Ok l \<and> LeftPrevDelta rg = Ok lp \<and> RightBoundData rg = Ok r \<and>
    chain l lp r (range_steps rg)"
  using assms
proof (cases rg)
  case (OnePulseRange d)
  with assms show ?thesis
    by (auto simp: chain_def stepOf_def ensureRangeData_def split: if_splits)
next
  case (gapPulseRange st p e)
  with assms have "reaches st p e"
    using wf_dataD [of e] by (auto simp: reaches_def IsTimePulse_unat)
  with gapPulseRange assms show ?thesis by (simp add: gap_steps_chain)
next
  case (seqPulseRange ds)
  with assms have "ds \<noteq> []" by auto
  with seqPulseRange assms show ?thesis
    using seq_chain [of ds] by (simp add: first_of_hd last_of_last)
next
  case (sparsePulseRange ds)
  then obtain d0 ds' where ds: "ds = d0 # ds'" "ds' \<noteq> []" "list_all wf_data ds'" "successively linked ds'" 
    using assms by (cases ds) auto
  then have hd: "wf_data (hd ds')" by (cases ds') auto
  show ?thesis
  proof (cases "isExpected d0")
    case True
    with ds sparsePulseRange assms have "reaches (PulseNumber d0) (PrevPulseDelta d0) (hd ds')"
      by (simp add: reaches_def)
    with ds sparsePulseRange True show ?thesis
      by (simp add: sparse_steps_chain last_of_def)
  next
    case False
    with ds sparsePulseRange assms have d0: "wf_data d0" "linked d0 (hd ds')" by auto
    have one: "chain (PulseNumber d0) (PrevPulseDelta d0) d0 [stepOf d0]"
      using d0 wf_dataD [of d0] by (simp add: chain_def stepOf_def)
    have "chain (PulseNumber d0 + ucast (NextPulseDelta d0)) (NextPulseDelta d0) (last ds')
            (sparse_steps (PulseNumber d0 + ucast (NextPulseDelta d0)) (NextPulseDelta d0) ds')"
      using ds d0 hd linked_reaches [of d0 "hd ds'"] by (intro sparse_steps_chain) auto
    from chain_append [OF one this] show ?thesis
      using ds d0 sparsePulseRange False wf_dataD [of d0] by (simp add: last_of_def unat_pulse_add)
  qed
qed


text \<open>The pulse data a range stands for, articulated pulses included.\<close>

definition gap_data :: "Number \<Rightarrow> u16 \<Rightarrow> Data \<Rightarrow> Data list" where
  "gap_data n p d =
     (if n = PulseNumber d then [d]
      else map articulated
             (segs n p (PulseNumber d - ucast (PrevPulseDelta d)) (PrevPulseDelta d)) @ [d])"

fun sparse_data_list :: "Number \<Rightarrow> u16 \<Rightarrow> Data list \<Rightarrow> Data list" where
  "sparse_data_list n p [] = []"
| "sparse_data_list n p (d # ds) =
     gap_data n p d @ sparse_data_list (PulseNumber d + ucast (NextPulseDelta d)) (NextPulseDelta d) ds"

fun range_data :: "Range \<Rightarrow> Data list" where
  "range_data (OnePulseRange d) = [d]"
| "range_data (gapPulseRange start prevDelta end') = gap_data start prevDelta end'"
| "range_data (seqPulseRange ds) = ds"
| "range_data (sparsePulseRange []) = []"
| "range_data (sparsePulseRange (d0 # ds)) =
     (if isExpected d0 then sparse_data_list (PulseNumber d0) (PrevPulseDelta d0) ds
      else d0 # sparse_data_list (PulseNumber d0 + ucast (NextPulseDelta d0)) (NextPulseDelta d0) ds)"

lemma stepOf_articulated: "stepOf \<circ> articulated = id"
  by (auto simp: stepOf_def)

lemma gap_data_steps: "reaches n p d \<Longrightarrow> map stepOf (gap_data n p d) = gap_steps n p d"
  by (auto simp: gap_data_def gap_steps_def stepOf_articulated reaches_def stepOf_def unat_0_iff)

lemma sparse_data_steps:
  "list_all wf_data ds \<Longrightarrow> successively linked ds \<Longrightarrow> (ds \<noteq> [] \<Longrightarrow> reaches n p (hd ds)) \<Longrightarrow>
   map stepOf (sparse_data_list n p ds) = sparse_steps n p ds"
proof (induction ds arbitrary: n p)
  case (Cons d ds)
  have "ds \<noteq> [] \<Longrightarrow> reaches (PulseNumber d + ucast (NextPulseDelta d)) (NextPulseDelta d) (hd ds)"
    using Cons.prems linked_reaches [of d "hd ds"] by (cases ds) auto
  with Cons show ?case by (cases "ds = []") (simp_all add: gap_data_steps successively_Cons)
qed simp

lemma enumSegmentData_run:
  assumes d: "wf_data d" and r: "reaches n p d"
  shows "enumSegmentData n p d fn s = Ok (run_until fn (gap_data n p d) s)"
proof (cases "n = PulseNumber d")
  case True
  then show ?thesis by (simp add: enumSegmentData_def gap_data_def split: prod.split)
next
  case False
  then have "PrevPulseDelta d \<noteq> 0" "IsTimePulse n" "n \<le> PulseNumber d - ucast (PrevPulseDelta d)"
    using r wf_prev [OF d] by (auto simp: reaches_def word_le_nat_alt)
  with False d show ?thesis
    using wf_prev [OF d]
    by (simp add: enumSegmentData_def gap_data_def PrevPulseNumber_wf enumSegments_segs run_until_append
        run_until_map split: prod.split)
qed

lemma sparse_data_run:
  assumes "list_all wf_data ds" "successively linked ds" "ds \<noteq> []" "reaches n p (hd ds)"
    "unat (PulseNumber (last ds)) + unat (NextPulseDelta (last ds)) \<le> 1073741823"
  shows "sparse_data n p ds fn s = Ok (run_until fn (sparse_data_list n p ds) s)"
  using assms
proof (induction ds arbitrary: n p s)
  case (Cons d ds)
  have d: "wf_data d" and dn: "unat (PulseNumber d) + unat (NextPulseDelta d) \<le> 1073741823"
    and IH: "\<And>s. sparse_data (PulseNumber d + ucast (NextPulseDelta d)) (NextPulseDelta d) ds fn s =
      Ok (run_until fn (sparse_data_list (PulseNumber d + ucast (NextPulseDelta d)) (NextPulseDelta d) ds) s)"
    using Cons linked_reaches [of d "hd ds"] by (cases ds; auto)+
  then show ?case
    using Cons.prems by (simp add: enumSegmentData_run NextPulseNumber_wf run_until_append split: prod.split)
qed simp

definition hasSuccessor :: "Data \<Rightarrow> bool" where
  "hasSuccessor r = snd (GetNextPulseNumber r)"

lemma hasSuccessor_wf:
  "wf_data d \<Longrightarrow> hasSuccessor d \<longleftrightarrow> unat (PulseNumber d) + unat (NextPulseDelta d) \<le> 1073741823"
  using wf_dataD [of d] IsTimePulse_pulse_add [of "PulseNumber d" "NextPulseDelta d"]
  by (auto simp: hasSuccessor_def GetNextPulseNumber_def isExpected_def TryNext_def Let_def
     IsTimePulse_word MinTimePulse_le unat_pulse_add pulse_consts word_less_nat_alt word_le_nat_alt)

fun enumerable :: "Range \<Rightarrow> bool" where
  "enumerable (sparsePulseRange ds) \<longleftrightarrow> rangeWF (sparsePulseRange ds) \<and> hasSuccessor (last ds)"
| "enumerable rg = rangeWF rg"

fun dropsFirstAnswer :: "Range \<Rightarrow> bool" where
  "dropsFirstAnswer (sparsePulseRange (d0 # ds)) = (\<not> isExpected d0)"
| "dropsFirstAnswer rg = False"

lemma sparse_facts:
  assumes "enumerable (sparsePulseRange ds)"
  obtains d0 ds' where "ds = d0 # ds'" "ds' \<noteq> []" "list_all wf_data ds'" "successively linked ds'"
    "unat (PulseNumber (last ds')) + unat (NextPulseDelta (last ds')) \<le> 1073741823"
    "isExpected d0 \<Longrightarrow> reaches (PulseNumber d0) (PrevPulseDelta d0) (hd ds')"
    "\<not> isExpected d0 \<Longrightarrow> reaches (PulseNumber d0 + ucast (NextPulseDelta d0)) (NextPulseDelta d0) (hd ds')"
    "\<not> isExpected d0 \<Longrightarrow> NextPulseNumber d0 = Ok (PulseNumber d0 + ucast (NextPulseDelta d0))"
proof -
  obtain d0 ds' where ds: "ds = d0 # ds'" "ds' \<noteq> []" "list_all wf_data ds'" "successively linked ds'"
    using assms by (cases ds) auto
  then have "wf_data (last ds')" "wf_data (hd ds')" by (simp_all add: list_all_iff)
  with ds assms show ?thesis
    using that [of d0 ds'] linked_reaches [of d0 "hd ds'"]
    by (auto simp: hasSuccessor_wf reaches_def NextPulseNumber_wf)
qed

lemma gap_reaches: "rangeWF (gapPulseRange st p e) \<Longrightarrow> reaches st p e"
  using wf_dataD [of e] by (auto simp: reaches_def IsTimePulse_unat)

lemma gap_steps_not_same:
  "rangeWF (gapPulseRange st p e) \<Longrightarrow> EnumNumbers (gapPulseRange st p e) fn s = Ok (run_until fn (gap_steps st p e) s)"
proof -
  assume wf: "rangeWF (gapPulseRange st p e)"
  then have "st \<noteq> PulseNumber e" "IsTimePulse st" "st \<le> PulseNumber e - ucast (PrevPulseDelta e)" "wf_data e"
    using gap_reaches [OF wf] wf_prev [of e] by (auto simp: reaches_def word_le_nat_alt unat_0_iff)
  with wf show ?thesis using wf_prev [of e]
    by (simp add: PrevPulseNumber_wf enumSegments_segs gap_steps_def run_until_append split: prod.split)
qed

lemma EnumNumbers_run:
  assumes "enumerable rg"
  shows "EnumNumbers rg fn s =
    Ok (if dropsFirstAnswer rg then run_until fn (tl (range_steps rg)) (snd (fn (hd (range_steps rg)) s))
        else run_until fn (range_steps rg) s)"
proof (cases rg)
  case (sparsePulseRange ds)
  with assms obtain d0 ds' where "ds = d0 # ds'" "ds' \<noteq> []" "list_all wf_data ds'" "successively linked ds'"
    "unat (PulseNumber (last ds')) + unat (NextPulseDelta (last ds')) \<le> 1073741823"
    "isExpected d0 \<Longrightarrow> reaches (PulseNumber d0) (PrevPulseDelta d0) (hd ds')"
    "\<not> isExpected d0 \<Longrightarrow> reaches (PulseNumber d0 + ucast (NextPulseDelta d0)) (NextPulseDelta d0) (hd ds')"
    "\<not> isExpected d0 \<Longrightarrow> NextPulseNumber d0 = Ok (PulseNumber d0 + ucast (NextPulseDelta d0))"
    using sparse_facts [of ds] by metis
  with sparsePulseRange show ?thesis
    by (auto simp: sparse_numbers_steps isExpected_def)
next
  case (gapPulseRange st p e)
  with assms gap_steps_not_same [of st p e fn s] show ?thesis by simp
qed (auto simp: run_until_map split: prod.split)

lemma EnumData_run:
  assumes "enumerable rg"
  shows "EnumData rg fn s =
    Ok (if dropsFirstAnswer rg then run_until fn (tl (range_data rg)) (snd (fn (hd (range_data rg)) s))
        else run_until fn (range_data rg) s)" 
    "map stepOf (range_data rg) = range_steps rg"
proof -
  have "EnumData rg fn s =
    Ok (if dropsFirstAnswer rg then run_until fn (tl (range_data rg)) (snd (fn (hd (range_data rg)) s))
        else run_until fn (range_data rg) s) \<and> map stepOf (range_data rg) = range_steps rg"
  proof (cases rg)
    case (sparsePulseRange ds)
    with assms obtain d0 ds' where "ds = d0 # ds'" "ds' \<noteq> []" "list_all wf_data ds'" "successively linked ds'"
      "unat (PulseNumber (last ds')) + unat (NextPulseDelta (last ds')) \<le> 1073741823"
      "isExpected d0 \<Longrightarrow> reaches (PulseNumber d0) (PrevPulseDelta d0) (hd ds')"
      "\<not> isExpected d0 \<Longrightarrow> reaches (PulseNumber d0 + ucast (NextPulseDelta d0)) (NextPulseDelta d0) (hd ds')"
      "\<not> isExpected d0 \<Longrightarrow> NextPulseNumber d0 = Ok (PulseNumber d0 + ucast (NextPulseDelta d0))"
      using sparse_facts [of ds] by metis
    with sparsePulseRange show ?thesis
      by (auto simp: sparse_data_run isExpected_def sparse_data_steps)
  qed (use assms gap_reaches in \<open>auto simp: enumSegmentData_run gap_data_steps split: prod.split\<close>)
  then show "EnumData rg fn s =
    Ok (if dropsFirstAnswer rg then run_until fn (tl (range_data rg)) (snd (fn (hd (range_data rg)) s))
        else run_until fn (range_data rg) s)" 
    "map stepOf (range_data rg) = range_steps rg" by auto
qed


subsection \<open>The enumeration contracts\<close>

interpretation number_fold: foldable_enum range_steps EnumNumbers enumerable
proof
  fix rg :: Range and f and s :: 's
  assume en: "enumerable rg"
  then have "range_steps rg \<noteq> []"
    using range_chain [of rg] by (cases rg) (auto simp: chain_def)
  with en show "EnumNumbers rg (\<lambda>x s. (False, f x s)) s = Ok (False, fold f (range_steps rg) s)"
    by (cases "range_steps rg") (simp_all add: EnumNumbers_run run_until_fold)
qed

interpretation data_fold: foldable_enum range_data EnumData enumerable
proof
  fix rg :: Range and f and s :: 's
  assume en: "enumerable rg"
  then have "range_steps rg \<noteq> []"
    using range_chain [of rg] by (cases rg) (auto simp: chain_def)
  with en have "range_data rg \<noteq> []"
    using EnumData_run(2) [OF en] by auto
  with en show "EnumData rg (\<lambda>x s. (False, f x s)) s = Ok (False, fold f (range_data rg) s)"
    by (cases "range_data rg") (simp_all add: EnumData_run(1) run_until_fold)
qed

interpretation number_search: stoppable_enum range_steps EnumNumbers "\<lambda>rg. enumerable rg \<and> \<not> dropsFirstAnswer rg"
  by unfold_locales (simp add: EnumNumbers_run)

interpretation data_search: stoppable_enum range_data EnumData "\<lambda>rg. enumerable rg \<and> \<not> dropsFirstAnswer rg"
  by unfold_locales (simp add: EnumData_run)

lemma EnumNumbers_collect: "enumerable rg \<Longrightarrow> EnumNumbers rg collect acc = Ok (False, acc @ range_steps rg)"
  by (simp only: collect_fold number_fold.enum_fold fold_snoc)

lemma EnumData_collect: "enumerable rg \<Longrightarrow> EnumData rg collect acc = Ok (False, acc @ range_data rg)"
  by (simp only: collect_fold data_fold.enum_fold fold_snoc)

lemma enumerable_iff:
  "enumerable rg \<longleftrightarrow> rangeWF rg \<and> (\<forall>ds. rg = sparsePulseRange ds \<longrightarrow> hasSuccessor (last ds))"
  by (cases rg) auto

lemma NewPulseRange_sparse:
  "NewPulseRange data = Ok (sparsePulseRange ds) \<Longrightarrow> ds = data"
  by (auto simp: NewPulseRange_def NewLeftGapRange_def AsRange_def NewOnePulseRange_def go_simps
      split: list.splits if_splits)

lemma subseq_gap_data: "subseq [d] (gap_data n p d)"
  by (simp add: gap_data_def subseq_singleton_left)

lemma subseq_sparse_data: "subseq ds (sparse_data_list n p ds)"
proof (induction ds arbitrary: n p)
  case (Cons d ds)
  then show ?case
    using list_emb_append_mono [OF subseq_gap_data [of d n p] Cons] by simp
qed simp

lemma NewPulseRange_provided:
  "NewPulseRange data = Ok rg \<Longrightarrow> rangeWF rg \<Longrightarrow> subseq (filter (\<lambda>d. \<not> isExpected d) data) (range_data rg)"
proof -
  assume ok: "NewPulseRange data = Ok rg" and wf: "rangeWF rg"
  consider "rg = seqPulseRange data" | "rg = sparsePulseRange data" | d where "data = [d]" "rg = OnePulseRange d"
    | d0 d1 where "data = [d0, d1]" "isExpected d0" "\<exists>st p. rg = gapPulseRange st p d1 \<or> rg = OnePulseRange d1"
    using ok by (auto simp: NewPulseRange_def NewLeftGapRange_def AsRange_def NewOnePulseRange_def go_simps split: list.splits if_splits)
  then show ?thesis
  proof cases
    case 2
    with wf obtain d0 ds where ds: "data = d0 # ds" by (cases data) auto
    have "subseq (filter (\<lambda>d. \<not> isExpected d) ds) (sparse_data_list n p ds)" for n p
      using subseq_order.trans [OF subseq_filter_left subseq_sparse_data] .
    with 2 ds show ?thesis by auto
  next
    case 4
    then show ?thesis using subseq_gap_data [of d1] by auto
  qed auto
qed

lemma range_IsValidNext_body:
  "range_IsValidNext a b = Ok True \<Longrightarrow>
   \<exists>ra n. RightBoundData a = Ok ra \<and> LeftPrevDelta b = Ok (NextPulseDelta ra) \<and>
     GetNextPulseNumber ra = (n, True) \<and> LeftBoundNumber b = Ok n"
proof (cases a)
  case (OnePulseRange d)
  moreover assume "range_IsValidNext a b = Ok True"
  ultimately show ?thesis
    by (cases "GetNextPulseNumber d") (auto simp: go_simps split: if_splits)
qed (auto simp: go_simps split: if_splits prod.splits)

lemma range_IsValidNext_True:
  assumes "range_IsValidNext a b = Ok True"
  shows "\<exists>ra lb. RightBoundData a = Ok ra \<and> LeftBoundNumber b = Ok lb \<and>
    LeftPrevDelta b = Ok (NextPulseDelta ra) \<and> hasSuccessor ra \<and> NextPulseDelta ra \<noteq> 0 \<and>
    unat lb = unat (PulseNumber ra) + unat (NextPulseDelta ra)"
proof -
  obtain ra n where ra: "RightBoundData a = Ok ra" "LeftPrevDelta b = Ok (NextPulseDelta ra)"
     "GetNextPulseNumber ra = (n, True)" "LeftBoundNumber b = Ok n"
    using range_IsValidNext_body [OF assms] by blast
  then have "\<not> isExpected ra" "TryNext (PulseNumber ra) (NextPulseDelta ra) = (n, True)"
    by (auto simp: GetNextPulseNumber_def split: if_splits)
  with ra show ?thesis by (auto simp: hasSuccessor_def isExpected_def TryNext_Ok_iff)
qed

text \<open>The facts that evaluate the constructors and the neighbour checks on concrete data.\<close>

lemmas range_eval = NewPulseRange_def checkSequence.simps EnsurePulseData_def
  ensureRangeData_def isExpected_def isFirst_def IsTimePulse_unat HasValidEpoch_iff Prev_cases
  Next_cases IsValidNext_def NextPulseNumber_def PrevPulseNumber_def GetNextPulseNumber_def
  TryNext_def pulse_consts word_unat_iff

definition pulsarAt :: "Number \<Rightarrow> u16 \<Rightarrow> u16 \<Rightarrow> Data" where
  "pulsarAt n p d = \<lparr>PulseNumber = n, PulseEpoch = n, NextPulseDelta = d, PrevPulseDelta = p,
     Timestamp = 0, PulseEntropy = zeroBits256\<rparr>"

lemma sample_range:
  "NewPulseRange [pulsarAt 70000 5 10, pulsarAt 70030 10 10] =
     Ok (sparsePulseRange [pulsarAt 70000 5 10, pulsarAt 70030 10 10])"
  by (simp add: pulsarAt_def range_eval)

lemma sample_next_range:
  "NewPulseRange [pulsarAt 70040 10 10] = Ok (OnePulseRange (pulsarAt 70040 10 10))"
  by (simp add: pulsarAt_def range_eval AsRange_def NewOnePulseRange_def)

lemma sample_successor:
  "snd (GetNextPulseNumber (pulsarAt 70030 10 10))"
  "filter (\<lambda>d. \<not> isExpected d) [pulsarAt 70000 5 10, pulsarAt 70030 10 10] =
     [pulsarAt 70000 5 10, pulsarAt 70030 10 10]"
  by (simp_all add: pulsarAt_def range_eval Let_def)

subsection \<open>Properties\<close>

text \<open>
  C17: What a range enumerates.  For every list of pulses that \<^verbatim>\<open>NewPulseRange\<close> accepts, whichever of
  the four representations it chooses, \<^verbatim>\<open>EnumNumbers\<close> does not panic and visits a gapless chain of
  time pulses from the left bound with its previous delta to the right bound: each number is the
  one before plus that one's next delta, and its previous delta is that delta.  \<^verbatim>\<open>EnumData\<close> visits
  the same steps, and every pulse that was provided appears there unchanged and in order.  The
  only condition is that the right bound of an articulated range has a successor number.
\<close>

theorem range_enumeration_is_chain:
  assumes "NewPulseRange data = Ok rg" "RightBoundData rg = Ok r" "IsArticulated rg \<Longrightarrow> snd (GetNextPulseNumber r)"
  shows "\<exists>l lp xs ys. LeftBoundNumber rg = Ok l \<and> LeftPrevDelta rg = Ok lp \<and>
    EnumNumbers rg collect [] = Ok (False, xs) \<and> chain l lp r xs \<and>
    EnumData rg collect [] = Ok (False, ys) \<and> map stepOf ys = xs \<and>
    subseq (filter (\<lambda>d. \<not> isExpected d) data) ys"
proof -
  have wf: "rangeWF rg" using assms(1) by (rule NewPulseRange_WF)
  have en: "enumerable rg"
    using wf assms(2,3) by (auto simp: enumerable_iff hasSuccessor_def last_of_def split: if_splits)
  with wf show ?thesis
    using range_chain [OF wf] assms(1,2) NewPulseRange_provided EnumData_run(2) [OF en]
    by (auto simp: EnumNumbers_collect EnumData_collect)
qed

theorem range_enumeration_is_chain_witness:
  "\<exists>xs ys. EnumNumbers (sparsePulseRange [pulsarAt 70000 5 10, pulsarAt 70030 10 10]) collect [] =
       Ok (False, xs) \<and> chain 70000 5 (pulsarAt 70030 10 10) xs \<and> map stepOf ys = xs \<and>
     subseq [pulsarAt 70000 5 10, pulsarAt 70030 10 10] ys"
proof -
  have "\<And>r. RightBoundData (sparsePulseRange [pulsarAt 70000 5 10, r]) = Ok r"
    "LeftBoundNumber (sparsePulseRange [pulsarAt 70000 5 10, pulsarAt 70030 10 10]) = Ok 70000"
    "LeftPrevDelta (sparsePulseRange [pulsarAt 70000 5 10, pulsarAt 70030 10 10]) = Ok 5"
    by (simp_all add: last_of_def pulsarAt_def)
  then show ?thesis
    using range_enumeration_is_chain [OF sample_range] sample_successor
    by (fastforce simp del: EnumNumbers.simps EnumData.simps RightBoundData.simps
        LeftBoundNumber.simps LeftPrevDelta.simps)
qed

text \<open>
  C34: Adjacent ranges join.  When \<^verbatim>\<open>IsValidNext\<close> of one constructed range accepts another one, and the right bound of the
  second one has a successor number if it is articulated, enumerating the first and then the second does not panic and visits one
  gapless chain from the left bound of the first to the right bound of the second.
\<close>
theorem adjacent_ranges_join:
  assumes "NewPulseRange da = Ok a" "NewPulseRange db = Ok b" "range_IsValidNext a b = Ok True"
    "RightBoundData b = Ok r" "IsArticulated b \<Longrightarrow> snd (GetNextPulseNumber r)"
  shows "\<exists>l lp xs zs. LeftBoundNumber a = Ok l \<and> LeftPrevDelta a = Ok lp \<and>
    EnumNumbers a collect [] = Ok (False, xs) \<and> EnumNumbers b collect xs = Ok (False, zs) \<and> chain l lp r zs"
proof -
  have wf: "rangeWF a" "rangeWF b" using assms(1,2) NewPulseRange_WF by auto
  obtain ra lb where n: "RightBoundData a = Ok ra" "LeftBoundNumber b = Ok lb"
    "LeftPrevDelta b = Ok (NextPulseDelta ra)" "hasSuccessor ra" "NextPulseDelta ra \<noteq> 0"
    "unat lb = unat (PulseNumber ra) + unat (NextPulseDelta ra)"
    using range_IsValidNext_True [OF assms(3)] by auto
  have en: "enumerable a" "enumerable b"
    using wf n assms(4,5) by (auto simp: enumerable_iff hasSuccessor_def last_of_def split: if_splits)
  obtain l lp where ca: "LeftBoundNumber a = Ok l" "LeftPrevDelta a = Ok lp" "chain l lp ra (range_steps a)"
    using range_chain [OF wf(1)] n by auto
  moreover have "chain lb (NextPulseDelta ra) r (range_steps b)"
    using range_chain [OF wf(2)] n assms(4) by auto
  ultimately have "chain l lp r (range_steps a @ range_steps b)"
    using n by (intro chain_append) auto
  with ca en show ?thesis by (simp add: EnumNumbers_collect)
qed

theorem adjacent_ranges_join_witness:
  "\<exists>xs zs. EnumNumbers (sparsePulseRange [pulsarAt 70000 5 10, pulsarAt 70030 10 10]) collect [] =
       Ok (False, xs) \<and> EnumNumbers (OnePulseRange (pulsarAt 70040 10 10)) collect xs = Ok (False, zs) \<and>
     chain 70000 5 (pulsarAt 70040 10 10) zs"
proof -
  have "range_IsValidNext (sparsePulseRange [pulsarAt 70000 5 10, pulsarAt 70030 10 10])
      (OnePulseRange (pulsarAt 70040 10 10)) = Ok True"
    by (simp add: last_of_def pulsarAt_def range_eval Let_def)
  moreover have "LeftBoundNumber (sparsePulseRange [pulsarAt 70000 5 10, pulsarAt 70030 10 10]) = Ok 70000"
    "LeftPrevDelta (sparsePulseRange [pulsarAt 70000 5 10, pulsarAt 70030 10 10]) = Ok 5"
    "RightBoundData (OnePulseRange (pulsarAt 70040 10 10)) = Ok (pulsarAt 70040 10 10)"
    "\<not> IsArticulated (OnePulseRange (pulsarAt 70040 10 10))"
    by (simp_all add: last_of_def pulsarAt_def)
  ultimately show ?thesis
    using adjacent_ranges_join [OF sample_range sample_next_range, of "pulsarAt 70040 10 10"]
    by (fastforce simp del: EnumNumbers.simps EnumData.simps RightBoundData.simps
        LeftBoundNumber.simps LeftPrevDelta.simps range_IsValidNext.simps)
qed

text \<open>
  Searching a range.  Unless the range is a sparse one whose first pulse is not an expected one,
  a callback that asks to stop is obeyed: \<^verbatim>\<open>EnumNumbers\<close> returns true exactly when some step of the
  range satisfies the callback's condition.
\<close>

theorem range_search:
  assumes "NewPulseRange data = Ok rg" "RightBoundData rg = Ok r"
    "IsArticulated rg \<Longrightarrow> snd (GetNextPulseNumber r)"
    "IsArticulated rg \<Longrightarrow> isExpected (hd data)"
  shows "\<exists>xs. EnumNumbers rg collect [] = Ok (False, xs) \<and>
     EnumNumbers rg (\<lambda>x s. (P x, s)) s = Ok (list_ex P xs, s)"
proof -
  have wf: "rangeWF rg" using assms(1) by (rule NewPulseRange_WF)
  have "enumerable rg"
    using wf assms(2,3) by (auto simp: enumerable_iff hasSuccessor_def last_of_def split: if_splits)
  moreover have "\<not> dropsFirstAnswer rg"
    using assms(1,4) NewPulseRange_sparse [of data] by (cases rg rule: dropsFirstAnswer.cases) auto
  ultimately show ?thesis
    by (simp add: EnumNumbers_collect number_search.enum_search)
qed

theorem range_search_witness:
  "\<exists>xs :: step list. EnumNumbers (OnePulseRange (pulsarAt 70040 10 10))
       (\<lambda>x s. (fst x = (70040 :: Number), s)) (0 :: nat) =
     Ok (list_ex (\<lambda>x. fst x = 70040) xs, 0)"
  using range_search [OF sample_next_range, of "pulsarAt 70040 10 10" "\<lambda>x. fst x = 70040" "0 :: nat"] by auto

text \<open>
  The excluded case of the search is real: for a sparse range that starts with a regular pulse,
  \<^verbatim>\<open>sparsePulseRange.EnumNumbers\<close> drops the callback's answer for the first pulse and calls it again
  although it asked to stop.
\<close>

theorem sparse_enum_ignores_first_stop:
  "\<exists>data rg x y. NewPulseRange data = Ok rg \<and>
     EnumNumbers rg (\<lambda>x acc. (True, acc @ [x])) [] = Ok (True, [x, y])"
proof (intro exI conjI)
  show "EnumNumbers (sparsePulseRange [pulsarAt 70000 5 10, pulsarAt 70030 10 10])
      (\<lambda>x acc. (True, acc @ [x])) [] = Ok (True, [(70000, 5, 10), (70010, 10, 10)])"
    by (simp add: pulsarAt_def range_eval Let_def enumSegments.simps stepOf_def segmentDelta_def
        MaxUint16_def)
qed (rule sample_range)

text \<open>
  The condition on the right bound is real too: a sparse range whose last pulse is so late that
  no number can follow it is accepted by \<^verbatim>\<open>NewPulseRange\<close>, but enumerating it panics, because the
  loop computes the successor of the last pulse as well.
\<close>

theorem sparse_enum_panics_at_last_pulse:
  "\<exists>data rg. NewPulseRange data = Ok rg \<and> EnumNumbers rg collect [] = Panic ''overflow''"
proof (intro exI conjI)
  let ?data = "[pulsarAt 1073741700 5 10, pulsarAt 1073741823 10 10]"
  show "NewPulseRange ?data = Ok (sparsePulseRange ?data)"
    by (simp add: pulsarAt_def range_eval)
  show "EnumNumbers (sparsePulseRange ?data) collect [] = Panic ''overflow''"
    by (simp add: pulsarAt_def range_eval Let_def enumSegments.simps stepOf_def segmentDelta_def
        MaxUint16_def collect_def)
qed

end
