(* ===== verification/Key_Set.thy ===== *)
theory Key_Set
  imports Prelude
begin

text \<open>
  The immutable key sets of \<^verbatim>\<open>vanilla/keyset\<close>: sets of byte-string keys that are either closed (they
  list the keys they contain) or open (they list the keys they exclude).  A Go map used as a set is
  \<open>None\<close> when it is nil, otherwise the list of its keys in the order in which \<^verbatim>\<open>range\<close> visits them;
  every statement holds for each such order.  A key list supplied by a client of the package is a
  record of the results of its three methods, with \<open>keyList_ok\<close> for what its interface documents.
  The abstraction \<open>keysOf\<close> maps a key set to the mathematical set it stands for, and the operations
  are shown to be the operations of set algebra.
\<close>

type_synonym Key = "u8 list"

subsection \<open>Key lists and maps used as sets\<close>

record KeyList =
  kl_Contains :: "Key \<Rightarrow> bool"
  kl_keys :: "Key list"
  kl_Count :: int

definition keyList_ok :: "KeyList \<Rightarrow> bool" where
  "keyList_ok l \<longleftrightarrow> distinct (kl_keys l) \<and> kl_Count l = int (length (kl_keys l)) \<and>
     (\<forall>k. kl_Contains l k \<longleftrightarrow> k \<in> set (kl_keys l))"

type_synonym basicKeySet = "Key list option"

definition emptyBasicKeySet :: basicKeySet where
  "emptyBasicKeySet = None"

definition newBasicKeySet :: "int \<Rightarrow> basicKeySet res" where
  "newBasicKeySet n = (if n < 0 then Panic ''illegal value'' else Ok (Some []))"

fun basic_keys :: "basicKeySet \<Rightarrow> Key list" where
  "basic_keys None = []"
| "basic_keys (Some ks) = ks"

definition basic_Count :: "basicKeySet \<Rightarrow> int" where
  "basic_Count v = int (length (basic_keys v))"

definition basic_isEmpty :: "basicKeySet \<Rightarrow> bool" where
  "basic_isEmpty v \<longleftrightarrow> basic_Count v = 0"

definition basic_Contains :: "basicKeySet \<Rightarrow> Key \<Rightarrow> bool" where
  "basic_Contains v k \<longleftrightarrow> k \<in> set (basic_keys v)"

text \<open>Deleting from a nil map does nothing; assigning to a nil map panics.\<close>

definition basic_remove :: "Key \<Rightarrow> basicKeySet \<Rightarrow> basicKeySet" where
  "basic_remove k v = map_option (removeAll k) v"

fun basic_add :: "Key \<Rightarrow> basicKeySet \<Rightarrow> basicKeySet res" where
  "basic_add k None = Panic ''assignment to entry in nil map''"
| "basic_add k (Some ks) = Ok (Some (List.insert k ks))"

definition basic_EnumKeys :: "basicKeySet \<Rightarrow> (Key \<Rightarrow> 's \<Rightarrow> bool \<times> 's) \<Rightarrow> 's \<Rightarrow> bool \<times> 's" where
  "basic_EnumKeys v fn s = run_until fn (basic_keys v) s"

definition basic_copy :: "basicKeySet \<Rightarrow> int \<Rightarrow> basicKeySet" where
  "basic_copy v n = (let n' = (if n < basic_Count v then basic_Count v else n)
     in if n' = 0 then None else Some (basic_keys v))"

subsection \<open>Overlays and the internal sets\<close>

text \<open>
  An overlay adds \<open>ov_includes\<close> to a client's key list and hides \<open>ov_excludes\<close>.  The fields of the Go
  struct are an inclusive and an exclusive mutable set; both always hold a map.
\<close>

record listOverlay =
  ov_immutable :: KeyList
  ov_includes :: basicKeySet
  ov_excludes :: basicKeySet

definition overlay_Count :: "listOverlay \<Rightarrow> int" where
  "overlay_Count v = kl_Count (ov_immutable v) - basic_Count (ov_excludes v) + basic_Count (ov_includes v)"

definition overlay_Contains :: "listOverlay \<Rightarrow> Key \<Rightarrow> bool" where
  "overlay_Contains v k \<longleftrightarrow> \<not> basic_Contains (ov_excludes v) k \<and>
     (kl_Contains (ov_immutable v) k \<or> basic_Contains (ov_includes v) k)"

definition overlay_EnumKeys :: "listOverlay \<Rightarrow> (Key \<Rightarrow> 's \<Rightarrow> bool \<times> 's) \<Rightarrow> 's \<Rightarrow> bool \<times> 's" where
  "overlay_EnumKeys v fn s = (case basic_EnumKeys (ov_includes v) fn s of (stop, s') \<Rightarrow>
     if stop then (True, s')
     else run_until (\<lambda>k s. if basic_Contains (ov_excludes v) k then (False, s) else fn k s)
            (kl_keys (ov_immutable v)) s')"

text \<open>The overlay reports every key as not exclusive, whatever set it belongs to.\<close>

definition overlay_enumRawKeys ::
  "listOverlay \<Rightarrow> bool \<Rightarrow> (Key \<Rightarrow> bool \<Rightarrow> 's \<Rightarrow> bool \<times> 's) \<Rightarrow> 's \<Rightarrow> bool \<times> 's" where
  "overlay_enumRawKeys v exclusive fn s =
     (case basic_EnumKeys (ov_includes v) (\<lambda>k. fn k False) s of (stop, s') \<Rightarrow>
       if stop then (True, s')
       else run_until (\<lambda>k s. if basic_Contains (ov_excludes v) k then (False, s) else fn k False s)
              (kl_keys (ov_immutable v)) s')"

datatype internalKeySet = Basic basicKeySet | listSet KeyList | Overlay listOverlay

fun i_Contains :: "internalKeySet \<Rightarrow> Key \<Rightarrow> bool" where
  "i_Contains (Basic v) k = basic_Contains v k"
| "i_Contains (listSet l) k = kl_Contains l k"
| "i_Contains (Overlay v) k = overlay_Contains v k"

fun i_Count :: "internalKeySet \<Rightarrow> int" where
  "i_Count (Basic v) = basic_Count v"
| "i_Count (listSet l) = kl_Count l"
| "i_Count (Overlay v) = overlay_Count v"

fun i_EnumKeys :: "internalKeySet \<Rightarrow> (Key \<Rightarrow> 's \<Rightarrow> bool \<times> 's) \<Rightarrow> 's \<Rightarrow> bool \<times> 's" where
  "i_EnumKeys (Basic v) fn s = basic_EnumKeys v fn s"
| "i_EnumKeys (listSet l) fn s = run_until fn (kl_keys l) s"
| "i_EnumKeys (Overlay v) fn s = overlay_EnumKeys v fn s"

fun enumRawKeys :: "internalKeySet \<Rightarrow> bool \<Rightarrow> (Key \<Rightarrow> bool \<Rightarrow> 's \<Rightarrow> bool \<times> 's) \<Rightarrow> 's \<Rightarrow> bool \<times> 's" where
  "enumRawKeys (Basic v) exclusive fn s = basic_EnumKeys v (\<lambda>k. fn k exclusive) s"
| "enumRawKeys (listSet l) exclusive fn s = run_until (\<lambda>k. fn k exclusive) (kl_keys l) s"
| "enumRawKeys (Overlay v) exclusive fn s = overlay_enumRawKeys v exclusive fn s"

text \<open>
  The copy of a set that is not a map: a map of the larger of the two sizes is made, unless that
  is zero, and every key is added to it.
\<close>

definition listSet_copy :: "internalKeySet \<Rightarrow> int \<Rightarrow> basicKeySet res" where
  "listSet_copy v n = (let n' = (if n < i_Count v then i_Count v else n)
     in if n' = 0 then Ok None
        else snd (i_EnumKeys v (\<lambda>k r. (False, bnd r (basic_add k))) (Ok (Some []))))"

fun i_copy :: "internalKeySet \<Rightarrow> int \<Rightarrow> basicKeySet res" where
  "i_copy (Basic v) n = Ok (basic_copy v n)"
| "i_copy (listSet l) n = listSet_copy (listSet l) n"
| "i_copy (Overlay v) n = listSet_copy (Overlay v) n"

subsection \<open>Key sets\<close>

datatype KeySet = oneKeySet Key | inclusiveKeySet internalKeySet | exclusiveKeySet internalKeySet

definition Nothing :: KeySet where
  "Nothing = inclusiveKeySet (Basic emptyBasicKeySet)"

definition Everything :: KeySet where
  "Everything = exclusiveKeySet (Basic emptyBasicKeySet)"

fun RawKeyCount :: "KeySet \<Rightarrow> int" where
  "RawKeyCount (oneKeySet k) = 1"
| "RawKeyCount (inclusiveKeySet v) = i_Count v"
| "RawKeyCount (exclusiveKeySet v) = i_Count v"

fun EnumRawKeys :: "KeySet \<Rightarrow> (Key \<Rightarrow> bool \<Rightarrow> 's \<Rightarrow> bool \<times> 's) \<Rightarrow> 's \<Rightarrow> bool \<times> 's" where
  "EnumRawKeys (oneKeySet k) fn s = fn k False s"
| "EnumRawKeys (inclusiveKeySet v) fn s = enumRawKeys v False fn s"
| "EnumRawKeys (exclusiveKeySet v) fn s = enumRawKeys v True fn s"

fun IsNothing :: "KeySet \<Rightarrow> bool" where
  "IsNothing (oneKeySet k) = False"
| "IsNothing (inclusiveKeySet v) = (i_Count v = 0)"
| "IsNothing (exclusiveKeySet v) = False"

fun IsEverything :: "KeySet \<Rightarrow> bool" where
  "IsEverything (oneKeySet k) = False"
| "IsEverything (inclusiveKeySet v) = False"
| "IsEverything (exclusiveKeySet v) = (i_Count v = 0)"

fun IsOpenSet :: "KeySet \<Rightarrow> bool" where
  "IsOpenSet (oneKeySet k) = False"
| "IsOpenSet (inclusiveKeySet v) = False"
| "IsOpenSet (exclusiveKeySet v) = True"

fun Contains :: "KeySet \<Rightarrow> Key \<Rightarrow> bool" where
  "Contains (oneKeySet key) k = (key = k)"
| "Contains (inclusiveKeySet v) k = i_Contains v k"
| "Contains (exclusiveKeySet v) k = (\<not> i_Contains v k)"

text \<open>
  The result of an enumeration whose callback is a test: true when some visited key passes it.
\<close>

definition anyRawKey :: "KeySet \<Rightarrow> (Key \<Rightarrow> bool) \<Rightarrow> bool" where
  "anyRawKey ks p = fst (EnumRawKeys ks (\<lambda>k exclusive s. (p k, s)) ())"

definition anyKey :: "internalKeySet \<Rightarrow> (Key \<Rightarrow> bool) \<Rightarrow> bool" where
  "anyKey v p = fst (i_EnumKeys v (\<lambda>k s. (p k, s)) ())"

definition one_ContainsAny :: "Key \<Rightarrow> KeySet \<Rightarrow> bool" where
  [simp]: "one_ContainsAny key ks =
     Contains ks key"

definition inclusive_ContainsAny :: "internalKeySet \<Rightarrow> KeySet \<Rightarrow> bool" where
  [simp]: "inclusive_ContainsAny v ks =
     (if IsOpenSet ks
      then if i_Count v > RawKeyCount ks then True else anyKey v (Contains ks)
      else if i_Count v > RawKeyCount ks then anyRawKey ks (i_Contains v)
      else anyKey v (Contains ks))"

definition exclusive_ContainsAny :: "internalKeySet \<Rightarrow> KeySet \<Rightarrow> bool" where
  [simp]: "exclusive_ContainsAny v ks =
     (if \<not> IsOpenSet ks \<and> i_Count v \<ge> RawKeyCount ks
      then anyRawKey ks (Contains (exclusiveKeySet v)) else True)"

fun ContainsAny :: "KeySet \<Rightarrow> KeySet \<Rightarrow> bool" where
  "ContainsAny (oneKeySet key) ks = one_ContainsAny key ks"
| "ContainsAny (inclusiveKeySet v) ks = inclusive_ContainsAny v ks"
| "ContainsAny (exclusiveKeySet v) ks = exclusive_ContainsAny v ks"

definition one_SupersetOf :: "Key \<Rightarrow> KeySet \<Rightarrow> bool" where
  [simp]: "one_SupersetOf key ks =
     (if IsOpenSet ks then False
      else if RawKeyCount ks = 0 then True
      else if RawKeyCount ks = 1 then Contains ks key
      else False)"

definition inclusive_SupersetOf :: "internalKeySet \<Rightarrow> KeySet \<Rightarrow> bool" where
  [simp]: "inclusive_SupersetOf v ks =
     (if IsOpenSet ks \<or> i_Count v < RawKeyCount ks then False
      else \<not> anyRawKey ks (\<lambda>k. \<not> i_Contains v k))"

definition exclusive_SupersetOf :: "internalKeySet \<Rightarrow> KeySet \<Rightarrow> bool" where
  [simp]: "exclusive_SupersetOf v ks =
     (if i_Count v > RawKeyCount ks
      then if \<not> IsOpenSet ks then \<not> anyRawKey ks (\<lambda>k. \<not> Contains (exclusiveKeySet v) k) else False
      else \<not> anyKey v (Contains ks))"

fun SupersetOf :: "KeySet \<Rightarrow> KeySet \<Rightarrow> bool" where
  "SupersetOf (oneKeySet key) ks = one_SupersetOf key ks"
| "SupersetOf (inclusiveKeySet v) ks = inclusive_SupersetOf v ks"
| "SupersetOf (exclusiveKeySet v) ks = exclusive_SupersetOf v ks"

definition one_SubsetOf :: "Key \<Rightarrow> KeySet \<Rightarrow> bool" where
  [simp]: "one_SubsetOf key ks =
     Contains ks key"

definition inclusive_SubsetOf :: "internalKeySet \<Rightarrow> KeySet \<Rightarrow> bool" where
  [simp]: "inclusive_SubsetOf v ks =
     (if i_Count v > RawKeyCount ks
      then if IsOpenSet ks then \<not> anyRawKey ks (i_Contains v) else False
      else \<not> anyKey v (\<lambda>k. \<not> Contains ks k))"

definition exclusive_SubsetOf :: "internalKeySet \<Rightarrow> KeySet \<Rightarrow> bool" where
  [simp]: "exclusive_SubsetOf v ks =
     (if \<not> IsOpenSet ks \<or> i_Count v < RawKeyCount ks then False
      else \<not> anyRawKey ks (Contains (exclusiveKeySet v)))"

fun SubsetOf :: "KeySet \<Rightarrow> KeySet \<Rightarrow> bool" where
  "SubsetOf (oneKeySet key) ks = one_SubsetOf key ks"
| "SubsetOf (inclusiveKeySet v) ks = inclusive_SubsetOf v ks"
| "SubsetOf (exclusiveKeySet v) ks = exclusive_SubsetOf v ks"

definition one_Equal :: "Key \<Rightarrow> KeySet \<Rightarrow> bool" where
  [simp]: "one_Equal key ks =
     (if IsOpenSet ks \<or> 1 \<noteq> RawKeyCount ks then False else Contains ks key)"

definition inclusive_Equal :: "internalKeySet \<Rightarrow> KeySet \<Rightarrow> bool" where
  [simp]: "inclusive_Equal v ks =
     (if IsOpenSet ks \<or> i_Count v \<noteq> RawKeyCount ks then False
      else \<not> anyKey v (\<lambda>k. \<not> Contains ks k))"

definition exclusive_Equal :: "internalKeySet \<Rightarrow> KeySet \<Rightarrow> bool" where
  [simp]: "exclusive_Equal v ks =
     (if \<not> IsOpenSet ks \<or> i_Count v \<noteq> RawKeyCount ks then False
      else \<not> anyKey v (Contains ks))"

fun Equal :: "KeySet \<Rightarrow> KeySet \<Rightarrow> bool" where
  "Equal (oneKeySet key) ks = one_Equal key ks"
| "Equal (inclusiveKeySet v) ks = inclusive_Equal v ks"
| "Equal (exclusiveKeySet v) ks = exclusive_Equal v ks"

definition one_EqualInverse :: "Key \<Rightarrow> KeySet \<Rightarrow> bool" where
  [simp]: "one_EqualInverse key ks =
     (if \<not> IsOpenSet ks \<or> 1 \<noteq> RawKeyCount ks then False else \<not> Contains ks key)"

definition inclusive_EqualInverse :: "internalKeySet \<Rightarrow> KeySet \<Rightarrow> bool" where
  [simp]: "inclusive_EqualInverse v ks =
     (if \<not> IsOpenSet ks \<or> i_Count v \<noteq> RawKeyCount ks then False
      else \<not> anyKey v (Contains ks))"

definition exclusive_EqualInverse :: "internalKeySet \<Rightarrow> KeySet \<Rightarrow> bool" where
  [simp]: "exclusive_EqualInverse v ks =
     (if IsOpenSet ks \<or> i_Count v \<noteq> RawKeyCount ks then False
      else \<not> anyKey v (\<lambda>k. \<not> Contains ks k))"

fun EqualInverse :: "KeySet \<Rightarrow> KeySet \<Rightarrow> bool" where
  "EqualInverse (oneKeySet key) ks = one_EqualInverse key ks"
| "EqualInverse (inclusiveKeySet v) ks = inclusive_EqualInverse v ks"
| "EqualInverse (exclusiveKeySet v) ks = exclusive_EqualInverse v ks"

fun Inverse :: "KeySet \<Rightarrow> KeySet" where
  "Inverse (oneKeySet key) = exclusiveKeySet (Basic (Some [key]))"
| "Inverse (inclusiveKeySet v) = exclusiveKeySet v"
| "Inverse (exclusiveKeySet v) = inclusiveKeySet v"

subsection \<open>Building sets\<close>

text \<open>The callback that adds every key to a map, and the one that adds the keys passing a test.\<close>

definition addKey :: "Key \<Rightarrow> basicKeySet res \<Rightarrow> bool \<times> basicKeySet res" where
  "addKey k r = (False, bnd r (basic_add k))"

definition addKeyIf :: "(Key \<Rightarrow> bool) \<Rightarrow> Key \<Rightarrow> basicKeySet res \<Rightarrow> bool \<times> basicKeySet res" where
  "addKeyIf p k r = (False, if p k then bnd r (basic_add k) else r)"

definition keyUnion :: "internalKeySet \<Rightarrow> KeySet \<Rightarrow> basicKeySet res" where
  "keyUnion v ks = snd (EnumRawKeys ks (\<lambda>k exclusive. addKey k) (i_copy v (RawKeyCount ks)))"

definition keyIntersect :: "internalKeySet \<Rightarrow> KeySet \<Rightarrow> basicKeySet res" where
  "keyIntersect v ks =
     (if RawKeyCount ks < i_Count v
      then snd (EnumRawKeys ks (\<lambda>k exclusive. addKeyIf (i_Contains v) k) (Ok (Some [])))
      else snd (i_EnumKeys v (addKeyIf (\<lambda>k. Contains ks k \<noteq> IsOpenSet ks)) (newBasicKeySet (i_Count v))))"

definition keySubtract :: "internalKeySet \<Rightarrow> KeySet \<Rightarrow> basicKeySet res" where
  "keySubtract v ks =
     (if RawKeyCount ks < i_Count v div 2
      then bnd (i_copy v 0) (\<lambda>r.
             Ok (snd (EnumRawKeys ks (\<lambda>k exclusive r. (False, basic_remove k r)) r)))
      else snd (i_EnumKeys v (addKeyIf (\<lambda>k. Contains ks k = IsOpenSet ks)) (newBasicKeySet (i_Count v))))"

text \<open>Wraps a freshly built map as a closed or an open set.\<close>

definition incl :: "basicKeySet res \<Rightarrow> KeySet res" where
  "incl r = bnd r (\<lambda>ks. Ok (inclusiveKeySet (Basic ks)))"

definition excl :: "basicKeySet res \<Rightarrow> KeySet res" where
  "excl r = bnd r (\<lambda>ks. Ok (exclusiveKeySet (Basic ks)))"

definition exclusive_Union :: "internalKeySet \<Rightarrow> KeySet \<Rightarrow> KeySet res" where
  [simp]: "exclusive_Union v ks =
     (if i_Count v = 0 then Ok (exclusiveKeySet v)
      else if \<not> IsOpenSet ks then excl (keySubtract v ks)
      else if RawKeyCount ks = 0 then Ok ks
      else excl (keyIntersect v ks))"

function set_Union :: "KeySet \<Rightarrow> KeySet \<Rightarrow> KeySet res" where
  "set_Union (oneKeySet key) ks =
     (if Contains ks key then Ok ks
      else if IsOpenSet ks
      then if RawKeyCount ks = 0 then Panic ''illegal state''
           else if RawKeyCount ks = 1 then Ok Everything
           else set_Union ks (oneKeySet key)
      else if RawKeyCount ks = 0 then Ok (oneKeySet key)
      else incl (keyUnion (Basic (Some [key])) ks))"
| "set_Union (inclusiveKeySet v) ks =
     (if IsOpenSet ks then set_Union ks (inclusiveKeySet v)
      else if i_Count v = 0 then Ok ks
      else if RawKeyCount ks = 0 then Ok (inclusiveKeySet v)
      else incl (keyUnion v ks))"
| "set_Union (exclusiveKeySet v) ks = exclusive_Union v ks"
  by pat_completeness auto

termination
  by (relation "measure (\<lambda>(v, ks). if IsOpenSet v then 0 else 1)") auto

definition one_Intersect :: "Key \<Rightarrow> KeySet \<Rightarrow> KeySet res" where
  [simp]: "one_Intersect key ks =
     (if Contains ks key then Ok (oneKeySet key)
      else if RawKeyCount ks = 0 then Ok ks
      else Ok Nothing)"

definition inclusive_Intersect :: "internalKeySet \<Rightarrow> KeySet \<Rightarrow> KeySet res" where
  [simp]: "inclusive_Intersect v ks =
     (if i_Count v = 0 then Ok (inclusiveKeySet v)
      else if IsOpenSet ks then incl (keySubtract v ks)
      else if RawKeyCount ks = 0 then Ok ks
      else incl (keyIntersect v ks))"

function Intersect :: "KeySet \<Rightarrow> KeySet \<Rightarrow> KeySet res" where
  "Intersect (oneKeySet key) ks = one_Intersect key ks"
| "Intersect (inclusiveKeySet v) ks = inclusive_Intersect v ks"
| "Intersect (exclusiveKeySet v) ks =
     (if \<not> IsOpenSet ks then Intersect ks (exclusiveKeySet v)
      else if i_Count v = 0 then Ok ks
      else if RawKeyCount ks = 0 then Ok (exclusiveKeySet v)
      else excl (keyUnion v ks))"
  by pat_completeness auto

termination
  by (relation "measure (\<lambda>(v, ks). if IsOpenSet v then 1 else 0)") auto

definition one_Subtract :: "Key \<Rightarrow> KeySet \<Rightarrow> KeySet res" where
  [simp]: "one_Subtract key ks =
     (if Contains ks key then Ok Nothing else Ok (oneKeySet key))"

definition inclusive_Subtract :: "internalKeySet \<Rightarrow> KeySet \<Rightarrow> KeySet res" where
  [simp]: "inclusive_Subtract v ks =
     (if i_Count v = 0 then Ok (inclusiveKeySet v)
      else if IsOpenSet ks then incl (keyIntersect v ks)
      else if RawKeyCount ks = 0 then Ok (inclusiveKeySet v)
      else incl (keySubtract v ks))"

function Subtract :: "KeySet \<Rightarrow> KeySet \<Rightarrow> KeySet res" where
  "Subtract (oneKeySet key) ks = one_Subtract key ks"
| "Subtract (inclusiveKeySet v) ks = inclusive_Subtract v ks"
| "Subtract (exclusiveKeySet v) ks =
     (if \<not> IsOpenSet ks then excl (keyUnion v ks)
      else if RawKeyCount ks = 0 then Ok Nothing
      else if i_Count v = 0 then Ok (Inverse ks)
      else Subtract (Inverse ks) (Inverse (exclusiveKeySet v)))"
  by pat_completeness auto

termination
proof (relation "measure (\<lambda>(v, ks). if IsOpenSet v then 1 else 0)")
  show "((Inverse ks, Inverse (exclusiveKeySet v)), exclusiveKeySet v, ks)
      \<in> measure (\<lambda>(v, ks). if IsOpenSet v then 1 else 0)" if "\<not> \<not> IsOpenSet ks" for v ks
    using that by (cases ks) auto
qed simp

text \<open>
  The constructors of \<^verbatim>\<open>keyset.go\<close>.  The first branch of \<^verbatim>\<open>CopySet\<close> is a type assertion that no key
  set of the package satisfies, so a copy is always made through the raw keys.
\<close>

definition SoloKeySet :: "Key \<Rightarrow> KeySet" where
  "SoloKeySet k = oneKeySet k"

definition newKeySet :: "bool \<Rightarrow> internalKeySet \<Rightarrow> KeySet" where
  "newKeySet exclusive ks = (if exclusive then exclusiveKeySet ks else inclusiveKeySet ks)"

fun New :: "Key list \<Rightarrow> KeySet res" where
  "New [] = Ok Nothing"
| "New [k] = Ok (SoloKeySet k)"
| "New ks = incl (snd (run_until addKey ks (Ok (Some []))))"

definition Wrap :: "KeyList option \<Rightarrow> KeySet res" where
  "Wrap keys = (case keys of None \<Rightarrow> Panic ''illegal state'' | Some l \<Rightarrow> Ok (inclusiveKeySet (listSet l)))"

definition CopyList :: "KeyList \<Rightarrow> KeySet res" where
  "CopyList keys = (if kl_Count keys = 0 then Ok Nothing else incl (listSet_copy (listSet keys) 0))"

definition CopySet :: "KeySet \<Rightarrow> KeySet res" where
  "CopySet keys =
     (if RawKeyCount keys > 0
      then bnd (snd (EnumRawKeys keys (\<lambda>k exclusive. addKey k) (Ok (Some []))))
             (\<lambda>ks. Ok (newKeySet (IsOpenSet keys) (Basic ks)))
      else if RawKeyCount keys \<noteq> 0 then Panic ''illegal state''
      else if IsOpenSet keys then Ok Everything
      else Ok Nothing)"

subsection \<open>Well-formed sets and the keys they list\<close>

definition basic_ok :: "basicKeySet \<Rightarrow> bool" where
  "basic_ok v \<longleftrightarrow> distinct (basic_keys v)"

definition overlay_ok :: "listOverlay \<Rightarrow> bool" where
  "overlay_ok v \<longleftrightarrow> keyList_ok (ov_immutable v) \<and> basic_ok (ov_includes v) \<and> basic_ok (ov_excludes v) \<and>
     set (basic_keys (ov_includes v)) \<inter> set (kl_keys (ov_immutable v)) = {} \<and>
     set (basic_keys (ov_excludes v)) \<subseteq> set (kl_keys (ov_immutable v))"

fun i_ok :: "internalKeySet \<Rightarrow> bool" where
  "i_ok (Basic v) = basic_ok v"
| "i_ok (listSet l) = keyList_ok l"
| "i_ok (Overlay v) = overlay_ok v"

fun rawKeys :: "internalKeySet \<Rightarrow> Key list" where
  "rawKeys (Basic v) = basic_keys v"
| "rawKeys (listSet l) = kl_keys l"
| "rawKeys (Overlay v) =
     basic_keys (ov_includes v) @ filter (\<lambda>k. \<not> basic_Contains (ov_excludes v) k) (kl_keys (ov_immutable v))"

fun set_ok :: "KeySet \<Rightarrow> bool" where
  "set_ok (oneKeySet k) = True"
| "set_ok (inclusiveKeySet v) = i_ok v"
| "set_ok (exclusiveKeySet v) = i_ok v"

fun listed :: "KeySet \<Rightarrow> Key list" where
  "listed (oneKeySet k) = [k]"
| "listed (inclusiveKeySet v) = rawKeys v"
| "listed (exclusiveKeySet v) = rawKeys v"

definition keysOf :: "KeySet \<Rightarrow> Key set" where
  "keysOf ks = (if IsOpenSet ks then - set (listed ks) else set (listed ks))"

lemma overlay_count:
  assumes "overlay_ok v" shows "overlay_Count v = int (length (rawKeys (Overlay v)))"
proof -
  let ?im = "kl_keys (ov_immutable v)" and ?ex = "basic_keys (ov_excludes v)"
  have "distinct ?im" "distinct ?ex" "set ?ex \<subseteq> set ?im"
    using assms by (auto simp: overlay_ok_def keyList_ok_def basic_ok_def)
  then have "length (filter (\<lambda>k. k \<in> set ?ex) ?im) = length ?ex"
    by (intro length_eq_if_set_eq) auto
  with sum_length_filter_compl [of "\<lambda>k. k \<in> set ?ex" ?im] assms show ?thesis
    by (simp add: overlay_Count_def basic_Count_def basic_Contains_def overlay_ok_def keyList_ok_def)
qed

lemma raw_facts:
  assumes "i_ok v"
  shows "i_Count v = int (length (rawKeys v))" "distinct (rawKeys v)"
    "i_Contains v k \<longleftrightarrow> k \<in> set (rawKeys v)"
proof -
  show "i_Count v = int (length (rawKeys v))"
  proof (cases v)
    case (Overlay w)
    with assms show ?thesis using overlay_count by simp
  qed (use assms in \<open>auto simp: basic_Count_def keyList_ok_def\<close>)
  show "distinct (rawKeys v)"
    using assms by (cases v) (auto simp: basic_ok_def keyList_ok_def overlay_ok_def)
  show "i_Contains v k \<longleftrightarrow> k \<in> set (rawKeys v)"
    using assms by (cases v)
      (auto simp: basic_Contains_def basic_ok_def keyList_ok_def overlay_ok_def overlay_Contains_def)
qed

lemma i_EnumKeys_run: "i_EnumKeys v fn s = run_until fn (rawKeys v) s"
  by (cases v) (simp_all add: basic_EnumKeys_def overlay_EnumKeys_def run_until_append run_until_skip
      split: prod.splits)

lemma enumRawKeys_run:
  "enumRawKeys v exclusive (\<lambda>k e. fn k) s = run_until fn (rawKeys v) s"
  by (cases v) (simp_all add: basic_EnumKeys_def overlay_enumRawKeys_def run_until_append run_until_skip
      split: prod.splits)

lemma EnumRawKeys_run: "EnumRawKeys ks (\<lambda>k e. fn k) s = run_until fn (listed ks) s"
  by (cases ks) (auto simp: enumRawKeys_run split: prod.splits)

lemma anyRawKey_iff [simp]: "anyRawKey ks p \<longleftrightarrow> (\<exists>k \<in> set (listed ks). p k)"
  by (simp add: anyRawKey_def EnumRawKeys_run run_until_search list_ex_iff)

lemma anyKey_iff [simp]: "anyKey v p \<longleftrightarrow> (\<exists>k \<in> set (rawKeys v). p k)"
  by (simp add: anyKey_def i_EnumKeys_run run_until_search list_ex_iff)

lemma set_facts:
  assumes "set_ok ks"
  shows "RawKeyCount ks = int (length (listed ks))" "distinct (listed ks)"
    "Contains ks k \<longleftrightarrow> k \<in> keysOf ks"
  using assms by (cases ks; auto simp: raw_facts keysOf_def)+

lemmas view = raw_facts set_facts

subsection \<open>The maps that the operations build\<close>

lemma add_loop:
  "run_until (addKeyIf p) xs (Ok (Some ks)) = (False, Ok (Some (fold List.insert (filter p xs) ks)))"
  by (induction xs arbitrary: ks) (auto simp: addKeyIf_def)

lemma addKey_If: "addKey = addKeyIf (\<lambda>k. True)"
  by (simp add: addKey_def addKeyIf_def fun_eq_iff)

lemma add_loop_all: "run_until addKey xs (Ok (Some ks)) = (False, Ok (Some (fold List.insert xs ks)))"
  by (simp add: addKey_If add_loop)

lemma fold_insert: "set (fold List.insert xs ks) = set ks \<union> set xs"
  "distinct ks \<Longrightarrow> distinct (fold List.insert xs ks)"
  by (induction xs arbitrary: ks) auto

lemma remove_loop:
  "run_until (\<lambda>k r. (False, basic_remove k r)) xs v = (False, map_option (filter (\<lambda>k. k \<notin> set xs)) v)"
proof (induction xs arbitrary: v)
  case Nil then show ?case by (cases v) auto
next
  case (Cons x xs)
  then show ?case
    by (cases v) (auto simp: basic_remove_def removeAll_filter_not_eq intro: filter_cong)
qed

text \<open>What a freshly built map has to be: free of duplicates, with the given keys.\<close>

definition builds :: "basicKeySet res \<Rightarrow> Key set \<Rightarrow> bool" where
  "builds r A \<longleftrightarrow> (\<exists>v. r = Ok v \<and> basic_ok v \<and> set (basic_keys v) = A)"

lemma builds_add: "builds (snd (run_until (addKeyIf p) xs (Ok (Some [])))) {k \<in> set xs. p k}"
  by (auto simp: add_loop builds_def basic_ok_def fold_insert)

lemma builds_add_all: "builds (snd (run_until addKey xs (Ok (Some [])))) (set xs)"
  by (simp add: addKey_If) (use builds_add [of "\<lambda>k. True" xs] in simp)

lemma listSet_copy_builds: "i_ok v \<Longrightarrow> builds (listSet_copy v n) (set (rawKeys v))"
  using builds_add_all [of "rawKeys v"]
  by (auto simp: listSet_copy_def Let_def i_EnumKeys_run addKey_def [abs_def] view
      builds_def basic_ok_def split: if_splits)

lemma i_copy_builds: "i_ok v \<Longrightarrow> builds (i_copy v n) (set (rawKeys v))"
  using listSet_copy_builds [of v n]
  by (cases v) (auto simp: basic_copy_def Let_def basic_Count_def basic_ok_def builds_def split: if_splits)

lemma listSet_copy_nil: "i_ok v \<Longrightarrow> listSet_copy v n = Ok None \<Longrightarrow> rawKeys v = [] \<and> n \<le> 0"
  by (auto simp: listSet_copy_def Let_def i_EnumKeys_run addKey_def [symmetric, abs_def] add_loop_all
      view split: if_splits)

lemma i_copy_nil: "i_ok v \<Longrightarrow> i_copy v n = Ok None \<Longrightarrow> rawKeys v = [] \<and> n \<le> 0"
  using listSet_copy_nil [of v n]
  by (cases v) (auto simp: basic_copy_def Let_def basic_Count_def split: if_splits)

lemma builds_incl:
  "builds r A \<Longrightarrow> \<exists>ks. incl r = Ok ks \<and> set_ok ks \<and> keysOf ks = A"
  by (auto simp: builds_def incl_def keysOf_def)

lemma builds_excl:
  "builds r A \<Longrightarrow> \<exists>ks. excl r = Ok ks \<and> set_ok ks \<and> keysOf ks = - A"
  by (auto simp: builds_def excl_def keysOf_def)

lemma keyUnion_builds:
  assumes "i_ok v" "set_ok ks"
  shows "builds (keyUnion v ks) (set (rawKeys v) \<union> set (listed ks))"
proof -
  obtain c where c: "i_copy v (RawKeyCount ks) = Ok c" "basic_ok c" "set (basic_keys c) = set (rawKeys v)"
    using i_copy_builds [OF assms(1)] by (auto simp: builds_def)
  show ?thesis
  proof (cases c)
    case None
    then have "rawKeys v = []" "RawKeyCount ks \<le> 0" using i_copy_nil [OF assms(1)] c(1) by auto
    with assms c None show ?thesis
      by (simp add: keyUnion_def EnumRawKeys_run view builds_def)
  next
    case (Some xs)
    with c show ?thesis
      by (auto simp: keyUnion_def EnumRawKeys_run add_loop_all builds_def basic_ok_def fold_insert)
  qed
qed

lemma keyIntersect_builds:
  assumes "i_ok v" "set_ok ks"
  shows "builds (keyIntersect v ks) (set (rawKeys v) \<inter> set (listed ks))"
proof (cases "RawKeyCount ks < i_Count v")
  case True
  have "{k \<in> set (listed ks). i_Contains v k} = set (rawKeys v) \<inter> set (listed ks)"
    using assms by (auto simp: view)
  with True builds_add [of "i_Contains v" "listed ks"] show ?thesis
    by (simp add: keyIntersect_def EnumRawKeys_run)
next
  case False
  have "{k \<in> set (rawKeys v). Contains ks k \<noteq> IsOpenSet ks} = set (rawKeys v) \<inter> set (listed ks)"
    using assms by (auto simp: view keysOf_def)
  with False assms builds_add [of "\<lambda>k. Contains ks k \<noteq> IsOpenSet ks" "rawKeys v"] show ?thesis
    by (simp add: keyIntersect_def i_EnumKeys_run newBasicKeySet_def view)
qed

lemma keySubtract_builds:
  assumes "i_ok v" "set_ok ks"
  shows "builds (keySubtract v ks) (set (rawKeys v) - set (listed ks))"
proof (cases "RawKeyCount ks < i_Count v div 2")
  case True
  then show ?thesis
    using i_copy_builds [OF assms(1), of 0]
    by (auto simp: keySubtract_def EnumRawKeys_run remove_loop builds_def basic_ok_def split: option.splits)
       (case_tac va; auto)+
next
  case False
  have "{k \<in> set (rawKeys v). Contains ks k = IsOpenSet ks} = set (rawKeys v) - set (listed ks)"
    using assms by (auto simp: view keysOf_def)
  with False assms builds_add [of "\<lambda>k. Contains ks k = IsOpenSet ks" "rawKeys v"] show ?thesis
    by (simp add: keySubtract_def i_EnumKeys_run newBasicKeySet_def view)
qed

lemmas builders = keyUnion_builds keyIntersect_builds keySubtract_builds

subsection \<open>The queries decide the relations of set algebra\<close>

lemma ContainsAny_iff:
  assumes "set_ok a" "set_ok b"
  shows "ContainsAny a b \<longleftrightarrow> keysOf a \<inter> keysOf b \<noteq> {}"
proof (cases a)
  case (oneKeySet k)
  with assms show ?thesis by (auto simp: view keysOf_def)
next
  case (inclusiveKeySet v)
  with assms longer_not_covered [of "rawKeys v" "listed b"] show ?thesis
    by (auto simp: view keysOf_def)
next
  case (exclusiveKeySet v)
  with assms longer_not_covered [of "listed b" "rawKeys v"] infinite_not_covered [of "rawKeys v" "listed b"]
  show ?thesis by (auto simp: view keysOf_def)
qed

lemma open_not_subset: "\<not> - set xs \<subseteq> set (ys :: Key list)"
  using infinite_not_covered [of xs ys] by auto

lemma SupersetOf_iff:
  assumes "set_ok a" "set_ok b"
  shows "SupersetOf a b \<longleftrightarrow> keysOf b \<subseteq> keysOf a"
proof (cases a)
  case (oneKeySet k)
  have "listed b = [] \<or> length (listed b) = 1 \<or> (\<exists>x \<in> set (listed b). x \<notin> set [k])"
    using longer_not_covered [of "listed b" "[k]"] assms(2) view(5) [of b] by (cases "listed b") auto
  with oneKeySet assms show ?thesis
    using open_not_subset [of "listed b" "[k]"] by (auto simp: view keysOf_def length_Suc_conv)
next
  case (inclusiveKeySet v)
  with assms covered_not_longer [of "listed b" "rawKeys v"] open_not_subset [of "listed b" "rawKeys v"]
  show ?thesis by (auto simp: view keysOf_def)
next
  case (exclusiveKeySet v)
  with assms covered_not_longer [of "rawKeys v" "listed b"] show ?thesis
    by (auto simp: view keysOf_def)
qed

lemma SubsetOf_iff:
  assumes "set_ok a" "set_ok b"
  shows "SubsetOf a b \<longleftrightarrow> keysOf a \<subseteq> keysOf b"
proof (cases a)
  case (oneKeySet k)
  with assms show ?thesis by (auto simp: view keysOf_def)
next
  case (inclusiveKeySet v)
  with assms covered_not_longer [of "rawKeys v" "listed b"] show ?thesis
    by (auto simp: view keysOf_def)
next
  case (exclusiveKeySet v)
  with assms covered_not_longer [of "listed b" "rawKeys v"] open_not_subset [of "rawKeys v" "listed b"]
  show ?thesis by (auto simp: view keysOf_def)
qed

lemma open_not_closed: "- set xs \<noteq> set (ys :: Key list)" "set (ys :: Key list) \<noteq> - set xs"
  using open_not_subset [of xs ys] by auto

lemma listed_eq_iff:
  "distinct xs \<Longrightarrow> distinct ys \<Longrightarrow> set xs = set ys \<longleftrightarrow> length xs = length ys \<and> set xs \<subseteq> set ys"
  using same_length_covered [of xs ys] length_eq_if_set_eq [of xs ys] by auto

lemma Equal_iff:
  assumes "set_ok a" "set_ok b"
  shows "Equal a b \<longleftrightarrow> keysOf a = keysOf b"
  using assms listed_eq_iff [of "listed a" "listed b"] open_not_closed [of "listed b" "listed a"]
    open_not_closed [of "listed a" "listed b"]
  by (cases a) (auto simp: view keysOf_def)

lemma EqualInverse_iff:
  assumes "set_ok a" "set_ok b"
  shows "EqualInverse a b \<longleftrightarrow> keysOf a = - keysOf b"
  using assms listed_eq_iff [of "listed a" "listed b"] open_not_closed [of "listed b" "listed a"]
    open_not_closed [of "listed a" "listed b"]
  by (cases a) (auto simp: view keysOf_def)

lemma IsNothing_iff: "set_ok a \<Longrightarrow> IsNothing a \<longleftrightarrow> keysOf a = {}"
  using infinite_not_covered [of "listed a" "[]"] by (cases a) (auto simp: view keysOf_def)

lemma Compl_is_UNIV [simp]: "- A = UNIV \<longleftrightarrow> A = {}"
  by auto

lemma IsEverything_iff: "set_ok a \<Longrightarrow> IsEverything a \<longleftrightarrow> keysOf a = UNIV"
  using infinite_not_covered [of "listed a" "[]"] by (cases a) (auto simp: view keysOf_def)

lemma IsOpenSet_iff: "set_ok a \<Longrightarrow> IsOpenSet a \<longleftrightarrow> infinite (keysOf a)"
  by (simp add: keysOf_def Compl_eq_Diff_UNIV infinite_UNIV_listI)

subsection \<open>The constructions are the operations of set algebra\<close>

text \<open>A construction that succeeds with a well-formed set of the given keys.\<close>

definition yields :: "KeySet res \<Rightarrow> Key set \<Rightarrow> bool" where
  "yields r A \<longleftrightarrow> (\<exists>ks. r = Ok ks \<and> set_ok ks \<and> keysOf ks = A)"

lemma yields_Ok [simp]: "yields (Ok ks) A \<longleftrightarrow> set_ok ks \<and> keysOf ks = A"
  by (simp add: yields_def)

lemma yields_incl: "builds r A \<Longrightarrow> A = B \<Longrightarrow> yields (incl r) B"
  by (auto simp: yields_def builds_def incl_def keysOf_def)

lemma yields_excl: "builds r A \<Longrightarrow> - A = B \<Longrightarrow> yields (excl r) B"
  by (auto simp: yields_def builds_def excl_def keysOf_def)

lemma empty_sets [simp]: "set_ok Nothing" "set_ok Everything" "keysOf Nothing = {}" "keysOf Everything = UNIV"
  "\<not> IsOpenSet Nothing" "IsOpenSet Everything" "listed Nothing = []" "listed Everything = []"
  by (simp_all add: Nothing_def Everything_def keysOf_def basic_ok_def emptyBasicKeySet_def)

lemma Inverse_ok: "set_ok a \<Longrightarrow> set_ok (Inverse a) \<and> keysOf (Inverse a) = - keysOf a"
  by (cases a) (auto simp: keysOf_def basic_ok_def)

lemma excl_Union_yields:
  assumes "i_ok v" "set_ok b"
  shows "yields (set_Union (exclusiveKeySet v) b) (keysOf (exclusiveKeySet v) \<union> keysOf b)"
  using assms builders [OF assms]
  by (auto simp: view keysOf_def intro!: yields_excl)

lemma excl_one_Union:
  assumes "set_ok b" "IsOpenSet b" "k \<notin> keysOf b"
  shows "RawKeyCount b \<noteq> 0" "RawKeyCount b = 1 \<Longrightarrow> insert k (keysOf b) = UNIV"
  using assms by (auto simp: view keysOf_def length_Suc_conv)

lemma Union_yields:
  assumes "set_ok a" "set_ok b"
  shows "yields (set_Union a b) (keysOf a \<union> keysOf b)"
proof (cases a)
  case (oneKeySet k)
  have i: "i_ok (Basic (Some [k]))" by (simp add: basic_ok_def)
  have "yields (set_Union b (oneKeySet k)) (insert k (keysOf b))" if "IsOpenSet b"
    using that assms(2) excl_Union_yields [of _ "oneKeySet k"]
    by (cases b) (auto simp: keysOf_def simp del: set_Union.simps)
  with oneKeySet assms builders [OF i assms(2)] excl_one_Union [of b k] show ?thesis
    by (auto simp: view keysOf_def intro!: yields_incl)
next
  case (inclusiveKeySet v)
  have "yields (set_Union b a) (keysOf a \<union> keysOf b)" if "IsOpenSet b"
    using that assms excl_Union_yields [of _ a] by (cases b) (auto simp: Un_commute simp del: set_Union.simps)
  with inclusiveKeySet assms builders [of v b] show ?thesis
    by (auto simp: view keysOf_def intro!: yields_incl)
next
  case (exclusiveKeySet v)
  with assms excl_Union_yields show ?thesis by simp
qed

lemma closed_Intersect_yields:
  assumes "set_ok a" "set_ok b" "\<not> IsOpenSet a"
  shows "yields (Intersect a b) (keysOf a \<inter> keysOf b)"
  using assms builders [of _ b]
  by (cases a) (auto simp: view keysOf_def intro!: yields_incl)

lemma Intersect_yields:
  assumes "set_ok a" "set_ok b"
  shows "yields (Intersect a b) (keysOf a \<inter> keysOf b)"
proof (cases a)
  case (exclusiveKeySet v)
  with assms closed_Intersect_yields [of b a] builders [of v b] show ?thesis
    by (auto simp: view keysOf_def Int_commute intro!: yields_excl)
qed (use assms closed_Intersect_yields in \<open>simp_all del: Intersect.simps\<close>)

lemma closed_Subtract_yields:
  assumes "set_ok a" "set_ok b" "\<not> IsOpenSet a"
  shows "yields (Subtract a b) (keysOf a - keysOf b)"
  using assms builders [of _ b]
  by (cases a) (auto simp: view keysOf_def intro!: yields_incl)

lemma Subtract_yields:
  assumes "set_ok a" "set_ok b"
  shows "yields (Subtract a b) (keysOf a - keysOf b)"
proof (cases a)
  case (exclusiveKeySet v)
  have "yields (Subtract (Inverse b) (Inverse a)) (keysOf a - keysOf b)" if "IsOpenSet b"
    using that assms closed_Subtract_yields [of "Inverse b" "Inverse a"] Inverse_ok [of a] Inverse_ok [of b]
    by (cases b) (auto simp: Diff_eq Int_commute)
  with exclusiveKeySet assms builders [of v b] Inverse_ok [of b] show ?thesis
    by (auto simp: view keysOf_def intro!: yields_excl)
qed (use assms closed_Subtract_yields in \<open>simp_all del: Subtract.simps\<close>)

subsection \<open>The contract of a key set\<close>

text \<open>
  What the interface \<^verbatim>\<open>KeySet\<close> promises: the relations and constructions are those of sets.  The
  laws below are what a client of the package may rely on without knowing the representation.
\<close>

locale keyset_algebra =
  fixes ok :: "'k \<Rightarrow> bool" and keys :: "'k \<Rightarrow> 'a set"
    and un it su :: "'k \<Rightarrow> 'k \<Rightarrow> 'k res" and iv :: "'k \<Rightarrow> 'k"
    and sup sub eq eqi anyc :: "'k \<Rightarrow> 'k \<Rightarrow> bool"
  assumes un_law: "ok a \<Longrightarrow> ok b \<Longrightarrow> \<exists>c. un a b = Ok c \<and> ok c \<and> keys c = keys a \<union> keys b"
    and it_law: "ok a \<Longrightarrow> ok b \<Longrightarrow> \<exists>c. it a b = Ok c \<and> ok c \<and> keys c = keys a \<inter> keys b"
    and su_law: "ok a \<Longrightarrow> ok b \<Longrightarrow> \<exists>c. su a b = Ok c \<and> ok c \<and> keys c = keys a - keys b"
    and iv_law: "ok a \<Longrightarrow> ok (iv a) \<and> keys (iv a) = - keys a"
    and sup_law: "ok a \<Longrightarrow> ok b \<Longrightarrow> sup a b \<longleftrightarrow> keys b \<subseteq> keys a"
    and sub_law: "ok a \<Longrightarrow> ok b \<Longrightarrow> sub a b \<longleftrightarrow> keys a \<subseteq> keys b"
    and eq_law: "ok a \<Longrightarrow> ok b \<Longrightarrow> eq a b \<longleftrightarrow> keys a = keys b"
    and eqi_law: "ok a \<Longrightarrow> ok b \<Longrightarrow> eqi a b \<longleftrightarrow> keys a = - keys b"
    and any_law: "ok a \<Longrightarrow> ok b \<Longrightarrow> anyc a b \<longleftrightarrow> keys a \<inter> keys b \<noteq> {}"
begin

lemma de_morgan:
  assumes "ok a" "ok b"
  shows "\<exists>u i. un a b = Ok u \<and> it (iv a) (iv b) = Ok i \<and> eqi u i"
proof -
  obtain u where u: "un a b = Ok u" "ok u" "keys u = keys a \<union> keys b" using un_law assms by blast
  obtain i where i: "it (iv a) (iv b) = Ok i" "ok i" "keys i = - keys a \<inter> - keys b"
    using it_law iv_law assms by metis
  from u i show ?thesis by (auto simp: eqi_law)
qed

lemma subtract_is_intersect:
  assumes "ok a" "ok b"
  shows "\<exists>d i. su a b = Ok d \<and> it a (iv b) = Ok i \<and> eq d i"
proof -
  obtain d where d: "su a b = Ok d" "ok d" "keys d = keys a - keys b" using su_law assms by blast
  obtain i where i: "it a (iv b) = Ok i" "ok i" "keys i = keys a \<inter> - keys b"
    using it_law iv_law assms by metis
  from d i show ?thesis by (auto simp: eq_law)
qed

lemma order_of_sets:
  assumes "ok a" "ok b"
  shows "sup a b \<longleftrightarrow> sub b a" "eq a b \<longleftrightarrow> sub a b \<and> sub b a" "eqi a b \<longleftrightarrow> eq a (iv b)"
    "sub a b \<longleftrightarrow> \<not> anyc a (iv b)"
  using assms iv_law [of b] by (auto simp: sup_law sub_law eq_law eqi_law any_law)

end

interpretation ks: keyset_algebra set_ok keysOf set_Union Intersect Subtract Inverse
  SupersetOf SubsetOf Equal EqualInverse ContainsAny
  using Union_yields Intersect_yields Subtract_yields Inverse_ok
  by unfold_locales (simp_all add: yields_def SupersetOf_iff SubsetOf_iff Equal_iff EqualInverse_iff
      ContainsAny_iff)

text \<open>The enumeration of the raw keys obeys the callback, for every representation.\<close>

interpretation raw: stoppable_enum listed "\<lambda>ks fn s. Ok (EnumRawKeys ks (\<lambda>k exclusive. fn k) s)" "\<lambda>ks. True"
  by unfold_locales (simp add: EnumRawKeys_run)

subsection \<open>Properties\<close>

text \<open>
  C16: Union, intersection, difference and complement of key sets.  For well-formed sets in any mix
  of the representations (single key, map, client list or overlay, closed or open) the
  constructions never panic, never write to a nil map, and return a well-formed set with exactly the
  keys that set algebra prescribes.
\<close>

theorem keyset_operations_are_set_operations:
  assumes "set_ok a" "set_ok b"
  shows "yields (set_Union a b) (keysOf a \<union> keysOf b) \<and>
    yields (Intersect a b) (keysOf a \<inter> keysOf b) \<and>
    yields (Subtract a b) (keysOf a - keysOf b) \<and>
    set_ok (Inverse a) \<and> keysOf (Inverse a) = - keysOf a"
  using Union_yields [OF assms] Intersect_yields [OF assms] Subtract_yields [OF assms]
    Inverse_ok [OF assms(1)]
  by simp

theorem keyset_operations_are_set_operations_witness:
  "yields (Subtract Everything (oneKeySet [7])) (keysOf Everything - keysOf (oneKeySet [7]))"
  using keyset_operations_are_set_operations [of Everything "oneKeySet [7]"] by simp

text \<open>
  The queries of key sets.  The comparisons take shortcuts on the number of listed keys; for
  well-formed sets they still decide exactly the relations between the sets of keys, also between a
  closed and an open set.
\<close>

theorem keyset_queries_decide_set_relations:
  assumes "set_ok a" "set_ok b"
  shows "(Contains a k \<longleftrightarrow> k \<in> keysOf a) \<and>
    (ContainsAny a b \<longleftrightarrow> keysOf a \<inter> keysOf b \<noteq> {}) \<and>
    (SupersetOf a b \<longleftrightarrow> keysOf b \<subseteq> keysOf a) \<and>
    (SubsetOf a b \<longleftrightarrow> keysOf a \<subseteq> keysOf b) \<and>
    (Equal a b \<longleftrightarrow> keysOf a = keysOf b) \<and>
    (EqualInverse a b \<longleftrightarrow> keysOf a = - keysOf b) \<and>
    (IsNothing a \<longleftrightarrow> keysOf a = {}) \<and> (IsEverything a \<longleftrightarrow> keysOf a = UNIV) \<and>
    (IsOpenSet a \<longleftrightarrow> infinite (keysOf a))"
  using assms by (simp add: ks.any_law ks.sup_law ks.sub_law ks.eq_law ks.eqi_law IsNothing_iff
      IsEverything_iff IsOpenSet_iff view(6))

theorem keyset_queries_decide_set_relations_witness:
  "SupersetOf Everything (oneKeySet [7]) \<longleftrightarrow> keysOf (oneKeySet [7]) \<subseteq> keysOf Everything"
  using keyset_queries_decide_set_relations [of Everything "oneKeySet [7]"] by simp

text \<open>
  De Morgan's law in the code's own terms: the union of two sets and the intersection of their
  inverses both exist and \<^verbatim>\<open>EqualInverse\<close> accepts the pair; \<^verbatim>\<open>Subtract\<close> is the intersection with
  the inverse up to \<^verbatim>\<open>Equal\<close>.
\<close>

theorem keyset_de_morgan:
  assumes "set_ok a" "set_ok b"
  shows "(\<exists>u i. set_Union a b = Ok u \<and> Intersect (Inverse a) (Inverse b) = Ok i \<and> EqualInverse u i) \<and>
    (\<exists>d i. Subtract a b = Ok d \<and> Intersect a (Inverse b) = Ok i \<and> Equal d i)"
  using ks.de_morgan [OF assms] ks.subtract_is_intersect [OF assms] by simp

theorem keyset_de_morgan_witness:
  "\<exists>u i. set_Union (oneKeySet [1]) (oneKeySet [2]) = Ok u \<and>
     Intersect (Inverse (oneKeySet [1])) (Inverse (oneKeySet [2])) = Ok i \<and> EqualInverse u i"
  using keyset_de_morgan [of "oneKeySet [1]" "oneKeySet [2]"] by (simp del: set_Union.simps Intersect.simps)

lemma New_yields: "yields (New keys) (set keys)"
  by (cases keys rule: New.cases)
     (auto simp: SoloKeySet_def keysOf_def simp del: run_until.simps
       intro: yields_incl [OF builds_add_all])

lemma CopySet_yields:
  assumes "set_ok ks" shows "yields (CopySet ks) (keysOf ks)"
proof (cases "RawKeyCount ks > 0")
  case True
  then show ?thesis
    using builds_add_all [of "listed ks"]
    by (auto simp: CopySet_def EnumRawKeys_run builds_def yields_def newKeySet_def keysOf_def)
next
  case False
  with assms show ?thesis by (auto simp: CopySet_def view keysOf_def)
qed

text \<open>
  The constructors.  \<^verbatim>\<open>New\<close> never fails and its set has exactly the given keys, duplicates or
  not; wrapping or copying a key list gives its keys; copying a set gives an equal set.
\<close>

theorem keyset_constructors:
  assumes "keyList_ok l" "set_ok ks"
  shows "yields (New keys) (set keys) \<and> yields (Wrap (Some l)) (set (kl_keys l)) \<and>
    yields (CopyList l) (set (kl_keys l)) \<and> yields (CopySet ks) (keysOf ks)"
proof (intro conjI)
  show "yields (CopyList l) (set (kl_keys l))"
    using assms(1) listSet_copy_builds [of "listSet l" 0]
    by (auto simp: CopyList_def keyList_ok_def intro!: yields_incl)
qed (use assms New_yields CopySet_yields in \<open>auto simp: Wrap_def keysOf_def\<close>)

theorem keyset_constructors_witness:
  "yields (CopyList \<lparr>kl_Contains = \<lambda>k. k = [1] \<or> k = [2], kl_keys = [[1], [2]], kl_Count = 2\<rparr>) {[1], [2]}"
  using keyset_constructors [of "\<lparr>kl_Contains = \<lambda>k. k = [1] \<or> k = [2], kl_keys = [[1], [2]], kl_Count = 2\<rparr>"
      Nothing "[]"]
  by (simp add: keyList_ok_def)

text \<open>
  The flag of the raw enumeration.  Sets backed by a map or a client list tell the callback
  whether the enumerated keys are exclusions; the complement of an overlay set is open, but its
  enumeration reports its keys as included ones.
\<close>

theorem EnumRawKeys_flag:
  "(\<forall>v. (\<forall>w. v \<noteq> Overlay w) \<longrightarrow>
     EnumRawKeys (exclusiveKeySet v) fn s = run_until (\<lambda>k. fn k True) (rawKeys v) s) \<and>
   EnumRawKeys (exclusiveKeySet (Overlay w)) fn s = run_until (\<lambda>k. fn k False) (rawKeys (Overlay w)) s"
proof (intro conjI allI impI)
  show "EnumRawKeys (exclusiveKeySet v) fn s = run_until (\<lambda>k. fn k True) (rawKeys v) s"
    if "\<forall>w. v \<noteq> Overlay w" for v
    using that by (cases v) (auto simp: basic_EnumKeys_def)
  show "EnumRawKeys (exclusiveKeySet (Overlay w)) fn s = run_until (\<lambda>k. fn k False) (rawKeys (Overlay w)) s"
    by (simp add: overlay_enumRawKeys_def basic_EnumKeys_def run_until_append run_until_skip split: prod.splits)
qed

theorem EnumRawKeys_flag_witness:
  "EnumRawKeys (exclusiveKeySet (Basic (Some [[1]]))) (\<lambda>k e s. (False, s @ [(k, e)])) [] =
     (False, [([1], True)])"
  using EnumRawKeys_flag [where fn = "\<lambda>k e s. (False, s @ [(k, e)])" and s = "[]"]
  by (auto simp: basic_EnumKeys_def)

end
