(* ===== verification/Mutable_Key_Set.thy ===== *)
theory Mutable_Key_Set
  imports Key_Set
begin

text \<open>
  The mutable key sets of \<^verbatim>\<open>vanilla/keyset\<close>: \<^verbatim>\<open>inclusiveMutable\<close>, \<^verbatim>\<open>exclusiveMutable\<close>, the overlay over
  a client's key list, the frozen wrapper, and \<^verbatim>\<open>MutableKeySet\<close>, which swaps the implementation when
  an operation turns a closed set into an open one or back.  A method with a pointer receiver
  returns the receiver after the call; the bulk operations also return the replacement set, if any.
  Sets given as arguments are values: a call whose argument shares its map with the receiver is not
  described.
\<close>

subsection \<open>State\<close>

datatype mutableKeySet =
  inclusiveMutable basicKeySet
| exclusiveMutable basicKeySet
| inclusiveMutableOverlay listOverlay
| frozenKeySet mutableKeySet

text \<open>A mutable set used as a key set: the embedded inclusive or exclusive set.\<close>

fun asKeySet :: "mutableKeySet \<Rightarrow> KeySet" where
  "asKeySet (inclusiveMutable v) = inclusiveKeySet (Basic v)"
| "asKeySet (exclusiveMutable v) = exclusiveKeySet (Basic v)"
| "asKeySet (inclusiveMutableOverlay v) = inclusiveKeySet (Overlay v)"
| "asKeySet (frozenKeySet m) = asKeySet m"

fun mut_copy :: "mutableKeySet \<Rightarrow> int \<Rightarrow> basicKeySet res" where
  "mut_copy (inclusiveMutable v) n = i_copy (Basic v) n"
| "mut_copy (exclusiveMutable v) n = i_copy (Basic v) n"
| "mut_copy (inclusiveMutableOverlay v) n = i_copy (Overlay v) n"
| "mut_copy (frozenKeySet m) n = mut_copy m n"

subsection \<open>Operations on the map of an inclusive or exclusive set\<close>

definition ensureSet :: "basicKeySet \<Rightarrow> int \<Rightarrow> basicKeySet res" where
  "ensureSet v n = (if v = None then newBasicKeySet n else Ok v)"

text \<open>Adds the keys that pass a test, making the map of size \<open>n\<close> when it is still nil.\<close>

definition addKeyEnsure :: "int \<Rightarrow> (Key \<Rightarrow> bool) \<Rightarrow> Key \<Rightarrow> basicKeySet res \<Rightarrow> bool \<times> basicKeySet res" where
  "addKeyEnsure n p k r = (False, if p k then bnd (bnd r (\<lambda>v. ensureSet v n)) (basic_add k) else r)"

text \<open>Removes a key and asks to stop once the map is empty.\<close>

definition removeStop :: "Key \<Rightarrow> basicKeySet \<Rightarrow> bool \<times> basicKeySet" where
  "removeStop k v = (let v' = basic_remove k v in (basic_isEmpty v', v'))"

definition removeIf :: "(Key \<Rightarrow> bool) \<Rightarrow> Key \<Rightarrow> basicKeySet \<Rightarrow> bool \<times> basicKeySet" where
  "removeIf p k v = (False, if p k then basic_remove k v else v)"

definition dropEmpty :: "basicKeySet \<Rightarrow> basicKeySet" where
  "dropEmpty v = (if basic_isEmpty v then emptyBasicKeySet else v)"

definition incl_retainAll :: "basicKeySet \<Rightarrow> KeySet \<Rightarrow> basicKeySet" where
  "incl_retainAll v ks =
     (if basic_isEmpty v then v
      else if RawKeyCount ks = 0 then (if IsOpenSet ks then v else emptyBasicKeySet)
      else if IsOpenSet ks \<and> RawKeyCount ks < basic_Count v
      then dropEmpty (snd (EnumRawKeys ks (\<lambda>k exclusive. removeStop k) v))
      else dropEmpty (snd (run_until (removeIf (\<lambda>k. \<not> Contains ks k)) (basic_keys v) v)))"

definition incl_removeAll :: "basicKeySet \<Rightarrow> KeySet \<Rightarrow> basicKeySet res" where
  "incl_removeAll v ks =
     (if basic_isEmpty v then Ok v
      else if IsOpenSet ks \<and> basic_Count v > RawKeyCount ks
      then snd (EnumRawKeys ks (\<lambda>k exclusive. addKeyEnsure 0 (basic_Contains v) k) (Ok None))
      else Ok (dropEmpty (snd (run_until (removeIf (Contains ks)) (basic_keys v) v))))"

definition incl_addAll :: "basicKeySet \<Rightarrow> KeySet \<Rightarrow> (mutableKeySet \<times> mutableKeySet option) res" where
  "incl_addAll v ks =
     (if IsOpenSet ks
      then bnd (snd (EnumRawKeys ks
             (\<lambda>k exclusive. addKeyEnsure (RawKeyCount ks) (\<lambda>k. \<not> basic_Contains v k) k) (Ok None)))
             (\<lambda>newKeys. Ok (inclusiveMutable v, Some (exclusiveMutable newKeys)))
      else if RawKeyCount ks = 0 then Ok (inclusiveMutable v, None)
      else bnd (snd (EnumRawKeys ks (\<lambda>k exclusive. addKey k) (ensureSet v (RawKeyCount ks))))
             (\<lambda>v'. Ok (inclusiveMutable v', None)))"

definition excl_retainAll :: "basicKeySet \<Rightarrow> KeySet \<Rightarrow> (mutableKeySet \<times> mutableKeySet option) res" where
  "excl_retainAll v ks =
     (if IsOpenSet ks
      then bnd (snd (EnumRawKeys ks (\<lambda>k exclusive. addKeyEnsure (RawKeyCount ks) (\<lambda>k. True) k) (Ok v)))
             (\<lambda>v'. Ok (exclusiveMutable v', None))
      else bnd (if RawKeyCount ks > 0
                then snd (EnumRawKeys ks (\<lambda>k exclusive. addKeyIf (\<lambda>k. \<not> basic_Contains v k) k)
                       (newBasicKeySet (RawKeyCount ks)))
                else Ok None)
             (\<lambda>newKeys. Ok (exclusiveMutable v, Some (inclusiveMutable newKeys))))"

definition excl_removeAll :: "basicKeySet \<Rightarrow> KeySet \<Rightarrow> (mutableKeySet \<times> mutableKeySet option) res" where
  "excl_removeAll v ks =
     (if IsOpenSet ks
      then bnd (if RawKeyCount ks > 0
                then snd (EnumRawKeys ks (\<lambda>k exclusive. addKeyIf (\<lambda>k. \<not> basic_Contains v k) k)
                       (newBasicKeySet 0))
                else Ok None)
             (\<lambda>newKeys. Ok (exclusiveMutable v, Some (inclusiveMutable newKeys)))
      else if RawKeyCount ks = 0 then Ok (exclusiveMutable v, None)
      else bnd (snd (EnumRawKeys ks (\<lambda>k exclusive. addKey k) (ensureSet v (RawKeyCount ks))))
             (\<lambda>v'. Ok (exclusiveMutable v', None)))"

definition excl_addAll :: "basicKeySet \<Rightarrow> KeySet \<Rightarrow> basicKeySet res" where
  "excl_addAll v ks =
     (if IsOpenSet ks
      then if RawKeyCount ks = 0 then Ok emptyBasicKeySet
           else if RawKeyCount ks < basic_Count v
           then snd (EnumRawKeys ks (\<lambda>k exclusive. addKeyEnsure 0 (basic_Contains v) k) (Ok None))
           else if basic_Count v = 0 then Ok v
           else Ok (dropEmpty (snd (run_until (removeIf (Contains ks)) (basic_keys v) v)))
      else Ok (dropEmpty (snd (EnumRawKeys ks (\<lambda>k exclusive. removeStop k) v))))"

text \<open>
  The single-key operations: \<^verbatim>\<open>add\<close> of the inclusive set and \<^verbatim>\<open>remove\<close> of the exclusive one store a key,
  the other two delete it; the same for the operations on a slice of keys.
\<close>

definition store :: "basicKeySet \<Rightarrow> Key \<Rightarrow> basicKeySet res" where
  "store v k = bnd (ensureSet v 0) (basic_add k)"

definition storeKeys :: "basicKeySet \<Rightarrow> Key list \<Rightarrow> basicKeySet res" where
  "storeKeys v ks = (if ks = [] then Ok v
     else snd (run_until addKey ks (ensureSet v (int (length ks)))))"

definition deleteKeys :: "basicKeySet \<Rightarrow> Key list \<Rightarrow> basicKeySet" where
  "deleteKeys v ks = snd (run_until (\<lambda>k v. (False, basic_remove k v)) ks v)"

subsection \<open>Operations on the overlay\<close>

definition newListOverlay :: "KeyList option \<Rightarrow> listOverlay res" where
  "newListOverlay list = (case list of None \<Rightarrow> Panic ''illegal value''
     | Some l \<Rightarrow> Ok \<lparr>ov_immutable = l, ov_includes = emptyBasicKeySet, ov_excludes = emptyBasicKeySet\<rparr>)"

definition overlay_isEmpty :: "listOverlay \<Rightarrow> bool" where
  "overlay_isEmpty v =
     (if basic_Count (ov_includes v) > 0 then False
      else if kl_Count (ov_immutable v) = 0 then True
      else kl_Count (ov_immutable v) = basic_Count (ov_excludes v))"

definition hideKey :: "Key \<Rightarrow> listOverlay \<Rightarrow> listOverlay res" where
  "hideKey k v = bnd (store (ov_excludes v) k) (\<lambda>e. Ok (v\<lparr>ov_excludes := e\<rparr>))"

definition includeKey :: "Key \<Rightarrow> listOverlay \<Rightarrow> listOverlay res" where
  "includeKey k v = bnd (store (ov_includes v) k) (\<lambda>i. Ok (v\<lparr>ov_includes := i\<rparr>))"

definition overlay_remove :: "Key \<Rightarrow> listOverlay \<Rightarrow> listOverlay res" where
  "overlay_remove k v =
     (let v' = v\<lparr>ov_includes := basic_remove k (ov_includes v)\<rparr>
      in if kl_Contains (ov_immutable v') k then hideKey k v' else Ok v')"

definition overlay_add :: "Key \<Rightarrow> listOverlay \<Rightarrow> listOverlay res" where
  "overlay_add k v =
     (let v' = v\<lparr>ov_excludes := basic_remove k (ov_excludes v)\<rparr>
      in if \<not> kl_Contains (ov_immutable v') k then includeKey k v' else Ok v')"

definition emptyInclusiveMutable :: mutableKeySet where
  "emptyInclusiveMutable = inclusiveMutable emptyBasicKeySet"

text \<open>The receiver after a bulk operation, and its replacement when nothing is left.\<close>

definition overlay_done :: "listOverlay \<Rightarrow> (mutableKeySet \<times> mutableKeySet option) res" where
  "overlay_done v = Ok (inclusiveMutableOverlay v,
     if overlay_isEmpty v then Some emptyInclusiveMutable else None)"

text \<open>The callbacks; a panic ends the enumeration.\<close>

fun hideStop :: "Key \<Rightarrow> listOverlay res \<Rightarrow> bool \<times> listOverlay res" where
  "hideStop k (Panic e) = (True, Panic e)"
| "hideStop k (Ok v) = (case overlay_remove k v of Panic e \<Rightarrow> (True, Panic e)
     | Ok v' \<Rightarrow> (overlay_isEmpty v', Ok v'))"

definition retainKey :: "KeySet \<Rightarrow> Key \<Rightarrow> listOverlay res \<Rightarrow> bool \<times> listOverlay res" where
  "retainKey ks k r = (False, if \<not> Contains ks k then bnd r (overlay_remove k) else r)"

definition retainVisible :: "KeySet \<Rightarrow> Key \<Rightarrow> listOverlay res \<Rightarrow> bool \<times> listOverlay res" where
  "retainVisible ks k r = (False, bnd r (\<lambda>v.
     if basic_Contains (ov_excludes v) k then Ok v else snd (retainKey ks k (Ok v))))"

fun hideVisible :: "KeySet \<Rightarrow> Key \<Rightarrow> listOverlay res \<Rightarrow> bool \<times> listOverlay res" where
  "hideVisible ks k (Panic e) = (True, Panic e)"
| "hideVisible ks k (Ok v) =
     (case (if \<not> basic_Contains (ov_excludes v) k \<and> Contains ks k then hideKey k v else Ok v) of
        Panic e \<Rightarrow> (True, Panic e)
      | Ok v' \<Rightarrow> (kl_Count (ov_immutable v') = basic_Count (ov_excludes v'), Ok v'))"

definition overlay_retainAll :: "listOverlay \<Rightarrow> KeySet \<Rightarrow> (mutableKeySet \<times> mutableKeySet option) res" where
  "overlay_retainAll v ks =
     (if overlay_isEmpty v then Ok (inclusiveMutableOverlay v, None)
      else if RawKeyCount ks = 0
      then Ok (inclusiveMutableOverlay v, if IsOpenSet ks then None else Some emptyInclusiveMutable)
      else bnd (if IsOpenSet ks \<and> RawKeyCount ks < overlay_Count v
                then snd (EnumRawKeys ks (\<lambda>k exclusive. hideStop k) (Ok v))
                else snd (run_until (retainVisible ks) (kl_keys (ov_immutable v))
                       (snd (run_until (retainKey ks) (basic_keys (ov_includes v)) (Ok v)))))
             overlay_done)"

definition overlay_hideAll :: "listOverlay \<Rightarrow> KeySet \<Rightarrow> int \<Rightarrow> (mutableKeySet \<times> mutableKeySet option) res" where
  "overlay_hideAll v ks prevIncludes =
     (if prevIncludes = basic_Count (ov_includes v) + RawKeyCount ks
      then Ok (inclusiveMutableOverlay v, None)
      else bnd (snd (run_until (hideVisible ks) (kl_keys (ov_immutable v)) (Ok v))) overlay_done)"

definition overlay_removeAll :: "listOverlay \<Rightarrow> KeySet \<Rightarrow> (mutableKeySet \<times> mutableKeySet option) res" where
  "overlay_removeAll v ks =
     (let prevIncludes = basic_Count (ov_includes v) in
      if overlay_isEmpty v then Ok (inclusiveMutableOverlay v, None)
      else if \<not> IsOpenSet ks
      then bnd (incl_removeAll (ov_includes v) ks) (\<lambda>i.
             overlay_hideAll (v\<lparr>ov_includes := i\<rparr>) ks prevIncludes)
      else if RawKeyCount ks < overlay_Count v
      then bnd (snd (EnumRawKeys ks (\<lambda>k exclusive. addKeyEnsure 0 (overlay_Contains v) k) (Ok None)))
             (\<lambda>newKeys. Ok (inclusiveMutableOverlay v, Some (inclusiveMutable newKeys)))
      else overlay_hideAll (v\<lparr>ov_includes := incl_retainAll (ov_includes v) (Inverse ks)\<rparr>) ks prevIncludes)"

definition overlay_addAll :: "listOverlay \<Rightarrow> KeySet \<Rightarrow> (mutableKeySet \<times> mutableKeySet option) res" where
  "overlay_addAll v ks =
     (if IsOpenSet ks
      then bnd (snd (EnumRawKeys ks
             (\<lambda>k exclusive. addKeyEnsure (RawKeyCount ks) (\<lambda>k. \<not> overlay_Contains v k) k) (Ok None)))
             (\<lambda>newKeys. Ok (inclusiveMutableOverlay v, Some (exclusiveMutable newKeys)))
      else if RawKeyCount ks = 0 then Ok (inclusiveMutableOverlay v, None)
      else bnd (snd (EnumRawKeys ks (\<lambda>k exclusive r. (False, bnd r (overlay_add k))) (Ok v)))
             (\<lambda>v'. Ok (inclusiveMutableOverlay v', None)))"

definition overlay_removeKeys :: "listOverlay \<Rightarrow> Key list \<Rightarrow> listOverlay res" where
  "overlay_removeKeys v ks =
     snd (run_until (\<lambda>k r. (False, bnd r (\<lambda>v. if kl_Contains (ov_immutable v) k then hideKey k v else Ok v)))
       ks (Ok (v\<lparr>ov_includes := deleteKeys (ov_includes v) ks\<rparr>)))"

definition overlay_addKeys :: "listOverlay \<Rightarrow> Key list \<Rightarrow> listOverlay res" where
  "overlay_addKeys v ks =
     snd (run_until (\<lambda>k r. (False, bnd r (\<lambda>v. if kl_Contains (ov_immutable v) k then Ok v else includeKey k v)))
       ks (Ok (v\<lparr>ov_excludes := deleteKeys (ov_excludes v) ks\<rparr>)))"

subsection \<open>The mutable interface\<close>

definition unchanged :: "mutableKeySet \<Rightarrow> (mutableKeySet \<times> mutableKeySet option) res" where
  "unchanged m = Ok (m, None)"

fun retainAll :: "mutableKeySet \<Rightarrow> KeySet \<Rightarrow> (mutableKeySet \<times> mutableKeySet option) res" where
  "retainAll (inclusiveMutable v) ks = unchanged (inclusiveMutable (incl_retainAll v ks))"
| "retainAll (exclusiveMutable v) ks = excl_retainAll v ks"
| "retainAll (inclusiveMutableOverlay v) ks = overlay_retainAll v ks"
| "retainAll (frozenKeySet m) ks = Panic ''illegal state''"

fun removeAllKeys :: "mutableKeySet \<Rightarrow> KeySet \<Rightarrow> (mutableKeySet \<times> mutableKeySet option) res" where
  "removeAllKeys (inclusiveMutable v) ks = bnd (incl_removeAll v ks) (\<lambda>v'. unchanged (inclusiveMutable v'))"
| "removeAllKeys (exclusiveMutable v) ks = excl_removeAll v ks"
| "removeAllKeys (inclusiveMutableOverlay v) ks = overlay_removeAll v ks"
| "removeAllKeys (frozenKeySet m) ks = Panic ''illegal state''"

fun addAll :: "mutableKeySet \<Rightarrow> KeySet \<Rightarrow> (mutableKeySet \<times> mutableKeySet option) res" where
  "addAll (inclusiveMutable v) ks = incl_addAll v ks"
| "addAll (exclusiveMutable v) ks = bnd (excl_addAll v ks) (\<lambda>v'. unchanged (exclusiveMutable v'))"
| "addAll (inclusiveMutableOverlay v) ks = overlay_addAll v ks"
| "addAll (frozenKeySet m) ks = Panic ''illegal state''"

text \<open>\<^verbatim>\<open>MutableKeySet\<close>: the wrapper replaces its implementation when the call returns one.\<close>

definition replaced :: "(mutableKeySet \<times> mutableKeySet option) res \<Rightarrow> mutableKeySet res" where
  "replaced r = bnd r (\<lambda>(v, iks). Ok (case iks of None \<Rightarrow> v | Some w \<Rightarrow> w))"

definition RetainAll :: "mutableKeySet \<Rightarrow> KeySet \<Rightarrow> mutableKeySet res" where
  "RetainAll m ks = replaced (retainAll m ks)"

definition RemoveAll :: "mutableKeySet \<Rightarrow> KeySet \<Rightarrow> mutableKeySet res" where
  "RemoveAll m ks = replaced (removeAllKeys m ks)"

definition AddAll :: "mutableKeySet \<Rightarrow> KeySet \<Rightarrow> mutableKeySet res" where
  "AddAll m ks = replaced (addAll m ks)"

fun Add :: "mutableKeySet \<Rightarrow> Key \<Rightarrow> mutableKeySet res" where
  "Add (inclusiveMutable v) k = bnd (store v k) (\<lambda>v'. Ok (inclusiveMutable v'))"
| "Add (exclusiveMutable v) k = Ok (exclusiveMutable (basic_remove k v))"
| "Add (inclusiveMutableOverlay v) k = bnd (overlay_add k v) (\<lambda>v'. Ok (inclusiveMutableOverlay v'))"
| "Add (frozenKeySet m) k = Panic ''illegal state''"

fun Remove :: "mutableKeySet \<Rightarrow> Key \<Rightarrow> mutableKeySet res" where
  "Remove (inclusiveMutable v) k = Ok (inclusiveMutable (basic_remove k v))"
| "Remove (exclusiveMutable v) k = bnd (store v k) (\<lambda>v'. Ok (exclusiveMutable v'))"
| "Remove (inclusiveMutableOverlay v) k = bnd (overlay_remove k v) (\<lambda>v'. Ok (inclusiveMutableOverlay v'))"
| "Remove (frozenKeySet m) k = Panic ''illegal state''"

fun AddKeys :: "mutableKeySet \<Rightarrow> Key list \<Rightarrow> mutableKeySet res" where
  "AddKeys (inclusiveMutable v) ks = bnd (storeKeys v ks) (\<lambda>v'. Ok (inclusiveMutable v'))"
| "AddKeys (exclusiveMutable v) ks = Ok (exclusiveMutable (deleteKeys v ks))"
| "AddKeys (inclusiveMutableOverlay v) ks = bnd (overlay_addKeys v ks) (\<lambda>v'. Ok (inclusiveMutableOverlay v'))"
| "AddKeys (frozenKeySet m) ks = Panic ''illegal state''"

fun RemoveKeys :: "mutableKeySet \<Rightarrow> Key list \<Rightarrow> mutableKeySet res" where
  "RemoveKeys (inclusiveMutable v) ks = Ok (inclusiveMutable (deleteKeys v ks))"
| "RemoveKeys (exclusiveMutable v) ks = bnd (storeKeys v ks) (\<lambda>v'. Ok (exclusiveMutable v'))"
| "RemoveKeys (inclusiveMutableOverlay v) ks =
     bnd (overlay_removeKeys v ks) (\<lambda>v'. Ok (inclusiveMutableOverlay v'))"
| "RemoveKeys (frozenKeySet m) ks = Panic ''illegal state''"

definition newInternalMutable :: "bool \<Rightarrow> basicKeySet \<Rightarrow> mutableKeySet" where
  "newInternalMutable exclusive ks = (if exclusive then exclusiveMutable ks else inclusiveMutable ks)"

definition NewMutable :: mutableKeySet where
  "NewMutable = newInternalMutable False emptyBasicKeySet"

definition NewOpenMutable :: mutableKeySet where
  "NewOpenMutable = newInternalMutable True emptyBasicKeySet"

definition WrapAsMutable :: "KeyList option \<Rightarrow> mutableKeySet res" where
  "WrapAsMutable keys = bnd (newListOverlay keys) (\<lambda>v. Ok (inclusiveMutableOverlay v))"

definition copyAs :: "mutableKeySet \<Rightarrow> bool \<Rightarrow> mutableKeySet res" where
  "copyAs m exclusive = bnd (mut_copy m 0) (\<lambda>ks. Ok (newInternalMutable exclusive ks))"

definition Copy :: "mutableKeySet \<Rightarrow> mutableKeySet res" where
  "Copy m = copyAs m (IsOpenSet (asKeySet m))"

definition InverseCopy :: "mutableKeySet \<Rightarrow> mutableKeySet res" where
  "InverseCopy m = copyAs m (\<not> IsOpenSet (asKeySet m))"

fun IsFrozen :: "mutableKeySet \<Rightarrow> bool" where
  "IsFrozen (frozenKeySet m) = True"
| "IsFrozen _ = False"

text \<open>
  \<^verbatim>\<open>Freeze\<close> returns the set that was wrapped and leaves the wrapper frozen.  The wrapper of the zero value of
  \<^verbatim>\<open>MutableKeySet\<close> is nil.
\<close>

fun Freeze :: "mutableKeySet option \<Rightarrow> (KeySet \<times> mutableKeySet option) res" where
  "Freeze (Some (frozenKeySet m)) = Ok (asKeySet m, Some (frozenKeySet m))"
| "Freeze None = Panic ''illegal state''"
| "Freeze (Some m) = Ok (asKeySet m, Some (frozenKeySet m))"

subsection \<open>Maps: what the loops leave behind\<close>

lemma basic_remove_facts:
  "basic_ok v \<Longrightarrow> basic_ok (basic_remove k v)"
  "set (basic_keys (basic_remove k v)) = set (basic_keys v) - {k}"
  by (cases v; auto simp: basic_remove_def basic_ok_def distinct_removeAll)+

lemma basic_isEmpty_iff: "basic_isEmpty v \<longleftrightarrow> set (basic_keys v) = {}"
  by (simp add: basic_isEmpty_def basic_Count_def)

lemma dropEmpty_facts:
  "basic_ok v \<Longrightarrow> basic_ok (dropEmpty v)" "set (basic_keys (dropEmpty v)) = set (basic_keys v)"
  by (auto simp: dropEmpty_def basic_isEmpty_iff emptyBasicKeySet_def basic_ok_def)

lemma removeStop_loop:
  "basic_ok v \<Longrightarrow> basic_ok (snd (run_until removeStop xs v))"
  "set (basic_keys (snd (run_until removeStop xs v))) = set (basic_keys v) - set xs"
proof (induction xs arbitrary: v)
  case (Cons x xs)
  { case 1 then show ?case
      using Cons.IH(1) by (auto simp: removeStop_def Let_def basic_remove_facts)
  next
    case 2 then show ?case
      using Cons.IH(2) basic_remove_facts(2) [of x v]
      by (auto simp: removeStop_def Let_def basic_isEmpty_iff) }
qed auto

lemma removeIf_loop:
  "basic_ok v \<Longrightarrow> basic_ok (snd (run_until (removeIf p) xs v))"
  "set (basic_keys (snd (run_until (removeIf p) xs v))) = set (basic_keys v) - {x \<in> set xs. p x}"
  by (induction xs arbitrary: v) (auto simp: removeIf_def basic_remove_facts)

lemma deleteKeys_facts:
  "basic_ok v \<Longrightarrow> basic_ok (deleteKeys v ks)"
  "set (basic_keys (deleteKeys v ks)) = set (basic_keys v) - set ks"
  by (cases v; auto simp: deleteKeys_def remove_loop basic_ok_def)+

lemma builds_Ok [simp]: "builds (Ok v) A \<longleftrightarrow> basic_ok v \<and> set (basic_keys v) = A"
  by (simp add: builds_def)

lemma ensureSet_Ok: "0 \<le> n \<Longrightarrow> \<exists>xs. ensureSet v n = Ok (Some xs) \<and> xs = basic_keys v"
  by (cases v) (auto simp: ensureSet_def newBasicKeySet_def)

lemma builds_ensure_add:
  "0 \<le> n \<Longrightarrow> basic_ok v \<Longrightarrow> builds (bnd (ensureSet v n) (basic_add k)) (insert k (set (basic_keys v)))"
  using ensureSet_Ok [of n v] by (auto simp: basic_ok_def)

lemma addKeyEnsure_loop:
  assumes "0 \<le> n" "basic_ok v"
  shows "builds (snd (run_until (addKeyEnsure n p) xs (Ok v))) (set (basic_keys v) \<union> {x \<in> set xs. p x})"
  using assms(2)
proof (induction xs arbitrary: v)
  case (Cons x xs)
  show ?case
  proof (cases "p x")
    case True
    obtain v' where v': "bnd (ensureSet v n) (basic_add x) = Ok v'" "basic_ok v'"
      "set (basic_keys v') = insert x (set (basic_keys v))"
      using builds_ensure_add [OF assms(1) Cons.prems, of x] by (auto simp: builds_def)
    have "set (basic_keys v') \<union> {x \<in> set xs. p x} = set (basic_keys v) \<union> {y \<in> set (x # xs). p y}"
      using v'(3) True by auto
    with Cons.IH [OF v'(2)] v'(1) True show ?thesis by (simp add: addKeyEnsure_def)
  next
    case False
    then have "{y. (y = x \<or> y \<in> set xs) \<and> p y} = {y \<in> set xs. p y}" by auto
    with Cons.IH [OF Cons.prems] False show ?thesis by (simp add: addKeyEnsure_def)
  qed
qed (simp add: builds_def)

lemma addKey_ensured:
  assumes "0 \<le> n" "basic_ok v"
  shows "builds (snd (run_until addKey xs (ensureSet v n))) (set (basic_keys v) \<union> set xs)"
proof -
  obtain ys where "ensureSet v n = Ok (Some ys)" "ys = basic_keys v" using ensureSet_Ok [OF assms(1)] by blast
  with assms(2) show ?thesis by (auto simp: add_loop_all basic_ok_def fold_insert)
qed

lemma store_builds: "basic_ok v \<Longrightarrow> builds (store v k) (insert k (set (basic_keys v)))"
  by (simp add: store_def builds_ensure_add)

lemma storeKeys_builds: "basic_ok v \<Longrightarrow> builds (storeKeys v ks) (set (basic_keys v) \<union> set ks)"
  by (simp add: storeKeys_def addKey_ensured)

lemmas basic_loops = removeStop_loop removeIf_loop dropEmpty_facts basic_remove_facts deleteKeys_facts

lemma basic_Contains_set: "basic_Contains v k \<longleftrightarrow> k \<in> set (basic_keys v)"
  by (simp add: basic_Contains_def)

subsection \<open>Inclusive and exclusive sets\<close>

lemma incl_retainAll_facts:
  assumes "basic_ok v" "set_ok ks"
  shows "basic_ok (incl_retainAll v ks)"
    "set (basic_keys (incl_retainAll v ks)) = set (basic_keys v) \<inter> keysOf ks"
  using assms
  by (auto simp: incl_retainAll_def EnumRawKeys_run basic_loops basic_isEmpty_iff view keysOf_def
      emptyBasicKeySet_def basic_ok_def [of None])

lemma incl_removeAll_builds:
  assumes "basic_ok v" "set_ok ks"
  shows "builds (incl_removeAll v ks) (set (basic_keys v) - keysOf ks)"
proof (cases "IsOpenSet ks \<and> basic_Count v > RawKeyCount ks \<and> \<not> basic_isEmpty v")
  case True
  have "{x \<in> set (listed ks). basic_Contains v x} = set (basic_keys v) - keysOf ks"
    using True by (auto simp: keysOf_def basic_Contains_set)
  with True addKeyEnsure_loop [of 0 None "basic_Contains v" "listed ks"] show ?thesis
    by (simp add: incl_removeAll_def EnumRawKeys_run basic_ok_def [of None])
next
  case False
  with assms show ?thesis
    by (auto simp: incl_removeAll_def basic_loops basic_isEmpty_iff view)
qed

text \<open>A mutation that succeeds, leaving an unfrozen well-formed set of the given keys.\<close>

definition mutates :: "mutableKeySet res \<Rightarrow> Key set \<Rightarrow> bool" where
  "mutates r A \<longleftrightarrow> (\<exists>m. r = Ok m \<and> \<not> IsFrozen m \<and> set_ok (asKeySet m) \<and> keysOf (asKeySet m) = A)"

lemma mutates_Ok [simp]:
  "mutates (Ok m) A \<longleftrightarrow> \<not> IsFrozen m \<and> set_ok (asKeySet m) \<and> keysOf (asKeySet m) = A"
  by (simp add: mutates_def)

lemma mutates_incl: "builds r A \<Longrightarrow> A = B \<Longrightarrow> mutates (bnd r (\<lambda>v. Ok (inclusiveMutable v))) B"
  by (auto simp: builds_def mutates_def keysOf_def)

lemma mutates_excl: "builds r A \<Longrightarrow> - A = B \<Longrightarrow> mutates (bnd r (\<lambda>v. Ok (exclusiveMutable v))) B"
  by (auto simp: builds_def mutates_def keysOf_def)

lemma replaced_bnd [simp]:
  "replaced (Ok (m, i)) = Ok (case i of None \<Rightarrow> m | Some w \<Rightarrow> w)"
  "replaced (bnd r f) = bnd r (\<lambda>v. replaced (f v))"
  "replaced (unchanged m) = Ok m"
  by (simp_all add: replaced_def bnd_assoc unchanged_def)

lemma incl_addAll_mutates:
  assumes "basic_ok v" "set_ok ks"
  shows "mutates (replaced (incl_addAll v ks)) (set (basic_keys v) \<union> keysOf ks)"
proof (cases "IsOpenSet ks")
  case True
  have "- {x \<in> set (listed ks). \<not> basic_Contains v x} = set (basic_keys v) \<union> keysOf ks"
    using True by (auto simp: keysOf_def basic_Contains_set)
  with True assms addKeyEnsure_loop [of "RawKeyCount ks" None "\<lambda>k. \<not> basic_Contains v k" "listed ks"]
  show ?thesis
    by (auto simp: incl_addAll_def EnumRawKeys_run view basic_ok_def [of None] intro!: mutates_excl)
next
  case False
  with assms addKey_ensured [of "RawKeyCount ks" v "listed ks"] show ?thesis
    by (auto simp: incl_addAll_def EnumRawKeys_run view keysOf_def intro!: mutates_incl)
qed

lemma new_keys_builds:
  assumes "0 \<le> n" "set_ok ks"
  shows "builds (if RawKeyCount ks > 0
      then snd (EnumRawKeys ks (\<lambda>k exclusive. addKeyIf p k) (newBasicKeySet n)) else Ok None)
    {k \<in> set (listed ks). p k}"
  using assms builds_add [of p "listed ks"]
  by (auto simp: EnumRawKeys_run newBasicKeySet_def view basic_ok_def [of None])

lemma excl_retainAll_mutates:
  assumes "basic_ok v" "set_ok ks"
  shows "mutates (replaced (excl_retainAll v ks)) (- set (basic_keys v) \<inter> keysOf ks)"
proof (cases "IsOpenSet ks")
  case True
  with assms addKeyEnsure_loop [of "RawKeyCount ks" v "\<lambda>k. True" "listed ks"] show ?thesis
    by (auto simp: excl_retainAll_def EnumRawKeys_run view keysOf_def intro!: mutates_excl)
next
  case False
  have "{k \<in> set (listed ks). \<not> basic_Contains v k} = - set (basic_keys v) \<inter> keysOf ks"
    using False by (auto simp: keysOf_def basic_Contains_set)
  with False assms new_keys_builds [of "RawKeyCount ks" ks "\<lambda>k. \<not> basic_Contains v k"] show ?thesis
    by (simp add: excl_retainAll_def view(4) mutates_incl)
qed

lemma excl_removeAll_mutates:
  assumes "basic_ok v" "set_ok ks"
  shows "mutates (replaced (excl_removeAll v ks)) (- set (basic_keys v) - keysOf ks)"
proof (cases "IsOpenSet ks")
  case True
  have "{k \<in> set (listed ks). \<not> basic_Contains v k} = - set (basic_keys v) - keysOf ks"
    using True by (auto simp: keysOf_def basic_Contains_set)
  with True assms new_keys_builds [of 0 ks "\<lambda>k. \<not> basic_Contains v k"] show ?thesis
    by (simp add: excl_removeAll_def mutates_incl)
next
  case False
  with assms addKey_ensured [of "RawKeyCount ks" v "listed ks"] show ?thesis
    by (auto simp: excl_removeAll_def EnumRawKeys_run view keysOf_def intro!: mutates_excl)
qed

lemma excl_addAll_builds:
  assumes "basic_ok v" "set_ok ks"
  shows "builds (excl_addAll v ks) (set (basic_keys v) - keysOf ks)"
proof (cases "IsOpenSet ks \<and> RawKeyCount ks \<noteq> 0 \<and> RawKeyCount ks < basic_Count v")
  case True
  have "{x \<in> set (listed ks). basic_Contains v x} = set (basic_keys v) - keysOf ks"
    using True by (auto simp: keysOf_def basic_Contains_set)
  with True addKeyEnsure_loop [of 0 None "basic_Contains v" "listed ks"] show ?thesis
    by (simp add: excl_addAll_def EnumRawKeys_run basic_ok_def [of None])
next
  case False
  with assms show ?thesis
    by (auto simp: excl_addAll_def EnumRawKeys_run basic_loops view keysOf_def basic_Count_def
        emptyBasicKeySet_def basic_ok_def [of None])
qed

subsection \<open>Overlays\<close>

abbreviation overlayKeys :: "listOverlay \<Rightarrow> Key set" where
  "overlayKeys v \<equiv> set (rawKeys (Overlay v))"

declare rawKeys.simps(3) [simp del]

text \<open>A step on an overlay: it keeps the client's list and well-formedness and has the given keys.\<close>

definition overlays :: "listOverlay res \<Rightarrow> KeyList \<Rightarrow> Key set \<Rightarrow> bool" where
  "overlays r l A \<longleftrightarrow> (\<exists>v. r = Ok v \<and> overlay_ok v \<and> ov_immutable v = l \<and> overlayKeys v = A)"

lemma overlays_Ok [simp]:
  "overlays (Ok v) l A \<longleftrightarrow> overlay_ok v \<and> ov_immutable v = l \<and> overlayKeys v = A"
  by (simp add: overlays_def)

lemma overlayKeys_eq:
  assumes "overlay_ok v"
  shows "overlayKeys v = set (basic_keys (ov_includes v)) \<union>
    (set (kl_keys (ov_immutable v)) - set (basic_keys (ov_excludes v)))"
  by (auto simp: basic_Contains_set rawKeys.simps(3))

lemma overlay_isEmpty_iff:
  assumes "overlay_ok v" shows "overlay_isEmpty v \<longleftrightarrow> overlayKeys v = {}"
proof -
  have "length (basic_keys (ov_excludes v)) \<le> length (kl_keys (ov_immutable v))"
    using assms by (intro covered_not_longer) (auto simp: overlay_ok_def basic_ok_def)
  then have "overlay_isEmpty v \<longleftrightarrow> overlay_Count v = 0"
    using assms by (cases "basic_keys (ov_includes v)")
      (auto simp: overlay_isEmpty_def overlay_Count_def basic_Count_def overlay_ok_def keyList_ok_def)
  with assms show ?thesis by (simp add: overlay_count)
qed

lemma hideKey_overlays:
  assumes "overlay_ok v" "k \<in> set (kl_keys (ov_immutable v))"
  shows "overlays (hideKey k v) (ov_immutable v) (overlayKeys v - {k})"
proof -
  obtain e where "store (ov_excludes v) k = Ok e" "basic_ok e" "set (basic_keys e) = insert k (set (basic_keys (ov_excludes v)))"
    using store_builds [of "ov_excludes v" k] assms by (auto simp: builds_def overlay_ok_def)
  with assms show ?thesis by (auto simp: hideKey_def overlay_ok_def basic_Contains_set rawKeys.simps(3))
qed

lemma includeKey_overlays:
  assumes "overlay_ok v" "k \<notin> set (kl_keys (ov_immutable v))"
  shows "overlays (includeKey k v) (ov_immutable v) (insert k (overlayKeys v))"
proof -
  obtain e where "store (ov_includes v) k = Ok e" "basic_ok e" "set (basic_keys e) = insert k (set (basic_keys (ov_includes v)))"
    using store_builds [of "ov_includes v" k] assms by (auto simp: builds_def overlay_ok_def)
  with assms show ?thesis by (auto simp: includeKey_def overlay_ok_def rawKeys.simps(3))
qed

lemma overlay_ok_Contains: "overlay_ok v \<Longrightarrow> kl_Contains (ov_immutable v) k \<longleftrightarrow> k \<in> set (kl_keys (ov_immutable v))"
  by (simp add: overlay_ok_def keyList_ok_def)

text \<open>Removing keys of the two maps of an overlay.\<close>

lemma overlay_forget:
  assumes "overlay_ok v" "basic_ok i" "set (basic_keys i) \<subseteq> set (basic_keys (ov_includes v))"
  shows "overlay_ok (v\<lparr>ov_includes := i\<rparr>)"
    "overlayKeys (v\<lparr>ov_includes := i\<rparr>) = overlayKeys v - (set (basic_keys (ov_includes v)) - set (basic_keys i))"
  using assms by (auto simp: overlay_ok_def rawKeys.simps(3))

lemma overlay_unhide:
  assumes "overlay_ok v" "basic_ok e" "set (basic_keys e) \<subseteq> set (basic_keys (ov_excludes v))"
  shows "overlay_ok (v\<lparr>ov_excludes := e\<rparr>)"
    "overlayKeys (v\<lparr>ov_excludes := e\<rparr>) = overlayKeys v \<union> (set (basic_keys (ov_excludes v)) - set (basic_keys e))"
  using assms by (auto simp: overlay_ok_def basic_Contains_set rawKeys.simps(3))

lemma overlay_remove_overlays:
  assumes "overlay_ok v"
  shows "overlays (overlay_remove k v) (ov_immutable v) (overlayKeys v - {k})"
proof -
  let ?i = "basic_remove k (ov_includes v)"
  have i: "basic_ok ?i" "set (basic_keys ?i) = set (basic_keys (ov_includes v)) - {k}"
    using assms by (auto simp: basic_remove_facts overlay_ok_def)
  then have w: "overlay_ok (v\<lparr>ov_includes := ?i\<rparr>)"
    "overlayKeys (v\<lparr>ov_includes := ?i\<rparr>) = overlayKeys v - (set (basic_keys (ov_includes v)) \<inter> {k})"
    using overlay_forget [OF assms i(1)] by auto
  show ?thesis
  proof (cases "k \<in> set (kl_keys (ov_immutable v))")
    case True
    then have "overlayKeys (v\<lparr>ov_includes := ?i\<rparr>) - {k} = overlayKeys v - {k}"
      using w(2) by blast
    with True hideKey_overlays [OF w(1), of k] assms show ?thesis
      by (simp add: overlay_remove_def overlay_ok_Contains)
  next
    case False
    then have "overlayKeys (v\<lparr>ov_includes := ?i\<rparr>) = overlayKeys v - {k}"
      using w(2) overlayKeys_eq [OF assms] by auto
    with False w(1) assms show ?thesis
      by (simp add: overlay_remove_def overlay_ok_Contains)
  qed
qed

lemma overlay_add_overlays:
  assumes "overlay_ok v"
  shows "overlays (overlay_add k v) (ov_immutable v) (insert k (overlayKeys v))"
proof -
  let ?e = "basic_remove k (ov_excludes v)"
  have e: "basic_ok ?e" "set (basic_keys ?e) = set (basic_keys (ov_excludes v)) - {k}"
    using assms by (auto simp: basic_remove_facts overlay_ok_def)
  then have w: "overlay_ok (v\<lparr>ov_excludes := ?e\<rparr>)"
    "overlayKeys (v\<lparr>ov_excludes := ?e\<rparr>) = overlayKeys v \<union> (set (basic_keys (ov_excludes v)) \<inter> {k})"
    using overlay_unhide [OF assms e(1)] by auto
  show ?thesis
  proof (cases "k \<in> set (kl_keys (ov_immutable v))")
    case True
    then have "overlayKeys (v\<lparr>ov_excludes := ?e\<rparr>) = insert k (overlayKeys v)"
      using w(2) by (auto simp: basic_Contains_set rawKeys.simps(3))
    with True w(1) assms show ?thesis
      by (simp add: overlay_add_def overlay_ok_Contains)
  next
    case False
    then have "insert k (overlayKeys (v\<lparr>ov_excludes := ?e\<rparr>)) = insert k (overlayKeys v)"
      using w(2) by blast
    with False includeKey_overlays [OF w(1), of k] assms show ?thesis
      by (simp add: overlay_add_def overlay_ok_Contains)
  qed
qed

text \<open>The loops over an overlay.\<close>

lemma hideStop_loop:
  "overlay_ok v \<Longrightarrow>
   overlays (snd (run_until hideStop xs (Ok v))) (ov_immutable v) (overlayKeys v - set xs)"
proof (induction xs arbitrary: v)
  case (Cons x xs)
  obtain v' where v': "overlay_remove x v = Ok v'" "overlay_ok v'" "ov_immutable v' = ov_immutable v"
    "overlayKeys v' = overlayKeys v - {x}"
    using overlay_remove_overlays [OF Cons.prems, of x] by (auto simp: overlays_def)
  have "overlayKeys v - set (x # xs) = overlayKeys v' - set xs" using v'(4) by auto
  with v' Cons.IH [OF v'(2)] show ?case
    by (auto simp: overlay_isEmpty_iff)
qed simp

lemma overlay_loop:
  assumes step: "\<And>v x. overlay_ok v \<Longrightarrow> ov_immutable v = l \<Longrightarrow> overlays (f x v) l (g x (overlayKeys v))"
    and "overlay_ok v" "ov_immutable v = l"
  shows "overlays (snd (run_until (\<lambda>x r. (False, bnd r (f x))) xs (Ok v))) l (fold g xs (overlayKeys v))"
  using assms(2,3)
proof (induction xs arbitrary: v)
  case (Cons x xs)
  obtain v' where "f x v = Ok v'" "overlay_ok v'" "ov_immutable v' = l" "overlayKeys v' = g x (overlayKeys v)"
    using step [OF Cons.prems, of x] by (auto simp: overlays_def)
  with Cons.IH [of v'] show ?case by simp
qed simp

lemma fold_remove_if: "fold (\<lambda>x A. if p x then A - {x} else A) xs A = A - {x \<in> set xs. p x}"
  by (induction xs arbitrary: A) auto

lemma fold_insert_if: "fold (\<lambda>x A. if p x then insert x A else A) xs A = A \<union> {x \<in> set xs. p x}"
  by (induction xs arbitrary: A) auto

lemma keysOf_simps:
  "keysOf (oneKeySet k) = {k}" "keysOf (inclusiveKeySet i) = set (rawKeys i)"
  "keysOf (exclusiveKeySet i) = - set (rawKeys i)"
  by (simp_all add: keysOf_def)

lemma emptyInclusiveMutable_facts [simp]:
  "\<not> IsFrozen emptyInclusiveMutable" "set_ok (asKeySet emptyInclusiveMutable)"
  "keysOf (asKeySet emptyInclusiveMutable) = {}"
  by (simp_all add: emptyInclusiveMutable_def emptyBasicKeySet_def basic_ok_def keysOf_simps)

lemma overlay_done_mutates:
  "overlays r l A \<Longrightarrow> mutates (replaced (bnd r overlay_done)) A"
  by (auto simp: overlays_def overlay_done_def keysOf_simps overlay_isEmpty_iff)

lemma overlay_keep_mutates:
  "overlays r l A \<Longrightarrow> A = B \<Longrightarrow> mutates (bnd r (\<lambda>v. Ok (inclusiveMutableOverlay v))) B"
  by (auto simp: overlays_def keysOf_simps)

lemma retain_loops:
  assumes "overlay_ok v" "set_ok ks"
  shows "overlays (snd (run_until (retainVisible ks) (kl_keys (ov_immutable v))
      (snd (run_until (retainKey ks) (basic_keys (ov_includes v)) (Ok v))))) (ov_immutable v)
    (overlayKeys v \<inter> keysOf ks)"
proof -
  let ?l = "ov_immutable v" and ?rm = "\<lambda>x A. if \<not> Contains ks x then A - {x} else A"
  let ?f = "\<lambda>x v. if \<not> Contains ks x then overlay_remove x v else Ok v"
  let ?g = "\<lambda>x v. if basic_Contains (ov_excludes v) x then Ok v else ?f x v"
  have eqs: "retainKey ks = (\<lambda>x r. (False, bnd r (?f x)))" "retainVisible ks = (\<lambda>x r. (False, bnd r (?g x)))"
    by (auto simp: retainKey_def retainVisible_def fun_eq_iff split: bnd_split)
  have f: "overlays (?f x w) ?l (?rm x (overlayKeys w))" if "overlay_ok w" "ov_immutable w = ?l" for x w
    using overlay_remove_overlays [OF that(1), of x] that by simp
  have "overlays (snd (run_until (retainKey ks) (basic_keys (ov_includes v)) (Ok v))) ?l
      (overlayKeys v - {x \<in> set (basic_keys (ov_includes v)). \<not> Contains ks x})"
    unfolding eqs fold_remove_if [symmetric] using f assms(1) by (intro overlay_loop) auto
  then obtain w where w: "snd (run_until (retainKey ks) (basic_keys (ov_includes v)) (Ok v)) = Ok w"
    "overlay_ok w" "ov_immutable w = ?l"
    "overlayKeys w = overlayKeys v - {x \<in> set (basic_keys (ov_includes v)). \<not> Contains ks x}"
    by (auto simp: overlays_def)
  have "overlays (?g x u) ?l (?rm x (overlayKeys u))" if "overlay_ok u" "ov_immutable u = ?l" for x u
    using f [OF that, of x] that
    by (cases "basic_Contains (ov_excludes u) x") (auto simp: overlay_ok_def basic_Contains_set rawKeys.simps(3))
  then have "overlays (snd (run_until (retainVisible ks) (kl_keys ?l) (Ok w))) ?l
      (overlayKeys w - {x \<in> set (kl_keys ?l). \<not> Contains ks x})"
    unfolding eqs fold_remove_if [symmetric] using w by (intro overlay_loop) auto
  moreover have "overlayKeys w - {x \<in> set (kl_keys ?l). \<not> Contains ks x} = overlayKeys v \<inter> keysOf ks"
    using w(4) assms(2) by (auto simp: view rawKeys.simps(3))
  ultimately show ?thesis using w(1) by simp
qed

lemma overlay_retainAll_mutates:
  assumes "overlay_ok v" "set_ok ks"
  shows "mutates (replaced (overlay_retainAll v ks)) (overlayKeys v \<inter> keysOf ks)"
proof (cases "overlay_isEmpty v \<or> RawKeyCount ks = 0")
  case True
  with assms show ?thesis
    by (auto simp: overlay_retainAll_def overlay_isEmpty_iff view keysOf_simps keysOf_def [of ks])
next
  case False
  have "overlays (if IsOpenSet ks \<and> RawKeyCount ks < overlay_Count v
      then snd (EnumRawKeys ks (\<lambda>k exclusive. hideStop k) (Ok v))
      else snd (run_until (retainVisible ks) (kl_keys (ov_immutable v))
             (snd (run_until (retainKey ks) (basic_keys (ov_includes v)) (Ok v)))))
      (ov_immutable v) (overlayKeys v \<inter> keysOf ks)"
    using retain_loops [OF assms] hideStop_loop [OF assms(1), of "listed ks"]
    by (simp add: EnumRawKeys_run keysOf_def Diff_eq)
  from overlay_done_mutates [OF this] False show ?thesis
    by (simp add: overlay_retainAll_def)
qed

lemma hideVisible_loop:
  assumes "overlay_ok v" "set xs \<subseteq> set (kl_keys (ov_immutable v))"
  shows "overlays (snd (run_until (hideVisible ks) xs (Ok v))) (ov_immutable v)
    (overlayKeys v - {x \<in> set xs. Contains ks x})"
  using assms
proof (induction xs arbitrary: v)
  case (Cons x xs)
  let ?c = "\<not> basic_Contains (ov_excludes v) x \<and> Contains ks x"
  have "overlays (if ?c then hideKey x v else Ok v) (ov_immutable v)
      (overlayKeys v - (if Contains ks x then {x} else {}))"
    using hideKey_overlays [OF Cons.prems(1), of x] Cons.prems overlayKeys_eq [OF Cons.prems(1)]
    by (auto simp: overlay_ok_def basic_Contains_set)
  then obtain v' where v': "(if ?c then hideKey x v else Ok v) = Ok v'" "overlay_ok v'"
    "ov_immutable v' = ov_immutable v" "overlayKeys v' = overlayKeys v - (if Contains ks x then {x} else {})"
    by (auto simp: overlays_def)
  have goal: "overlayKeys v - {y \<in> set (x # xs). Contains ks y} = overlayKeys v' - {y \<in> set xs. Contains ks y}"
    using v'(4) by auto
  show ?case
  proof (cases "kl_Count (ov_immutable v') = basic_Count (ov_excludes v')")
    case True
    have "set (basic_keys (ov_excludes v')) = set (kl_keys (ov_immutable v'))"
      using True v'(2) by (intro same_length_covered)
        (auto simp: overlay_ok_def basic_ok_def keyList_ok_def basic_Count_def)
    then have "overlayKeys v' = set (basic_keys (ov_includes v'))" using overlayKeys_eq [OF v'(2)] by auto
    moreover have "set (basic_keys (ov_includes v')) \<inter> set xs = {}"
      using v'(2,3) Cons.prems(2) by (auto simp: overlay_ok_def)
    ultimately have "overlayKeys v' - {y \<in> set xs. Contains ks y} = overlayKeys v'" by auto
    with True v' goal show ?thesis by simp
  next
    case False
    with v' goal Cons.IH [OF v'(2)] Cons.prems show ?thesis by simp
  qed
qed simp

text \<open>
  The shortcut of \<^verbatim>\<open>removeAll\<close>: when the included keys that went away are as many as the keys that
  the argument lists, the client's list has nothing left to hide.
\<close>

lemma shortcut_covers:
  assumes "overlay_ok v" "set_ok ks" "basic_ok i"
    and i: "set (basic_keys i) = set (basic_keys (ov_includes v)) - keysOf ks"
    and big: "IsOpenSet ks \<Longrightarrow> overlay_Count v \<le> RawKeyCount ks"
    and cnt: "basic_Count (ov_includes v) = basic_Count i + RawKeyCount ks"
  shows "overlayKeys v \<inter> keysOf ks \<subseteq> set (basic_keys (ov_includes v))"
proof (cases "IsOpenSet ks")
  case True
  have "length (rawKeys (Overlay v)) \<le> length (basic_keys (ov_includes v))"
    using cnt big [OF True] overlay_count [OF assms(1)] assms(2) by (simp add: basic_Count_def)
  then have "set (basic_keys (ov_includes v)) = overlayKeys v"
    using assms(1) by (intro same_length_covered) (auto simp: overlay_ok_def basic_ok_def rawKeys.simps(3))
  then show ?thesis by auto
next
  case False
  let ?I = "set (basic_keys (ov_includes v))"
  have d: "distinct (basic_keys (ov_includes v))" "distinct (basic_keys i)"
    using assms(1,3) by (auto simp: overlay_ok_def basic_ok_def)
  have "card ?I = card (?I - keysOf ks) + card (keysOf ks)"
    using cnt d assms(2) i False distinct_card [OF d(1)] distinct_card [OF d(2)] distinct_card [OF set_facts(2) [OF assms(2)]]
    by (simp add: basic_Count_def set_facts keysOf_def)
  then have "card (?I \<inter> keysOf ks) = card (keysOf ks)"
    by (simp add: card_Diff_subset_Int)
       (metis List.finite_set Int_lower1 add_diff_cancel_left' card_mono le_add_diff_inverse2)
  then have "?I \<inter> keysOf ks = keysOf ks"
    using False by (intro card_seteq) (auto simp: keysOf_def)
  then show ?thesis by auto
qed

lemma overlay_hideAll_mutates:
  assumes "overlay_ok v" "set_ok ks" "basic_ok i"
    and i: "set (basic_keys i) = set (basic_keys (ov_includes v)) - keysOf ks"
    and big: "IsOpenSet ks \<Longrightarrow> overlay_Count v \<le> RawKeyCount ks"
  shows "mutates (replaced (overlay_hideAll (v\<lparr>ov_includes := i\<rparr>) ks (basic_Count (ov_includes v))))
    (overlayKeys v - keysOf ks)"
proof -
  let ?v = "v\<lparr>ov_includes := i\<rparr>"
  have w: "overlay_ok ?v" "overlayKeys ?v = overlayKeys v - (set (basic_keys (ov_includes v)) \<inter> keysOf ks)"
    using overlay_forget [OF assms(1,3)] i by auto
  have vis: "overlayKeys ?v - {x \<in> set (kl_keys (ov_immutable v)). Contains ks x} = overlayKeys v - keysOf ks"
    using w(2) overlayKeys_eq [OF assms(1)] assms(2) by (auto simp: view)
  show ?thesis
  proof (cases "basic_Count (ov_includes v) = basic_Count i + RawKeyCount ks")
    case True
    then have "overlayKeys v \<inter> keysOf ks \<subseteq> set (basic_keys (ov_includes v))"
      using shortcut_covers [OF assms] by simp
    with w have "overlayKeys ?v = overlayKeys v - keysOf ks" by auto
    with True w(1) show ?thesis by (simp add: overlay_hideAll_def keysOf_simps)
  next
    case False
    with hideVisible_loop [OF w(1), of "kl_keys (ov_immutable v)" ks] vis show ?thesis
      by (simp add: overlay_hideAll_def overlay_done_mutates del: replaced_bnd(2))
  qed
qed

lemma overlay_removeAll_mutates:
  assumes "overlay_ok v" "set_ok ks"
  shows "mutates (replaced (overlay_removeAll v ks)) (overlayKeys v - keysOf ks)"
proof -
  have inc: "basic_ok (ov_includes v)" using assms by (simp add: overlay_ok_def)
  consider "overlay_isEmpty v" | "\<not> overlay_isEmpty v" "\<not> IsOpenSet ks"
    | "\<not> overlay_isEmpty v" "IsOpenSet ks" "RawKeyCount ks < overlay_Count v"
    | "\<not> overlay_isEmpty v" "IsOpenSet ks" "overlay_Count v \<le> RawKeyCount ks"
    by linarith
  then show ?thesis
  proof cases
    case 1
    with assms show ?thesis by (simp add: overlay_removeAll_def overlay_isEmpty_iff keysOf_simps)
  next
    case 2
    obtain i where "incl_removeAll (ov_includes v) ks = Ok i" "basic_ok i"
      "set (basic_keys i) = set (basic_keys (ov_includes v)) - keysOf ks"
      using incl_removeAll_builds [OF inc assms(2)] by (auto simp: builds_def)
    with 2 assms overlay_hideAll_mutates [of v ks i] show ?thesis
      by (simp add: overlay_removeAll_def Let_def)
  next
    case 3
    have "{x \<in> set (listed ks). overlay_Contains v x} = overlayKeys v - keysOf ks"
      using 3 assms raw_facts(3) [of "Overlay v"] by (auto simp: keysOf_def)
    with 3 addKeyEnsure_loop [of 0 None "overlay_Contains v" "listed ks"] show ?thesis
      by (auto simp: overlay_removeAll_def Let_def EnumRawKeys_run basic_ok_def [of None] intro!: mutates_incl)
  next
    case 4
    let ?i = "incl_retainAll (ov_includes v) (Inverse ks)"
    have "basic_ok ?i" "set (basic_keys ?i) = set (basic_keys (ov_includes v)) - keysOf ks"
      using incl_retainAll_facts [OF inc, of "Inverse ks"] Inverse_ok [OF assms(2)] by auto
    with 4 assms overlay_hideAll_mutates [of v ks ?i] show ?thesis
      by (simp add: overlay_removeAll_def Let_def)
  qed
qed

lemma overlay_addAll_mutates:
  assumes "overlay_ok v" "set_ok ks"
  shows "mutates (replaced (overlay_addAll v ks)) (overlayKeys v \<union> keysOf ks)"
proof (cases "IsOpenSet ks")
  case True
  have "- {x \<in> set (listed ks). \<not> overlay_Contains v x} = overlayKeys v \<union> keysOf ks"
    using True assms raw_facts(3) [of "Overlay v"] by (auto simp: keysOf_def)
  with True assms addKeyEnsure_loop [of "RawKeyCount ks" None "\<lambda>k. \<not> overlay_Contains v k" "listed ks"]
  show ?thesis
    by (auto simp: overlay_addAll_def EnumRawKeys_run view basic_ok_def [of None] intro!: mutates_excl)
next
  case False
  have "overlays (snd (run_until (\<lambda>k r. (False, bnd r (overlay_add k))) (listed ks) (Ok v)))
      (ov_immutable v) (fold insert (listed ks) (overlayKeys v))"
    using assms(1) by (intro overlay_loop) (metis overlay_add_overlays, auto)
  moreover have "fold insert (listed ks) (overlayKeys v) = overlayKeys v \<union> set (listed ks)"
    using fold_insert_if [of "\<lambda>x. True" "listed ks" "overlayKeys v"] by auto
  ultimately show ?thesis
    using False assms overlay_keep_mutates
    by (auto simp: overlay_addAll_def EnumRawKeys_run view keysOf_def overlays_def)
qed

lemma overlay_removeKeys_overlays:
  assumes "overlay_ok v"
  shows "overlays (overlay_removeKeys v ks) (ov_immutable v) (overlayKeys v - set ks)"
proof -
  let ?l = "ov_immutable v" and ?i = "deleteKeys (ov_includes v) ks"
  let ?v = "v\<lparr>ov_includes := ?i\<rparr>" and ?p = "\<lambda>k. k \<in> set (kl_keys (ov_immutable v))"
  have i: "basic_ok ?i" "set (basic_keys ?i) = set (basic_keys (ov_includes v)) - set ks"
    using assms by (auto simp: deleteKeys_facts overlay_ok_def)
  note w = overlay_forget [OF assms i(1)]
  have "overlays (if kl_Contains (ov_immutable u) k then hideKey k u else Ok u) ?l
      (if ?p k then overlayKeys u - {k} else overlayKeys u)" if "overlay_ok u" "ov_immutable u = ?l" for u k
    using hideKey_overlays [OF that(1), of k] that overlay_ok_Contains [OF that(1), of k] by simp
  then have "overlays (overlay_removeKeys v ks) ?l (overlayKeys ?v - {k \<in> set ks. ?p k})"
    unfolding overlay_removeKeys_def fold_remove_if [symmetric] using w i by (intro overlay_loop) auto
  moreover have "overlayKeys ?v - {k \<in> set ks. ?p k} = overlayKeys v - set ks"
    using w(2) i(2) overlayKeys_eq [OF assms] by auto
  ultimately show ?thesis by simp
qed

lemma overlay_addKeys_overlays:
  assumes "overlay_ok v"
  shows "overlays (overlay_addKeys v ks) (ov_immutable v) (overlayKeys v \<union> set ks)"
proof -
  let ?l = "ov_immutable v" and ?e = "deleteKeys (ov_excludes v) ks"
  let ?v = "v\<lparr>ov_excludes := ?e\<rparr>" and ?p = "\<lambda>k. k \<notin> set (kl_keys (ov_immutable v))"
  have e: "basic_ok ?e" "set (basic_keys ?e) = set (basic_keys (ov_excludes v)) - set ks"
    using assms by (auto simp: deleteKeys_facts overlay_ok_def)
  note w = overlay_unhide [OF assms e(1)]
  have "overlays (if kl_Contains (ov_immutable u) k then Ok u else includeKey k u) ?l
      (if ?p k then insert k (overlayKeys u) else overlayKeys u)" if "overlay_ok u" "ov_immutable u = ?l" for u k
    using includeKey_overlays [OF that(1), of k] that overlay_ok_Contains [OF that(1), of k] by simp
  then have "overlays (overlay_addKeys v ks) ?l (overlayKeys ?v \<union> {k \<in> set ks. ?p k})"
    unfolding overlay_addKeys_def fold_insert_if [symmetric] using w e by (intro overlay_loop) auto
  moreover have "overlayKeys ?v \<union> {k \<in> set ks. ?p k} = overlayKeys v \<union> set ks"
    using w(2) e(2) overlayKeys_eq [OF assms] by auto
  ultimately show ?thesis by simp
qed

subsection \<open>Sequences of mutations\<close>

datatype setOp =
  OpAdd Key | OpRemove Key | OpAddKeys "Key list" | OpRemoveKeys "Key list"
| OpAddAll KeySet | OpRemoveAll KeySet | OpRetainAll KeySet

fun applyOp :: "setOp \<Rightarrow> mutableKeySet \<Rightarrow> mutableKeySet res" where
  "applyOp (OpAdd k) m = Add m k"
| "applyOp (OpRemove k) m = Remove m k"
| "applyOp (OpAddKeys ks) m = AddKeys m ks"
| "applyOp (OpRemoveKeys ks) m = RemoveKeys m ks"
| "applyOp (OpAddAll s) m = AddAll m s"
| "applyOp (OpRemoveAll s) m = RemoveAll m s"
| "applyOp (OpRetainAll s) m = RetainAll m s"

fun opEffect :: "setOp \<Rightarrow> Key set \<Rightarrow> Key set" where
  "opEffect (OpAdd k) A = insert k A"
| "opEffect (OpRemove k) A = A - {k}"
| "opEffect (OpAddKeys ks) A = A \<union> set ks"
| "opEffect (OpRemoveKeys ks) A = A - set ks"
| "opEffect (OpAddAll s) A = A \<union> keysOf s"
| "opEffect (OpRemoveAll s) A = A - keysOf s"
| "opEffect (OpRetainAll s) A = A \<inter> keysOf s"

fun op_ok :: "setOp \<Rightarrow> bool" where
  "op_ok (OpAddAll s) = set_ok s"
| "op_ok (OpRemoveAll s) = set_ok s"
| "op_ok (OpRetainAll s) = set_ok s"
| "op_ok _ = True"

fun applyOps :: "setOp list \<Rightarrow> mutableKeySet \<Rightarrow> mutableKeySet res" where
  "applyOps [] m = Ok m"
| "applyOps (p # ps) m = bnd (applyOp p m) (applyOps ps)"

definition mutable_ok :: "mutableKeySet \<Rightarrow> bool" where
  "mutable_ok m \<longleftrightarrow> \<not> IsFrozen m \<and> set_ok (asKeySet m)"

definition mutableKeys :: "mutableKeySet \<Rightarrow> Key set" where
  "mutableKeys m = keysOf (asKeySet m)"

lemma bulk_mutates:
  assumes "mutable_ok m" "set_ok s"
  shows "mutates (AddAll m s) (mutableKeys m \<union> keysOf s)"
    "mutates (RemoveAll m s) (mutableKeys m - keysOf s)"
    "mutates (RetainAll m s) (mutableKeys m \<inter> keysOf s)"
proof -
  show "mutates (AddAll m s) (mutableKeys m \<union> keysOf s)"
    using assms incl_addAll_mutates overlay_addAll_mutates
    by (cases m) (auto simp: AddAll_def mutableKeys_def mutable_ok_def keysOf_simps
        intro!: mutates_excl [OF excl_addAll_builds])
  show "mutates (RemoveAll m s) (mutableKeys m - keysOf s)"
    using assms excl_removeAll_mutates overlay_removeAll_mutates
    by (cases m) (auto simp: RemoveAll_def mutableKeys_def mutable_ok_def keysOf_simps
        intro!: mutates_incl [OF incl_removeAll_builds])
  show "mutates (RetainAll m s) (mutableKeys m \<inter> keysOf s)"
    using assms excl_retainAll_mutates overlay_retainAll_mutates incl_retainAll_facts
    by (cases m) (auto simp: RetainAll_def mutableKeys_def mutable_ok_def keysOf_simps)
qed

lemma key_mutates:
  assumes "mutable_ok m"
  shows "mutates (Add m k) (insert k (mutableKeys m))" "mutates (Remove m k) (mutableKeys m - {k})"
    "mutates (AddKeys m ks) (mutableKeys m \<union> set ks)" "mutates (RemoveKeys m ks) (mutableKeys m - set ks)"
  using assms
  by (cases m; auto simp: mutableKeys_def mutable_ok_def keysOf_simps basic_loops
      intro!: mutates_incl [OF store_builds] mutates_excl [OF store_builds]
        mutates_incl [OF storeKeys_builds] mutates_excl [OF storeKeys_builds]
        overlay_keep_mutates [OF overlay_add_overlays] overlay_keep_mutates [OF overlay_remove_overlays]
        overlay_keep_mutates [OF overlay_addKeys_overlays] overlay_keep_mutates [OF overlay_removeKeys_overlays])+

text \<open>
  The contract of a mutable set: every operation, given a valid argument, succeeds, keeps the set
  valid and has the effect of the corresponding set operation; sequences then compose.
\<close>

locale mutable_set =
  fixes apply_op :: "'o \<Rightarrow> 's \<Rightarrow> 's res" and ok :: "'s \<Rightarrow> bool" and keys :: "'s \<Rightarrow> 'a set"
    and effect :: "'o \<Rightarrow> 'a set \<Rightarrow> 'a set" and arg_ok :: "'o \<Rightarrow> bool"
    and apply_seq :: "'o list \<Rightarrow> 's \<Rightarrow> 's res"
  assumes step: "ok s \<Longrightarrow> arg_ok p \<Longrightarrow> \<exists>s'. apply_op p s = Ok s' \<and> ok s' \<and> keys s' = effect p (keys s)"
    and seq_Nil: "apply_seq [] s = Ok s"
    and seq_Cons: "apply_seq (p # ps) s = bnd (apply_op p s) (apply_seq ps)"
begin

lemma sequence:
  "ok s \<Longrightarrow> list_all arg_ok ps \<Longrightarrow>
   \<exists>s'. apply_seq ps s = Ok s' \<and> ok s' \<and> keys s' = fold effect ps (keys s)"
proof (induction ps arbitrary: s)
  case (Cons p ps)
  then obtain t where t: "apply_op p s = Ok t" "ok t" "keys t = effect p (keys s)"
    using step [of s p] by auto
  with Cons.IH [OF t(2)] Cons.prems show ?case by (simp add: seq_Cons)
qed (simp add: seq_Nil)

end

interpretation mks: mutable_set applyOp mutable_ok mutableKeys opEffect op_ok applyOps
proof
  show "\<exists>s'. applyOp p s = Ok s' \<and> mutable_ok s' \<and> mutableKeys s' = opEffect p (mutableKeys s)"
    if "mutable_ok s" "op_ok p" for s p
    using that bulk_mutates [OF that(1)] key_mutates [OF that(1)]
    by (cases p) (auto simp: mutates_def mutable_ok_def mutableKeys_def)
qed simp_all

subsection \<open>Properties\<close>

text \<open>
  C15: Mutable key sets refine sets.  Starting from a new empty set, a new open set or a set wrapped
  around a client's key list, any sequence of additions, removals and bulk operations with
  well-formed arguments succeeds, whatever switches between the closed, open and overlay
  implementations it causes, and the result holds exactly the keys that the same sequence of set
  operations gives.
\<close>

theorem mutable_set_refines_sets:
  assumes "list_all op_ok ops" "keyList_ok l"
  shows "(\<exists>m. applyOps ops NewMutable = Ok m \<and> set_ok (asKeySet m) \<and>
      keysOf (asKeySet m) = fold opEffect ops {}) \<and>
    (\<exists>m. applyOps ops NewOpenMutable = Ok m \<and> set_ok (asKeySet m) \<and>
      keysOf (asKeySet m) = fold opEffect ops UNIV) \<and>
    (\<exists>m. bnd (WrapAsMutable (Some l)) (applyOps ops) = Ok m \<and> set_ok (asKeySet m) \<and>
      keysOf (asKeySet m) = fold opEffect ops (set (kl_keys l)))"
proof -
  have seq: "\<exists>m. applyOps ops s = Ok m \<and> set_ok (asKeySet m) \<and> keysOf (asKeySet m) = fold opEffect ops A"
    if "mutable_ok s" "mutableKeys s = A" for s A
    using mks.sequence [OF that(1) assms(1)] that(2) by (auto simp: mutable_ok_def mutableKeys_def)
  let ?o = "\<lparr>ov_immutable = l, ov_includes = emptyBasicKeySet, ov_excludes = emptyBasicKeySet\<rparr>"
  have "WrapAsMutable (Some l) = Ok (inclusiveMutableOverlay ?o)"
    by (simp add: WrapAsMutable_def newListOverlay_def)
  moreover have "mutable_ok (inclusiveMutableOverlay ?o)" "mutableKeys (inclusiveMutableOverlay ?o) = set (kl_keys l)"
    using assms(2) by (auto simp: mutable_ok_def mutableKeys_def keysOf_simps overlay_ok_def basic_ok_def
        emptyBasicKeySet_def rawKeys.simps(3) basic_Contains_set)
  ultimately show ?thesis
    using seq
    by (simp add: NewMutable_def NewOpenMutable_def newInternalMutable_def mutable_ok_def mutableKeys_def
        emptyBasicKeySet_def basic_ok_def keysOf_simps)
qed

definition sampleList :: KeyList where
  "sampleList = \<lparr>kl_Contains = \<lambda>k. k = [1] \<or> k = [2], kl_keys = [[1], [2]], kl_Count = 2\<rparr>"

theorem mutable_set_refines_sets_witness:
  "\<exists>m. bnd (WrapAsMutable (Some sampleList)) (applyOps [OpRemove [1], OpAddAll Everything, OpRemove [3]]) = Ok m \<and>
     keysOf (asKeySet m) = UNIV - {[3]}"
  using mutable_set_refines_sets [of "[OpRemove [1], OpAddAll Everything, OpRemove [3]]" sampleList]
  by (auto simp: keyList_ok_def sampleList_def)

text \<open>
  Freezing.  \<^verbatim>\<open>Freeze\<close> returns the current set; afterwards every mutation of the wrapper panics,
  so the returned set cannot change through it, and freezing again returns the same set.
\<close>

lemma frozen_set_is_immutable:
  assumes "mutable_ok m" "Freeze (Some m) = Ok (ks, Some m')"
  shows "keysOf ks = mutableKeys m \<and> IsFrozen m' \<and> Freeze (Some m') = Ok (ks, Some m') \<and> asKeySet m' = ks \<and>
    applyOp p m' = Panic ''illegal state''"
proof -
  have "m' = frozenKeySet m \<and> ks = asKeySet m" using assms by (cases m) (auto simp: mutable_ok_def)
  then show ?thesis
    by (cases p) (auto simp: mutableKeys_def AddAll_def RemoveAll_def RetainAll_def replaced_def)
qed

text \<open>
  Copies.  \<^verbatim>\<open>Copy\<close> of any set, frozen or not, is an unfrozen set with the same keys, and
  \<^verbatim>\<open>InverseCopy\<close> one with the complementary keys.
\<close>

theorem mutable_copies:
  assumes "set_ok (asKeySet m)"
  shows "mutates (Copy m) (mutableKeys m) \<and> mutates (InverseCopy m) (- mutableKeys m)"
proof -
  have "builds (mut_copy m 0) (set (listed (asKeySet m)))"
    using assms by (induction m) (use i_copy_builds [of "Basic _"] i_copy_builds [of "Overlay _"] in auto)
  then show ?thesis
    by (auto simp: builds_def Copy_def InverseCopy_def copyAs_def newInternalMutable_def
        mutableKeys_def keysOf_def)
qed

theorem mutable_copies_witness:
  "mutates (InverseCopy NewMutable) (- mutableKeys NewMutable)"
  using mutable_copies [of NewMutable]
  by (simp add: NewMutable_def newInternalMutable_def emptyBasicKeySet_def basic_ok_def)

end
