(* ===== verification/Jet_Id.thy ===== *)
theory Jet_Id
  imports Pulse_Number
begin

text \<open>
  The jet identifiers of \<^verbatim>\<open>ledger/jet/jet_id.go\<close>: a jet prefix, an exact identifier that packs the
  prefix with its length, and the leg and drop identifiers that add a pulse number.  They are the
  unsigned words of the sources, packed with the same shifts.
\<close>

type_synonym Prefix = u32
type_synonym ID = u16
type_synonym ExactID = u32
type_synonym LegID = u64
type_synonym DropID = u64

definition exactLenOfs :: nat where
  "exactLenOfs = 24"

definition GenesisExactID :: ExactID where
  "GenesisExactID = push_bit exactLenOfs 1"

definition UnknownExactID :: ExactID where
  "UnknownExactID = 0"

definition AsID :: "Prefix \<Rightarrow> ID" where
  "AsID v = ucast v"

definition AsPrefix :: "ID \<Rightarrow> Prefix" where
  "AsPrefix v = ucast v"

definition AsExact :: "ID \<Rightarrow> u8 \<Rightarrow> ExactID res" where
  "AsExact v bitLen =
     (if bitLen > 16 then Panic ''IllegalValue''
      else if drop_bit (unat bitLen) v \<noteq> 0 then Panic ''IllegalValue''
      else Ok (push_bit exactLenOfs (ucast (1 + bitLen)) OR ucast v))"

definition AsDrop :: "ID \<Rightarrow> Number \<Rightarrow> DropID res" where
  "AsDrop v createdAt =
     (if \<not> IsTimePulse createdAt then Panic ''IllegalValue''
      else Ok (ucast createdAt OR push_bit 32 (ucast v)))"

definition NoLengthExactID :: "ID \<Rightarrow> ExactID" where
  "NoLengthExactID v = ucast v"

definition exact_ID :: "ExactID \<Rightarrow> ID" where
  "exact_ID v = ucast v"

definition bitLength :: "ExactID \<Rightarrow> u8 \<times> bool" where
  "bitLength v = (let n = ucast (drop_bit exactLenOfs v) in if n > 0 then (n - 1, True) else (0, False))"

definition exact_BitLen :: "ExactID \<Rightarrow> u8 res" where
  "exact_BitLen v = (case bitLength v of (n, ok) \<Rightarrow> if ok then Ok n else Panic ''IllegalState'')"

definition HasLength :: "ExactID \<Rightarrow> bool" where
  "HasLength v = snd (bitLength v)"

definition exact_AsDrop :: "ExactID \<Rightarrow> Number \<Rightarrow> DropID res" where
  "exact_AsDrop v pn = (if v = UnknownExactID then Panic ''IllegalState'' else AsDrop (exact_ID v) pn)"

definition exact_AsLeg :: "ExactID \<Rightarrow> Number \<Rightarrow> LegID res" where
  "exact_AsLeg v createdAt =
     (if v = UnknownExactID then Panic ''IllegalState''
      else if \<not> IsTimePulse createdAt then Panic ''IllegalValue''
      else Ok (ucast createdAt OR push_bit 32 (ucast v)))"

definition AsLeg :: "ID \<Rightarrow> u8 \<Rightarrow> Number \<Rightarrow> LegID res" where
  "AsLeg v bitLen createdAt = bnd (AsExact v bitLen) (\<lambda>e. exact_AsLeg e createdAt)"

definition leg_ExactID :: "LegID \<Rightarrow> ExactID" where
  "leg_ExactID v = ucast (drop_bit 32 v)"

definition leg_CreatedAt :: "LegID \<Rightarrow> Number" where
  "leg_CreatedAt v = OfUint32 (ucast v)"

definition leg_IsValid :: "LegID \<Rightarrow> bool" where
  "leg_IsValid v \<longleftrightarrow> HasLength (leg_ExactID v) \<and> IsValidAsPulseNumber (uint (v AND 0xFFFFFFFF))"

definition leg_AsDrop :: "LegID \<Rightarrow> DropID res" where
  "leg_AsDrop v = AsDrop (exact_ID (leg_ExactID v)) (leg_CreatedAt v)"

definition drop_exactID :: "DropID \<Rightarrow> ExactID" where
  "drop_exactID v = ucast (drop_bit 32 v)"

definition drop_ID :: "DropID \<Rightarrow> ID" where
  "drop_ID v = exact_ID (drop_exactID v)"

definition drop_CreatedAt :: "DropID \<Rightarrow> Number" where
  "drop_CreatedAt v = OfUint32 (ucast v)"

definition drop_IsValid :: "DropID \<Rightarrow> bool" where
  "drop_IsValid v \<longleftrightarrow> \<not> HasLength (drop_exactID v) \<and> IsValidAsPulseNumber (uint (v AND 0xFFFFFFFF))"

subsection \<open>Packing and unpacking\<close>

lemma pack_high: "ucast (drop_bit 32 (ucast (lo :: u32) OR push_bit 32 (ucast (hi :: u32)) :: u64)) = hi"
  by (rule bit_eqI) (auto simp: bit_simps dest: bit_imp_le_length)

lemma pack_low: "ucast (ucast (lo :: u32) OR push_bit 32 (ucast (hi :: u32)) :: u64) = lo"
  by (rule bit_eqI) (auto simp: bit_simps)

lemma low_mask: "(v :: u64) AND 0xFFFFFFFF = ucast (ucast v :: u32)"
proof -
  have "v AND 0xFFFFFFFF = take_bit 32 v" by (simp add: take_bit_eq_mask mask_eq_exp_minus_1)
  then show ?thesis by (auto intro!: bit_eqI simp: bit_simps)
qed

lemma uint_low: "uint (ucast (n :: u32) :: u64) = uint n"
  using uint_lt2p [of n] by (simp add: unsigned_ucast_eq take_bit_int_eq_self)

lemma ucast_up_16: "(ucast (v :: u16) :: u64) = ucast (ucast v :: u32)"
  by (rule bit_eqI) (auto simp: bit_simps dest: bit_imp_le_length)

lemma time_OfUint32: "IsTimePulse n \<Longrightarrow> OfUint32 n = n"
  by (simp add: OfUint32_def MaxTimePulse_def MaxTimePulse_mask IsTimePulse_unat take_bit_30_eq
      flip: take_bit_eq_mask)

lemma exact_low: "ucast (push_bit 24 (ucast (n :: u8)) OR ucast (v :: u16) :: u32) = v"
  by (rule bit_eqI) (auto simp: bit_simps)

lemma exact_high: "ucast (drop_bit 24 (push_bit 24 (ucast (n :: u8)) OR ucast (v :: u16) :: u32)) = n"
  by (rule bit_eqI) (auto simp: bit_simps dest: bit_imp_le_length)

lemma bitLen_range:
  fixes n :: u8
  assumes "n \<le> 16" shows "unat (1 + n) = Suc (unat n)" "1 + n > 0" "unat n \<le> 16"
  using assms by (auto simp: word_le_nat_alt word_less_nat_alt unat_word_ariths)

lemma AsExact_Ok:
  "AsExact v n = Ok e \<longleftrightarrow> n \<le> 16 \<and> drop_bit (unat n) v = 0 \<and> e = push_bit 24 (ucast (1 + n)) OR ucast v"
  by (auto simp: AsExact_def exactLenOfs_def not_less)

lemma AsExact_facts:
  assumes "AsExact v n = Ok e"
  shows "exact_ID e = v" "bitLength e = (n, True)" "HasLength e" "e \<noteq> UnknownExactID"
proof -
  have e: "n \<le> 16" "e = push_bit 24 (ucast (1 + n)) OR ucast v" using assms AsExact_Ok by auto
  show "exact_ID e = v" by (simp add: e(2) exact_ID_def exact_low)
  show "bitLength e = (n, True)"
    using bitLen_range(2) [OF e(1)]
    by (simp add: e(2) bitLength_def exactLenOfs_def exact_high Let_def del: drop_bit_or)
  then show "HasLength e" "e \<noteq> UnknownExactID"
    by (auto simp: HasLength_def UnknownExactID_def bitLength_def Let_def)
qed

lemma drop_packed:
  assumes "IsTimePulse pn"
  shows "AsDrop v pn = Ok (ucast pn OR push_bit 32 (ucast (ucast v :: u32)))"
  using assms by (simp add: AsDrop_def ucast_up_16)

lemma HasLength_ucast: "\<not> HasLength (ucast (v :: u16))"
proof -
  have "ucast (drop_bit 24 (ucast v :: u32)) = (0 :: u8)"
    by (rule bit_eqI) (auto simp: bit_simps dest: bit_imp_le_length)
  then show ?thesis by (simp add: HasLength_def bitLength_def exactLenOfs_def)
qed

subsection \<open>Properties\<close>

text \<open>
  Exact jet identifiers.  \<^verbatim>\<open>AsExact\<close> accepts exactly the prefixes that fit the given length of
  at most sixteen bits; the packed identifier then gives back the prefix and the length, zero
  length included, so different jets never share an identifier.
\<close>

theorem exact_id_roundtrip:
  "(is_ok (AsExact v n) \<longleftrightarrow> unat n \<le> 16 \<and> unat v < 2 ^ unat n) \<and>
   (\<forall>e. AsExact v n = Ok e \<longrightarrow> exact_ID e = v \<and> exact_BitLen e = Ok n \<and> HasLength e \<and> e \<noteq> UnknownExactID)"
proof -
  have "unat (drop_bit (unat n) v) = unat v div 2 ^ unat n"
    using unat_lt_16 [of v]
    by (simp only: unsigned_drop_bit_eq) (simp add: drop_bit_eq_div take_bit_nat_eq_self)
  then have "drop_bit (unat n) v = 0 \<longleftrightarrow> unat v < 2 ^ unat n"
    by (simp add: word_unat_eq_iff [of _ 0] div_eq_0_iff)
  then have "is_ok (AsExact v n) \<longleftrightarrow> unat n \<le> 16 \<and> unat v < 2 ^ unat n"
    by (auto simp: is_ok_iff AsExact_Ok word_le_nat_alt)
  then show ?thesis
    using AsExact_facts [of v n] by (auto simp: exact_BitLen_def)
qed

theorem exact_id_roundtrip_witness:
  "\<exists>e. AsExact 5 3 = Ok e \<and> exact_ID e = 5 \<and> exact_BitLen e = Ok 3"
proof -
  have "is_ok (AsExact 5 3)" using exact_id_roundtrip [of 5 3] by simp
  then show ?thesis using exact_id_roundtrip [of 5 3] by (auto simp: is_ok_iff)
qed

text \<open>
  Leg and drop identifiers.  A leg identifier built from a jet and a time pulse is valid and
  gives back the exact jet and the pulse; turning it into a drop identifier gives the drop of the
  same prefix and pulse, which is valid as a drop and gives back the prefix and the pulse.  A leg
  identifier is never valid as a drop identifier.
\<close>

theorem leg_and_drop_roundtrip:
  assumes "AsExact v n = Ok e" "IsTimePulse pn"
  shows "\<exists>l d. AsLeg v n pn = Ok l \<and> leg_IsValid l \<and> leg_ExactID l = e \<and> leg_CreatedAt l = pn \<and>
    leg_AsDrop l = Ok d \<and> AsDrop v pn = Ok d \<and> exact_AsDrop e pn = Ok d \<and>
    drop_IsValid d \<and> drop_ID d = v \<and> drop_CreatedAt d = pn \<and> \<not> drop_IsValid l"
proof -
  let ?l = "ucast pn OR push_bit 32 (ucast e) :: u64"
  let ?d = "ucast pn OR push_bit 32 (ucast (ucast v :: u32)) :: u64"
  have e: "exact_ID e = v" "HasLength e" "e \<noteq> UnknownExactID"
    using AsExact_facts [OF assms(1)] by auto
  have time: "IsValidAsPulseNumber (uint pn)" using assms(2) by (simp add: IsTimePulse_def)
  have l: "leg_ExactID ?l = e" "leg_CreatedAt ?l = pn" "AsLeg v n pn = Ok ?l"
    using assms e by (simp_all add: leg_ExactID_def leg_CreatedAt_def AsLeg_def exact_AsLeg_def pack_high
        pack_low time_OfUint32 del: drop_bit_or)
  have d: "drop_exactID ?d = ucast v" "drop_CreatedAt ?d = pn" "drop_exactID ?l = e"
    using assms(2) by (simp_all add: drop_exactID_def drop_CreatedAt_def pack_high pack_low time_OfUint32
        del: drop_bit_or)
  have "drop_ID ?d = v" using d(1) by (simp add: drop_ID_def exact_ID_def) (rule bit_eqI, auto simp: bit_simps)
  moreover have "drop_IsValid ?d" "leg_IsValid ?l" "\<not> drop_IsValid ?l"
    using d l e time HasLength_ucast [of v]
    by (simp_all add: drop_IsValid_def leg_IsValid_def low_mask pack_low uint_low)
  ultimately show ?thesis
    using l d e drop_packed [OF assms(2), of v]
    by (auto simp: leg_AsDrop_def exact_AsDrop_def)
qed

theorem leg_and_drop_roundtrip_witness:
  "\<exists>l d. AsLeg 5 3 70000 = Ok l \<and> leg_CreatedAt l = 70000 \<and> leg_AsDrop l = Ok d \<and> drop_ID d = 5"
proof -
  have "\<exists>e. AsExact 5 3 = Ok e" by (simp add: AsExact_def drop_bit_eq_div exactLenOfs_def)
  then show ?thesis
    using leg_and_drop_roundtrip [of 5 3 _ 70000] by (auto simp: IsTimePulse_unat)
qed

end
