(* ===== verification/Jet_Tree.thy ===== *)
theory Jet_Tree
  imports Jet_Id
begin

text \<open>
  The jet tree of \<^verbatim>\<open>ledger/jet/prefix_tree.go\<close>: a binary tree of at most 65536 jets, kept as a table
  with a four-bit length per 16-bit prefix value, the number of leaves per depth, and the least and
  greatest depth.  The root branches on bit 0 of a prefix.  Prefixes and depths are natural numbers
  (the depths of the sources are bytes that never leave 0..17); the table entries and the leaf
  counters keep their width, because a counter can wrap.  A length \<open>d > 0\<close> is stored as \<open>d - 1\<close>, so
  that zero also stands for a missing entry.
\<close>

record PrefixTree =
  tree_mask :: nat
  minDepth :: nat
  maxDepth :: nat
  autoPropagate :: bool
  leafCounts :: "nat \<Rightarrow> u16"
  lenNibles :: "nat \<Rightarrow> u8"

definition zeroTree :: PrefixTree where
  "zeroTree = \<lparr>tree_mask = 0, minDepth = 0, maxDepth = 0, autoPropagate = False,
     leafCounts = (\<lambda>i. 0), lenNibles = (\<lambda>i. 0)\<rparr>"

definition NewPrefixTree :: "bool \<Rightarrow> PrefixTree" where
  "NewPrefixTree propagate = zeroTree\<lparr>autoPropagate := propagate, leafCounts := (\<lambda>i. 0)(0 := 1)\<rparr>"

definition IsZero :: "PrefixTree \<Rightarrow> bool" where
  "IsZero p \<longleftrightarrow> minDepth p = 0 \<and> maxDepth p = 0 \<and> leafCounts p 0 = 0"

definition Init :: "PrefixTree \<Rightarrow> PrefixTree" where
  "Init p = (if IsZero p then p\<lparr>leafCounts := (leafCounts p)(0 := 1)\<rparr> else p)"

definition tree_IsEmpty :: "PrefixTree \<Rightarrow> bool" where
  "tree_IsEmpty p \<longleftrightarrow> minDepth p = 0 \<and> maxDepth p = 0"

definition tree_Count :: "PrefixTree \<Rightarrow> nat" where
  "tree_Count p = (if minDepth p = maxDepth p then 2 ^ minDepth p
     else sum_list (map (\<lambda>i. unat (leafCounts p i)) [0 ..< 17]))"

text \<open>\<^verbatim>\<open>bits.Len\<close>: the number of bits of a value.\<close>

fun Len :: "nat \<Rightarrow> nat" where
  "Len n = (if n = 0 then 0 else Suc (Len (n div 2)))"

declare Len.simps [simp del]

subsection \<open>The table of lengths\<close>

definition nibble :: "PrefixTree \<Rightarrow> nat \<Rightarrow> u8" where
  "nibble p prefix = (let depth = lenNibles p (prefix div 2)
     in if odd prefix then drop_bit 4 depth else depth AND 0x0F)"

definition rawPrefixLength :: "PrefixTree \<Rightarrow> nat \<Rightarrow> nat \<times> bool" where
  "rawPrefixLength p prefix = (let depth = nibble p prefix
     in if depth \<noteq> 0 then (unat depth + 1, True)
        else if maxDepth p = 0 then (0, prefix = 0)
        else (1, prefix \<le> 1 \<or> autoPropagate p \<and> minDepth p = 1))"

definition getPrefixLength :: "PrefixTree \<Rightarrow> nat \<Rightarrow> nat \<times> bool" where
  "getPrefixLength p prefix = (case rawPrefixLength p prefix of (depth, ok) \<Rightarrow>
     if \<not> ok \<or> depth = 0 then (depth, ok)
     else if \<not> autoPropagate p then (depth, ok)
     else if Len prefix > depth then (depth, False)
     else (depth, ok))"

definition setNibble :: "nat \<Rightarrow> u8 \<Rightarrow> PrefixTree \<Rightarrow> PrefixTree" where
  "setNibble prefix depth p = (let idx = prefix div 2; d = lenNibles p idx;
       d' = (if odd prefix then (d AND 0x0F) OR push_bit 4 depth else (d AND 0xF0) OR (depth AND 0x0F))
     in p\<lparr>lenNibles := (lenNibles p)(idx := d')\<rparr>)"

definition setPrefixLength :: "nat \<Rightarrow> nat \<Rightarrow> PrefixTree \<Rightarrow> PrefixTree res" where
  "setPrefixLength prefix depth p =
     (if depth > 16 then Panic ''IllegalValue''
      else if depth \<noteq> 0 then Ok (setNibble prefix (of_nat (depth - 1)) p)
      else if prefix \<noteq> 0 then Panic ''IllegalValue''
      else Ok (p\<lparr>lenNibles := (lenNibles p)(0 := 0)\<rparr>))"

definition resetPrefixLength :: "nat \<Rightarrow> PrefixTree \<Rightarrow> PrefixTree" where
  "resetPrefixLength prefix p = (let idx = prefix div 2; d = lenNibles p idx
     in p\<lparr>lenNibles := (lenNibles p)(idx := if odd prefix then d AND 0x0F else d AND 0xF0)\<rparr>)"

subsection \<open>Lookup\<close>

text \<open>
  The two loops of \<^verbatim>\<open>_findPrefixLength\<close> clear the highest bit of the prefix, first in the upper and
  then in the lower byte, until the table has an entry.
\<close>

definition clearHigh :: "nat \<Rightarrow> nat" where
  "clearHigh m = (if m > 255 then m XOR 2 ^ (7 + Len (m div 256)) else m XOR 2 ^ (Len m - 1))"

lemma Len_bounds: "m > 0 \<Longrightarrow> 2 ^ (Len m - 1) \<le> m \<and> m < 2 ^ Len m \<and> Len m > 0"
proof (induction m rule: Len.induct)
  case (1 n)
  show ?case
  proof (cases "n div 2 = 0")
    case True
    with 1 have "n = 1" by auto
    then show ?thesis by (simp add: Len.simps)
  next
    case False
    then have b: "2 ^ (Len (n div 2) - 1) \<le> n div 2" "n div 2 < 2 ^ Len (n div 2)" "Len (n div 2) > 0"
      using 1 by auto
    then obtain j where j: "Len (n div 2) = Suc j" by (cases "Len (n div 2)") auto
    have n: "Len n = Suc (Suc j)" using 1(2) j by (subst Len.simps) simp
    have "2 ^ j \<le> n div 2" "n div 2 < 2 * 2 ^ j" using b j by auto
    then have "2 * 2 ^ j \<le> n" "n < 4 * 2 ^ j" by linarith+
    with n show ?thesis by simp
  qed
qed

lemma Len_byte: "m > 255 \<Longrightarrow> Len m = 8 + Len (m div 256)"
  by (subst Len.simps, simp, subst Len.simps, simp, subst Len.simps, simp, subst Len.simps, simp,
      subst Len.simps, simp, subst Len.simps, simp, subst Len.simps, simp, subst Len.simps, simp)
     (simp add: div_mult2_eq [symmetric])

lemma xor_top: "2 ^ k \<le> m \<Longrightarrow> m < 2 ^ Suc k \<Longrightarrow> m XOR 2 ^ k = m - (2 ^ k :: nat)"
proof -
  assume a: "2 ^ k \<le> m" "m < 2 ^ Suc k"
  have "m - 2 ^ k = take_bit k m"
    using a by (simp add: take_bit_eq_mod le_mod_geq)
  moreover have "bit m n \<longleftrightarrow> n = k" if "k \<le> n" for n
  proof (cases "n = k")
    case True
    with a have "m div 2 ^ n = 1" by (intro div_nat_eqI) auto
    with True show ?thesis by (simp add: bit_iff_odd)
  next
    case False
    then have "(2 :: nat) ^ Suc k \<le> 2 ^ n" using that by (intro power_increasing) auto
    with a have "m < 2 ^ n" by linarith
    with False show ?thesis by (simp add: bit_iff_odd)
  qed
  then have "bit (m XOR 2 ^ k) n \<longleftrightarrow> bit (take_bit k m) n" for n
    by (cases "k \<le> n") (auto simp: bit_simps)
  then have "m XOR 2 ^ k = take_bit k m" by (auto intro: bit_eqI)
  ultimately show ?thesis by simp
qed

lemma clearHigh_eq: "m > 0 \<Longrightarrow> clearHigh m = m - 2 ^ (Len m - 1)"
proof -
  assume m: "m > 0"
  have "clearHigh m = m XOR 2 ^ (Len m - 1)"
    using Len_byte [of m] by (auto simp: clearHigh_def)
  moreover have "m < 2 ^ Suc (Len m - 1)" using Len_bounds [OF m] by simp
  ultimately show ?thesis using xor_top [of "Len m - 1" m] Len_bounds [OF m] by simp
qed

lemma clearHigh_less: "m > 0 \<Longrightarrow> clearHigh m < m"
  by (simp add: clearHigh_eq)

function findPrefixUp :: "PrefixTree \<Rightarrow> nat \<Rightarrow> (nat \<times> nat) res" where
  "findPrefixUp p maskedPrefix =
     (if maskedPrefix > 0
      then let m = clearHigh maskedPrefix
           in case rawPrefixLength p m of (depth, ok) \<Rightarrow> if ok then Ok (m, depth) else findPrefixUp p m
      else Panic ''IllegalState'')"
  by auto

termination
  by (relation "measure snd") (auto simp: clearHigh_less)

declare findPrefixUp.simps [simp del]

definition findPrefixLength :: "PrefixTree \<Rightarrow> nat \<Rightarrow> (nat \<times> nat) res" where
  "findPrefixLength p prefix =
     (let maskedPrefix = take_bit 16 (prefix AND tree_mask p)
      in case rawPrefixLength p maskedPrefix of (depth, ok) \<Rightarrow>
        if ok then Ok (maskedPrefix, depth)
        else if autoPropagate p then Panic ''IllegalState''
        else findPrefixUp p maskedPrefix)"

definition GetPrefix :: "PrefixTree \<Rightarrow> nat \<Rightarrow> (nat \<times> nat) res" where
  "GetPrefix p prefix = findPrefixLength p prefix"

subsection \<open>Propagation of lengths to longer prefixes\<close>

definition propagate :: "nat \<Rightarrow> nat \<Rightarrow> PrefixTree \<Rightarrow> PrefixTree res" where
  "propagate prefix baseDepth p =
     (if baseDepth = 0 \<or> baseDepth > maxDepth p then Panic ''IllegalState''
      else if baseDepth = maxDepth p then Ok p
      else if prefix \<ge> 2 ^ baseDepth then Panic ''IllegalState''
      else Ok (fold (\<lambda>j p. let idx = (j * 2 ^ baseDepth + prefix) div 2; d = lenNibles p idx;
              d' = (if even prefix then (d AND 0xF0) OR of_nat (baseDepth - 1)
                    else (d AND 0x0F) OR push_bit 4 (of_nat (baseDepth - 1)))
            in p\<lparr>lenNibles := (lenNibles p)(idx := d')\<rparr>) [1 ..< 2 ^ (maxDepth p - baseDepth)] p))"

definition propagateAllocatedDepth :: "PrefixTree \<Rightarrow> PrefixTree res" where
  "propagateAllocatedDepth p =
     (if maxDepth p = 0 then Panic ''IllegalState''
      else if maxDepth p \<le> 2
      then if lenNibles p 0 \<noteq> 0 then Panic ''IllegalState''
           else Ok (if maxDepth p = 2 then p\<lparr>lenNibles := (lenNibles p)(1 := 0)\<rparr> else p)
      else let half = 2 ^ (maxDepth p - 2)
           in Ok (p\<lparr>lenNibles := (\<lambda>i. if half \<le> i \<and> i < 2 * half then lenNibles p (i - half) else lenNibles p i)\<rparr>))"

definition cleanupReleasedDepth :: "PrefixTree \<Rightarrow> PrefixTree res" where
  "cleanupReleasedDepth p =
     (if maxDepth p = 1
      then if lenNibles p 1 AND 0xEE \<noteq> 0 then Panic ''IllegalState''
           else if lenNibles p 0 AND 0xEE \<noteq> 0 then Panic ''IllegalState''
           else Ok p
      else if maxDepth p = 0
      then if lenNibles p 0 \<noteq> 0 then Panic ''IllegalState'' else Ok p
      else let max = 2 ^ (maxDepth p - 1)
           in Ok (p\<lparr>lenNibles := (\<lambda>i. if max \<le> i \<and> i < 2 * max then 0 else lenNibles p i)\<rparr>))"

definition getParentNible :: "PrefixTree \<Rightarrow> nat \<Rightarrow> u8" where
  "getParentNible p index = lenNibles p (index XOR 2 ^ (Len index - 1))"

definition propagateAll :: "PrefixTree \<Rightarrow> PrefixTree" where
  "propagateAll p =
     (if maxDepth p \<le> 1 then p
      else fold (\<lambda>i p. let v = lenNibles p i;
             w = (if v = 0 then getParentNible p i
                  else if v \<le> 0x0F then v OR (getParentNible p i AND 0xF0)
                  else if v AND 0x0F = 0 then (v AND 0xF0) OR (getParentNible p i AND 0x0F)
                  else v)
           in p\<lparr>lenNibles := (lenNibles p)(i := w)\<rparr>) [1 ..< 2 ^ (maxDepth p - 1)] p)"

definition SetPropagate :: "PrefixTree \<Rightarrow> PrefixTree" where
  "SetPropagate p = (if autoPropagate p then p else propagateAll (p\<lparr>autoPropagate := True\<rparr>))"

subsection \<open>Split and merge\<close>

definition incLeaf :: "nat \<Rightarrow> u16 \<Rightarrow> PrefixTree \<Rightarrow> PrefixTree" where
  "incLeaf d k p = p\<lparr>leafCounts := (leafCounts p)(d := leafCounts p d + k)\<rparr>"

definition setLeaf :: "nat \<Rightarrow> u16 \<Rightarrow> PrefixTree \<Rightarrow> PrefixTree" where
  "setLeaf d n p = p\<lparr>leafCounts := (leafCounts p)(d := n)\<rparr>"

definition split_count :: "nat \<Rightarrow> PrefixTree \<Rightarrow> PrefixTree res" where
  "split_count prefixLen p = (let n = leafCounts p prefixLen in
     if n > 1 then Ok (setLeaf prefixLen (n - 1) p)
     else if n = 1
     then Ok ((setLeaf prefixLen 0 p)\<lparr>minDepth := if prefixLen = minDepth p then minDepth p + 1 else minDepth p\<rparr>)
     else if prefixLen = 0 \<and> minDepth p = 0 \<and> maxDepth p = 0
     then Ok (p\<lparr>minDepth := minDepth p + 1\<rparr>)
     else Panic ''IllegalState'')"

definition split_grow :: "nat \<Rightarrow> bool \<Rightarrow> PrefixTree \<Rightarrow> PrefixTree res" where
  "split_grow prefixLen doPropagate p =
     (if prefixLen = maxDepth p
      then let p' = p\<lparr>maxDepth := maxDepth p + 1, tree_mask := push_bit 1 (tree_mask p) OR 1\<rparr>
           in if doPropagate then propagateAllocatedDepth p' else Ok p'
      else Ok p)"

definition split_at :: "nat \<Rightarrow> nat \<Rightarrow> bool \<Rightarrow> PrefixTree \<Rightarrow> PrefixTree res" where
  "split_at maskedPrefix prefixLen doPropagate p =
     bnd (split_count prefixLen p) (\<lambda>p.
     bnd (split_grow prefixLen doPropagate p) (\<lambda>p.
     let pairedPrefix = maskedPrefix OR take_bit 16 (2 ^ prefixLen); prefixLen' = prefixLen + 1 in
     bnd (setPrefixLength maskedPrefix prefixLen' p) (\<lambda>p.
     bnd (setPrefixLength pairedPrefix prefixLen' p) (\<lambda>p.
     let p = incLeaf prefixLen' 2 p in
     if doPropagate
     then bnd (propagate maskedPrefix prefixLen' p) (propagate pairedPrefix prefixLen')
     else Ok p))))"

definition Split :: "nat \<Rightarrow> nat \<Rightarrow> PrefixTree \<Rightarrow> PrefixTree res" where
  "Split prefix prefixLimit p =
     bnd (findPrefixLength p prefix) (\<lambda>(maskedPrefix, prefixLen).
       if prefixLimit < prefixLen then Panic ''IllegalValue''
       else if prefixLen \<ge> 17 then Panic ''IllegalValue''
       else split_at maskedPrefix prefixLen (autoPropagate p) p)"

definition splitForDeserialize :: "nat \<Rightarrow> nat \<Rightarrow> PrefixTree \<Rightarrow> PrefixTree res" where
  "splitForDeserialize maskedPrefix prefixLimit p =
     (case getPrefixLength p maskedPrefix of (prefixLen, ok) \<Rightarrow>
        if \<not> ok then Panic ''IllegalValue''
        else if prefixLen \<noteq> prefixLimit then Panic ''IllegalValue''
        else split_at maskedPrefix prefixLen False p)"

definition MakePerfect :: "nat \<Rightarrow> PrefixTree \<Rightarrow> PrefixTree res" where
  "MakePerfect depth p =
     (if depth > 16 then Panic ''IllegalValue''
      else if \<not> tree_IsEmpty p then Panic ''IllegalState''
      else if depth = 0 then Ok p
      else let nib = of_nat (depth - 1); nib' = nib OR push_bit 4 nib; m = 2 ^ depth - 1 in
        Ok (p\<lparr>minDepth := depth, maxDepth := depth,
          leafCounts := (leafCounts p)(0 := 0, depth := of_nat (2 ^ depth)), tree_mask := m,
          lenNibles := (\<lambda>i. if i \<le> m div 2 then nib' else lenNibles p i)\<rparr>))"

definition merge_count :: "nat \<Rightarrow> PrefixTree \<Rightarrow> PrefixTree res" where
  "merge_count prefixLen p = (let n = leafCounts p prefixLen in
     if n > 2 then Ok (setLeaf prefixLen (n - 2) p)
     else if n = 2
     then if maxDepth p = 0 then Panic ''IllegalState''
          else bnd (if maxDepth p = prefixLen
                 then cleanupReleasedDepth (p\<lparr>maxDepth := maxDepth p - 1, tree_mask := drop_bit 1 (tree_mask p)\<rparr>)
                 else Ok p) (\<lambda>p. Ok (setLeaf prefixLen 0 p))
     else Panic ''IllegalState'')"

definition merge_at :: "nat \<Rightarrow> nat \<Rightarrow> bool \<Rightarrow> PrefixTree \<Rightarrow> PrefixTree res" where
  "merge_at maskedPrefix prefixLen doPropagate p =
     (let pairedPrefix = maskedPrefix OR 2 ^ (prefixLen - 1) in
      case getPrefixLength p pairedPrefix of (pairedPrefixLen, ok) \<Rightarrow>
        if maskedPrefix = pairedPrefix then Panic ''illegal value - only the zero-side is allowed to merge''
        else if \<not> ok then Panic ''illegal value - missing prefix''
        else if pairedPrefixLen \<noteq> prefixLen then Panic ''illegal value - unbalanced merge pair''
        else bnd (merge_count prefixLen p) (\<lambda>p.
          let p = (if prefixLen = minDepth p then p\<lparr>minDepth := minDepth p - 1\<rparr> else p);
              prefixLen' = prefixLen - 1;
              p = resetPrefixLength maskedPrefix (resetPrefixLength pairedPrefix p) in
          bnd (if prefixLen' > 0
               then bnd (setPrefixLength maskedPrefix prefixLen' p) (\<lambda>p.
                 if doPropagate then propagate maskedPrefix prefixLen' p else Ok p)
               else Ok p)
            (\<lambda>p. Ok (incLeaf prefixLen' 1 p))))"

definition Merge :: "nat \<Rightarrow> nat \<Rightarrow> PrefixTree \<Rightarrow> PrefixTree res" where
  "Merge prefix prefixLimit p =
     bnd (findPrefixLength p prefix) (\<lambda>(maskedPrefix, prefixLen).
       if prefixLimit < prefixLen then Panic ''IllegalValue''
       else if prefixLen = 0 then Panic ''IllegalValue''
       else merge_at maskedPrefix prefixLen (autoPropagate p) p)"

subsection \<open>Enumeration and cleanup\<close>

text \<open>
  The shift of the code would be by 255 bits, and the step zero, at a missing entry of length zero; the step is one here.  The
  entry at prefix 0 is never missing and every other missing entry has a positive length.
\<close>

function enumFrom ::
  "PrefixTree \<Rightarrow> nat \<Rightarrow> (nat \<times> nat \<Rightarrow> 's \<Rightarrow> bool \<times> 's) \<Rightarrow> 's \<Rightarrow> bool \<times> 's" where
  "enumFrom p prefix fn s =
     (if prefix \<le> tree_mask p
      then case getPrefixLength p prefix of (pLen, ok) \<Rightarrow>
        if \<not> ok then enumFrom p (prefix + 2 ^ (pLen - 1)) fn s
        else case fn (prefix, pLen) s of (stop, s') \<Rightarrow>
          if stop then (True, s')
          else if pLen = 0 then (False, s')
          else enumFrom p (prefix + 1) fn s'
      else (False, s))"
  by pat_completeness auto

termination
proof (relation "measure (\<lambda>(p, prefix, fn, s). Suc (tree_mask p) - prefix)")
  show "((p, prefix + 2 ^ (pLen - 1), fn, s), p, prefix, fn, s)
      \<in> measure (\<lambda>(p, prefix, fn, s). Suc (tree_mask p) - prefix)"
    if "prefix \<le> tree_mask p" for p prefix pLen and fn :: "nat \<times> nat \<Rightarrow> 's \<Rightarrow> bool \<times> 's" and s :: 's
    using that by (auto intro!: diff_less_mono2)
qed auto

declare enumFrom.simps [simp del]

definition Enum :: "PrefixTree \<Rightarrow> (nat \<times> nat \<Rightarrow> 's \<Rightarrow> bool \<times> 's) \<Rightarrow> 's \<Rightarrow> bool \<times> 's" where
  "Enum p fn s = enumFrom p 0 fn s"

definition Cleanup :: "PrefixTree \<Rightarrow> PrefixTree res" where
  "Cleanup p =
     bnd (if maxDepth p = 16 then Ok p
          else if maxDepth p = 0
          then let p' = (if autoPropagate p then p\<lparr>lenNibles := (\<lambda>i. if i < 32768 then 0 else lenNibles p i)\<rparr> else p)
               in if leafCounts p' 0 = 0 then Ok (setLeaf 0 1 p')
                  else if leafCounts p' 0 = 1 then Ok p'
                  else Panic ''IllegalState''
          else if maxDepth p > 16 then Panic ''IllegalState''
          else let p' = (if autoPropagate p
                 then p\<lparr>lenNibles := (\<lambda>i. if 2 ^ (maxDepth p - 1) \<le> i \<and> i < 32768 then 0 else lenNibles p i)\<rparr> else p)
               in if leafCounts p' 0 \<noteq> 0 then Panic ''IllegalState'' else Ok p')
       (\<lambda>p. if maxDepth p = 16 \<or> (\<forall>i \<in> set [maxDepth p + 1 ..< 17]. leafCounts p i = 0) then Ok p
            else Panic ''IllegalState'')"

end
