(* ===== verification/Jet_Tree_Spec.thy ===== *)
theory Jet_Tree_Spec
  imports Jet_Tree
begin

text \<open>
  What the jet tree stands for: a binary tree whose leaves are the jets.  This theory has the
  abstract tree with lookup, split and merge, the representation relation between it and the packed
  table in the non-propagating mode, and the proof that lookup, split, merge, counting and
  enumeration of the table implement the operations of the tree.
\<close>

subsection \<open>The abstract tree\<close>

datatype jets = Leaf | Fork jets jets

text \<open>The length of the jet that owns a prefix; bit 0 of the prefix decides at the root.\<close>

fun dep :: "jets \<Rightarrow> nat \<Rightarrow> nat" where
  "dep Leaf x = 0"
| "dep (Fork l r) x = Suc (dep (if even x then l else r) (x div 2))"

fun splitJet :: "nat \<Rightarrow> jets \<Rightarrow> jets" where
  "splitJet x Leaf = Fork Leaf Leaf"
| "splitJet x (Fork l r) = (if even x then Fork (splitJet (x div 2) l) r else Fork l (splitJet (x div 2) r))"

fun mergeJets :: "nat \<Rightarrow> jets \<Rightarrow> jets" where
  "mergeJets x Leaf = Leaf"
| "mergeJets x (Fork Leaf Leaf) = Leaf"
| "mergeJets x (Fork l r) = (if even x then Fork (mergeJets (x div 2) l) r else Fork l (mergeJets (x div 2) r))"

text \<open>The number of jets of a given length, and the least and greatest length.\<close>

fun cnt :: "jets \<Rightarrow> nat \<Rightarrow> nat" where
  "cnt Leaf d = (if d = 0 then 1 else 0)"
| "cnt (Fork l r) d = (case d of 0 \<Rightarrow> 0 | Suc e \<Rightarrow> cnt l e + cnt r e)"

fun mind :: "jets \<Rightarrow> nat" where
  "mind Leaf = 0"
| "mind (Fork l r) = Suc (min (mind l) (mind r))"

fun maxd :: "jets \<Rightarrow> nat" where
  "maxd Leaf = 0"
| "maxd (Fork l r) = Suc (max (maxd l) (maxd r))"

fun jetCount :: "jets \<Rightarrow> nat" where
  "jetCount Leaf = 1"
| "jetCount (Fork l r) = jetCount l + jetCount r"

lemma mod_exp_Suc_eq:
  "(x :: nat) mod 2 ^ Suc k = y mod 2 ^ Suc k \<longleftrightarrow> even x = even y \<and> x div 2 mod 2 ^ k = y div 2 mod 2 ^ k"
proof
  assume "x mod 2 ^ Suc k = y mod 2 ^ Suc k"
  then have e: "x mod (2 * 2 ^ k) = y mod (2 * 2 ^ k)" by simp
  have "x mod (2 * 2 ^ k) mod 2 = y mod (2 * 2 ^ k) mod 2" "x mod (2 * 2 ^ k) div 2 = y mod (2 * 2 ^ k) div 2"
    using e by auto
  then show "even x = even y \<and> x div 2 mod 2 ^ k = y div 2 mod 2 ^ k"
    by (auto simp: mod_mod_cancel mod_mult2_eq even_iff_mod_2_eq_zero)
next
  assume "even x = even y \<and> x div 2 mod 2 ^ k = y div 2 mod 2 ^ k"
  then show "x mod 2 ^ Suc k = y mod 2 ^ Suc k"
    by (cases "even x") (auto simp: mod_mult2_eq even_iff_mod_2_eq_zero odd_iff_mod_2_eq_one)
qed

lemma dep_mod: "x mod 2 ^ dep t x = y mod 2 ^ dep t x \<Longrightarrow> dep t y = dep t x"
proof (induction t arbitrary: x y)
  case (Fork l r)
  let ?c = "if even x then l else r"
  have "even x = even y" "x div 2 mod 2 ^ dep ?c (x div 2) = y div 2 mod 2 ^ dep ?c (x div 2)"
    using Fork.prems mod_exp_Suc_eq [of x "dep ?c (x div 2)" y] unfolding dep.simps by blast+
  with Fork.IH(1) [of "x div 2" "y div 2"] Fork.IH(2) [of "x div 2" "y div 2"] show ?case
    by (cases "even x") simp_all
qed simp

lemma dep_of_mod: "dep t x \<le> k \<Longrightarrow> dep t (x mod 2 ^ k) = dep t x"
  by (rule dep_mod) (simp add: mod_exp_eq min_absorb2 min_absorb1)

lemma dep_bounds: "mind t \<le> dep t x" "dep t x \<le> maxd t"
  by (induction t arbitrary: x) (auto simp: min_le_iff_disj le_max_iff_disj)

lemma mind_le_maxd: "mind t \<le> maxd t"
  using dep_bounds [of t 0] by simp

lemma cnt_le: "cnt t d \<le> 2 ^ d"
proof (induction t arbitrary: d)
  case (Fork l r)
  show ?case
  proof (cases d)
    case (Suc e)
    then show ?thesis using Fork.IH(1) [of e] Fork.IH(2) [of e] by simp
  qed simp
qed simp

lemma cnt_pos_dep: "cnt t (dep t x) > 0"
  by (induction t arbitrary: x) auto

lemma cnt_outside: "e < mind t \<or> maxd t < e \<Longrightarrow> cnt t e = 0"
  by (induction t arbitrary: e) (auto split: nat.splits)

lemma cnt_pos_mind: "cnt t (mind t) > 0"
proof (induction t)
  case (Fork l r)
  then show ?case by (auto simp: min_def)
qed simp

lemma cnt_pos_maxd: "cnt t (maxd t) > 0"
proof (induction t)
  case (Fork l r)
  then show ?case by (auto simp: max_def)
qed simp

lemma mind_eqI: "cnt t e > 0 \<Longrightarrow> (\<And>i. i < e \<Longrightarrow> cnt t i = 0) \<Longrightarrow> mind t = e"
  using cnt_pos_mind [of t] cnt_outside [of e t] by (metis less_irrefl linorder_neqE_nat)

lemma maxd_eqI: "cnt t e > 0 \<Longrightarrow> (\<And>i. e < i \<Longrightarrow> cnt t i = 0) \<Longrightarrow> maxd t = e"
  using cnt_pos_maxd [of t] cnt_outside [of e t] by (metis less_irrefl linorder_neqE_nat)

lemma jetCount_sum: "maxd t \<le> n \<Longrightarrow> jetCount t = (\<Sum>d = 0..n. cnt t d)"
proof (induction t arbitrary: n)
  case Leaf
  then show ?case by (simp add: sum.delta)
next
  case (Fork l r)
  then obtain m where m: "n = Suc m" by (cases n) auto
  have "(\<Sum>d = 0..n. cnt (Fork l r) d) = (\<Sum>d = 0..m. cnt (Fork l r) (Suc d))"
    by (simp add: m sum.atLeast0_atMost_Suc_shift del: sum.cl_ivl_Suc)
  also have "\<dots> = (\<Sum>d = 0..m. cnt l d) + (\<Sum>d = 0..m. cnt r d)"
    by (simp add: sum.distrib)
  also have "\<dots> = jetCount (Fork l r)"
    using Fork.IH(1) [of m] Fork.IH(2) [of m] Fork.prems m by simp
  finally show ?case by simp
qed

lemma perfect_count: "mind t = maxd t \<Longrightarrow> jetCount t = 2 ^ mind t"
proof (induction t)
  case (Fork l r)
  have "mind l \<le> maxd l" "mind r \<le> maxd r" by (rule mind_le_maxd)+
  with Fork.prems have "mind l = maxd l" "mind r = maxd r" "mind l = mind r" by auto
  with Fork.IH show ?case by simp
qed simp

subsection \<open>Split and merge of the tree\<close>

lemma dep_split:
  "dep (splitJet x t) y = (if y mod 2 ^ dep t x = x mod 2 ^ dep t x then Suc (dep t x) else dep t y)"
proof (induction t arbitrary: x y)
  case (Fork l r)
  show ?case
    by (cases "even x"; cases "even y") (auto simp: Fork.IH mod_exp_Suc_eq simp del: power_Suc)
qed simp

lemma cnt_split:
  "cnt (splitJet x t) e = (if e = dep t x then cnt t e - 1 else if e = Suc (dep t x) then cnt t e + 2 else cnt t e)"
proof (induction t arbitrary: x e)
  case Leaf
  show ?case by (auto split: nat.splits)
next
  case (Fork l r)
  have "cnt l (dep l (x div 2)) > 0" "cnt r (dep r (x div 2)) > 0" by (rule cnt_pos_dep)+
  then show ?case by (cases e) (auto simp: Fork.IH)
qed

lemma maxd_split: "maxd (splitJet x t) = max (maxd t) (Suc (dep t x))"
  by (induction t arbitrary: x) auto

lemma jetCount_split: "jetCount (splitJet x t) = Suc (jetCount t)"
  by (induction t arbitrary: x) auto

lemma mind_split:
  "mind (splitJet x t) = (if dep t x = mind t \<and> cnt t (dep t x) = 1 then Suc (mind t) else mind t)"
proof (rule mind_eqI)
  have "mind t \<le> dep t x" by (rule dep_bounds)
  then show "cnt (splitJet x t) (if dep t x = mind t \<and> cnt t (dep t x) = 1 then Suc (mind t) else mind t) > 0"
    using cnt_pos_mind [of t] by (auto simp: cnt_split)
  show "cnt (splitJet x t) i = 0"
    if "i < (if dep t x = mind t \<and> cnt t (dep t x) = 1 then Suc (mind t) else mind t)" for i
    using that dep_bounds(1) [of t x] cnt_outside [of i t] by (auto simp: cnt_split less_Suc_eq split: if_splits)
qed

text \<open>Two sibling jets: the parent of the owner of \<open>x\<close> has two leaves.\<close>

fun siblings :: "nat \<Rightarrow> jets \<Rightarrow> bool" where
  "siblings x Leaf = False"
| "siblings x (Fork l r) = (l = Leaf \<and> r = Leaf \<or> siblings (x div 2) (if even x then l else r))"

lemma dep_zero_iff [simp]: "dep t x = 0 \<longleftrightarrow> t = Leaf"
  by (cases t) auto

lemma dep_pos_iff: "0 < dep t x \<longleftrightarrow> t \<noteq> Leaf"
  by (cases t) auto

lemma siblings_iff:
  "0 < dep t x \<Longrightarrow> x mod 2 ^ dep t x < 2 ^ (dep t x - 1) \<Longrightarrow>
   siblings x t \<longleftrightarrow> dep t (x mod 2 ^ dep t x + 2 ^ (dep t x - 1)) = dep t x"
proof (induction t arbitrary: x)
  case (Fork l r)
  let ?c = "if even x then l else r" and ?x = "x div 2"
  let ?k = "dep ?c ?x"
  have m: "x mod 2 ^ Suc ?k = x mod 2 + 2 * (?x mod 2 ^ ?k)"
    by (simp add: mod_mult2_eq)
  show ?case
  proof (cases ?k)
    case 0
    then have "?c = Leaf" by simp
    moreover have "even x" using Fork.prems(2) 0 by (simp add: even_iff_mod_2_eq_zero)
    ultimately show ?thesis using 0 by (auto simp: even_iff_mod_2_eq_zero)
  next
    case (Suc j)
    have lt: "?x mod 2 ^ ?k < 2 ^ (?k - 1)" using Fork.prems(2) m Suc by (simp add: even_iff_mod_2_eq_zero)
    have "?c \<noteq> Leaf" using Suc by auto
    then have "siblings x (Fork l r) \<longleftrightarrow> siblings ?x ?c" by (auto split: if_splits)
    also have "\<dots> \<longleftrightarrow> dep ?c (?x mod 2 ^ ?k + 2 ^ (?k - 1)) = ?k"
      using Fork.IH(1) [of ?x] Fork.IH(2) [of ?x] lt Suc by (cases "even x") simp_all
    also have "\<dots> \<longleftrightarrow> dep (Fork l r) (x mod 2 ^ Suc ?k + 2 ^ ?k) = Suc ?k"
    proof -
      have y: "x mod 2 ^ Suc ?k + 2 ^ ?k = x mod 2 + 2 * (?x mod 2 ^ ?k + 2 ^ (?k - 1))"
        using m Suc by simp
      have "even (x mod 2 ^ Suc ?k + 2 ^ ?k) = even x"
        "(x mod 2 ^ Suc ?k + 2 ^ ?k) div 2 = ?x mod 2 ^ ?k + 2 ^ (?k - 1)"
        unfolding y by auto
      then show ?thesis by (simp only: dep.simps nat.inject)
    qed
    finally show ?thesis by simp
  qed
qed simp

lemma siblings_merge:
  "siblings x t \<Longrightarrow> splitJet x (mergeJets x t) = t \<and> Suc (dep (mergeJets x t) x) = dep t x"
proof (induction x t rule: mergeJets.induct, goal_cases)
  case (3 x a b r)
  then show ?case by (cases "even x") auto
next
  case (4 x l a b)
  then show ?case by (cases "even x") auto
qed auto

lemma split_merge: "mergeJets x (splitJet x t) = t"
proof (induction t arbitrary: x)
  case (Fork l r)
  have "splitJet y u \<noteq> Leaf" for y u by (cases u) auto
  then obtain a b c d where "splitJet (x div 2) l = Fork a b" "splitJet (x div 2) r = Fork c d"
    by (metis jets.exhaust)
  then show ?case using Fork.IH(1) [of "x div 2"] Fork.IH(2) [of "x div 2"]
    by (cases l; cases r) (auto split: if_splits)
qed simp

subsection \<open>The packed table\<close>

lemma high_mask: "bit (0xF0 :: u8) n \<longleftrightarrow> 4 \<le> n \<and> n < 8"
proof -
  have eq: "(0xF0 :: u8) = push_bit 4 (mask 4)" by (simp add: mask_eq_exp_minus_1 push_bit_eq_mult)
  show ?thesis unfolding eq by (auto simp: bit_simps)
qed

lemma low_mask_4: "bit (0x0F :: u8) n \<longleftrightarrow> n < 4"
proof -
  have eq: "(0x0F :: u8) = mask 4" by (simp add: mask_eq_exp_minus_1)
  show ?thesis unfolding eq by (auto simp: bit_simps)
qed

lemma small_bits: "unat (d :: u8) < 16 \<Longrightarrow> bit d n \<Longrightarrow> n < 4"
proof -
  assume a: "unat d < 16" "bit d n"
  have "d = take_bit 4 d"
    using a(1) by (simp add: word_unat_eq_iff unsigned_take_bit_eq take_bit_nat_eq_self)
  then have "bit (take_bit 4 d) n" using a(2) by simp
  then show "n < 4" by (simp add: bit_take_bit_iff)
qed

lemmas nibble_bits = bit_simps high_mask low_mask_4

declare bit_numeral_word_iff [simp del]

lemma upper_bit: "bit (b :: u8) (4 + n) \<Longrightarrow> n < 4"
  using bit_imp_le_length [of b "4 + n"] by simp

lemma nibble_upd:
  "nibble (p\<lparr>lenNibles := (lenNibles p)(v div 2 := b)\<rparr>) w =
     (if w div 2 = v div 2 then (if odd w then drop_bit 4 b else b AND 0x0F) else nibble p w)"
  by (simp add: nibble_def)

lemma same_half: "w div 2 = v div 2 \<Longrightarrow> w \<noteq> v \<Longrightarrow> odd w \<noteq> odd (v :: nat)"
  by (metis bit_eq_rec)

lemma nibble_setNibble:
  assumes "unat d < 16"
  shows "nibble (setNibble v d p) w = (if w = v then d else nibble p w)"
proof (cases "w div 2 = v div 2")
  case True
  show ?thesis
  proof (cases "w = v")
    case True
    with assms small_bits [of d] show ?thesis
      by (auto simp: setNibble_def Let_def nibble_upd intro!: bit_eqI simp: nibble_bits)
  next
    case False
    with True same_half [of w v] show ?thesis
      by (auto simp: setNibble_def Let_def nibble_def intro!: bit_eqI simp: nibble_bits dest: upper_bit)
  qed
next
  case False
  then show ?thesis by (auto simp: setNibble_def Let_def nibble_upd)
qed

lemma nibble_reset: "nibble (resetPrefixLength v p) w = (if w = v then 0 else nibble p w)"
proof (cases "w div 2 = v div 2")
  case True
  show ?thesis
  proof (cases "w = v")
    case True
    then show ?thesis
      by (auto simp: resetPrefixLength_def Let_def nibble_upd intro!: bit_eqI simp: nibble_bits)
  next
    case False
    with True same_half [of w v] show ?thesis
      by (auto simp: resetPrefixLength_def Let_def nibble_def intro!: bit_eqI simp: nibble_bits
          dest: upper_bit)
  qed
next
  case False
  then show ?thesis by (auto simp: resetPrefixLength_def Let_def nibble_upd)
qed

lemma byte_from_nibbles: "lenNibles p i = nibble p (2 * i) OR push_bit 4 (nibble p (2 * i + 1))"
proof (rule bit_eqI)
  show "bit (lenNibles p i) n \<longleftrightarrow> bit (nibble p (2 * i) OR push_bit 4 (nibble p (2 * i + 1))) n" for n
    by (cases "n < 4") (auto simp: nibble_def nibble_bits dest: bit_imp_le_length)
qed

subsection \<open>The representation relation\<close>

text \<open>
  The table of a non-propagating tree: the entry of a prefix value is set exactly when some jet has
  this value, that is, when the value fits the length of the jet that owns it.  A new or zero tree
  may have its root counted or not.
\<close>

definition tree_rep :: "PrefixTree \<Rightarrow> jets \<Rightarrow> bool" where
  "tree_rep p t \<longleftrightarrow> \<not> autoPropagate p \<and>
     (\<forall>v. nibble p v = (if v < 2 ^ dep t v then of_nat (dep t v - 1) else 0)) \<and>
     (leafCounts p = (\<lambda>d. of_nat (cnt t d)) \<or> t = Leaf \<and> leafCounts p = (\<lambda>d. 0)) \<and>
     minDepth p = mind t \<and> maxDepth p = maxd t \<and> maxd t \<le> 16 \<and> tree_mask p = 2 ^ maxd t - 1"

lemma tree_repD:
  assumes "tree_rep p t"
  shows "\<not> autoPropagate p" "nibble p v = (if v < 2 ^ dep t v then of_nat (dep t v - 1) else 0)"
    "minDepth p = mind t" "maxDepth p = maxd t" "maxd t \<le> 16" "tree_mask p = 2 ^ maxd t - 1"
    "dep t v \<le> 16"
  using assms dep_bounds(2) [of t v] by (auto simp: tree_rep_def)

lemma of_nat_u8: "n < 256 \<Longrightarrow> unat (of_nat n :: u8) = n"
  by (simp add: unat_of_nat take_bit_nat_eq_self)

lemma of_nat_u8_zero: "n < 256 \<Longrightarrow> (of_nat n :: u8) = 0 \<longleftrightarrow> n = 0"
  by (simp add: word_unat_eq_iff [of _ 0] of_nat_u8)

lemma rawPrefixLength_rep:
  assumes "tree_rep p t"
  shows "rawPrefixLength p v =
    (if v < 2 ^ dep t v then (dep t v, True) else (if t = Leaf then 0 else 1, False))"
proof -
  note rep = tree_repD [OF assms]
  have small: "dep t v - 1 < 256" using rep(7) [of v] by simp
  show ?thesis
  proof (cases "v < 2 ^ dep t v \<and> dep t v \<ge> 2")
    case True
    then have "nibble p v \<noteq> 0" "unat (nibble p v) = dep t v - 1"
      using rep(2) [of v] of_nat_u8 [OF small] of_nat_u8_zero [OF small] by auto
    with True show ?thesis by (simp add: rawPrefixLength_def Let_def)
  next
    case False
    then have z: "nibble p v = 0" using rep(2) [of v] by auto
    show ?thesis
    proof (cases "t = Leaf")
      case True
      with z rep(4) show ?thesis by (simp add: rawPrefixLength_def)
    next
      case fork: False
      then have "maxDepth p \<noteq> 0" "dep t v \<ge> 1" using rep(4) by (cases t; auto)+
      moreover have "v < 2 ^ dep t v \<longleftrightarrow> v \<le> 1"
      proof
        assume "v < 2 ^ dep t v"
        with False \<open>dep t v \<ge> 1\<close> have "dep t v = 1" by linarith
        with \<open>v < 2 ^ dep t v\<close> show "v \<le> 1" by simp
      next
        assume "v \<le> 1"
        moreover have "(2 :: nat) ^ 1 \<le> 2 ^ dep t v" using \<open>dep t v \<ge> 1\<close> by (intro power_increasing) auto
        ultimately show "v < 2 ^ dep t v" by simp
      qed
      ultimately show ?thesis
        using z rep(1) False \<open>dep t v \<ge> 1\<close> by (auto simp: rawPrefixLength_def)
    qed
  qed
qed

lemma getPrefixLength_rep:
  "tree_rep p t \<Longrightarrow> getPrefixLength p v =
     (if v < 2 ^ dep t v then (dep t v, True) else (if t = Leaf then 0 else 1, False))"
  using tree_repD(1) [of p t] by (auto simp: getPrefixLength_def rawPrefixLength_rep split: prod.splits)

subsection \<open>Lookup\<close>

text \<open>Clearing the highest bit of a prefix that is longer than the jet keeps the owner.\<close>

lemma clearHigh_mod:
  assumes "2 ^ d \<le> m"
  shows "clearHigh m mod 2 ^ d = m mod 2 ^ d" "2 ^ d \<le> clearHigh m \<or> clearHigh m = m mod 2 ^ d"
proof -
  have m: "m > 0" using assms by (metis gr0I not_less power_eq_0_iff zero_less_numeral zero_less_power)
  then obtain k where k: "Len m = Suc k" using Len_bounds by (metis gr0_conv_Suc)
  have b: "2 ^ k \<le> m" "m < 2 ^ Suc k" using Len_bounds [OF m] k by auto
  have "d \<le> k"
    using assms b(2) by (metis le_less_trans less_Suc_eq_le one_less_numeral_iff power_less_imp_less_exp semiring_norm(76))
  then have dvd: "2 ^ d dvd (2 :: nat) ^ k" by (rule le_imp_power_dvd)
  have c: "clearHigh m = m - 2 ^ k" using clearHigh_eq [OF m] k by simp
  have "m = clearHigh m + 2 ^ k" using c b(1) by simp
  then have "m mod 2 ^ d = (clearHigh m + 2 ^ k) mod 2 ^ d" by simp
  with dvd show e: "clearHigh m mod 2 ^ d = m mod 2 ^ d" by (auto simp: mod_add_right_eq elim!: dvdE)
  show "2 ^ d \<le> clearHigh m \<or> clearHigh m = m mod 2 ^ d"
    using e by (metis mod_less not_less)
qed

lemma findPrefixUp_rep:
  assumes rep: "tree_rep p t" and d: "d = dep t x"
  shows "m mod 2 ^ d = x mod 2 ^ d \<Longrightarrow> 2 ^ d \<le> m \<Longrightarrow> findPrefixUp p m = Ok (x mod 2 ^ d, d)"
proof (induction m rule: less_induct)
  case (less m)
  have m: "m > 0" using less.prems(2) by (metis gr0I not_less zero_less_numeral zero_less_power)
  let ?m = "clearHigh m"
  have c: "?m mod 2 ^ d = x mod 2 ^ d" using clearHigh_mod(1) [OF less.prems(2)] less.prems(1) by simp
  have dm: "dep t ?m = d" unfolding d by (rule dep_mod) (use c d in simp)
  show ?case
  proof (cases "2 ^ d \<le> ?m")
    case True
    with less.IH [OF clearHigh_less [OF m] c] m dm show ?thesis
      by (subst findPrefixUp.simps) (simp add: rawPrefixLength_rep [OF rep] Let_def)
  next
    case False
    with clearHigh_mod(2) [OF less.prems(2)] less.prems(1) have "?m = x mod 2 ^ d" by auto
    with False m dm show ?thesis
      by (subst findPrefixUp.simps) (simp add: rawPrefixLength_rep [OF rep] Let_def)
  qed
qed

lemma findPrefixLength_rep:
  assumes rep: "tree_rep p t"
  shows "findPrefixLength p x = Ok (x mod 2 ^ dep t x, dep t x)"
proof -
  let ?d = "dep t x" and ?h = "maxd t"
  note r = tree_repD [OF rep]
  have dh: "?d \<le> ?h" by (rule dep_bounds)
  have "tree_mask p = mask ?h" by (simp add: r(6) mask_eq_exp_minus_1)
  then have mk: "take_bit 16 (x AND tree_mask p) = x mod 2 ^ ?h"
    using r(5) by (simp add: min_absorb2 flip: take_bit_eq_mask take_bit_eq_mod)
  let ?m = "x mod 2 ^ ?h"
  have dm: "dep t ?m = ?d" by (rule dep_of_mod [OF dh])
  have mm: "?m mod 2 ^ ?d = x mod 2 ^ ?d" using dh by (simp add: mod_exp_eq min_absorb2)
  show ?thesis
  proof (cases "?m < 2 ^ ?d")
    case True
    then have "?m = x mod 2 ^ ?d" using mm by simp
    with True dm show ?thesis by (simp add: findPrefixLength_def mk rawPrefixLength_rep [OF rep] Let_def del: take_bit_and)
  next
    case False
    with findPrefixUp_rep [OF rep refl mm] dm r(1) show ?thesis
      by (simp add: findPrefixLength_def mk rawPrefixLength_rep [OF rep] Let_def del: take_bit_and)
  qed
qed

subsection \<open>Split\<close>

lemma of_nat_u16: "n < 65536 \<Longrightarrow> unat (of_nat n :: u16) = n"
  by (simp add: unat_of_nat take_bit_nat_eq_self)

lemma leafCount_rep:
  assumes "tree_rep p t" "d < 16"
  shows "leafCounts p d = of_nat (cnt t d) \<or> t = Leaf \<and> leafCounts p = (\<lambda>d. 0)"
    "unat (of_nat (cnt t d) :: u16) = cnt t d"
proof -
  show "leafCounts p d = of_nat (cnt t d) \<or> t = Leaf \<and> leafCounts p = (\<lambda>d. 0)"
    using assms by (auto simp: tree_rep_def)
  have "cnt t d \<le> 2 ^ d" by (rule cnt_le)
  also have "\<dots> \<le> 2 ^ 15" using assms(2) by (intro power_increasing) auto
  finally show "unat (of_nat (cnt t d) :: u16) = cnt t d" by (intro of_nat_u16) simp
qed

text \<open>The bookkeeping half of a split: counters and depths, before the table is changed.\<close>

lemma split_count_rep:
  assumes "tree_rep p t" "d = dep t x" "d < 16"
  shows "\<exists>q. split_count d p = Ok q \<and> lenNibles q = lenNibles p \<and> autoPropagate q = autoPropagate p \<and>
    maxDepth q = maxDepth p \<and> tree_mask q = tree_mask p \<and> minDepth q = mind (splitJet x t) \<and>
    leafCounts q = (\<lambda>e. of_nat (cnt t e))(d := of_nat (cnt t d - 1))"
proof -
  note rep = tree_repD [OF assms(1)]
  have c: "cnt t d > 0" using assms(2) cnt_pos_dep by simp
  from leafCount_rep(1) [OF assms(1,3)] show ?thesis
  proof
    assume l: "leafCounts p d = of_nat (cnt t d)"
    then have n: "unat (leafCounts p d) = cnt t d" using leafCount_rep(2) [OF assms(1,3)] by simp
    with c have "leafCounts p \<noteq> (\<lambda>d. 0)" by auto
    then have lc: "leafCounts p = (\<lambda>e. of_nat (cnt t e))" using assms(1) by (auto simp: tree_rep_def)
    show ?thesis
    proof (cases "cnt t d = 1")
      case True
      then have "leafCounts p d = 1" using l by simp
      with True lc rep assms(2) show ?thesis by (simp add: split_count_def setLeaf_def mind_split)
    next
      case False
      with c n have "leafCounts p d > 1" by (simp add: word_less_nat_alt)
      with False lc rep assms(2) c show ?thesis
        by (simp add: split_count_def setLeaf_def mind_split of_nat_diff)
    qed
  next
    assume "t = Leaf \<and> leafCounts p = (\<lambda>d. 0)"
    with rep assms(2) show ?thesis by (auto simp: split_count_def)
  qed
qed

lemma or_exp: "m < 2 ^ d \<Longrightarrow> m OR 2 ^ d = m + (2 :: nat) ^ d"
  by (simp add: disjunctive_add_eq_or and_exp_eq_0_iff_not_bit bit_iff_odd)

lemma grow_mask: "push_bit 1 (2 ^ d - 1) OR 1 = (2 ^ Suc d - 1 :: nat)"
proof -
  have "push_bit 1 (mask d) OR 1 = (mask (Suc d) :: nat)"
    by (simp add: mask_Suc_double push_bit_eq_mult or.commute mult.commute)
  then show ?thesis by (simp only: mask_eq_exp_minus_1)
qed

lemma nibble_cong: "lenNibles p = lenNibles q \<Longrightarrow> nibble p v = nibble q v"
  by (simp add: nibble_def)

lemma setNibble_fields [simp]:
  "leafCounts (setNibble v d p) = leafCounts p" "minDepth (setNibble v d p) = minDepth p"
  "maxDepth (setNibble v d p) = maxDepth p" "tree_mask (setNibble v d p) = tree_mask p"
  "autoPropagate (setNibble v d p) = autoPropagate p"
  by (simp_all add: setNibble_def Let_def)

lemma nibble_split:
  assumes "tree_rep p t" "d = dep t x" "d < 16" "m = x mod 2 ^ d" "\<And>v. nibble q v = nibble p v"
  shows "nibble (setNibble (m + 2 ^ d) (of_nat d) (setNibble m (of_nat d) q)) v =
    (if v < 2 ^ dep (splitJet x t) v then of_nat (dep (splitJet x t) v - 1) else 0)"
proof -
  have small: "unat (of_nat d :: u8) < 16" using assms(3) by (simp add: of_nat_u8)
  have m: "m < 2 ^ d" using assms(4) by simp
  have mm: "m mod 2 ^ d = x mod 2 ^ d" "(m + 2 ^ d) mod 2 ^ d = x mod 2 ^ d" using assms(4) by simp_all
  show ?thesis
  proof (cases "v mod 2 ^ d = x mod 2 ^ d")
    case True
    then have dv: "dep (splitJet x t) v = Suc d" "dep t v = d"
      using dep_split [of x t v] dep_mod [of x t v] assms(2) by auto
    have "v < 2 ^ Suc d \<longleftrightarrow> v = m \<or> v = m + 2 ^ d"
    proof
      assume "v < 2 ^ Suc d"
      then have "v div 2 ^ d < 2" by (simp add: less_mult_imp_div_less)
      then have "v div 2 ^ d = 0 \<or> v div 2 ^ d = 1" by linarith
      with True assms(4) div_mult_mod_eq [of v "2 ^ d"] show "v = m \<or> v = m + 2 ^ d" by auto
    qed (use m in auto)
    moreover have "nibble q v = 0" if "v \<noteq> m"
      using that True assms(4,5) tree_repD(2) [OF assms(1), of v] dv(2) by (metis mod_less)
    ultimately show ?thesis using dv small by (simp add: nibble_setNibble)
  next
    case False
    then have "v \<noteq> m" "v \<noteq> m + 2 ^ d" using mm by auto
    with False small assms(2,5) tree_repD(2) [OF assms(1), of v] show ?thesis
      by (simp add: nibble_setNibble dep_split)
  qed
qed

lemma split_at_rep:
  assumes rep: "tree_rep p t" and d: "d = dep t x" "d < 16" and m: "m = x mod 2 ^ d"
  shows "\<exists>q. split_at m d False p = Ok q \<and> tree_rep q (splitJet x t)"
proof -
  note r = tree_repD [OF rep]
  obtain p1 where p1: "split_count d p = Ok p1" "lenNibles p1 = lenNibles p" "autoPropagate p1 = autoPropagate p"
    "maxDepth p1 = maxDepth p" "tree_mask p1 = tree_mask p" "minDepth p1 = mind (splitJet x t)"
    "leafCounts p1 = (\<lambda>e. of_nat (cnt t e))(d := of_nat (cnt t d - 1))"
    using split_count_rep [OF rep d] by blast
  obtain p2 where p2: "split_grow d False p1 = Ok p2" "lenNibles p2 = lenNibles p" "autoPropagate p2 = autoPropagate p"
    "maxDepth p2 = max (maxd t) (Suc d)" "tree_mask p2 = 2 ^ max (maxd t) (Suc d) - 1" "minDepth p2 = minDepth p1"
    "leafCounts p2 = leafCounts p1"
  proof (cases "d = maxd t")
    case True
    with p1 r that grow_mask [of d] show ?thesis by (simp add: split_grow_def)
  next
    case False
    with dep_bounds(2) [of t x] d(1) have "Suc d \<le> maxd t" by simp
    with False p1 r that show ?thesis by (simp add: split_grow_def max_absorb1)
  qed
  let ?q = "setNibble (m + 2 ^ d) (of_nat d) (setNibble m (of_nat d) p2)"
  have "m < 2 ^ d" using m by simp
  then have "split_at m d False p = Ok (incLeaf (Suc d) 2 ?q)"
    using p1(1) p2(1) d(2) by (simp add: split_at_def Let_def setPrefixLength_def or_exp)
  moreover have "tree_rep (incLeaf (Suc d) 2 ?q) (splitJet x t)"
  proof -
    have "nibble (incLeaf (Suc d) 2 ?q) v = nibble ?q v" for v by (rule nibble_cong) (simp add: incLeaf_def)
    moreover have "leafCounts (incLeaf (Suc d) 2 ?q) = (\<lambda>e. of_nat (cnt (splitJet x t) e))"
      using p1 p2 d(1) by (auto simp: incLeaf_def cnt_split fun_eq_iff)
    ultimately show ?thesis
      using p1 p2 d r nibble_split [OF rep d m, of p2] nibble_cong [of p2 p]
      by (simp add: tree_rep_def maxd_split incLeaf_def)
  qed
  ultimately show ?thesis by blast
qed

subsection \<open>Merge\<close>

lemma cnt_le_jetCount: "cnt t d \<le> jetCount t"
proof (cases "d \<le> maxd t")
  case True
  then show ?thesis
    using jetCount_sum [of t "maxd t"] member_le_sum [of d "{0..maxd t}" "cnt t"] by simp
next
  case False
  then show ?thesis using cnt_outside [of d t] by simp
qed

text \<open>The depths of a tree before and after two siblings are merged.\<close>

lemma merged_depths:
  assumes "siblings x t" "u = mergeJets x t" "d = dep t x"
  shows "dep u x = d - 1" "d > 0"
    "mind u = (if d = mind t then mind t - 1 else mind t)"
    "maxd u = (if d = maxd t \<and> cnt t d = 2 then maxd t - 1 else maxd t)"
    "cnt u = (\<lambda>e. if e = d then cnt t e - 2 else if e = d - 1 then cnt t e + 1 else cnt t e)"
    "cnt t d \<ge> 2"
proof -
  have u: "splitJet x u = t" "Suc (dep u x) = d" using siblings_merge [OF assms(1)] assms(2,3) by auto
  then show d: "dep u x = d - 1" "d > 0" by auto
  have c: "cnt t e = (if e = d - 1 then cnt u e - 1 else if e = d then cnt u e + 2 else cnt u e)" for e
    using cnt_split [of x u e] u d by auto
  have pos: "cnt u (d - 1) > 0" using cnt_pos_dep [of u x] d by simp
  then show cu: "cnt u = (\<lambda>e. if e = d then cnt t e - 2 else if e = d - 1 then cnt t e + 1 else cnt t e)"
    using d(2) by (auto simp: c fun_eq_iff)
  show "cnt t d \<ge> 2" using c [of d] d(2) by simp
  have mt: "maxd t = max (maxd u) d" using maxd_split [of x u] u by simp
  show "maxd u = (if d = maxd t \<and> cnt t d = 2 then maxd t - 1 else maxd t)"
  proof (cases "d = maxd t \<and> cnt t d = 2")
    case last: True
    have "cnt u i = 0" if "d - 1 < i" for i
    proof (cases "i = d")
      case True
      with last have "cnt t i = 2" by metis
      with True show ?thesis by (simp add: cu)
    next
      case False
      with that last have "maxd t < i" by linarith
      with False last that cnt_outside [of i t] show ?thesis by (simp add: cu)
    qed
    then have "maxd u = d - 1" by (rule maxd_eqI [OF pos])
    then show ?thesis unfolding if_P [OF last] using last by simp
  next
    case False
    have "maxd u = maxd t"
    proof (cases "d = maxd t")
      case True
      have "cnt t d = cnt u d + 2" using c [of d] d(2) by simp
      moreover have "cnt t d \<noteq> 2" using False True by blast
      ultimately have "cnt u d > 0" by linarith
      then have "d \<le> maxd u" using cnt_outside [of d u] by (cases "maxd u < d") auto
      with True mt show ?thesis by simp
    qed (use mt in \<open>auto simp: max_def split: if_splits\<close>)
    then show ?thesis unfolding if_not_P [OF False] .
  qed
  have mi: "mind t = (if dep u x = mind u \<and> cnt u (dep u x) = 1 then Suc (mind u) else mind u)"
    using mind_split [of x u] u by simp
  show "mind u = (if d = mind t then mind t - 1 else mind t)"
    using mi d dep_bounds(1) [of u x] by (auto split: if_splits)
qed

lemma nibble_small:
  assumes "tree_rep p t" "maxd t \<le> 2" shows "nibble p v = 0 \<or> nibble p v = 1"
proof -
  have "dep t v - 1 = 0 \<or> dep t v - 1 = 1" using dep_bounds(2) [of t v] assms(2) by linarith
  then show ?thesis using tree_repD(2) [OF assms(1), of v] by auto
qed

lemma cleanup_rep:
  assumes rep: "tree_rep p t" and h: "h = maxd t" "h > 0"
    and q: "q = p\<lparr>maxDepth := h - 1, tree_mask := msk\<rparr>"
  shows "\<exists>r. cleanupReleasedDepth q = Ok r \<and> r = q\<lparr>lenNibles := lenNibles r\<rparr> \<and>
    (\<forall>v. nibble r v = nibble p v \<or> nibble r v = 0 \<and> 2 ^ (h - 1) \<le> v)"
proof -
  have nq: "nibble q v = nibble p v" for v by (rule nibble_cong) (simp add: q)
  consider "h = 1" | "h = 2" | "h > 2" using h by linarith
  then show ?thesis
  proof cases
    case 1
    have "nibble p 0 = 0" "nibble p 1 = 0"
      using tree_repD(2) [OF rep, of 0] tree_repD(2) [OF rep, of 1] dep_bounds(2) [of t 0] dep_bounds(2) [of t 1] h 1
      by auto
    then have "lenNibles q 0 = 0" using byte_from_nibbles [of q 0] nq by simp
    with 1 q nq show ?thesis by (simp add: cleanupReleasedDepth_def)
  next
    case 2
    have "lenNibles q i AND 0xEE = 0" for i
      using byte_from_nibbles [of q i] nq nibble_small [OF rep, of "2 * i"] nibble_small [OF rep, of "2 * i + 1"] h 2
      by (auto simp: push_bit_eq_mult)
    with 2 q nq show ?thesis by (simp add: cleanupReleasedDepth_def)
  next
    case 3
    then obtain j where j: "h = Suc (Suc j)" by (metis less_imp_Suc_add add_2_eq_Suc add_Suc_shift)
    let ?r = "q\<lparr>lenNibles := (\<lambda>i. if 2 ^ j \<le> i \<and> i < 2 * 2 ^ j then 0 else lenNibles q i)\<rparr>"
    have "maxDepth q = Suc j" using q j by simp
    then have "cleanupReleasedDepth q = Ok ?r" using 3 j by (simp add: cleanupReleasedDepth_def Let_def)
    moreover have "nibble ?r v = nibble p v \<or> nibble ?r v = 0 \<and> 2 ^ (h - 1) \<le> v" for v
      using nq [of v] j by (auto simp: nibble_def)
    ultimately show ?thesis by auto
  qed
qed

lemma merge_count_rep:
  assumes rep: "tree_rep p t" and sib: "siblings x t" and u: "u = mergeJets x t"
    and d: "d = dep t x" and full: "jetCount t < 65536"
  shows "\<exists>q. merge_count d p = Ok q \<and> autoPropagate q = autoPropagate p \<and> minDepth q = minDepth p \<and>
    maxDepth q = maxd u \<and> tree_mask q = 2 ^ maxd u - 1 \<and>
    leafCounts q = (\<lambda>e. of_nat (cnt t e))(d := of_nat (cnt t d - 2)) \<and>
    (\<forall>v. nibble q v = nibble p v \<or> nibble q v = 0 \<and> 2 ^ maxd u \<le> v)"
proof -
  note r = tree_repD [OF rep] and md = merged_depths [OF sib u d]
  have "t \<noteq> Leaf" using sib by auto
  then have lc: "leafCounts p = (\<lambda>e. of_nat (cnt t e))" using rep by (auto simp: tree_rep_def)
  have "unat (leafCounts p d) = cnt t d"
    using lc of_nat_u16 [of "cnt t d"] cnt_le_jetCount [of t d] full by simp
  then have n: "leafCounts p d > 2 \<longleftrightarrow> cnt t d > 2" "leafCounts p d = 2 \<longleftrightarrow> cnt t d = 2"
    by (auto simp: word_less_nat_alt word_unat_eq_iff)
  consider "cnt t d > 2" | "cnt t d = 2" "d \<noteq> maxd t" | "cnt t d = 2" "d = maxd t"
    using md(6) by linarith
  then show ?thesis
  proof cases
    case 1
    then show ?thesis
      using n lc md r by (auto simp: merge_count_def setLeaf_def of_nat_diff nibble_def)
  next
    case 2
    then have "maxd t \<noteq> 0" using md(2) dep_bounds(2) [of t x] d by simp
    with 2 n lc md r show ?thesis by (auto simp: merge_count_def setLeaf_def nibble_def)
  next
    case 3
    let ?q = "p\<lparr>maxDepth := d - 1, tree_mask := drop_bit 1 (tree_mask p)\<rparr>"
    obtain q where q: "cleanupReleasedDepth ?q = Ok q" "q = ?q\<lparr>lenNibles := lenNibles q\<rparr>"
      "\<And>v. nibble q v = nibble p v \<or> nibble q v = 0 \<and> 2 ^ (d - 1) \<le> v"
      using cleanup_rep [OF rep 3(2) md(2) refl, of "drop_bit 1 (tree_mask p)"] by blast
    have f: "autoPropagate q = autoPropagate p" "minDepth q = minDepth p" "maxDepth q = d - 1"
      "tree_mask q = drop_bit 1 (tree_mask p)" "leafCounts q = leafCounts p"
      by (subst q(2), simp)+
    have "drop_bit 1 (2 ^ d - 1) = (2 ^ (d - 1) - 1 :: nat)"
      using md(2) by (cases d) (auto simp: drop_bit_eq_div)
    then have "tree_mask q = 2 ^ (d - 1) - 1" using f(4) r(6) 3(2) by simp
    moreover have "merge_count d p = Ok (setLeaf d 0 q)"
      using 3 n q(1) r(4) md(2) by (simp add: merge_count_def)
    moreover have "nibble (setLeaf d 0 q) v = nibble q v" for v by (rule nibble_cong) (simp add: setLeaf_def)
    ultimately show ?thesis
      using 3 f lc md(4) q(3) by (auto simp: setLeaf_def)
  qed
qed

lemma reset_fields [simp]:
  "leafCounts (resetPrefixLength v p) = leafCounts p" "minDepth (resetPrefixLength v p) = minDepth p"
  "maxDepth (resetPrefixLength v p) = maxDepth p" "tree_mask (resetPrefixLength v p) = tree_mask p"
  "autoPropagate (resetPrefixLength v p) = autoPropagate p"
  by (simp_all add: resetPrefixLength_def Let_def)

text \<open>The table after the two entries of the merged pair are cleared and the parent is entered.\<close>

lemma nibble_merge:
  assumes rep: "tree_rep p t" and sib: "siblings x t" and u: "u = mergeJets x t" and d: "d = dep t x"
    and m: "m = x mod 2 ^ (d - 1)"
    and q: "\<forall>v. nibble q v = nibble p v \<or> nibble q v = 0 \<and> 2 ^ maxd u \<le> v"
    and k: "k = d - 1 - 1"
    and r: "\<And>v. nibble r v = (if v = m then of_nat k else if v = m + 2 ^ (d - 1) then 0 else nibble q v)"
  shows "nibble r v = (if v < 2 ^ dep u v then of_nat (dep u v - 1) else 0)"
proof -
  note md = merged_depths [OF sib u d]
  have t: "splitJet x u = t" using siblings_merge [OF sib] u by simp
  have mlt: "m < 2 ^ (d - 1)" using m by simp
  have dsuc: "2 ^ d = 2 * (2 :: nat) ^ (d - 1)" using md(2) by (cases d) auto
  show ?thesis
  proof (cases "v mod 2 ^ (d - 1) = x mod 2 ^ (d - 1)")
    case True
    then have dv: "dep t v = d" "dep u v = d - 1"
      using dep_split [of x u v] t md(1,2) dep_mod [of x u v] by auto
    have "v < 2 ^ (d - 1) \<longleftrightarrow> v = m" using True m mlt by (metis mod_less)
    moreover have "nibble q v = 0" if "v \<noteq> m" "v \<noteq> m + 2 ^ (d - 1)"
    proof -
      have "\<not> v < 2 ^ d"
      proof
        assume "v < 2 ^ d"
        then have "v div 2 ^ (d - 1) < 2" by (simp add: dsuc less_mult_imp_div_less)
        then have "v div 2 ^ (d - 1) = 0 \<or> v div 2 ^ (d - 1) = 1" by linarith
        with True m that div_mult_mod_eq [of v "2 ^ (d - 1)"] show False by auto
      qed
      then have "nibble p v = 0" using tree_repD(2) [OF rep, of v] dv(1) by simp
      with q show ?thesis by metis
    qed
    ultimately show ?thesis using r [of v] dv k by (cases "v = m") auto
  next
    case False
    then have ne: "v \<noteq> m" "v \<noteq> m + 2 ^ (d - 1)" using m by auto
    have dv: "dep t v = dep u v" using dep_split [of x u v] t md(1) False by simp
    have "nibble q v = nibble p v"
    proof (cases "2 ^ maxd u \<le> v")
      case True
      have "(2 :: nat) ^ dep u v \<le> 2 ^ maxd u" using dep_bounds(2) by (intro power_increasing) auto
      with True have "\<not> v < 2 ^ dep t v" unfolding dv by linarith
      then have "nibble p v = 0" using tree_repD(2) [OF rep, of v] by simp
      with q show ?thesis by metis
    qed (use q in metis)
    with r ne tree_repD(2) [OF rep, of v] dv show ?thesis by simp
  qed
qed

lemma merge_at_rep:
  assumes rep: "tree_rep p t" and sib: "siblings x t" and full: "jetCount t < 65536"
    and d: "d = dep t x" and m: "m = x mod 2 ^ d" "m < 2 ^ (d - 1)"
  shows "\<exists>q. merge_at m d False p = Ok q \<and> tree_rep q (mergeJets x t) \<and>
    leafCounts q = (\<lambda>e. of_nat (cnt (mergeJets x t) e))"
proof -
  define u where "u = mergeJets x t"
  note r = tree_repD [OF rep] and md = merged_depths [OF sib u_def d]
  have m': "m = x mod 2 ^ (d - 1)"
    using m md(2) by (metis diff_le_self mod_exp_eq min_absorb2 mod_less)
  have pair: "m OR 2 ^ (d - 1) = m + 2 ^ (d - 1)" using m(2) by (rule or_exp)
  have "dep t (m + 2 ^ (d - 1)) = d" using siblings_iff [of t x] sib md(2) d m by simp
  moreover have "m + 2 ^ (d - 1) < 2 ^ d" using m(2) md(2) by (cases d) auto
  ultimately have g: "getPrefixLength p (m + 2 ^ (d - 1)) = (d, True)" by (simp add: getPrefixLength_rep [OF rep])
  obtain q where q: "merge_count d p = Ok q" "autoPropagate q = autoPropagate p" "minDepth q = minDepth p"
    "maxDepth q = maxd u" "tree_mask q = 2 ^ maxd u - 1"
    "leafCounts q = (\<lambda>e. of_nat (cnt t e))(d := of_nat (cnt t d - 2))"
    "\<forall>v. nibble q v = nibble p v \<or> nibble q v = 0 \<and> 2 ^ maxd u \<le> v"
    using merge_count_rep [OF rep sib u_def d full] by blast
  let ?q1 = "if d = minDepth q then q\<lparr>minDepth := minDepth q - 1\<rparr> else q"
  let ?q2 = "resetPrefixLength m (resetPrefixLength (m + 2 ^ (d - 1)) ?q1)"
  define k where "k = d - 1 - 1"
  let ?q3 = "if d - 1 > 0 then setNibble m (of_nat k) ?q2 else ?q2"
  have "d \<le> 16" using d r(7) by simp
  have n1: "nibble ?q1 v = nibble q v" for v by (rule nibble_cong) simp
  have small: "unat (of_nat k :: u8) < 16" "d - 1 = 0 \<Longrightarrow> k = 0"
    using \<open>d \<le> 16\<close> by (simp_all add: k_def unat_of_nat)
  have n3: "nibble ?q3 v = (if v = m then of_nat k else if v = m + 2 ^ (d - 1) then 0 else nibble q v)" for v
  proof (cases "d - 1 > 0")
    case True
    then show ?thesis by (simp only: if_True nibble_setNibble [OF small(1)] nibble_reset n1) simp
  next
    case False
    with small(2) show ?thesis by (simp only: if_False nibble_reset n1) simp
  qed
  have "setPrefixLength m (d - 1) ?q2 = Ok (setNibble m (of_nat k) ?q2)" if "d - 1 > 0"
    using that \<open>d \<le> 16\<close> by (simp only: setPrefixLength_def k_def) simp
  then have "merge_at m d False p = Ok (incLeaf (d - 1) 1 ?q3)"
    using pair g q(1) m(2) by (simp add: merge_at_def Let_def)
  moreover have counted: "leafCounts (incLeaf (d - 1) 1 ?q3) = (\<lambda>e. of_nat (cnt u e))"
    using q(6) md(2) by (auto simp: incLeaf_def md(5) fun_eq_iff)
  moreover have "tree_rep (incLeaf (d - 1) 1 ?q3) u"
  proof -
    have "nibble (incLeaf (d - 1) 1 ?q3) v = nibble ?q3 v" for v by (rule nibble_cong) (simp add: incLeaf_def)
    then have "nibble (incLeaf (d - 1) 1 ?q3) v = (if v < 2 ^ dep u v then of_nat (dep u v - 1) else 0)" for v
      using nibble_merge [OF rep sib u_def d m' q(7) k_def n3] by simp
    moreover have "maxd u \<le> 16" using md(4) r(5) by (auto split: if_splits)
    ultimately show ?thesis
      using counted q r md(3) by (simp add: tree_rep_def incLeaf_def)
  qed
  ultimately show ?thesis using u_def by blast
qed

subsection \<open>When the operations succeed\<close>

lemma full_tree: "maxd t \<le> h \<Longrightarrow> jetCount t \<le> 2 ^ h \<and> (jetCount t = 2 ^ h \<longrightarrow> cnt t h = 2 ^ h)"
proof (induction t arbitrary: h)
  case Leaf
  then show ?case by (cases h) auto
next
  case (Fork l r)
  then obtain k where k: "h = Suc k" by (cases h) auto
  with Fork.IH(1) [of k] Fork.IH(2) [of k] Fork.prems show ?case by auto
qed

lemma rep_jetCount: "tree_rep p t \<Longrightarrow> jetCount t \<le> 65536"
  using full_tree [of t 16] tree_repD(5) [of p t] by simp

lemma Split_cases:
  assumes rep: "tree_rep p t"
  shows "Split x lim p = (if lim < dep t x then Panic ''IllegalValue''
    else split_at (x mod 2 ^ dep t x) (dep t x) False p)"
proof -
  have "\<not> 17 \<le> dep t x" using tree_repD(7) [OF rep, of x] by simp
  then show ?thesis using tree_repD(1) [OF rep] by (simp add: Split_def findPrefixLength_rep [OF rep])
qed

lemma split_at_16: "\<not> is_ok (split_at m 16 False p)"
proof -
  have "setPrefixLength m 17 q = Panic ''IllegalValue''" for q by (simp add: setPrefixLength_def)
  then show ?thesis
    by (cases "split_count 16 p") (auto simp: split_at_def Let_def split_grow_def)
qed

lemma Split_Ok_iff:
  assumes rep: "tree_rep p t"
  shows "is_ok (Split x lim p) \<longleftrightarrow> dep t x \<le> lim \<and> dep t x < 16"
proof (cases "dep t x < 16")
  case True
  then show ?thesis
    using split_at_rep [OF rep refl True refl] by (auto simp: Split_cases [OF rep])
next
  case False
  then have "dep t x = 16" using tree_repD(7) [OF rep, of x] by simp
  then show ?thesis using split_at_16 by (simp add: Split_cases [OF rep])
qed

lemma Split_rep:
  assumes "tree_rep p t" "dep t x \<le> lim" "dep t x < 16"
  shows "\<exists>q. Split x lim p = Ok q \<and> tree_rep q (splitJet x t)"
  using split_at_rep [OF assms(1) refl assms(3) refl] assms(2) by (simp add: Split_cases [OF assms(1)])

lemma Merge_cases:
  assumes rep: "tree_rep p t"
  shows "Merge x lim p = (if lim < dep t x \<or> dep t x = 0 then Panic ''IllegalValue''
    else merge_at (x mod 2 ^ dep t x) (dep t x) False p)"
  using tree_repD(1) [OF rep] by (simp add: Merge_def findPrefixLength_rep [OF rep])

definition zeroSide :: "nat \<Rightarrow> jets \<Rightarrow> bool" where
  "zeroSide x t \<longleftrightarrow> x mod 2 ^ dep t x < 2 ^ (dep t x - 1)"

lemma Merge_rep:
  assumes "tree_rep p t" "siblings x t" "zeroSide x t" "dep t x \<le> lim" "jetCount t < 65536"
  shows "\<exists>q. Merge x lim p = Ok q \<and> tree_rep q (mergeJets x t) \<and>
    leafCounts q = (\<lambda>e. of_nat (cnt (mergeJets x t) e))"
proof -
  have "dep t x > 0" using merged_depths(2) [OF assms(2) refl refl] .
  then show ?thesis
    using merge_at_rep [OF assms(1,2,5) refl refl] assms(3,4)
    by (simp add: Merge_cases [OF assms(1)] zeroSide_def dep_pos_iff)
qed

lemma one_side_pair:
  assumes "d > 0" "m < 2 ^ d" "\<not> m < 2 ^ (d - 1)"
  shows "m OR 2 ^ (d - 1) = (m :: nat)"
proof -
  obtain k where k: "d = Suc k" using assms(1) by (cases d) auto
  then have "m div 2 ^ k = 1" using assms(2,3) by (intro div_nat_eqI) auto
  then have "bit m k" by (simp add: bit_iff_odd)
  then show ?thesis by (auto intro!: bit_eqI simp: k bit_simps)
qed

lemma Merge_Ok_imp:
  assumes rep: "tree_rep p t" and ok: "is_ok (Merge x lim p)"
  shows "dep t x \<le> lim \<and> siblings x t \<and> zeroSide x t \<and> jetCount t < 65536"
proof -
  let ?d = "dep t x" let ?m = "x mod 2 ^ ?d"
  have d: "?d \<le> lim" "?d > 0" and okm: "is_ok (merge_at ?m ?d False p)"
    using ok by (auto simp: Merge_cases [OF rep] dep_pos_iff split: if_splits)
  have zero: "?m < 2 ^ (?d - 1)"
  proof (rule ccontr)
    assume "\<not> ?m < 2 ^ (?d - 1)"
    then have "?m OR 2 ^ (?d - 1) = ?m" using d(2) by (intro one_side_pair) auto
    with okm show False by (simp add: merge_at_def split: prod.splits)
  qed
  then have pair: "?m OR 2 ^ (?d - 1) = ?m + 2 ^ (?d - 1)" by (rule or_exp)
  have "dep t (?m + 2 ^ (?d - 1)) = ?d"
    using okm unfolding merge_at_def Let_def pair getPrefixLength_rep [OF rep] by (auto split: if_splits)
  then have sib: "siblings x t" using siblings_iff [OF d(2) zero] by simp
  have "jetCount t \<noteq> 65536"
  proof
    assume full: "jetCount t = 65536"
    then have c: "cnt t 16 = 65536" using full_tree [of t 16] tree_repD(5) [OF rep] by simp
    have "cnt t ?d = 0" if "?d \<noteq> 16"
    proof -
      have "jetCount t = (\<Sum>e = 0..16. cnt t e)" using tree_repD(5) [OF rep] by (rule jetCount_sum)
      also have "\<dots> = cnt t 16 + (\<Sum>e \<in> {0..16} - {16}. cnt t e)" by (subst sum.remove [of _ 16]) auto
      finally have "(\<Sum>e \<in> {0..16} - {16}. cnt t e) = 0" using full c by simp
      then show ?thesis using that tree_repD(7) [OF rep, of x] by simp
    qed
    then have "?d = 16" using cnt_pos_dep [of t x] by fastforce
    moreover have "leafCounts p 16 = 0"
      using rep c by (auto simp: tree_rep_def)
    ultimately show False
      using okm by (auto simp: merge_at_def merge_count_def Let_def split: prod.splits if_splits)
  qed
  then show ?thesis using d sib zero rep_jetCount [OF rep] by (simp add: zeroSide_def)
qed

subsection \<open>Counting and enumeration\<close>

lemma tree_Count_rep:
  assumes rep: "tree_rep p t" shows "tree_Count p = jetCount t"
proof (cases "mind t = maxd t")
  case True
  then show ?thesis using tree_repD(3,4) [OF rep] perfect_count by (simp add: tree_Count_def)
next
  case False
  then have "t \<noteq> Leaf" by auto
  then have lc: "leafCounts p d = of_nat (cnt t d)" for d using rep by (auto simp: tree_rep_def)
  have "jetCount t \<noteq> 65536"
  proof
    assume full: "jetCount t = 65536"
    then have c: "cnt t 16 = 65536" using full_tree [of t 16] tree_repD(5) [OF rep] by simp
    have "mind t < 16" using False mind_le_maxd [of t] tree_repD(5) [OF rep] by linarith
    then have "cnt t (mind t) + cnt t 16 \<le> (\<Sum>e = 0..16. cnt t e)"
      using sum_mono2 [of "{0..16}" "{mind t, 16}" "cnt t"] by simp
    also have "\<dots> = jetCount t" using jetCount_sum [of t 16] tree_repD(5) [OF rep] by simp
    finally show False using c full cnt_pos_mind [of t] by simp
  qed
  then have "jetCount t < 65536" using rep_jetCount [OF rep] by simp
  then have "unat (leafCounts p d) = cnt t d" for d
    using lc of_nat_u16 [of "cnt t d"] cnt_le_jetCount [of t d] by simp
  moreover have "sum_list (map (cnt t) [0 ..< 17]) = (\<Sum>e = 0..16. cnt t e)"
    by (simp add: sum_list_sum_nth atLeastLessThanSuc_atLeastAtMost [symmetric] numeral_eq_Suc)
  ultimately show ?thesis
    using False tree_repD(3,4) [OF rep] jetCount_sum [OF tree_repD(5) [OF rep]]
    by (simp add: tree_Count_def)
qed

definition jetList :: "jets \<Rightarrow> (nat \<times> nat) list" where
  "jetList t = map (\<lambda>v. (v, dep t v)) (filter (\<lambda>v. v < 2 ^ dep t v) [0 ..< 2 ^ maxd t])"

lemma tree_mask_le: "tree_rep p t \<Longrightarrow> v \<le> tree_mask p \<longleftrightarrow> v < 2 ^ maxd t"
  using tree_repD(6) [of p t] zero_less_power [of "2 :: nat" "maxd t"] by linarith

lemma enumFrom_rep:
  assumes rep: "tree_rep p t" and fork: "t \<noteq> Leaf"
  shows "v \<le> 2 ^ maxd t \<Longrightarrow> enumFrom p v fn s =
    run_until fn (map (\<lambda>v. (v, dep t v)) (filter (\<lambda>v. v < 2 ^ dep t v) [v ..< 2 ^ maxd t])) s"
proof (induction "2 ^ maxd t - v" arbitrary: v s)
  case 0
  then have "v = 2 ^ maxd t" by simp
  then have "\<not> v \<le> tree_mask p" using tree_mask_le [OF rep] by simp
  with \<open>v = 2 ^ maxd t\<close> show ?case by (subst enumFrom.simps) simp
next
  case (Suc n)
  then have v: "v < 2 ^ maxd t" by linarith
  then have le: "v \<le> tree_mask p" using tree_mask_le [OF rep] by simp
  have IH: "enumFrom p (Suc v) fn s' =
      run_until fn (map (\<lambda>v. (v, dep t v)) (filter (\<lambda>v. v < 2 ^ dep t v) [Suc v ..< 2 ^ maxd t])) s'" for s'
    using Suc.hyps v by (intro Suc.hyps(1)) auto
  show ?case
    using le v fork by (subst enumFrom.simps)
      (auto simp: getPrefixLength_rep [OF rep] IH upt_conv_Cons split: prod.splits)
qed

lemma Enum_rep:
  assumes rep: "tree_rep p t" shows "Enum p fn s = run_until fn (jetList t) s"
proof (cases "t = Leaf")
  case True
  with tree_repD(6) [OF rep] show ?thesis
    by (simp add: Enum_def jetList_def)
       (subst enumFrom.simps, auto simp: getPrefixLength_rep [OF rep] split: prod.splits)
next
  case False
  then show ?thesis using enumFrom_rep [OF rep False, of 0] by (simp add: Enum_def jetList_def)
qed

lemma jetList_owner: "(x mod 2 ^ dep t x, dep t x) \<in> set (jetList t)"
proof -
  have "(2 :: nat) ^ dep t x \<le> 2 ^ maxd t" using dep_bounds(2) by (intro power_increasing) auto
  moreover have "x mod 2 ^ dep t x < 2 ^ dep t x" by simp
  ultimately have "x mod 2 ^ dep t x < 2 ^ maxd t" by linarith
  then show ?thesis by (auto simp: jetList_def dep_of_mod)
qed

lemma jetList_unique: "(v, d) \<in> set (jetList t) \<Longrightarrow> x mod 2 ^ d = v \<Longrightarrow> d = dep t x"
  using dep_mod [of v t x] by (auto simp: jetList_def)

lemma jets_card: "finite {v. v < 2 ^ dep t v} \<and> card {v. v < 2 ^ dep t v} = jetCount t"
proof (induction t)
  case (Fork l r)
  let ?A = "{v. v < 2 ^ dep l v}" and ?B = "{v. v < 2 ^ dep r v}"
  have "{v. v < 2 ^ dep (Fork l r) v} = (\<lambda>w. 2 * w) ` ?A \<union> (\<lambda>w. 2 * w + 1) ` ?B"
  proof (intro equalityI subsetI)
    fix v assume v: "v \<in> {v. v < 2 ^ dep (Fork l r) v}"
    show "v \<in> (\<lambda>w. 2 * w) ` ?A \<union> (\<lambda>w. 2 * w + 1) ` ?B"
    proof (cases "even v")
      case True
      with v have "v div 2 \<in> ?A" by auto
      with True show ?thesis by (intro UnI1 image_eqI [of _ _ "v div 2"]) auto
    next
      case False
      with v have "v div 2 \<in> ?B" by auto
      with False show ?thesis by (intro UnI2 image_eqI [of _ _ "v div 2"]) auto
    qed
  qed auto
  moreover have "card ((\<lambda>w. 2 * w) ` ?A \<union> (\<lambda>w. 2 * w + 1) ` ?B) = card ?A + card ?B"
  proof (subst card_Un_disjoint)
    show "(\<lambda>w. 2 * w) ` ?A \<inter> (\<lambda>w. 2 * w + 1) ` ?B = {}"
      by (auto dest: arg_cong [where f = even])
  qed (use Fork.IH in \<open>auto simp: card_image inj_on_def\<close>)
  ultimately show ?case using Fork.IH by simp
qed simp

lemma jetList_length: "length (jetList t) = jetCount t"
proof -
  have "{v. v < 2 ^ dep t v} = set (filter (\<lambda>v. v < 2 ^ dep t v) [0 ..< 2 ^ maxd t])"
    using dep_bounds(2) [of t] power_increasing [of _ "maxd t" "2 :: nat"] by (force intro: less_le_trans)
  then have "card {v. v < 2 ^ dep t v} = length (filter (\<lambda>v. v < 2 ^ dep t v) [0 ..< 2 ^ maxd t])"
    by (metis distinct_card distinct_filter distinct_upt)
  then show ?thesis using jets_card [of t] by (simp add: jetList_def)
qed
subsection \<open>Trees that the operations can produce\<close>

fun perfect :: "nat \<Rightarrow> jets" where
  "perfect 0 = Leaf"
| "perfect (Suc n) = Fork (perfect n) (perfect n)"

lemma perfect_facts:
  "dep (perfect n) x = n" "mind (perfect n) = n" "maxd (perfect n) = n"
  "cnt (perfect n) e = (if e = n then 2 ^ n else 0)"
  by (induction n arbitrary: x e) (auto split: nat.splits)

lemma half_le: "0 < w \<Longrightarrow> v div 2 \<le> (2 * w - 1) div 2 \<longleftrightarrow> v < 2 * (w :: nat)"
  by presburger

lemma MakePerfect_rep:
  assumes rep: "tree_rep p t" and ok: "MakePerfect n p = Ok q"
  shows "tree_rep q (if n = 0 then t else perfect n)"
proof (cases "n = 0")
  case True
  with ok rep show ?thesis by (auto simp: MakePerfect_def split: if_splits)
next
  case False
  then have n: "n \<le> 16" "mind t = 0" "maxd t = 0"
    using ok tree_repD(3,4) [OF rep] by (auto simp: MakePerfect_def tree_IsEmpty_def split: if_splits)
  then have leaf: "t = Leaf" by (cases t) auto
  define k :: u8 where "k = of_nat (n - 1)"
  have k: "unat k < 16" unfolding k_def using n(1) by (subst of_nat_u8) auto
  have q: "q = p\<lparr>minDepth := n, maxDepth := n, leafCounts := (leafCounts p)(0 := 0, n := of_nat (2 ^ n)),
      tree_mask := 2 ^ n - 1, lenNibles := (\<lambda>i. if i \<le> (2 ^ n - 1) div 2 then k OR push_bit 4 k else lenNibles p i)\<rparr>"
    using ok False unfolding MakePerfect_def Let_def k_def [symmetric] by (simp split: if_splits)
  have "nibble q v = (if v < 2 ^ n then k else 0)" for v
  proof -
    have "\<not> bit k (4 + i)" for i using small_bits [OF k, of "4 + i"] by auto
    then have "k AND 0x0F = k" "drop_bit 4 k = 0"
      using small_bits [OF k] by (auto intro!: bit_eqI simp: nibble_bits)
    moreover have "v div 2 \<le> (2 ^ n - 1) div 2 \<longleftrightarrow> v < 2 ^ n"
      using False half_le [of "2 ^ (n - 1)" v] by (cases n) auto
    moreover have "(push_bit 4 k) AND 0x0F = 0" "drop_bit 4 (push_bit 4 k) = k"
      using small_bits [OF k] by (auto intro!: bit_eqI simp: nibble_bits dest: upper_bit)
    ultimately show ?thesis
      using tree_repD(2) [OF rep, of v] leaf
      by (auto simp: q nibble_def Let_def bit.conj_disj_distrib2 split: if_splits)
  qed
  moreover have "leafCounts q = (\<lambda>d. of_nat (cnt (perfect n) d))"
    using rep leaf False by (auto simp: q tree_rep_def perfect_facts fun_eq_iff)
  ultimately show ?thesis
    using False n tree_repD(1) [OF rep] by (simp add: tree_rep_def perfect_facts q k_def)
qed

inductive jet_reachable :: "PrefixTree \<Rightarrow> bool" where
  zero: "jet_reachable zeroTree"
| new: "jet_reachable (NewPrefixTree False)"
| init: "jet_reachable p \<Longrightarrow> jet_reachable (Init p)"
| perfect: "jet_reachable p \<Longrightarrow> MakePerfect n p = Ok q \<Longrightarrow> jet_reachable q"
| split: "jet_reachable p \<Longrightarrow> Split x lim p = Ok q \<Longrightarrow> jet_reachable q"
| merge: "jet_reachable p \<Longrightarrow> Merge x lim p = Ok q \<Longrightarrow> jet_reachable q"

lemma new_rep: "tree_rep (NewPrefixTree False) Leaf" "tree_rep zeroTree Leaf"
  by (auto simp: tree_rep_def NewPrefixTree_def zeroTree_def nibble_def)

lemma Init_rep: "tree_rep p t \<Longrightarrow> tree_rep (Init p) t"
proof -
  assume rep: "tree_rep p t"
  show ?thesis
  proof (cases "IsZero p")
    case True
    then have "t = Leaf" using tree_repD(3,4) [OF rep] by (cases t) (auto simp: IsZero_def)
    moreover have "leafCounts p 0 = 0" using True by (simp add: IsZero_def)
    ultimately have "leafCounts p = (\<lambda>d. 0)" using rep by (auto simp: tree_rep_def)
    with True \<open>t = Leaf\<close> rep show ?thesis by (auto simp: Init_def tree_rep_def nibble_def)
  qed (use rep in \<open>simp add: Init_def\<close>)
qed

lemma reachable_rep: "jet_reachable p \<Longrightarrow> \<exists>t. tree_rep p t"
proof (induction rule: jet_reachable.induct)
  case (split p x lim q)
  then obtain t where t: "tree_rep p t" by blast
  then have "dep t x \<le> lim" "dep t x < 16" using Split_Ok_iff [OF t, of x lim] split by auto
  with Split_rep [OF t] split show ?case by fastforce
next
  case (merge p x lim q)
  then obtain t where t: "tree_rep p t" by blast
  then have "dep t x \<le> lim \<and> siblings x t \<and> zeroSide x t \<and> jetCount t < 65536"
    using Merge_Ok_imp [OF t, of x lim] merge by simp
  with Merge_rep [OF t] merge show ?case by fastforce
qed (use new_rep Init_rep MakePerfect_rep in \<open>blast+\<close>)

lemma Merge_counted:
  assumes rep: "tree_rep p t" and q: "Merge x lim p = Ok q"
  shows "leafCounts q \<noteq> (\<lambda>d. 0)"
proof
  assume z: "leafCounts q = (\<lambda>d. 0)"
  let ?u = "mergeJets x t"
  have c: "siblings x t" "jetCount t < 65536" "leafCounts q = (\<lambda>e. of_nat (cnt ?u e))"
    using Merge_Ok_imp [OF rep, of x lim] Merge_rep [OF rep, of x lim] q by auto
  have "splitJet x ?u = t" using siblings_merge [OF c(1)] by simp
  then have "jetCount ?u < 65536" using jetCount_split [of x ?u] c(2) by simp
  then have "unat (leafCounts q (mind ?u)) = cnt ?u (mind ?u)"
    using of_nat_u16 [of "cnt ?u (mind ?u)"] cnt_le_jetCount [of ?u "mind ?u"] c(3) by simp
  with z cnt_pos_mind [of ?u] show False by simp
qed

lemma rep_unique:
  assumes "tree_rep p t" "tree_rep q t" "leafCounts p = leafCounts q"
  shows "p = q"
proof -
  have "nibble p v = nibble q v" for v using tree_repD(2) [OF assms(1)] tree_repD(2) [OF assms(2)] by simp
  then have "lenNibles p = lenNibles q" by (simp add: fun_eq_iff byte_from_nibbles)
  with assms show ?thesis by (simp add: tree_rep_def)
qed

subsection \<open>The contract of a jet tree\<close>

locale jet_store =
  fixes rep :: "'p \<Rightarrow> jets \<Rightarrow> bool" and find :: "'p \<Rightarrow> nat \<Rightarrow> (nat \<times> nat) res"
    and split merge :: "nat \<Rightarrow> nat \<Rightarrow> 'p \<Rightarrow> 'p res" and size :: "'p \<Rightarrow> nat"
  assumes find_law: "rep p t \<Longrightarrow> find p x = Ok (x mod 2 ^ dep t x, dep t x)"
    and size_law: "rep p t \<Longrightarrow> size p = jetCount t"
    and split_law: "rep p t \<Longrightarrow> dep t x \<le> lim \<Longrightarrow> dep t x < 16 \<Longrightarrow>
      \<exists>q. split x lim p = Ok q \<and> rep q (splitJet x t)"
    and merge_law: "rep p t \<Longrightarrow> siblings x t \<Longrightarrow> zeroSide x t \<Longrightarrow> dep t x \<le> lim \<Longrightarrow> jetCount t < 65536 \<Longrightarrow>
      \<exists>q. merge x lim p = Ok q \<and> rep q (mergeJets x t)"
begin

lemma split_lookup:
  assumes "rep p t" "find p x = Ok (v, d)" "d \<le> lim" "d < 16"
  shows "\<exists>q. split x lim p = Ok q \<and> size q = Suc (size p) \<and> (\<exists>t'. rep q t') \<and>
    (\<forall>y. find q y = (if y mod 2 ^ d = v then Ok (y mod 2 ^ Suc d, Suc d) else find p y))"
proof -
  have v: "v = x mod 2 ^ d" "d = dep t x" using assms(1,2) find_law by auto
  then obtain q where q: "split x lim p = Ok q" "rep q (splitJet x t)"
    using split_law [OF assms(1)] assms(3,4) by blast
  then show ?thesis
    using v assms(1) by (auto simp: find_law size_law jetCount_split dep_split)
qed

lemma split_then_merge:
  assumes "rep p t" "find p x = Ok (v, d)" "d \<le> lim" "d < 16" "d < lim'" "size p < 65535"
  shows "\<exists>q r. split x lim p = Ok q \<and> merge v lim' q = Ok r \<and> rep r t"
proof -
  have v: "v = x mod 2 ^ d" "d = dep t x" using assms(1,2) find_law by auto
  then obtain q where q: "split x lim p = Ok q" "rep q (splitJet x t)"
    using split_law [OF assms(1)] assms(3,4) by blast
  have dv: "dep t v = d" using v by (simp add: dep_of_mod)
  have sp: "splitJet v t = splitJet x t"
    using v by (induction t arbitrary: x v d) (auto simp: mod_mult2_eq)
  have "dep (splitJet v t) v = Suc d" using dv by (simp add: dep_split)
  moreover have "siblings v (splitJet v t)"
    by (induction t arbitrary: v) auto
  moreover have "zeroSide v (splitJet v t)"
    using \<open>dep (splitJet v t) v = Suc d\<close> v(1) by (simp add: zeroSide_def) (metis le_less_trans mod_less_eq_dividend mod_less_divisor zero_less_numeral zero_less_power)
  ultimately have "\<exists>r. merge v lim' q = Ok r \<and> rep r (mergeJets v (splitJet v t))"
    using q(2) assms(1,5,6) sp size_law jetCount_split by (intro merge_law) auto
  with q(1) show ?thesis by (simp add: split_merge)
qed

end

interpretation jt: jet_store tree_rep GetPrefix Split Merge tree_Count
  by unfold_locales (simp_all add: GetPrefix_def findPrefixLength_rep tree_Count_rep Split_rep, metis Merge_rep)

interpretation jt_enum: stoppable_enum "\<lambda>(p, t). jetList t" "\<lambda>(p, t) fn s. Ok (Enum p fn s)" "\<lambda>(p, t). tree_rep p t"
  by unfold_locales (auto simp: Enum_rep)

subsection \<open>Properties\<close>

text \<open>
  C14: Every prefix has one jet.  For a tree built by the operations in the non-propagating mode,
  \<^verbatim>\<open>GetPrefix\<close> never panics, the pair it returns is one of the \<^verbatim>\<open>Count\<close> many jets that \<^verbatim>\<open>Enum\<close>
  lists and is the given prefix cut to the jet's length, and no other listed jet agrees with the prefix on its own
  length.
\<close>

theorem jet_lookup_unique:
  assumes "jet_reachable p"
  shows "\<exists>jets. Enum p collect [] = (False, jets) \<and> distinct jets \<and> length jets = tree_Count p \<and>
    (\<forall>x. \<exists>d. GetPrefix p x = Ok (x mod 2 ^ d, d) \<and> d \<le> 16 \<and>
       {(v, e) \<in> set jets. x mod 2 ^ e = v} = {(x mod 2 ^ d, d)})"
proof -
  obtain t where t: "tree_rep p t" using reachable_rep [OF assms] by blast
  have "{(v, e) \<in> set (jetList t). x mod 2 ^ e = v} = {(x mod 2 ^ dep t x, dep t x)}" for x
  proof (intro equalityI subsetI)
    fix z assume "z \<in> {(v, e) \<in> set (jetList t). x mod 2 ^ e = v}"
    then obtain v e where z: "z = (v, e)" "(v, e) \<in> set (jetList t)" "x mod 2 ^ e = v" by blast
    with jetList_unique have "e = dep t x" by blast
    with z show "z \<in> {(x mod 2 ^ dep t x, dep t x)}" by simp
  qed (use jetList_owner [of x t] in simp)
  then have "GetPrefix p x = Ok (x mod 2 ^ dep t x, dep t x) \<and> dep t x \<le> 16 \<and>
      {(v, e) \<in> set (jetList t). x mod 2 ^ e = v} = {(x mod 2 ^ dep t x, dep t x)}" for x
    using jt.find_law [OF t] tree_repD(7) [OF t] by simp
  moreover have "distinct (jetList t)" by (simp add: jetList_def distinct_map inj_on_def)
  ultimately show ?thesis
    using Enum_rep [OF t, of collect "[]"]
    by (intro exI [of _ "jetList t"] conjI allI exI [of _ "dep t _"]) (simp_all add: run_until_collect jetList_length jt.size_law [OF t])
qed

theorem jet_lookup_unique_witness:
  "\<exists>jets. Enum (NewPrefixTree False) collect [] = (False, jets) \<and>
     (\<exists>d. GetPrefix (NewPrefixTree False) 5 = Ok (5 mod 2 ^ d, d))"
  using jet_lookup_unique [OF jet_reachable.new] by blast

text \<open>
  C23: Split.  On every tree without propagation that the operations make, \<^verbatim>\<open>Split\<close> succeeds exactly when the jet of the prefix is shorter than
  sixteen bits and not longer than the given limit; the tree then has one jet more, the prefixes of
  the split jet belong to jets one bit longer, and every other lookup is unchanged.
\<close>
theorem jet_split:
  assumes "jet_reachable p" "GetPrefix p x = Ok (v, d)"
  shows "(is_ok (Split x lim p) \<longleftrightarrow> d \<le> lim \<and> d < 16) \<and>
    (\<forall>q. Split x lim p = Ok q \<longrightarrow> tree_Count q = Suc (tree_Count p) \<and>
      (\<forall>y. GetPrefix q y = (if y mod 2 ^ d = v then Ok (y mod 2 ^ Suc d, Suc d) else GetPrefix p y)))"
proof -
  obtain t where t: "tree_rep p t" using reachable_rep [OF assms(1)] by blast
  have d: "d = dep t x" using jt.find_law [OF t] assms(2) by simp
  then have iff: "is_ok (Split x lim p) \<longleftrightarrow> d \<le> lim \<and> d < 16" using Split_Ok_iff [OF t] by simp
  moreover have "tree_Count q = Suc (tree_Count p) \<and>
      (\<forall>y. GetPrefix q y = (if y mod 2 ^ d = v then Ok (y mod 2 ^ Suc d, Suc d) else GetPrefix p y))"
    if "Split x lim p = Ok q" for q
    using that iff jt.split_lookup [OF t assms(2), of lim] by auto
  ultimately show ?thesis by blast
qed

theorem jet_split_witness:
  "is_ok (Split 5 0 (NewPrefixTree False))"
proof -
  have "GetPrefix (NewPrefixTree False) 5 = Ok (0, 0)" using jt.find_law [OF new_rep(1)] by simp
  then show ?thesis using jet_split [OF jet_reachable.new, of 5 0 0 0] by simp
qed

text \<open>
  C24: Split followed by merge is the identity.  On every tree without propagation that the operations make, that is not the zero value and
  has fewer than 65535 jets, splitting a jet shorter than sixteen bits with a limit of at least its length and merging the two halves again with a
  limit above its length gives back the same structure, field by field.  The root of the zero value is not counted before its first change.
\<close>
theorem jet_split_merge_identity:
  assumes "jet_reachable p" "\<not> IsZero p" "GetPrefix p x = Ok (v, d)" "d \<le> lim" "d < 16" "d < lim'"
    "tree_Count p < 65535"
  shows "\<exists>q. Split x lim p = Ok q \<and> Merge v lim' q = Ok p"
proof -
  obtain t where t: "tree_rep p t" using reachable_rep [OF assms(1)] by blast
  have lt: "leafCounts p = (\<lambda>d. of_nat (cnt t d))"
    using t assms(2) by (auto simp: tree_rep_def IsZero_def)
  obtain q r where q: "Split x lim p = Ok q" "Merge v lim' q = Ok r" "tree_rep r t"
    using jt.split_then_merge [OF t assms(3-7)] by blast
  have "\<exists>t'. tree_rep q t'" using reachable_rep [OF jet_reachable.split [OF assms(1) q(1)]] .
  then have "leafCounts r \<noteq> (\<lambda>d. 0)" using Merge_counted q(2) by blast
  then have "leafCounts r = leafCounts p" using q(3) lt by (auto simp: tree_rep_def)
  then have "r = p" using rep_unique [OF q(3) t] by simp
  with q show ?thesis by blast
qed

theorem jet_split_merge_identity_witness:
  "\<exists>q. Split 5 0 (NewPrefixTree False) = Ok q \<and> Merge 0 1 q = Ok (NewPrefixTree False)"
proof -
  have "GetPrefix (NewPrefixTree False) 5 = Ok (0, 0)" using jt.find_law [OF new_rep(1)] by simp
  moreover have "\<not> IsZero (NewPrefixTree False)" "tree_Count (NewPrefixTree False) < 65535"
    by (simp_all add: IsZero_def NewPrefixTree_def tree_Count_def zeroTree_def)
  ultimately show ?thesis
    using jet_split_merge_identity [OF jet_reachable.new, of 5 0 0 0 1] by simp
qed

text \<open>
  C36: Merge.  On every tree without propagation that the operations make, \<^verbatim>\<open>Merge\<close> succeeds exactly when the prefix belongs to the zero side of two
  sibling jets, the limit covers its length and the tree is not completely full.
\<close>
theorem jet_merge_conditions:
  assumes "jet_reachable p" "GetPrefix p x = Ok (v, d)"
  shows "is_ok (Merge x lim p) \<longleftrightarrow> 0 < d \<and> d \<le> lim \<and> v < 2 ^ (d - 1) \<and>
    GetPrefix p (v + 2 ^ (d - 1)) = Ok (v + 2 ^ (d - 1), d) \<and> tree_Count p < 65536"
proof -
  obtain t where t: "tree_rep p t" using reachable_rep [OF assms(1)] by blast
  have d: "d = dep t x" "v = x mod 2 ^ dep t x" using jt.find_law [OF t] assms(2) by auto
  have pair: "GetPrefix p (v + 2 ^ (d - 1)) = Ok (v + 2 ^ (d - 1), d) \<longleftrightarrow> siblings x t"
    if "0 < d" "v < 2 ^ (d - 1)"
  proof -
    have "v + 2 ^ (d - 1) < 2 ^ d" using that by (cases d) auto
    then show ?thesis using siblings_iff [of t x] that d jt.find_law [OF t] by auto
  qed
  show ?thesis
  proof
    assume "is_ok (Merge x lim p)"
    then have "dep t x \<le> lim \<and> siblings x t \<and> zeroSide x t \<and> jetCount t < 65536"
      by (rule Merge_Ok_imp [OF t])
    moreover from this have "0 < d" using merged_depths(2) d by simp
    ultimately show "0 < d \<and> d \<le> lim \<and> v < 2 ^ (d - 1) \<and>
        GetPrefix p (v + 2 ^ (d - 1)) = Ok (v + 2 ^ (d - 1), d) \<and> tree_Count p < 65536"
      using pair d jt.size_law [OF t] by (simp add: zeroSide_def)
  next
    assume a: "0 < d \<and> d \<le> lim \<and> v < 2 ^ (d - 1) \<and>
        GetPrefix p (v + 2 ^ (d - 1)) = Ok (v + 2 ^ (d - 1), d) \<and> tree_Count p < 65536"
    then have "siblings x t" "zeroSide x t" "jetCount t < 65536"
      using pair d jt.size_law [OF t] by (simp_all add: zeroSide_def)
    with a d show "is_ok (Merge x lim p)" using jt.merge_law [OF t, of x lim] by auto
  qed
qed

theorem jet_merge_conditions_witness:
  "\<not> is_ok (Merge 5 3 (NewPrefixTree False))"
proof -
  have "GetPrefix (NewPrefixTree False) 5 = Ok (0, 0)" using jt.find_law [OF new_rep(1)] by simp
  then show ?thesis using jet_merge_conditions [OF jet_reachable.new, of 5 0 0 3] by simp
qed

subsection \<open>The propagating mode\<close>

text \<open>
  In the propagating mode every prefix value up to the greatest depth has an entry.  The trees
  below are those after the first two splits of a new tree.
\<close>

lemmas tree_eval = Split_def findPrefixLength_def rawPrefixLength_def nibble_def Let_def split_at_def
  split_count_def split_grow_def setLeaf_def propagateAllocatedDepth_def setPrefixLength_def setNibble_def
  incLeaf_def propagate_def GetPrefix_def

definition propagated :: PrefixTree where
  "propagated = \<lparr>tree_mask = 1, minDepth = 1, maxDepth = 1, autoPropagate = True,
     leafCounts = (\<lambda>i. if i = 1 then 2 else 0), lenNibles = (\<lambda>i. 0)\<rparr>"

lemma propagated_split_0: "Split 0 0 (NewPrefixTree True) = Ok propagated"
  by (simp add: tree_eval NewPrefixTree_def zeroTree_def propagated_def fun_eq_iff)

definition propagated2 :: PrefixTree where
  "propagated2 = \<lparr>tree_mask = 3, minDepth = 1, maxDepth = 2, autoPropagate = True,
     leafCounts = (\<lambda>i. if i = 1 then 1 else if i = 2 then 2 else 0), lenNibles = (\<lambda>i. if i \<le> 1 then 0x10 else 0)\<rparr>"

lemma propagated_split_1: "Split 1 1 propagated = Ok propagated2"
  by (simp add: tree_eval propagated_def propagated2_def fun_eq_iff)

lemma propagated_split_2: "bnd (Split 2 2 propagated2) (\<lambda>p. GetPrefix p 0) = Ok (0, 1)"
  by (simp add: tree_eval propagated2_def fun_eq_iff)


text \<open>
  The propagating mode splits the wrong entry.  After splitting the root and the jet 1 of a new
  tree, jet 0 has length one.  Splitting the prefix 2 (binary 10) with two valuable bits splits jet
  0 in the non-propagating mode, so that prefix 0 gets length two.  In the propagating mode lookup
  returns the prefix 2 without cutting it to the length of its jet, and the same split changes only
  the entry of the value 2: prefix 0 keeps length one.
\<close>

theorem jet_propagating_split_misses_jet:
  "(\<exists>p q r. Split 0 0 (NewPrefixTree False) = Ok p \<and> Split 1 1 p = Ok q \<and> GetPrefix q 2 = Ok (0, 1) \<and>
      Split 2 2 q = Ok r \<and> GetPrefix r 0 = Ok (0, 2)) \<and>
   (\<exists>p q r. Split 0 0 (NewPrefixTree True) = Ok p \<and> Split 1 1 p = Ok q \<and> GetPrefix q 2 = Ok (2, 1) \<and>
      Split 2 2 q = Ok r \<and> GetPrefix r 0 = Ok (0, 1))"
proof
  let ?t1 = "splitJet 0 Leaf" let ?t2 = "splitJet 1 ?t1"
  obtain p where p: "Split 0 0 (NewPrefixTree False) = Ok p" "tree_rep p ?t1"
    using jt.split_law [OF new_rep(1), of 0 0] by auto
  obtain q where q: "Split 1 1 p = Ok q" "tree_rep q ?t2" using jt.split_law [OF p(2), of 1 1] by auto
  obtain r where r: "Split 2 2 q = Ok r" "tree_rep r (splitJet 2 ?t2)" using jt.split_law [OF q(2), of 2 2] by auto
  from p q r show "\<exists>p q r. Split 0 0 (NewPrefixTree False) = Ok p \<and> Split 1 1 p = Ok q \<and>
      GetPrefix q 2 = Ok (0, 1) \<and> Split 2 2 q = Ok r \<and> GetPrefix r 0 = Ok (0, 2)"
    using jt.find_law [OF q(2), of 2] jt.find_law [OF r(2), of 0] by auto
  have "GetPrefix propagated2 2 = Ok (2, 1)" by (simp add: tree_eval propagated2_def)
  then show "\<exists>p q r. Split 0 0 (NewPrefixTree True) = Ok p \<and> Split 1 1 p = Ok q \<and> GetPrefix q 2 = Ok (2, 1) \<and>
      Split 2 2 q = Ok r \<and> GetPrefix r 0 = Ok (0, 1)"
    using propagated_split_0 propagated_split_1 propagated_split_2 by (auto simp: bnd_Ok_iff)
qed

end
