(* ===== verification/Jet_Alloc.thy ===== *)
theory Jet_Alloc
  imports Jet_Tree_Spec
begin

text \<open>
  The prefix calculator of \<^verbatim>\<open>ledger/jetalloc/prefix_calc.go\<close>: it turns the bytes of a reference into
  the bit prefix that is looked up in the jet tree, one bit per half byte.
\<close>

record PrefixCalc =
  OverlapOfs :: u8
  SplitMedian :: u8

definition NewPrefixCalc :: PrefixCalc where
  "NewPrefixCalc = \<lparr>OverlapOfs = 4, SplitMedian = 7\<rparr>"

text \<open>
  The loop over the bytes: \<open>ds\<close> is the rest of \<open>data\<close> from index \<open>i\<close> on, \<open>bitv\<close> the value of the
  next bit of the result.
\<close>

fun calcLoop :: "PrefixCalc \<Rightarrow> u8 list \<Rightarrow> nat \<Rightarrow> u8 list \<Rightarrow> nat \<Rightarrow> nat \<Rightarrow> nat \<Rightarrow> nat res" where
  "calcLoop p data i [] prefixLen bitv result = Panic ''insufficient data length''"
| "calcLoop p data i (d # ds) prefixLen bitv result =
     bnd (if OverlapOfs p > 0
          then if i + unat (OverlapOfs p) < length data then Ok (d XOR data ! (i + unat (OverlapOfs p)))
               else Panic ''index out of range''
          else Ok d) (\<lambda>d.
     let result = (if d AND 0xF \<ge> SplitMedian p then result OR bitv else result) in
     if prefixLen = 1 then Ok result
     else let bitv = 2 * bitv; result = (if drop_bit 4 d \<ge> SplitMedian p then result OR bitv else result) in
       if prefixLen - 2 = 0 then Ok result
       else calcLoop p data (i + 1) ds (prefixLen - 2) (2 * bitv) result)"

definition fromSlice :: "PrefixCalc \<Rightarrow> nat \<Rightarrow> u8 list \<Rightarrow> nat res" where
  "fromSlice p prefixLen data = calcLoop p data 0 data prefixLen 1 0"

definition FromSlice :: "PrefixCalc \<Rightarrow> int \<Rightarrow> u8 list \<Rightarrow> nat res" where
  "FromSlice p prefixLen data =
     (if prefixLen < 0 \<or> prefixLen > 32 then Panic ''IllegalValue''
      else if prefixLen = 0 then Ok 0
      else fromSlice p (nat prefixLen) data)"

text \<open>
  A reader is given by what it does with a buffer of a given size: an error, or the bytes it stored,
  where a short read leaves fewer bytes than asked for.
\<close>

definition FromReader ::
  "PrefixCalc \<Rightarrow> int \<Rightarrow> (nat \<Rightarrow> string + u8 list) option \<Rightarrow> (string + nat) res" where
  "FromReader p prefixLen reader =
     (if prefixLen < 0 \<or> prefixLen > 32 then Panic ''IllegalValue''
      else case reader of None \<Rightarrow> Panic ''IllegalValue''
      | Some read \<Rightarrow>
        if prefixLen = 0 then Ok (Inr 0)
        else let size = unat (OverlapOfs p) + (nat prefixLen + 1) div 2 in
          case read size of Inl err \<Rightarrow> Ok (Inl err)
          | Inr buf \<Rightarrow> if length buf \<noteq> size then Ok (Inl ''insufficient data length'')
             else bnd (fromSlice p (nat prefixLen) buf) (\<lambda>r. Ok (Inr r)))"

subsection \<open>The bits of the prefix\<close>

text \<open>Bit \<open>j\<close> of the prefix: the half byte \<open>j\<close> of the mixed data against the median.\<close>

definition mixed :: "PrefixCalc \<Rightarrow> u8 list \<Rightarrow> nat \<Rightarrow> u8" where
  "mixed p data i = (if OverlapOfs p > 0 then data ! i XOR data ! (i + unat (OverlapOfs p)) else data ! i)"

definition prefixBit :: "PrefixCalc \<Rightarrow> u8 list \<Rightarrow> nat \<Rightarrow> bool" where
  "prefixBit p data j \<longleftrightarrow>
     (if even j then mixed p data (j div 2) AND 0xF else drop_bit 4 (mixed p data (j div 2))) \<ge> SplitMedian p"

definition enough :: "PrefixCalc \<Rightarrow> nat \<Rightarrow> u8 list \<Rightarrow> bool" where
  "enough p n data \<longleftrightarrow> unat (OverlapOfs p) + (n + 1) div 2 \<le> length data"

lemma bit_or_if: "bit (if c then a OR 2 ^ k else a) j \<longleftrightarrow> bit a j \<or> c \<and> j = k" for a :: nat
  by (auto simp: bit_simps)

lemma calcLoop_bits:
  assumes "enough p (2 * i + n) data" "n > 0"
  shows "\<exists>r. calcLoop p data i (drop i data) n (2 ^ (2 * i)) res = Ok r \<and>
    (\<forall>j. bit r j \<longleftrightarrow> bit res j \<or> 2 * i \<le> j \<and> j < 2 * i + n \<and> prefixBit p data j)"
  using assms
proof (induction n arbitrary: i res rule: less_induct)
  case (less n)
  let ?m = "mixed p data i"
  have len: "i < length data" "OverlapOfs p > 0 \<Longrightarrow> i + unat (OverlapOfs p) < length data"
    using less.prems by (auto simp: enough_def)
  have ds: "drop i data = data ! i # drop (Suc i) data" using len(1) by (simp add: Cons_nth_drop_Suc)
  have mix: "(if OverlapOfs p > 0
          then if i + unat (OverlapOfs p) < length data then Ok (data ! i XOR data ! (i + unat (OverlapOfs p)))
               else Panic ''index out of range''
          else Ok (data ! i)) = Ok ?m"
    using len(2) by (simp add: mixed_def)
  define r1 where "r1 = (if ?m AND 0xF \<ge> SplitMedian p then res OR 2 ^ (2 * i) else res)"
  define r2 where "r2 = (if drop_bit 4 ?m \<ge> SplitMedian p then r1 OR 2 ^ (2 * i + 1) else r1)"
  have b1: "bit r1 j \<longleftrightarrow> bit res j \<or> j = 2 * i \<and> prefixBit p data j" for j
    unfolding r1_def bit_or_if by (auto simp: prefixBit_def)
  have b2: "bit r2 j \<longleftrightarrow> bit r1 j \<or> j = 2 * i + 1 \<and> prefixBit p data j" for j
    unfolding r2_def bit_or_if by (auto simp: prefixBit_def)
  have step: "calcLoop p data i (drop i data) n (2 ^ (2 * i)) res =
      (if n = 1 then Ok r1 else if n - 2 = 0 then Ok r2
       else calcLoop p data (Suc i) (drop (Suc i) data) (n - 2) (2 ^ (2 * Suc i)) r2)"
    unfolding ds calcLoop.simps mix by (simp add: Let_def r1_def r2_def)
  consider "n = 1" | "n = 2" | "n > 2" using less.prems(2) by linarith
  then show ?case
  proof cases
    case 1
    have "bit r1 j \<longleftrightarrow> bit res j \<or> 2 * i \<le> j \<and> j < 2 * i + n \<and> prefixBit p data j" for j
      unfolding b1 1 by (auto simp: le_antisym)
    with 1 step show ?thesis by auto
  next
    case 2
    have "j = 2 * i \<or> j = 2 * i + 1 \<longleftrightarrow> 2 * i \<le> j \<and> j < 2 * i + 2" for j by linarith
    then have "bit r2 j \<longleftrightarrow> bit res j \<or> 2 * i \<le> j \<and> j < 2 * i + n \<and> prefixBit p data j" for j
      unfolding b1 b2 2 by blast
    with 2 step show ?thesis by auto
  next
    case 3
    have "2 * Suc i + (n - 2) = 2 * i + n" using 3 by simp
    then have "enough p (2 * Suc i + (n - 2)) data" using less.prems(1) by (simp only:)
    then obtain r where r: "calcLoop p data (Suc i) (drop (Suc i) data) (n - 2) (2 ^ (2 * Suc i)) r2 = Ok r"
      "\<And>j. bit r j \<longleftrightarrow> bit r2 j \<or> 2 * Suc i \<le> j \<and> j < 2 * Suc i + (n - 2) \<and> prefixBit p data j"
      using less.IH [of "n - 2" "Suc i" r2] 3 by (metis diff_less zero_less_diff zero_less_numeral less.prems(2))
    have "j = 2 * i \<or> j = 2 * i + 1 \<or> 2 * Suc i \<le> j \<and> j < 2 * Suc i + (n - 2) \<longleftrightarrow> 2 * i \<le> j \<and> j < 2 * i + n" for j
      using 3 by presburger
    then have "bit r j \<longleftrightarrow> bit res j \<or> 2 * i \<le> j \<and> j < 2 * i + n \<and> prefixBit p data j" for j
      unfolding r(2) b1 b2 by blast
    with 3 r(1) step show ?thesis by auto
  qed
qed

lemma fromSlice_bits:
  assumes "enough p n data" "n > 0"
  shows "\<exists>r. fromSlice p n data = Ok r \<and> r < 2 ^ n \<and> (\<forall>j. bit r j \<longleftrightarrow> j < n \<and> prefixBit p data j)"
proof -
  obtain r where r: "fromSlice p n data = Ok r" "\<And>j. bit r j \<longleftrightarrow> j < n \<and> prefixBit p data j"
    using calcLoop_bits [of p 0 n data 0] assms by (auto simp: fromSlice_def)
  have "take_bit n r = r" by (rule bit_eqI) (auto simp: bit_simps r(2))
  then have "r < 2 ^ n" by (simp add: take_bit_nat_eq_self_iff)
  with r show ?thesis by blast
qed

subsection \<open>Properties\<close>

text \<open>
  Prefixes of different lengths agree.  Given enough bytes, \<^verbatim>\<open>FromSlice\<close> returns a value of the
  requested number of bits, and asking for fewer bits returns the low bits of the longer prefix.  So
  a prefix computed for the depth of the tree and one computed for sixteen bits are looked up as the
  same jet in every tree built by the operations in the non-propagating mode.
\<close>

theorem prefix_length_does_not_matter:
  assumes "enough q n data" "m \<le> n" "n \<le> 32" "jet_reachable p" "maxDepth p \<le> m"
  shows "\<exists>r s. FromSlice q (int n) data = Ok r \<and> FromSlice q (int m) data = Ok s \<and> r < 2 ^ n \<and>
    s = r mod 2 ^ m \<and> GetPrefix p s = GetPrefix p r"
proof -
  have enough: "enough q k data" if "k \<le> n" for k using assms(1) that by (auto simp: enough_def)
  have ex: "\<exists>r. FromSlice q (int k) data = Ok r \<and> r < 2 ^ k \<and> (\<forall>j. bit r j \<longleftrightarrow> j < k \<and> prefixBit q data j)"
    if "k \<le> n" for k
    using fromSlice_bits [OF enough [OF that]] that assms(3) by (cases "k = 0") (auto simp: FromSlice_def)
  obtain r where r: "FromSlice q (int n) data = Ok r" "r < 2 ^ n" "\<And>j. bit r j \<longleftrightarrow> j < n \<and> prefixBit q data j"
    using ex [of n] by auto
  obtain s where s: "FromSlice q (int m) data = Ok s" "\<And>j. bit s j \<longleftrightarrow> j < m \<and> prefixBit q data j"
    using ex [OF assms(2)] by auto
  have "s = take_bit m r" using assms(2) by (intro bit_eqI) (auto simp: bit_simps r(3) s(2))
  then have sm: "s = r mod 2 ^ m" by (simp add: take_bit_eq_mod)
  obtain t where t: "tree_rep p t" using reachable_rep [OF assms(4)] by blast
  have "dep t r \<le> m" using dep_bounds(2) [of t r] tree_repD(4) [OF t] assms(5) by simp
  then have "GetPrefix p s = GetPrefix p r"
    using jt.find_law [OF t] by (simp add: sm dep_of_mod mod_exp_eq min_absorb2)
  with r s sm show ?thesis by blast
qed

theorem prefix_length_does_not_matter_witness:
  "\<exists>r s. FromSlice NewPrefixCalc 8 (replicate 8 (0x7F :: u8)) = Ok r \<and>
     FromSlice NewPrefixCalc 4 (replicate 8 0x7F) = Ok s \<and> s = r mod 2 ^ 4"
  using prefix_length_does_not_matter [of NewPrefixCalc 8 "replicate 8 0x7F" 4 "NewPrefixTree False"]
    jet_reachable.new
  by (auto simp: enough_def NewPrefixCalc_def NewPrefixTree_def zeroTree_def)

end
