(* ===== verification/Sync_Api.thy ===== *)
theory Sync_Api
  imports Prelude
begin

text \<open>
  The vocabulary of the synchronization objects of the conveyor, from
  \<^verbatim>\<open>conveyor/smachine/api_slot_link.go\<close>, \<^verbatim>\<open>api_decision.go\<close> and \<^verbatim>\<open>api_sync.go\<close>: links to slots and
  to their steps, decisions, dependency flags, and the saturating adjustment of limits of
  \<^verbatim>\<open>smsync/sync_conditional.go\<close>.

  A slot is a pointer, here a number; what \<^verbatim>\<open>Slot._getState\<close> reads from the slots at the moment of an
  operation is the argument \<open>sl\<close> of the operations.
\<close>

subsection \<open>Slot links\<close>

type_synonym SlotID = u32
type_synonym slots = "nat \<Rightarrow> SlotID \<times> u32 \<times> bool"

record SlotLink =
  link_id :: SlotID
  link_s :: "nat option"

record StepLink = SlotLink +
  link_step :: u32

definition noStepLink :: StepLink where
  "noStepLink = \<lparr>link_id = 0, link_s = None, link_step = 0\<rparr>"

definition link_IsValid :: "slots \<Rightarrow> SlotLink \<Rightarrow> bool" where
  "link_IsValid sl p =
     (case link_s p of None \<Rightarrow> False
      | Some s \<Rightarrow> (case sl s of (i, _, _) \<Rightarrow> link_id p = i))"

definition GetStepLink :: "slots \<Rightarrow> SlotLink \<Rightarrow> StepLink \<times> bool" where
  "GetStepLink sl p =
     (case link_s p of None \<Rightarrow> (noStepLink, False)
      | Some s \<Rightarrow> (case sl s of (i, stp, _) \<Rightarrow>
          if link_id p = i then (SlotLink.extend p \<lparr>link_step = stp\<rparr>, True)
          else (SlotLink.extend p \<lparr>link_step = 0\<rparr>, False)))"

definition IsAtStep :: "slots \<Rightarrow> StepLink \<Rightarrow> bool" where
  "IsAtStep sl p =
     (case link_s p of None \<Rightarrow> False
      | Some s \<Rightarrow> (case sl s of (i, stp, _) \<Rightarrow> link_id p = i \<and> (link_step p = 0 \<or> link_step p = stp)))"

definition numberOfReservedSteps :: u32 where
  "numberOfReservedSteps = 2"

definition IsNearStep :: "slots \<Rightarrow> StepLink \<Rightarrow> u32 \<Rightarrow> bool" where
  "IsNearStep sl p forwardDelta =
     (case link_s p of None \<Rightarrow> False
      | Some s \<Rightarrow> (case sl s of (i, stp, _) \<Rightarrow>
          if link_id p \<noteq> i then False
          else if link_step p = 0 then True
          else if forwardDelta = 0 then link_step p = stp
          else let lastStep = link_step p + forwardDelta in
            if link_step p \<le> lastStep then link_step p \<le> stp \<and> stp \<le> lastStep
            else if forwardDelta \<ge> - 1 - numberOfReservedSteps then True
            else link_step p \<le> stp \<or> stp \<le> lastStep + numberOfReservedSteps))"

lemma GetStepLink_valid [simp]: "snd (GetStepLink sl p) = link_IsValid sl p"
  by (simp add: GetStepLink_def link_IsValid_def split: option.splits prod.splits)

lemma GetStepLink_IsAtStep: "link_IsValid sl p \<Longrightarrow> IsAtStep sl (fst (GetStepLink sl p))"
  by (auto simp: GetStepLink_def link_IsValid_def IsAtStep_def SlotLink.defs split: option.splits prod.splits)

subsection \<open>Decisions\<close>

datatype Decision = Unknown | Impossible | NotPassed | Passed

definition decision_IsValid :: "Decision \<Rightarrow> bool" where
  "decision_IsValid d \<longleftrightarrow> d = NotPassed \<or> d = Passed"

fun AsValid :: "Decision \<Rightarrow> bool \<times> bool" where
  "AsValid Passed = (True, True)"
| "AsValid NotPassed = (False, True)"
| "AsValid _ = (False, False)"

definition GetDecision :: "bool \<Rightarrow> Decision" where
  "GetDecision b = (if b then Passed else NotPassed)"

lemma AsValid_GetDecision [simp]: "AsValid (GetDecision b) = (b, True)"
  by (simp add: GetDecision_def)

lemma AsValid_IsValid: "snd (AsValid d) = decision_IsValid d"
  by (cases d) (simp_all add: decision_IsValid_def)

subsection \<open>Dependency flags\<close>

type_synonym SlotDependencyFlags = u8

definition SyncPriorityBoosted :: SlotDependencyFlags where "SyncPriorityBoosted = 1"
definition SyncPriorityHigh :: SlotDependencyFlags where "SyncPriorityHigh = 2"
definition SyncForOneStep :: SlotDependencyFlags where "SyncForOneStep = 4"
definition SyncIgnoreFlags :: SlotDependencyFlags where "SyncIgnoreFlags = 8"

definition SyncPriorityMask :: SlotDependencyFlags where
  "SyncPriorityMask = SyncPriorityBoosted OR SyncPriorityHigh"

lemmas sync_flags = SyncPriorityBoosted_def SyncPriorityHigh_def SyncForOneStep_def SyncIgnoreFlags_def
  SyncPriorityMask_def

definition HasLessPriorityThan :: "SlotDependencyFlags \<Rightarrow> SlotDependencyFlags \<Rightarrow> bool" where
  "HasLessPriorityThan v other \<longleftrightarrow> v AND SyncPriorityMask < other AND SyncPriorityMask"

definition flags_IsCompatibleWith :: "SlotDependencyFlags \<Rightarrow> SlotDependencyFlags \<Rightarrow> bool" where
  "flags_IsCompatibleWith v requiredFlags =
     (if requiredFlags = SyncIgnoreFlags then True
      else if v AND requiredFlags AND NOT SyncPriorityMask \<noteq> requiredFlags AND NOT SyncPriorityMask then False
      else \<not> HasLessPriorityThan v requiredFlags)"

lemma flags_IsCompatibleWith_refl [simp]: "flags_IsCompatibleWith v v"
  by (simp add: flags_IsCompatibleWith_def HasLessPriorityThan_def)

lemma flags_IsCompatibleWith_ignore [simp]: "flags_IsCompatibleWith v SyncIgnoreFlags"
  by (simp add: flags_IsCompatibleWith_def)

subsection \<open>Saturating adjustment of a limit\<close>

text \<open>Go's \<^verbatim>\<open>int\<close> has 64 bits: an addition wraps around.\<close>

definition wrap64 :: "int \<Rightarrow> int" where
  "wrap64 x = (x + 2 ^ 63) mod 2 ^ 64 - 2 ^ 63"

definition MinInt32 :: int where "MinInt32 = - 2147483648"
definition MaxInt32 :: int where "MaxInt32 = 2147483647"

definition applyWrappedAdjustment :: "int \<Rightarrow> int \<Rightarrow> int \<Rightarrow> int \<Rightarrow> bool \<Rightarrow> bool \<times> int" where
  "applyWrappedAdjustment current adjustment mn mx absolute =
     (if absolute then
        if current = adjustment then (False, current)
        else if adjustment < mn then (True, mn)
        else if adjustment > mx then (True, mx)
        else (True, adjustment)
      else if adjustment = 0 then (False, current)
      else if adjustment < 0 then
        let adjustment = wrap64 (adjustment + current) in
        if adjustment < mn \<or> adjustment > current then (True, mn) else (True, adjustment)
      else
        let adjustment = wrap64 (adjustment + current) in
        if adjustment > mx \<or> adjustment < current then (True, mx) else (True, adjustment))"

definition int64 :: "int \<Rightarrow> bool" where
  "int64 x \<longleftrightarrow> - (2 ^ 63) \<le> x \<and> x < 2 ^ 63"

definition limit_ok :: "int \<Rightarrow> bool" where
  "limit_ok x \<longleftrightarrow> MinInt32 \<le> x \<and> x \<le> MaxInt32"

definition clamp :: "int \<Rightarrow> int \<Rightarrow> int \<Rightarrow> int" where
  "clamp mn mx x = max mn (min mx x)"

lemma wrap64_cases:
  assumes "- (2 ^ 64) \<le> x" "x < 2 ^ 64"
  shows "wrap64 x = (if x < - (2 ^ 63) then x + 2 ^ 64 else if x < 2 ^ 63 then x else x - 2 ^ 64)"
proof -
  consider "x < - (2 ^ 63)" | "- (2 ^ 63) \<le> x \<and> x < 2 ^ 63" | "2 ^ 63 \<le> x" by linarith
  then show ?thesis
  proof cases
    case 1
    then have "(x + 2 ^ 63) mod 2 ^ 64 = x + 2 ^ 63 + 2 ^ 64"
      using assms mod_pos_pos_trivial [of "x + 2 ^ 63 + 2 ^ 64" "2 ^ 64"] by (simp only: mod_add_self2) simp
    with 1 show ?thesis by (simp add: wrap64_def)
  next
    case 2
    then have "(x + 2 ^ 63) mod 2 ^ 64 = x + 2 ^ 63" by (intro mod_pos_pos_trivial) auto
    with 2 show ?thesis by (simp add: wrap64_def)
  next
    case 3
    then have "(x + 2 ^ 63) mod 2 ^ 64 = x + 2 ^ 63 - 2 ^ 64"
      using assms mod_pos_pos_trivial [of "x + 2 ^ 63 - 2 ^ 64" "2 ^ 64"] by (simp only: minus_mod_self2) simp
    with 3 show ?thesis by (simp add: wrap64_def)
  qed
qed

text \<open>
  The adjustment saturates: whatever 64-bit adjustment is given, overflow included, the new limit is
  the requested one brought into the 32-bit range, and only the adjustments that ask for no change are
  reported as such.
\<close>

lemma applyWrappedAdjustment_absolute:
  "applyWrappedAdjustment current adjustment mn mx True =
     (if current = adjustment then (False, current)
      else (True, if adjustment < mn then mn else if adjustment > mx then mx else adjustment))"
  by (simp add: applyWrappedAdjustment_def)

lemma applyWrappedAdjustment_relative:
  assumes "limit_ok current" "int64 adjustment"
  shows "applyWrappedAdjustment current adjustment MinInt32 MaxInt32 False =
     (if adjustment = 0 then (False, current) else (True, clamp MinInt32 MaxInt32 (current + adjustment)))"
proof -
  have b: "- (2 ^ 64) \<le> adjustment + current" "adjustment + current < 2 ^ 64"
    using assms by (auto simp: limit_ok_def int64_def MinInt32_def MaxInt32_def)
  show ?thesis using assms wrap64_cases [OF b]
    by (auto simp: applyWrappedAdjustment_def clamp_def limit_ok_def int64_def MinInt32_def MaxInt32_def
        Let_def)
qed

definition adjusted :: "int \<Rightarrow> int \<Rightarrow> bool \<Rightarrow> int" where
  "adjusted current adjustment absolute =
     clamp MinInt32 MaxInt32 (if absolute then adjustment else current + adjustment)"

lemma adjusted_ok [simp]: "limit_ok (adjusted c a b)"
  by (auto simp: adjusted_def clamp_def limit_ok_def MinInt32_def MaxInt32_def)

lemma applyWrappedAdjustment_eq:
  assumes "limit_ok current" "int64 adjustment"
  shows "applyWrappedAdjustment current adjustment MinInt32 MaxInt32 absolute =
     ((if absolute then adjustment \<noteq> current else adjustment \<noteq> 0), adjusted current adjustment absolute)"
proof (cases absolute)
  case True
  with assms show ?thesis
    by (auto simp: applyWrappedAdjustment_absolute adjusted_def clamp_def limit_ok_def MinInt32_def MaxInt32_def)
next
  case False
  have "current = clamp MinInt32 MaxInt32 current"
    using assms by (auto simp: clamp_def limit_ok_def)
  with False applyWrappedAdjustment_relative [OF assms] show ?thesis
    by (auto simp: adjusted_def)
qed

text \<open>
  C37: a limit adjustment saturates.  For a current limit within the 32-bit range and any 64-bit
  adjustment, relative or absolute and even when the addition wraps around, the result is the requested
  limit clamped to the 32-bit range, and the adjustment is reported as ineffective exactly when it asks
  for the current limit.
\<close>
theorem adjustment_saturates:
  assumes "limit_ok current" "int64 adjustment"
  shows "fst (applyWrappedAdjustment current adjustment MinInt32 MaxInt32 absolute) =
       (if absolute then adjustment \<noteq> current else adjustment \<noteq> 0) \<and>
     snd (applyWrappedAdjustment current adjustment MinInt32 MaxInt32 absolute) =
       clamp MinInt32 MaxInt32 (if absolute then adjustment else current + adjustment)"
  using applyWrappedAdjustment_eq [OF assms] by (simp add: adjusted_def)

theorem adjustment_saturates_witness:
  "limit_ok 5 \<and> int64 9223372036854775807 \<and>
   applyWrappedAdjustment 5 9223372036854775807 MinInt32 MaxInt32 False = (True, 2147483647)"
  using adjustment_saturates [of 5 9223372036854775807 False]
  by (simp add: limit_ok_def int64_def MinInt32_def MaxInt32_def clamp_def prod_eq_iff)

end
