(* ===== verification/Sync_Queue.thy ===== *)
theory Sync_Queue
  imports Sync_Api
begin

text \<open>
  The dependency queues of \<^verbatim>\<open>conveyor/smachine/smsync/sync_queue.go\<close>.  An entry is a pointer, named by
  \<open>eid\<close>; the ring of entries that hangs off the head of a queue is the list \<open>items\<close> from
  \<^verbatim>\<open>head.nextInQueue\<close> on (the theory \<open>Sync_Links\<close> shows that the pointer operations on the ring are these
  list operations).  \<open>qinit\<close> tells whether \<^verbatim>\<open>initEmpty\<close> has closed the ring of the head.
\<close>

record dependencyQueueEntry =
  eid :: nat
  link :: SlotLink
  slotFlags :: SlotDependencyFlags
  stacker :: "nat option"

record dependencyQueueHead =
  items :: "dependencyQueueEntry list"
  boostHead :: "nat option"
  qcount :: int
  qflags :: u8
  qinit :: bool

definition QueueAllowsPriority :: u8 where "QueueAllowsPriority = 1"

definition newQueue :: "u8 \<Rightarrow> dependencyQueueHead" where
  "newQueue flags = \<lparr>items = [], boostHead = None, qcount = 0, qflags = flags, qinit = False\<rparr>"

abbreviation ids :: "dependencyQueueEntry list \<Rightarrow> nat list" where
  "ids \<equiv> map eid"

abbreviation valid_entry :: "slots \<Rightarrow> dependencyQueueEntry \<Rightarrow> bool" where
  "valid_entry sl e \<equiv> link_IsValid sl (link e)"

definition stepOf :: "slots \<Rightarrow> dependencyQueueEntry \<Rightarrow> StepLink" where
  "stepOf sl e = fst (GetStepLink sl (link e))"

subsection \<open>Reading\<close>

definition First :: "dependencyQueueHead \<Rightarrow> dependencyQueueEntry option" where
  "First q = (case items q of [] \<Rightarrow> None | e # es \<Rightarrow> Some e)"

definition Last :: "dependencyQueueHead \<Rightarrow> dependencyQueueEntry option" where
  "Last q = (if items q = [] then None else Some (last (items q)))"

definition q_IsZero :: "dependencyQueueHead \<Rightarrow> bool" where
  "q_IsZero q \<longleftrightarrow> \<not> qinit q"

definition q_IsEmpty :: "dependencyQueueHead \<Rightarrow> bool" where
  "q_IsEmpty q \<longleftrightarrow> \<not> qinit q \<or> items q = []"

fun nextAfter :: "nat \<Rightarrow> dependencyQueueEntry list \<Rightarrow> dependencyQueueEntry option" where
  "nextAfter i [] = None"
| "nextAfter i (e # es) = (if eid e = i then (case es of [] \<Rightarrow> None | f # fs \<Rightarrow> Some f) else nextAfter i es)"

definition contains :: "dependencyQueueHead \<Rightarrow> nat \<Rightarrow> bool" where
  "contains q i \<longleftrightarrow> i \<in> set (ids (items q))"

definition isEmptyOrFirst :: "dependencyQueueHead \<Rightarrow> SlotLink \<Rightarrow> bool" where
  "isEmptyOrFirst q l = (case First q of None \<Rightarrow> True | Some f \<Rightarrow> link f = l)"

text \<open>Enumeration with a callback that may stop it.\<close>

definition enumQueue ::
  "dependencyQueueHead \<Rightarrow> int \<Rightarrow> (int \<times> SlotLink \<times> SlotDependencyFlags \<Rightarrow> 's \<Rightarrow> bool \<times> 's) \<Rightarrow> 's \<Rightarrow> bool \<times> 's" where
  "enumQueue q qID fn s = run_until (\<lambda>e. fn (qID, link e, slotFlags e)) (items q) s"

subsection \<open>Adding and removing\<close>

fun insertBefore :: "nat \<Rightarrow> dependencyQueueEntry \<Rightarrow> dependencyQueueEntry list \<Rightarrow> dependencyQueueEntry list" where
  "insertBefore i e [] = [e]"
| "insertBefore i e (x # xs) = (if eid x = i then e # x # xs else x # insertBefore i e xs)"

definition addBefore :: "dependencyQueueHead \<Rightarrow> nat \<Rightarrow> dependencyQueueEntry \<Rightarrow> dependencyQueueHead" where
  "addBefore q i e = q\<lparr>items := insertBefore i e (items q), qcount := qcount q + 1, qinit := True\<rparr>"

definition AddLast :: "dependencyQueueHead \<Rightarrow> dependencyQueueEntry \<Rightarrow> dependencyQueueHead" where
  "AddLast q e = q\<lparr>items := items q @ [e], qcount := qcount q + 1, qinit := True\<rparr>"

text \<open>\<^verbatim>\<open>AddFirst\<close> reads \<^verbatim>\<open>head.nextInQueue\<close> before the ring is closed, so a queue that was never used panics.\<close>

definition AddFirst :: "dependencyQueueHead \<Rightarrow> dependencyQueueEntry \<Rightarrow> dependencyQueueHead res" where
  "AddFirst q e =
     (if \<not> qinit q then Panic ''nil pointer dereference''
      else Ok (q\<lparr>items := e # items q, qcount := qcount q + 1\<rparr>))"

definition removeFromQueue :: "dependencyQueueHead \<Rightarrow> nat \<Rightarrow> dependencyQueueHead" where
  "removeFromQueue q i =
     q\<lparr>items := filter (\<lambda>e. eid e \<noteq> i) (items q),
       boostHead := (if boostHead q = Some i then map_option eid (nextAfter i (items q)) else boostHead q),
       qcount := qcount q - 1\<rparr>"

definition addSlot_with ::
  "slots \<Rightarrow> dependencyQueueHead \<Rightarrow> dependencyQueueEntry \<Rightarrow> bool \<Rightarrow> bool
   \<Rightarrow> (dependencyQueueHead \<times> dependencyQueueEntry) res" where
  "addSlot_with sl q e skipFirst addFirst =
     (if \<not> link_IsValid sl (link e) then Panic ''illegal value''
      else if slotFlags e AND SyncIgnoreFlags = SyncIgnoreFlags then Panic ''illegal value''
      else if qflags q AND QueueAllowsPriority = 0 then
        let e = e\<lparr>slotFlags := slotFlags e AND NOT SyncPriorityMask\<rparr> in Ok (AddLast q e, e)
      else if slotFlags e AND SyncPriorityHigh \<noteq> 0 \<or> addFirst then
        (case items q of [] \<Rightarrow> Ok (AddLast q e, e)
         | f # fs \<Rightarrow>
             if skipFirst then
               (case fs of [] \<Rightarrow> Ok (AddLast q e, e) | f' # fs' \<Rightarrow> Ok (addBefore q (eid f') e, e))
             else Ok (addBefore q (eid f) e, e))
      else if slotFlags e AND SyncPriorityBoosted \<noteq> 0 then
        (case boostHead q of None \<Rightarrow> Ok (AddLast q e, e)
         | Some b \<Rightarrow>
             if skipFirst \<and> map_option eid (First q) = Some b then Ok (AddLast q e, e)
             else Ok (addBefore q b e, e))
      else
        let q' = (if boostHead q = None then q\<lparr>boostHead := Some (eid e)\<rparr> else q) in Ok (AddLast q' e, e))"

definition newEntry :: "nat \<Rightarrow> SlotLink \<Rightarrow> SlotDependencyFlags \<Rightarrow> nat option \<Rightarrow> dependencyQueueEntry" where
  "newEntry i l flags st = \<lparr>eid = i, link = l, slotFlags = flags, stacker = st\<rparr>"

definition addSlotWithPriority ::
  "slots \<Rightarrow> dependencyQueueHead \<Rightarrow> dependencyQueueEntry \<Rightarrow> bool \<Rightarrow> (dependencyQueueHead \<times> dependencyQueueEntry) res" where
  "addSlotWithPriority sl q e addFirst = addSlot_with sl q e False addFirst"

definition AddSlot ::
  "slots \<Rightarrow> nat \<Rightarrow> dependencyQueueHead \<Rightarrow> SlotLink \<Rightarrow> SlotDependencyFlags \<Rightarrow> nat option
   \<Rightarrow> (dependencyQueueHead \<times> dependencyQueueEntry) res" where
  "AddSlot sl i q l flags st = addSlotWithPriority sl q (newEntry i l flags st) False"

definition addSlotForExclusive ::
  "slots \<Rightarrow> nat \<Rightarrow> dependencyQueueHead \<Rightarrow> SlotLink \<Rightarrow> SlotDependencyFlags
   \<Rightarrow> (dependencyQueueHead \<times> dependencyQueueEntry) res" where
  "addSlotForExclusive sl i q l flags = addSlot_with sl q (newEntry i l flags None) True False"

subsection \<open>Loops over a queue\<close>

text \<open>
  \<^verbatim>\<open>FirstValid\<close> drops the entries of dead slots from the front.  \<^verbatim>\<open>CutHeadOut\<close> and \<^verbatim>\<open>CutTailOut\<close> remove
  entries one by one and give each to a callback that tells whether to go on; the callback works on
  the state of its caller and may panic.
\<close>

lemma filter_neq_less:
  "x \<in> set es \<Longrightarrow> length (filter (\<lambda>y. eid y \<noteq> eid x) es) < length es"
  by (intro length_filter_less) auto

function FirstValid :: "slots \<Rightarrow> dependencyQueueHead \<Rightarrow> dependencyQueueHead \<times> (dependencyQueueEntry \<times> StepLink) option" where
  "FirstValid sl q =
     (case First q of None \<Rightarrow> (q, None)
      | Some f \<Rightarrow> (case GetStepLink sl (link f) of (stp, ok) \<Rightarrow>
          if ok then (q, Some (f, stp)) else FirstValid sl (removeFromQueue q (eid f))))"
  by pat_completeness auto
termination
  by (relation "measure (\<lambda>(sl, q). length (items q))")
    (auto simp: First_def removeFromQueue_def intro: le_imp_less_Suc length_filter_le split: list.splits)

function CutHeadOut ::
  "(dependencyQueueEntry \<Rightarrow> 's \<Rightarrow> (bool \<times> 's) res) \<Rightarrow> dependencyQueueHead \<Rightarrow> 's \<Rightarrow> (dependencyQueueHead \<times> 's) res" where
  "CutHeadOut fn q s =
     (case First q of None \<Rightarrow> Ok (q, s)
      | Some e \<Rightarrow> let q' = removeFromQueue q (eid e) in
          bnd (fn e s) (\<lambda>(more, s'). if more then CutHeadOut fn q' s' else Ok (q', s')))"
  by pat_completeness auto
termination
  by (relation "measure (\<lambda>(fn, q, s). length (items q))")
    (auto simp: First_def removeFromQueue_def intro: le_imp_less_Suc length_filter_le split: list.splits)

function CutTailOut ::
  "(dependencyQueueEntry \<Rightarrow> 's \<Rightarrow> (bool \<times> 's) res) \<Rightarrow> dependencyQueueHead \<Rightarrow> 's \<Rightarrow> (dependencyQueueHead \<times> 's) res" where
  "CutTailOut fn q s =
     (case Last q of None \<Rightarrow> Ok (q, s)
      | Some e \<Rightarrow> let q' = removeFromQueue q (eid e) in
          bnd (fn e s) (\<lambda>(more, s'). if more then CutTailOut fn q' s' else Ok (q', s')))"
  by pat_completeness auto
termination
  by (relation "measure (\<lambda>(fn, q, s). length (items q))")
    (auto simp: Last_def removeFromQueue_def intro!: filter_neq_less split: if_splits)

function flushLoop :: "slots \<Rightarrow> dependencyQueueHead \<Rightarrow> StepLink list \<Rightarrow> dependencyQueueHead \<times> StepLink list" where
  "flushLoop sl q deps =
     (case First q of None \<Rightarrow> (q, deps)
      | Some e \<Rightarrow> let q' = removeFromQueue q (eid e) in
          (case GetStepLink sl (link e) of (stp, ok) \<Rightarrow>
            flushLoop sl q' (if ok then deps @ [stp] else deps)))"
  by pat_completeness auto
termination
  by (relation "measure (\<lambda>(sl, q, deps). length (items q))")
    (auto simp: First_def removeFromQueue_def intro: le_imp_less_Suc length_filter_le split: list.splits)

definition FlushAllAsLinks :: "slots \<Rightarrow> dependencyQueueHead \<Rightarrow> dependencyQueueHead \<times> StepLink list" where
  "FlushAllAsLinks sl q = (if qcount q = 0 then (q, []) else flushLoop sl q [])"

declare FirstValid.simps [simp del] CutHeadOut.simps [simp del] CutTailOut.simps [simp del] flushLoop.simps [simp del]

text \<open>\<^verbatim>\<open>IsCompatibleWith\<close> of an entry reads the flags of its queue, which is nil after a removal.\<close>

definition entry_IsCompatibleWith ::
  "dependencyQueueHead option \<Rightarrow> SlotDependencyFlags \<Rightarrow> SlotDependencyFlags \<Rightarrow> bool res" where
  "entry_IsCompatibleWith qo f requiredFlags =
     (if requiredFlags = SyncIgnoreFlags then Ok True
      else if requiredFlags AND SyncPriorityMask = 0 then Ok (flags_IsCompatibleWith f requiredFlags)
      else case qo of None \<Rightarrow> Panic ''nil pointer dereference''
        | Some q \<Rightarrow>
            Ok (flags_IsCompatibleWith f
                  (if qflags q AND QueueAllowsPriority = 0 then requiredFlags AND NOT SyncPriorityMask
                   else requiredFlags)))"

subsection \<open>The invariant of a queue\<close>

definition q_ok :: "dependencyQueueHead \<Rightarrow> bool" where
  "q_ok q \<longleftrightarrow> distinct (ids (items q)) \<and> qcount q = int (length (items q)) \<and> (items q \<noteq> [] \<longrightarrow> qinit q) \<and>
     (\<forall>b. boostHead q = Some b \<longrightarrow> b \<in> set (ids (items q)))"

named_theorems queue_simps "what the queue operations do to the fields of a queue"

lemma items_newQueue [queue_simps]:
  "items (newQueue f) = []" "qflags (newQueue f) = f" "boostHead (newQueue f) = None" "qcount (newQueue f) = 0"
  by (simp_all add: newQueue_def)

lemma q_ok_newQueue [simp]: "q_ok (newQueue f)"
  by (simp add: q_ok_def newQueue_def)

lemma q_okD [dest]: "q_ok q \<Longrightarrow> distinct (ids (items q))"
  by (simp add: q_ok_def)

lemma q_ok_count [queue_simps]: "q_ok q \<Longrightarrow> qcount q = int (length (items q))"
  by (simp add: q_ok_def)

lemma q_IsEmpty_iff: "q_ok q \<Longrightarrow> q_IsEmpty q \<longleftrightarrow> items q = []"
  by (auto simp: q_IsEmpty_def q_ok_def)

lemma filter_other_id: "i \<notin> set (ids es) \<Longrightarrow> filter (\<lambda>e. eid e \<noteq> i) es = es"
  by (induction es) auto

lemma filter_eid_Cons: "distinct (ids (e # es)) \<Longrightarrow> filter (\<lambda>x. eid x \<noteq> eid e) (e # es) = es"
  by (simp add: filter_other_id)

lemma ids_filter_neq: "set (ids (filter (\<lambda>e. eid e \<noteq> i) es)) = set (ids es) - {i}"
  by auto

lemma nextAfter_mem: "nextAfter i es = Some e \<Longrightarrow> distinct (ids es) \<Longrightarrow> e \<in> set es \<and> eid e \<noteq> i"
  by (induction es) (auto split: if_splits list.splits)

lemma length_filter_eid:
  "distinct (ids es) \<Longrightarrow> i \<in> set (ids es) \<Longrightarrow> Suc (length (filter (\<lambda>e. eid e \<noteq> i) es)) = length es"
  by (induction es) (auto simp: filter_other_id)

lemma items_removeFromQueue [queue_simps]:
  "items (removeFromQueue q i) = filter (\<lambda>e. eid e \<noteq> i) (items q)"
  "qflags (removeFromQueue q i) = qflags q" "qinit (removeFromQueue q i) = qinit q"
  by (simp_all add: removeFromQueue_def)

lemma removeFromQueue_ok:
  assumes "q_ok q" "contains q i" shows "q_ok (removeFromQueue q i)"
proof -
  have "int (length (filter (\<lambda>e. eid e \<noteq> i) (items q))) = qcount q - 1"
    using assms length_filter_eid [of "items q" i] by (simp add: q_ok_def contains_def)
  moreover have "b \<in> set (ids (filter (\<lambda>e. eid e \<noteq> i) (items q)))"
    if "boostHead (removeFromQueue q i) = Some b" for b
    using that assms nextAfter_mem [of i "items q"]
    by (fastforce simp: removeFromQueue_def q_ok_def split: if_splits)
  ultimately show ?thesis using assms
    by (auto simp: q_ok_def removeFromQueue_def distinct_map inj_on_def)
qed

lemma items_AddLast [queue_simps]:
  "items (AddLast q e) = items q @ [e]" "qflags (AddLast q e) = qflags q" "boostHead (AddLast q e) = boostHead q"
  "qinit (AddLast q e) = True"
  by (simp_all add: AddLast_def)

lemma AddLast_ok: "q_ok q \<Longrightarrow> eid e \<notin> set (ids (items q)) \<Longrightarrow> q_ok (AddLast q e)"
  by (auto simp: q_ok_def AddLast_def)

lemma mset_insertBefore: "set (insertBefore i e es) = insert e (set es)" "length (insertBefore i e es) = Suc (length es)"
  by (induction es) auto

lemma ids_insertBefore: "eid e \<notin> set (ids es) \<Longrightarrow> distinct (ids es) \<Longrightarrow> distinct (ids (insertBefore i e es))"
  by (induction es) (auto simp: mset_insertBefore)

lemma insertBefore_split:
  "i \<notin> set (ids as) \<Longrightarrow> eid b = i \<Longrightarrow> insertBefore i e (as @ b # bs) = as @ e # b # bs"
  by (induction as) auto

lemma addBefore_ok: "q_ok q \<Longrightarrow> eid e \<notin> set (ids (items q)) \<Longrightarrow> q_ok (addBefore q i e)"
  by (auto simp: q_ok_def addBefore_def mset_insertBefore ids_insertBefore)

lemma items_AddFirst:
  "q_ok q \<Longrightarrow> eid e \<notin> set (ids (items q)) \<Longrightarrow> AddFirst q e = Ok q' \<Longrightarrow> q_ok q' \<and> items q' = e # items q \<and> qflags q' = qflags q"
  by (auto simp: q_ok_def AddFirst_def split: if_splits)

text \<open>Whatever the flags, a successful addition keeps the invariant, and adds one entry with the given link and identity.\<close>

lemma addSlot_with_cases:
  assumes "addSlot_with sl q e sf af = Ok (q', e')"
  shows "link_IsValid sl (link e) \<and> eid e' = eid e \<and> link e' = link e \<and> stacker e' = stacker e \<and>
     (q' = AddLast q e' \<or> q' = AddLast (q\<lparr>boostHead := Some (eid e)\<rparr>) e' \<or> (\<exists>i. q' = addBefore q i e'))"
  using assms by (auto simp: addSlot_with_def Let_def split: if_splits list.splits option.splits)

lemma AddLast_boost_ok:
  "q_ok q \<Longrightarrow> eid e \<notin> set (ids (items q)) \<Longrightarrow> q_ok (AddLast (q\<lparr>boostHead := Some (eid e)\<rparr>) e)"
  by (auto simp: q_ok_def AddLast_def)

lemma addSlot_with_ok:
  assumes "addSlot_with sl q e sf af = Ok (q', e')" "q_ok q" "eid e \<notin> set (ids (items q))"
  shows "q_ok q' \<and> eid e' = eid e \<and> link e' = link e \<and> stacker e' = stacker e \<and> link_IsValid sl (link e) \<and>
     set (items q') = insert e' (set (items q)) \<and> length (items q') = Suc (length (items q)) \<and> qflags q' = qflags q"
  using addSlot_with_cases [OF assms(1)] assms(2-)
  using AddLast_boost_ok [of q e']
  by (auto simp: AddLast_ok addBefore_ok queue_simps) (auto simp: addBefore_def mset_insertBefore)

lemma addSlot_with_total:
  "link_IsValid sl (link e) \<Longrightarrow> slotFlags e AND SyncIgnoreFlags = 0 \<Longrightarrow> is_ok (addSlot_with sl q e sf af)"
  by (simp add: addSlot_with_def sync_flags Let_def split: list.splits option.splits)

subsection \<open>What the loops do\<close>

lemma First_Some: "First q = Some f \<longleftrightarrow> (\<exists>fs. items q = f # fs)"
  by (auto simp: First_def split: list.splits)

lemma First_None: "First q = None \<longleftrightarrow> items q = []"
  by (auto simp: First_def split: list.splits)

lemma removeFirst:
  assumes "q_ok q" "items q = f # fs"
  shows "q_ok (removeFromQueue q (eid f))" "items (removeFromQueue q (eid f)) = fs"
  using assms removeFromQueue_ok [of q "eid f"] by (auto simp: contains_def queue_simps filter_other_id q_ok_def)

lemma GetStepLink_pair: "GetStepLink sl (link e) = (stepOf sl e, valid_entry sl e)"
  by (simp add: stepOf_def GetStepLink_valid [symmetric] del: GetStepLink_valid)

lemma FirstValid_Cons:
  "items q = f # fs \<Longrightarrow> FirstValid sl q =
     (if valid_entry sl f then (q, Some (f, stepOf sl f)) else FirstValid sl (removeFromQueue q (eid f)))"
  by (simp add: FirstValid.simps [of sl q] First_def GetStepLink_pair)

lemma FirstValid_Nil: "items q = [] \<Longrightarrow> FirstValid sl q = (q, None)"
  by (simp add: FirstValid.simps [of sl q] First_def)

lemma FirstValid_spec:
  assumes "q_ok q" "FirstValid sl q = (q', r)"
  shows "q_ok q' \<and> items q' = dropWhile (\<lambda>e. \<not> valid_entry sl e) (items q) \<and> qflags q' = qflags q \<and>
     qinit q' = qinit q \<and> r = (case items q' of [] \<Rightarrow> None | f # fs \<Rightarrow> Some (f, stepOf sl f))"
  using assms
proof (induction "items q" arbitrary: q)
  case Nil
  then show ?case by (simp add: FirstValid_Nil)
next
  case (Cons f fs)
  note rm = removeFirst [OF Cons(3) Cons(2) [symmetric]]
  show ?case
  proof (cases "valid_entry sl f")
    case True
    with Cons(4) have "q' = q" "r = Some (f, stepOf sl f)" by (simp_all add: FirstValid_Cons [OF Cons(2) [symmetric]])
    with True Cons(3) show ?thesis by (simp add: Cons(2) [symmetric])
  next
    case False
    with Cons(4) have "FirstValid sl (removeFromQueue q (eid f)) = (q', r)"
      by (simp add: FirstValid_Cons [OF Cons(2) [symmetric]])
    from Cons(1) [OF rm(2) [symmetric] rm(1) this] False rm(2) show ?thesis
      by (simp add: Cons(2) [symmetric] queue_simps)
  qed
qed

text \<open>
  \<^verbatim>\<open>CutHeadOut\<close> with a callback that always goes on gives every entry to it, in order, and leaves an empty
  queue; \<^verbatim>\<open>flushLoop\<close> is the case of the callback that collects the links of the live slots.
\<close>

lemma CutHeadOut_Cons:
  "items q = f # fs \<Longrightarrow> CutHeadOut fn q s =
     bnd (fn f s) (\<lambda>(more, s'). if more then CutHeadOut fn (removeFromQueue q (eid f)) s'
                              else Ok (removeFromQueue q (eid f), s'))"
  by (simp add: CutHeadOut.simps [of fn q] First_def Let_def)

lemma CutHeadOut_Nil: "items q = [] \<Longrightarrow> CutHeadOut fn q s = Ok (q, s)"
  by (simp add: CutHeadOut.simps [of fn q] First_def)

lemma Last_Some: "q_ok q \<Longrightarrow> items q = fs @ [f] \<Longrightarrow>
   q_ok (removeFromQueue q (eid f)) \<and> items (removeFromQueue q (eid f)) = fs"
  using removeFromQueue_ok [of q "eid f"] by (auto simp: contains_def queue_simps filter_other_id q_ok_def)

lemma CutTailOut_snoc:
  "items q = fs @ [f] \<Longrightarrow> CutTailOut fn q s =
     bnd (fn f s) (\<lambda>(more, s'). if more then CutTailOut fn (removeFromQueue q (eid f)) s'
                              else Ok (removeFromQueue q (eid f), s'))"
  by (simp add: CutTailOut.simps [of fn q] Last_def Let_def)

lemma CutTailOut_Nil: "items q = [] \<Longrightarrow> CutTailOut fn q s = Ok (q, s)"
  by (simp add: CutTailOut.simps [of fn q] Last_def)

lemma flushLoop_spec:
  assumes "q_ok q" "flushLoop sl q deps = (q', deps')"
  shows "q_ok q' \<and> items q' = [] \<and> qflags q' = qflags q \<and> deps' = deps @ map (stepOf sl) (filter (valid_entry sl) (items q))"
  using assms
proof (induction "items q" arbitrary: q deps)
  case Nil
  then show ?case by (simp add: flushLoop.simps [of sl q] First_def)
next
  case (Cons f fs)
  note rm = removeFirst [OF Cons(3) Cons(2) [symmetric]]
  have "flushLoop sl (removeFromQueue q (eid f)) (if valid_entry sl f then deps @ [stepOf sl f] else deps) = (q', deps')"
    using Cons(4) by (simp add: flushLoop.simps [of sl q] First_def Cons(2) [symmetric] GetStepLink_pair)
  from Cons(1) [OF rm(2) [symmetric] rm(1) this] rm(2) show ?case
    by (simp add: Cons(2) [symmetric] items_removeFromQueue(2))
qed

lemma FlushAllAsLinks_spec:
  assumes "q_ok q" "FlushAllAsLinks sl q = (q', deps)"
  shows "q_ok q' \<and> items q' = [] \<and> qflags q' = qflags q \<and> deps = map (stepOf sl) (filter (valid_entry sl) (items q))"
  using assms flushLoop_spec [of q sl "[]" q' deps]
  by (auto simp: FlushAllAsLinks_def queue_simps split: if_splits)

subsection \<open>Priorities\<close>

text \<open>
  In a queue that allows priorities the entries of high priority come first, then the boosted ones,
  then the others, and \<open>boostHead\<close> is the first entry without priority.
\<close>

definition prioClass :: "dependencyQueueEntry \<Rightarrow> nat" where
  "prioClass e = (if slotFlags e AND SyncPriorityHigh \<noteq> 0 then 2 else if slotFlags e AND SyncPriorityBoosted \<noteq> 0 then 1 else 0)"

definition prio_ok :: "dependencyQueueHead \<Rightarrow> bool" where
  "prio_ok q \<longleftrightarrow> q_ok q \<and> qflags q AND QueueAllowsPriority \<noteq> 0 \<and>
     sorted_wrt (\<lambda>a b. prioClass a \<ge> prioClass b) (items q) \<and>
     boostHead q = map_option eid (find (\<lambda>e. prioClass e = 0) (items q))"

lemma find_append: "find P (xs @ ys) = (case find P xs of None \<Rightarrow> find P ys | Some x \<Rightarrow> Some x)"
  by (induction xs) auto

lemma prio_split:
  assumes "sorted_wrt (\<lambda>a b. prioClass a \<ge> prioClass b) es"
  shows "dropWhile (\<lambda>e. prioClass e > 0) es = filter (\<lambda>e. prioClass e = 0) es"
    and "takeWhile (\<lambda>e. prioClass e > 0) es = filter (\<lambda>e. prioClass e > 0) es"
  using assms by (induction es) (auto simp: filter_id_conv filter_empty_conv intro!: sym [OF filter_True])

lemma find_filter: "find P es = (case filter P es of [] \<Rightarrow> None | e # _ \<Rightarrow> Some e)"
  by (induction es) auto

lemma prio_boostHead:
  assumes "prio_ok q" "boostHead q = Some b"
  obtains e es where "items q = filter (\<lambda>e. prioClass e > 0) (items q) @ e # es" "eid e = b"
    "filter (\<lambda>e. prioClass e = 0) (items q) = e # es"
proof -
  have "sorted_wrt (\<lambda>a b. prioClass a \<ge> prioClass b) (items q)" using assms by (simp add: prio_ok_def)
  note sp = prio_split [OF this]
  obtain e es where e: "filter (\<lambda>e. prioClass e = 0) (items q) = e # es" "eid e = b"
    using assms by (auto simp: prio_ok_def find_filter split: list.splits)
  have "items q = filter (\<lambda>e. prioClass e > 0) (items q) @ e # es"
    using takeWhile_dropWhile_id [of "\<lambda>e. prioClass e > 0" "items q"] sp e by simp
  with e that show ?thesis by blast
qed

text \<open>Where a new entry goes: to the front, behind the other entries with priority, or to the end.\<close>

definition placed :: "dependencyQueueEntry \<Rightarrow> dependencyQueueEntry list \<Rightarrow> dependencyQueueEntry list" where
  "placed e es =
     (if prioClass e = 2 then e # es
      else if prioClass e = 1 then filter (\<lambda>x. prioClass x > 0) es @ e # filter (\<lambda>x. prioClass x = 0) es
      else es @ [e])"

lemma prioClass_le_2: "prioClass e \<le> 2"
  by (simp add: prioClass_def)

lemma sorted_placed:
  assumes "sorted_wrt (\<lambda>a b. prioClass a \<ge> prioClass b) es"
  shows "sorted_wrt (\<lambda>a b. prioClass a \<ge> prioClass b) (placed e es)"
proof -
  have "prioClass x = 0 \<or> prioClass x = 1 \<or> prioClass x = 2" for x by (simp add: prioClass_def)
  with assms prioClass_le_2 show ?thesis
    by (auto simp: placed_def sorted_wrt_append intro: sorted_wrt_filter) (metis le0 le_numeral_extra(4) less_numeral_extra(3))
qed

lemma addSlot_with_placed:
  assumes "prio_ok q" "eid e \<notin> set (ids (items q))" "addSlot_with sl q e False False = Ok (q', e')"
  shows "e' = e \<and> items q' = placed e (items q) \<and>
     boostHead q' = (if prioClass e = 0 \<and> boostHead q = None then Some (eid e) else boostHead q)"
proof -
  have allows: "qflags q AND QueueAllowsPriority \<noteq> 0" using assms(1) by (simp add: prio_ok_def)
  consider "prioClass e = 2" | "prioClass e = 1" | "prioClass e = 0" unfolding prioClass_def by presburger
  then show ?thesis
  proof cases
    case 1
    then have "slotFlags e AND SyncPriorityHigh \<noteq> 0" by (auto simp: prioClass_def split: if_splits)
    with assms(3) allows 1 show ?thesis
      by (auto simp: addSlot_with_def placed_def queue_simps addBefore_def split: if_splits list.splits)
  next
    case 2
    then have f: "slotFlags e AND SyncPriorityHigh = 0" "slotFlags e AND SyncPriorityBoosted \<noteq> 0"
      by (auto simp: prioClass_def split: if_splits)
    show ?thesis
    proof (cases "boostHead q")
      case None
      then have "filter (\<lambda>x. prioClass x = 0) (items q) = []"
        using assms(1) by (auto simp: prio_ok_def find_filter split: list.splits)
      moreover from this have "filter (\<lambda>x. prioClass x > 0) (items q) = items q"
        by (auto simp: filter_id_conv filter_empty_conv)
      ultimately show ?thesis using assms(3) allows 2 f None
        by (auto simp: addSlot_with_def placed_def queue_simps split: if_splits)
    next
      case (Some b)
      obtain x xs where x: "items q = filter (\<lambda>e. prioClass e > 0) (items q) @ x # xs" "eid x = b"
        "filter (\<lambda>e. prioClass e = 0) (items q) = x # xs" using prio_boostHead [OF assms(1) Some] .
      have "distinct (ids (filter (\<lambda>e. prioClass e > 0) (items q) @ x # xs))"
        using assms(1) x(1) by (metis prio_ok_def q_ok_def)
      then have "b \<notin> set (ids (filter (\<lambda>e. prioClass e > 0) (items q)))" using x(2) by auto
      from insertBefore_split [OF this x(2)]
      have "insertBefore b e (items q) = filter (\<lambda>e. prioClass e > 0) (items q) @ e # x # xs" by (metis x(1))
      then have "insertBefore b e (items q) = placed e (items q)" using 2 x(3) by (simp add: placed_def)
      with assms(3) allows 2 f Some show ?thesis
        by (auto simp: addSlot_with_def addBefore_def split: if_splits)
    qed
  next
    case 3
    then have "slotFlags e AND SyncPriorityHigh = 0" "slotFlags e AND SyncPriorityBoosted = 0"
      by (auto simp: prioClass_def split: if_splits)
    with assms(3) allows 3 show ?thesis
      by (auto simp: addSlot_with_def placed_def queue_simps Let_def split: if_splits)
  qed
qed

lemma find_placed:
  "find (\<lambda>x. prioClass x = 0) (placed e es) =
     (if prioClass e = 0 \<and> find (\<lambda>x. prioClass x = 0) es = None then Some e else find (\<lambda>x. prioClass x = 0) es)"
proof -
  have "filter (\<lambda>x. 0 < prioClass x \<and> prioClass x = 0) es = []" by (auto simp: filter_empty_conv)
  then show ?thesis by (auto simp: placed_def find_append find_filter split: list.splits option.splits)
qed

lemma addSlot_with_prio_ok:
  assumes "prio_ok q" "eid e \<notin> set (ids (items q))" "addSlot_with sl q e False False = Ok (q', e')"
  shows "prio_ok q'"
  using assms addSlot_with_placed [OF assms] addSlot_with_ok [OF assms(3)] sorted_placed [of "items q" e]
  by (auto simp: prio_ok_def find_placed)

lemma find_mem: "find P xs = Some x \<Longrightarrow> x \<in> set xs \<and> P x"
  by (induction xs) (auto split: if_splits)

lemma nextAfter_find:
  assumes "distinct (ids es)" "find (\<lambda>x. prioClass x = 0) es = Some e" "sorted_wrt (\<lambda>a b. prioClass a \<ge> prioClass b) es"
  shows "nextAfter (eid e) es = find (\<lambda>x. prioClass x = 0) (filter (\<lambda>x. eid x \<noteq> eid e) es)"
  using assms
proof (induction es)
  case (Cons a es)
  show ?case
  proof (cases "prioClass a = 0")
    case True
    with Cons(2-) show ?thesis by (cases es) (auto simp: filter_other_id)
  next
    case False
    with Cons(3) find_mem [of _ es e] have "e \<in> set es" by simp
    with Cons False show ?thesis by auto
  qed
qed simp

lemma removeFromQueue_prio_ok:
  assumes "prio_ok q" "contains q i" shows "prio_ok (removeFromQueue q i)"
proof -
  let ?f = "find (\<lambda>x. prioClass x = 0)"
  have q: "q_ok q" "sorted_wrt (\<lambda>a b. prioClass a \<ge> prioClass b) (items q)" "boostHead q = map_option eid (?f (items q))"
    using assms by (simp_all add: prio_ok_def)
  have "?f (filter (\<lambda>x. eid x \<noteq> i) es) = ?f es" if "map_option eid (?f es) \<noteq> Some i" for es
    using that by (induction es) auto
  then have "boostHead (removeFromQueue q i) = map_option eid (?f (filter (\<lambda>x. eid x \<noteq> i) (items q)))"
    using q nextAfter_find [of "items q"] by (auto simp: removeFromQueue_def q_ok_def)
  with q assms removeFromQueue_ok [of q i] show ?thesis
    by (auto simp: prio_ok_def queue_simps intro: sorted_wrt_filter)
qed

lemma FirstValid_prio_ok: "prio_ok q \<Longrightarrow> prio_ok (fst (FirstValid sl q))"
proof (induction "items q" arbitrary: q)
  case Nil
  then show ?case by (simp add: FirstValid_Nil)
next
  case (Cons f fs)
  then have "q_ok q" "contains q (eid f)" by (auto simp: prio_ok_def contains_def Cons(2) [symmetric])
  with Cons(1) [OF removeFirst(2) [symmetric]] Cons(2,3) removeFromQueue_prio_ok show ?case
    by (simp add: FirstValid_Cons [OF Cons(2) [symmetric]])
qed

text \<open>The queues that the operations used by the semaphores build from an empty queue with priorities.\<close>

inductive prio_reach :: "dependencyQueueHead \<Rightarrow> bool" where
  pr_new: "f AND QueueAllowsPriority \<noteq> 0 \<Longrightarrow> prio_reach (newQueue f)"
| pr_add: "prio_reach q \<Longrightarrow> \<not> contains q i \<Longrightarrow> AddSlot sl i q l flags st = Ok (q', e) \<Longrightarrow> prio_reach q'"
| pr_remove: "prio_reach q \<Longrightarrow> contains q i \<Longrightarrow> prio_reach (removeFromQueue q i)"
| pr_valid: "prio_reach q \<Longrightarrow> prio_reach (fst (FirstValid sl q))"

lemma prio_reach_ok: "prio_reach q \<Longrightarrow> prio_ok q"
proof (induction rule: prio_reach.induct)
  case (pr_new f)
  then show ?case by (simp add: prio_ok_def queue_simps)
next
  case (pr_add q i sl l flags st q' e)
  then show ?case
    using addSlot_with_prio_ok [of q "newEntry i l flags st"]
    by (simp add: AddSlot_def addSlotWithPriority_def newEntry_def contains_def)
qed (simp_all add: removeFromQueue_prio_ok FirstValid_prio_ok)

text \<open>
  C22: priorities of a wait queue.  In a queue with priorities that was filled by \<^verbatim>\<open>AddSlot\<close> only and emptied by removals and
  by \<^verbatim>\<open>FirstValid\<close> in any order, entries stand by class: those of high priority before the boosted ones, these before the rest.
  A new entry of high priority goes to the very front, a boosted one behind all entries with priority
  and before all others, any other one to the end.  Queues that also get entries by \<^verbatim>\<open>AddFirst\<close>, \<^verbatim>\<open>AddLast\<close> or the prioritizing of partial
  acquisitions are not covered.
\<close>
theorem queue_serves_by_priority:
  assumes "prio_reach q" "\<not> contains q i" "AddSlot sl i q l flags st = Ok (q', e)"
  shows "items q' =
      (if flags AND SyncPriorityHigh \<noteq> 0 then e # items q
       else if flags AND SyncPriorityBoosted \<noteq> 0
         then filter (\<lambda>x. prioClass x > 0) (items q) @ e # filter (\<lambda>x. prioClass x = 0) (items q)
       else items q @ [e]) \<and>
    sorted_wrt (\<lambda>a b. prioClass a \<ge> prioClass b) (items q') \<and> e = newEntry i l flags st"
proof -
  have a: "addSlot_with sl q (newEntry i l flags st) False False = Ok (q', e)"
    using assms(3) by (simp add: AddSlot_def addSlotWithPriority_def)
  have i: "eid (newEntry i l flags st) \<notin> set (ids (items q))"
    using assms(2) by (simp add: contains_def newEntry_def)
  note q = prio_reach_ok [OF assms(1)]
  have s: "sorted_wrt (\<lambda>a b. prioClass a \<ge> prioClass b) (items q')"
    using addSlot_with_prio_ok [OF q i a] by (simp add: prio_ok_def)
  have e: "e = newEntry i l flags st" "items q' = placed e (items q)"
    using addSlot_with_placed [OF q i a] by simp_all
  have "prioClass e = (if flags AND SyncPriorityHigh \<noteq> 0 then 2 else if flags AND SyncPriorityBoosted \<noteq> 0 then 1 else 0)"
    by (simp add: e(1) prioClass_def newEntry_def)
  with s e show ?thesis by (simp add: placed_def)
qed

theorem queue_serves_by_priority_witness:
  "\<exists>q' e. AddSlot (\<lambda>n. (7, 1, False)) 5 (newQueue 1) \<lparr>link_id = 7, link_s = Some 0\<rparr> SyncPriorityHigh None = Ok (q', e) \<and>
     items q' = [e] \<and> prio_reach (newQueue 1) \<and> \<not> contains (newQueue 1) 5"
proof -
  have n: "prio_reach (newQueue 1)" by (rule pr_new) (simp add: QueueAllowsPriority_def)
  have c: "\<not> contains (newQueue 1) 5" by (simp add: contains_def newQueue_def)
  obtain q' e where a:
    "AddSlot (\<lambda>n. (7, 1, False)) 5 (newQueue 1) \<lparr>link_id = 7, link_s = Some 0\<rparr> SyncPriorityHigh None = Ok (q', e)"
    by (simp add: AddSlot_def addSlotWithPriority_def addSlot_with_def newEntry_def newQueue_def link_IsValid_def sync_flags
        QueueAllowsPriority_def)
  with queue_serves_by_priority [OF n c a] n c show ?thesis by (auto simp: newQueue_def sync_flags)
qed

end
