(* ===== verification/Sync_Semaphore.thy ===== *)
theory Sync_Semaphore
  imports Sync_Queue
begin

text \<open>
  Semaphores and child semaphores of \<^verbatim>\<open>smsync/sync_semaphore.go\<close>, \<^verbatim>\<open>sync_hierarchy.go\<close>,
  \<^verbatim>\<open>sync_stackable.go\<close> and \<^verbatim>\<open>sync_sema_partial.go\<close>.  A semaphore and its children share one mutex and move
  entries between their queues, so they are one state, a family: the parent and the list of its
  children.  An operation is what runs under the mutex; the pointer to a new entry is an argument.

  The pointer \<^verbatim>\<open>entry.stacker\<close> is the index of the child that owns the entry, and the queue that
  \<^verbatim>\<open>entry.getQueue()\<close> reads is the place where the entry is found.
\<close>

subsection \<open>Working and waiting queues\<close>

record workingQueueController =
  queue :: dependencyQueueHead
  workerLimit :: int
  awaiters :: dependencyQueueHead

definition canPassThrough :: "workingQueueController \<Rightarrow> bool" where
  "canPassThrough p \<longleftrightarrow> qcount (queue p) < workerLimit p"

fun moveLoop ::
  "slots \<Rightarrow> nat \<Rightarrow> dependencyQueueHead \<Rightarrow> dependencyQueueHead \<Rightarrow> StepLink list
   \<Rightarrow> dependencyQueueHead \<times> dependencyQueueHead \<times> StepLink list" where
  "moveLoop sl 0 p q links = (p, q, links)"
| "moveLoop sl (Suc n) p q links =
     (case FirstValid sl p of (p', None) \<Rightarrow> (p', q, links)
      | (p', Some (f, stp)) \<Rightarrow> moveLoop sl n (removeFromQueue p' (eid f)) (AddLast q f) (links @ [stp]))"

definition moveToActive ::
  "slots \<Rightarrow> dependencyQueueHead \<Rightarrow> int \<Rightarrow> dependencyQueueHead
   \<Rightarrow> dependencyQueueHead \<times> dependencyQueueHead \<times> StepLink list" where
  "moveToActive sl p n q = (if n \<le> 0 then (p, q, []) else moveLoop sl (nat n) p q [])"

fun moveInactiveLoop ::
  "slots \<Rightarrow> nat \<Rightarrow> dependencyQueueHead \<Rightarrow> dependencyQueueHead \<Rightarrow> int
   \<Rightarrow> dependencyQueueHead \<times> dependencyQueueHead \<times> int" where
  "moveInactiveLoop sl 0 p q cnt = (p, q, cnt)"
| "moveInactiveLoop sl (Suc n) p q cnt =
     (case FirstValid sl p of (p', None) \<Rightarrow> (p', q, cnt)
      | (p', Some (f, stp)) \<Rightarrow> moveInactiveLoop sl n (removeFromQueue p' (eid f)) (AddLast q f) (cnt + 1))"

definition moveToInactive ::
  "slots \<Rightarrow> dependencyQueueHead \<Rightarrow> int \<Rightarrow> dependencyQueueHead \<Rightarrow> dependencyQueueHead \<times> dependencyQueueHead \<times> int" where
  "moveToInactive sl p n q = (if n \<le> 0 then (p, q, 0) else moveInactiveLoop sl (nat n) p q 0)"

definition updateQueue :: "slots \<Rightarrow> workingQueueController \<Rightarrow> workingQueueController \<times> StepLink list" where
  "updateQueue sl p =
     (case moveToActive sl (awaiters p) (workerLimit p - qcount (queue p)) (queue p) of
        (aw, q, links) \<Rightarrow> (p\<lparr>awaiters := aw, queue := q\<rparr>, links))"

text \<open>
  The callbacks of \<^verbatim>\<open>adjustLimit\<close>.  Raising the limit moves awaiters to \<open>activeQ\<close>, which is the queue of
  the controller itself or, for a child, the wait queue of the parent (\<open>Some\<close>).
\<close>

definition activateFn ::
  "slots \<Rightarrow> int \<Rightarrow> dependencyQueueEntry \<Rightarrow> dependencyQueueHead \<times> StepLink list
   \<Rightarrow> (bool \<times> (dependencyQueueHead \<times> StepLink list)) res" where
  "activateFn sl delta entry st =
     (case st of (activeQ, links) \<Rightarrow> case GetStepLink sl (link entry) of (stp, ok) \<Rightarrow>
        if ok then let links = links @ [stp] in Ok (int (length links) < delta, (AddLast activeQ entry, links))
        else Ok (True, (activeQ, links)))"

definition revokeFn ::
  "slots \<Rightarrow> int \<Rightarrow> dependencyQueueEntry \<Rightarrow> dependencyQueueHead \<times> StepLink list
   \<Rightarrow> (bool \<times> (dependencyQueueHead \<times> StepLink list)) res" where
  "revokeFn sl delta entry st =
     (case st of (aw, links) \<Rightarrow> case GetStepLink sl (link entry) of (stp, ok) \<Rightarrow>
        if ok then
          bnd (AddFirst aw entry) (\<lambda>aw'. let links = links @ [stp] in Ok (int (length links) < delta, (aw', links)))
        else Ok (True, (aw, links)))"

definition adjustLimit ::
  "slots \<Rightarrow> workingQueueController \<Rightarrow> int \<Rightarrow> dependencyQueueHead option
   \<Rightarrow> (workingQueueController \<times> dependencyQueueHead option \<times> StepLink list \<times> bool) res" where
  "adjustLimit sl p delta activeQ =
     (if delta > 0 then
        bnd (CutHeadOut (activateFn sl delta) (awaiters p) (case activeQ of None \<Rightarrow> queue p | Some q \<Rightarrow> q, []))
          (\<lambda>(aw, q, links).
             Ok (case activeQ of None \<Rightarrow> p\<lparr>awaiters := aw, queue := q\<rparr> | Some _ \<Rightarrow> p\<lparr>awaiters := aw\<rparr>,
                 map_option (\<lambda>_. q) activeQ, links, True))
      else
        bnd (CutTailOut (revokeFn sl (- delta)) (queue p) (awaiters p, []))
          (\<lambda>(q, aw, links). Ok (p\<lparr>queue := q, awaiters := aw\<rparr>, activeQ, links, False)))"

definition pullAwaiters :: "slots \<Rightarrow> workingQueueController \<Rightarrow> (workingQueueController \<times> StepLink list) res" where
  "pullAwaiters sl p =
     (let delta = workerLimit p - qcount (queue p) in
      if delta \<le> 0 then Ok (p, [])
      else bnd (adjustLimit sl p delta None) (\<lambda>(p', _, deps, activate).
        if \<not> activate then Panic ''Impossible'' else Ok (p', deps)))"

subsection \<open>The family of a semaphore\<close>

record semaphoreSync =
  controller :: workingQueueController
  isAdjustable :: bool

definition AllowPartialRelease :: u8 where "AllowPartialRelease = 1"
definition PrioritizePartialAcquire :: u8 where "PrioritizePartialAcquire = 2"

record hierarchySync =
  sub :: workingQueueController
  subFlags :: u8
  workerAtParentCount :: int
  subAdjustable :: bool

record semaFamily =
  parentSync :: semaphoreSync
  kids :: "hierarchySync list"

abbreviation activeQ :: "semaFamily \<Rightarrow> dependencyQueueHead" where
  "activeQ f \<equiv> queue (controller (parentSync f))"

abbreviation awaitQ :: "semaFamily \<Rightarrow> dependencyQueueHead" where
  "awaitQ f \<equiv> awaiters (controller (parentSync f))"

definition setController :: "semaFamily \<Rightarrow> workingQueueController \<Rightarrow> semaFamily" where
  "setController f p = f\<lparr>parentSync := (parentSync f)\<lparr>controller := p\<rparr>\<rparr>"

definition setActiveQ :: "semaFamily \<Rightarrow> dependencyQueueHead \<Rightarrow> semaFamily" where
  "setActiveQ f q = setController f ((controller (parentSync f))\<lparr>queue := q\<rparr>)"

definition setAwaitQ :: "semaFamily \<Rightarrow> dependencyQueueHead \<Rightarrow> semaFamily" where
  "setAwaitQ f q = setController f ((controller (parentSync f))\<lparr>awaiters := q\<rparr>)"

definition setKid :: "semaFamily \<Rightarrow> nat \<Rightarrow> hierarchySync \<Rightarrow> semaFamily" where
  "setKid f c k = f\<lparr>kids := (kids f)[c := k]\<rparr>"

definition setSub :: "hierarchySync \<Rightarrow> workingQueueController \<Rightarrow> hierarchySync" where
  "setSub k p = k\<lparr>sub := p\<rparr>"

definition sub_canPassThrough :: "hierarchySync \<Rightarrow> bool" where
  "sub_canPassThrough k \<longleftrightarrow> qcount (queue (sub k)) + workerAtParentCount k < workerLimit (sub k)"

text \<open>Where an entry is.\<close>

datatype place = ParentActive | ParentAwait | ChildQueue nat | ChildAwait nat

fun queueAt :: "semaFamily \<Rightarrow> place \<Rightarrow> dependencyQueueHead" where
  "queueAt f ParentActive = activeQ f"
| "queueAt f ParentAwait = awaitQ f"
| "queueAt f (ChildQueue c) = queue (sub (kids f ! c))"
| "queueAt f (ChildAwait c) = awaiters (sub (kids f ! c))"

definition places :: "semaFamily \<Rightarrow> place list" where
  "places f = ParentActive # ParentAwait # concat (map (\<lambda>c. [ChildQueue c, ChildAwait c]) [0..<length (kids f)])"

definition getQueue :: "semaFamily \<Rightarrow> nat \<Rightarrow> place option" where
  "getQueue f i = find (\<lambda>pl. contains (queueAt f pl) i) (places f)"

definition getEntry :: "semaFamily \<Rightarrow> dependencyQueueEntry \<Rightarrow> dependencyQueueEntry" where
  "getEntry f dep =
     (case getQueue f (eid dep) of None \<Rightarrow> dep
      | Some pl \<Rightarrow> (case find (\<lambda>e. eid e = eid dep) (items (queueAt f pl)) of None \<Rightarrow> dep | Some e \<Rightarrow> e))"

fun setQueueAt :: "semaFamily \<Rightarrow> place \<Rightarrow> dependencyQueueHead \<Rightarrow> semaFamily" where
  "setQueueAt f ParentActive q = setActiveQ f q"
| "setQueueAt f ParentAwait q = setAwaitQ f q"
| "setQueueAt f (ChildQueue c) q = setKid f c (setSub (kids f ! c) ((sub (kids f ! c))\<lparr>queue := q\<rparr>))"
| "setQueueAt f (ChildAwait c) q = setKid f c (setSub (kids f ! c) ((sub (kids f ! c))\<lparr>awaiters := q\<rparr>))"

definition removeAt :: "semaFamily \<Rightarrow> place \<Rightarrow> nat \<Rightarrow> semaFamily" where
  "removeAt f pl i = setQueueAt f pl (removeFromQueue (queueAt f pl) i)"

definition addWorkers :: "semaFamily \<Rightarrow> nat \<Rightarrow> int \<Rightarrow> semaFamily" where
  "addWorkers f c n = setKid f c ((kids f ! c)\<lparr>workerAtParentCount := workerAtParentCount (kids f ! c) + n\<rparr>)"

subsection \<open>Creation\<close>

definition createDependency ::
  "slots \<Rightarrow> nat \<Rightarrow> semaFamily \<Rightarrow> SlotLink \<Rightarrow> SlotDependencyFlags \<Rightarrow> (semaFamily \<times> bool \<times> dependencyQueueEntry) res" where
  "createDependency sl i f holder flags =
     (if canPassThrough (controller (parentSync f))
      then bnd (AddSlot sl i (activeQ f) holder flags None) (\<lambda>(q, e). Ok (setActiveQ f q, True, e))
      else bnd (AddSlot sl i (awaitQ f) holder flags None) (\<lambda>(q, e). Ok (setAwaitQ f q, False, e)))"

text \<open>\<^verbatim>\<open>entry.stacker = &p.controller.stacker\<close> changes the entry that was just queued.\<close>

definition setStacker :: "nat \<Rightarrow> nat \<Rightarrow> dependencyQueueHead \<Rightarrow> dependencyQueueHead" where
  "setStacker c i q = q\<lparr>items := map (\<lambda>e. if eid e = i then e\<lparr>stacker := Some c\<rparr> else e) (items q)\<rparr>"

definition child_CreateDependency ::
  "slots \<Rightarrow> nat \<Rightarrow> semaFamily \<Rightarrow> nat \<Rightarrow> SlotLink \<Rightarrow> SlotDependencyFlags \<Rightarrow> (semaFamily \<times> bool \<times> dependencyQueueEntry) res" where
  "child_CreateDependency sl i f c holder flags =
     (if sub_canPassThrough (kids f ! c)
      then bnd (createDependency sl i f holder flags) (\<lambda>(f', d, entry).
        let f' = setActiveQ f' (setStacker c i (activeQ f'));
            f' = setAwaitQ f' (setStacker c i (awaitQ f')) in
        Ok (addWorkers f' c 1, d, entry\<lparr>stacker := Some c\<rparr>))
      else bnd (AddSlot sl i (awaiters (sub (kids f ! c))) holder flags (Some c)) (\<lambda>(q, e).
        Ok (setQueueAt f (ChildAwait c) q, False, e)))"

subsection \<open>Release\<close>

definition sub_updateQueue :: "slots \<Rightarrow> semaFamily \<Rightarrow> nat \<Rightarrow> semaFamily" where
  "sub_updateQueue sl f c =
     (let k = kids f ! c in
      case moveToInactive sl (awaiters (sub k)) (workerLimit (sub k) - qcount (queue (sub k)) - workerAtParentCount k)
          (awaitQ f) of
        (aw, q, n) \<Rightarrow> addWorkers (setAwaitQ (setQueueAt f (ChildAwait c) aw) q) c n)"

definition afterRelease :: "slots \<Rightarrow> semaFamily \<Rightarrow> nat \<Rightarrow> place \<Rightarrow> dependencyQueueEntry \<Rightarrow> semaFamily" where
  "afterRelease sl f c q entry =
     (if stacker entry \<noteq> Some c then f
      else if q = ParentAwait \<or> q = ParentActive then sub_updateQueue sl (addWorkers f c (- 1)) c
      else f)"

definition updateAfterRelease :: "slots \<Rightarrow> semaFamily \<Rightarrow> dependencyQueueEntry \<Rightarrow> place \<Rightarrow> semaFamily" where
  "updateAfterRelease sl f entry q =
     (case stacker entry of None \<Rightarrow> f | Some c \<Rightarrow> afterRelease sl f c q entry)"

definition updateParent :: "slots \<Rightarrow> semaFamily \<Rightarrow> semaFamily \<times> StepLink list" where
  "updateParent sl f = (case updateQueue sl (controller (parentSync f)) of (p, links) \<Rightarrow> (setController f p, links))"

definition working_SafeRelease :: "slots \<Rightarrow> semaFamily \<Rightarrow> dependencyQueueEntry \<Rightarrow> semaFamily \<times> StepLink list" where
  "working_SafeRelease sl f entry =
     updateParent sl (updateAfterRelease sl (removeAt f ParentActive (eid entry)) entry ParentActive)"

definition waiting_SafeRelease ::
  "slots \<Rightarrow> semaFamily \<Rightarrow> place \<Rightarrow> dependencyQueueEntry \<Rightarrow> semaFamily \<times> StepLink list" where
  "waiting_SafeRelease sl f q entry = (updateAfterRelease sl (removeAt f q (eid entry)) entry q, [])"

definition sub_SafeRelease :: "slots \<Rightarrow> semaFamily \<Rightarrow> nat \<Rightarrow> dependencyQueueEntry \<Rightarrow> semaFamily \<times> StepLink list" where
  "sub_SafeRelease sl f c entry = (sub_updateQueue sl (removeAt f (ChildQueue c) (eid entry)) c, [])"

definition ReleaseAll :: "slots \<Rightarrow> semaFamily \<Rightarrow> dependencyQueueEntry \<Rightarrow> semaFamily \<times> StepLink list" where
  "ReleaseAll sl f entry =
     (case getQueue f (eid entry) of None \<Rightarrow> (f, [])
      | Some ParentActive \<Rightarrow> working_SafeRelease sl f entry
      | Some ParentAwait \<Rightarrow> waiting_SafeRelease sl f ParentAwait entry
      | Some (ChildQueue c) \<Rightarrow> sub_SafeRelease sl f c entry
      | Some (ChildAwait c) \<Rightarrow> waiting_SafeRelease sl f (ChildAwait c) entry)"

subsection \<open>Partial release and acquisition\<close>

definition tryPartialRelease :: "semaFamily \<Rightarrow> nat \<Rightarrow> dependencyQueueEntry \<Rightarrow> semaFamily \<times> bool" where
  "tryPartialRelease f c entry =
     (if subFlags (kids f ! c) AND AllowPartialRelease = 0 \<or> stacker entry \<noteq> Some c then (f, False)
      else case getQueue f (eid entry) of
        Some pl \<Rightarrow>
          if pl = ParentAwait \<or> pl = ParentActive then
            let f' = addWorkers (removeAt f pl (eid entry)) c (- 1) in
            (setQueueAt f' (ChildQueue c) (AddLast (queueAt f' (ChildQueue c)) (getEntry f entry)), True)
          else (f, False)
      | None \<Rightarrow> (f, False))"

definition stack_tryPartialRelease :: "semaFamily \<Rightarrow> dependencyQueueEntry \<Rightarrow> semaFamily \<times> bool" where
  "stack_tryPartialRelease f entry =
     (case stacker entry of None \<Rightarrow> (f, False) | Some c \<Rightarrow> tryPartialRelease f c entry)"

text \<open>
  The result of \<^verbatim>\<open>ReleaseDependency\<close>: whether something was released, the dependency that is left, and
  the links to wake up.  A dependency without a stacker is released completely.
\<close>

definition ReleaseDependency ::
  "slots \<Rightarrow> semaFamily \<Rightarrow> dependencyQueueEntry
   \<Rightarrow> semaFamily \<times> bool \<times> dependencyQueueEntry option \<times> StepLink list" where
  "ReleaseDependency sl f dep =
     (if stacker dep \<noteq> None then
        (case stack_tryPartialRelease f dep of
           (f', True) \<Rightarrow> (case updateParent sl f' of (f'', links) \<Rightarrow> (f'', True, Some dep, links))
         | (f', False) \<Rightarrow> (f', False, Some dep, []))
      else case ReleaseAll sl f dep of (f', links) \<Rightarrow> (f', True, None, links))"

definition child_ReleaseDependency ::
  "slots \<Rightarrow> semaFamily \<Rightarrow> dependencyQueueEntry
   \<Rightarrow> semaFamily \<times> bool \<times> dependencyQueueEntry option \<times> StepLink list" where
  "child_ReleaseDependency sl f dep = (case ReleaseAll sl f dep of (f', links) \<Rightarrow> (f', True, None, links))"

definition tryPartialAcquire ::
  "slots \<Rightarrow> semaFamily \<Rightarrow> nat \<Rightarrow> dependencyQueueEntry \<Rightarrow> bool \<Rightarrow> (semaFamily \<times> Decision) res" where
  "tryPartialAcquire sl f c entry hasActiveCapacity =
     (if subFlags (kids f ! c) AND AllowPartialRelease = 0 \<or> stacker entry \<noteq> Some c then Ok (f, Impossible)
      else case getQueue f (eid entry) of
        Some pl \<Rightarrow>
          if pl = ChildQueue c \<or> pl = ChildAwait c then
            let f' = addWorkers (removeAt f pl (eid entry)) c 1 in
            if hasActiveCapacity then Ok (setActiveQ f' (AddLast (activeQ f') (getEntry f entry)), Passed)
            else bnd (addSlotWithPriority sl (awaitQ f') (getEntry f entry) (subFlags (kids f ! c) AND PrioritizePartialAcquire \<noteq> 0))
              (\<lambda>(q, e). Ok (setAwaitQ f' q, NotPassed))
          else Ok (f, Impossible)
      | None \<Rightarrow> Ok (f, Impossible))"

definition stack_tryPartialAcquire ::
  "slots \<Rightarrow> semaFamily \<Rightarrow> dependencyQueueEntry \<Rightarrow> bool \<Rightarrow> (semaFamily \<times> Decision) res" where
  "stack_tryPartialAcquire sl f entry hasActiveCapacity =
     (case stacker entry of None \<Rightarrow> Ok (f, NotPassed) | Some c \<Rightarrow> tryPartialAcquire sl f c entry hasActiveCapacity)"

subsection \<open>Checks\<close>

definition checkState :: "semaFamily \<Rightarrow> bool" where
  "checkState f = canPassThrough (controller (parentSync f))"

definition child_CheckState :: "semaFamily \<Rightarrow> nat \<Rightarrow> bool" where
  "child_CheckState f c = (if \<not> sub_canPassThrough (kids f ! c) then False else checkState f)"

definition entryCompatible :: "semaFamily \<Rightarrow> dependencyQueueEntry \<Rightarrow> SlotDependencyFlags \<Rightarrow> bool res" where
  "entryCompatible f entry flags =
     entry_IsCompatibleWith (map_option (queueAt f) (getQueue f (eid entry))) (slotFlags (getEntry f entry)) flags"

definition checkDependencyHere ::
  "slots \<Rightarrow> semaFamily \<Rightarrow> dependencyQueueEntry \<Rightarrow> SlotDependencyFlags \<Rightarrow> (Decision \<times> bool) res" where
  "checkDependencyHere sl f entry flags =
     (if \<not> link_IsValid sl (link entry) then Ok (Impossible, False)
      else bnd (entryCompatible f entry flags) (\<lambda>compatible.
        if \<not> compatible then Ok (Impossible, False)
        else if getQueue f (eid entry) = Some ParentActive then Ok (Passed, False)
        else if getQueue f (eid entry) = Some ParentAwait then Ok (NotPassed, False)
        else Ok (Impossible, True)))"

definition containsInStack :: "semaFamily \<Rightarrow> nat \<Rightarrow> dependencyQueueEntry \<Rightarrow> Decision" where
  "containsInStack f c entry =
     (if getQueue f (eid entry) = Some (ChildAwait c) then NotPassed
      else if getQueue f (eid entry) = Some (ChildQueue c) then Passed
      else Impossible)"

definition stack_contains :: "semaFamily \<Rightarrow> dependencyQueueEntry \<Rightarrow> Decision" where
  "stack_contains f entry = (case stacker entry of None \<Rightarrow> Impossible | Some c \<Rightarrow> containsInStack f c entry)"

definition checkDependency ::
  "slots \<Rightarrow> semaFamily \<Rightarrow> dependencyQueueEntry \<Rightarrow> SlotDependencyFlags \<Rightarrow> (Decision \<times> bool) res" where
  "checkDependency sl f entry flags =
     bnd (checkDependencyHere sl f entry flags) (\<lambda>(d, notFound).
       if notFound then
         let d = stack_contains f entry in if d = Passed then Ok (NotPassed, True) else Ok (d, False)
       else Ok (d, False))"

definition UseDependency ::
  "slots \<Rightarrow> semaFamily \<Rightarrow> dependencyQueueEntry \<Rightarrow> SlotDependencyFlags \<Rightarrow> (semaFamily \<times> Decision) res" where
  "UseDependency sl f entry flags =
     bnd (checkDependency sl f entry flags) (\<lambda>(d, stackPassed).
       if flags = SyncIgnoreFlags \<or> \<not> stackPassed then Ok (f, d)
       else stack_tryPartialAcquire sl f entry (canPassThrough (controller (parentSync f))))"

definition child_UseDependency ::
  "slots \<Rightarrow> semaFamily \<Rightarrow> nat \<Rightarrow> dependencyQueueEntry \<Rightarrow> SlotDependencyFlags \<Rightarrow> Decision res" where
  "child_UseDependency sl f c entry flags =
     (if \<not> link_IsValid sl (link entry) then Ok Impossible
      else bnd (entryCompatible f entry flags) (\<lambda>compatible.
        if \<not> compatible then Ok Impossible
        else if stacker entry \<noteq> Some c then Ok Impossible
        else if getQueue f (eid entry) = Some (ChildAwait c) then Ok NotPassed
        else if getQueue f (eid entry) = Some (ChildQueue c) then
          Ok (if flags = SyncIgnoreFlags then NotPassed else Impossible)
        else bnd (checkDependencyHere sl f entry SyncIgnoreFlags) (\<lambda>(d, _). Ok d)))"

subsection \<open>Limits\<close>

definition sema_AdjustLimit :: "slots \<Rightarrow> semaFamily \<Rightarrow> int \<Rightarrow> bool \<Rightarrow> (semaFamily \<times> StepLink list \<times> bool) res" where
  "sema_AdjustLimit sl f limit absolute =
     (if \<not> isAdjustable (parentSync f) then Panic ''illegal state''
      else case applyWrappedAdjustment (workerLimit (controller (parentSync f))) limit MinInt32 MaxInt32 absolute of
        (False, _) \<Rightarrow> Ok (f, [], False)
      | (True, limit) \<Rightarrow>
          let p = controller (parentSync f);
              delta = limit - workerLimit p;
              p = p\<lparr>workerLimit := limit\<rparr> in
          if delta < 0 then Ok (setController f p, [], False)
          else bnd (adjustLimit sl p delta None) (\<lambda>(p', _, links, activate). Ok (setController f p', links, activate)))"

definition child_AdjustLimit ::
  "slots \<Rightarrow> semaFamily \<Rightarrow> nat \<Rightarrow> int \<Rightarrow> bool \<Rightarrow> (semaFamily \<times> StepLink list \<times> bool) res" where
  "child_AdjustLimit sl f c limit absolute =
     (let k = kids f ! c in
      if \<not> subAdjustable k then Panic ''IllegalState''
      else case applyWrappedAdjustment (workerLimit (sub k)) limit MinInt32 MaxInt32 absolute of
        (False, _) \<Rightarrow> Ok (f, [], False)
      | (True, limit) \<Rightarrow>
          let delta = limit - workerLimit (sub k);
              p = (sub k)\<lparr>workerLimit := limit\<rparr> in
          if delta < 0 then Ok (setKid f c (setSub k p), [], False)
          else bnd (adjustLimit sl p delta (Some (awaitQ f))) (\<lambda>(p', q, deps, activate).
            let f' = setAwaitQ (setKid f c (setSub k p')) (case q of None \<Rightarrow> awaitQ f | Some q \<Rightarrow> q) in
            if activate \<and> deps \<noteq> [] then
              bnd (pullAwaiters sl (controller (parentSync f'))) (\<lambda>(pc, deps').
                Ok (setController (addWorkers f' c (int (length deps))) pc, deps', activate))
            else Ok (f', deps, activate)))"

subsection \<open>Construction\<close>

definition zeroController :: "u8 \<Rightarrow> u8 \<Rightarrow> workingQueueController" where
  "zeroController qfl afl = \<lparr>queue = newQueue qfl, workerLimit = 0, awaiters = newQueue afl\<rparr>"

definition newSemaphore :: "slots \<Rightarrow> int \<Rightarrow> bool \<Rightarrow> u8 \<Rightarrow> semaFamily res" where
  "newSemaphore sl initialLimit adjustable flags =
     (let f = \<lparr>parentSync = \<lparr>controller = zeroController 0 flags, isAdjustable = True\<rparr>, kids = []\<rparr> in
      bnd (sema_AdjustLimit sl f initialLimit False) (\<lambda>(f, deps, _).
        if deps \<noteq> [] then Panic ''illegal state''
        else Ok (f\<lparr>parentSync := (parentSync f)\<lparr>isAdjustable := adjustable\<rparr>\<rparr>)))"

definition newSemaphoreChild :: "semaFamily \<Rightarrow> u8 \<Rightarrow> int \<Rightarrow> bool \<Rightarrow> semaFamily" where
  "newSemaphoreChild f flags val adjustable =
     (let parentFlags = qflags (awaitQ f);
          flags = (if parentFlags AND QueueAllowsPriority = 0 then flags AND NOT PrioritizePartialAcquire else flags) in
      f\<lparr>kids := kids f @ [\<lparr>sub = (zeroController parentFlags 0)\<lparr>workerLimit := val\<rparr>, subFlags = flags,
                           workerAtParentCount = 0, subAdjustable = adjustable\<rparr>]\<rparr>)"

definition NewChildExt :: "semaFamily \<Rightarrow> bool \<Rightarrow> int \<Rightarrow> u8 \<Rightarrow> semaFamily res" where
  "NewChildExt f adjustable childValue flags =
     (if \<not> adjustable \<and> childValue \<le> 0 then Panic ''IllegalValue''
      else Ok (newSemaphoreChild f flags childValue adjustable))"

definition sema_GetCounts :: "semaFamily \<Rightarrow> int \<times> int" where
  "sema_GetCounts f = (qcount (activeQ f), qcount (awaitQ f))"

definition child_GetCounts :: "semaFamily \<Rightarrow> nat \<Rightarrow> int \<times> int" where
  "child_GetCounts f c =
     (workerAtParentCount (kids f ! c) + qcount (queue (sub (kids f ! c))), qcount (awaiters (sub (kids f ! c))))"

definition sema_EnumQueues ::
  "workingQueueController \<Rightarrow> int \<Rightarrow> (int \<times> SlotLink \<times> SlotDependencyFlags \<Rightarrow> 's \<Rightarrow> bool \<times> 's) \<Rightarrow> 's \<Rightarrow> bool \<times> 's" where
  "sema_EnumQueues p qID fn s =
     (case enumQueue (queue p) qID fn s of (stop, s') \<Rightarrow>
        if stop then (True, s') else enumQueue (awaiters p) (qID - 1) fn s')"

end
