(* ===== verification/Sync_Moves.thy ===== *)
theory Sync_Moves
  imports Sync_Semaphore
begin

text \<open>
  The moves of entries between the queues of a family of semaphores: which entries the loops over the
  wait queues move and which they drop, the invariant of a family (well-formed queues, an entry in at
  most one of them, owners and counters of the children), and the two moves to which all others reduce,
  from a child to the wait queue of the parent and from there to its working queue.
\<close>

subsection \<open>Moving awaiters\<close>

fun afterValid :: "slots \<Rightarrow> nat \<Rightarrow> dependencyQueueEntry list \<Rightarrow> dependencyQueueEntry list" where
  "afterValid sl 0 es = es"
| "afterValid sl (Suc n) [] = []"
| "afterValid sl (Suc n) (e # es) = (if valid_entry sl e then afterValid sl n es else afterValid sl (Suc n) es)"

definition moved :: "slots \<Rightarrow> nat \<Rightarrow> dependencyQueueEntry list \<Rightarrow> dependencyQueueEntry list" where
  "moved sl n es = take n (filter (valid_entry sl) es)"

lemma afterValid_subset: "set (afterValid sl n es) \<subseteq> set es"
  by (induction sl n es rule: afterValid.induct) auto

lemma moved_subset: "set (moved sl n es) \<subseteq> set es"
  using set_take_subset [of n "filter (valid_entry sl) es"] by (auto simp: moved_def)

lemma afterValid_full: "length (moved sl n es) < n \<Longrightarrow> afterValid sl n es = []"
  by (induction sl n es rule: afterValid.induct) (auto simp: moved_def split: if_splits)

lemma moved_length: "length (moved sl n es) \<le> n"
  by (simp add: moved_def)

lemma afterValid_Suc:
  "afterValid sl (Suc n) es =
     (case dropWhile (\<lambda>e. \<not> valid_entry sl e) es of [] \<Rightarrow> [] | f # fs \<Rightarrow> afterValid sl n fs)"
  by (induction es) auto

lemma moved_Suc:
  "moved sl (Suc n) es =
     (case dropWhile (\<lambda>e. \<not> valid_entry sl e) es of [] \<Rightarrow> [] | f # fs \<Rightarrow> f # moved sl n fs)"
  by (induction es) (auto simp: moved_def)

lemma moved_not_after:
  "distinct (ids es) \<Longrightarrow> set (ids (moved sl n es)) \<inter> set (ids (afterValid sl n es)) = {}"
proof (induction sl n es rule: afterValid.induct)
  case (3 sl n e es)
  then show ?case using afterValid_subset [of sl n es] by (auto simp: moved_def split: if_splits)
qed (simp_all add: moved_def)

lemma distinct_moved: "distinct (ids es) \<Longrightarrow> distinct (ids (moved sl n es))"
  unfolding moved_def by (simp add: take_map [symmetric] distinct_map_filter)

lemma disjoint_shrink: "S \<subseteq> A \<Longrightarrow> A \<inter> B = {} \<Longrightarrow> a \<notin> S \<Longrightarrow> S \<inter> insert a B = {}"
  by blast

text \<open>The loop moves the first \<open>n\<close> live awaiters in their order and drops the dead ones before them.\<close>

lemma moveLoop_spec:
  assumes "q_ok p" "q_ok q" "set (ids (items p)) \<inter> set (ids (items q)) = {}"
    "moveLoop sl n p q links = (p', q', links')"
  shows "q_ok p' \<and> q_ok q' \<and> items p' = afterValid sl n (items p) \<and> items q' = items q @ moved sl n (items p) \<and>
     links' = links @ map (stepOf sl) (moved sl n (items p)) \<and> qflags p' = qflags p \<and> qflags q' = qflags q"
  using assms
proof (induction n arbitrary: p q links)
  case 0
  then show ?case by (simp add: moved_def)
next
  case (Suc n)
  obtain p1 r where fv: "FirstValid sl p = (p1, r)" by (metis surj_pair)
  note s = FirstValid_spec [OF Suc(2) fv]
  show ?case
  proof (cases "items p1")
    case Nil
    with s fv Suc(2-) show ?thesis by (auto simp: moved_Suc afterValid_Suc simp del: afterValid.simps)
  next
    case (Cons f fs)
    have dw: "dropWhile (\<lambda>e. \<not> valid_entry sl e) (items p) = f # fs" using s Cons by simp
    then have sub: "set (f # fs) \<subseteq> set (items p)" by (metis set_dropWhileD subsetI)
    have r: "r = Some (f, stepOf sl f)" using s Cons by simp
    have rm: "q_ok (removeFromQueue p1 (eid f))" "items (removeFromQueue p1 (eid f)) = fs"
      using removeFirst [OF _ Cons] s by auto
    have f: "eid f \<notin> set (ids (items q))" "eid f \<notin> set (ids fs)" using sub Suc(4) s Cons by (auto simp: q_ok_def)
    have ml: "moveLoop sl n (removeFromQueue p1 (eid f)) (AddLast q f) (links @ [stepOf sl f]) = (p', q', links')"
      using Suc(5) fv r by simp
    have "set (ids fs) \<subseteq> set (ids (items p))" using sub by auto
    from disjoint_shrink [OF this Suc(4) f(2)]
    have dj: "set (ids (items (removeFromQueue p1 (eid f)))) \<inter> set (ids (items (AddLast q f))) = {}"
      by (simp only: rm(2) items_AddLast(1)) simp
    show ?thesis
      using Suc(1) [OF rm(1) AddLast_ok [OF Suc(3) f(1)] dj ml] dw rm(2) s
      by (simp add: moved_Suc afterValid_Suc del: afterValid.simps add: queue_simps(3-) items_removeFromQueue(2) items_AddLast)
  qed
qed

lemma moveLoop_links:
  "moveLoop sl n p q (links @ ls) = (case moveLoop sl n p q ls of (p', q', ls') \<Rightarrow> (p', q', links @ ls'))"
  by (induction n arbitrary: p q ls) (auto split: prod.splits option.splits)

lemma moveInactiveLoop_eq:
  "moveInactiveLoop sl n p q (cnt + int (length links)) =
     (case moveLoop sl n p q links of (p', q', ls) \<Rightarrow> (p', q', cnt + int (length ls)))"
proof (induction n arbitrary: p q links)
  case (Suc n)
  obtain p' r where fv: "FirstValid sl p = (p', r)" by (metis surj_pair)
  show ?case
  proof (cases r)
    case (Some fs)
    then show ?thesis using fv Suc [of "removeFromQueue p' (eid (fst fs))" "AddLast q (fst fs)" "links @ [snd fs]"]
      by (cases fs) (simp add: ac_simps)
  qed (simp add: fv)
qed simp

lemma moveToInactive_spec:
  assumes "q_ok p" "q_ok q" "set (ids (items p)) \<inter> set (ids (items q)) = {}"
    "moveToInactive sl p n q = (p', q', cnt)"
  shows "q_ok p' \<and> q_ok q' \<and> items p' = afterValid sl (nat n) (items p) \<and> items q' = items q @ moved sl (nat n) (items p) \<and>
     cnt = int (length (moved sl (nat n) (items p))) \<and> qflags p' = qflags p \<and> qflags q' = qflags q"
proof (cases "n \<le> 0")
  case True
  with assms show ?thesis by (auto simp: moveToInactive_def moved_def)
next
  case False
  obtain p1 q1 ls where m: "moveLoop sl (nat n) p q [] = (p1, q1, ls)" by (metis surj_pair)
  with False assms(4) moveInactiveLoop_eq [of sl "nat n" p q 0 "[]"]
  have "p' = p1" "q' = q1" "cnt = int (length ls)" by (auto simp: moveToInactive_def)
  with moveLoop_spec [OF assms(1-3) m] show ?thesis by simp
qed

lemma moveToActive_spec:
  assumes "q_ok p" "q_ok q" "set (ids (items p)) \<inter> set (ids (items q)) = {}"
    "moveToActive sl p n q = (p', q', links)"
  shows "q_ok p' \<and> q_ok q' \<and> items p' = afterValid sl (nat n) (items p) \<and> items q' = items q @ moved sl (nat n) (items p) \<and>
     links = map (stepOf sl) (moved sl (nat n) (items p)) \<and> qflags p' = qflags p \<and> qflags q' = qflags q"
  using assms moveLoop_spec [OF assms(1-3), of sl "nat n" "[]" p' q' links]
  by (auto simp: moveToActive_def moved_def split: if_splits)

text \<open>\<^verbatim>\<open>CutHeadOut\<close> with the activating callback is the same loop.\<close>

lemma CutHeadOut_moveLoop:
  assumes "q_ok p" "int (length links) < delta"
  shows "CutHeadOut (activateFn sl delta) p (q, links) =
     (case moveLoop sl (nat (delta - int (length links))) p q links of (p', q', ls) \<Rightarrow> Ok (p', q', ls))"
  using assms
proof (induction "items p" arbitrary: p q links)
  case Nil
  then obtain m where "nat (delta - int (length links)) = Suc m" by (metis gr0_conv_Suc zero_less_nat_eq diff_gt_0_iff_gt)
  with Nil show ?case by (simp add: CutHeadOut_Nil FirstValid_Nil)
next
  case (Cons f fs)
  note it = Cons(2) [symmetric]
  note rm = removeFirst [OF Cons(3) it]
  obtain m where m: "nat (delta - int (length links)) = Suc m"
    using Cons(4) by (metis gr0_conv_Suc zero_less_nat_eq diff_gt_0_iff_gt)
  show ?case
  proof (cases "valid_entry sl f")
    case False
    then show ?thesis
      using Cons(1) [OF rm(2) [symmetric] rm(1) Cons(4)] m
      by (simp add: CutHeadOut_Cons [OF it] FirstValid_Cons [OF it] activateFn_def GetStepLink_pair)
  next
    case True
    have m': "nat (delta - int (length (links @ [stepOf sl f]))) = m" using m by simp
    show ?thesis
    proof (cases "int (length (links @ [stepOf sl f])) < delta")
      case True
      with \<open>valid_entry sl f\<close> Cons(1) [OF rm(2) [symmetric] rm(1) True] m m' show ?thesis
        by (simp add: CutHeadOut_Cons [OF it] FirstValid_Cons [OF it] activateFn_def GetStepLink_pair)
    next
      case False
      with m' have "m = 0" by simp
      with False \<open>valid_entry sl f\<close> m show ?thesis
        by (simp add: CutHeadOut_Cons [OF it] FirstValid_Cons [OF it] activateFn_def GetStepLink_pair)
    qed
  qed
qed

subsection \<open>The fields of a family\<close>

definition place_ok :: "semaFamily \<Rightarrow> place \<Rightarrow> bool" where
  "place_ok f pl = (case pl of ChildQueue c \<Rightarrow> c < length (kids f) | ChildAwait c \<Rightarrow> c < length (kids f) | _ \<Rightarrow> True)"

abbreviation plimit :: "semaFamily \<Rightarrow> int" where
  "plimit f \<equiv> workerLimit (controller (parentSync f))"

abbreviation klimit :: "semaFamily \<Rightarrow> nat \<Rightarrow> int" where
  "klimit f c \<equiv> workerLimit (sub (kids f ! c))"

abbreviation katp :: "semaFamily \<Rightarrow> nat \<Rightarrow> int" where
  "katp f c \<equiv> workerAtParentCount (kids f ! c)"

abbreviation itemsAt :: "semaFamily \<Rightarrow> place \<Rightarrow> dependencyQueueEntry list" where
  "itemsAt f pl \<equiv> items (queueAt f pl)"

named_theorems fam_simps "what the updates of a family do to its fields"

lemmas family_updates = setController_def setActiveQ_def setAwaitQ_def setKid_def setSub_def addWorkers_def

lemma place_ok_simps [simp]: "place_ok f ParentActive" "place_ok f ParentAwait"
  "place_ok f (ChildQueue c) = (c < length (kids f))" "place_ok f (ChildAwait c) = (c < length (kids f))"
  by (simp_all add: place_ok_def)

lemma places_iff: "pl \<in> set (places f) \<longleftrightarrow> place_ok f pl"
  by (cases pl) (auto simp: places_def)

lemma kids_setQueueAt [fam_simps]: "length (kids (setQueueAt f pl q)) = length (kids f)"
  "plimit (setQueueAt f pl q) = plimit f"
  "place_ok f pl \<Longrightarrow> klimit (setQueueAt f pl q) c = klimit f c"
  "place_ok f pl \<Longrightarrow> katp (setQueueAt f pl q) c = katp f c"
  "place_ok f pl \<Longrightarrow> subFlags (kids (setQueueAt f pl q) ! c) = subFlags (kids f ! c)"
  by (cases pl; simp add: family_updates nth_list_update; fail)+

lemma queueAt_setQueueAt [fam_simps]:
  "place_ok f pl \<Longrightarrow> queueAt (setQueueAt f pl q) pl' = (if pl' = pl then q else queueAt f pl')"
  by (cases pl; cases pl') (auto simp: family_updates nth_list_update)

lemma nth_update: "xs[c := x] ! d = (if d = c \<and> c < length xs then x else xs ! d)"
  by (cases "c < length xs") (auto simp: list_update_beyond)

lemma addWorkers_simps [fam_simps]: "length (kids (addWorkers f c n)) = length (kids f)"
  "plimit (addWorkers f c n) = plimit f" "klimit (addWorkers f c n) d = klimit f d"
  "c < length (kids f) \<Longrightarrow> katp (addWorkers f c n) d = (if d = c then katp f c + n else katp f d)"
  "subFlags (kids (addWorkers f c n) ! d) = subFlags (kids f ! d)"
  by (simp_all add: family_updates nth_update)

lemma queueAt_addWorkers [fam_simps]: "queueAt (addWorkers f c n) pl = queueAt f pl"
  by (cases pl) (simp_all add: family_updates nth_update)

lemma setController_simps [fam_simps]: "kids (setController f p) = kids f"
  "plimit (setController f p) = workerLimit p"
  "queueAt (setController f p) pl =
     (case pl of ParentActive \<Rightarrow> queue p | ParentAwait \<Rightarrow> awaiters p | _ \<Rightarrow> queueAt f pl)"
  by (cases pl; simp add: family_updates)+

lemma place_ok_cong: "length (kids f') = length (kids f) \<Longrightarrow> place_ok f' pl = place_ok f pl"
  by (simp add: place_ok_def split: place.splits)

lemma set_queues: "setActiveQ f q = setQueueAt f ParentActive q" "setAwaitQ f q = setQueueAt f ParentAwait q"
  by simp_all

subsection \<open>The invariant of a family\<close>

text \<open>Queues are well formed, an entry is in at most one of them.\<close>

abbreviation idset :: "dependencyQueueHead \<Rightarrow> nat set" where
  "idset q \<equiv> set (ids (items q))"

definition separate :: "semaFamily \<Rightarrow> bool" where
  "separate f \<longleftrightarrow> (\<forall>pl. place_ok f pl \<longrightarrow> q_ok (queueAt f pl)) \<and>
     (\<forall>pl pl'. place_ok f pl \<longrightarrow> place_ok f pl' \<longrightarrow> pl \<noteq> pl' \<longrightarrow> idset (queueAt f pl) \<inter> idset (queueAt f pl') = {})"

definition fresh :: "semaFamily \<Rightarrow> nat \<Rightarrow> bool" where
  "fresh f i \<longleftrightarrow> (\<forall>pl. place_ok f pl \<longrightarrow> i \<notin> idset (queueAt f pl))"

definition owned :: "nat \<Rightarrow> dependencyQueueEntry list \<Rightarrow> int" where
  "owned c es = int (length (filter (\<lambda>e. stacker e = Some c) es))"

text \<open>
  Entries in the queues of a child belong to it, and the child has counted at least the entries that
  it has in the queues of the parent (entries of dead slots are dropped there without notice).
\<close>

definition owners_ok :: "semaFamily \<Rightarrow> bool" where
  "owners_ok f \<longleftrightarrow>
     (\<forall>c < length (kids f). \<forall>e \<in> set (itemsAt f (ChildQueue c)) \<union> set (itemsAt f (ChildAwait c)). stacker e = Some c) \<and>
     (\<forall>e \<in> set (itemsAt f ParentActive) \<union> set (itemsAt f ParentAwait). \<forall>c. stacker e = Some c \<longrightarrow> c < length (kids f))"

definition counts_ok :: "semaFamily \<Rightarrow> bool" where
  "counts_ok f \<longleftrightarrow> (\<forall>c < length (kids f). owned c (itemsAt f ParentActive) + owned c (itemsAt f ParentAwait) \<le> katp f c)"

definition fam_ok :: "semaFamily \<Rightarrow> bool" where
  "fam_ok f \<longleftrightarrow> separate f \<and> owners_ok f \<and> counts_ok f"

lemma separateD: "separate f \<Longrightarrow> place_ok f pl \<Longrightarrow> q_ok (queueAt f pl)"
  by (simp add: separate_def)

lemma separate_queues:
  "separate f \<Longrightarrow> q_ok (activeQ f)" "separate f \<Longrightarrow> q_ok (awaitQ f)"
  "separate f \<Longrightarrow> c < length (kids f) \<Longrightarrow> q_ok (queueAt f (ChildQueue c))"
  "separate f \<Longrightarrow> c < length (kids f) \<Longrightarrow> q_ok (queueAt f (ChildAwait c))"
  using separateD [of f ParentActive] separateD [of f ParentAwait] separateD [of f "ChildQueue c"]
    separateD [of f "ChildAwait c"] by simp_all

lemma separate_disjoint:
  "separate f \<Longrightarrow> place_ok f pl \<Longrightarrow> place_ok f pl' \<Longrightarrow> pl \<noteq> pl' \<Longrightarrow> idset (queueAt f pl) \<inter> idset (queueAt f pl') = {}"
  unfolding separate_def by blast

lemma separate_update:
  assumes "separate f" "place_ok f pl" "q_ok q"
    and disj: "\<And>pl'. place_ok f pl' \<Longrightarrow> pl' \<noteq> pl \<Longrightarrow> idset q \<inter> idset (queueAt f pl') = {}"
  shows "separate (setQueueAt f pl q)"
  unfolding separate_def
proof (intro conjI allI impI)
  fix a assume "place_ok (setQueueAt f pl q) a"
  then show "q_ok (queueAt (setQueueAt f pl q) a)"
    using assms by (simp add: place_ok_cong [OF kids_setQueueAt(1)] fam_simps separateD)
next
  fix a b assume "place_ok (setQueueAt f pl q) a" "place_ok (setQueueAt f pl q) b" "a \<noteq> b"
  then have "place_ok f a" "place_ok f b" "a \<noteq> b" by (simp_all add: place_ok_cong [OF kids_setQueueAt(1)])
  then show "idset (queueAt (setQueueAt f pl q) a) \<inter> idset (queueAt (setQueueAt f pl q) b) = {}"
    using disj [of a] disj [of b] separate_disjoint [OF assms(1), of a b] assms(2)
    by (cases "a = pl"; cases "b = pl") (simp_all only: queueAt_setQueueAt if_True if_False Int_commute simp_thms)
qed

lemma separate_shrink:
  assumes "separate f" "place_ok f pl" "q_ok q" "idset q \<subseteq> idset (queueAt f pl)"
  shows "separate (setQueueAt f pl q)"
proof (rule separate_update [OF assms(1-3)])
  fix pl' assume "place_ok f pl'" "pl' \<noteq> pl"
  with separate_disjoint [OF assms(1,2), of pl'] assms(4) show "idset q \<inter> idset (queueAt f pl') = {}" by blast
qed

lemma separate_add:
  assumes "separate f" "place_ok f pl" "q_ok q" "idset q \<subseteq> insert i (idset (queueAt f pl))" "fresh f i"
  shows "separate (setQueueAt f pl q)"
proof (rule separate_update [OF assms(1-3)])
  fix pl' assume "place_ok f pl'" "pl' \<noteq> pl"
  then have "idset (queueAt f pl) \<inter> idset (queueAt f pl') = {}" "i \<notin> idset (queueAt f pl')"
    using separate_disjoint [OF assms(1,2), of pl'] assms(5) unfolding fresh_def by blast+
  with assms(4) show "idset q \<inter> idset (queueAt f pl') = {}" by blast
qed

lemma separate_move:
  assumes "separate f" "place_ok f a" "place_ok f b" "a \<noteq> b" "q_ok qa" "q_ok qb"
    "idset qa \<subseteq> idset (queueAt f a)" "idset qb \<subseteq> idset (queueAt f a) \<union> idset (queueAt f b)" "idset qa \<inter> idset qb = {}"
  shows "separate (setQueueAt (setQueueAt f a qa) b qb)"
proof (rule separate_update)
  show "separate (setQueueAt f a qa)" by (rule separate_shrink) (use assms in blast)+
  show "place_ok (setQueueAt f a qa) b" using assms(3) by (simp add: place_ok_cong [OF kids_setQueueAt(1)])
  show "q_ok qb" by (rule assms(6))
  fix pl' assume "place_ok (setQueueAt f a qa) pl'" "pl' \<noteq> b"
  then have pl': "place_ok f pl'" "pl' \<noteq> b" by (simp_all add: place_ok_cong [OF kids_setQueueAt(1)])
  show "idset qb \<inter> idset (queueAt (setQueueAt f a qa) pl') = {}"
  proof (cases "pl' = a")
    case True
    then show ?thesis using assms(9) by (simp only: queueAt_setQueueAt [OF assms(2)] if_True Int_commute simp_thms)
  next
    case False
    with separate_disjoint [OF assms(1,2) pl'(1)] separate_disjoint [OF assms(1,3) pl'(1)] pl'(2) assms(8)
    show ?thesis by (simp only: queueAt_setQueueAt [OF assms(2)] if_False) blast
  qed
qed

text \<open>The counters of a family: how many workers are active and how many a child accounts for.\<close>

definition load :: "semaFamily \<Rightarrow> nat \<Rightarrow> int" where
  "load f c = int (length (itemsAt f (ChildQueue c))) + katp f c"

definition within :: "semaFamily \<Rightarrow> bool" where
  "within f \<longleftrightarrow> int (length (itemsAt f ParentActive)) \<le> max 0 (plimit f)"

definition busy :: "semaFamily \<Rightarrow> bool" where
  "busy f \<longleftrightarrow> itemsAt f ParentAwait \<noteq> [] \<longrightarrow> plimit f \<le> int (length (itemsAt f ParentActive))"

definition kwithin :: "semaFamily \<Rightarrow> nat \<Rightarrow> bool" where
  "kwithin f c \<longleftrightarrow> load f c \<le> max 0 (klimit f c)"

definition kbusy :: "semaFamily \<Rightarrow> nat \<Rightarrow> bool" where
  "kbusy f c \<longleftrightarrow> itemsAt f (ChildAwait c) \<noteq> [] \<longrightarrow> klimit f c \<le> load f c"

lemma owned_simps [simp]: "owned c [] = 0" "owned c (xs @ ys) = owned c xs + owned c ys"
  "owned c (e # es) = (if stacker e = Some c then 1 else 0) + owned c es"
  by (simp_all add: owned_def)

lemma owned_nonneg: "0 \<le> owned c es"
  by (simp add: owned_def)

lemma owned_all: "\<forall>e \<in> set es. stacker e = Some c \<Longrightarrow> owned d es = (if d = c then int (length es) else 0)"
  by (induction es) auto

lemma owned_afterValid: "owned c (afterValid sl n es) + owned c (moved sl n es) \<le> owned c es"
  by (induction sl n es rule: afterValid.induct) (auto simp: moved_def split: if_splits)

lemma owned_remove:
  "distinct (ids es) \<Longrightarrow> e \<in> set es \<Longrightarrow>
   owned c (filter (\<lambda>x. eid x \<noteq> eid e) es) = owned c es - (if stacker e = Some c then 1 else 0)"
  by (induction es) (auto simp: filter_other_id)

lemma separate_addWorkers [simp]: "separate (addWorkers f c n) = separate f"
  by (simp add: separate_def fam_simps place_ok_cong [OF addWorkers_simps(1)])

subsection \<open>Children pass their awaiters to the parent\<close>

text \<open>
  \<open>passOn\<close> moves the first \<open>n\<close> live awaiters of a child to the wait queue of the parent, and \<open>activate\<close>
  moves the first \<open>n\<close> live awaiters of the parent to its working queue: all moves of the code are
  these, with different \<open>n\<close>.
\<close>

definition passOn :: "slots \<Rightarrow> nat \<Rightarrow> semaFamily \<Rightarrow> nat \<Rightarrow> semaFamily" where
  "passOn sl n f c =
     (case moveLoop sl n (queueAt f (ChildAwait c)) (awaitQ f) [] of
        (aw, q, ls) \<Rightarrow> addWorkers (setQueueAt (setQueueAt f (ChildAwait c) aw) ParentAwait q) c (int (length ls)))"

definition activate :: "slots \<Rightarrow> nat \<Rightarrow> semaFamily \<Rightarrow> semaFamily \<times> StepLink list" where
  "activate sl n f =
     (case moveLoop sl n (awaitQ f) (activeQ f) [] of
        (aw, q, ls) \<Rightarrow> (setQueueAt (setQueueAt f ParentAwait aw) ParentActive q, ls))"

definition freed :: "slots \<Rightarrow> nat \<Rightarrow> semaFamily \<Rightarrow> nat \<Rightarrow> dependencyQueueEntry list" where
  "freed sl n f c = moved sl n (itemsAt f (ChildAwait c))"

definition woken :: "slots \<Rightarrow> nat \<Rightarrow> semaFamily \<Rightarrow> dependencyQueueEntry list" where
  "woken sl n f = moved sl n (itemsAt f ParentAwait)"

definition room :: "semaFamily \<Rightarrow> nat" where
  "room f = nat (plimit f - int (length (itemsAt f ParentActive)))"

definition kroom :: "semaFamily \<Rightarrow> nat \<Rightarrow> nat" where
  "kroom f c = nat (klimit f c - load f c)"

lemma freed_subset: "set (freed sl n f c) \<subseteq> set (itemsAt f (ChildAwait c))"
  unfolding freed_def by (rule moved_subset)

lemma woken_subset: "set (woken sl n f) \<subseteq> set (itemsAt f ParentAwait)"
  unfolding woken_def by (rule moved_subset)

lemma moveLoop_disjoint:
  assumes "q_ok p" "q_ok q" "idset p \<inter> idset q = {}" "moveLoop sl n p q links = (p', q', links')"
  shows "idset p' \<subseteq> idset p" "idset q' \<subseteq> idset p \<union> idset q" "idset p' \<inter> idset q' = {}"
proof -
  note spec = moveLoop_spec [OF assms]
  show sub: "idset p' \<subseteq> idset p" using spec afterValid_subset by (metis image_mono set_map)
  show "idset q' \<subseteq> idset p \<union> idset q" using spec moved_subset by fastforce
  have "idset p' \<inter> set (ids (moved sl n (items p))) = {}"
    using moved_not_after [of "items p"] assms(1) spec by (simp only: q_ok_def Int_commute)
  moreover have "idset p' \<inter> idset q = {}" using assms(3) sub by blast
  moreover have "idset q' = idset q \<union> set (ids (moved sl n (items p)))" using spec by auto
  ultimately show "idset p' \<inter> idset q' = {}" by blast
qed

lemma passOn_queues:
  assumes "separate f" "c < length (kids f)"
  shows "separate (passOn sl n f c)"
    and "itemsAt (passOn sl n f c) pl =
       (if pl = ParentAwait then itemsAt f ParentAwait @ freed sl n f c
        else if pl = ChildAwait c then afterValid sl n (itemsAt f (ChildAwait c))
        else itemsAt f pl)"
    and "katp (passOn sl n f c) d = (if d = c then katp f c + int (length (freed sl n f c)) else katp f d)"
    and "klimit (passOn sl n f c) d = klimit f d" "plimit (passOn sl n f c) = plimit f"
    and "length (kids (passOn sl n f c)) = length (kids f)"
proof -
  let ?A = "queueAt f (ChildAwait c)"
  obtain aw q ls where m: "moveLoop sl n ?A (awaitQ f) [] = (aw, q, ls)" by (metis prod_cases3)
  have ok: "q_ok ?A" "q_ok (awaitQ f)" using assms by (simp_all only: separate_queues)
  have dj: "idset ?A \<inter> idset (awaitQ f) = {}"
    using separate_disjoint [OF assms(1), of "ChildAwait c" ParentAwait] assms(2) by (simp only: place_ok_simps queueAt.simps) auto
  note spec = moveLoop_spec [OF ok dj m, folded freed_def] and dis = moveLoop_disjoint [OF ok dj m]
  have eq: "passOn sl n f c = addWorkers (setQueueAt (setQueueAt f (ChildAwait c) aw) ParentAwait q) c (int (length ls))"
    using m by (simp add: passOn_def)
  have k: "place_ok f (ChildAwait c)" "c < length (kids (setQueueAt (setQueueAt f (ChildAwait c) aw) ParentAwait q))"
    using assms(2) by (simp_all add: fam_simps del: setQueueAt.simps)
  have "separate (setQueueAt (setQueueAt f (ChildAwait c) aw) ParentAwait q)"
    using separate_move [OF assms(1) k(1), of ParentAwait aw q] spec dis by (simp del: setQueueAt.simps)
  then show "separate (passOn sl n f c)" by (simp add: eq del: setQueueAt.simps)
  show "itemsAt (passOn sl n f c) pl =
       (if pl = ParentAwait then itemsAt f ParentAwait @ freed sl n f c
        else if pl = ChildAwait c then afterValid sl n (itemsAt f (ChildAwait c))
        else itemsAt f pl)"
    using spec k by (simp add: eq fam_simps place_ok_cong [OF kids_setQueueAt(1)] del: setQueueAt.simps)
  show "katp (passOn sl n f c) d = (if d = c then katp f c + int (length (freed sl n f c)) else katp f d)"
    "klimit (passOn sl n f c) d = klimit f d" "plimit (passOn sl n f c) = plimit f"
    "length (kids (passOn sl n f c)) = length (kids f)"
    using spec k assms(2) by (simp_all add: eq fam_simps place_ok_cong [OF kids_setQueueAt(1)] del: setQueueAt.simps)
qed

lemma owners_child: "owners_ok f \<Longrightarrow> c < length (kids f) \<Longrightarrow> e \<in> set (itemsAt f (ChildAwait c)) \<Longrightarrow> stacker e = Some c"
  "owners_ok f \<Longrightarrow> c < length (kids f) \<Longrightarrow> e \<in> set (itemsAt f (ChildQueue c)) \<Longrightarrow> stacker e = Some c"
  unfolding owners_ok_def by blast+

lemma owners_parent: "owners_ok f \<Longrightarrow> e \<in> set (itemsAt f ParentActive) \<union> set (itemsAt f ParentAwait) \<Longrightarrow>
   stacker e = Some c \<Longrightarrow> c < length (kids f)"
  unfolding owners_ok_def by blast

text \<open>An update that only moves or drops entries keeps the owners.\<close>

lemma owners_okI:
  assumes "\<And>c e. c < length (kids f') \<Longrightarrow> e \<in> set (itemsAt f' (ChildQueue c)) \<or> e \<in> set (itemsAt f' (ChildAwait c)) \<Longrightarrow> stacker e = Some c"
    and "\<And>c e. e \<in> set (itemsAt f' ParentActive) \<or> e \<in> set (itemsAt f' ParentAwait) \<Longrightarrow> stacker e = Some c \<Longrightarrow> c < length (kids f')"
  shows "owners_ok f'"
  using assms unfolding owners_ok_def by blast

lemma passOn_fam_ok:
  assumes "fam_ok f" "c < length (kids f)"
  shows "fam_ok (passOn sl n f c)"
proof -
  have f: "separate f" "owners_ok f" "counts_ok f" using assms(1) by (simp_all add: fam_ok_def)
  note u = passOn_queues [OF f(1) assms(2), of sl n]
  have fr: "stacker e = Some c" if "e \<in> set (freed sl n f c)" for e
    using that freed_subset owners_child(1) [OF f(2) assms(2)] by blast
  have "owners_ok (passOn sl n f c)"
  proof (rule owners_okI)
    fix d e assume "d < length (kids (passOn sl n f c))"
      "e \<in> set (itemsAt (passOn sl n f c) (ChildQueue d)) \<or> e \<in> set (itemsAt (passOn sl n f c) (ChildAwait d))"
    then show "stacker e = Some d"
      using owners_child [OF f(2), of d e] afterValid_subset [of sl n "itemsAt f (ChildAwait c)"]
      by (auto simp: u(2,6) simp del: queueAt.simps split: if_splits)
  next
    fix d e assume "e \<in> set (itemsAt (passOn sl n f c) ParentActive) \<or> e \<in> set (itemsAt (passOn sl n f c) ParentAwait)"
      "stacker e = Some d"
    then show "d < length (kids (passOn sl n f c))"
      using owners_parent [OF f(2), of e d] fr [of e] assms(2) by (auto simp: u(2,6) simp del: queueAt.simps)
  qed
  moreover have "counts_ok (passOn sl n f c)"
    using f(3) owned_all [of "freed sl n f c" c] fr
    by (auto simp: counts_ok_def u(2,3,6) simp del: queueAt.simps)
  ultimately show ?thesis using u(1) by (simp add: fam_ok_def)
qed

lemma passOn_load:
  assumes "separate f" "c < length (kids f)"
  shows "load (passOn sl n f c) d = (if d = c then load f c + int (length (freed sl n f c)) else load f d)"
    and "load (passOn sl n f c) c \<le> load f c + int n"
    and "itemsAt (passOn sl n f c) (ChildAwait c) \<noteq> [] \<Longrightarrow> load (passOn sl n f c) c = load f c + int n"
    and "kbusy f d \<Longrightarrow> d \<noteq> c \<Longrightarrow> kbusy (passOn sl n f c) d"
    and "kwithin f d \<Longrightarrow> d \<noteq> c \<Longrightarrow> kwithin (passOn sl n f c) d"
proof -
  note u = passOn_queues [OF assms, of sl n]
  show l: "load (passOn sl n f c) d = (if d = c then load f c + int (length (freed sl n f c)) else load f d)" for d
    by (simp add: load_def u(2,3) del: queueAt.simps)
  have le: "length (freed sl n f c) \<le> n" by (simp add: freed_def moved_length)
  then show "load (passOn sl n f c) c \<le> load f c + int n" by (simp add: l)
  show "load (passOn sl n f c) c = load f c + int n" if "itemsAt (passOn sl n f c) (ChildAwait c) \<noteq> []"
  proof (rule ccontr)
    assume "\<not> ?thesis"
    with le have "length (moved sl n (itemsAt f (ChildAwait c))) < n" by (simp add: l freed_def del: queueAt.simps)
    then have "itemsAt (passOn sl n f c) (ChildAwait c) = []" by (simp add: u(2) afterValid_full del: queueAt.simps)
    with that show False by blast
  qed
  show "kbusy f d \<Longrightarrow> d \<noteq> c \<Longrightarrow> kbusy (passOn sl n f c) d" "kwithin f d \<Longrightarrow> d \<noteq> c \<Longrightarrow> kwithin (passOn sl n f c) d"
    by (simp_all add: kbusy_def kwithin_def l u(2,4) del: queueAt.simps)
qed

lemma sub_updateQueue_passOn:
  assumes "separate f" "c < length (kids f)"
  shows "sub_updateQueue sl f c = passOn sl (kroom f c) f c"
proof -
  let ?A = "queueAt f (ChildAwait c)"
  have "q_ok (queueAt f (ChildQueue c))" using assms by (simp only: separate_queues)
  then have n: "nat (klimit f c - qcount (queue (sub (kids f ! c))) - katp f c) = kroom f c"
    by (simp add: kroom_def load_def q_ok_count algebra_simps)
  have "moveToInactive sl ?A m q = (case moveLoop sl (nat m) ?A q [] of (p', q', ls) \<Rightarrow> (p', q', int (length ls)))" for m q
    using moveInactiveLoop_eq [of sl "nat m" ?A q 0 "[]"] by (simp add: moveToInactive_def)
  then show ?thesis by (simp add: sub_updateQueue_def passOn_def Let_def n split: prod.splits)
qed

text \<open>With the free room as \<open>n\<close> a child ends up with its capacity used or with nobody waiting.\<close>

lemma sub_updateQueue_load:
  assumes "separate f" "c < length (kids f)"
  shows "kbusy (sub_updateQueue sl f c) c" and "load (sub_updateQueue sl f c) c \<le> max (load f c) (klimit f c)"
proof -
  note eq = sub_updateQueue_passOn [OF assms] and l = passOn_load(1-3) [OF assms, of sl "kroom f c"]
  show "load (sub_updateQueue sl f c) c \<le> max (load f c) (klimit f c)" using l(2) by (simp add: eq kroom_def split: if_splits)
  show "kbusy (sub_updateQueue sl f c) c"
    unfolding kbusy_def eq passOn_queues(4) [OF assms] using l(3) by (auto simp: kroom_def simp del: queueAt.simps)
qed

subsection \<open>The parent activates its awaiters\<close>

lemma activate_queues:
  assumes "separate f" "activate sl n f = (f', links)"
  shows "separate f'"
    and "itemsAt f' pl =
       (if pl = ParentActive then itemsAt f ParentActive @ woken sl n f
        else if pl = ParentAwait then afterValid sl n (itemsAt f ParentAwait)
        else itemsAt f pl)"
    and "kids f' = kids f" "plimit f' = plimit f" "links = map (stepOf sl) (woken sl n f)"
proof -
  obtain aw q ls where m: "moveLoop sl n (awaitQ f) (activeQ f) [] = (aw, q, ls)" by (metis prod_cases3)
  have ok: "q_ok (awaitQ f)" "q_ok (activeQ f)" using assms(1) by (simp_all only: separate_queues)
  have dj: "idset (awaitQ f) \<inter> idset (activeQ f) = {}"
    using separate_disjoint [OF assms(1), of ParentAwait ParentActive] by (simp only: place_ok_simps queueAt.simps) auto
  have wk: "woken sl n f = moved sl n (items (awaitQ f))" by (simp add: woken_def)
  note spec = moveLoop_spec [OF ok dj m, folded wk] and dis = moveLoop_disjoint [OF ok dj m]
  have "separate (setQueueAt (setQueueAt f ParentAwait aw) ParentActive q)"
    using separate_move [OF assms(1), of ParentAwait ParentActive aw q] spec dis by (simp del: setQueueAt.simps)
  moreover have eq: "f' = setQueueAt (setQueueAt f ParentAwait aw) ParentActive q" "links = ls"
    using m assms(2) by (auto simp: activate_def)
  ultimately show "separate f'" by simp
  show "itemsAt f' pl =
       (if pl = ParentActive then itemsAt f ParentActive @ woken sl n f
        else if pl = ParentAwait then afterValid sl n (itemsAt f ParentAwait)
        else itemsAt f pl)"
    using spec by (simp add: eq fam_simps place_ok_cong [OF kids_setQueueAt(1)] del: setQueueAt.simps)
  show "kids f' = kids f" by (simp add: eq family_updates)
  show "plimit f' = plimit f" "links = map (stepOf sl) (woken sl n f)"
    using spec by (simp_all add: eq fam_simps del: setQueueAt.simps)
qed

lemma activate_fam_ok:
  assumes "fam_ok f" "activate sl n f = (f', links)"
  shows "fam_ok f'"
proof -
  have f: "separate f" "owners_ok f" "counts_ok f" using assms(1) by (simp_all add: fam_ok_def)
  note u = activate_queues [OF f(1) assms(2)]
  have "owners_ok f'"
    using f(2) woken_subset [of sl n f]
    unfolding owners_ok_def u(2,3) by (auto simp del: queueAt.simps dest!: subsetD [OF afterValid_subset])
  moreover have "counts_ok f'"
    unfolding counts_ok_def u(3)
  proof (intro allI impI)
    fix c assume "c < length (kids f)"
    then have "owned c (itemsAt f ParentActive) + owned c (itemsAt f ParentAwait) \<le> katp f c"
      using f(3) by (simp add: counts_ok_def del: queueAt.simps)
    with owned_afterValid [of c sl n "itemsAt f ParentAwait"]
    show "owned c (itemsAt f' ParentActive) + owned c (itemsAt f' ParentAwait) \<le> katp f c"
      by (simp add: u(2) woken_def del: queueAt.simps)
  qed
  ultimately show ?thesis using u(1) by (simp add: fam_ok_def)
qed

lemma activate_counts:
  assumes "separate f" "activate sl n f = (f', links)"
  shows "length (itemsAt f' ParentActive) \<le> length (itemsAt f ParentActive) + n"
    and "itemsAt f' ParentAwait \<noteq> [] \<Longrightarrow> length (itemsAt f' ParentActive) = length (itemsAt f ParentActive) + n"
    and "itemsAt f' ParentAwait \<noteq> [] \<Longrightarrow> itemsAt f ParentAwait \<noteq> []"
    and "load f' c = load f c" "kbusy f' c = kbusy f c" "kwithin f' c = kwithin f c"
proof -
  note u = activate_queues [OF assms]
  have le: "length (woken sl n f) \<le> n" by (simp add: woken_def moved_length)
  then show "length (itemsAt f' ParentActive) \<le> length (itemsAt f ParentActive) + n" by (simp add: u(2) del: queueAt.simps)
  show "length (itemsAt f' ParentActive) = length (itemsAt f ParentActive) + n" if "itemsAt f' ParentAwait \<noteq> []"
  proof (rule ccontr)
    assume "\<not> ?thesis"
    with le have "length (moved sl n (itemsAt f ParentAwait)) < n" by (simp add: u(2) woken_def del: queueAt.simps)
    then have "itemsAt f' ParentAwait = []" by (simp add: u(2) afterValid_full del: queueAt.simps)
    with that show False by blast
  qed
  show "itemsAt f ParentAwait \<noteq> []" if "itemsAt f' ParentAwait \<noteq> []"
    using that afterValid_subset [of sl n "itemsAt f ParentAwait"] by (auto simp: u(2) simp del: queueAt.simps)
  show "load f' c = load f c" "kbusy f' c = kbusy f c" "kwithin f' c = kwithin f c"
    by (simp_all add: load_def kbusy_def kwithin_def u(2,3) del: queueAt.simps)
qed

lemma updateParent_activate:
  assumes "separate f" shows "updateParent sl f = activate sl (room f) f"
proof -
  have "q_ok (activeQ f)" using assms by (simp only: separate_queues)
  then have "nat (plimit f - qcount (activeQ f)) = room f" by (simp add: room_def q_ok_count)
  then show ?thesis
    by (auto simp: updateParent_def updateQueue_def moveToActive_def activate_def family_updates
        split: prod.splits)
qed

lemma updateParent_busy:
  assumes "separate f" "updateParent sl f = (f', links)"
  shows "busy f'" and "within f \<Longrightarrow> within f'"
    and "length (itemsAt f' ParentActive) \<le> max (length (itemsAt f ParentActive)) (nat (plimit f))"
proof -
  have a: "activate sl (room f) f = (f', links)" using assms by (simp add: updateParent_activate)
  note u = activate_queues [OF assms(1) a] and l = activate_counts [OF assms(1) a]
  show "busy f'"
    unfolding busy_def u(4) using l(2) by (auto simp: room_def simp del: queueAt.simps)
  show "within f \<Longrightarrow> within f'"
    unfolding within_def u(4) using l(1) by (auto simp: room_def simp del: queueAt.simps)
  show "length (itemsAt f' ParentActive) \<le> max (length (itemsAt f ParentActive)) (nat (plimit f))"
    using l(1) by (auto simp: room_def simp del: queueAt.simps)
qed

end
