(* ===== verification/Sync_Family.thy ===== *)
theory Sync_Family
  imports Sync_Moves
begin

text \<open>
  Every operation of a family of semaphores keeps the invariant of the family, keeps the workers within
  the limits, and leaves no capacity unused while slots are waiting: release, creation, partial release
  and acquisition, and the adjustment of limits.
\<close>

subsection \<open>Release\<close>

lemma getQueue_Some: "getQueue f i = Some pl \<Longrightarrow> place_ok f pl \<and> contains (queueAt f pl) i"
  unfolding getQueue_def using find_mem [of _ "places f" pl] by (auto simp: places_iff)

lemma getQueue_None: "getQueue f i = None \<longleftrightarrow> fresh f i"
  by (auto simp: getQueue_def find_None_iff places_iff contains_def fresh_def)

lemma getQueue_unique:
  assumes "separate f" "place_ok f pl" "contains (queueAt f pl) i"
  shows "getQueue f i = Some pl"
proof -
  have "getQueue f i \<noteq> None" using assms(2,3) by (auto simp: getQueue_None fresh_def contains_def)
  then obtain pl' where pl': "getQueue f i = Some pl'" by blast
  with separate_disjoint [OF assms(1,2), of pl'] getQueue_Some [OF pl'] assms(3) show ?thesis
    unfolding contains_def by blast
qed

lemma removeAt_fields:
  assumes "place_ok f pl"
  shows "itemsAt (removeAt f pl i) pl' = (if pl' = pl then filter (\<lambda>e. eid e \<noteq> i) (itemsAt f pl) else itemsAt f pl')"
    "length (kids (removeAt f pl i)) = length (kids f)" "plimit (removeAt f pl i) = plimit f"
    "klimit (removeAt f pl i) c = klimit f c" "katp (removeAt f pl i) c = katp f c"
    "subFlags (kids (removeAt f pl i) ! c) = subFlags (kids f ! c)"
  using assms by (simp_all add: removeAt_def fam_simps queue_simps del: setQueueAt.simps queueAt.simps)

lemma removeAt_separate:
  assumes "separate f" "place_ok f pl" "contains (queueAt f pl) i"
  shows "separate (removeAt f pl i)"
  unfolding removeAt_def
  by (rule separate_shrink [OF assms(1,2) removeFromQueue_ok [OF separateD [OF assms(1,2)] assms(3)]])
    (auto simp: queue_simps)

lemma owned_filter_le: "owned c (filter P es) \<le> owned c es"
  by (induction es) auto

lemma owners_ok_mono:
  assumes "owners_ok f" "length (kids f') = length (kids f)" "\<And>pl. set (itemsAt f' pl) \<subseteq> set (itemsAt f pl)"
  shows "owners_ok f'"
proof (rule owners_okI)
  fix c e assume "c < length (kids f')" "e \<in> set (itemsAt f' (ChildQueue c)) \<or> e \<in> set (itemsAt f' (ChildAwait c))"
  with owners_child [OF assms(1), of c e] assms(2,3) show "stacker e = Some c" by (metis subsetD)
next
  fix c e assume "e \<in> set (itemsAt f' ParentActive) \<or> e \<in> set (itemsAt f' ParentAwait)" "stacker e = Some c"
  with owners_parent [OF assms(1), of e c] assms(2,3) show "c < length (kids f')" by (metis UnCI subsetD)
qed

lemma owners_ok_addWorkers [simp]: "owners_ok (addWorkers f c n) = owners_ok f"
  by (simp add: owners_ok_def queueAt_addWorkers addWorkers_simps(1) del: queueAt.simps)

lemma removeAt_fam_ok:
  assumes "fam_ok f" "place_ok f pl" "contains (queueAt f pl) i"
  shows "fam_ok (removeAt f pl i)"
proof -
  have f: "separate f" "owners_ok f" "counts_ok f" using assms(1) by (simp_all add: fam_ok_def)
  note r = removeAt_fields [OF assms(2), of i]
  have "owners_ok (removeAt f pl i)"
    by (rule owners_ok_mono [OF f(2) r(2)]) (auto simp: r(1) simp del: queueAt.simps)
  moreover have "counts_ok (removeAt f pl i)"
    unfolding counts_ok_def r(2,5)
  proof (intro allI impI)
    fix c assume "c < length (kids f)"
    then have "owned c (itemsAt f ParentActive) + owned c (itemsAt f ParentAwait) \<le> katp f c"
      using f(3) by (simp add: counts_ok_def del: queueAt.simps)
    with owned_filter_le [of c "\<lambda>e. eid e \<noteq> i" "itemsAt f ParentActive"] owned_filter_le [of c "\<lambda>e. eid e \<noteq> i" "itemsAt f ParentAwait"]
    show "owned c (itemsAt (removeAt f pl i) ParentActive) + owned c (itemsAt (removeAt f pl i) ParentAwait) \<le> katp f c"
      unfolding r(1) by (cases pl) (auto simp del: queueAt.simps)
  qed
  ultimately show ?thesis using removeAt_separate [OF f(1) assms(2,3)] by (simp add: fam_ok_def)
qed

definition isParent :: "place \<Rightarrow> bool" where
  "isParent pl \<longleftrightarrow> pl = ParentActive \<or> pl = ParentAwait"

lemma isParent_ok [simp]: "isParent pl \<Longrightarrow> place_ok f pl"
  by (auto simp: isParent_def)

lemma uncount_fam_ok:
  assumes "fam_ok f" "isParent pl" "e \<in> set (itemsAt f pl)" "stacker e = Some c"
  shows "fam_ok (addWorkers (removeAt f pl (eid e)) c (- 1))"
proof -
  have f: "separate f" "owners_ok f" "counts_ok f" using assms(1) by (simp_all add: fam_ok_def)
  have ct: "contains (queueAt f pl) (eid e)" using assms(3) by (simp add: contains_def)
  have c: "c < length (kids f)" using owners_parent [OF f(2) _ assms(4)] assms(2,3) by (auto simp: isParent_def)
  note r = removeAt_fields [OF isParent_ok [OF assms(2)], of f "eid e"]
  have dist: "distinct (ids (itemsAt f pl))" using separateD [OF f(1) isParent_ok [OF assms(2)]] by (simp add: q_ok_def)
  have ok: "fam_ok (removeAt f pl (eid e))" by (rule removeAt_fam_ok [OF assms(1) isParent_ok [OF assms(2)] ct])
  have cnt: "owned d (itemsAt (removeAt f pl (eid e)) ParentActive) + owned d (itemsAt (removeAt f pl (eid e)) ParentAwait) \<le>
      (if d = c then katp f c - 1 else katp f d)" if "d < length (kids f)" for d
  proof -
    have "owned d (itemsAt f ParentActive) + owned d (itemsAt f ParentAwait) \<le> katp f d"
      using f(3) that by (simp add: counts_ok_def del: queueAt.simps)
    then show ?thesis using owned_remove [OF dist assms(3), of d] assms(2,4)
      unfolding r(1) by (auto simp: isParent_def simp del: queueAt.simps)
  qed
  have "counts_ok (addWorkers (removeAt f pl (eid e)) c (- 1))"
    unfolding counts_ok_def
  proof (intro allI impI)
    fix d assume "d < length (kids (addWorkers (removeAt f pl (eid e)) c (- 1)))"
    then have "d < length (kids f)" by (simp add: fam_simps r)
    from cnt [OF this] c show "owned d (itemsAt (addWorkers (removeAt f pl (eid e)) c (- 1)) ParentActive) +
        owned d (itemsAt (addWorkers (removeAt f pl (eid e)) c (- 1)) ParentAwait) \<le> katp (addWorkers (removeAt f pl (eid e)) c (- 1)) d"
      by (simp add: fam_simps r(2,5) del: queueAt.simps split: if_splits)
  qed
  moreover have "owners_ok (addWorkers (removeAt f pl (eid e)) c (- 1))"
    using ok by (simp add: fam_ok_def)
  ultimately show ?thesis using ok by (simp add: fam_ok_def)
qed

text \<open>A release from the parent's queues: the owner passes on one of its awaiters.\<close>

lemma parent_release:
  assumes "fam_ok f" "isParent pl" "e \<in> set (itemsAt f pl)" "eid dep = eid e" "stacker dep = stacker e"
    and f2: "f2 = updateAfterRelease sl (removeAt f pl (eid dep)) dep pl"
  shows "fam_ok f2" "length (kids f2) = length (kids f)" "plimit f2 = plimit f" "klimit f2 d = klimit f d"
    "itemsAt f2 ParentActive = (if pl = ParentActive then filter (\<lambda>x. eid x \<noteq> eid e) (itemsAt f ParentActive) else itemsAt f ParentActive)"
    "d < length (kids f) \<Longrightarrow> kwithin f d \<Longrightarrow> kwithin f2 d"
    "d < length (kids f) \<Longrightarrow> kbusy f d \<Longrightarrow> kbusy f2 d"
proof -
  have f: "separate f" "owners_ok f" using assms(1) by (simp_all add: fam_ok_def)
  have ct: "contains (queueAt f pl) (eid e)" using assms(3) by (simp add: contains_def)
  note r = removeAt_fields [OF isParent_ok [OF assms(2)], of f "eid e"]
  have pl: "pl = ParentActive \<or> pl = ParentAwait" using assms(2) by (simp add: isParent_def)
  have all: "fam_ok f2 \<and> length (kids f2) = length (kids f) \<and> plimit f2 = plimit f \<and> klimit f2 d = klimit f d \<and>
    itemsAt f2 ParentActive = (if pl = ParentActive then filter (\<lambda>x. eid x \<noteq> eid e) (itemsAt f ParentActive) else itemsAt f ParentActive) \<and>
    (d < length (kids f) \<longrightarrow> kwithin f d \<longrightarrow> kwithin f2 d) \<and> (d < length (kids f) \<longrightarrow> kbusy f d \<longrightarrow> kbusy f2 d)" for d
  proof (cases "stacker e")
    case None
    then have "f2 = removeAt f pl (eid e)" using assms(4,5) by (simp add: f2 updateAfterRelease_def)
    with removeAt_fam_ok [OF assms(1) isParent_ok [OF assms(2)] ct] r pl show ?thesis
      by (auto simp: kwithin_def kbusy_def load_def simp del: queueAt.simps)
  next
    case (Some c)
    let ?g = "addWorkers (removeAt f pl (eid e)) c (- 1)"
    have eq: "f2 = sub_updateQueue sl ?g c"
      using Some assms(4,5) pl by (auto simp: f2 updateAfterRelease_def afterRelease_def)
    have c: "c < length (kids f)" using owners_parent [OF f(2) _ Some] assms(3) pl by auto
    have g: "fam_ok ?g" by (rule uncount_fam_ok [OF assms(1-3) Some])
    then have gs: "separate ?g" by (simp add: fam_ok_def)
    have cg: "c < length (kids ?g)" using c by (simp add: fam_simps r)
    have lg: "load ?g d = (if d = c then load f c - 1 else load f d)" for d
      using c pl by (auto simp: load_def fam_simps r simp del: queueAt.simps)
    note pass = sub_updateQueue_passOn [OF gs cg, of sl]
    note u = passOn_queues [OF gs cg, of sl "kroom ?g c", folded pass]
      and l = passOn_load(1) [OF gs cg, of sl "kroom ?g c", folded pass] and m = sub_updateQueue_load [OF gs cg, of sl]
    have "klimit f2 d = klimit f d" by (simp add: eq u(4) fam_simps r)
    moreover have "load f2 d \<le> (if d = c then max (load f c - 1) (klimit f c) else load f d)"
      using m(2) lg by (cases "d = c") (simp_all add: eq l fam_simps r)
    moreover have "kbusy f2 d = kbusy f d" if "d \<noteq> c"
      using that pl by (simp add: kbusy_def eq u(2,4) l lg fam_simps r del: queueAt.simps) auto
    ultimately show ?thesis
      using passOn_fam_ok [OF g cg, of sl "kroom ?g c", folded pass] u(2,5,6) m(1) pl
      by (auto simp: eq fam_simps r kwithin_def simp del: queueAt.simps split: if_splits)
  qed
  show "fam_ok f2" "length (kids f2) = length (kids f)" "plimit f2 = plimit f" "klimit f2 d = klimit f d"
    "itemsAt f2 ParentActive = (if pl = ParentActive then filter (\<lambda>x. eid x \<noteq> eid e) (itemsAt f ParentActive) else itemsAt f ParentActive)"
    using all [of d] by blast+
  show "d < length (kids f) \<Longrightarrow> kwithin f d \<Longrightarrow> kwithin f2 d" "d < length (kids f) \<Longrightarrow> kbusy f d \<Longrightarrow> kbusy f2 d"
    using all [of d] by blast+
qed

subsection \<open>Adding an entry\<close>

lemma owned_insertBefore: "owned c (insertBefore i e es) = owned c (e # es)"
  by (induction es) auto

lemma addSlot_with_owned:
  "addSlot_with sl q e sf af = Ok (q', e') \<Longrightarrow> owned c (items q') = owned c (e' # items q)"
  using addSlot_with_cases [of sl q e sf af q' e'] by (auto simp: queue_simps addBefore_def owned_insertBefore)

text \<open>An entry that is put into a queue belongs there.\<close>

definition belongs :: "semaFamily \<Rightarrow> place \<Rightarrow> dependencyQueueEntry \<Rightarrow> bool" where
  "belongs f pl e = (case pl of ChildQueue c \<Rightarrow> stacker e = Some c | ChildAwait c \<Rightarrow> stacker e = Some c
     | _ \<Rightarrow> \<forall>c. stacker e = Some c \<longrightarrow> c < length (kids f))"

lemma put_separate:
  assumes "separate f" "place_ok f pl" "q_ok q" "set (items q) = insert e (set (itemsAt f pl))" "fresh f (eid e)"
  shows "separate (setQueueAt f pl q)"
  by (rule separate_add [OF assms(1-3) _ assms(5)]) (use assms(4) in auto)

lemma put_owners:
  assumes "owners_ok f" "place_ok f pl" "set (items q) = insert e (set (itemsAt f pl))" "belongs f pl e"
  shows "owners_ok (setQueueAt f pl q)"
proof -
  have it: "itemsAt (setQueueAt f pl q) pl' = (if pl' = pl then items q else itemsAt f pl')" for pl'
    using assms(2) by (simp add: fam_simps del: setQueueAt.simps queueAt.simps)
  show ?thesis
  proof (rule owners_okI, unfold it kids_setQueueAt(1))
    fix c x assume "c < length (kids f)" "x \<in> set (if ChildQueue c = pl then items q else itemsAt f (ChildQueue c)) \<or>
      x \<in> set (if ChildAwait c = pl then items q else itemsAt f (ChildAwait c))"
    with owners_child [OF assms(1), of c x] assms(3,4) show "stacker x = Some c"
      by (cases pl) (auto simp: belongs_def simp del: queueAt.simps split: if_splits)
  next
    fix c x assume "x \<in> set (if ParentActive = pl then items q else itemsAt f ParentActive) \<or>
      x \<in> set (if ParentAwait = pl then items q else itemsAt f ParentAwait)" "stacker x = Some c"
    with owners_parent [OF assms(1), of x c] assms(3,4) show "c < length (kids f)"
      by (cases pl) (auto simp: belongs_def simp del: queueAt.simps split: if_splits)
  qed
qed

lemma put_counts:
  assumes "counts_ok f" "place_ok f pl" "\<And>c. owned c (items q) = owned c (e # itemsAt f pl)"
    "n = (if isParent pl \<and> stacker e = Some c then 1 else 0)" "c < length (kids f)"
    "isParent pl \<Longrightarrow> stacker e = None \<or> stacker e = Some c"
  shows "counts_ok (addWorkers (setQueueAt f pl q) c n)"
  unfolding counts_ok_def
proof (intro allI impI)
  fix d assume "d < length (kids (addWorkers (setQueueAt f pl q) c n))"
  then have d: "d < length (kids f)" by (simp add: fam_simps)
  then have "owned d (itemsAt f ParentActive) + owned d (itemsAt f ParentAwait) \<le> katp f d"
    using assms(1) by (simp add: counts_ok_def del: queueAt.simps)
  moreover have k: "katp (addWorkers (setQueueAt f pl q) c n) d = katp f d + (if d = c then n else 0)"
    using assms(2,5) by (simp add: fam_simps)
  moreover have it: "itemsAt (addWorkers (setQueueAt f pl q) c n) pl' = (if pl' = pl then items q else itemsAt f pl')" for pl'
    using assms(2) by (simp add: fam_simps del: setQueueAt.simps queueAt.simps)
  ultimately show "owned d (itemsAt (addWorkers (setQueueAt f pl q) c n) ParentActive) +
      owned d (itemsAt (addWorkers (setQueueAt f pl q) c n) ParentAwait) \<le> katp (addWorkers (setQueueAt f pl q) c n) d"
    using assms(3) [of d] assms(4,6) by (cases pl) (auto simp: it isParent_def simp del: queueAt.simps split: if_splits)
qed

lemma addWorkers_0: "addWorkers f c 0 = f"
  by (cases "c < length (kids f)") (simp_all add: addWorkers_def setKid_def list_update_beyond)

text \<open>Everything that a successful addition promises, with the child's counter moved along.\<close>

lemma put_fam_ok:
  assumes "fam_ok f" "place_ok f pl" "fresh f (eid e)" "belongs f pl e"
    "q_ok q" "set (items q) = insert e (set (itemsAt f pl))" "\<And>c. owned c (items q) = owned c (e # itemsAt f pl)"
    and own: "\<And>c. isParent pl \<Longrightarrow> stacker e = Some c \<Longrightarrow> g = addWorkers (setQueueAt f pl q) c 1"
    and unown: "\<not> isParent pl \<or> stacker e = None \<Longrightarrow> g = setQueueAt f pl q"
  shows "fam_ok g"
proof -
  have f: "separate f" "owners_ok f" "counts_ok f" using assms(1) by (simp_all add: fam_ok_def)
  note s = put_separate [OF f(1) assms(2,5,6,3)] and o = put_owners [OF f(2) assms(2,6,4)]
  show ?thesis
  proof (cases "isParent pl \<and> stacker e \<noteq> None")
    case True
    then obtain c where c: "stacker e = Some c" by auto
    then have "c < length (kids f)" using assms(4) True by (auto simp: belongs_def isParent_def)
    with put_counts [OF f(3) assms(2,7), of 1 c] True c own [of c] s o show ?thesis by (simp add: fam_ok_def)
  next
    case False
    have "counts_ok (setQueueAt f pl q)"
    proof (cases "kids f")
      case Nil
      then show ?thesis using kids_setQueueAt(1) [of f pl q] by (simp add: counts_ok_def)
    next
      case (Cons k ks)
      have "stacker e = None" if "isParent pl" using False that by blast
      with put_counts [OF f(3) assms(2,7), of 0 0] Cons show ?thesis by (simp add: addWorkers_0)
    qed
    with False s o unown show ?thesis by (auto simp: fam_ok_def)
  qed
qed

lemma addSlot_put:
  assumes "addSlot_with sl (queueAt f pl) e sf af = Ok (q, e')" "separate f" "place_ok f pl" "fresh f (eid e)"
  shows "q_ok q" "set (items q) = insert e' (set (itemsAt f pl))" "owned c (items q) = owned c (e' # itemsAt f pl)"
    "length (items q) = Suc (length (itemsAt f pl))" "stacker e' = stacker e" "eid e' = eid e"
  using addSlot_with_ok [OF assms(1) separateD [OF assms(2,3)]] assms(3,4) addSlot_with_owned [OF assms(1), of c]
  by (auto simp: fresh_def)

lemma AddLast_put:
  assumes "separate f" "place_ok f pl" "fresh f (eid e)"
  shows "q_ok (AddLast (queueAt f pl) e)" "set (items (AddLast (queueAt f pl) e)) = insert e (set (itemsAt f pl))"
    "owned c (items (AddLast (queueAt f pl) e)) = owned c (e # itemsAt f pl)"
  using AddLast_ok [OF separateD [OF assms(1,2)]] assms(2,3) by (auto simp: queue_simps fresh_def)

subsection \<open>Creation\<close>

lemma setStacker_fresh: "i \<notin> idset q \<Longrightarrow> setStacker c i q = q"
  by (auto simp: setStacker_def intro!: dependencyQueueHead.equality map_idI)

lemma insertBefore_map:
  "(\<And>x. x \<in> set es \<Longrightarrow> g x = x) \<Longrightarrow> eid (g e) = eid e \<Longrightarrow> map g (insertBefore p e es) = insertBefore p (g e) es"
  by (induction es) (auto simp: map_idI)

lemma setStacker_add:
  assumes "i \<notin> idset q" "eid e = i"
  shows "setStacker c i (AddLast q e) = AddLast q (e\<lparr>stacker := Some c\<rparr>)"
    "setStacker c i (addBefore q p e) = addBefore q p (e\<lparr>stacker := Some c\<rparr>)"
proof -
  have id: "(if eid x = i then x\<lparr>stacker := Some c\<rparr> else x) = x" if "x \<in> set (items q)" for x
    using assms(1) that by auto
  show "setStacker c i (AddLast q e) = AddLast q (e\<lparr>stacker := Some c\<rparr>)"
    using assms(2) id by (simp add: setStacker_def AddLast_def map_idI)
  show "setStacker c i (addBefore q p e) = addBefore q p (e\<lparr>stacker := Some c\<rparr>)"
    using insertBefore_map [of "items q" "\<lambda>x. if eid x = i then x\<lparr>stacker := Some c\<rparr> else x" e p] assms(2) id
    by (simp add: setStacker_def addBefore_def)
qed

lemma AddSlot_setStacker:
  assumes "AddSlot sl i q l flags None = Ok (q', e)" "i \<notin> idset q"
  shows "AddSlot sl i q l flags (Some c) = Ok (setStacker c i q', e\<lparr>stacker := Some c\<rparr>)"
proof -
  have a: "i \<notin> idset (q\<lparr>boostHead := b\<rparr>)" for b using assms(2) by simp
  show ?thesis using assms setStacker_add [OF assms(2)] setStacker_add [OF a]
    by (auto simp: AddSlot_def addSlotWithPriority_def addSlot_with_def newEntry_def Let_def
        split: if_splits list.splits option.splits)
qed

text \<open>What a creation does, for the parent and for a child.\<close>

definition createPlace :: "semaFamily \<Rightarrow> place" where
  "createPlace f = (if canPassThrough (controller (parentSync f)) then ParentActive else ParentAwait)"

lemma createPlace_parent [simp]: "isParent (createPlace f)"
  by (simp add: createPlace_def isParent_def)

lemma createDependency_put:
  "createDependency sl i f holder flags =
     bnd (AddSlot sl i (queueAt f (createPlace f)) holder flags None)
       (\<lambda>(q, e). Ok (setQueueAt f (createPlace f) q, canPassThrough (controller (parentSync f)), e))"
  by (simp add: createDependency_def createPlace_def)

lemma child_create_put:
  assumes "sub_canPassThrough (kids f ! c)" "fresh f i" "child_CreateDependency sl i f c holder flags = Ok (f', d, e)"
  shows "\<exists>q. AddSlot sl i (queueAt f (createPlace f)) holder flags (Some c) = Ok (q, e) \<and>
     f' = addWorkers (setQueueAt f (createPlace f) q) c 1"
proof -
  obtain q e0 where a: "AddSlot sl i (queueAt f (createPlace f)) holder flags None = Ok (q, e0)"
    "e = e0\<lparr>stacker := Some c\<rparr>"
    "f' = addWorkers (setAwaitQ (setActiveQ (setQueueAt f (createPlace f) q)
            (setStacker c i (activeQ (setQueueAt f (createPlace f) q))))
            (setStacker c i (awaitQ (setActiveQ (setQueueAt f (createPlace f) q)
              (setStacker c i (activeQ (setQueueAt f (createPlace f) q))))))) c 1"
    using assms(1,3) by (auto simp: child_CreateDependency_def createDependency_put go_simps Let_def)
  have fr: "i \<notin> idset (queueAt f ParentActive)" "i \<notin> idset (queueAt f ParentAwait)"
    using assms(2) unfolding fresh_def by (metis place_ok_simps(1,2))+
  have "AddSlot sl i (queueAt f (createPlace f)) holder flags (Some c) = Ok (setStacker c i q, e)"
    using AddSlot_setStacker [OF a(1)] fr a(2) by (simp add: createPlace_def split: if_splits)
  moreover have "f' = addWorkers (setQueueAt f (createPlace f) (setStacker c i q)) c 1"
    using a(3) fr setStacker_fresh [of i "activeQ f" c] setStacker_fresh [of i "awaitQ f" c]
    by (simp add: createPlace_def family_updates split: if_splits)
  ultimately show ?thesis by blast
qed

lemma AddSlot_put:
  assumes "AddSlot sl i (queueAt f pl) l flags st = Ok (q, e)" "separate f" "place_ok f pl" "fresh f i"
  shows "q_ok q" "set (items q) = insert e (set (itemsAt f pl))" "owned c (items q) = owned c (e # itemsAt f pl)"
    "length (items q) = Suc (length (itemsAt f pl))" "stacker e = st" "eid e = i"
proof -
  have a: "addSlot_with sl (queueAt f pl) (newEntry i l flags st) False False = Ok (q, e)"
    using assms(1) by (simp add: AddSlot_def addSlotWithPriority_def)
  have i: "fresh f (eid (newEntry i l flags st))" using assms(4) by (simp add: newEntry_def)
  show "q_ok q" "set (items q) = insert e (set (itemsAt f pl))" "owned c (items q) = owned c (e # itemsAt f pl)"
    "length (items q) = Suc (length (itemsAt f pl))" "stacker e = st" "eid e = i"
    using addSlot_put [OF a assms(2,3) i] by (simp_all add: newEntry_def)
qed

lemma belongs_create [simp]: "belongs f (createPlace f) e \<longleftrightarrow> (\<forall>c. stacker e = Some c \<longrightarrow> c < length (kids f))"
  by (simp add: belongs_def createPlace_def)

lemma canPass_iff: "separate f \<Longrightarrow> canPassThrough (controller (parentSync f)) \<longleftrightarrow> int (length (itemsAt f ParentActive)) < plimit f"
  using separate_queues(1) [of f] by (simp add: canPassThrough_def q_ok_count)

lemma sub_canPass_iff: "separate f \<Longrightarrow> c < length (kids f) \<Longrightarrow> sub_canPassThrough (kids f ! c) \<longleftrightarrow> load f c < klimit f c"
  using separate_queues(3) [of f c] by (simp add: sub_canPassThrough_def load_def q_ok_count)

lemma setQueueAt_fields:
  assumes "place_ok f pl"
  shows "itemsAt (setQueueAt f pl q) pl' = (if pl' = pl then items q else itemsAt f pl')"
    "load (setQueueAt f pl q) c = (if pl = ChildQueue c then int (length (items q)) + katp f c else load f c)"
  using assms by (auto simp: fam_simps load_def simp del: setQueueAt.simps queueAt.simps)

lemma create_ok:
  assumes "fam_ok f" "fresh f i" "createDependency sl i f holder flags = Ok (f', d, e)"
  shows "fam_ok f'" "length (kids f') = length (kids f)" "within f \<Longrightarrow> within f'" "busy f \<Longrightarrow> busy f'"
    "kwithin f' c = kwithin f c" "kbusy f' c = kbusy f c"
proof -
  have s: "separate f" using assms(1) by (simp add: fam_ok_def)
  let ?pl = "createPlace f"
  have pk: "place_ok f ?pl" by simp
  obtain q where a: "AddSlot sl i (queueAt f ?pl) holder flags None = Ok (q, e)" and f': "f' = setQueueAt f ?pl q"
    using assms(3) by (auto simp: createDependency_put go_simps)
  note p = AddSlot_put [OF a s pk assms(2)]
  show "fam_ok f'"
    by (rule put_fam_ok [OF assms(1) pk _ _ p(1,2)]) (use p(3,5,6) assms(2) in \<open>simp_all add: f'\<close>)
  show "length (kids f') = length (kids f)" by (simp add: f' fam_simps)
  note it = setQueueAt_fields [OF pk, of q, folded f'] and lim = kids_setQueueAt(2,3) [of f ?pl q, folded f']
  show "within f \<Longrightarrow> within f'" "busy f \<Longrightarrow> busy f'"
    using p(4) canPass_iff [OF s] by (auto simp: within_def busy_def it lim createPlace_def simp del: queueAt.simps)
  show "kwithin f' c = kwithin f c" "kbusy f' c = kbusy f c"
    by (auto simp: kwithin_def kbusy_def it lim(2) [OF pk] createPlace_def simp del: queueAt.simps)
qed

lemma child_create_ok:
  assumes "fam_ok f" "fresh f i" "c < length (kids f)" "child_CreateDependency sl i f c holder flags = Ok (f', d, e)"
  shows "fam_ok f'" "length (kids f') = length (kids f)" "within f \<Longrightarrow> within f'" "busy f \<Longrightarrow> busy f'"
    "kwithin f b \<Longrightarrow> kwithin f' b" "kbusy f b \<Longrightarrow> kbusy f' b"
proof -
  have s: "separate f" using assms(1) by (simp add: fam_ok_def)
  have "fam_ok f' \<and> length (kids f') = length (kids f) \<and> (within f \<longrightarrow> within f') \<and> (busy f \<longrightarrow> busy f') \<and>
    (kwithin f b \<longrightarrow> kwithin f' b) \<and> (kbusy f b \<longrightarrow> kbusy f' b)" for b
  proof (cases "sub_canPassThrough (kids f ! c)")
    case True
    let ?pl = "createPlace f"
    have pk: "place_ok f ?pl" by simp
    obtain q where a: "AddSlot sl i (queueAt f ?pl) holder flags (Some c) = Ok (q, e)"
      and f': "f' = addWorkers (setQueueAt f ?pl q) c 1" using child_create_put [OF True assms(2,4)] by blast
    note p = AddSlot_put [OF a s pk assms(2)]
    have c': "c < length (kids (setQueueAt f ?pl q))" using assms(3) by (simp add: fam_simps)
    have "fam_ok f'"
      by (rule put_fam_ok [OF assms(1) pk _ _ p(1,2)])
        (use p(3,5,6) assms(2,3) in \<open>simp_all add: f'\<close>)
    moreover have it: "itemsAt f' pl' = (if pl' = ?pl then items q else itemsAt f pl')" for pl'
      using setQueueAt_fields(1) [OF pk] by (simp add: f' fam_simps del: queueAt.simps)
    moreover have l: "load f' b = load f b + (if b = c then 1 else 0)" for b
      using c' pk by (auto simp: load_def it f' fam_simps createPlace_def simp del: queueAt.simps)
    moreover have lim: "plimit f' = plimit f" "klimit f' b = klimit f b" "length (kids f') = length (kids f)" for b
      using pk by (simp_all add: f' fam_simps)
    ultimately show ?thesis
      using True p(4) canPass_iff [OF s] sub_canPass_iff [OF s assms(3)]
      by (auto simp: within_def busy_def kwithin_def kbusy_def createPlace_def simp del: queueAt.simps)
  next
    case False
    let ?pl = "ChildAwait c"
    have pk: "place_ok f ?pl" using assms(3) by simp
    obtain q where a: "AddSlot sl i (queueAt f ?pl) holder flags (Some c) = Ok (q, e)" and f': "f' = setQueueAt f ?pl q"
      using False assms(4) by (auto simp: child_CreateDependency_def go_simps)
    note p = AddSlot_put [OF a s pk assms(2)]
    have "fam_ok f'"
      by (rule put_fam_ok [OF assms(1) pk _ _ p(1,2)])
        (use p(3,5,6) assms(2) in \<open>simp_all add: belongs_def f' isParent_def del: setQueueAt.simps\<close>)
    moreover note it = setQueueAt_fields [OF pk, of q, folded f'] and lim = kids_setQueueAt(1-3) [of f ?pl q, folded f']
    ultimately show ?thesis
      using False sub_canPass_iff [OF s assms(3)] lim(3) [OF pk]
      by (auto simp: within_def busy_def kwithin_def kbusy_def it lim(1,2) simp del: queueAt.simps)
  qed
  then show "fam_ok f'" "length (kids f') = length (kids f)" "within f \<Longrightarrow> within f'" "busy f \<Longrightarrow> busy f'"
    "kwithin f b \<Longrightarrow> kwithin f' b" "kbusy f b \<Longrightarrow> kbusy f' b" by blast+
qed

subsection \<open>The other operations\<close>

text \<open>A dependency that a slot holds names the owner that the queued entry has.\<close>

definition known :: "semaFamily \<Rightarrow> dependencyQueueEntry \<Rightarrow> bool" where
  "known f dep \<longleftrightarrow>
     (\<forall>pl. place_ok f pl \<longrightarrow> (\<forall>e \<in> set (itemsAt f pl). eid e = eid dep \<longrightarrow> stacker e = stacker dep))"

lemma queued_entry:
  assumes "separate f" "known f dep" "getQueue f (eid dep) = Some pl"
  obtains "getEntry f dep \<in> set (itemsAt f pl)" "eid (getEntry f dep) = eid dep" "stacker (getEntry f dep) = stacker dep"
    "place_ok f pl" "contains (queueAt f pl) (eid dep)"
proof -
  have pl: "place_ok f pl" "contains (queueAt f pl) (eid dep)" using getQueue_Some [OF assms(3)] by simp_all
  then have "find (\<lambda>e. eid e = eid dep) (itemsAt f pl) \<noteq> None" by (auto simp: find_None_iff contains_def)
  then obtain e where e: "find (\<lambda>e. eid e = eid dep) (itemsAt f pl) = Some e" by blast
  then have "getEntry f dep = e" using assms(3) by (simp add: getEntry_def)
  with find_mem [OF e] pl assms(2) that show ?thesis by (auto simp: known_def)
qed

lemma removeAt_fresh:
  assumes "separate f" "place_ok f pl" "contains (queueAt f pl) i"
  shows "fresh (removeAt f pl i) i"
  unfolding fresh_def
proof (intro allI impI)
  fix pl' assume "place_ok (removeAt f pl i) pl'"
  then have pl': "place_ok f pl'" by (simp add: place_ok_cong [OF removeAt_fields(2) [OF assms(2)]])
  show "i \<notin> idset (queueAt (removeAt f pl i) pl')"
    unfolding removeAt_fields(1) [OF assms(2)]
    using separate_disjoint [OF assms(1,2) pl'] assms(3) by (cases "pl' = pl") (auto simp: contains_def)
qed

definition all_within :: "semaFamily \<Rightarrow> bool" where
  "all_within f \<longleftrightarrow> within f \<and> (\<forall>c < length (kids f). kwithin f c)"

definition all_busy :: "semaFamily \<Rightarrow> bool" where
  "all_busy f \<longleftrightarrow> busy f \<and> (\<forall>c < length (kids f). kbusy f c)"

lemma ReleaseAll_active:
  assumes "fam_ok f" "known f dep" "getQueue f (eid dep) = Some ParentActive" "ReleaseAll sl f dep = (f', links)"
  shows "fam_ok f'" "all_within f \<Longrightarrow> all_within f'" "all_busy f \<Longrightarrow> all_busy f'"
proof -
  have s: "separate f" using assms(1) by (simp add: fam_ok_def)
  obtain e where e: "e \<in> set (itemsAt f ParentActive)" "eid e = eid dep" "stacker e = stacker dep"
    using queued_entry [OF s assms(2,3)] by blast
  let ?g = "updateAfterRelease sl (removeAt f ParentActive (eid dep)) dep ParentActive"
  have up: "updateParent sl ?g = (f', links)" using assms(3,4) by (simp add: ReleaseAll_def working_SafeRelease_def)
  have ip: "isParent ParentActive" by (simp add: isParent_def)
  note r = parent_release [OF assms(1) ip e(1) e(2,3) [symmetric] refl [of ?g]]
  have gs: "separate ?g" using r(1) by (simp add: fam_ok_def)
  have ac: "activate sl (room ?g) ?g = (f', links)" using up updateParent_activate [OF gs] by simp
  note a = activate_queues [OF gs ac] and k = activate_counts(5,6) [OF gs ac] and b = updateParent_busy [OF gs up]
  show "fam_ok f'" by (rule activate_fam_ok [OF r(1) ac])
  have "within f \<Longrightarrow> within ?g"
    unfolding within_def r(3,5) using length_filter_le [of "\<lambda>x. eid x \<noteq> eid e" "itemsAt f ParentActive"]
    by (simp only: if_True simp_thms)
  then show "all_within f \<Longrightarrow> all_within f'" using b(2) r(2,6) by (simp add: all_within_def k a(3))
  show "all_busy f \<Longrightarrow> all_busy f'" using b(1) r(2,7) by (simp add: all_busy_def k a(3))
qed

lemma ReleaseAll_await:
  assumes "fam_ok f" "known f dep" "getQueue f (eid dep) = Some ParentAwait" "ReleaseAll sl f dep = (f', links)"
  shows "fam_ok f'" "all_within f \<Longrightarrow> all_within f'" "all_busy f \<Longrightarrow> all_busy f'"
proof -
  have s: "separate f" using assms(1) by (simp add: fam_ok_def)
  obtain e where e: "e \<in> set (itemsAt f ParentAwait)" "eid e = eid dep" "stacker e = stacker dep"
    using queued_entry [OF s assms(2,3)] by blast
  have f': "f' = updateAfterRelease sl (removeAt f ParentAwait (eid dep)) dep ParentAwait"
    using assms(3,4) by (simp add: ReleaseAll_def waiting_SafeRelease_def)
  have ip: "isParent ParentAwait" by (simp add: isParent_def)
  note r = parent_release [OF assms(1) ip e(1) e(2,3) [symmetric] f']
  show "fam_ok f'" by (rule r(1))
  have "itemsAt f ParentAwait \<noteq> []" using e(1) by auto
  then have "busy f \<Longrightarrow> busy f'" "within f \<Longrightarrow> within f'" unfolding busy_def within_def r(3,5) by simp_all
  then show "all_within f \<Longrightarrow> all_within f'" "all_busy f \<Longrightarrow> all_busy f'"
    using r(2,6,7) by (simp_all add: all_within_def all_busy_def)
qed

lemma ReleaseAll_childAwait:
  assumes "fam_ok f" "known f dep" "getQueue f (eid dep) = Some (ChildAwait c)" "ReleaseAll sl f dep = (f', links)"
  shows "fam_ok f'" "all_within f \<Longrightarrow> all_within f'" "all_busy f \<Longrightarrow> all_busy f'"
proof -
  have s: "separate f" using assms(1) by (simp add: fam_ok_def)
  have pl: "place_ok f (ChildAwait c)" "contains (queueAt f (ChildAwait c)) (eid dep)" using getQueue_Some [OF assms(3)] by simp_all
  have f': "f' = removeAt f (ChildAwait c) (eid dep)"
    using assms(3,4) by (auto simp: ReleaseAll_def waiting_SafeRelease_def updateAfterRelease_def afterRelease_def split: option.splits)
  show "fam_ok f'" unfolding f' by (rule removeAt_fam_ok [OF assms(1) pl])
  note r = removeAt_fields [OF pl(1), of "eid dep", folded f']
  have "within f' = within f" "busy f' = busy f" "\<And>d. kwithin f' d = kwithin f d" "\<And>d. kbusy f d \<Longrightarrow> kbusy f' d"
    by (auto simp: within_def busy_def kwithin_def kbusy_def load_def r simp del: queueAt.simps)
  then show "all_within f \<Longrightarrow> all_within f'" "all_busy f \<Longrightarrow> all_busy f'" by (simp_all add: all_within_def all_busy_def r(2))
qed

text \<open>Releasing an entry of a child's own queue lets the child pass on awaiters, but the parent is not asked to activate them.\<close>

lemma ReleaseAll_childQueue:
  assumes "fam_ok f" "known f dep" "getQueue f (eid dep) = Some (ChildQueue c)" "ReleaseAll sl f dep = (f', links)"
  shows "fam_ok f'" "all_within f \<Longrightarrow> all_within f'" "d < length (kids f) \<Longrightarrow> kbusy f d \<Longrightarrow> kbusy f' d"
    "length (kids f') = length (kids f)"
proof -
  have s: "separate f" using assms(1) by (simp add: fam_ok_def)
  let ?pl = "ChildQueue c"
  let ?g = "removeAt f ?pl (eid dep)"
  have pl: "place_ok f ?pl" "contains (queueAt f ?pl) (eid dep)" using getQueue_Some [OF assms(3)] by simp_all
  have f': "f' = sub_updateQueue sl ?g c" using assms(3,4) by (simp add: ReleaseAll_def sub_SafeRelease_def)
  note r = removeAt_fields [OF pl(1), of "eid dep"]
  have g: "fam_ok ?g" by (rule removeAt_fam_ok [OF assms(1) pl])
  then have gs: "separate ?g" by (simp add: fam_ok_def)
  have c: "c < length (kids ?g)" using pl(1) r(2) by simp
  note p = sub_updateQueue_passOn [OF gs c, of sl, folded f']
  note u = passOn_queues [OF gs c, of sl "kroom ?g c", folded p] and b = sub_updateQueue_load [OF gs c, of sl, folded f']
  show "fam_ok f'" unfolding p by (rule passOn_fam_ok [OF g c])
  show len: "length (kids f') = length (kids f)" by (simp add: u(6) r(2))
  have "length (itemsAt ?g ?pl) < length (itemsAt f ?pl)"
    using pl(2) unfolding r(1) by (auto simp: contains_def intro!: length_filter_less)
  then have lg: "load ?g c < load f c" "\<And>d. d \<noteq> c \<Longrightarrow> load ?g d = load f d"
    by (simp_all add: load_def r(1,5) del: queueAt.simps)
  have "kwithin f' d" if "kwithin f d" for d
    using that b(2) lg passOn_load(1) [OF gs c, of sl "kroom ?g c" d, folded p]
    by (cases "d = c") (auto simp: kwithin_def u(4) r(4))
  moreover have "within f' = within f" by (simp add: within_def u(2,5) r(1,3) del: queueAt.simps)
  ultimately show "all_within f \<Longrightarrow> all_within f'" by (simp add: all_within_def len)
  have "kbusy ?g d" if "kbusy f d" "d \<noteq> c" using that lg by (simp add: kbusy_def r del: queueAt.simps)
  then show "d < length (kids f) \<Longrightarrow> kbusy f d \<Longrightarrow> kbusy f' d"
    using b(1) passOn_load(4) [OF gs c, of d sl "kroom ?g c", folded p] by (cases "d = c") auto
qed

lemma ReleaseAll_none: "getQueue f (eid dep) = None \<Longrightarrow> ReleaseAll sl f dep = (f, [])"
  by (simp add: ReleaseAll_def)

lemma parentSync_addWorkers [fam_simps]: "parentSync (addWorkers f c n) = parentSync f"
  by (simp add: family_updates)

lemma setQueueAt_addWorkers_parent:
  "isParent pl \<Longrightarrow> setQueueAt (addWorkers f c n) pl q = addWorkers (setQueueAt f pl q) c n"
  by (auto simp: isParent_def family_updates)

lemma partial_release_ok:
  assumes "fam_ok f" "known f dep" "stack_tryPartialRelease f dep = (f1, True)" "updateParent sl f1 = (f', links)"
  shows "fam_ok f'" "all_within f \<Longrightarrow> all_within f'" "all_busy f \<Longrightarrow> all_busy f'"
proof -
  have s: "separate f" using assms(1) by (simp add: fam_ok_def)
  obtain c pl where c: "stacker dep = Some c" and q: "getQueue f (eid dep) = Some pl" and ip: "isParent pl"
    and f1: "f1 = setQueueAt (addWorkers (removeAt f pl (eid dep)) c (- 1)) (ChildQueue c)
        (AddLast (queueAt (addWorkers (removeAt f pl (eid dep)) c (- 1)) (ChildQueue c)) (getEntry f dep))"
    using assms(3) by (auto simp: stack_tryPartialRelease_def tryPartialRelease_def isParent_def Let_def
        simp del: setQueueAt.simps queueAt.simps split: option.splits if_splits)
  let ?e = "getEntry f dep" and ?g = "addWorkers (removeAt f pl (eid dep)) c (- 1)"
  obtain e: "?e \<in> set (itemsAt f pl)" "eid ?e = eid dep" "stacker ?e = stacker dep" "place_ok f pl" "contains (queueAt f pl) (eid dep)"
    using queued_entry [OF s assms(2) q] .
  have cl: "c < length (kids f)" using owners_parent [of f ?e c] assms(1) e(1,3) c ip by (auto simp: fam_ok_def isParent_def)
  note r = removeAt_fields [OF e(4), of "eid dep"]
  have g: "fam_ok ?g" using uncount_fam_ok [OF assms(1) ip e(1)] e(2,3) c by simp
  then have gs: "separate ?g" by (simp add: fam_ok_def)
  have cg: "place_ok ?g (ChildQueue c)" using cl by (simp add: fam_simps r)
  have fr: "fresh ?g (eid ?e)" using removeAt_fresh [OF s e(4,5)] e(2)
    by (simp add: fresh_def fam_simps place_ok_cong [OF addWorkers_simps(1)])
  have ok1: "fam_ok f1" unfolding f1
    by (rule put_fam_ok [OF g cg fr _ AddLast_put [OF gs cg fr]])
      (use e(3) c in \<open>simp_all add: belongs_def isParent_def del: setQueueAt.simps queueAt.simps\<close>)
  then have s1: "separate f1" by (simp add: fam_ok_def)
  have it: "itemsAt f1 pl' = (if pl' = ChildQueue c then itemsAt f (ChildQueue c) @ [?e]
      else if pl' = pl then filter (\<lambda>x. eid x \<noteq> eid dep) (itemsAt f pl) else itemsAt f pl')" for pl'
    using ip cg by (auto simp: f1 fam_simps r queue_simps isParent_def simp del: setQueueAt.simps queueAt.simps)
  have lim: "plimit f1 = plimit f" "\<And>d. klimit f1 d = klimit f d" "length (kids f1) = length (kids f)"
    using cg by (simp_all add: f1 fam_simps r del: setQueueAt.simps)
  have "katp f1 d = katp f d + (if d = c then - 1 else 0)" for d
    using cg cl by (simp add: f1 fam_simps r del: setQueueAt.simps queueAt.simps)
  then have l: "load f1 d = load f d" for d
    using ip by (auto simp: load_def it isParent_def simp del: queueAt.simps)
  have ac: "activate sl (room f1) f1 = (f', links)" using assms(4) updateParent_activate [OF s1] by simp
  note a = activate_queues [OF s1 ac] and k = activate_counts(5,6) [OF s1 ac] and b = updateParent_busy [OF s1 assms(4)]
  show "fam_ok f'" by (rule activate_fam_ok [OF ok1 ac])
  have "length (itemsAt f1 ParentActive) \<le> length (itemsAt f ParentActive)" unfolding it using ip by (auto simp: isParent_def)
  then have "within f \<Longrightarrow> within f1" unfolding within_def lim(1) by linarith
  moreover have "kwithin f1 d = kwithin f d" "kbusy f1 d = kbusy f d" for d
    using ip by (auto simp: kwithin_def kbusy_def l lim(2) it isParent_def simp del: queueAt.simps)
  ultimately show "all_within f \<Longrightarrow> all_within f'" "all_busy f \<Longrightarrow> all_busy f'"
    using b(1,2) by (simp_all add: all_within_def all_busy_def k a(3) lim(3))
qed

text \<open>The acquisition of the parent by a slot that had released it partially.\<close>

lemma UseDependency_cases:
  assumes "UseDependency sl f dep flags = Ok (f', d)"
  shows "f' = f \<or> (\<exists>c. stacker dep = Some c \<and> getQueue f (eid dep) = Some (ChildQueue c) \<and>
     tryPartialAcquire sl f c dep (canPassThrough (controller (parentSync f))) = Ok (f', d))"
proof -
  obtain d1 sp where c: "checkDependency sl f dep flags = Ok (d1, sp)"
    and u: "if flags = SyncIgnoreFlags \<or> \<not> sp then Ok (f, d1) = Ok (f', d)
      else stack_tryPartialAcquire sl f dep (canPassThrough (controller (parentSync f))) = Ok (f', d)"
    using assms by (auto simp: UseDependency_def go_simps split: if_splits)
  show ?thesis
  proof (cases "flags = SyncIgnoreFlags \<or> \<not> sp")
    case False
    then have "stack_contains f dep = Passed"
      using c by (auto simp: checkDependency_def go_simps Let_def split: if_splits)
    with u False show ?thesis
      by (auto simp: stack_contains_def containsInStack_def stack_tryPartialAcquire_def split: option.splits if_splits)
  qed (use u in auto)
qed

lemma partial_acquire_ok:
  assumes "fam_ok f" "known f dep" "UseDependency sl f dep flags = Ok (f', d)"
  shows "fam_ok f'" "all_within f \<Longrightarrow> all_within f'" "all_busy f \<Longrightarrow> all_busy f'"
proof -
  have s: "separate f" using assms(1) by (simp add: fam_ok_def)
  have "fam_ok f' \<and> (all_within f \<longrightarrow> all_within f') \<and> (all_busy f \<longrightarrow> all_busy f')"
  proof (cases "f' = f")
    case False
    then obtain c where c: "stacker dep = Some c" and gq: "getQueue f (eid dep) = Some (ChildQueue c)"
      and t: "tryPartialAcquire sl f c dep (canPassThrough (controller (parentSync f))) = Ok (f', d)"
      using UseDependency_cases [OF assms(3)] by blast
    let ?e = "getEntry f dep" and ?h = "removeAt f (ChildQueue c) (eid dep)" and ?pl = "createPlace f"
    obtain e: "?e \<in> set (itemsAt f (ChildQueue c))" "eid ?e = eid dep" "stacker ?e = stacker dep"
      "place_ok f (ChildQueue c)" "contains (queueAt f (ChildQueue c)) (eid dep)"
      using queued_entry [OF s assms(2) gq] .
    note r = removeAt_fields [OF e(4), of "eid dep"]
    have h: "fam_ok ?h" by (rule removeAt_fam_ok [OF assms(1) e(4,5)])
    then have hs: "separate ?h" by (simp add: fam_ok_def)
    have fr: "fresh ?h (eid ?e)" using removeAt_fresh [OF s e(4,5)] e(2) by simp
    have pk: "place_ok ?h ?pl" by simp
    obtain q e' where f': "f' = addWorkers (setQueueAt ?h ?pl q) c 1"
      and p: "q_ok q" "set (items q) = insert e' (set (itemsAt ?h ?pl))" "\<And>c. owned c (items q) = owned c (e' # itemsAt ?h ?pl)"
        "length (items q) = Suc (length (itemsAt ?h ?pl))" "stacker e' = Some c" "eid e' = eid ?e"
    proof (cases "canPassThrough (controller (parentSync f))")
      case True
      have "f' = setQueueAt (addWorkers ?h c 1) ParentActive (AddLast (queueAt ?h ParentActive) ?e)"
        using t True gq False c by (auto simp: tryPartialAcquire_def Let_def fam_simps split: if_splits)
      with True that [of "AddLast (queueAt ?h ParentActive) ?e" ?e] AddLast_put [OF hs _ fr, of ParentActive] e(3) c show ?thesis
        by (simp add: createPlace_def setQueueAt_addWorkers_parent isParent_def queue_simps del: setQueueAt.simps queueAt.simps)
    next
      case nc: False
      obtain q e' af where a: "addSlot_with sl (queueAt ?h ParentAwait) ?e False af = Ok (q, e')"
        and "f' = setQueueAt (addWorkers ?h c 1) ParentAwait q"
        using t nc gq False c by (auto simp: tryPartialAcquire_def Let_def fam_simps go_simps addSlotWithPriority_def split: if_splits)
      with nc that [of q e'] addSlot_put [OF a hs _ fr] e(3) c show ?thesis
        by (simp add: createPlace_def setQueueAt_addWorkers_parent isParent_def del: setQueueAt.simps queueAt.simps)
    qed
    have ip: "isParent ?pl" by simp
    have cl: "c < length (kids f)" using e(4) by simp
    have "fam_ok f'"
      by (rule put_fam_ok [OF h pk _ _ p(1,2,3)])
        (use p(5,6) fr ip cl in \<open>auto simp: belongs_def isParent_def f' r(2) split: place.splits\<close>)
    moreover have it: "itemsAt f' pl' = (if pl' = ?pl then items q
        else if pl' = ChildQueue c then filter (\<lambda>x. eid x \<noteq> eid dep) (itemsAt f (ChildQueue c)) else itemsAt f pl')" for pl'
      using setQueueAt_fields(1) [OF pk] by (simp add: f' fam_simps r del: queueAt.simps)
    moreover have lim: "plimit f' = plimit f" "length (kids f') = length (kids f)" "\<And>b. klimit f' b = klimit f b"
      using pk by (simp_all add: f' fam_simps r del: setQueueAt.simps)
    moreover have l: "load f' b = load f b" for b
    proof -
      have "katp f' b = katp f b + (if b = c then 1 else 0)"
        using pk cl by (auto simp: f' fam_simps r)
      moreover have "distinct (ids (itemsAt f (ChildQueue c)))" using separateD [OF s e(4)] by (simp add: q_ok_def)
      then have "Suc (length (filter (\<lambda>x. eid x \<noteq> eid dep) (itemsAt f (ChildQueue c)))) = length (itemsAt f (ChildQueue c))"
        using length_filter_eid e(5) by (simp add: contains_def)
      ultimately show ?thesis by (auto simp: load_def it createPlace_def simp del: queueAt.simps)
    qed
    have len: "length (items q) = Suc (length (itemsAt f ?pl))"
      using p(4) unfolding r(1) by (simp add: createPlace_def)
    have "kwithin f' b = kwithin f b" "kbusy f' b = kbusy f b" for b
      by (auto simp: kwithin_def kbusy_def l lim(3) it createPlace_def simp del: queueAt.simps)
    moreover have "within f \<Longrightarrow> within f'" "busy f \<Longrightarrow> busy f'"
      using len canPass_iff [OF s] by (auto simp: within_def busy_def it lim(1) createPlace_def simp del: queueAt.simps)
    ultimately show ?thesis by (simp add: all_within_def all_busy_def lim(2))
  qed (use assms(1) in simp)
  then show "fam_ok f'" "all_within f \<Longrightarrow> all_within f'" "all_busy f \<Longrightarrow> all_busy f'" by blast+
qed

subsection \<open>Adjustments of limits\<close>

definition setLimit :: "semaFamily \<Rightarrow> int \<Rightarrow> semaFamily" where
  "setLimit f l = setController f ((controller (parentSync f))\<lparr>workerLimit := l\<rparr>)"

definition setKidLimit :: "semaFamily \<Rightarrow> nat \<Rightarrow> int \<Rightarrow> semaFamily" where
  "setKidLimit f c l = setKid f c (setSub (kids f ! c) ((sub (kids f ! c))\<lparr>workerLimit := l\<rparr>))"

lemma setLimit_fields [fam_simps]: "queueAt (setLimit f l) pl = queueAt f pl" "plimit (setLimit f l) = l"
  "kids (setLimit f l) = kids f"
  by (cases pl) (simp_all add: setLimit_def family_updates)

lemma setKidLimit_fields [fam_simps]: "queueAt (setKidLimit f c l) pl = queueAt f pl" "plimit (setKidLimit f c l) = plimit f"
  "length (kids (setKidLimit f c l)) = length (kids f)" "katp (setKidLimit f c l) d = katp f d"
  "c < length (kids f) \<Longrightarrow> klimit (setKidLimit f c l) d = (if d = c then l else klimit f d)"
  by (cases pl) (simp_all add: setKidLimit_def family_updates nth_update)

lemma load_setLimit [fam_simps]: "load (setLimit f l) c = load f c" "load (setKidLimit f d l) c = load f c"
  by (simp_all add: load_def fam_simps del: queueAt.simps)

lemma separate_cong:
  assumes "\<And>pl. queueAt f' pl = queueAt f pl" "length (kids f') = length (kids f)"
  shows "separate f' = separate f"
  unfolding separate_def assms(1) place_ok_cong [OF assms(2)] by (rule refl)

lemma separate_setLimit [simp]: "separate (setLimit f l) = separate f" "separate (setKidLimit f c l) = separate f"
  by (rule separate_cong; simp add: fam_simps del: queueAt.simps)+

lemma fam_ok_cong:
  assumes "\<And>pl. queueAt f' pl = queueAt f pl" "length (kids f') = length (kids f)" "\<And>c. katp f' c = katp f c"
  shows "fam_ok f' = fam_ok f"
  unfolding fam_ok_def separate_cong [OF assms(1,2)] owners_ok_def counts_ok_def assms by (rule refl)

lemma fam_ok_setLimit [simp]: "fam_ok (setLimit f l) = fam_ok f" "fam_ok (setKidLimit f c l) = fam_ok f"
  by (rule fam_ok_cong; simp add: fam_simps del: queueAt.simps)+

lemma adjustLimit_raise:
  assumes "q_ok (awaiters p)" "delta > 0"
  shows "adjustLimit sl p delta None =
       (case moveLoop sl (nat delta) (awaiters p) (queue p) [] of
          (aw, q, ls) \<Rightarrow> Ok (p\<lparr>awaiters := aw, queue := q\<rparr>, None, ls, True))"
    and "adjustLimit sl p delta (Some q0) =
       (case moveLoop sl (nat delta) (awaiters p) q0 [] of
          (aw, q, ls) \<Rightarrow> Ok (p\<lparr>awaiters := aw\<rparr>, Some q, ls, True))"
  using assms CutHeadOut_moveLoop [OF assms(1), of "[]" delta sl] by (auto simp: adjustLimit_def split: prod.splits)

lemma adjustLimit_activate:
  assumes "separate f" "delta > 0"
  shows "bnd (adjustLimit sl (controller (parentSync f)) delta None) (\<lambda>(p', _, links, act). Ok (setController f p', links, act)) =
     (case activate sl (nat delta) f of (f', links) \<Rightarrow> Ok (f', links, True))"
  using adjustLimit_raise(1) [OF separate_queues(2) [OF assms(1)] assms(2), of sl]
  by (auto simp: activate_def family_updates split: prod.splits)

lemma pullAwaiters_activate:
  assumes "separate f"
  shows "bnd (pullAwaiters sl (controller (parentSync f))) (\<lambda>(p', deps). Ok (setController f p', deps, act)) =
     (case activate sl (room f) f of (f', links) \<Rightarrow> Ok (f', links, act))"
proof -
  have q: "q_ok (awaitQ f)" "q_ok (activeQ f)" using assms by (simp_all only: separate_queues)
  then have r: "nat (plimit f - qcount (activeQ f)) = room f" by (simp add: room_def q_ok_count)
  show ?thesis
  proof (cases "plimit f - qcount (activeQ f) \<le> 0")
    case True
    then have "room f = 0" using r by simp
    with True show ?thesis by (simp add: pullAwaiters_def activate_def family_updates)
  next
    case False
    then show ?thesis using adjustLimit_raise(1) [OF q(1), of "plimit f - qcount (activeQ f)" sl] r
      by (auto simp: pullAwaiters_def activate_def family_updates Let_def split: prod.splits)
  qed
qed

text \<open>
  An adjustment is effective when it asks for another limit; it is saturated when it is effective and the
  limit stays the same, because it is already at the end of the range.
\<close>

definition noAdjustment :: "int \<Rightarrow> int \<Rightarrow> bool \<Rightarrow> bool" where
  "noAdjustment old adj absolute \<longleftrightarrow> (if absolute then adj = old else adj = 0)"

lemma adjustment_effect:
  assumes "limit_ok old" "int64 adj"
  shows "applyWrappedAdjustment old adj MinInt32 MaxInt32 absolute = (\<not> noAdjustment old adj absolute, adjusted old adj absolute)"
  using applyWrappedAdjustment_eq [OF assms] by (simp add: noAdjustment_def)

lemma sema_AdjustLimit_cases:
  assumes "separate f" "limit_ok (plimit f)" "int64 adj" "sema_AdjustLimit sl f adj absolute = Ok (f', links, act)"
  shows "noAdjustment (plimit f) adj absolute \<and> f' = f \<or>
     adjusted (plimit f) adj absolute < plimit f \<and> f' = setLimit f (adjusted (plimit f) adj absolute) \<or>
     adjusted (plimit f) adj absolute = plimit f \<and> \<not> noAdjustment (plimit f) adj absolute \<or>
     adjusted (plimit f) adj absolute > plimit f \<and>
       activate sl (nat (adjusted (plimit f) adj absolute - plimit f)) (setLimit f (adjusted (plimit f) adj absolute)) = (f', links)"
proof -
  let ?L = "adjusted (plimit f) adj absolute"
  have w: "applyWrappedAdjustment (plimit f) adj MinInt32 MaxInt32 absolute = (\<not> noAdjustment (plimit f) adj absolute, ?L)"
    by (rule adjustment_effect [OF assms(2,3)])
  have s: "separate (setLimit f ?L)" using assms(1) by simp
  have c: "controller (parentSync (setLimit f ?L)) = (controller (parentSync f))\<lparr>workerLimit := ?L\<rparr>"
    by (simp add: setLimit_def setController_def)
  have sc: "setController (setLimit f ?L) p = setController f p" for p by (simp add: setLimit_def setController_def)
  have ad: "isAdjustable (parentSync f)" using assms(4) by (simp add: sema_AdjustLimit_def split: if_splits)
  consider "noAdjustment (plimit f) adj absolute" | "\<not> noAdjustment (plimit f) adj absolute" "?L < plimit f"
    | "\<not> noAdjustment (plimit f) adj absolute" "?L = plimit f" | "\<not> noAdjustment (plimit f) adj absolute" "?L > plimit f"
    by linarith
  then show ?thesis
  proof cases
    case 4
    then have d: "0 < ?L - plimit f" by simp
    show ?thesis using assms(4) ad 4 adjustLimit_activate [OF s d, of sl, unfolded c sc]
      by (auto simp: sema_AdjustLimit_def w Let_def split: prod.splits)
  qed (use assms(4) ad in \<open>auto simp: sema_AdjustLimit_def w Let_def setLimit_def\<close>)
qed

lemma child_raise:
  assumes "separate f" "c < length (kids f)" "delta > 0" "l = klimit f c + delta"
    and p_def: "p = (sub (kids f ! c))\<lparr>workerLimit := l\<rparr>" and g_def: "g = passOn sl (nat delta) (setKidLimit f c l) c"
  shows "bnd (adjustLimit sl p delta (Some (awaitQ f))) (\<lambda>(p', q, deps, act).
            let f' = setAwaitQ (setKid f c (setSub (kids f ! c) p')) (case q of None \<Rightarrow> awaitQ f | Some q \<Rightarrow> q) in
            if act \<and> deps \<noteq> [] then
              bnd (pullAwaiters sl (controller (parentSync f'))) (\<lambda>(pc, deps').
                Ok (setController (addWorkers f' c (int (length deps))) pc, deps', act))
            else Ok (f', deps, act)) =
     (if freed sl (nat delta) f c = [] then Ok (g, [], True)
      else case activate sl (room g) g of (f'', links) \<Rightarrow> Ok (f'', links, True))"
proof -
  obtain aw q ls where m: "moveLoop sl (nat delta) (awaiters (sub (kids f ! c))) (awaitQ f) [] = (aw, q, ls)" by (metis prod_cases3)
  let ?A = "queueAt f (ChildAwait c)"
  have ok: "q_ok ?A" "q_ok (awaitQ f)" using assms(1,2) by (simp_all only: separate_queues)
  have dj: "idset ?A \<inter> idset (awaitQ f) = {}"
    using separate_disjoint [OF assms(1), of "ChildAwait c" ParentAwait] assms(2) by (simp only: place_ok_simps queueAt.simps) auto
  have ls: "ls = map (stepOf sl) (freed sl (nat delta) f c)"
    using moveLoop_spec [OF ok dj, of sl "nat delta" "[]" aw q ls] m by (simp add: freed_def)
  have a: "adjustLimit sl p delta (Some (awaitQ f)) = Ok (p\<lparr>awaiters := aw\<rparr>, Some q, ls, True)"
    using adjustLimit_raise(2) [of p delta sl "awaitQ f"] ok(1) assms(3) m by (simp add: p_def)
  let ?f' = "setAwaitQ (setKid f c (setSub (kids f ! c) (p\<lparr>awaiters := aw\<rparr>))) q"
  have gg: "g = addWorkers ?f' c (int (length ls))"
    using m assms(2) by (simp add: g_def p_def passOn_def setKidLimit_def family_updates nth_update)
  have ps: "parentSync g = parentSync ?f'" by (simp add: gg parentSync_addWorkers)
  have "separate g" using passOn_queues(1) [of "setKidLimit f c l" c sl "nat delta"] assms(1,2) by (simp add: g_def fam_simps)
  note pull = pullAwaiters_activate [OF this, of sl True, unfolded ps]
  show ?thesis
  proof (cases "ls = []")
    case True
    then show ?thesis using a gg ls by (simp add: addWorkers_0)
  next
    case False
    with a ls have "int (length (freed sl (nat delta) f c)) = int (length ls)" by simp
    with False show ?thesis using a pull ls by (simp add: Let_def gg)
  qed
qed

lemma child_AdjustLimit_cases:
  assumes "separate f" "c < length (kids f)" "limit_ok (klimit f c)" "int64 adj"
    "child_AdjustLimit sl f c adj absolute = Ok (f', links, act)"
  shows "noAdjustment (klimit f c) adj absolute \<and> f' = f \<or>
     adjusted (klimit f c) adj absolute < klimit f c \<and> f' = setKidLimit f c (adjusted (klimit f c) adj absolute) \<or>
     adjusted (klimit f c) adj absolute = klimit f c \<and> \<not> noAdjustment (klimit f c) adj absolute \<or>
     adjusted (klimit f c) adj absolute > klimit f c \<and>
       (let n = nat (adjusted (klimit f c) adj absolute - klimit f c);
            g = passOn sl n (setKidLimit f c (adjusted (klimit f c) adj absolute)) c in
        if freed sl n f c = [] then f' = g else activate sl (room g) g = (f', links))"
proof -
  let ?L = "adjusted (klimit f c) adj absolute"
  have w: "applyWrappedAdjustment (klimit f c) adj MinInt32 MaxInt32 absolute = (\<not> noAdjustment (klimit f c) adj absolute, ?L)"
    by (rule adjustment_effect [OF assms(3,4)])
  have ad: "subAdjustable (kids f ! c)" using assms(5) by (simp add: child_AdjustLimit_def Let_def split: if_splits)
  consider "noAdjustment (klimit f c) adj absolute" | "\<not> noAdjustment (klimit f c) adj absolute" "?L < klimit f c"
    | "\<not> noAdjustment (klimit f c) adj absolute" "?L = klimit f c" | "\<not> noAdjustment (klimit f c) adj absolute" "?L > klimit f c"
    by linarith
  then show ?thesis
  proof cases
    case 4
    let ?n = "nat (?L - klimit f c)" and ?g = "passOn sl (nat (?L - klimit f c)) (setKidLimit f c ?L) c"
    have d: "0 < ?L - klimit f c" "?L = klimit f c + (?L - klimit f c)" using 4 by simp_all
    have "(if freed sl ?n f c = [] then Ok (?g, [], True) else case activate sl (room ?g) ?g of (f'', links) \<Rightarrow> Ok (f'', links, True)) =
        Ok (f', links, act)"
      using assms(5) ad 4 unfolding child_raise [OF assms(1,2) d refl refl, of sl, symmetric]
      by (simp add: child_AdjustLimit_def w Let_def)
    with 4 show ?thesis by (auto simp: Let_def split: if_splits prod.splits)
  qed (use assms(5) ad in \<open>auto simp: child_AdjustLimit_def w Let_def setKidLimit_def\<close>)
qed

text \<open>A saturated adjustment asks for another limit but leaves it as it is.\<close>

definition unsaturated :: "int \<Rightarrow> int \<Rightarrow> bool \<Rightarrow> bool" where
  "unsaturated old adj absolute \<longleftrightarrow> noAdjustment old adj absolute \<or> adjusted old adj absolute \<noteq> old"

definition raises :: "int \<Rightarrow> int \<Rightarrow> bool \<Rightarrow> bool" where
  "raises old adj absolute \<longleftrightarrow> noAdjustment old adj absolute \<or> 0 \<le> old \<and> old < adjusted old adj absolute"

definition limits_ok :: "semaFamily \<Rightarrow> bool" where
  "limits_ok f \<longleftrightarrow> limit_ok (plimit f) \<and> (\<forall>c < length (kids f). limit_ok (klimit f c))"

lemma noAdjustment_adjusted: "limit_ok old \<Longrightarrow> noAdjustment old adj absolute \<Longrightarrow> adjusted old adj absolute = old"
  by (auto simp: noAdjustment_def adjusted_def clamp_def limit_ok_def split: if_splits)

lemma adjust_ok:
  assumes "fam_ok f" "limits_ok f" "int64 adj" "unsaturated (plimit f) adj absolute"
    "sema_AdjustLimit sl f adj absolute = Ok (f', links, act)"
  shows "fam_ok f'" "limits_ok f'" "all_busy f \<Longrightarrow> all_busy f'"
    "raises (plimit f) adj absolute \<Longrightarrow> all_within f \<Longrightarrow> all_within f'"
proof -
  let ?L = "adjusted (plimit f) adj absolute"
  have s: "separate f" and l: "limit_ok (plimit f)" using assms(1,2) by (simp_all add: fam_ok_def limits_ok_def)
  have "fam_ok f' \<and> limits_ok f' \<and> (all_busy f \<longrightarrow> all_busy f') \<and>
    (raises (plimit f) adj absolute \<longrightarrow> all_within f \<longrightarrow> all_within f')"
  proof (cases "f' = f")
    case False
    with sema_AdjustLimit_cases [OF s l assms(3,5)] assms(4)
    consider "?L < plimit f" "f' = setLimit f ?L"
      | "?L > plimit f" "activate sl (nat (?L - plimit f)) (setLimit f ?L) = (f', links)"
      by (auto simp: unsaturated_def)
    then show ?thesis
    proof cases
      case 1
      then have "\<not> raises (plimit f) adj absolute"
        using noAdjustment_adjusted [OF l] by (auto simp: raises_def)
      with 1 assms(1,2) show ?thesis
        by (auto simp: limits_ok_def all_busy_def busy_def kbusy_def fam_simps simp del: queueAt.simps)
    next
      case 2
      have g: "fam_ok (setLimit f ?L)" "separate (setLimit f ?L)" using assms(1) s by simp_all
      note u = activate_queues [OF g(2) 2(2)] and n = activate_counts [OF g(2) 2(2)]
      have "fam_ok f'" by (rule activate_fam_ok [OF g(1) 2(2)])
      moreover have "limits_ok f'" using assms(2) by (simp add: limits_ok_def u(3,4) fam_simps)
      moreover have "kbusy f' c = kbusy f c" "kwithin f' c = kwithin f c" for c
        unfolding n(5,6) by (simp_all add: kbusy_def kwithin_def fam_simps del: queueAt.simps)
      moreover have "busy f \<longrightarrow> busy f'"
        using n(2,3) 2(1) unfolding busy_def u(4) setLimit_fields by (auto simp del: queueAt.simps)
      moreover have "0 \<le> plimit f \<longrightarrow> within f \<longrightarrow> within f'"
        using n(1) 2(1) unfolding within_def u(4) setLimit_fields by (auto simp del: queueAt.simps)
      moreover have "0 \<le> plimit f" if "raises (plimit f) adj absolute"
        using that 2(1) noAdjustment_adjusted [OF l] by (auto simp: raises_def)
      ultimately show ?thesis by (auto simp: all_busy_def all_within_def u(3) fam_simps)
    qed
  qed (use assms(1,2) in simp)
  then show "fam_ok f'" "limits_ok f'" "all_busy f \<Longrightarrow> all_busy f'"
    "raises (plimit f) adj absolute \<Longrightarrow> all_within f \<Longrightarrow> all_within f'" by blast+
qed

lemma child_adjust_ok:
  assumes "fam_ok f" "limits_ok f" "c < length (kids f)" "int64 adj" "unsaturated (klimit f c) adj absolute"
    "child_AdjustLimit sl f c adj absolute = Ok (f', links, act)"
  shows "fam_ok f'" "limits_ok f'" "all_busy f \<Longrightarrow> all_busy f'"
    "raises (klimit f c) adj absolute \<Longrightarrow> all_within f \<Longrightarrow> all_within f'"
proof -
  let ?L = "adjusted (klimit f c) adj absolute"
  have s: "separate f" and l: "limit_ok (klimit f c)" using assms(1-3) by (simp_all add: fam_ok_def limits_ok_def)
  have "fam_ok f' \<and> limits_ok f' \<and> (all_busy f \<longrightarrow> all_busy f') \<and>
    (raises (klimit f c) adj absolute \<longrightarrow> all_within f \<longrightarrow> all_within f')"
  proof (cases "f' = f \<or> ?L < klimit f c")
    case True
    then have "f' = f \<or> ?L < klimit f c \<and> f' = setKidLimit f c ?L"
      using child_AdjustLimit_cases [OF s assms(3) l assms(4,6)] by auto
    moreover have "\<not> raises (klimit f c) adj absolute" if "?L < klimit f c"
      using that noAdjustment_adjusted [OF l] by (auto simp: raises_def)
    moreover have "limits_ok (setKidLimit f c ?L)" using assms(2,3) by (simp add: limits_ok_def fam_simps)
    moreover have "all_busy f \<Longrightarrow> ?L < klimit f c \<Longrightarrow> all_busy (setKidLimit f c ?L)"
      using assms(3) by (auto simp: all_busy_def busy_def kbusy_def fam_simps simp del: queueAt.simps)
    ultimately show ?thesis using assms(1,2) by auto
  next
    case False
    let ?n = "nat (?L - klimit f c)" and ?k = "setKidLimit f c ?L"
    let ?g = "passOn sl ?n ?k c"
    have L: "?L > klimit f c" and f': "if freed sl ?n f c = [] then f' = ?g else activate sl (room ?g) ?g = (f', links)"
      using child_AdjustLimit_cases [OF s assms(3) l assms(4,6)] assms(5) False by (auto simp: unsaturated_def Let_def)
    have k: "fam_ok ?k" "separate ?k" "c < length (kids ?k)" using assms(1,3) s by (simp_all add: fam_simps)
    have g: "fam_ok ?g" by (rule passOn_fam_ok [OF k(1,3)])
    then have gs: "separate ?g" by (simp add: fam_ok_def)
    note p = passOn_queues [OF k(2,3), of sl ?n] and lo = passOn_load(1-3) [OF k(2,3), of sl ?n]
    have "limits_ok ?g" using assms(2,3) by (auto simp: limits_ok_def p(4,5,6) fam_simps)
    moreover have "kbusy ?g d" if "kbusy f d" for d
    proof (cases "d = c")
      case True
      have "itemsAt ?g (ChildAwait c) \<noteq> [] \<Longrightarrow> itemsAt f (ChildAwait c) \<noteq> []"
        using afterValid_subset [of sl ?n "itemsAt f (ChildAwait c)"] by (auto simp: p(2) fam_simps simp del: queueAt.simps)
      with True that lo(3) L assms(3) show ?thesis
        unfolding kbusy_def p(4) by (auto simp: fam_simps simp del: queueAt.simps)
    next
      case False
      then show ?thesis using that assms(3) by (simp add: kbusy_def lo(1) p(2,4) fam_simps del: queueAt.simps)
    qed
    moreover have "kwithin ?g d" if "kwithin f d" "0 \<le> klimit f c" for d
      using that lo(1) [of d] lo(2) L assms(3) by (cases "d = c") (auto simp: kwithin_def p(4) fam_simps)
    moreover have "within ?g = within f" by (simp add: within_def p(2,5) fam_simps del: queueAt.simps)
    moreover have "0 \<le> klimit f c" if "raises (klimit f c) adj absolute"
      using that L noAdjustment_adjusted [OF l] by (auto simp: raises_def)
    ultimately have gg: "limits_ok ?g" "\<forall>d < length (kids f). kbusy f d \<longrightarrow> kbusy ?g d" "within ?g = within f"
      "raises (klimit f c) adj absolute \<longrightarrow> (\<forall>d. kwithin f d \<longrightarrow> kwithin ?g d)" by blast+
    have len: "length (kids ?g) = length (kids f)" by (simp add: p(6) fam_simps)
    show ?thesis
    proof (cases "freed sl ?n f c = []")
      case True
      then have "freed sl ?n ?k c = []" by (simp add: freed_def fam_simps del: queueAt.simps)
      then have "busy f \<longrightarrow> busy ?g" by (simp add: busy_def p(2,5) fam_simps del: queueAt.simps)
      with True f' g gg len show ?thesis by (simp add: all_busy_def all_within_def)
    next
      case False
      with f' have ac: "activate sl (room ?g) ?g = (f', links)" by simp
      have up: "updateParent sl ?g = (f', links)" using ac updateParent_activate [OF gs] by simp
      note u = activate_queues [OF gs ac] and n = activate_counts(5,6) [OF gs ac] and b = updateParent_busy [OF gs up]
      show ?thesis using activate_fam_ok [OF g ac] gg len b(1,2)
        by (simp add: all_busy_def all_within_def n u(3,4) limits_ok_def)
    qed
  qed
  then show "fam_ok f'" "limits_ok f'" "all_busy f \<Longrightarrow> all_busy f'"
    "raises (klimit f c) adj absolute \<Longrightarrow> all_within f \<Longrightarrow> all_within f'" by blast+
qed

subsection \<open>A released entry is gone\<close>

lemma fresh_moved: "i \<notin> set (ids es) \<Longrightarrow> i \<notin> set (ids (moved sl n es)) \<and> i \<notin> set (ids (afterValid sl n es))"
  using moved_subset [of sl n es] afterValid_subset [of sl n es] by auto

lemma fresh_passOn:
  assumes "separate f" "c < length (kids f)" "fresh f i" shows "fresh (passOn sl n f c) i"
proof -
  note u = passOn_queues [OF assms(1,2), of sl n]
  have "i \<notin> set (ids (itemsAt f pl))" if "place_ok f pl" for pl using assms(3) that by (simp add: fresh_def)
  then show ?thesis
    using assms(2) fresh_moved [of i "itemsAt f (ChildAwait c)" sl n]
    by (simp add: fresh_def u(2) place_ok_cong [OF u(6)] freed_def del: queueAt.simps set_map)
qed

lemma fresh_activate:
  assumes "separate f" "fresh f i" "activate sl n f = (f', links)" shows "fresh f' i"
proof -
  note u = activate_queues [OF assms(1,3)]
  have "i \<notin> set (ids (itemsAt f pl))" if "place_ok f pl" for pl using assms(2) that by (simp add: fresh_def)
  moreover have "place_ok f' pl = place_ok f pl" for pl by (rule place_ok_cong) (simp add: u(3))
  ultimately show ?thesis
    using fresh_moved [of i "itemsAt f ParentAwait" sl n]
    by (simp add: fresh_def u(2) woken_def del: queueAt.simps set_map)
qed

lemma fresh_addWorkers [simp]: "fresh (addWorkers f c n) i = fresh f i"
  by (simp add: fresh_def fam_simps place_ok_cong [OF addWorkers_simps(1)])

lemma fresh_after:
  assumes "separate f" "fresh f i" "\<And>c. stacker e = Some c \<Longrightarrow> c < length (kids f)"
  shows "separate (updateAfterRelease sl f e pl) \<and> fresh (updateAfterRelease sl f e pl) i"
proof (cases "stacker e")
  case None
  with assms show ?thesis by (simp add: updateAfterRelease_def)
next
  case (Some c)
  let ?g = "addWorkers f c (- 1)"
  have g: "separate ?g" "c < length (kids ?g)" "fresh ?g i" using assms Some by (simp_all add: fam_simps)
  from passOn_queues(1) [OF g(1,2)] fresh_passOn [OF g] sub_updateQueue_passOn [OF g(1,2)] assms(1,2) Some show ?thesis
    by (simp add: updateAfterRelease_def afterRelease_def)
qed

lemma ReleaseAll_fresh:
  assumes "fam_ok f" "known f dep" "ReleaseAll sl f dep = (f', links)"
  shows "fresh f' (eid dep)"
proof (cases "getQueue f (eid dep)")
  case None
  then show ?thesis using assms(3) by (simp add: ReleaseAll_none getQueue_None)
next
  case (Some pl)
  have f: "separate f" "owners_ok f" using assms(1) by (simp_all add: fam_ok_def)
  obtain e where e: "e \<in> set (itemsAt f pl)" "stacker e = stacker dep" "place_ok f pl" "contains (queueAt f pl) (eid dep)"
    using queued_entry [OF f(1) assms(2) Some] by metis
  let ?g = "removeAt f pl (eid dep)"
  have g: "separate ?g" "fresh ?g (eid dep)"
    using removeAt_separate [OF f(1) e(3,4)] removeAt_fresh [OF f(1) e(3,4)] .
  have len: "length (kids ?g) = length (kids f)" by (rule removeAt_fields(2) [OF e(3)])
  have own: "c < length (kids ?g)" if "stacker dep = Some c" for c
  proof -
    have "stacker e = Some c" using that e(2) by simp
    then show ?thesis
      using e(1,3) owners_parent [OF f(2), of e c] owners_child [OF f(2), of _ e] unfolding len by (cases pl) fastforce+
  qed
  note after = fresh_after [OF g, where e = dep and sl = sl and pl = pl, OF own]
  show ?thesis
  proof (cases pl)
    case ParentActive
    then have "updateParent sl (updateAfterRelease sl ?g dep pl) = (f', links)"
      using assms(3) Some by (simp add: ReleaseAll_def working_SafeRelease_def)
    then show ?thesis using after fresh_activate updateParent_activate by metis
  next
    case ParentAwait
    then show ?thesis using after assms(3) Some by (simp add: ReleaseAll_def waiting_SafeRelease_def)
  next
    case (ChildQueue c)
    then have c: "c < length (kids ?g)" using e(3) len by simp
    from ChildQueue have "f' = sub_updateQueue sl ?g c" using assms(3) Some by (simp add: ReleaseAll_def sub_SafeRelease_def)
    then show ?thesis using sub_updateQueue_passOn [OF g(1) c] fresh_passOn [OF g(1) c g(2)] by simp
  next
    case (ChildAwait c)
    then show ?thesis using after assms(3) Some by (simp add: ReleaseAll_def waiting_SafeRelease_def)
  qed
qed

end
