(* ===== verification/Sync_Semaphore_Spec.thy ===== *)
theory Sync_Semaphore_Spec
  imports Sync_Family
begin

text \<open>
  Families of semaphores in use: sequences of operations as events, the properties of all families that
  such sequences reach, and the sequences where the code does not keep what the limit promises.
\<close>

subsection \<open>Families in use\<close>

lemma new_child_ok:
  assumes "fam_ok f" "limits_ok f" "limit_ok val"
  shows "fam_ok (newSemaphoreChild f flags val adjustable)" "limits_ok (newSemaphoreChild f flags val adjustable)"
    "all_busy f \<Longrightarrow> all_busy (newSemaphoreChild f flags val adjustable)"
    "all_within f \<Longrightarrow> all_within (newSemaphoreChild f flags val adjustable)"
proof -
  let ?g = "newSemaphoreChild f flags val adjustable" and ?n = "length (kids f)"
  have f: "separate f" "owners_ok f" "counts_ok f" using assms(1) by (simp_all add: fam_ok_def)
  obtain k where g: "?g = f\<lparr>kids := kids f @ [k]\<rparr>" and k: "items (queue (sub k)) = []" "items (awaiters (sub k)) = []"
    "q_ok (queue (sub k))" "q_ok (awaiters (sub k))" "workerAtParentCount k = 0" "workerLimit (sub k) = val"
    by (simp add: newSemaphoreChild_def Let_def zeroController_def queue_simps)
  have len: "length (kids ?g) = Suc ?n" by (simp add: g)
  have q: "queueAt ?g pl = queueAt f pl" if "place_ok f pl" for pl using that by (cases pl) (simp_all add: g nth_append)
  have e: "itemsAt ?g pl = []" "q_ok (queueAt ?g pl)" if "place_ok ?g pl" "\<not> place_ok f pl" for pl
    using that k by (cases pl; auto simp: g nth_append less_Suc_eq)+
  have old: "katp ?g c = katp f c" "klimit ?g c = klimit f c" if "c < ?n" for c using that by (simp_all add: g nth_append)
  have new: "katp ?g ?n = 0" "klimit ?g ?n = val" using k by (simp_all add: g nth_append)
  have par: "itemsAt ?g ParentActive = itemsAt f ParentActive" "itemsAt ?g ParentAwait = itemsAt f ParentAwait"
    "plimit ?g = plimit f" by (simp_all add: g)
  have "separate ?g" unfolding separate_def
  proof (intro conjI allI impI)
    fix pl assume "place_ok ?g pl"
    then show "q_ok (queueAt ?g pl)" using e(2) q separateD [OF f(1)] by (cases "place_ok f pl") simp_all
  next
    fix pl pl' assume "place_ok ?g pl" "place_ok ?g pl'" "pl \<noteq> pl'"
    then show "idset (queueAt ?g pl) \<inter> idset (queueAt ?g pl') = {}"
      using e(1) q separate_disjoint [OF f(1), of pl pl'] by (cases "place_ok f pl"; cases "place_ok f pl'") simp_all
  qed
  moreover have "owners_ok ?g"
  proof (rule owners_okI, unfold len)
    fix c x assume c: "c < Suc ?n" and x: "x \<in> set (itemsAt ?g (ChildQueue c)) \<or> x \<in> set (itemsAt ?g (ChildAwait c))"
    show "stacker x = Some c"
    proof (cases "c = ?n")
      case True
      then show ?thesis using x e(1) [of "ChildQueue c"] e(1) [of "ChildAwait c"] len by simp
    next
      case False
      then show ?thesis using x c owners_child [OF f(2), of c x] q [of "ChildQueue c"] q [of "ChildAwait c"]
        by (auto simp del: queueAt.simps)
    qed
  next
    fix c x assume "x \<in> set (itemsAt ?g ParentActive) \<or> x \<in> set (itemsAt ?g ParentAwait)" "stacker x = Some c"
    then show "c < Suc ?n" using owners_parent [OF f(2), of x c] unfolding par by auto
  qed
  moreover have "owned ?n (itemsAt f ParentActive) = 0 \<and> owned ?n (itemsAt f ParentAwait) = 0"
    using owners_parent [OF f(2), of _ ?n] by (auto simp: owned_def filter_empty_conv simp del: queueAt.simps)
  then have "counts_ok ?g"
    unfolding counts_ok_def len par less_Suc_eq using f(3) old(1) new(1) by (auto simp: counts_ok_def simp del: queueAt.simps)
  ultimately show "fam_ok ?g" by (simp add: fam_ok_def)
  show "limits_ok ?g" unfolding limits_ok_def len par less_Suc_eq
    using assms(2,3) old(2) new(2) by (auto simp: limits_ok_def)
  have l: "load ?g c = load f c" if "c < ?n" for c using that q [of "ChildQueue c"] old(1) by (simp add: load_def del: queueAt.simps)
  have "load ?g ?n = 0" using e(1) [of "ChildQueue ?n"] len new(1) by (simp add: load_def del: queueAt.simps)
  moreover have "itemsAt ?g (ChildAwait ?n) = []" using e(1) [of "ChildAwait ?n"] len by simp
  ultimately have "kwithin ?g ?n" "kbusy ?g ?n" by (simp_all add: kwithin_def kbusy_def)
  moreover have "kwithin ?g c = kwithin f c" "kbusy ?g c = kbusy f c" if "c < ?n" for c
    using that l old(2) q [of "ChildAwait c"] by (simp_all add: kwithin_def kbusy_def del: queueAt.simps)
  ultimately show "all_busy f \<Longrightarrow> all_busy ?g" "all_within f \<Longrightarrow> all_within ?g"
    unfolding all_busy_def all_within_def busy_def within_def par len less_Suc_eq by auto
qed

text \<open>
  The operations of a family as events.  An event may happen with any state of the slots; its guard says
  that pointers of new entries are new and that dependencies and children belong to the family, that
  adjustments are 64-bit numbers and that they are not saturated.
\<close>

datatype event =
    Create nat SlotLink SlotDependencyFlags
  | CreateAt nat nat SlotLink SlotDependencyFlags
  | Release dependencyQueueEntry
  | PartialRelease dependencyQueueEntry
  | Use dependencyQueueEntry SlotDependencyFlags
  | Adjust int bool
  | AdjustAt nat int bool
  | NewChild u8 int bool

fun exec :: "slots \<Rightarrow> event \<Rightarrow> semaFamily \<Rightarrow> semaFamily res" where
  "exec sl (Create i l flags) f = bnd (createDependency sl i f l flags) (\<lambda>(f', _). Ok f')"
| "exec sl (CreateAt i c l flags) f = bnd (child_CreateDependency sl i f c l flags) (\<lambda>(f', _). Ok f')"
| "exec sl (Release dep) f = Ok (fst (ReleaseAll sl f dep))"
| "exec sl (PartialRelease dep) f = Ok (fst (ReleaseDependency sl f dep))"
| "exec sl (Use dep flags) f = bnd (UseDependency sl f dep flags) (\<lambda>(f', _). Ok f')"
| "exec sl (Adjust adj absolute) f = bnd (sema_AdjustLimit sl f adj absolute) (\<lambda>(f', _). Ok f')"
| "exec sl (AdjustAt c adj absolute) f = bnd (child_AdjustLimit sl f c adj absolute) (\<lambda>(f', _). Ok f')"
| "exec sl (NewChild flags val adjustable) f = NewChildExt f adjustable val flags"

fun enabled :: "semaFamily \<Rightarrow> event \<Rightarrow> bool" where
  "enabled f (Create i l flags) = fresh f i"
| "enabled f (CreateAt i c l flags) = (fresh f i \<and> c < length (kids f))"
| "enabled f (Release dep) = known f dep"
| "enabled f (PartialRelease dep) = known f dep"
| "enabled f (Use dep flags) = known f dep"
| "enabled f (Adjust adj absolute) = (int64 adj \<and> unsaturated (plimit f) adj absolute)"
| "enabled f (AdjustAt c adj absolute) = (c < length (kids f) \<and> int64 adj \<and> unsaturated (klimit f c) adj absolute)"
| "enabled f (NewChild flags val adjustable) = limit_ok val"

text \<open>Events that never lower a limit, and never raise one that is negative.\<close>

fun onlyRaises :: "semaFamily \<Rightarrow> event \<Rightarrow> bool" where
  "onlyRaises f (Adjust adj absolute) = raises (plimit f) adj absolute"
| "onlyRaises f (AdjustAt c adj absolute) = raises (klimit f c) adj absolute"
| "onlyRaises f ev = True"

text \<open>Events that do not release an entry that was released partially before.\<close>

fun inChildQueue :: "place option \<Rightarrow> bool" where
  "inChildQueue (Some (ChildQueue c)) = True"
| "inChildQueue pl = False"

lemma inChildQueue_iff: "inChildQueue pl \<longleftrightarrow> (\<exists>c. pl = Some (ChildQueue c))"
  by (cases pl rule: inChildQueue.cases) simp_all

fun wholeRelease :: "semaFamily \<Rightarrow> event \<Rightarrow> bool" where
  "wholeRelease f (Release dep) = (\<not> inChildQueue (getQueue f (eid dep)))"
| "wholeRelease f (PartialRelease dep) = (stacker dep = None \<longrightarrow> \<not> inChildQueue (getQueue f (eid dep)))"
| "wholeRelease f ev = True"

inductive sema_reach :: "(semaFamily \<Rightarrow> event \<Rightarrow> bool) \<Rightarrow> semaFamily \<Rightarrow> bool" for P where
  sr_new: "int64 initial \<Longrightarrow> newSemaphore sl initial adjustable flags = Ok f \<Longrightarrow> sema_reach P f"
| sr_step: "sema_reach P f \<Longrightarrow> enabled f ev \<Longrightarrow> P f ev \<Longrightarrow> exec sl ev f = Ok f' \<Longrightarrow> sema_reach P f'"

lemma ReleaseAll_ok:
  assumes "fam_ok f" "known f dep" "f' = fst (ReleaseAll sl f dep)"
  shows "fam_ok f'" "all_within f \<Longrightarrow> all_within f'"
    "(\<forall>c. getQueue f (eid dep) \<noteq> Some (ChildQueue c)) \<Longrightarrow> all_busy f \<Longrightarrow> all_busy f'"
proof -
  obtain links where r: "ReleaseAll sl f dep = (f', links)" using assms(3) by (metis surj_pair fst_conv)
  have "fam_ok f' \<and> (all_within f \<longrightarrow> all_within f') \<and>
    ((\<forall>c. getQueue f (eid dep) \<noteq> Some (ChildQueue c)) \<longrightarrow> all_busy f \<longrightarrow> all_busy f')"
  proof (cases "getQueue f (eid dep)")
    case None
    then show ?thesis using assms(1) r by (simp add: ReleaseAll_none)
  next
    case (Some pl)
    show ?thesis
    proof (cases pl)
      case ParentActive
      then show ?thesis using ReleaseAll_active [OF assms(1,2) _ r] Some by blast
    next
      case ParentAwait
      then show ?thesis using ReleaseAll_await [OF assms(1,2) _ r] Some by blast
    next
      case (ChildQueue c)
      then show ?thesis using ReleaseAll_childQueue(1,2) [OF assms(1,2) _ r] Some by blast
    next
      case (ChildAwait c)
      then show ?thesis using ReleaseAll_childAwait [OF assms(1,2) _ r] Some by blast
    qed
  qed
  then show "fam_ok f'" "all_within f \<Longrightarrow> all_within f'"
    "(\<forall>c. getQueue f (eid dep) \<noteq> Some (ChildQueue c)) \<Longrightarrow> all_busy f \<Longrightarrow> all_busy f'" by blast+
qed

text \<open>Operations other than adjustments do not touch the limits.\<close>

definition sameLimits :: "semaFamily \<Rightarrow> semaFamily \<Rightarrow> bool" where
  "sameLimits f g \<longleftrightarrow> plimit g = plimit f \<and> length (kids g) = length (kids f) \<and> (\<forall>c. klimit g c = klimit f c)"

named_theorems limit_intros "operations that keep the limits"

lemma sameLimits_refl [limit_intros]: "sameLimits f f"
  by (simp add: sameLimits_def)

lemma sameLimits_updates [limit_intros]:
  "sameLimits f g \<Longrightarrow> sameLimits f (setQueueAt g pl q)" "sameLimits f g \<Longrightarrow> sameLimits f (addWorkers g c n)"
  "sameLimits f g \<Longrightarrow> sameLimits f (setActiveQ g q)" "sameLimits f g \<Longrightarrow> sameLimits f (setAwaitQ g q)"
  "sameLimits f g \<Longrightarrow> sameLimits f (removeAt g pl i)"
  by (cases pl; simp add: sameLimits_def removeAt_def family_updates nth_update)+

lemma sameLimits_moves [limit_intros]:
  "sameLimits f g \<Longrightarrow> sameLimits f (sub_updateQueue sl g c)"
  "sameLimits f g \<Longrightarrow> sameLimits f (fst (updateParent sl g))"
  by (auto simp: sub_updateQueue_def Let_def updateParent_def updateQueue_def simp del: setQueueAt.simps split: prod.splits intro!: limit_intros)
    (simp add: sameLimits_def family_updates)

lemma sameLimits_after [limit_intros]: "sameLimits f g \<Longrightarrow> sameLimits f (updateAfterRelease sl g e pl)"
  by (auto simp: updateAfterRelease_def afterRelease_def intro!: limit_intros split: option.splits)

lemma sameLimits_ReleaseAll [limit_intros]: "sameLimits f (fst (ReleaseAll sl f dep))"
  by (auto simp: ReleaseAll_def working_SafeRelease_def waiting_SafeRelease_def sub_SafeRelease_def
      intro!: limit_intros split: option.splits place.splits)

lemma sameLimits_partial [limit_intros]: "sameLimits f (fst (stack_tryPartialRelease f dep))"
  by (auto simp: stack_tryPartialRelease_def tryPartialRelease_def Let_def simp del: setQueueAt.simps
      intro!: limit_intros split: option.splits)

lemma sameLimits_ReleaseDependency: "sameLimits f (fst (ReleaseDependency sl f dep))"
proof -
  obtain f1 b where p: "stack_tryPartialRelease f dep = (f1, b)" by (metis surj_pair)
  have "sameLimits f f1" using sameLimits_partial [of f dep] p by simp
  then have "sameLimits f (fst (updateParent sl f1))" by (rule limit_intros)
  then show ?thesis using p \<open>sameLimits f f1\<close> sameLimits_ReleaseAll [of f sl dep]
    by (auto simp: ReleaseDependency_def split: prod.splits bool.splits)
qed

lemma sameLimits_create: "createDependency sl i f l flags = Ok (f', d, e) \<Longrightarrow> sameLimits f f'"
  by (auto simp: createDependency_def go_simps intro!: limit_intros split: if_splits)

lemma sameLimits_child_create: "child_CreateDependency sl i f c l flags = Ok (f', d, e) \<Longrightarrow> sameLimits f f'"
  using sameLimits_create [of sl i f l flags]
  by (fastforce simp: child_CreateDependency_def go_simps Let_def simp del: setQueueAt.simps intro: limit_intros split: if_splits)

lemma sameLimits_use: "UseDependency sl f dep flags = Ok (f', d) \<Longrightarrow> sameLimits f f'"
proof (drule UseDependency_cases, elim disjE exE conjE)
  fix c assume "tryPartialAcquire sl f c dep (canPassThrough (controller (parentSync f))) = Ok (f', d)"
  then show "sameLimits f f'"
    by (auto simp: tryPartialAcquire_def Let_def go_simps intro!: limit_intros split: if_splits option.splits)
qed (simp add: limit_intros)

lemma limits_ok_same: "sameLimits f g \<Longrightarrow> limits_ok f \<Longrightarrow> limits_ok g"
  by (simp add: sameLimits_def limits_ok_def)

subsection \<open>Every event keeps the invariants\<close>

lemma PartialRelease_ok:
  assumes "fam_ok f" "known f dep" "f' = fst (ReleaseDependency sl f dep)"
  shows "fam_ok f'" "all_within f \<Longrightarrow> all_within f'" "wholeRelease f (PartialRelease dep) \<Longrightarrow> all_busy f \<Longrightarrow> all_busy f'"
proof -
  have "fam_ok f' \<and> (all_within f \<longrightarrow> all_within f') \<and> (wholeRelease f (PartialRelease dep) \<longrightarrow> all_busy f \<longrightarrow> all_busy f')"
  proof (cases "stacker dep")
    case None
    then have "f' = fst (ReleaseAll sl f dep)" using assms(3) by (simp add: ReleaseDependency_def split: prod.splits)
    with None ReleaseAll_ok [OF assms(1,2) this] show ?thesis by (simp add: inChildQueue_iff)
  next
    case (Some c)
    obtain f1 b where p: "stack_tryPartialRelease f dep = (f1, b)" by (metis surj_pair)
    show ?thesis
    proof (cases b)
      case True
      obtain g links where u: "updateParent sl f1 = (g, links)" by (metis surj_pair)
      have "f' = g" using assms(3) Some p True u by (simp add: ReleaseDependency_def)
      with partial_release_ok [OF assms(1,2) _ u] p True show ?thesis by simp
    next
      case False
      have "f1 = f" using p False
        by (auto simp: stack_tryPartialRelease_def tryPartialRelease_def Let_def split: option.splits if_splits)
      with assms(1,3) Some p False show ?thesis by (simp add: ReleaseDependency_def)
    qed
  qed
  then show "fam_ok f'" "all_within f \<Longrightarrow> all_within f'" "wholeRelease f (PartialRelease dep) \<Longrightarrow> all_busy f \<Longrightarrow> all_busy f'"
    by blast+
qed

lemma exec_ok:
  assumes "fam_ok f" "limits_ok f" "enabled f ev" "exec sl ev f = Ok f'"
  shows "fam_ok f' \<and> limits_ok f' \<and> (onlyRaises f ev \<longrightarrow> all_within f \<longrightarrow> all_within f') \<and>
     (wholeRelease f ev \<longrightarrow> all_busy f \<longrightarrow> all_busy f')"
proof (cases ev)
  case (Create i l flags)
  then obtain d e where x: "createDependency sl i f l flags = Ok (f', d, e)" using assms(4) by (auto simp: go_simps)
  have i: "fresh f i" using assms(3) Create by simp
  show ?thesis using create_ok [OF assms(1) i x] limits_ok_same [OF sameLimits_create [OF x] assms(2)]
    by (simp add: all_within_def all_busy_def)
next
  case (CreateAt i c l flags)
  then obtain d e where x: "child_CreateDependency sl i f c l flags = Ok (f', d, e)" using assms(4) by (auto simp: go_simps)
  have i: "fresh f i" "c < length (kids f)" using assms(3) CreateAt by simp_all
  show ?thesis using child_create_ok [OF assms(1) i x] limits_ok_same [OF sameLimits_child_create [OF x] assms(2)]
    by (simp add: all_within_def all_busy_def)
next
  case (Release dep)
  then have x: "f' = fst (ReleaseAll sl f dep)" and k: "known f dep" using assms(3,4) by simp_all
  show ?thesis using ReleaseAll_ok [OF assms(1) k x] limits_ok_same [OF sameLimits_ReleaseAll assms(2)] Release x
    by (auto simp: inChildQueue_iff)
next
  case (PartialRelease dep)
  then have x: "f' = fst (ReleaseDependency sl f dep)" and k: "known f dep" using assms(3,4) by simp_all
  show ?thesis using PartialRelease_ok [OF assms(1) k x] limits_ok_same [OF sameLimits_ReleaseDependency assms(2)] PartialRelease x
    by blast
next
  case (Use dep flags)
  then obtain d where x: "UseDependency sl f dep flags = Ok (f', d)" using assms(4) by (auto simp: go_simps)
  have k: "known f dep" using assms(3) Use by simp
  show ?thesis using partial_acquire_ok [OF assms(1) k x] limits_ok_same [OF sameLimits_use [OF x] assms(2)] by blast
next
  case (Adjust adj absolute)
  then obtain links act where x: "sema_AdjustLimit sl f adj absolute = Ok (f', links, act)" using assms(4) by (auto simp: go_simps)
  have k: "int64 adj" "unsaturated (plimit f) adj absolute" using assms(3) Adjust by simp_all
  show ?thesis using adjust_ok [OF assms(1,2) k x] Adjust by simp
next
  case (AdjustAt c adj absolute)
  then obtain links act where x: "child_AdjustLimit sl f c adj absolute = Ok (f', links, act)" using assms(4) by (auto simp: go_simps)
  have k: "c < length (kids f)" "int64 adj" "unsaturated (klimit f c) adj absolute" using assms(3) AdjustAt by simp_all
  show ?thesis using child_adjust_ok [OF assms(1,2) k x] AdjustAt by simp
next
  case (NewChild flags val adjustable)
  then have "f' = newSemaphoreChild f flags val adjustable" "limit_ok val"
    using assms(3,4) by (auto simp: NewChildExt_def split: if_splits)
  then show ?thesis using new_child_ok [OF assms(1,2)] by simp
qed

lemma new_ok:
  assumes "int64 initial" "newSemaphore sl initial adjustable flags = Ok f"
  shows "fam_ok f \<and> limits_ok f \<and> all_within f \<and> all_busy f"
proof -
  let ?z = "\<lparr>parentSync = \<lparr>controller = zeroController 0 flags, isAdjustable = True\<rparr>, kids = []\<rparr>"
  have "limit_ok (plimit ?z)" by (simp add: zeroController_def limit_ok_def MinInt32_def MaxInt32_def)
  moreover have sz: "separate ?z" unfolding separate_def
  proof (intro conjI allI impI)
    fix pl assume "place_ok ?z pl" then show "q_ok (queueAt ?z pl)" by (cases pl) (simp_all add: zeroController_def)
  next
    fix pl pl' show "idset (queueAt ?z pl) \<inter> idset (queueAt ?z pl') = {}" if "place_ok ?z pl" "place_ok ?z pl'"
      using that by (cases pl) (simp_all add: zeroController_def newQueue_def)
  qed
  moreover have z: "itemsAt ?z ParentActive = []" "itemsAt ?z ParentAwait = []" "kids ?z = []" "plimit ?z = 0"
    by (simp_all add: zeroController_def newQueue_def)
  ultimately have zz: "fam_ok ?z" "limits_ok ?z"
    by (simp_all add: fam_ok_def owners_ok_def counts_ok_def limits_ok_def)
  obtain g deps act where g: "sema_AdjustLimit sl ?z initial False = Ok (g, deps, act)"
    and f: "f = g\<lparr>parentSync := (parentSync g)\<lparr>isAdjustable := adjustable\<rparr>\<rparr>"
    using assms(2) by (auto simp: newSemaphore_def Let_def go_simps split: if_splits)
  have us: "unsaturated (plimit ?z) initial False"
    using z(4) by (auto simp: unsaturated_def noAdjustment_def adjusted_def clamp_def MinInt32_def MaxInt32_def max_def min_def)
  note a = adjust_ok [OF zz assms(1) us g]
  have kg: "kids g = [] \<and> itemsAt g ParentActive = [] \<and> itemsAt g ParentAwait = []"
  proof -
    have "limit_ok (plimit ?z)" using zz(2) by (simp add: limits_ok_def)
    from sema_AdjustLimit_cases [OF sz this assms(1) g]
    consider "g = ?z" | l where "g = setLimit ?z l" | n l where "activate sl n (setLimit ?z l) = (g, deps)"
      using us by (auto simp: unsaturated_def)
    then show ?thesis
    proof cases
      case 3
      have "separate (setLimit ?z l)" using sz by simp
      note u = activate_queues [OF this 3]
      have aw: "itemsAt (setLimit ?z l) ParentAwait = []" "itemsAt (setLimit ?z l) ParentActive = []"
        using z by (simp_all add: setLimit_fields del: queueAt.simps)
      have "afterValid sl n [] = []" by (cases n) simp_all
      with aw z(3) show ?thesis by (simp add: u(2,3) woken_def moved_def setLimit_fields(3) del: queueAt.simps)
    qed (use z in \<open>simp_all add: setLimit_fields del: queueAt.simps\<close>)
  qed
  have "queueAt f pl = queueAt g pl" for pl by (cases pl) (simp_all add: f)
  moreover have "kids f = kids g" "plimit f = plimit g" by (simp_all add: f)
  ultimately have "fam_ok f" "limits_ok f"
    using a fam_ok_cong [of f g] by (simp_all add: limits_ok_def del: queueAt.simps)
  then show ?thesis using kg \<open>\<And>pl. queueAt f pl = queueAt g pl\<close> \<open>kids f = kids g\<close>
    by (simp add: all_within_def all_busy_def within_def busy_def del: queueAt.simps)
qed

lemma reach_ok:
  assumes "sema_reach P f" shows "fam_ok f \<and> limits_ok f"
  using assms by (induction rule: sema_reach.induct) (use new_ok exec_ok in blast)+

lemma reach_within:
  assumes "sema_reach onlyRaises f" shows "all_within f"
  using assms
proof (induction rule: sema_reach.induct)
  case (sr_step f ev sl f')
  then show ?case using exec_ok [of f ev sl f'] reach_ok [of onlyRaises f] by blast
qed (use new_ok in blast)


lemma counts_are_lengths:
  assumes "fam_ok f"
  shows "sema_GetCounts f = (int (length (itemsAt f ParentActive)), int (length (itemsAt f ParentAwait)))"
    "c < length (kids f) \<Longrightarrow> child_GetCounts f c = (load f c, int (length (itemsAt f (ChildAwait c))))"
  using assms separate_queues [of f] by (simp_all add: fam_ok_def sema_GetCounts_def child_GetCounts_def load_def q_ok_count)

text \<open>A sample machine: slot \<open>n\<close> is alive with identifier \<open>n + 1\<close>, and runs of events on it.\<close>

definition sampleSlots :: slots where
  "sampleSlots n = (word_of_nat (n + 1), 1, False)"

definition sampleLink :: "nat \<Rightarrow> SlotLink" where
  "sampleLink n = \<lparr>link_id = word_of_nat (n + 1), link_s = Some n\<rparr>"

fun runs :: "slots \<Rightarrow> event list \<Rightarrow> semaFamily \<Rightarrow> semaFamily res" where
  "runs sl [] f = Ok f"
| "runs sl (ev # evs) f = bnd (exec sl ev f) (runs sl evs)"

fun guarded :: "(semaFamily \<Rightarrow> event \<Rightarrow> bool) \<Rightarrow> slots \<Rightarrow> event list \<Rightarrow> semaFamily \<Rightarrow> bool" where
  "guarded P sl [] f = True"
| "guarded P sl (ev # evs) f = (enabled f ev \<and> P f ev \<and> (case exec sl ev f of Ok f' \<Rightarrow> guarded P sl evs f' | Panic _ \<Rightarrow> True))"

lemma reach_runs: "sema_reach P f \<Longrightarrow> guarded P sl evs f \<Longrightarrow> runs sl evs f = Ok f' \<Longrightarrow> sema_reach P f'"
proof (induction evs arbitrary: f)
  case (Cons ev evs)
  then obtain g where g: "exec sl ev f = Ok g" "runs sl evs g = Ok f'" by (auto simp: go_simps)
  with Cons.prems have "sema_reach P g" by (auto intro: sr_step)
  with Cons.IH [of g] Cons.prems(2) g show ?case by simp
qed simp

lemma fresh_code [code]: "fresh f i = (getQueue f i = None)"
  by (simp add: getQueue_None)

lemma known_code [code]:
  "known f dep = list_all (\<lambda>pl. list_all (\<lambda>e. eid e = eid dep \<longrightarrow> stacker e = stacker dep) (itemsAt f pl)) (places f)"
  unfolding known_def list_all_iff Ball_def places_iff by blast

lemma sample_reach:
  assumes "guarded P sampleSlots evs f" "newSemaphore sampleSlots initial adjustable flags = Ok f" "int64 initial"
    "runs sampleSlots evs f = Ok f'"
  shows "sema_reach P f'"
  using reach_runs [OF sr_new [OF assms(3,2)] assms(1,4)] .

definition sampleSema :: "int \<Rightarrow> semaFamily" where
  "sampleSema n = (case newSemaphore sampleSlots n True 0 of Ok f \<Rightarrow> f)"

definition sampleRun :: "int \<Rightarrow> event list \<Rightarrow> semaFamily" where
  "sampleRun n evs = (case runs sampleSlots evs (sampleSema n) of Ok f \<Rightarrow> f)"

definition sampleAcquires :: "event list" where
  "sampleAcquires = [Create 0 (sampleLink 0) 0, Create 1 (sampleLink 1) 0, Create 2 (sampleLink 2) 0]"

lemma sample_acquires_reach:
  assumes "guarded P sampleSlots sampleAcquires (sampleSema 2)"
  shows "sema_reach P (sampleRun 2 sampleAcquires)"
proof (rule sample_reach [OF assms])
  show "newSemaphore sampleSlots 2 True 0 = Ok (sampleSema 2)" by code_simp
  show "int64 2" by (simp add: int64_def)
  show "runs sampleSlots sampleAcquires (sampleSema 2) = Ok (sampleRun 2 sampleAcquires)" by code_simp
qed

text \<open>
  C1: the limit of a semaphore is respected.  As long as limits are only raised, and only from zero or
  more, no sequence of acquisitions, releases, partial releases and acquisitions and adjustments makes
  more workers active than the limit, and the slots that a child semaphore has admitted (to the queues
  of the parent and to its own) stay within the limit of the child.
\<close>
theorem semaphore_limit_respected:
  assumes "sema_reach onlyRaises f"
  shows "fst (sema_GetCounts f) \<le> max 0 (plimit f) \<and>
     (\<forall>c < length (kids f). fst (child_GetCounts f c) \<le> max 0 (klimit f c) \<and>
        owned c (items (activeQ f)) + owned c (items (awaitQ f)) + int (length (items (queue (sub (kids f ! c)))))
          \<le> fst (child_GetCounts f c))"
proof -
  have f: "fam_ok f" "all_within f" using reach_ok reach_within assms by blast+
  have "counts_ok f" using f(1) by (simp add: fam_ok_def)
  then have "owned c (items (activeQ f)) + owned c (items (awaitQ f)) + int (length (items (queue (sub (kids f ! c))))) \<le> load f c"
    if "c < length (kids f)" for c using that by (auto simp: counts_ok_def load_def)
  with f(2) show ?thesis
    by (auto simp: counts_are_lengths [OF f(1)] all_within_def within_def kwithin_def)
qed

theorem semaphore_limit_respected_witness:
  "sema_reach onlyRaises (sampleRun 2 sampleAcquires) \<and> fst (sema_GetCounts (sampleRun 2 sampleAcquires)) = 2 \<and>
   fst (sema_GetCounts (sampleRun 2 sampleAcquires)) \<le> max 0 (plimit (sampleRun 2 sampleAcquires))"
proof -
  have r: "sema_reach onlyRaises (sampleRun 2 sampleAcquires)"
    by (rule sample_acquires_reach) code_simp
  moreover have "fst (sema_GetCounts (sampleRun 2 sampleAcquires)) = 2" by code_simp
  ultimately show ?thesis using semaphore_limit_respected [OF r] by blast
qed



text \<open>
  C21: a release wakes the right slots.  When a worker that acquired the semaphore directly releases it,
  the free places go to the first waiting slots in the order of the queue, except that entries of dead
  slots are skipped; these become active in that order and exactly they are reported for wake-up.
\<close>
theorem semaphore_release_wakes_in_order:
  assumes "sema_reach P f" "e \<in> set (items (activeQ f))" "stacker e = None" "ReleaseAll sl f e = (f', links)"
  shows "\<exists>woken. woken = take (nat (plimit f - int (length (items (activeQ f))) + 1)) (filter (valid_entry sl) (items (awaitQ f))) \<and>
     items (activeQ f') = filter (\<lambda>x. eid x \<noteq> eid e) (items (activeQ f)) @ woken \<and> links = map (stepOf sl) woken"
proof -
  have f: "fam_ok f" "separate f" using reach_ok [OF assms(1)] by (simp_all add: fam_ok_def)
  have ct: "contains (queueAt f ParentActive) (eid e)" using assms(2) by (simp add: contains_def)
  have pk: "place_ok f ParentActive" by simp
  let ?g = "removeAt f ParentActive (eid e)"
  have gq: "getQueue f (eid e) = Some ParentActive" by (rule getQueue_unique [OF f(2) pk ct])
  have up: "updateParent sl ?g = (f', links)"
    using assms(3,4) gq by (simp add: ReleaseAll_def working_SafeRelease_def updateAfterRelease_def)
  have gs: "separate ?g" by (rule removeAt_separate [OF f(2) pk ct])
  have ac: "activate sl (room ?g) ?g = (f', links)" using up updateParent_activate [OF gs] by simp
  note u = activate_queues [OF gs ac] and r = removeAt_fields [OF pk, of "eid e"]
  have "distinct (ids (items (activeQ f)))" using separate_queues(1) [OF f(2)] by (simp add: q_ok_def)
  then have "Suc (length (filter (\<lambda>x. eid x \<noteq> eid e) (items (activeQ f)))) = length (items (activeQ f))"
    using length_filter_eid assms(2) by simp
  then have "room ?g = nat (plimit f - int (length (items (activeQ f))) + 1)" using r(1) [of ParentActive] r(3) by (simp add: room_def)
  moreover have "items (awaitQ ?g) = items (awaitQ f)" using r(1) [of ParentAwait] by simp
  ultimately show ?thesis
    using u(2) [of ParentActive] u(5) r(1) [of ParentActive] by (simp add: woken_def moved_def)
qed

theorem semaphore_release_wakes_in_order_witness:
  "\<exists>f' links. ReleaseAll sampleSlots (sampleRun 2 sampleAcquires) (newEntry 0 (sampleLink 0) 0 None) = (f', links) \<and>
     links = map (stepOf sampleSlots) [newEntry 2 (sampleLink 2) 0 None]"
proof -
  let ?f = "sampleRun 2 sampleAcquires" and ?e = "newEntry 0 (sampleLink 0) 0 None"
  have r: "sema_reach wholeRelease ?f"
    by (rule sample_acquires_reach) code_simp
  obtain f' links where x: "ReleaseAll sampleSlots ?f ?e = (f', links)" by (metis surj_pair)
  have e: "?e \<in> set (items (activeQ ?f))" by code_simp
  have "take (nat (plimit ?f - int (length (items (activeQ ?f))) + 1)) (filter (valid_entry sampleSlots) (items (awaitQ ?f))) =
      [newEntry 2 (sampleLink 2) 0 None]" by code_simp
  with semaphore_release_wakes_in_order [OF r e _ x] x show ?thesis by (simp add: newEntry_def)
qed

lemma semaphore_overadmission:
  "case bnd (newSemaphore sampleSlots 1 True 0)
      (runs sampleSlots [Create 0 (sampleLink 0) 0, Create 1 (sampleLink 1) 0, Adjust 0 True, Adjust 1 True]) of
     Ok f \<Rightarrow> plimit f = 1 \<and> sema_GetCounts f = (2, 0) | Panic _ \<Rightarrow> False"
  by code_simp

lemma saturated_adjustment_revokes:
  "case bnd (newSemaphore sampleSlots 1 True 0)
      (runs sampleSlots [Create 0 (sampleLink 0) 0, Create 1 (sampleLink 1) 0, Adjust 2147483647 True, Adjust 1 False]) of
     Ok f \<Rightarrow> plimit f = 2147483647 \<and> sema_GetCounts f = (1, 1) | Panic _ \<Rightarrow> False"
  by code_simp

lemma saturated_adjustment_panics:
  "bnd (newSemaphore sampleSlots 2147483647 True 0) (runs sampleSlots [Create 0 (sampleLink 0) 0, Adjust 1 False]) =
     Panic ''nil pointer dereference''"
  by code_simp

definition sampleEntry :: "nat \<Rightarrow> dependencyQueueEntry" where
  "sampleEntry n = newEntry n (sampleLink n) 0 (Some 0)"

lemma lost_wakeup:
  "case bnd (newSemaphore sampleSlots 2 True 0)
      (runs sampleSlots [NewChild AllowPartialRelease 1 True, CreateAt 0 0 (sampleLink 0) 0, CreateAt 1 0 (sampleLink 1) 0,
        PartialRelease (sampleEntry 0), Release (sampleEntry 0)]) of
     Ok f \<Rightarrow> plimit f = 2 \<and> sema_GetCounts f = (0, 1) | Panic _ \<Rightarrow> False"
  by code_simp

end
