(* ===== verification/Sync_Contract.thy ===== *)
theory Sync_Contract
  imports Sync_Queue
begin

text \<open>
  The contract between the slots and the synchronization objects, the part of the interface
  \<^verbatim>\<open>DependencyController\<close> of \<^verbatim>\<open>conveyor/smachine/api_sync.go\<close> that an acquisition relies on.  Each
  object discharges it in its own theory; the operations of the slots are in \<open>Sync_Context\<close>.
\<close>

subsection \<open>The contract of a controller\<close>

text \<open>
  What the slots rely on: a dependency that a controller has just created is recognized by it, with the
  flags it was created with, and gives the decision that came with it.  A controller that creates no
  dependency lets the slot pass and is not changed.
\<close>

locale sync_object =
  fixes inv :: "'s \<Rightarrow> bool"
    and isNew :: "'s \<Rightarrow> nat \<Rightarrow> SlotLink \<Rightarrow> bool"
    and create :: "slots \<Rightarrow> nat \<Rightarrow> 's \<Rightarrow> SlotLink \<Rightarrow> SlotDependencyFlags \<Rightarrow> ('s \<times> bool \<times> 'd option) res"
    and useDep :: "slots \<Rightarrow> 's \<Rightarrow> 'd \<Rightarrow> SlotDependencyFlags \<Rightarrow> ('s \<times> Decision) res"
  assumes create_inv: "inv s \<Longrightarrow> isNew s i l \<Longrightarrow> create sl i s l flags = Ok (s', d, eo) \<Longrightarrow> inv s'"
    and create_free: "inv s \<Longrightarrow> create sl i s l flags = Ok (s', d, None) \<Longrightarrow> d \<and> s' = s"
    and create_use: "inv s \<Longrightarrow> isNew s i l \<Longrightarrow> create sl i s l flags = Ok (s', d, Some e) \<Longrightarrow>
       fl = flags \<or> fl = SyncIgnoreFlags \<Longrightarrow> useDep sl s' e fl = Ok (s', GetDecision d)"
begin

lemma reacquire:
  assumes "inv s" "isNew s i l" "create sl i s l flags = Ok (s', d, Some e)"
  shows "bnd (useDep sl s' e flags) (\<lambda>(s'', r). Ok (s'', AsValid r)) = Ok (s', d, True)"
    "bnd (useDep sl s' e SyncIgnoreFlags) (\<lambda>(s'', r). Ok (s'', decision_IsValid r)) = Ok (s', True)"
  using create_use [OF assms] by (simp_all add: AsValid_IsValid [symmetric])

end

text \<open>An object with a queue forgets an entry when it is released.\<close>

locale queued_object = sync_object inv isNew create useDep
  for inv isNew
    and create :: "slots \<Rightarrow> nat \<Rightarrow> 's \<Rightarrow> SlotLink \<Rightarrow> SlotDependencyFlags \<Rightarrow> ('s \<times> bool \<times> 'd option) res"
    and useDep +
  fixes release :: "slots \<Rightarrow> 's \<Rightarrow> 'd \<Rightarrow> ('s \<times> StepLink list) res"
  assumes create_release: "inv s \<Longrightarrow> isNew s i l \<Longrightarrow> create sl i s l flags = Ok (s', d, Some e) \<Longrightarrow>
     \<exists>s'' links. release sl' s' e = Ok (s'', links) \<and> inv s'' \<and> useDep sl' s'' e SyncIgnoreFlags = Ok (s'', Impossible)"
begin

lemma acquire_and_release:
  assumes "inv s" "isNew s i l" "create sl i s l flags = Ok (s', d, Some e)"
  obtains s'' links where "release sl s' e = Ok (s'', links)" "inv s''"
    "bnd (useDep sl s'' e SyncIgnoreFlags) (\<lambda>(t, r). Ok (t, decision_IsValid r)) = Ok (s'', False)"
  using create_release [OF assms, of sl] by (auto simp: decision_IsValid_def)

end

text \<open>The flags of an entry that has just been added.\<close>

lemma and_not_mask: "(x :: 'a :: len word) AND m = 0 \<Longrightarrow> x AND NOT m = x"
proof -
  assume a: "x AND m = 0"
  have "(x AND m) OR (x AND NOT m) = x" by (simp add: bit.conj_disj_distrib [symmetric])
  with a show ?thesis by simp
qed

lemma added_compatible:
  assumes "addSlot_with sl q (newEntry i l flags st) sf af = Ok (q', e)" "qflags r = qflags q" "fl = flags \<or> fl = SyncIgnoreFlags"
  shows "entry_IsCompatibleWith (Some r) (slotFlags e) fl = Ok True"
proof -
  have "slotFlags e = (if qflags q AND QueueAllowsPriority = 0 then flags AND NOT SyncPriorityMask else flags)"
    using assms(1) by (auto simp: addSlot_with_def newEntry_def Let_def split: if_splits list.splits option.splits)
  then show ?thesis using assms(2,3)
    by (auto simp: entry_IsCompatibleWith_def and_not_mask)
qed

lemma find_eid: "distinct (ids es) \<Longrightarrow> e \<in> set es \<Longrightarrow> find (\<lambda>x. eid x = eid e) es = Some e"
  by (induction es) auto

end
