(* ===== verification/Sync_Semaphore_Contract.thy ===== *)
theory Sync_Semaphore_Contract
  imports Sync_Semaphore_Spec Sync_Contract
begin

text \<open>Semaphores and their children keep the contract of synchronization objects.\<close>

subsection \<open>The contract of a semaphore and of its children\<close>

definition sema_create ::
  "slots \<Rightarrow> nat \<Rightarrow> semaFamily \<Rightarrow> SlotLink \<Rightarrow> SlotDependencyFlags \<Rightarrow> (semaFamily \<times> bool \<times> dependencyQueueEntry option) res" where
  "sema_create sl i f l flags = bnd (createDependency sl i f l flags) (\<lambda>(f', d, e). Ok (f', d, Some e))"

definition child_create ::
  "nat \<Rightarrow> slots \<Rightarrow> nat \<Rightarrow> semaFamily \<Rightarrow> SlotLink \<Rightarrow> SlotDependencyFlags \<Rightarrow> (semaFamily \<times> bool \<times> dependencyQueueEntry option) res" where
  "child_create c sl i f l flags = bnd (child_CreateDependency sl i f c l flags) (\<lambda>(f', d, e). Ok (f', d, Some e))"

definition child_use :: "nat \<Rightarrow> slots \<Rightarrow> semaFamily \<Rightarrow> dependencyQueueEntry \<Rightarrow> SlotDependencyFlags \<Rightarrow> (semaFamily \<times> Decision) res" where
  "child_use c sl f e flags = bnd (child_UseDependency sl f c e flags) (\<lambda>d. Ok (f, d))"

definition sema_release :: "slots \<Rightarrow> semaFamily \<Rightarrow> dependencyQueueEntry \<Rightarrow> (semaFamily \<times> StepLink list) res" where
  "sema_release sl f e = Ok (ReleaseAll sl f e)"

text \<open>Where an entry is after a successful addition to a queue of the family.\<close>

lemma put_entry:
  assumes "separate f" "place_ok f pl" "fresh f i" "AddSlot sl i (queueAt f pl) l flags st = Ok (q, e)"
    and g: "separate g" "place_ok g pl" "queueAt g pl = q"
  shows "getQueue g i = Some pl" "getEntry g e = e" "eid e = i" "stacker e = st" "link e = l" "link_IsValid sl l" "known g e"
    "fl = flags \<or> fl = SyncIgnoreFlags \<Longrightarrow> entryCompatible g e fl = Ok True"
proof -
  have a: "addSlot_with sl (queueAt f pl) (newEntry i l flags st) False False = Ok (q, e)"
    using assms(4) by (simp add: AddSlot_def addSlotWithPriority_def)
  have fr: "eid (newEntry i l flags st) \<notin> set (ids (itemsAt f pl))" using assms(2,3) by (simp add: fresh_def newEntry_def)
  note s = addSlot_with_ok [OF a separateD [OF assms(1,2)] fr]
  have e: "e \<in> set (items q)" using s by simp
  show i: "eid e = i" "stacker e = st" "link e = l" "link_IsValid sl l" using s by (simp_all add: newEntry_def)
  have "contains (queueAt g pl) i" using e i g(3) by (auto simp: contains_def)
  then show gq: "getQueue g i = Some pl" by (rule getQueue_unique [OF g(1,2)])
  have "find (\<lambda>x. eid x = eid e) (items q) = Some e" by (rule find_eid) (use s e in auto)
  then show ge: "getEntry g e = e" using gq i g(3) by (simp add: getEntry_def)
  show "entryCompatible g e fl = Ok True" if "fl = flags \<or> fl = SyncIgnoreFlags"
    using added_compatible [OF a _ that] s gq ge i g(3) by (simp add: entryCompatible_def)
  show "known g e" unfolding known_def
  proof (intro allI impI ballI)
    fix pl' x assume x: "place_ok g pl'" "x \<in> set (itemsAt g pl')" "eid x = eid e"
    then have "getQueue g i = Some pl'" using i by (intro getQueue_unique [OF g(1)]) (auto simp: contains_def)
    then have "pl' = pl" using gq by simp
    then have "x \<in> set (items q)" using x(2) g(3) by simp
    moreover have "distinct (ids (items q))" using s by auto
    ultimately have "x = e" using e x(3) by (auto simp: distinct_map inj_on_def)
    then show "stacker x = stacker e" by simp
  qed
qed

lemma sema_create_entry:
  assumes "fam_ok f" "fresh f i" "sema_create sl i f l flags = Ok (f', d, Some e)"
  shows "fam_ok f'" "getQueue f' i = Some (if d then ParentActive else ParentAwait)" "eid e = i" "stacker e = None"
    "link e = l" "link_IsValid sl l" "known f' e" "fl = flags \<or> fl = SyncIgnoreFlags \<Longrightarrow> entryCompatible f' e fl = Ok True"
proof -
  have c: "createDependency sl i f l flags = Ok (f', d, e)" using assms(3) by (auto simp: sema_create_def go_simps)
  then obtain q where q: "AddSlot sl i (queueAt f (createPlace f)) l flags None = Ok (q, e)"
    and f': "f' = setQueueAt f (createPlace f) q" and d: "d = canPassThrough (controller (parentSync f))"
    by (auto simp: createDependency_put go_simps)
  show ok: "fam_ok f'" by (rule create_ok(1) [OF assms(1,2) c])
  have f: "separate f" "separate f'" using assms(1) ok by (simp_all add: fam_ok_def)
  have pl: "place_ok f (createPlace f)" "place_ok f' (createPlace f)" by (simp_all add: createPlace_def)
  have at: "queueAt f' (createPlace f) = q" using f' by (simp add: fam_simps pl del: setQueueAt.simps)
  note p = put_entry [OF f(1) pl(1) assms(2) q f(2) pl(2) at]
  show "getQueue f' i = Some (if d then ParentActive else ParentAwait)" using p(1) d by (simp add: createPlace_def)
  show "eid e = i" "stacker e = None" "link e = l" "link_IsValid sl l" "known f' e" by (fact p)+
  show "entryCompatible f' e fl = Ok True" if "fl = flags \<or> fl = SyncIgnoreFlags" by (rule p(8) [OF that])
qed

lemma released_use:
  assumes "fam_ok f" "known f e"
  obtains f' links where "sema_release sl f e = Ok (f', links)" "fam_ok f'" "UseDependency sl f' e SyncIgnoreFlags = Ok (f', Impossible)"
    "child_use c sl f' e SyncIgnoreFlags = Ok (f', Impossible)" "length (kids f') = length (kids f)"
proof -
  obtain f' links where r: "ReleaseAll sl f e = (f', links)" by (metis surj_pair)
  have "getQueue f' (eid e) = None" using ReleaseAll_fresh [OF assms(1,2) r] by (simp add: getQueue_None)
  then have "UseDependency sl f' e SyncIgnoreFlags = Ok (f', Impossible)" "child_use c sl f' e SyncIgnoreFlags = Ok (f', Impossible)"
    by (auto simp: UseDependency_def checkDependency_def checkDependencyHere_def entryCompatible_def entry_IsCompatibleWith_def
        stack_contains_def containsInStack_def child_use_def child_UseDependency_def Let_def split: option.splits)
  moreover have "fam_ok f'" using ReleaseAll_ok(1) [OF assms(1,2) refl, of sl] r by simp
  moreover have "length (kids f') = length (kids f)" using sameLimits_ReleaseAll [of f sl e] r by (simp add: sameLimits_def)
  ultimately show ?thesis using that r by (simp add: sema_release_def)
qed

interpretation sema: queued_object fam_ok "\<lambda>f i l. fresh f i" sema_create UseDependency sema_release
proof unfold_locales
  fix f i l sl flags f' d and eo :: "dependencyQueueEntry option"
  assume a: "fam_ok f" "fresh f i" "sema_create sl i f l flags = Ok (f', d, eo)"
  then show "fam_ok f'" using create_ok(1) [OF a(1,2)] by (auto simp: sema_create_def go_simps)
next
  fix f sl i l flags f' d
  assume "fam_ok f" "sema_create sl i f l flags = Ok (f', d, None)"
  then show "d \<and> f' = f" by (auto simp: sema_create_def go_simps)
next
  fix f i l sl flags f' d e fl
  assume a: "fam_ok f" "fresh f i" "sema_create sl i f l flags = Ok (f', d, Some e)" "fl = flags \<or> fl = SyncIgnoreFlags"
  note c = sema_create_entry [OF a(1-3)]
  show "UseDependency sl f' e fl = Ok (f', GetDecision d)"
    using c(2-6,8) a(4) by (simp add: UseDependency_def checkDependency_def checkDependencyHere_def GetDecision_def)
next
  fix f i l sl flags f' d e sl'
  assume a: "fam_ok f" "fresh f i" "sema_create sl i f l flags = Ok (f', d, Some e)"
  note c = sema_create_entry [OF a]
  from released_use [OF c(1,7)] show "\<exists>f'' links. sema_release sl' f' e = Ok (f'', links) \<and> fam_ok f'' \<and>
      UseDependency sl' f'' e SyncIgnoreFlags = Ok (f'', Impossible)" by metis
qed

lemma child_create_entry:
  assumes "fam_ok f" "fresh f i" "c < length (kids f)" "child_create c sl i f l flags = Ok (f', d, Some e)"
  obtains pl where "fam_ok f'" "c < length (kids f')" "getQueue f' i = Some pl" "eid e = i" "stacker e = Some c"
    "link e = l" "link_IsValid sl l" "known f' e" "pl = (if d then ParentActive else ParentAwait) \<or> pl = ChildAwait c \<and> \<not> d"
    "\<And>fl. fl = flags \<or> fl = SyncIgnoreFlags \<Longrightarrow> entryCompatible f' e fl = Ok True"
proof -
  have cc: "child_CreateDependency sl i f c l flags = Ok (f', d, e)" using assms(4) by (auto simp: child_create_def go_simps)
  have ok: "fam_ok f'" "length (kids f') = length (kids f)" by (rule child_create_ok [OF assms(1-3) cc])+
  have f: "separate f" "separate f'" using assms(1) ok by (simp_all add: fam_ok_def)
  have "\<exists>pl q. place_ok f pl \<and> AddSlot sl i (queueAt f pl) l flags (Some c) = Ok (q, e) \<and> queueAt f' pl = q \<and>
     (pl = (if d then ParentActive else ParentAwait) \<or> pl = ChildAwait c \<and> \<not> d)"
  proof (cases "sub_canPassThrough (kids f ! c)")
    case True
    obtain q where q: "AddSlot sl i (queueAt f (createPlace f)) l flags (Some c) = Ok (q, e)"
      "f' = addWorkers (setQueueAt f (createPlace f) q) c 1" using child_create_put [OF True assms(2) cc] by blast
    have "d = canPassThrough (controller (parentSync f))"
      using True cc by (auto simp: child_CreateDependency_def createDependency_put go_simps Let_def)
    moreover have pl: "place_ok f (createPlace f)" by simp
    moreover have "queueAt f' (createPlace f) = q" by (simp add: q(2) fam_simps pl del: setQueueAt.simps)
    ultimately show ?thesis using q(1) by (intro exI [of _ "createPlace f"] exI [of _ q]) (simp add: createPlace_def)
  next
    case False
    then obtain q where q: "AddSlot sl i (queueAt f (ChildAwait c)) l flags (Some c) = Ok (q, e)"
      "f' = setQueueAt f (ChildAwait c) q" "\<not> d" using cc by (auto simp: child_CreateDependency_def go_simps)
    have pl: "place_ok f (ChildAwait c)" using assms(3) by simp
    have "queueAt f' (ChildAwait c) = q" by (simp only: q(2) queueAt_setQueueAt [OF pl]) simp
    with q pl show ?thesis by (intro exI [of _ "ChildAwait c"] exI [of _ q]) simp
  qed
  then obtain pl q where p: "place_ok f pl" "AddSlot sl i (queueAt f pl) l flags (Some c) = Ok (q, e)" "queueAt f' pl = q"
    "pl = (if d then ParentActive else ParentAwait) \<or> pl = ChildAwait c \<and> \<not> d" by blast
  have "place_ok f' pl" using p(1) by (simp add: place_ok_cong [OF ok(2)])
  from put_entry [OF f(1) p(1) assms(2) p(2) f(2) this p(3)] ok assms(3) p(4) that show ?thesis by metis
qed

interpretation child: queued_object "\<lambda>f. fam_ok f \<and> c < length (kids f)" "\<lambda>f i l. fresh f i" "child_create c" "child_use c" sema_release
  for c
proof unfold_locales
  fix f i l sl flags f' d and eo :: "dependencyQueueEntry option"
  assume a: "fam_ok f \<and> c < length (kids f)" "fresh f i" "child_create c sl i f l flags = Ok (f', d, eo)"
  then show "fam_ok f' \<and> c < length (kids f')" using child_create_ok(1,2) [of f i c sl l flags f' d] by (auto simp: child_create_def go_simps)
next
  fix f sl i l flags f' d
  assume "fam_ok f \<and> c < length (kids f)" "child_create c sl i f l flags = Ok (f', d, None)"
  then show "d \<and> f' = f" by (auto simp: child_create_def go_simps)
next
  fix f i l sl flags f' d e fl
  assume a: "fam_ok f \<and> c < length (kids f)" "fresh f i" "child_create c sl i f l flags = Ok (f', d, Some e)" "fl = flags \<or> fl = SyncIgnoreFlags"
  obtain pl where p: "getQueue f' i = Some pl" "eid e = i" "stacker e = Some c" "link e = l" "link_IsValid sl l"
    "pl = (if d then ParentActive else ParentAwait) \<or> pl = ChildAwait c \<and> \<not> d"
    and cp: "\<And>fl. fl = flags \<or> fl = SyncIgnoreFlags \<Longrightarrow> entryCompatible f' e fl = Ok True"
    by (rule child_create_entry [OF conjunct1 [OF a(1)] a(2) conjunct2 [OF a(1)] a(3)]) blast
  have "entryCompatible f' e fl = Ok True" "entryCompatible f' e SyncIgnoreFlags = Ok True" by (rule cp, use a(4) in simp)+
  then show "child_use c sl f' e fl = Ok (f', GetDecision d)"
    using p by (cases d) (auto simp: child_use_def child_UseDependency_def checkDependencyHere_def GetDecision_def)
next
  fix f i l sl flags f' d e sl'
  assume a: "fam_ok f \<and> c < length (kids f)" "fresh f i" "child_create c sl i f l flags = Ok (f', d, Some e)"
  have k: "fam_ok f'" "known f' e" "c < length (kids f')"
    using child_create_entry [OF conjunct1 [OF a(1)] a(2) conjunct2 [OF a(1)] a(3)] by metis+
  from released_use [OF k(1,2)] k(3) show "\<exists>f'' links. sema_release sl' f' e = Ok (f'', links) \<and> (fam_ok f'' \<and> c < length (kids f'')) \<and>
      child_use c sl' f'' e SyncIgnoreFlags = Ok (f'', Impossible)" by metis
qed

end
