(* ===== verification/Sync_Exclusive.thy ===== *)
theory Sync_Exclusive
  imports Sync_Contract
begin

text \<open>
  Exclusive sections of \<^verbatim>\<open>smsync/sync_exclusive.go\<close>.  The whole state is one queue: its first entry holds
  the section, the others wait.
\<close>

subsection \<open>Operations\<close>

definition NewExclusive :: "u8 \<Rightarrow> dependencyQueueHead" where
  "NewExclusive flags = newQueue flags"

definition excl_CheckState :: "dependencyQueueHead \<Rightarrow> bool" where
  "excl_CheckState q = q_IsEmpty q"

definition excl_CreateDependency ::
  "slots \<Rightarrow> nat \<Rightarrow> dependencyQueueHead \<Rightarrow> SlotLink \<Rightarrow> SlotDependencyFlags \<Rightarrow> (dependencyQueueHead \<times> bool \<times> dependencyQueueEntry) res" where
  "excl_CreateDependency sl i q holder flags =
     bnd (addSlotForExclusive sl i q holder flags) (\<lambda>(q', sd).
       case FirstValid sl q' of (q'', f) \<Rightarrow>
         Ok (q'', (case f of None \<Rightarrow> False | Some (f, _) \<Rightarrow> eid f = eid sd), sd))"

definition excl_entry :: "dependencyQueueHead \<Rightarrow> dependencyQueueEntry \<Rightarrow> dependencyQueueEntry" where
  "excl_entry q dep = (case find (\<lambda>e. eid e = eid dep) (items q) of None \<Rightarrow> dep | Some e \<Rightarrow> e)"

definition excl_UseDependency ::
  "slots \<Rightarrow> dependencyQueueHead \<Rightarrow> dependencyQueueEntry \<Rightarrow> SlotDependencyFlags \<Rightarrow> Decision res" where
  "excl_UseDependency sl q entry flags =
     (if \<not> link_IsValid sl (link entry) then Ok Impossible
      else bnd (entry_IsCompatibleWith (if contains q (eid entry) then Some q else None) (slotFlags (excl_entry q entry)) flags)
        (\<lambda>compatible.
          if \<not> compatible then Ok Impossible
          else if \<not> contains q (eid entry) then Ok Impossible
          else if isEmptyOrFirst q (link entry) then Ok Passed
          else Ok NotPassed))"

definition excl_SafeRelease :: "slots \<Rightarrow> dependencyQueueHead \<Rightarrow> dependencyQueueEntry \<Rightarrow> dependencyQueueHead \<times> StepLink list" where
  "excl_SafeRelease sl q entry =
     (if map_option eid (First q) \<noteq> Some (eid entry) then (removeFromQueue q (eid entry), [])
      else case FirstValid sl (removeFromQueue q (eid entry)) of
        (q', None) \<Rightarrow> (q', [])
      | (q', Some (_, stp)) \<Rightarrow> (q', [stp]))"

definition excl_ReleaseAll :: "slots \<Rightarrow> dependencyQueueHead \<Rightarrow> dependencyQueueEntry \<Rightarrow> dependencyQueueHead \<times> StepLink list" where
  "excl_ReleaseAll sl q entry = (if contains q (eid entry) then excl_SafeRelease sl q entry else (q, []))"

definition excl_GetCounts :: "dependencyQueueHead \<Rightarrow> int \<times> int" where
  "excl_GetCounts q = (let n = qcount q in if n \<le> 0 then (0, n) else (1, n - 1))"

definition excl_enum ::
  "dependencyQueueHead \<Rightarrow> int \<Rightarrow> (int \<times> SlotLink \<times> SlotDependencyFlags \<Rightarrow> 's \<Rightarrow> bool \<times> 's) \<Rightarrow> 's \<Rightarrow> bool \<times> 's" where
  "excl_enum q qID fn s =
     (case items q of [] \<Rightarrow> (False, s)
      | e # es \<Rightarrow> (case fn (qID, link e, slotFlags e) s of (stop, s') \<Rightarrow>
          if stop then (True, s') else run_until (\<lambda>e. fn (qID - 1, link e, slotFlags e)) es s'))"

subsection \<open>The queue of an exclusive section\<close>

text \<open>The sections that the operations build; pointers of new entries are new.\<close>

inductive excl_reach :: "dependencyQueueHead \<Rightarrow> bool" where
  er_new: "excl_reach (NewExclusive flags)"
| er_create: "excl_reach q \<Longrightarrow> \<not> contains q i \<Longrightarrow> excl_CreateDependency sl i q l flags = Ok (q', d, e) \<Longrightarrow> excl_reach q'"
| er_release: "excl_reach q \<Longrightarrow> excl_ReleaseAll sl q e = (q', links) \<Longrightarrow> excl_reach q'"

lemma excl_create_unfold:
  assumes "excl_CreateDependency sl i q l flags = Ok (q'', d, e)" "q_ok q" "\<not> contains q i"
  obtains q' where "addSlot_with sl q (newEntry i l flags None) True False = Ok (q', e)" "q_ok q'" "q_ok q''"
    "items q'' = dropWhile (\<lambda>x. \<not> valid_entry sl x) (items q')" "d \<longleftrightarrow> (\<exists>es. items q'' = e # es)"
    "e \<in> set (items q')" "eid e = i" "link e = l" "valid_entry sl e" "qflags q'' = qflags q"
proof -
  obtain q' e' where a': "addSlotForExclusive sl i q l flags = Ok (q', e')"
    using assms(1) by (auto simp: excl_CreateDependency_def go_simps)
  obtain q1 r where fv': "FirstValid sl q' = (q1, r)" by (metis surj_pair)
  have q1: "q1 = q''" and ee: "e' = e" and d: "d \<longleftrightarrow> (case r of None \<Rightarrow> False | Some (f, _) \<Rightarrow> eid f = eid e)"
    using assms(1) a' fv' by (auto simp: excl_CreateDependency_def)
  have a: "addSlot_with sl q (newEntry i l flags None) True False = Ok (q', e)"
    using a' ee by (simp add: addSlotForExclusive_def)
  note fv = fv' [unfolded q1]
  have fr: "eid (newEntry i l flags None) \<notin> set (ids (items q))" using assms(3) by (simp add: contains_def newEntry_def)
  note s = addSlot_with_ok [OF a assms(2) fr]
  note t = FirstValid_spec [OF _ fv]
  have qq: "q_ok q'" using s by simp
  have uniq: "x = e" if "x \<in> set (items q'')" "eid x = eid e" for x
  proof -
    have "x \<in> set (items q')" using that(1) t [OF qq] by (metis set_dropWhileD)
    moreover have "e \<in> set (items q')" using s by simp
    ultimately show ?thesis using qq that(2) by (auto simp: q_ok_def distinct_map inj_on_def)
  qed
  have "r = (case items q'' of [] \<Rightarrow> None | f # fs \<Rightarrow> Some (f, stepOf sl f))" using t [OF qq] by blast
  then have "d \<longleftrightarrow> (\<exists>es. items q'' = e # es)"
    unfolding d using uniq by (cases "items q''") auto
  then show ?thesis using that [OF a qq] t [OF qq] s by (simp add: newEntry_def)
qed

lemma excl_release_unfold:
  assumes "excl_ReleaseAll sl q e = (q', links)" "q_ok q"
  shows "q_ok q' \<and> qflags q' = qflags q \<and>
     (if \<not> contains q (eid e) then q' = q \<and> links = []
      else if map_option eid (First q) = Some (eid e) then
        items q' = dropWhile (\<lambda>x. \<not> valid_entry sl x) (tl (items q)) \<and>
        links = (case items q' of [] \<Rightarrow> [] | f # fs \<Rightarrow> [stepOf sl f])
      else items q' = filter (\<lambda>x. eid x \<noteq> eid e) (items q) \<and> links = [])"
proof (cases "contains q (eid e) \<and> map_option eid (First q) = Some (eid e)")
  case True
  then obtain f fs where it: "items q = f # fs" "eid f = eid e" by (auto simp: First_def split: list.splits)
  note rm = removeFirst [OF assms(2) it(1)]
  obtain q1 r where fv: "FirstValid sl (removeFromQueue q (eid e)) = (q1, r)" by (metis surj_pair)
  note s = FirstValid_spec [OF rm(1) fv [folded it(2)]]
  have q': "q' = q1" and l: "links = (case r of None \<Rightarrow> [] | Some (_, stp) \<Rightarrow> [stp])"
    using assms(1) True fv by (auto simp: excl_ReleaseAll_def excl_SafeRelease_def split: option.splits)
  have "links = (case items q' of [] \<Rightarrow> [] | f # fs \<Rightarrow> [stepOf sl f])"
  proof -
    have "r = (case items q1 of [] \<Rightarrow> None | f # fs \<Rightarrow> Some (f, stepOf sl f))" using s by blast
    then show ?thesis unfolding l q' by (cases "items q1") simp_all
  qed
  moreover have "items q' = dropWhile (\<lambda>x. \<not> valid_entry sl x) (tl (items q))"
    unfolding q' it(1) list.sel(3) rm(2) [symmetric] using s by blast
  ultimately show ?thesis using True s unfolding q' by (simp add: items_removeFromQueue(2))
next
  case False
  then show ?thesis using assms removeFromQueue_ok [OF assms(2), of "eid e"]
    by (auto simp: excl_ReleaseAll_def excl_SafeRelease_def queue_simps split: if_splits)
qed

lemma excl_reach_ok: "excl_reach q \<Longrightarrow> q_ok q"
proof (induction rule: excl_reach.induct)
  case (er_create q i sl l flags q' d e)
  then show ?case using excl_create_unfold by metis
next
  case (er_release q sl e q' links)
  then show ?case using excl_release_unfold by blast
qed (simp add: NewExclusive_def)

text \<open>The entry that holds the section stays first whatever priority a newcomer has.\<close>

lemma insertBefore_Cons: "p \<noteq> eid h \<Longrightarrow> insertBefore p e (h # es) = h # insertBefore p e es"
  by simp

lemma addSlot_keeps_first:
  assumes "addSlot_with sl q e True False = Ok (q', e')" "items q = h # es" "q_ok q" "eid e \<noteq> eid h"
  shows "\<exists>es'. items q' = h # es' \<and> set es' = insert e' (set es)"
proof -
  have d: "distinct (ids (h # es))" using assms(2,3) by (simp add: q_ok_def)
  consider "q' = AddLast q e' \<or> q' = AddLast (q\<lparr>boostHead := Some (eid e)\<rparr>) e'"
    | p where "q' = addBefore q p e'" "p \<noteq> eid h"
    using assms(1,2) d
    by (auto simp: addSlot_with_def Let_def First_def split: if_splits list.splits option.splits)
  then show ?thesis
  proof cases
    case 1
    then show ?thesis using assms(2) by (auto simp: queue_simps)
  next
    case (2 p)
    then show ?thesis using assms(2) by (auto simp: addBefore_def mset_insertBefore)
  qed
qed

lemma excl_create_keeps_holder:
  assumes "excl_CreateDependency sl i q l flags = Ok (q', d, e)" "q_ok q" "\<not> contains q i"
    "items q = h # es" "valid_entry sl h"
  shows "\<not> d \<and> (\<exists>es'. items q' = h # es' \<and> e \<in> set es')"
proof -
  obtain q1 where q1: "addSlot_with sl q (newEntry i l flags None) True False = Ok (q1, e)" "q_ok q1" "q_ok q'"
    "items q' = dropWhile (\<lambda>x. \<not> valid_entry sl x) (items q1)" "d \<longleftrightarrow> (\<exists>es. items q' = e # es)"
    "e \<in> set (items q1)" "eid e = i" "link e = l" "valid_entry sl e" "qflags q' = qflags q"
    using excl_create_unfold [OF assms(1-3)] .
  have i: "eid (newEntry i l flags None) \<noteq> eid h" using assms(3,4) by (auto simp: contains_def newEntry_def)
  obtain es' where es': "items q1 = h # es'" "set es' = insert e (set es)"
    using addSlot_keeps_first [OF q1(1) assms(4,2) i] by blast
  have "e \<noteq> h" using q1(7) assms(3,4) by (auto simp: contains_def)
  with q1(4,5) es' assms(5) show ?thesis by auto
qed

lemma excl_Use_iff:
  assumes "q_ok q" "contains q (eid e)" "link_IsValid sl (link e)"
  shows "excl_UseDependency sl q e SyncIgnoreFlags = Ok (if isEmptyOrFirst q (link e) then Passed else NotPassed)"
  using assms by (simp add: excl_UseDependency_def entry_IsCompatibleWith_def)

text \<open>
  C12: an exclusive section is exclusive.  In every section that any sequence of acquisitions and
  releases reaches, at most one slot passes; an acquisition that finds a live holder does not pass and
  does not displace it, whatever its priority; an acquisition passes exactly when its entry is first.
\<close>
theorem exclusive_section:
  assumes "excl_reach q" "\<not> contains q i" "excl_CreateDependency sl i q l flags = Ok (q', d, e)"
  shows "(\<forall>e1 \<in> set (items q'). \<forall>e2 \<in> set (items q'). \<forall>fl1 fl2.
        excl_UseDependency sl q' e1 fl1 = Ok Passed \<longrightarrow> excl_UseDependency sl q' e2 fl2 = Ok Passed \<longrightarrow> link e1 = link e2) \<and>
     (\<forall>h es. items q = h # es \<longrightarrow> valid_entry sl h \<longrightarrow> \<not> d \<and> First q' = Some h) \<and>
     (d \<longleftrightarrow> First q' = Some e)"
proof -
  have q: "q_ok q" by (rule excl_reach_ok [OF assms(1)])
  obtain q1 where q1: "d \<longleftrightarrow> (\<exists>es. items q' = e # es)"
    using excl_create_unfold [OF assms(3) q assms(2)] by metis
  have pass: "isEmptyOrFirst q' (link x)" if "excl_UseDependency sl q' x fl = Ok Passed" for x fl
    using that by (auto simp: excl_UseDependency_def go_simps split: if_splits)
  have same: "link e1 = link e2" if "isEmptyOrFirst q' (link e1)" "isEmptyOrFirst q' (link e2)" "e1 \<in> set (items q')" for e1 e2
    using that by (cases "items q'") (auto simp: isEmptyOrFirst_def First_def)
  have keep: "\<not> d \<and> First q' = Some h" if "items q = h # es" "valid_entry sl h" for h es
    using excl_create_keeps_holder [OF assms(3) q assms(2) that] by (auto simp: First_Some)
  have mutex: "link e1 = link e2" if "e1 \<in> set (items q')" "excl_UseDependency sl q' e1 fl1 = Ok Passed"
    "excl_UseDependency sl q' e2 fl2 = Ok Passed" for e1 e2 fl1 fl2
    by (rule same [OF pass [OF that(2)] pass [OF that(3)] that(1)])
  have "d \<longleftrightarrow> First q' = Some e" using q1 by (simp add: First_Some)
  with mutex keep show ?thesis by blast
qed

theorem exclusive_section_witness:
  "\<exists>q' e. excl_CreateDependency (\<lambda>n. (7, 1, False)) 5 (NewExclusive 1) \<lparr>link_id = 7, link_s = Some 0\<rparr> SyncPriorityHigh
       = Ok (q', True, e) \<and> First q' = Some e \<and> excl_reach (NewExclusive 1) \<and> \<not> contains (NewExclusive 1) 5"
proof -
  let ?l = "\<lparr>link_id = 7, link_s = Some 0\<rparr>" and ?sl = "\<lambda>n. (7, 1, False)"
  have n: "excl_reach (NewExclusive 1)" by (rule er_new)
  have c: "\<not> contains (NewExclusive 1) 5" by (simp add: contains_def NewExclusive_def newQueue_def)
  obtain q' d e where a: "excl_CreateDependency ?sl 5 (NewExclusive 1) ?l SyncPriorityHigh = Ok (q', d, e)" "d"
    by (simp add: excl_CreateDependency_def addSlotForExclusive_def addSlot_with_def newEntry_def NewExclusive_def newQueue_def
        link_IsValid_def sync_flags QueueAllowsPriority_def AddLast_def FirstValid.simps First_def GetStepLink_def)
  with exclusive_section [OF n c a(1)] n c show ?thesis by auto
qed

text \<open>
  C26: the section is handed over.  When the holder releases the section, the first live waiting slot
  becomes the holder, it is the only one reported for wake-up and it passes from then on, while the
  order of the slots behind it stays; when anybody else gives up, nothing else changes.
\<close>
theorem exclusive_handover:
  assumes "excl_reach q" "e \<in> set (items q)" "excl_ReleaseAll sl q e = (q', links)"
  shows "(First q = Some e \<longrightarrow>
       items q' = dropWhile (\<lambda>x. \<not> valid_entry sl x) (tl (items q)) \<and>
       links = map (stepOf sl) (take 1 (items q')) \<and>
       (\<forall>f. First q' = Some f \<longrightarrow> excl_UseDependency sl q' f SyncIgnoreFlags = Ok Passed)) \<and>
     (First q \<noteq> Some e \<longrightarrow> items q' = filter (\<lambda>x. eid x \<noteq> eid e) (items q) \<and> links = [])"
proof -
  have q: "q_ok q" by (rule excl_reach_ok [OF assms(1)])
  note u = excl_release_unfold [OF assms(3) q]
  have ct: "contains q (eid e)" using assms(2) by (simp add: contains_def)
  have fst: "map_option eid (First q) = Some (eid e) \<longleftrightarrow> First q = Some e"
    using q assms(2) by (auto simp: First_def q_ok_def split: list.splits)
  have "excl_UseDependency sl q' f SyncIgnoreFlags = Ok Passed" if a: "First q = Some e" and b: "First q' = Some f" for f
  proof -
    obtain fs where it: "items q' = f # fs" using b by (auto simp: First_Some)
    have dw: "items q' = dropWhile (\<lambda>x. \<not> valid_entry sl x) (tl (items q))" using u a fst ct by simp
    then have "valid_entry sl f" using it by (metis dropWhile_eq_Cons_conv)
    then show ?thesis using excl_Use_iff [of q' f sl] u it b
      by (simp add: contains_def isEmptyOrFirst_def)
  qed
  moreover have "(case es of [] \<Rightarrow> [] | f # fs \<Rightarrow> [stepOf sl f]) = map (stepOf sl) (take 1 es)" for es
    by (cases es) simp_all
  ultimately show ?thesis using u ct fst by auto
qed

theorem exclusive_handover_witness:
  "\<exists>q e1 e2 q'. excl_reach q \<and> items q = [e1, e2] \<and>
     excl_ReleaseAll (\<lambda>n. (7, 1, False)) q e1 = (q', [stepOf (\<lambda>n. (7, 1, False)) e2]) \<and> First q' = Some e2"
proof -
  let ?l = "\<lparr>link_id = 7, link_s = Some 0\<rparr>" and ?m = "\<lparr>link_id = 7, link_s = Some 1\<rparr>" and ?sl = "\<lambda>n. (7::u32, 1::u32, False)"
  let ?e = "\<lparr>eid = 5, link = ?l, slotFlags = 0, stacker = None\<rparr>" and ?f = "\<lparr>eid = 6, link = ?m, slotFlags = 0, stacker = None\<rparr>"
  let ?q1 = "\<lparr>items = [?e], boostHead = None, qcount = 1, qflags = 0, qinit = True\<rparr>"
  let ?q2 = "\<lparr>items = [?e, ?f], boostHead = None, qcount = 2, qflags = 0, qinit = True\<rparr>"
  note ev = excl_CreateDependency_def addSlotForExclusive_def addSlot_with_def newEntry_def NewExclusive_def newQueue_def
    link_IsValid_def QueueAllowsPriority_def AddLast_def FirstValid.simps First_def GetStepLink_def contains_def
    Let_def sync_flags
  have "excl_CreateDependency ?sl 5 (NewExclusive 0) ?l 0 = Ok (?q1, True, ?e)" by (simp add: ev)
  from er_create [OF er_new _ this] have r1: "excl_reach ?q1" by (simp add: ev)
  have "excl_CreateDependency ?sl 6 ?q1 ?m 0 = Ok (?q2, False, ?f)" by (simp add: ev)
  from er_create [OF r1 _ this] have r2: "excl_reach ?q2" by (simp add: ev)
  obtain q' links where x: "excl_ReleaseAll ?sl ?q2 ?e = (q', links)" by (metis surj_pair)
  have "First ?q2 = Some ?e" by (simp add: First_def)
  with exclusive_handover [OF r2 _ x]
  have "items q' = [?f] \<and> links = [stepOf ?sl ?f]" by (simp add: link_IsValid_def)
  with r2 x show ?thesis by (intro exI [of _ ?q2] exI [of _ ?e] exI [of _ ?f] exI [of _ q']) (simp add: First_def)
qed

text \<open>
  The holder of a section with priorities is the boost head as long as it has no priority itself.  A
  boosted newcomer is then put at the end of the queue, behind slots without priority that wait already.
\<close>

lemma exclusive_boost_behind_ordinary:
  "\<exists>q1 q2 q3 a b c. let sl = (\<lambda>n. (7, 1, False)); l = (\<lambda>n. \<lparr>link_id = 7, link_s = Some n\<rparr>) in
     excl_CreateDependency sl 1 (NewExclusive QueueAllowsPriority) (l 1) 0 = Ok (q1, True, a) \<and>
     excl_CreateDependency sl 2 q1 (l 2) 0 = Ok (q2, False, b) \<and>
     excl_CreateDependency sl 3 q2 (l 3) SyncPriorityBoosted = Ok (q3, False, c) \<and>
     items q3 = [a, b, c] \<and> prioClass b < prioClass c"
proof -
  let ?e = "\<lambda>n f. newEntry n \<lparr>link_id = 7, link_s = Some n\<rparr> f None"
  let ?q = "\<lambda>es. \<lparr>items = es, boostHead = Some 1, qcount = int (length es), qflags = 1, qinit = True\<rparr>"
  show ?thesis
    by (rule exI [of _ "?q [?e 1 0]"], rule exI [of _ "?q [?e 1 0, ?e 2 0]"], rule exI [of _ "?q [?e 1 0, ?e 2 0, ?e 3 1]"],
        rule exI [of _ "?e 1 0"], rule exI [of _ "?e 2 0"], rule exI [of _ "?e 3 1"])
      (simp add: excl_CreateDependency_def addSlotForExclusive_def addSlot_with_def newEntry_def NewExclusive_def newQueue_def
        link_IsValid_def QueueAllowsPriority_def AddLast_def FirstValid.simps First_def GetStepLink_def sync_flags prioClass_def
        Let_def)
qed

subsection \<open>The contract of an exclusive section\<close>

definition excl_create ::
  "slots \<Rightarrow> nat \<Rightarrow> dependencyQueueHead \<Rightarrow> SlotLink \<Rightarrow> SlotDependencyFlags \<Rightarrow> (dependencyQueueHead \<times> bool \<times> dependencyQueueEntry option) res" where
  "excl_create sl i q l flags = bnd (excl_CreateDependency sl i q l flags) (\<lambda>(q', d, e). Ok (q', d, Some e))"

definition excl_use :: "slots \<Rightarrow> dependencyQueueHead \<Rightarrow> dependencyQueueEntry \<Rightarrow> SlotDependencyFlags \<Rightarrow> (dependencyQueueHead \<times> Decision) res" where
  "excl_use sl q e flags = bnd (excl_UseDependency sl q e flags) (\<lambda>d. Ok (q, d))"

definition excl_release :: "slots \<Rightarrow> dependencyQueueHead \<Rightarrow> dependencyQueueEntry \<Rightarrow> (dependencyQueueHead \<times> StepLink list) res" where
  "excl_release sl q e = Ok (excl_ReleaseAll sl q e)"

text \<open>A slot does not queue twice, as the holder is recognized by its link.\<close>

definition excl_new :: "dependencyQueueHead \<Rightarrow> nat \<Rightarrow> SlotLink \<Rightarrow> bool" where
  "excl_new q i l \<longleftrightarrow> \<not> contains q i \<and> l \<notin> link ` set (items q)"

lemma excl_released:
  assumes "q_ok q" "e \<in> set (items q)"
  shows "\<exists>q' links. excl_release sl q e = Ok (q', links) \<and> q_ok q' \<and> excl_use sl q' e SyncIgnoreFlags = Ok (q', Impossible)"
proof -
  obtain q' links where r: "excl_ReleaseAll sl q e = (q', links)" by (metis surj_pair)
  note u = excl_release_unfold [OF r assms(1)]
  have ct: "contains q (eid e)" using assms(2) by (simp add: contains_def)
  have "eid e \<notin> set (ids (items q'))"
  proof (cases "map_option eid (First q) = Some (eid e)")
    case True
    then have "eid e \<notin> set (ids (tl (items q)))" using assms(1) by (auto simp: First_def q_ok_def split: list.splits)
    moreover have "items q' = dropWhile (\<lambda>x. \<not> valid_entry sl x) (tl (items q))" using u ct True by simp
    ultimately show ?thesis by (auto dest: set_dropWhileD)
  next
    case False
    then have "items q' = filter (\<lambda>x. eid x \<noteq> eid e) (items q)" using u ct by simp
    then show ?thesis by auto
  qed
  then have "excl_use sl q' e SyncIgnoreFlags = Ok (q', Impossible)"
    by (simp add: excl_use_def excl_UseDependency_def contains_def entry_IsCompatibleWith_def)
  with u r show ?thesis by (simp add: excl_release_def)
qed

lemma excl_created:
  assumes "q_ok q" "excl_new q i l" "excl_create sl i q l flags = Ok (q', d, Some e)"
  shows "q_ok q' \<and> e \<in> set (items q')" "fl = flags \<or> fl = SyncIgnoreFlags \<Longrightarrow> excl_use sl q' e fl = Ok (q', GetDecision d)"
proof -
  have c: "excl_CreateDependency sl i q l flags = Ok (q', d, e)" using assms(3) by (auto simp: excl_create_def go_simps)
  have n: "\<not> contains q i" "l \<notin> link ` set (items q)" using assms(2) by (simp_all add: excl_new_def)
  obtain q1 where q1: "addSlot_with sl q (newEntry i l flags None) True False = Ok (q1, e)" "q_ok q1" "q_ok q'"
    "items q' = dropWhile (\<lambda>x. \<not> valid_entry sl x) (items q1)" "d \<longleftrightarrow> (\<exists>es. items q' = e # es)"
    "e \<in> set (items q1)" "eid e = i" "link e = l" "valid_entry sl e" "qflags q' = qflags q"
    using excl_create_unfold [OF c assms(1) n(1)] .
  have e: "e \<in> set (items q')" using q1(4,6,9)
    by (metis (mono_tags, lifting) UnE set_append set_takeWhileD takeWhile_dropWhile_id)
  then show "q_ok q' \<and> e \<in> set (items q')" using q1(3) by blast
  have fr: "eid (newEntry i l flags None) \<notin> set (ids (items q))" using n(1) by (simp add: contains_def newEntry_def)
  have "set (items q1) = insert e (set (items q))" using addSlot_with_ok [OF q1(1) assms(1) fr] by blast
  moreover have "set (items q') \<subseteq> set (items q1)" unfolding q1(4) by (blast dest: set_dropWhileD)
  ultimately have same: "x = e" if "x \<in> set (items q')" "link x = l" for x using that n(2) by blast
  have "isEmptyOrFirst q' l \<longleftrightarrow> d"
  proof (cases "items q'")
    case (Cons x xs)
    then show ?thesis using q1(5,8) same [of x] by (auto simp: isEmptyOrFirst_def First_def)
  qed (use e in simp)
  moreover have "find (\<lambda>x. eid x = eid e) (items q') = Some e" by (rule find_eid) (use q1(3) e in auto)
  ultimately show "excl_use sl q' e fl = Ok (q', GetDecision d)" if "fl = flags \<or> fl = SyncIgnoreFlags"
    using added_compatible [OF q1(1,10) that] e q1(8,9)
    by (simp add: excl_use_def excl_UseDependency_def excl_entry_def contains_def GetDecision_def)
qed

interpretation excl: queued_object q_ok excl_new excl_create excl_use excl_release
proof unfold_locales
  fix q i l sl flags q' d and eo :: "dependencyQueueEntry option"
  assume a: "q_ok q" "excl_new q i l" "excl_create sl i q l flags = Ok (q', d, eo)"
  then obtain e where "eo = Some e" by (auto simp: excl_create_def go_simps)
  with a excl_created(1) show "q_ok q'" by blast
next
  fix q sl i l flags q' d
  assume "q_ok q" "excl_create sl i q l flags = Ok (q', d, None)"
  then show "d \<and> q' = q" by (auto simp: excl_create_def go_simps)
next
  fix q i l sl flags q' d e fl
  assume "q_ok q" "excl_new q i l" "excl_create sl i q l flags = Ok (q', d, Some e)" "fl = flags \<or> fl = SyncIgnoreFlags"
  then show "excl_use sl q' e fl = Ok (q', GetDecision d)" by (rule excl_created(2))
next
  fix q i l sl flags q' d e sl'
  assume "q_ok q" "excl_new q i l" "excl_create sl i q l flags = Ok (q', d, Some e)"
  from excl_created(1) [OF this] show "\<exists>q'' links. excl_release sl' q' e = Ok (q'', links) \<and> q_ok q'' \<and>
      excl_use sl' q'' e SyncIgnoreFlags = Ok (q'', Impossible)" using excl_released by blast
qed

end
