(* ===== verification/Sync_Conditional.thy ===== *)
theory Sync_Conditional
  imports Sync_Contract
begin

text \<open>
  Conditionals of \<^verbatim>\<open>smsync/sync_conditional.go\<close> and \<^verbatim>\<open>sync_conditional_bool.go\<close>, and the constant sync
  objects of \<^verbatim>\<open>sync_never.go\<close> and \<^verbatim>\<open>sync_ever.go\<close>.  A conditional is a gate: while its value is positive
  everybody passes and nobody is queued, otherwise slots wait for the value to become positive.
\<close>

subsection \<open>Conditionals\<close>

record holdingQueueController =
  hqueue :: dependencyQueueHead
  hstate :: int

definition hold_canPassThrough :: "holdingQueueController \<Rightarrow> bool" where
  "hold_canPassThrough c \<longleftrightarrow> hstate c > 0"

definition cond_CheckState :: "holdingQueueController \<Rightarrow> bool" where
  "cond_CheckState c = hold_canPassThrough c"

definition cond_entry :: "holdingQueueController \<Rightarrow> dependencyQueueEntry \<Rightarrow> dependencyQueueEntry" where
  "cond_entry c dep = (case find (\<lambda>e. eid e = eid dep) (items (hqueue c)) of None \<Rightarrow> dep | Some e \<Rightarrow> e)"

definition cond_UseDependency ::
  "slots \<Rightarrow> holdingQueueController \<Rightarrow> dependencyQueueEntry \<Rightarrow> SlotDependencyFlags \<Rightarrow> Decision res" where
  "cond_UseDependency sl c entry flags =
     (if \<not> link_IsValid sl (link entry) then Ok Impossible
      else bnd (entry_IsCompatibleWith (if contains (hqueue c) (eid entry) then Some (hqueue c) else None)
                  (slotFlags (cond_entry c entry)) flags)
        (\<lambda>compatible.
          if \<not> compatible then Ok Impossible
          else if \<not> contains (hqueue c) (eid entry) then Ok Impossible
          else if hold_canPassThrough c then Ok Passed
          else Ok NotPassed))"

definition cond_CreateDependency ::
  "slots \<Rightarrow> nat \<Rightarrow> holdingQueueController \<Rightarrow> SlotLink \<Rightarrow> SlotDependencyFlags
   \<Rightarrow> (holdingQueueController \<times> bool \<times> dependencyQueueEntry option) res" where
  "cond_CreateDependency sl i c holder flags =
     (if hold_canPassThrough c then Ok (c, True, None)
      else bnd (AddSlot sl i (hqueue c) holder flags None) (\<lambda>(q, e). Ok (c\<lparr>hqueue := q\<rparr>, False, Some e)))"

definition cond_setLimit :: "slots \<Rightarrow> holdingQueueController \<Rightarrow> int \<Rightarrow> holdingQueueController \<times> StepLink list \<times> bool" where
  "cond_setLimit sl c limit =
     (let c = c\<lparr>hstate := limit\<rparr> in
      if \<not> hold_canPassThrough c then (c, [], False)
      else case FlushAllAsLinks sl (hqueue c) of (q, deps) \<Rightarrow> (c\<lparr>hqueue := q\<rparr>, deps, True))"

definition cond_AdjustLimit ::
  "slots \<Rightarrow> holdingQueueController \<Rightarrow> int \<Rightarrow> bool \<Rightarrow> holdingQueueController \<times> StepLink list \<times> bool" where
  "cond_AdjustLimit sl c limit absolute =
     (case applyWrappedAdjustment (hstate c) limit MinInt32 MaxInt32 absolute of (ok, newState) \<Rightarrow>
        if ok then cond_setLimit sl c newState else (c, [], False))"

definition hold_SafeRelease ::
  "holdingQueueController \<Rightarrow> (holdingQueueController \<Rightarrow> holdingQueueController) \<Rightarrow> holdingQueueController res" where
  "hold_SafeRelease c chkAndRemoveFn =
     (let c = chkAndRemoveFn c in
      if hold_canPassThrough c \<and> qcount (hqueue c) > 0 then Panic ''illegal state'' else Ok c)"

definition cond_ReleaseAll :: "holdingQueueController \<Rightarrow> dependencyQueueEntry \<Rightarrow> holdingQueueController res" where
  "cond_ReleaseAll c e =
     (if contains (hqueue c) (eid e)
      then hold_SafeRelease c (\<lambda>c. c\<lparr>hqueue := removeFromQueue (hqueue c) (eid e)\<rparr>)
      else Ok c)"

definition cond_IsReleaseOnWorking :: "holdingQueueController \<Rightarrow> dependencyQueueEntry \<Rightarrow> bool" where
  "cond_IsReleaseOnWorking c e \<longleftrightarrow> \<not> contains (hqueue c) (eid e) \<or> hold_canPassThrough c"

definition cond_GetLimit :: "holdingQueueController \<Rightarrow> int \<times> bool" where
  "cond_GetLimit c = (hstate c, True)"

definition cond_GetCounts :: "holdingQueueController \<Rightarrow> int \<times> int" where
  "cond_GetCounts c = (- 1, qcount (hqueue c))"

definition zeroCond :: holdingQueueController where
  "zeroCond = \<lparr>hqueue = newQueue 0, hstate = 0\<rparr>"

definition NewConditional :: "slots \<Rightarrow> int \<Rightarrow> holdingQueueController res" where
  "NewConditional sl initial =
     (case cond_AdjustLimit sl zeroCond initial False of (c, deps, _) \<Rightarrow>
        if deps \<noteq> [] then Panic ''illegal state'' else Ok c)"

subsection \<open>Conditionals that are open or closed\<close>

definition boolToConditional :: "bool \<Rightarrow> int" where
  "boolToConditional isOpen = (if isOpen then 1 else 0)"

definition bool_AdjustLimit ::
  "slots \<Rightarrow> holdingQueueController \<Rightarrow> int \<Rightarrow> bool \<Rightarrow> holdingQueueController \<times> StepLink list \<times> bool" where
  "bool_AdjustLimit sl c limit absolute =
     (if absolute then
        if limit > 0 then
          if hstate c > 0 then (c, [], False) else cond_setLimit sl c 1
        else cond_setLimit sl c 0
      else if limit = 0 then (c, [], False)
      else if hstate c = 0 then cond_setLimit sl c 1
      else cond_setLimit sl c 0)"

definition NewConditionalBool :: "slots \<Rightarrow> bool \<Rightarrow> holdingQueueController res" where
  "NewConditionalBool sl isOpen =
     (case bool_AdjustLimit sl zeroCond (boolToConditional isOpen) False of (c, deps, _) \<Rightarrow>
        if deps \<noteq> [] then Panic ''illegal state'' else Ok c)"

subsection \<open>The locks that are never and always open\<close>

text \<open>The counter of a lock that never opens is atomic with 32 bits.\<close>

record infiniteLockEntry =
  lock_flags :: SlotDependencyFlags

definition never_UseDependency :: "bool \<Rightarrow> infiniteLockEntry \<Rightarrow> SlotDependencyFlags \<Rightarrow> Decision" where
  "never_UseDependency same entry flags =
     (if \<not> flags_IsCompatibleWith (lock_flags entry) flags then Impossible
      else if same then NotPassed else Impossible)"

definition never_CreateDependency :: "u32 \<Rightarrow> SlotDependencyFlags \<Rightarrow> u32 \<times> bool \<times> infiniteLockEntry" where
  "never_CreateDependency cnt flags = (cnt + 1, False, \<lparr>lock_flags = flags\<rparr>)"

definition never_ReleaseAll :: "u32 \<Rightarrow> u32" where
  "never_ReleaseAll cnt = cnt + - 1"

definition never_IsReleaseOnStepping :: "infiniteLockEntry \<Rightarrow> bool" where
  "never_IsReleaseOnStepping e \<longleftrightarrow> lock_flags e AND SyncForOneStep \<noteq> 0"

definition never_GetCounts :: "u32 \<Rightarrow> int \<times> int" where
  "never_GetCounts cnt = (0, sint cnt)"

definition ever_CreateDependency :: "bool \<times> dependencyQueueEntry option" where
  "ever_CreateDependency = (True, None)"

definition ever_UseDependency :: Decision where
  "ever_UseDependency = Impossible"

subsection \<open>The gate\<close>

definition cond_ok :: "holdingQueueController \<Rightarrow> bool" where
  "cond_ok c \<longleftrightarrow> q_ok (hqueue c) \<and> qflags (hqueue c) = 0 \<and> limit_ok (hstate c) \<and> (hstate c > 0 \<longrightarrow> items (hqueue c) = [])"

lemma zeroCond_ok [simp]: "cond_ok zeroCond"
  by (simp add: cond_ok_def zeroCond_def limit_ok_def MinInt32_def MaxInt32_def queue_simps)

lemma cond_setLimit_spec:
  assumes "q_ok (hqueue c)" "cond_setLimit sl c v = (c', deps, act)"
  shows "hstate c' = v \<and> q_ok (hqueue c') \<and> qflags (hqueue c') = qflags (hqueue c) \<and> (act \<longleftrightarrow> v > 0) \<and>
     items (hqueue c') = (if v > 0 then [] else items (hqueue c)) \<and>
     deps = (if v > 0 then map (stepOf sl) (filter (valid_entry sl) (items (hqueue c))) else [])"
proof -
  obtain q d where f: "FlushAllAsLinks sl (hqueue c) = (q, d)" by (metis surj_pair)
  from FlushAllAsLinks_spec [OF assms(1) f] assms f show ?thesis
    by (auto simp: cond_setLimit_def hold_canPassThrough_def split: if_splits)
qed

lemma cond_AdjustLimit_spec:
  assumes "cond_ok c" "int64 a" "cond_AdjustLimit sl c a absolute = (c', deps, act)"
  shows "cond_ok c' \<and> hstate c' = adjusted (hstate c) a absolute \<and>
     items (hqueue c') = (if hstate c' > 0 then [] else items (hqueue c)) \<and>
     deps = (if hstate c' > 0 then map (stepOf sl) (filter (valid_entry sl) (items (hqueue c))) else [])"
proof -
  have c: "q_ok (hqueue c)" "limit_ok (hstate c)" "hstate c > 0 \<longrightarrow> items (hqueue c) = []" "qflags (hqueue c) = 0"
    using assms(1) by (simp_all add: cond_ok_def)
  note a = applyWrappedAdjustment_eq [OF c(2) assms(2), of absolute]
  show ?thesis
  proof (cases "if absolute then a \<noteq> hstate c else a \<noteq> 0")
    case True
    with assms(3) a have "cond_setLimit sl c (adjusted (hstate c) a absolute) = (c', deps, act)"
      by (simp add: cond_AdjustLimit_def split: if_splits)
    from cond_setLimit_spec [OF c(1) this] c(4) show ?thesis by (auto simp: cond_ok_def)
  next
    case False
    with assms(3) a have "c' = c" "deps = []" by (auto simp: cond_AdjustLimit_def split: if_splits)
    moreover have "hstate c = adjusted (hstate c) a absolute"
      using False c(2) by (auto simp: adjusted_def clamp_def limit_ok_def split: if_splits)
    ultimately show ?thesis using c assms(1) by auto
  qed
qed

lemma bool_AdjustLimit_spec:
  assumes "cond_ok c" "hstate c \<in> {0, 1}" "bool_AdjustLimit sl c a absolute = (c', deps, act)"
  shows "cond_ok c' \<and> hstate c' = boolToConditional (if absolute then a > 0 else (hstate c = 1) \<noteq> (a \<noteq> 0)) \<and>
     items (hqueue c') = (if hstate c' > 0 then [] else items (hqueue c)) \<and>
     deps = (if hstate c' > 0 then map (stepOf sl) (filter (valid_entry sl) (items (hqueue c))) else [])"
proof -
  have c: "q_ok (hqueue c)" "hstate c > 0 \<longrightarrow> items (hqueue c) = []" "qflags (hqueue c) = 0" using assms(1) by (simp_all add: cond_ok_def)
  let ?v = "boolToConditional (if absolute then a > 0 else (hstate c = 1) \<noteq> (a \<noteq> 0))"
  have l: "limit_ok ?v" by (simp add: boolToConditional_def limit_ok_def MinInt32_def MaxInt32_def)
  consider "cond_setLimit sl c ?v = (c', deps, act)" | "c' = c" "deps = []" "hstate c = ?v"
    using assms(2,3) by (auto simp: bool_AdjustLimit_def boolToConditional_def split: if_splits)
  then show ?thesis
  proof cases
    case 1
    from cond_setLimit_spec [OF c(1) 1] l c(3) show ?thesis by (auto simp: cond_ok_def)
  next
    case 2
    with c assms(1) show ?thesis by auto
  qed
qed

lemma cond_Create_spec:
  assumes "cond_ok c" "\<not> contains (hqueue c) i" "cond_CreateDependency sl i c l flags = Ok (c', d, e)"
  shows "cond_ok c' \<and> hstate c' = hstate c \<and> (d \<longleftrightarrow> hstate c > 0) \<and> (d \<longleftrightarrow> e = None) \<and>
     (\<forall>x. e = Some x \<longrightarrow> eid x = i \<and> link x = l \<and> valid_entry sl x \<and> 
        items (hqueue c') = items (hqueue c) @ [x])"
proof (cases "hstate c > 0")
  case True
  with assms show ?thesis by (auto simp: cond_CreateDependency_def hold_canPassThrough_def)
next
  case False
  with assms(3) obtain q x where x: "AddSlot sl i (hqueue c) l flags None = Ok (q, x)" "c' = c\<lparr>hqueue := q\<rparr>" "\<not> d" "e = Some x"
    by (auto simp: cond_CreateDependency_def hold_canPassThrough_def go_simps)
  then have a: "addSlot_with sl (hqueue c) (newEntry i l flags None) False False = Ok (q, x)"
    by (simp add: AddSlot_def addSlotWithPriority_def)
  have fr: "eid (newEntry i l flags None) \<notin> set (ids (items (hqueue c)))" using assms(2) by (simp add: contains_def newEntry_def)
  have "items q = items (hqueue c) @ [x]"
    using a assms(1) by (auto simp: cond_ok_def addSlot_with_def Let_def queue_simps split: if_splits)
  with x addSlot_with_ok [OF a _ fr] assms(1) False show ?thesis
    by (auto simp: cond_ok_def newEntry_def)
qed

lemma cond_Release_spec:
  assumes "cond_ok c"
  shows "\<exists>c'. cond_ReleaseAll c e = Ok c' \<and> cond_ok c' \<and> hstate c' = hstate c \<and>
     items (hqueue c') = filter (\<lambda>x. eid x \<noteq> eid e) (items (hqueue c))"
proof (cases "contains (hqueue c) (eid e)")
  case True
  then have "items (hqueue c) \<noteq> []" by (auto simp: contains_def)
  with assms have n: "\<not> hstate c > 0" by (auto simp: cond_ok_def)
  with True removeFromQueue_ok [OF _ True] assms show ?thesis
    by (simp add: cond_ReleaseAll_def hold_SafeRelease_def hold_canPassThrough_def cond_ok_def queue_simps)
next
  case False
  with assms show ?thesis by (simp add: cond_ReleaseAll_def contains_def filter_other_id)
qed

text \<open>The conditionals that the operations build.\<close>

inductive cond_reach :: "holdingQueueController \<Rightarrow> bool" where
  cr_new: "int64 n \<Longrightarrow> NewConditional sl n = Ok c \<Longrightarrow> cond_reach c"
| cr_create: "cond_reach c \<Longrightarrow> \<not> contains (hqueue c) i \<Longrightarrow> cond_CreateDependency sl i c l flags = Ok (c', d, e) \<Longrightarrow> cond_reach c'"
| cr_release: "cond_reach c \<Longrightarrow> cond_ReleaseAll c e = Ok c' \<Longrightarrow> cond_reach c'"
| cr_adjust: "cond_reach c \<Longrightarrow> int64 a \<Longrightarrow> cond_AdjustLimit sl c a absolute = (c', deps, act) \<Longrightarrow> cond_reach c'"

lemma NewConditional_spec:
  assumes "int64 n"
  shows "\<exists>c. NewConditional sl n = Ok c \<and> cond_ok c \<and> hstate c = clamp MinInt32 MaxInt32 n \<and> items (hqueue c) = []"
proof -
  obtain c deps act where a: "cond_AdjustLimit sl zeroCond n False = (c, deps, act)" by (metis surj_pair)
  from cond_AdjustLimit_spec [OF zeroCond_ok assms a] a show ?thesis
    by (auto simp: NewConditional_def adjusted_def zeroCond_def queue_simps split: if_splits)
qed

lemma cond_reach_ok: "cond_reach c \<Longrightarrow> cond_ok c"
proof (induction rule: cond_reach.induct)
  case (cr_new n sl c)
  then show ?case using NewConditional_spec [of n sl] by auto
next
  case (cr_create c i sl l flags c' d e)
  then show ?case using cond_Create_spec by blast
next
  case (cr_release c e c')
  then show ?case using cond_Release_spec [of c e] by auto
next
  case (cr_adjust c a sl absolute c' deps act)
  then show ?case using cond_AdjustLimit_spec by blast
qed

lemma cond_waiting:
  assumes "cond_ok c" "e \<in> set (items (hqueue c))" "valid_entry sl e"
  shows "cond_UseDependency sl c e SyncIgnoreFlags = Ok NotPassed"
proof -
  have "\<not> hstate c > 0" using assms by (auto simp: cond_ok_def)
  with assms show ?thesis
    by (simp add: cond_UseDependency_def entry_IsCompatibleWith_def contains_def hold_canPassThrough_def)
qed

text \<open>
  C25: a conditional is a gate.  In every conditional that any sequence of acquisitions, releases and
  adjustments reaches, an adjustment saturates at the 32-bit range.  When the new value is positive, all
  live waiting slots are woken in the order of their arrival, nobody is left in the queue and every later
  acquisition passes without a queue entry.  Otherwise nobody is woken or dropped and every waiting slot
  keeps waiting.  A release never reports the illegal state the code guards against.
\<close>
theorem conditional_gate:
  assumes "cond_reach c" "int64 a" "cond_AdjustLimit sl c a absolute = (c', deps, act)"
  shows "hstate c' = clamp MinInt32 MaxInt32 (if absolute then a else hstate c + a) \<and>
     (if hstate c' > 0 then
        deps = map (stepOf sl) (filter (valid_entry sl) (items (hqueue c))) \<and> items (hqueue c') = [] \<and>
        (\<forall>i l flags. cond_CreateDependency sl i c' l flags = Ok (c', True, None))
      else deps = [] \<and> items (hqueue c') = items (hqueue c) \<and>
        (\<forall>e \<in> set (items (hqueue c)). valid_entry sl e \<longrightarrow> cond_UseDependency sl c' e SyncIgnoreFlags = Ok NotPassed)) \<and>
     (\<forall>e. \<exists>c''. cond_ReleaseAll c' e = Ok c'' \<and> hstate c'' = hstate c' \<and>
        items (hqueue c'') = filter (\<lambda>x. eid x \<noteq> eid e) (items (hqueue c')))"
proof -
  note s = cond_AdjustLimit_spec [OF cond_reach_ok [OF assms(1)] assms(2,3)]
  have ok: "cond_ok c'" using s by blast
  have "\<exists>c''. cond_ReleaseAll c' e = Ok c'' \<and> hstate c'' = hstate c' \<and>
        items (hqueue c'') = filter (\<lambda>x. eid x \<noteq> eid e) (items (hqueue c'))" for e
    using cond_Release_spec [OF ok] by blast
  moreover have "cond_CreateDependency sl i c' l flags = Ok (c', True, None)" if "hstate c' > 0" for i l flags
    using that by (simp add: cond_CreateDependency_def hold_canPassThrough_def)
  moreover have "cond_UseDependency sl c' e SyncIgnoreFlags = Ok NotPassed"
    if "e \<in> set (items (hqueue c'))" "valid_entry sl e" for e
    by (rule cond_waiting [OF ok that])
  ultimately show ?thesis using s by (simp add: adjusted_def)
qed

theorem conditional_gate_witness:
  "\<exists>c e c'. cond_reach c \<and> items (hqueue c) = [e] \<and> int64 9 \<and>
     cond_AdjustLimit (\<lambda>n. (7, 1, False)) c 9 True = (c', [stepOf (\<lambda>n. (7, 1, False)) e], True) \<and> hstate c' = 9"
proof -
  let ?l = "\<lparr>link_id = 7, link_s = Some 0\<rparr>" and ?sl = "\<lambda>n. (7::u32, 1::u32, False)"
  let ?e = "\<lparr>eid = 5, link = ?l, slotFlags = 0, stacker = None\<rparr>"
  let ?c = "\<lparr>hqueue = \<lparr>items = [?e], boostHead = None, qcount = 1, qflags = 0, qinit = True\<rparr>, hstate = 0\<rparr>"
  have i: "int64 0" "int64 9" by (simp_all add: int64_def)
  have "NewConditional ?sl 0 = Ok zeroCond" by (simp add: NewConditional_def cond_AdjustLimit_def applyWrappedAdjustment_def)
  with i have z: "cond_reach zeroCond" by (intro cr_new [of 0])
  have "cond_CreateDependency ?sl 5 zeroCond ?l 0 = Ok (?c, False, Some ?e)"
    by (simp add: cond_CreateDependency_def zeroCond_def hold_canPassThrough_def AddSlot_def addSlotWithPriority_def addSlot_with_def
        newEntry_def newQueue_def link_IsValid_def sync_flags AddLast_def Let_def)
  from cr_create [OF z _ this] have r: "cond_reach ?c" by (simp add: contains_def zeroCond_def newQueue_def)
  obtain c' deps act where a: "cond_AdjustLimit ?sl ?c 9 True = (c', deps, act)" by (metis surj_pair)
  from conditional_gate [OF r i(2) a] have s: "hstate c' = 9" "deps = [stepOf ?sl ?e]"
    by (auto simp: clamp_def MinInt32_def MaxInt32_def link_IsValid_def)
  have "act" using a
    by (simp add: cond_AdjustLimit_def applyWrappedAdjustment_def MinInt32_def MaxInt32_def cond_setLimit_def hold_canPassThrough_def
        split: prod.splits)
  with r i a s show ?thesis by (intro exI [of _ ?c] exI [of _ ?e] exI [of _ c']) simp
qed

text \<open>A conditional that is only open or closed: what each adjustment does to it.\<close>

inductive bool_reach :: "bool \<Rightarrow> holdingQueueController \<Rightarrow> bool" where
  br_new: "NewConditionalBool sl b = Ok c \<Longrightarrow> bool_reach b c"
| br_create: "bool_reach b c \<Longrightarrow> \<not> contains (hqueue c) i \<Longrightarrow> cond_CreateDependency sl i c l flags = Ok (c', d, e) \<Longrightarrow> bool_reach b c'"
| br_release: "bool_reach b c \<Longrightarrow> cond_ReleaseAll c e = Ok c' \<Longrightarrow> bool_reach b c'"
| br_value: "bool_reach b c \<Longrightarrow> bool_AdjustLimit sl c (boolToConditional v) True = (c', deps, act) \<Longrightarrow> bool_reach v c'"
| br_toggle: "bool_reach b c \<Longrightarrow> bool_AdjustLimit sl c 1 False = (c', deps, act) \<Longrightarrow> bool_reach (\<not> b) c'"

lemma NewConditionalBool_spec:
  "\<exists>c. NewConditionalBool sl b = Ok c \<and> cond_ok c \<and> hstate c = boolToConditional b"
proof -
  obtain c deps act where a: "bool_AdjustLimit sl zeroCond (boolToConditional b) False = (c, deps, act)" by (metis surj_pair)
  have z: "hstate zeroCond \<in> {0, 1}" by (simp add: zeroCond_def)
  from bool_AdjustLimit_spec [OF zeroCond_ok z a] a show ?thesis
    by (auto simp: NewConditionalBool_def boolToConditional_def zeroCond_def queue_simps split: if_splits)
qed

lemma bool_reach_ok: "bool_reach b c \<Longrightarrow> cond_ok c \<and> hstate c = boolToConditional b"
proof (induction rule: bool_reach.induct)
  case (br_new sl b c)
  then show ?case using NewConditionalBool_spec [of sl b] by auto
next
  case (br_create b c i sl l flags c' d e)
  then show ?case using cond_Create_spec by metis
next
  case (br_release b c e c')
  then show ?case using cond_Release_spec [of c e] by auto
next
  case (br_value b c sl v c' deps act)
  then have "hstate c \<in> {0, 1}" by (simp add: boolToConditional_def)
  with br_value bool_AdjustLimit_spec [of c sl "boolToConditional v" True c' deps act] show ?case
    by (simp add: boolToConditional_def split: if_splits)
next
  case (br_toggle b c sl c' deps act)
  then have "hstate c \<in> {0, 1}" by (simp add: boolToConditional_def)
  with br_toggle bool_AdjustLimit_spec [of c sl 1 False c' deps act] show ?case
    by (auto simp: boolToConditional_def split: if_splits)
qed

text \<open>
  A boolean conditional is open exactly when the last value set was true, with every toggle since
  then counted; opening it releases all live waiting slots in order of arrival.
\<close>
theorem bool_conditional_is_a_switch:
  assumes "bool_reach b c" "bool_AdjustLimit sl c 1 False = (c', deps, act)"
  shows "cond_CheckState c = b \<and> cond_CheckState c' = (\<not> b) \<and> act = (\<not> b) \<and>
     (b \<longrightarrow> items (hqueue c) = []) \<and>
     deps = map (stepOf sl) (filter (valid_entry sl) (items (hqueue c))) \<and> (act \<longrightarrow> items (hqueue c') = [])"
proof -
  have ok: "cond_ok c" "hstate c = boolToConditional b" using bool_reach_ok [OF assms(1)] by simp_all
  then have h: "hstate c \<in> {0, 1}" by (simp add: boolToConditional_def)
  have "act \<longleftrightarrow> hstate c' > 0"
    using assms(2) cond_setLimit_spec [of c sl 0 c' deps act] cond_setLimit_spec [of c sl 1 c' deps act] ok
    by (auto simp: bool_AdjustLimit_def cond_ok_def split: if_splits)
  with bool_AdjustLimit_spec [OF ok(1) h assms(2)] ok show ?thesis
    by (auto simp: cond_CheckState_def hold_canPassThrough_def boolToConditional_def cond_ok_def split: if_splits)
qed

theorem bool_conditional_is_a_switch_witness:
  "\<exists>c c' deps. bool_reach False c \<and> bool_AdjustLimit (\<lambda>n. (7, 1, False)) c 1 False = (c', deps, True) \<and> cond_CheckState c'"
proof -
  let ?sl = "\<lambda>n. (7::u32, 1::u32, False)"
  obtain c where c: "bool_reach False c" using NewConditionalBool_spec [of ?sl False] br_new by blast
  obtain c' deps act where a: "bool_AdjustLimit ?sl c 1 False = (c', deps, act)" by (metis surj_pair)
  with bool_conditional_is_a_switch [OF c a] c show ?thesis by auto
qed

subsection \<open>The contracts of conditionals and locks\<close>

definition cond_use :: "slots \<Rightarrow> holdingQueueController \<Rightarrow> dependencyQueueEntry \<Rightarrow> SlotDependencyFlags \<Rightarrow> (holdingQueueController \<times> Decision) res" where
  "cond_use sl c e flags = bnd (cond_UseDependency sl c e flags) (\<lambda>d. Ok (c, d))"

definition cond_release :: "slots \<Rightarrow> holdingQueueController \<Rightarrow> dependencyQueueEntry \<Rightarrow> (holdingQueueController \<times> StepLink list) res" where
  "cond_release sl c e = bnd (cond_ReleaseAll c e) (\<lambda>c'. Ok (c', []))"

lemma cond_created:
  assumes "cond_ok c" "\<not> contains (hqueue c) i" "cond_CreateDependency sl i c l flags = Ok (c', d, Some e)"
    "fl = flags \<or> fl = SyncIgnoreFlags"
  shows "cond_use sl c' e fl = Ok (c', GetDecision d)"
proof -
  note s = cond_Create_spec [OF assms(1-3)]
  have n: "\<not> hold_canPassThrough c" using s by (auto simp: hold_canPassThrough_def)
  with assms(3) obtain q where q: "AddSlot sl i (hqueue c) l flags None = Ok (q, e)" "c' = c\<lparr>hqueue := q\<rparr>"
    by (auto simp: cond_CreateDependency_def go_simps)
  then have a: "addSlot_with sl (hqueue c) (newEntry i l flags None) False False = Ok (q, e)"
    by (simp add: AddSlot_def addSlotWithPriority_def)
  have "eid (newEntry i l flags None) \<notin> set (ids (items (hqueue c)))" using assms(2) by (simp add: contains_def newEntry_def)
  from addSlot_with_ok [OF a _ this] assms(1) have f: "qflags q = qflags (hqueue c)" "q_ok q" "e \<in> set (items q)"
    by (simp_all add: cond_ok_def)
  then have "find (\<lambda>x. eid x = eid e) (items q) = Some e" by (intro find_eid) auto
  with added_compatible [OF a f(1) assms(4)] n f(3) s show ?thesis
    by (auto simp: cond_use_def cond_UseDependency_def cond_entry_def contains_def q(2) hold_canPassThrough_def GetDecision_def)
qed

interpretation cond: queued_object cond_ok "\<lambda>c i l. \<not> contains (hqueue c) i" cond_CreateDependency cond_use cond_release
proof unfold_locales
  fix c i l sl flags c' d and eo :: "dependencyQueueEntry option"
  assume "cond_ok c" "\<not> contains (hqueue c) i" "cond_CreateDependency sl i c l flags = Ok (c', d, eo)"
  then show "cond_ok c'" using cond_Create_spec by blast
next
  fix c sl i l flags c' d
  assume "cond_ok c" "cond_CreateDependency sl i c l flags = Ok (c', d, None)"
  then show "d \<and> c' = c" by (auto simp: cond_CreateDependency_def go_simps split: if_splits)
next
  fix c i l sl flags c' d e fl
  assume "cond_ok c" "\<not> contains (hqueue c) i" "cond_CreateDependency sl i c l flags = Ok (c', d, Some e)" "fl = flags \<or> fl = SyncIgnoreFlags"
  then show "cond_use sl c' e fl = Ok (c', GetDecision d)" by (rule cond_created)
next
  fix c i l sl flags c' d e sl'
  assume a: "cond_ok c" "\<not> contains (hqueue c) i" "cond_CreateDependency sl i c l flags = Ok (c', d, Some e)"
  then have "cond_ok c'" using cond_Create_spec by blast
  from cond_Release_spec [OF this, of e] obtain c'' where r: "cond_ReleaseAll c' e = Ok c''" "cond_ok c''"
    "items (hqueue c'') = filter (\<lambda>x. eid x \<noteq> eid e) (items (hqueue c'))" by blast
  then have "\<not> contains (hqueue c'') (eid e)" by (auto simp: contains_def)
  then have "cond_use sl' c'' e SyncIgnoreFlags = Ok (c'', Impossible)"
    by (simp add: cond_use_def cond_UseDependency_def entry_IsCompatibleWith_def)
  with r show "\<exists>c'' links. cond_release sl' c' e = Ok (c'', links) \<and> cond_ok c'' \<and> cond_use sl' c'' e SyncIgnoreFlags = Ok (c'', Impossible)"
    by (simp add: cond_release_def)
qed

definition never_create :: "slots \<Rightarrow> nat \<Rightarrow> u32 \<Rightarrow> SlotLink \<Rightarrow> SlotDependencyFlags \<Rightarrow> (u32 \<times> bool \<times> infiniteLockEntry option) res" where
  "never_create sl i n l flags = (case never_CreateDependency n flags of (n', d, e) \<Rightarrow> Ok (n', d, Some e))"

definition never_use :: "slots \<Rightarrow> u32 \<Rightarrow> infiniteLockEntry \<Rightarrow> SlotDependencyFlags \<Rightarrow> (u32 \<times> Decision) res" where
  "never_use sl n e flags = Ok (n, never_UseDependency True e flags)"

interpretation never: sync_object "\<lambda>n. True" "\<lambda>n i l. True" never_create never_use
  by unfold_locales
    (auto simp: never_create_def never_use_def never_CreateDependency_def never_UseDependency_def GetDecision_def)

end
