(* ===== verification/Sync_Context.thy ===== *)
theory Sync_Context
  imports Sync_Semaphore_Contract Sync_Exclusive Sync_Conditional
begin

text \<open>
  The synchronization objects as the state machines use them: the controllers behind a sync link, the
  acquisition and release operations of \<^verbatim>\<open>conveyor/smachine/context_basic.go\<close> and \<^verbatim>\<open>slot_utils.go\<close>, and the
  adjustments of \<^verbatim>\<open>api_sync.go\<close> with their merging.

  The objects live in a heap of addresses.  A dependency names the object that created it, as an entry
  never leaves the family of its object; the pointer to a new entry is an argument.  The heap is typed as
  in the code: a link to a child leads to a semaphore, an entry of a lock belongs to a lock.  A context that is
  used outside its step panics in the code before anything else and is not considered here.
\<close>

subsection \<open>Controllers\<close>

datatype syncObject =
    Semaphore semaFamily
  | ExclusiveSection dependencyQueueHead
  | Conditional holdingQueueController
  | BoolConditional holdingQueueController
  | InfiniteLock u32
  | OpenLock

type_synonym heap = "nat \<Rightarrow> syncObject"

datatype SyncLink = LinkTo nat | LinkToChild nat nat | LinkToPartial nat

datatype SlotDependency = Queued nat dependencyQueueEntry | Locked nat infiniteLockEntry

fun entryQueue :: "syncObject \<Rightarrow> nat \<Rightarrow> dependencyQueueHead option" where
  "entryQueue (Semaphore f) i = map_option (queueAt f) (getQueue f i)"
| "entryQueue (ExclusiveSection q) i = (if contains q i then Some q else None)"
| "entryQueue (Conditional c) i = (if contains (hqueue c) i then Some (hqueue c) else None)"
| "entryQueue (BoolConditional c) i = (if contains (hqueue c) i then Some (hqueue c) else None)"
| "entryQueue _ i = None"

text \<open>A dependency of another object is examined for its flags before it is refused.\<close>

definition foreignUse :: "slots \<Rightarrow> heap \<Rightarrow> nat \<Rightarrow> dependencyQueueEntry \<Rightarrow> SlotDependencyFlags \<Rightarrow> (heap \<times> Decision) res" where
  "foreignUse sl h b e flags =
     (if \<not> link_IsValid sl (link e) then Ok (h, Impossible)
      else bnd (entry_IsCompatibleWith (entryQueue (h b) (eid e)) (slotFlags e) flags) (\<lambda>_. Ok (h, Impossible)))"

fun object_UseDependency :: "slots \<Rightarrow> heap \<Rightarrow> nat \<Rightarrow> SlotDependency \<Rightarrow> SlotDependencyFlags \<Rightarrow> (heap \<times> Decision) res" where
  "object_UseDependency sl h a (Locked b e) flags =
     (case h a of InfiniteLock n \<Rightarrow> Ok (h, never_UseDependency (a = b) e flags) | _ \<Rightarrow> Ok (h, Impossible))"
| "object_UseDependency sl h a (Queued b e) flags =
     (case h a of
        Semaphore f \<Rightarrow>
          if a = b then bnd (UseDependency sl f e flags) (\<lambda>(f', d). Ok (h(a := Semaphore f'), d)) else foreignUse sl h b e flags
      | ExclusiveSection q \<Rightarrow>
          if a = b then bnd (excl_UseDependency sl q e flags) (\<lambda>d. Ok (h, d)) else foreignUse sl h b e flags
      | Conditional c \<Rightarrow>
          if a = b then bnd (cond_UseDependency sl c e flags) (\<lambda>d. Ok (h, d)) else foreignUse sl h b e flags
      | BoolConditional c \<Rightarrow>
          if a = b then bnd (cond_UseDependency sl c e flags) (\<lambda>d. Ok (h, d)) else foreignUse sl h b e flags
      | InfiniteLock n \<Rightarrow> Ok (h, Impossible)
      | OpenLock \<Rightarrow> Ok (h, ever_UseDependency))"

fun ctl_UseDependency :: "slots \<Rightarrow> heap \<Rightarrow> SyncLink \<Rightarrow> SlotDependency \<Rightarrow> SlotDependencyFlags \<Rightarrow> (heap \<times> Decision) res" where
  "ctl_UseDependency sl h (LinkTo a) dep flags = object_UseDependency sl h a dep flags"
| "ctl_UseDependency sl h (LinkToPartial a) dep flags = object_UseDependency sl h a dep flags"
| "ctl_UseDependency sl h (LinkToChild a c) (Locked b e) flags = Ok (h, Impossible)"
| "ctl_UseDependency sl h (LinkToChild a c) (Queued b e) flags =
     (case h a of
        Semaphore f \<Rightarrow>
          if a = b then bnd (child_UseDependency sl f c e flags) (\<lambda>d. Ok (h, d)) else foreignUse sl h b e flags
      | _ \<Rightarrow> foreignUse sl h b e flags)"

definition created :: "heap \<Rightarrow> nat \<Rightarrow> syncObject \<Rightarrow> bool \<Rightarrow> dependencyQueueEntry option \<Rightarrow> (heap \<times> bool \<times> SlotDependency option) res" where
  "created h a ob d e = Ok (h(a := ob), d, map_option (Queued a) e)"

fun ctl_CreateDependency ::
  "slots \<Rightarrow> nat \<Rightarrow> heap \<Rightarrow> SyncLink \<Rightarrow> SlotLink \<Rightarrow> SlotDependencyFlags \<Rightarrow> (heap \<times> bool \<times> SlotDependency option) res" where
  "ctl_CreateDependency sl i h (LinkTo a) holder flags =
     (case h a of
        Semaphore f \<Rightarrow> bnd (createDependency sl i f holder flags) (\<lambda>(f', d, e). created h a (Semaphore f') d (Some e))
      | ExclusiveSection q \<Rightarrow> bnd (excl_CreateDependency sl i q holder flags) (\<lambda>(q', d, e). created h a (ExclusiveSection q') d (Some e))
      | Conditional c \<Rightarrow> bnd (cond_CreateDependency sl i c holder flags) (\<lambda>(c', d, e). created h a (Conditional c') d e)
      | BoolConditional c \<Rightarrow> bnd (cond_CreateDependency sl i c holder flags) (\<lambda>(c', d, e). created h a (BoolConditional c') d e)
      | InfiniteLock n \<Rightarrow>
          (case never_CreateDependency n flags of (n', d, e) \<Rightarrow> Ok (h(a := InfiniteLock n'), d, Some (Locked a e)))
      | OpenLock \<Rightarrow> (case ever_CreateDependency of (d, e) \<Rightarrow> Ok (h, d, map_option (Queued a) e)))"
| "ctl_CreateDependency sl i h (LinkToChild a c) holder flags =
     (case h a of
        Semaphore f \<Rightarrow> bnd (child_CreateDependency sl i f c holder flags) (\<lambda>(f', d, e). created h a (Semaphore f') d (Some e))
      | _ \<Rightarrow> Panic ''nil pointer dereference'')"
| "ctl_CreateDependency sl i h (LinkToPartial a) holder flags = Panic ''Partial semaphore can't be acquired directly''"

definition object_CheckState :: "syncObject \<Rightarrow> bool" where
  "object_CheckState ob =
     (case ob of
        Semaphore f \<Rightarrow> checkState f
      | ExclusiveSection q \<Rightarrow> excl_CheckState q
      | Conditional c \<Rightarrow> cond_CheckState c
      | BoolConditional c \<Rightarrow> cond_CheckState c
      | InfiniteLock n \<Rightarrow> False
      | OpenLock \<Rightarrow> True)"

fun ctl_CheckState :: "heap \<Rightarrow> SyncLink \<Rightarrow> bool" where
  "ctl_CheckState h (LinkTo a) = object_CheckState (h a)"
| "ctl_CheckState h (LinkToChild a c) = (case h a of Semaphore f \<Rightarrow> child_CheckState f c | _ \<Rightarrow> False)"
| "ctl_CheckState h (LinkToPartial a) = object_CheckState (h a)"

fun dep_ReleaseAll :: "slots \<Rightarrow> heap \<Rightarrow> SlotDependency \<Rightarrow> (heap \<times> StepLink list) res" where
  "dep_ReleaseAll sl h (Locked a e) =
     (case h a of InfiniteLock n \<Rightarrow> Ok (h(a := InfiniteLock (never_ReleaseAll n)), []) | _ \<Rightarrow> Ok (h, []))"
| "dep_ReleaseAll sl h (Queued a e) =
     (case h a of
        Semaphore f \<Rightarrow> (case ReleaseAll sl f e of (f', links) \<Rightarrow> Ok (h(a := Semaphore f'), links))
      | ExclusiveSection q \<Rightarrow> (case excl_ReleaseAll sl q e of (q', links) \<Rightarrow> Ok (h(a := ExclusiveSection q'), links))
      | Conditional c \<Rightarrow> bnd (cond_ReleaseAll c e) (\<lambda>c'. Ok (h(a := Conditional c'), []))
      | BoolConditional c \<Rightarrow> bnd (cond_ReleaseAll c e) (\<lambda>c'. Ok (h(a := BoolConditional c'), []))
      | _ \<Rightarrow> Ok (h, []))"

text \<open>
  Only a semaphore, used through its own or its partial link, releases an entry of a child partially.
  The operation is called for dependencies that the controller has recognized as its own.
\<close>

definition whole_ReleaseDependency ::
  "slots \<Rightarrow> heap \<Rightarrow> SlotDependency \<Rightarrow> (heap \<times> bool \<times> SlotDependency option \<times> StepLink list) res" where
  "whole_ReleaseDependency sl h dep = bnd (dep_ReleaseAll sl h dep) (\<lambda>(h', links). Ok (h', True, None, links))"

fun object_ReleaseDependency ::
  "slots \<Rightarrow> heap \<Rightarrow> nat \<Rightarrow> SlotDependency \<Rightarrow> (heap \<times> bool \<times> SlotDependency option \<times> StepLink list) res" where
  "object_ReleaseDependency sl h a (Queued b e) =
     (case h a of
        Semaphore f \<Rightarrow>
          if a = b then
            (case ReleaseDependency sl f e of (f', r, rest, links) \<Rightarrow> Ok (h(a := Semaphore f'), r, map_option (Queued a) rest, links))
          else whole_ReleaseDependency sl h (Queued b e)
      | _ \<Rightarrow> whole_ReleaseDependency sl h (Queued b e))"
| "object_ReleaseDependency sl h a (Locked b e) = whole_ReleaseDependency sl h (Locked b e)"

fun ctl_ReleaseDependency ::
  "slots \<Rightarrow> heap \<Rightarrow> SyncLink \<Rightarrow> SlotDependency \<Rightarrow> (heap \<times> bool \<times> SlotDependency option \<times> StepLink list) res" where
  "ctl_ReleaseDependency sl h (LinkTo a) dep = object_ReleaseDependency sl h a dep"
| "ctl_ReleaseDependency sl h (LinkToChild a c) dep = whole_ReleaseDependency sl h dep"
| "ctl_ReleaseDependency sl h (LinkToPartial a) dep = object_ReleaseDependency sl h a dep"

definition adjustedTo ::
  "heap \<Rightarrow> nat \<Rightarrow> (holdingQueueController \<Rightarrow> syncObject) \<Rightarrow> holdingQueueController \<times> StepLink list \<times> bool
   \<Rightarrow> (heap \<times> StepLink list \<times> bool) res" where
  "adjustedTo h a ob r = (case r of (c, links, act) \<Rightarrow> Ok (h(a := ob c), links, act))"

fun ctl_AdjustLimit :: "slots \<Rightarrow> heap \<Rightarrow> SyncLink \<Rightarrow> int \<Rightarrow> bool \<Rightarrow> (heap \<times> StepLink list \<times> bool) res" where
  "ctl_AdjustLimit sl h (LinkTo a) limit absolute =
     (case h a of
        Semaphore f \<Rightarrow> bnd (sema_AdjustLimit sl f limit absolute) (\<lambda>(f', links, act). Ok (h(a := Semaphore f'), links, act))
      | Conditional c \<Rightarrow> adjustedTo h a Conditional (cond_AdjustLimit sl c limit absolute)
      | BoolConditional c \<Rightarrow> adjustedTo h a BoolConditional (bool_AdjustLimit sl c limit absolute)
      | ExclusiveSection q \<Rightarrow> Panic ''illegal state''
      | _ \<Rightarrow> Panic ''IllegalState'')"
| "ctl_AdjustLimit sl h (LinkToChild a c) limit absolute =
     (case h a of
        Semaphore f \<Rightarrow> bnd (child_AdjustLimit sl f c limit absolute) (\<lambda>(f', links, act). Ok (h(a := Semaphore f'), links, act))
      | _ \<Rightarrow> Panic ''nil pointer dereference'')"
| "ctl_AdjustLimit sl h (LinkToPartial a) limit absolute = Panic ''Partial semaphore can't be adjusted''"

text \<open>\<^verbatim>\<open>NewFixedSemaphoreWithFlags\<close> chooses the cheapest object with the given limit.\<close>

definition NewFixedSemaphoreWithFlags :: "slots \<Rightarrow> int \<Rightarrow> u8 \<Rightarrow> syncObject res" where
  "NewFixedSemaphoreWithFlags sl limit flags =
     (if limit < 0 then Panic ''illegal value''
      else if limit = 0 then Ok (InfiniteLock 0)
      else if limit = 1 then Ok (ExclusiveSection (NewExclusive flags))
      else bnd (newSemaphore sl limit False flags) (\<lambda>f. Ok (Semaphore f)))"

subsection \<open>Slots\<close>

record slotState =
  dependency :: "SlotDependency option"
  slotLink :: SlotLink
  isSyncPriority :: bool
  isSyncBoost :: bool

text \<open>The slot that runs is skipped by an activation that it causes.\<close>

definition activateDependants :: "SlotLink \<Rightarrow> StepLink list \<Rightarrow> StepLink list" where
  "activateDependants ignore links = filter (\<lambda>l. SlotLink.truncate l \<noteq> ignore) links"

definition slot_Check :: "slots \<Rightarrow> heap \<Rightarrow> slotState \<Rightarrow> SyncLink \<Rightarrow> bool res" where
  "slot_Check sl h s l =
     (case dependency s of None \<Rightarrow> Ok (ctl_CheckState h l)
      | Some dep \<Rightarrow> bnd (ctl_UseDependency sl h l dep SyncIgnoreFlags) (\<lambda>(_, r).
          case AsValid r of (d, ok) \<Rightarrow> if ok then Ok d else Ok (ctl_CheckState h l)))"

definition acquireFlags :: "slotState \<Rightarrow> bool \<Rightarrow> SlotDependencyFlags \<Rightarrow> SlotDependencyFlags" where
  "acquireFlags s ignoreSlotPriority flags =
     (if ignoreSlotPriority then flags
      else if isSyncPriority s then flags OR SyncPriorityHigh
      else if isSyncBoost s then flags OR SyncPriorityBoosted
      else flags)"

definition acquire ::
  "slots \<Rightarrow> nat \<Rightarrow> heap \<Rightarrow> slotState \<Rightarrow> SyncLink \<Rightarrow> bool \<Rightarrow> bool \<Rightarrow> SlotDependencyFlags
   \<Rightarrow> (heap \<times> slotState \<times> bool \<times> StepLink list) res" where
  "acquire sl i h s l autoRelease ignoreSlotPriority flags =
     (let flags = acquireFlags s ignoreSlotPriority flags in
      case dependency s of
        None \<Rightarrow> bnd (ctl_CreateDependency sl i h l (slotLink s) flags) (\<lambda>(h', d, dep). Ok (h', s\<lparr>dependency := dep\<rparr>, d, []))
      | Some dep \<Rightarrow> bnd (ctl_UseDependency sl h l dep flags) (\<lambda>(h', r).
          case AsValid r of (d, ok) \<Rightarrow>
            if ok then Ok (h', s, d, [])
            else if \<not> autoRelease then Panic ''SM has already acquired another sync or the same one but with incompatible flags''
            else bnd (ctl_CreateDependency sl i h' l (slotLink s) flags) (\<lambda>(h'', d, dep').
              bnd (dep_ReleaseAll sl h'' dep) (\<lambda>(h3, released).
                Ok (h3, s\<lparr>dependency := dep'\<rparr>, d, activateDependants (slotLink s) released)))))"

definition AcquireForThisStep :: u8 where "AcquireForThisStep = 1"
definition AcquireAndRelease :: u8 where "AcquireAndRelease = 2"
definition BoostedPriorityAcquire :: u8 where "BoostedPriorityAcquire = 4"
definition HighPriorityAcquire :: u8 where "HighPriorityAcquire = 8"
definition NoPriorityAcquire :: u8 where "NoPriorityAcquire = 16"

definition AcquireExt :: "slots \<Rightarrow> nat \<Rightarrow> heap \<Rightarrow> slotState \<Rightarrow> SyncLink \<Rightarrow> u8 \<Rightarrow> (heap \<times> slotState \<times> bool \<times> StepLink list) res" where
  "AcquireExt sl i h s l flags =
     acquire sl i h s l (flags AND AcquireAndRelease \<noteq> 0) (flags AND NoPriorityAcquire \<noteq> 0)
       ((if flags AND AcquireForThisStep \<noteq> 0 then SyncForOneStep else 0) OR
        (if flags AND BoostedPriorityAcquire \<noteq> 0 then SyncPriorityBoosted else 0) OR
        (if flags AND HighPriorityAcquire \<noteq> 0 then SyncPriorityHigh else 0))"

definition Acquire :: "slots \<Rightarrow> nat \<Rightarrow> heap \<Rightarrow> slotState \<Rightarrow> SyncLink \<Rightarrow> (heap \<times> slotState \<times> bool \<times> StepLink list) res" where
  "Acquire sl i h s l = acquire sl i h s l False False 0"

definition slot_release :: "slots \<Rightarrow> heap \<Rightarrow> slotState \<Rightarrow> SyncLink \<Rightarrow> (heap \<times> slotState \<times> bool \<times> StepLink list) res" where
  "slot_release sl h s l =
     (case dependency s of None \<Rightarrow> Ok (h, s, False, [])
      | Some dep \<Rightarrow> bnd (ctl_UseDependency sl h l dep SyncIgnoreFlags) (\<lambda>(h', r).
          if \<not> decision_IsValid r then Ok (h', s, False, [])
          else bnd (ctl_ReleaseDependency sl h' l dep) (\<lambda>(h'', wasReleased, replace, released).
            Ok (h'', s\<lparr>dependency := replace\<rparr>, wasReleased, activateDependants (slotLink s) released))))"

definition contextReleaseAll :: "slots \<Rightarrow> heap \<Rightarrow> slotState \<Rightarrow> (heap \<times> slotState \<times> bool \<times> StepLink list) res" where
  "contextReleaseAll sl h s =
     (case dependency s of None \<Rightarrow> Ok (h, s, False, [])
      | Some dep \<Rightarrow> bnd (dep_ReleaseAll sl h dep) (\<lambda>(h', released).
          Ok (h', s\<lparr>dependency := None\<rparr>, True, activateDependants (slotLink s) released)))"

subsection \<open>The contract of a link\<close>

fun obj_ok :: "syncObject \<Rightarrow> bool" where
  "obj_ok (Semaphore f) = fam_ok f"
| "obj_ok (ExclusiveSection q) = q_ok q"
| "obj_ok (Conditional c) = cond_ok c"
| "obj_ok (BoolConditional c) = cond_ok c"
| "obj_ok ob = True"

fun obj_new :: "syncObject \<Rightarrow> nat \<Rightarrow> SlotLink \<Rightarrow> bool" where
  "obj_new (Semaphore f) i l = fresh f i"
| "obj_new (ExclusiveSection q) i l = excl_new q i l"
| "obj_new (Conditional c) i l = (\<not> contains (hqueue c) i)"
| "obj_new (BoolConditional c) i l = (\<not> contains (hqueue c) i)"
| "obj_new ob i l = True"

fun linkAddr :: "SyncLink \<Rightarrow> nat" where
  "linkAddr (LinkTo a) = a"
| "linkAddr (LinkToChild a c) = a"
| "linkAddr (LinkToPartial a) = a"

fun hasChild :: "syncObject \<Rightarrow> nat \<Rightarrow> bool" where
  "hasChild (Semaphore f) c = (c < length (kids f))"
| "hasChild ob c = False"

fun link_ok :: "heap \<Rightarrow> SyncLink \<Rightarrow> bool" where
  "link_ok h (LinkToChild a c) = (obj_ok (h a) \<and> hasChild (h a) c)"
| "link_ok h l = obj_ok (h (linkAddr l))"

lemma created_Ok: "created h a ob d e = Ok (h', d', dep) \<longleftrightarrow> h' = h(a := ob) \<and> d' = d \<and> dep = map_option (Queued a) e"
  by (auto simp: created_def)

lemma hasChild_iff: "hasChild ob c \<longleftrightarrow> (\<exists>f. ob = Semaphore f \<and> c < length (kids f))"
  by (cases ob) auto

text \<open>What a successful creation through a link amounts to in the object behind it.\<close>

lemma ctl_create_cases:
  assumes "link_ok h l" "obj_new (h (linkAddr l)) i hl" "ctl_CreateDependency sl i h l hl flags = Ok (h', d, dep)"
  obtains (semaphore) a f f' e where "l = LinkTo a" "h a = Semaphore f" "h' = h(a := Semaphore f')" "dep = Some (Queued a e)"
      "sema_create sl i f hl flags = Ok (f', d, Some e)" "fam_ok f" "fresh f i"
    | (sub) a c f f' e where "l = LinkToChild a c" "h a = Semaphore f" "h' = h(a := Semaphore f')" "dep = Some (Queued a e)"
      "child_create c sl i f hl flags = Ok (f', d, Some e)" "fam_ok f \<and> c < length (kids f)" "fresh f i"
    | (exclusive) a q q' e where "l = LinkTo a" "h a = ExclusiveSection q" "h' = h(a := ExclusiveSection q')" "dep = Some (Queued a e)"
      "excl_create sl i q hl flags = Ok (q', d, Some e)" "q_ok q" "excl_new q i hl"
    | (conditional) a k c c' eo where "l = LinkTo a" "k = Conditional \<or> k = BoolConditional" "h a = k c" "h' = h(a := k c')"
      "dep = map_option (Queued a) eo" "cond_CreateDependency sl i c hl flags = Ok (c', d, eo)" "cond_ok c" "\<not> contains (hqueue c) i"
    | (never) a n n' e where "l = LinkTo a" "h a = InfiniteLock n" "h' = h(a := InfiniteLock n')" "dep = Some (Locked a e)"
      "never_create sl i n hl flags = Ok (n', d, Some e)"
    | (ever) a where "l = LinkTo a" "h a = OpenLock" "h' = h" "dep = None" "d"
proof (cases l)
  case (LinkTo a)
  show ?thesis
  proof (cases "h a")
    case (Semaphore f)
    then show ?thesis using assms LinkTo semaphore by (auto simp: go_simps created_Ok sema_create_def)
  next
    case (ExclusiveSection q)
    then show ?thesis using assms LinkTo exclusive by (auto simp: go_simps created_Ok excl_create_def)
  next
    case (Conditional c)
    then show ?thesis using assms LinkTo conditional [of a Conditional] by (auto simp: go_simps created_Ok)
  next
    case (BoolConditional c)
    then show ?thesis using assms LinkTo conditional [of a BoolConditional] by (auto simp: go_simps created_Ok)
  next
    case (InfiniteLock n)
    then have "never_create sl i n hl flags = Ok (n + 1, d, Some \<lparr>lock_flags = flags\<rparr>)" "h' = h(a := InfiniteLock (n + 1))"
      "dep = Some (Locked a \<lparr>lock_flags = flags\<rparr>)"
      using assms(3) LinkTo by (auto simp: never_create_def never_CreateDependency_def)
    from never [OF LinkTo InfiniteLock this(2,3,1)] show ?thesis .
  next
    case OpenLock
    then have "h' = h" "dep = None" "d" using assms(3) LinkTo by (auto simp: ever_CreateDependency_def)
    from ever [OF LinkTo OpenLock this] show ?thesis .
  qed
next
  case (LinkToChild a c)
  then obtain f where "h a = Semaphore f" "c < length (kids f)" using assms(1) by (auto simp: hasChild_iff)
  moreover obtain f' e where "child_create c sl i f hl flags = Ok (f', d, Some e)" "h' = h(a := Semaphore f')" "dep = Some (Queued a e)"
    using assms(3) LinkToChild \<open>h a = Semaphore f\<close> by (auto simp: go_simps created_Ok child_create_def)
  ultimately show ?thesis using assms(1,2) LinkToChild sub [of a c f f' e] by simp
next
  case (LinkToPartial a)
  then show ?thesis using assms(3) by simp
qed

interpretation ctl: sync_object "\<lambda>h. link_ok h l" "\<lambda>h i hl. obj_new (h (linkAddr l)) i hl"
  "\<lambda>sl i h hl flags. ctl_CreateDependency sl i h l hl flags" "\<lambda>sl h dep flags. ctl_UseDependency sl h l dep flags"
  for l
proof unfold_locales
  fix h i hl sl flags h' d and eo :: "SlotDependency option"
  assume a: "link_ok h l" "obj_new (h (linkAddr l)) i hl" "ctl_CreateDependency sl i h l hl flags = Ok (h', d, eo)"
  from a show "link_ok h' l"
  proof (cases rule: ctl_create_cases)
    case (sub a c f f' e)
    then show ?thesis using child.create_inv [OF sub(6,7,5)] by simp
  qed (use a(1) in \<open>auto dest: sema.create_inv excl.create_inv cond.create_inv\<close>)
next
  fix h sl i hl flags h' d
  assume a: "link_ok h l" "ctl_CreateDependency sl i h l hl flags = Ok (h', d, None)"
  show "d \<and> h' = h"
    using a by (cases l) (auto simp: go_simps created_Ok never_CreateDependency_def ever_CreateDependency_def hasChild_iff
        dest!: cond.create_free intro!: fun_upd_idem split: syncObject.splits)
next
  fix h i hl sl flags h' d e fl
  assume a: "link_ok h l" "obj_new (h (linkAddr l)) i hl" "ctl_CreateDependency sl i h l hl flags = Ok (h', d, Some e)"
    and fl: "fl = flags \<or> fl = SyncIgnoreFlags"
  from a show "ctl_UseDependency sl h' l e fl = Ok (h', GetDecision d)"
  proof (cases rule: ctl_create_cases)
    case (semaphore a f f' e)
    then show ?thesis using sema.create_use [OF semaphore(6,7,5) fl] by simp
  next
    case (sub a c f f' e)
    then show ?thesis using child.create_use [OF sub(6,7,5) fl] by (auto simp: child_use_def go_simps)
  next
    case (exclusive a q q' e)
    then show ?thesis using excl.create_use [OF exclusive(6,7,5) fl] by (auto simp: excl_use_def go_simps)
  next
    case (conditional a k c c' eo)
    from conditional(5) obtain x where x: "eo = Some x" "e = Queued a x" by (cases eo) auto
    from cond.create_use [OF conditional(7,8) conditional(6) [unfolded x(1)] fl]
    have "cond_UseDependency sl c' x fl = Ok (GetDecision d)" by (auto simp: cond_use_def go_simps)
    with conditional(1-4) x show ?thesis by auto
  next
    case (never a n n' e)
    then show ?thesis using never.create_use [OF TrueI TrueI never(5) fl] by (auto simp: never_use_def)
  qed simp
qed

subsection \<open>Acquisition and release\<close>

lemma sema_own_release:
  "stacker e = None \<Longrightarrow> ReleaseDependency sl f e = (case ReleaseAll sl f e of (f', links) \<Rightarrow> (f', True, None, links))"
  by (simp add: ReleaseDependency_def)

lemma release_after_create:
  assumes "link_ok h l" "obj_new (h (linkAddr l)) i hl" "ctl_CreateDependency sl i h l hl flags = Ok (h', d, Some dep)"
  shows "\<exists>h'' links. ctl_ReleaseDependency sl h' l dep = Ok (h'', True, None, links) \<and> link_ok h'' l"
  using assms
proof (cases rule: ctl_create_cases)
  case (semaphore a f f' e)
  then have "dep = Queued a e" by simp
  moreover obtain f'' links where "sema_release sl f' e = Ok (f'', links)" "fam_ok f''"
    using sema.create_release [OF semaphore(6,7,5), of sl] by blast
  ultimately show ?thesis using semaphore(1-3) sema_create_entry(4) [OF semaphore(6,7,5)]
    by (simp add: sema_own_release sema_release_def)
next
  case (sub a c f f' e)
  then have "dep = Queued a e" by simp
  moreover obtain f'' links where "sema_release sl f' e = Ok (f'', links)" "fam_ok f'' \<and> c < length (kids f'')"
    using child.create_release [OF sub(6,7,5), of sl] by blast
  ultimately show ?thesis using sub(1-3) by (simp add: whole_ReleaseDependency_def sema_release_def)
next
  case (exclusive a q q' e)
  then have "dep = Queued a e" by simp
  moreover obtain q'' links where "excl_release sl q' e = Ok (q'', links)" "q_ok q''"
    using excl.create_release [OF exclusive(6,7,5), of sl] by blast
  ultimately show ?thesis using exclusive(1-3) by (simp add: whole_ReleaseDependency_def excl_release_def)
next
  case (conditional a k c c' eo)
  from conditional(5) obtain x where x: "eo = Some x" "dep = Queued a x" by (cases eo) auto
  obtain c'' where "cond_ReleaseAll c' x = Ok c''" "cond_ok c''"
    using cond.create_release [OF conditional(7,8) conditional(6) [unfolded x(1)], of sl] by (auto simp: cond_release_def go_simps)
  with conditional(1-4) x show ?thesis by (auto simp: whole_ReleaseDependency_def)
next
  case (never a n n' e)
  then show ?thesis by (simp add: whole_ReleaseDependency_def)
qed simp

lemma acquire_first:
  assumes "dependency s = None" "acquire sl i h s l ar ign flags = Ok (h', s', d, w)"
  obtains dep where "ctl_CreateDependency sl i h l (slotLink s) (acquireFlags s ign flags) = Ok (h', d, dep)"
    "s' = s\<lparr>dependency := dep\<rparr>" "w = []"
  using assms by (auto simp: acquire_def Let_def go_simps)

lemma acquireFlags_dependency [simp]: "acquireFlags (s\<lparr>dependency := dep\<rparr>) ign flags = acquireFlags s ign flags"
  by (simp add: acquireFlags_def)

text \<open>When nothing is queued the controller is open.\<close>

lemma passed_unqueued:
  assumes "link_ok h l" "obj_new (h (linkAddr l)) i hl" "ctl_CreateDependency sl i h l hl flags = Ok (h', d, None)"
  shows "d \<and> h' = h \<and> ctl_CheckState h l"
  using assms
proof (cases rule: ctl_create_cases)
  case (conditional a k c c' eo)
  then have eo: "eo = None" by simp
  from cond.create_free [OF conditional(7) conditional(6) [unfolded eo]] conditional
  have "hold_canPassThrough c" "d" "c' = c" by (auto simp: cond_CreateDependency_def go_simps split: if_splits)
  with conditional(1-4) show ?thesis by (auto simp: object_CheckState_def cond_CheckState_def intro!: fun_upd_idem)
qed (simp_all add: object_CheckState_def)

text \<open>
  C18: acquisition is stable.  A slot without a dependency that acquires any synchronization object,
  directly or through a child semaphore and with any priority, gets a decision that it also gets from
  every later check and from every later acquisition with the same flags as long as nothing else happens,
  and these change nothing.  It holds no dependency only when it has passed an object that is open for
  everybody.  A release through the same link takes the dependency away and leaves a well-formed object.
\<close>
theorem acquire_is_stable:
  assumes "link_ok h l" "obj_new (h (linkAddr l)) i (slotLink s)" "dependency s = None"
    "acquire sl i h s l ar ign flags = Ok (h', s', d, w)"
  shows "slot_Check sl h' s' l = Ok d \<and>
     (dependency s' = None \<longrightarrow> d \<and> h' = h) \<and>
     (dependency s' \<noteq> None \<longrightarrow> (\<forall>j ar'. acquire sl j h' s' l ar' ign flags = Ok (h', s', d, []))) \<and>
     (\<exists>h'' w'. slot_release sl h' s' l = Ok (h'', s, dependency s' \<noteq> None, w') \<and> link_ok h'' l)"
proof -
  obtain dep where c: "ctl_CreateDependency sl i h l (slotLink s) (acquireFlags s ign flags) = Ok (h', d, dep)"
    and s': "s' = s\<lparr>dependency := dep\<rparr>" by (rule acquire_first [OF assms(3,4)])
  have s: "s\<lparr>dependency := None\<rparr> = s" using assms(3) by (cases s) simp
  show ?thesis
  proof (cases dep)
    case None
    note p = passed_unqueued [OF assms(1,2) c [unfolded None]]
    have "s' = s" using s' s None by simp
    with p assms(1,3) show ?thesis by (simp add: slot_Check_def slot_release_def)
  next
    case (Some e)
    note c = c [unfolded Some]
    note u = ctl.create_use [OF assms(1,2) c]
    obtain h'' links where r: "ctl_ReleaseDependency sl h' l e = Ok (h'', True, None, links)" "link_ok h'' l"
      using release_after_create [OF assms(1,2) c] by blast
    have "decision_IsValid (GetDecision d)" by (simp add: decision_IsValid_def GetDecision_def)
    with u [of SyncIgnoreFlags] r Some s have "\<exists>h'' w'. slot_release sl h' s' l = Ok (h'', s, True, w') \<and> link_ok h'' l"
      by (simp add: slot_release_def s')
    moreover have "acquire sl j h' s' l ar' ign flags = Ok (h', s', d, [])" for j ar'
      using u [of "acquireFlags s ign flags"] Some by (simp add: acquire_def s')
    moreover have "slot_Check sl h' s' l = Ok d" using u [of SyncIgnoreFlags] Some by (simp add: slot_Check_def s')
    ultimately show ?thesis using Some s' by simp
  qed
qed


definition sampleSlot :: "nat \<Rightarrow> slotState" where
  "sampleSlot n = \<lparr>dependency = None, slotLink = sampleLink n, isSyncPriority = False, isSyncBoost = True\<rparr>"

theorem acquire_is_stable_witness:
  "\<exists>h' s' w. Acquire sampleSlots 7 (\<lambda>a. ExclusiveSection (NewExclusive 1)) (sampleSlot 0) (LinkTo 3) = Ok (h', s', True, w) \<and>
     slot_Check sampleSlots h' s' (LinkTo 3) = Ok True \<and>
     (\<exists>h'' w'. slot_release sampleSlots h' s' (LinkTo 3) = Ok (h'', sampleSlot 0, True, w'))"
proof -
  let ?h = "\<lambda>a. ExclusiveSection (NewExclusive 1)"
  have n: "link_ok ?h (LinkTo 3)" "obj_new (?h (linkAddr (LinkTo 3))) 7 (slotLink (sampleSlot 0))" "dependency (sampleSlot 0) = None"
    by (simp_all add: NewExclusive_def excl_new_def contains_def queue_simps sampleSlot_def)
  have "case acquire sampleSlots 7 ?h (sampleSlot 0) (LinkTo 3) False False 0 of
      Ok (h', s', d, w) \<Rightarrow> d \<and> dependency s' \<noteq> None | Panic _ \<Rightarrow> False" by code_simp
  then obtain h' s' w where a: "acquire sampleSlots 7 ?h (sampleSlot 0) (LinkTo 3) False False 0 = Ok (h', s', True, w)"
    and x: "dependency s' \<noteq> None" by (auto split: res.splits)
  from acquire_is_stable [OF n a] x a show ?thesis by (auto simp: Acquire_def)
qed

text \<open>
  A slot has one synchronization object at a time.  While a slot is queued at one object, an
  acquisition of any other one without automatic release panics; the attempt changes nothing.
\<close>
theorem acquire_other_refused:
  assumes "dependency s = Some (Queued b e)" "linkAddr l \<noteq> b" "entryQueue (h b) (eid e) \<noteq> None"
  shows "acquire sl i h s l False ign flags =
     Panic ''SM has already acquired another sync or the same one but with incompatible flags'' \<and>
     slot_release sl h s l = Ok (h, s, False, [])"
proof -
  obtain q where q: "entryQueue (h b) (eid e) = Some q" using assms(3) by blast
  have "foreignUse sl h b e fl = Ok (h, Impossible)" for fl
    by (auto simp: foreignUse_def entry_IsCompatibleWith_def q)
  then have "ctl_UseDependency sl h l (Queued b e) fl = Ok (h, Impossible)" for fl
    using assms(2) by (cases l) (auto simp: ever_UseDependency_def split: syncObject.splits)
  then show ?thesis using assms(1) by (simp add: acquire_def slot_release_def decision_IsValid_def)
qed

theorem acquire_other_refused_witness:
  "acquire sampleSlots 8 (\<lambda>a. if a = 3 then ExclusiveSection (AddLast (newQueue 0) (newEntry 7 (sampleLink 0) 0 None)) else OpenLock)
       ((sampleSlot 0)\<lparr>dependency := Some (Queued 3 (newEntry 7 (sampleLink 0) 0 None))\<rparr>) (LinkTo 4) False False 0 =
     Panic ''SM has already acquired another sync or the same one but with incompatible flags''"
proof -
  let ?e = "newEntry 7 (sampleLink 0) 0 None"
  let ?h = "\<lambda>a. if a = 3 then ExclusiveSection (AddLast (newQueue 0) ?e) else OpenLock" and ?s = "(sampleSlot 0)\<lparr>dependency := Some (Queued 3 ?e)\<rparr>"
  have "dependency ?s = Some (Queued 3 ?e)" "linkAddr (LinkTo 4) \<noteq> 3" "entryQueue (?h 3) (eid ?e) \<noteq> None"
    by (simp_all add: contains_def queue_simps newEntry_def)
  from acquire_other_refused [of ?s 3 ?e "LinkTo 4" ?h, OF this] show ?thesis by blast
qed

text \<open>
  An acquisition with automatic release creates the new dependency first.  When the holder of an
  exclusive section acquires it again with other flags, its new entry waits behind its old one, the
  release of the old one hands the section to the new one, but the slot is told that it has not passed
  and is left out of the activation.
\<close>

lemma reacquire_lost_wakeup:
  "case acquire sampleSlots 1 (\<lambda>a. ExclusiveSection (NewExclusive 0)) (sampleSlot 0) (LinkTo 0) False False 0 of
     Ok (h, s, d, w) \<Rightarrow> d \<and>
       (case acquire sampleSlots 2 h s (LinkTo 0) True False SyncForOneStep of
          Ok (h', s', d', w') \<Rightarrow> \<not> d' \<and> w' = [] \<and> slot_Check sampleSlots h' s' (LinkTo 0) = Ok True
        | Panic _ \<Rightarrow> False)
   | Panic _ \<Rightarrow> False"
  by code_simp

subsection \<open>Adjustments and their merging\<close>

text \<open>
  \<^verbatim>\<open>SyncAdjustment\<close> with its controller: nil, a synchronization object, or the stub \<^verbatim>\<open>mergedAdjustments\<close>, which
  comes with a relative adjustment of zero.
\<close>

datatype SyncAdjustment = ZeroAdjustment | Adjustment SyncLink int bool | Merged "SyncAdjustment list"

definition adj_IsZero :: "SyncAdjustment \<Rightarrow> bool" where
  "adj_IsZero v \<longleftrightarrow> v = ZeroAdjustment"

fun adj_IsEmpty :: "SyncAdjustment \<Rightarrow> bool" where
  "adj_IsEmpty ZeroAdjustment = True"
| "adj_IsEmpty (Adjustment l adj isAbsolute) = (\<not> isAbsolute \<and> adj = 0)"
| "adj_IsEmpty (Merged vs) = True"

fun adjustmentParts :: "SyncAdjustment \<Rightarrow> SyncAdjustment list" where
  "adjustmentParts (Merged vs) = vs"
| "adjustmentParts v = [v]"

definition MergeWith :: "SyncAdjustment \<Rightarrow> SyncAdjustment list \<Rightarrow> SyncAdjustment res" where
  "MergeWith v us =
     (if adj_IsZero v then Panic ''IllegalState''
      else if list_ex adj_IsZero us then Panic ''IllegalValue''
      else if sum_list (map (\<lambda>u. length (adjustmentParts u)) us) = 0 then Ok v
      else Ok (Merged (v # concat (map adjustmentParts us))))"

fun adj_AdjustLimit :: "slots \<Rightarrow> SyncAdjustment \<Rightarrow> heap \<Rightarrow> (heap \<times> StepLink list \<times> bool) res"
  and merged_AdjustLimit :: "slots \<Rightarrow> SyncAdjustment list \<Rightarrow> heap \<Rightarrow> StepLink list \<Rightarrow> bool \<Rightarrow> (heap \<times> StepLink list \<times> bool) res" where
  "adj_AdjustLimit sl ZeroAdjustment h = Panic ''nil pointer dereference''"
| "adj_AdjustLimit sl (Adjustment l adj isAbsolute) h = ctl_AdjustLimit sl h l adj isAbsolute"
| "adj_AdjustLimit sl (Merged vs) h = merged_AdjustLimit sl vs h [] False"
| "merged_AdjustLimit sl [] h deps act = Ok (h, deps, act)"
| "merged_AdjustLimit sl (v # vs) h deps act =
     bnd (adj_AdjustLimit sl v h) (\<lambda>(h', adjDeps, adjAct).
       if adjAct then merged_AdjustLimit sl vs h' (deps @ adjDeps) True
       else if adjDeps \<noteq> [] then Panic ''Impossible''
       else merged_AdjustLimit sl vs h' deps act)"

definition contextApplyAdjustment ::
  "slots \<Rightarrow> heap \<Rightarrow> slotState \<Rightarrow> SyncAdjustment \<Rightarrow> (heap \<times> bool \<times> StepLink list) res" where
  "contextApplyAdjustment sl h s v =
     (if adj_IsZero v then Panic ''IllegalValue''
      else bnd (adj_AdjustLimit sl v h) (\<lambda>(h', released, act).
        Ok (h', released \<noteq> [], if act then activateDependants (slotLink s) released else [])))"

lemma merged_acc:
  "merged_AdjustLimit sl vs h deps act =
     bnd (merged_AdjustLimit sl vs h [] False) (\<lambda>(h', d, a). Ok (h', deps @ d, act \<or> a))"
proof (induction vs arbitrary: h deps act)
  case (Cons v vs)
  show ?case
  proof (cases "adj_AdjustLimit sl v h")
    case (Ok r)
    obtain h' d a where r: "r = (h', d, a)" by (metis prod_cases3)
    show ?thesis using Cons [of h' "deps @ d" True] Cons [of h' d True] Cons [of h' deps act] Ok r
      by (cases "merged_AdjustLimit sl vs h' [] False") auto
  qed simp
qed simp

lemma merged_quiet: "merged_AdjustLimit sl vs h deps act = Ok (h', d, False) \<Longrightarrow> d = deps \<and> \<not> act"
  by (induction vs arbitrary: h deps act) (auto simp: go_simps split: if_splits)

lemma merged_append:
  "merged_AdjustLimit sl (vs @ ws) h deps act = bnd (merged_AdjustLimit sl vs h deps act) (\<lambda>(h', d, a). merged_AdjustLimit sl ws h' d a)"
proof (induction vs arbitrary: h deps act)
  case (Cons v vs)
  show ?case
  proof (cases "adj_AdjustLimit sl v h")
    case (Ok r)
    obtain h' d a where r: "r = (h', d, a)" by (metis prod_cases3)
    show ?thesis using Cons Ok r by simp
  qed simp
qed simp

lemma merged_flatten: "merged_AdjustLimit sl (v # vs) h deps act = merged_AdjustLimit sl (adjustmentParts v @ vs) h deps act"
proof (cases v)
  case (Merged ws)
  show ?thesis
  proof (cases "merged_AdjustLimit sl ws h [] False")
    case (Ok r)
    obtain h' d a where r: "r = (h', d, a)" by (metis prod_cases3)
    show ?thesis
      using merged_acc [of sl ws h deps act] Ok r merged_quiet [of sl ws h "[]" False h' d] Merged
      by (cases a) (simp_all add: merged_append)
  next
    case (Panic e)
    then show ?thesis using merged_acc [of sl ws h deps act] Merged by (simp add: merged_append)
  qed
qed simp_all

text \<open>The reference: a slot applies the adjustments one by one and each time wakes the slots that are released.\<close>

fun apply_each :: "slots \<Rightarrow> slotState \<Rightarrow> SyncAdjustment list \<Rightarrow> heap \<Rightarrow> (heap \<times> bool \<times> StepLink list) res" where
  "apply_each sl s [] h = Ok (h, False, [])"
| "apply_each sl s (v # vs) h =
     bnd (contextApplyAdjustment sl h s v) (\<lambda>(h1, released1, woken1).
     bnd (apply_each sl s vs h1) (\<lambda>(h2, released2, woken2). Ok (h2, released1 \<or> released2, woken1 @ woken2)))"

text \<open>No adjustment gives slots that are not to be woken.\<close>

fun no_withheld :: "slots \<Rightarrow> SyncAdjustment list \<Rightarrow> heap \<Rightarrow> bool" where
  "no_withheld sl [] h = True"
| "no_withheld sl (v # vs) h =
     (case adj_AdjustLimit sl v h of Panic _ \<Rightarrow> True | Ok (h', deps, act) \<Rightarrow> (act \<or> deps = []) \<and> no_withheld sl vs h')"

definition adjusted :: "slotState \<Rightarrow> (heap \<times> StepLink list \<times> bool) res \<Rightarrow> (heap \<times> bool \<times> StepLink list) res" where
  "adjusted s m = bnd m (\<lambda>(h', released, act). Ok (h', released \<noteq> [], if act then activateDependants (slotLink s) released else []))"

lemma activate_append: "activateDependants l (xs @ ys) = activateDependants l xs @ activateDependants l ys"
  by (simp add: activateDependants_def)

lemma merged_each:
  assumes "list_all (\<lambda>v. \<not> adj_IsZero v) vs"
  shows "adjusted s (merged_AdjustLimit sl vs h [] False) = (if no_withheld sl vs h then apply_each sl s vs h else adjusted s (merged_AdjustLimit sl vs h [] False))"
    "adjusted s (merged_AdjustLimit sl vs h [] False) = Ok r \<Longrightarrow> no_withheld sl vs h"
  using assms
proof (induction vs arbitrary: h r)
  case Nil
  { case 1 show ?case by (simp add: adjusted_def) next case 2 show ?case by simp }
next
  case (Cons v vs)
  have nz: "\<not> adj_IsZero v" "list_all (\<lambda>v. \<not> adj_IsZero v) vs" if "list_all (\<lambda>v. \<not> adj_IsZero v) (v # vs)" using that by simp_all
  { case 1
    show ?case
    proof (cases "adj_AdjustLimit sl v h")
      case (Ok x)
      obtain h' d a where x: "x = (h', d, a)" by (metis prod_cases3)
      show ?thesis
      proof (cases "no_withheld sl (v # vs) h")
        case True
        then have w: "a \<or> d = []" "no_withheld sl vs h'" using Ok x by simp_all
        have i: "adjusted s (merged_AdjustLimit sl vs h' [] False) = apply_each sl s vs h'" using Cons.IH(1) [of h'] w(2) nz(2) [OF 1] by simp
        show ?thesis
        proof (cases "merged_AdjustLimit sl vs h' [] False")
          case (Ok y)
          obtain h2 d2 a2 where y: "y = (h2, d2, a2)" by (metis prod_cases3)
          have q: "a2 \<or> d2 = []" using merged_quiet [of sl vs h' "[]" False h2 d2] Ok y by (cases a2) auto
          have "apply_each sl s vs h' = Ok (h2, d2 \<noteq> [], if a2 then activateDependants (slotLink s) d2 else [])"
            unfolding i [symmetric] by (simp add: adjusted_def Ok y)
          then show ?thesis using True w(1) q nz(1) [OF 1] \<open>adj_AdjustLimit sl v h = Ok x\<close> x Ok y
            by (auto simp: adjusted_def contextApplyAdjustment_def merged_acc [of sl vs h' d True] activate_append activateDependants_def)
        next
          case (Panic e)
          then have "apply_each sl s vs h' = Panic e" unfolding i [symmetric] by (simp add: adjusted_def)
          then show ?thesis using True w(1) nz(1) [OF 1] Ok x Panic
            by (auto simp: adjusted_def contextApplyAdjustment_def merged_acc [of sl vs h' d True])
        qed
      next
        case False
        then show ?thesis by simp
      qed
    next
      case (Panic e)
      then show ?thesis using nz(1) [OF 1] by (simp add: adjusted_def contextApplyAdjustment_def)
    qed
  next
    case 2
    then obtain h' d a where x: "adj_AdjustLimit sl v h = Ok (h', d, a)" by (cases "adj_AdjustLimit sl v h") (auto simp: adjusted_def)
    have w: "a \<or> d = []" using 2(1) x by (auto simp: adjusted_def split: if_splits)
    have "\<exists>r'. adjusted s (merged_AdjustLimit sl vs h' [] False) = Ok r'"
      using 2(1) x w merged_acc [of sl vs h' d True] by (cases "merged_AdjustLimit sl vs h' [] False") (auto simp: adjusted_def split: if_splits)
    then show ?case using Cons.IH(2) [of h'] nz(2) [OF 2(2)] x w by auto
  }
qed

lemma parts_flat: "merged_AdjustLimit sl (concat (map adjustmentParts ws)) h deps act = merged_AdjustLimit sl ws h deps act"
proof (induction ws arbitrary: h deps act)
  case (Cons w ws)
  have "merged_AdjustLimit sl (concat (map adjustmentParts (w # ws))) h deps act =
      merged_AdjustLimit sl (adjustmentParts w @ concat (map adjustmentParts ws)) h deps act" by simp
  also have "\<dots> = merged_AdjustLimit sl (adjustmentParts w @ ws) h deps act" unfolding merged_append Cons ..
  finally show ?case by (simp only: merged_flatten)
qed simp

lemma empty_each: "sum_list (map (\<lambda>u. length (adjustmentParts u)) us) = 0 \<Longrightarrow> apply_each sl s us h = Ok (h, False, [])"
proof (induction us)
  case (Cons u us)
  then have "u = Merged []" by (cases u) auto
  then show ?case using Cons by (simp add: contextApplyAdjustment_def adj_IsZero_def)
qed simp

text \<open>
  C38: a merged adjustment is its parts one after another.  Whatever adjustments are merged, and however
  often the result is merged again: if applying the result succeeds, then applying the given adjustments one by one
  succeeds with the same effect on every object and wakes the same slots in the same order.  The other way round, if they
  can be applied one by one and none of them gives slots that it does not want to be woken, as saturated ones do, then
  the merged adjustment can be applied with the same effect.
\<close>
theorem merged_adjustments_one_by_one:
  assumes "MergeWith v us = Ok m"
  shows "(contextApplyAdjustment sl h s m = Ok r \<longrightarrow> apply_each sl s (v # us) h = Ok r) \<and>
    (apply_each sl s (v # us) h = Ok r \<and> no_withheld sl (v # us) h \<longrightarrow> contextApplyAdjustment sl h s m = Ok r)"
proof (cases "sum_list (map (\<lambda>u. length (adjustmentParts u)) us) = 0")
  case True
  then have "m = v" using assms by (auto simp: MergeWith_def split: if_splits)
  moreover have "apply_each sl s (v # us) h = contextApplyAdjustment sl h s v"
    using empty_each [OF True] by (cases "contextApplyAdjustment sl h s v") auto
  ultimately show ?thesis by auto
next
  case False
  then have m: "m = Merged (v # concat (map adjustmentParts us))" and z: "list_all (\<lambda>v. \<not> adj_IsZero v) (v # us)"
    using assms by (auto simp: MergeWith_def list_all_iff list_ex_iff split: if_splits)
  have "adj_AdjustLimit sl m h = merged_AdjustLimit sl (v # us) h [] False" unfolding m by (simp only: adj_AdjustLimit.simps merged_AdjustLimit.simps parts_flat)
  then have "contextApplyAdjustment sl h s m = adjusted s (merged_AdjustLimit sl (v # us) h [] False)"
    using m by (simp add: contextApplyAdjustment_def adj_IsZero_def adjusted_def)
  then show ?thesis using merged_each [OF z, of s sl h] by metis
qed

theorem merged_adjustments_one_by_one_witness:
  "\<exists>m h'. MergeWith (Adjustment (LinkTo 0) 1 True) [Merged [Adjustment (LinkTo 1) 1 True], Adjustment (LinkTo 2) 2 False] = Ok m \<and>
     contextApplyAdjustment sampleSlots (\<lambda>a. Conditional zeroCond) (sampleSlot 0) m = Ok (h', False, [])"
proof -
  let ?v = "Adjustment (LinkTo 0) 1 True" and ?us = "[Merged [Adjustment (LinkTo 1) 1 True], Adjustment (LinkTo 2) 2 False]" and ?h = "\<lambda>a. Conditional zeroCond"
  have m: "MergeWith ?v ?us = Ok (Merged [?v, Adjustment (LinkTo 1) 1 True, Adjustment (LinkTo 2) 2 False])"
    by (simp add: MergeWith_def adj_IsZero_def)
  have "bnd (apply_each sampleSlots (sampleSlot 0) (?v # ?us) ?h) (\<lambda>(h', b, w). Ok (b, w)) = Ok (False, [])" by code_simp
  then obtain h' where a: "apply_each sampleSlots (sampleSlot 0) (?v # ?us) ?h = Ok (h', False, [])" by (auto simp: go_simps simp del: apply_each.simps)
  have "no_withheld sampleSlots (?v # ?us) ?h" by code_simp
  with a m show ?thesis using merged_adjustments_one_by_one [OF m, of sampleSlots ?h "sampleSlot 0" "(h', False, [])"] by blast
qed

text \<open>
  A saturated adjustment gives the slots that it revokes and no activation: alone it is applied, as a part of a merged
  adjustment it panics.
\<close>

lemma merged_saturated_panics:
  "case bnd (newSemaphore sampleSlots 1 True 0) (\<lambda>f.
      bnd (acquire sampleSlots 1 (\<lambda>a. Semaphore f) (sampleSlot 0) (LinkTo 0) False False 0) (\<lambda>(h, _).
      bnd (acquire sampleSlots 2 h (sampleSlot 1) (LinkTo 0) False False 0) (\<lambda>(h, _).
      bnd (contextApplyAdjustment sampleSlots h (sampleSlot 2) (Adjustment (LinkTo 0) 2147483647 True)) (\<lambda>(h, _).
      bnd (MergeWith (Adjustment (LinkTo 0) 1 False) [Adjustment (LinkTo 1) 0 False]) (\<lambda>m.
      Ok (contextApplyAdjustment sampleSlots h (sampleSlot 2) (Adjustment (LinkTo 0) 1 False),
          contextApplyAdjustment sampleSlots h (sampleSlot 2) m)))))) of
     Ok (alone, merged) \<Rightarrow> is_ok alone \<and> \<not> is_ok merged | Panic _ \<Rightarrow> False"
  by code_simp

text \<open>A merged adjustment that changes limits counts as empty.\<close>

lemma merged_is_empty:
  "\<exists>m. MergeWith (Adjustment l 5 True) [Adjustment l' 7 True] = Ok m \<and> adj_IsEmpty m \<and>
     \<not> adj_IsEmpty (Adjustment l 5 True) \<and> \<not> adj_IsEmpty (Adjustment l' 7 True)"
  by (simp add: MergeWith_def adj_IsZero_def)

end
