(* ===== verification/Sync_Links.thy ===== *)
theory Sync_Links
  imports Sync_Queue
begin

text \<open>
  The ring of pointers of \<^verbatim>\<open>smsync/sync_queue.go\<close>.  The heads of the queues and the entries are cells with
  the pointers \<^verbatim>\<open>queue\<close>, \<^verbatim>\<open>nextInQueue\<close> and \<^verbatim>\<open>prevInQueue\<close>; the operations follow the code pointer by
  pointer, with its explicit checks and the panics of nil pointers.  The theorem at the end shows that on
  well-formed rings they are the list operations of \<open>Sync_Queue\<close>.
\<close>

subsection \<open>Cells\<close>

datatype addr = Head nat | Node nat

record cell =
  cqueue :: "nat option"
  nextInQueue :: "addr option"
  prevInQueue :: "addr option"

record headData =
  rboost :: "nat option"
  rcount :: int

record ringHeap =
  cells :: "addr \<Rightarrow> cell"
  heads :: "nat \<Rightarrow> headData"

definition noCell :: cell where
  "noCell = \<lparr>cqueue = None, nextInQueue = None, prevInQueue = None\<rparr>"

definition setCell :: "addr \<Rightarrow> (cell \<Rightarrow> cell) \<Rightarrow> ringHeap \<Rightarrow> ringHeap" where
  "setCell a u h = h\<lparr>cells := (cells h)(a := u (cells h a))\<rparr>"

definition setHead :: "nat \<Rightarrow> (headData \<Rightarrow> headData) \<Rightarrow> ringHeap \<Rightarrow> ringHeap" where
  "setHead k u h = h\<lparr>heads := (heads h)(k := u (heads h k))\<rparr>"

definition nilPanic :: "'a res" where
  "nilPanic = Panic ''nil pointer dereference''"

subsection \<open>Operations\<close>

definition ring_isInQueue :: "ringHeap \<Rightarrow> addr \<Rightarrow> bool" where
  "ring_isInQueue h p \<longleftrightarrow> cqueue (cells h p) \<noteq> None \<or> nextInQueue (cells h p) \<noteq> None \<or> prevInQueue (cells h p) \<noteq> None"

definition ring_isQueueHead :: "ringHeap \<Rightarrow> addr \<Rightarrow> bool res" where
  "ring_isQueueHead h p = (case cqueue (cells h p) of None \<Rightarrow> nilPanic | Some k \<Rightarrow> Ok (p = Head k))"

definition ring_neighbour :: "ringHeap \<Rightarrow> addr option \<Rightarrow> addr option res" where
  "ring_neighbour h n =
     (case n of None \<Rightarrow> Ok None
      | Some a \<Rightarrow> bnd (ring_isQueueHead h a) (\<lambda>isHead. if isHead then Ok None else Ok (Some a)))"

definition ring_QueueNext :: "ringHeap \<Rightarrow> addr \<Rightarrow> addr option res" where
  "ring_QueueNext h p = ring_neighbour h (nextInQueue (cells h p))"

definition ring_QueuePrev :: "ringHeap \<Rightarrow> addr \<Rightarrow> addr option res" where
  "ring_QueuePrev h p = ring_neighbour h (prevInQueue (cells h p))"

definition ring_First :: "ringHeap \<Rightarrow> nat \<Rightarrow> addr option res" where
  "ring_First h k = ring_QueueNext h (Head k)"

definition ring_Last :: "ringHeap \<Rightarrow> nat \<Rightarrow> addr option res" where
  "ring_Last h k = ring_QueuePrev h (Head k)"

definition ring_initEmpty :: "nat \<Rightarrow> ringHeap \<Rightarrow> ringHeap" where
  "ring_initEmpty k h =
     (if cqueue (cells h (Head k)) = None
      then setCell (Head k) (\<lambda>_. \<lparr>cqueue = Some k, nextInQueue = Some (Head k), prevInQueue = Some (Head k)\<rparr>) h
      else h)"

text \<open>\<^verbatim>\<open>position._addQueuePrev(entry, entry)\<close>; the position may be a nil pointer.\<close>

definition ring_addQueuePrev :: "addr option \<Rightarrow> addr \<Rightarrow> addr \<Rightarrow> ringHeap \<Rightarrow> ringHeap res" where
  "ring_addQueuePrev position chainHead chainTail h =
     (case position of None \<Rightarrow> nilPanic
      | Some p \<Rightarrow>
          if \<not> ring_isInQueue h p then Panic ''illegal state''
          else
            let prev = prevInQueue (cells h p);
                h = setCell chainHead (\<lambda>c. c\<lparr>prevInQueue := prev\<rparr>) h;
                h = setCell chainTail (\<lambda>c. c\<lparr>nextInQueue := Some p\<rparr>) h;
                h = setCell p (\<lambda>c. c\<lparr>prevInQueue := Some chainTail\<rparr>) h in
            case prev of None \<Rightarrow> nilPanic
            | Some a \<Rightarrow> Ok (setCell a (\<lambda>c. c\<lparr>nextInQueue := Some chainHead\<rparr>) h))"

definition ring_addBefore :: "nat \<Rightarrow> addr option \<Rightarrow> nat \<Rightarrow> ringHeap \<Rightarrow> ringHeap res" where
  "ring_addBefore k position e h =
     (let h = ring_initEmpty k h in
      if ring_isInQueue h (Node e) then Panic ''illegal state''
      else bnd (ring_addQueuePrev position (Node e) (Node e) h) (\<lambda>h.
        Ok (setHead k (\<lambda>d. d\<lparr>rcount := rcount d + 1\<rparr>) (setCell (Node e) (\<lambda>c. c\<lparr>cqueue := Some k\<rparr>) h))))"

definition ring_AddFirst :: "nat \<Rightarrow> nat \<Rightarrow> ringHeap \<Rightarrow> ringHeap res" where
  "ring_AddFirst k e h = ring_addBefore k (nextInQueue (cells h (Head k))) e h"

definition ring_AddLast :: "nat \<Rightarrow> nat \<Rightarrow> ringHeap \<Rightarrow> ringHeap res" where
  "ring_AddLast k e h = ring_addBefore k (Some (Head k)) e h"

fun nodeOf :: "addr \<Rightarrow> nat option" where
  "nodeOf (Node n) = Some n"
| "nodeOf (Head k) = None"

definition ring_removeFromQueue :: "nat \<Rightarrow> ringHeap \<Rightarrow> ringHeap res" where
  "ring_removeFromQueue e h =
     bnd (ring_isQueueHead h (Node e)) (\<lambda>isHead.
       if isHead then Panic ''illegal state''
       else if \<not> ring_isInQueue h (Node e) then Panic ''illegal state''
       else case cqueue (cells h (Node e)) of None \<Rightarrow> nilPanic
         | Some k \<Rightarrow>
             bnd (if rboost (heads h k) = Some e
                  then bnd (ring_QueueNext h (Node e)) (\<lambda>n.
                    Ok (setHead k (\<lambda>d. d\<lparr>rboost := (case n of None \<Rightarrow> None | Some a \<Rightarrow> nodeOf a)\<rparr>) h))
                  else Ok h) (\<lambda>h.
               case (nextInQueue (cells h (Node e)), prevInQueue (cells h (Node e))) of
                 (Some next, Some prev) \<Rightarrow>
                   let h = setCell next (\<lambda>c. c\<lparr>prevInQueue := Some prev\<rparr>) h;
                       h = setCell prev (\<lambda>c. c\<lparr>nextInQueue := Some next\<rparr>) h;
                       h = setHead k (\<lambda>d. d\<lparr>rcount := rcount d - 1\<rparr>) h in
                   Ok (setCell (Node e) (\<lambda>c. noCell) h)
               | _ \<Rightarrow> nilPanic))"

subsection \<open>Rings\<close>

fun chained :: "(addr \<Rightarrow> cell) \<Rightarrow> addr list \<Rightarrow> bool" where
  "chained c (x # y # zs) \<longleftrightarrow> nextInQueue (c x) = Some y \<and> prevInQueue (c y) = Some x \<and> chained c (y # zs)"
| "chained c zs \<longleftrightarrow> True"

definition ring :: "ringHeap \<Rightarrow> nat \<Rightarrow> nat list \<Rightarrow> bool" where
  "ring h k es \<longleftrightarrow> distinct es \<and> chained (cells h) (Head k # map Node es @ [Head k]) \<and>
     (\<forall>a \<in> insert (Head k) (Node ` set es). cqueue (cells h a) = Some k)"

text \<open>What a head with its ring stands for.\<close>

definition represents :: "ringHeap \<Rightarrow> nat \<Rightarrow> dependencyQueueHead \<Rightarrow> bool" where
  "represents h k q \<longleftrightarrow> rboost (heads h k) = boostHead q \<and> rcount (heads h k) = qcount q \<and>
     (if qinit q then ring h k (ids (items q)) else cells h (Head k) = noCell \<and> items q = [])"

lemma chained_append: "chained c (xs @ x # ys) \<longleftrightarrow> chained c (xs @ [x]) \<and> chained c (x # ys)"
  by (induction c xs rule: chained.induct) auto

lemma chained_cong:
  assumes "\<And>x. x \<in> set (butlast zs) \<Longrightarrow> nextInQueue (c' x) = nextInQueue (c x)" "\<And>x. x \<in> set (tl zs) \<Longrightarrow> prevInQueue (c' x) = prevInQueue (c x)"
  shows "chained c' zs = chained c zs"
  using assms by (induction c zs rule: chained.induct) auto

lemma chained_splice:
  "chained c (xs @ pv # p # ys) \<longleftrightarrow>
     chained c (xs @ [pv]) \<and> nextInQueue (c pv) = Some p \<and> prevInQueue (c p) = Some pv \<and> chained c (p # ys)"
  using chained_append [of c xs pv "p # ys"] by simp

text \<open>The two sides of a position in a ring.\<close>

lemma ring_sides:
  obtains xs ys where "Head k # map Node as = xs @ [last (Head k # map Node as)]" "map Node bs @ [Head k] = hd (map Node bs @ [Head k]) # ys"
proof -
  let ?X = "Head k # map Node as" and ?Y = "map Node bs @ [Head k]"
  have "?X = butlast ?X @ [last ?X]" by (rule append_butlast_last_id [symmetric]) simp
  moreover have "?Y = hd ?Y # tl ?Y" by (rule hd_Cons_tl [symmetric]) simp
  ultimately show ?thesis by (rule that)
qed

lemma chained_sides:
  fixes as bs k defines "pv \<equiv> last (Head k # map Node as)" and "p \<equiv> hd (map Node bs @ [Head k])"
  shows "chained c (Head k # map Node (as @ bs) @ [Head k]) \<longleftrightarrow>
      chained c (Head k # map Node as) \<and> nextInQueue (c pv) = Some p \<and> prevInQueue (c p) = Some pv \<and> chained c (map Node bs @ [Head k])"
    and "chained c (Head k # map Node (as @ e # bs) @ [Head k]) \<longleftrightarrow>
      chained c (Head k # map Node as) \<and> nextInQueue (c pv) = Some (Node e) \<and> prevInQueue (c (Node e)) = Some pv \<and>
      nextInQueue (c (Node e)) = Some p \<and> prevInQueue (c p) = Some (Node e) \<and> chained c (map Node bs @ [Head k])"
proof -
  obtain xs ys where s: "Head k # map Node as = xs @ [pv]" "map Node bs @ [Head k] = p # ys"
    unfolding pv_def p_def by (rule ring_sides)
  have "Head k # map Node (as @ bs) @ [Head k] = xs @ pv # p # ys" using s by simp
  then show "chained c (Head k # map Node (as @ bs) @ [Head k]) \<longleftrightarrow>
      chained c (Head k # map Node as) \<and> nextInQueue (c pv) = Some p \<and> prevInQueue (c p) = Some pv \<and> chained c (map Node bs @ [Head k])"
    unfolding s by (simp only: chained_splice)
  have "Head k # map Node (as @ e # bs) @ [Head k] = xs @ pv # Node e # p # ys" using s by simp
  then show "chained c (Head k # map Node (as @ e # bs) @ [Head k]) \<longleftrightarrow>
      chained c (Head k # map Node as) \<and> nextInQueue (c pv) = Some (Node e) \<and> prevInQueue (c (Node e)) = Some pv \<and>
      nextInQueue (c (Node e)) = Some p \<and> prevInQueue (c p) = Some (Node e) \<and> chained c (map Node bs @ [Head k])"
    unfolding s by (simp only: chained_splice chained.simps)
qed

text \<open>
  Changing the pointers at a position, that is \<^verbatim>\<open>prev.nextInQueue\<close>, \<^verbatim>\<open>next.prevInQueue\<close> and a cell outside,
  does not disturb the two sides.
\<close>

lemma chained_side_cong:
  assumes "distinct (as @ bs)" "e \<notin> set (as @ bs)" "pv = last (Head k # map Node as)" "p = hd (map Node bs @ [Head k])"
    and nx: "\<And>a. a \<noteq> pv \<Longrightarrow> a \<noteq> Node e \<Longrightarrow> nextInQueue (c' a) = nextInQueue (c a)"
    and pr: "\<And>a. a \<noteq> p \<Longrightarrow> a \<noteq> Node e \<Longrightarrow> prevInQueue (c' a) = prevInQueue (c a)"
  shows "chained c' (Head k # map Node as) = chained c (Head k # map Node as)"
    and "chained c' (map Node bs @ [Head k]) = chained c (map Node bs @ [Head k])"
proof -
  have X: "distinct (Head k # map Node as)" using assms(1) by (auto simp: distinct_map inj_on_def)
  have nb: "a \<noteq> pv" if "a \<in> set (butlast (Head k # map Node as))" for a
    using that X append_butlast_last_id [of "Head k # map Node as"] unfolding assms(3)
    by (metis distinct.simps(2) distinct_append disjoint_iff list.distinct(1) list.set_intros(1))
  have p: "p = Head k \<and> bs = [] \<or> (\<exists>b bs'. bs = b # bs' \<and> p = Node b)" using assms(4) by (cases bs) auto
  have pv: "pv = Head k \<and> as = [] \<or> pv \<in> Node ` set as" using assms(3) by (cases as rule: rev_cases) auto
  show "chained c' (Head k # map Node as) = chained c (Head k # map Node as)"
  proof (rule chained_cong)
    fix x assume "x \<in> set (butlast (Head k # map Node as))"
    with nb [OF this] assms(2) show "nextInQueue (c' x) = nextInQueue (c x)"
      by (intro nx) (auto dest!: in_set_butlastD split: if_splits)
  next
    fix x assume "x \<in> set (tl (Head k # map Node as))"
    with p assms(1,2) show "prevInQueue (c' x) = prevInQueue (c x)" by (intro pr) auto
  qed
  show "chained c' (map Node bs @ [Head k]) = chained c (map Node bs @ [Head k])"
  proof (rule chained_cong)
    fix x assume "x \<in> set (butlast (map Node bs @ [Head k]))"
    with pv assms(1,2) show "nextInQueue (c' x) = nextInQueue (c x)" by (intro nx) auto
  next
    fix x assume "x \<in> set (tl (map Node bs @ [Head k]))"
    with p assms(1,2) show "prevInQueue (c' x) = prevInQueue (c x)" by (intro pr) (auto split: list.splits)
  qed
qed

subsection \<open>Insertion into and removal from a ring\<close>

abbreviation members :: "nat \<Rightarrow> nat list \<Rightarrow> addr set" where
  "members k es \<equiv> insert (Head k) (Node ` set es)"

lemma ring_frame:
  assumes "\<And>a. a \<in> members k es \<Longrightarrow> cells h' a = cells h a"
  shows "ring h' k es = ring h k es"
proof -
  have "set (butlast (Head k # map Node es @ [Head k])) \<subseteq> members k es" "set (tl (Head k # map Node es @ [Head k])) \<subseteq> members k es"
    by (auto simp: butlast_append)
  then have "chained (cells h') (Head k # map Node es @ [Head k]) = chained (cells h) (Head k # map Node es @ [Head k])"
    using assms by (intro chained_cong) (metis subsetD)+
  with assms show ?thesis by (simp add: ring_def)
qed

lemma ring_D:
  assumes "ring h k (as @ bs)" "pv = last (Head k # map Node as)" "p = hd (map Node bs @ [Head k])"
  shows "nextInQueue (cells h pv) = Some p" "prevInQueue (cells h p) = Some pv" "pv \<in> members k as" "p \<in> members k bs"
    "cqueue (cells h pv) = Some k" "cqueue (cells h p) = Some k" "distinct (as @ bs)"
    "cqueue (cells h (Head k)) = Some k" "p = Head k \<and> bs = [] \<or> (\<exists>b bs'. bs = b # bs' \<and> p = Node b)"
proof -
  have c: "chained (cells h) (Head k # map Node (as @ bs) @ [Head k])" and q: "\<And>a. a \<in> members k (as @ bs) \<Longrightarrow> cqueue (cells h a) = Some k"
    using assms(1) by (auto simp: ring_def)
  from c show "nextInQueue (cells h pv) = Some p" "prevInQueue (cells h p) = Some pv"
    unfolding chained_sides(1) assms(2,3) by blast+
  show m: "pv \<in> members k as" "p \<in> members k bs" using assms(2,3) by (cases as rule: rev_cases; cases bs; auto)+
  then show "cqueue (cells h pv) = Some k" "cqueue (cells h p) = Some k" by (auto intro: q)
  show "distinct (as @ bs)" using assms(1) by (simp add: ring_def)
  show "cqueue (cells h (Head k)) = Some k" by (rule q) simp
  show "p = Head k \<and> bs = [] \<or> (\<exists>b bs'. bs = b # bs' \<and> p = Node b)" using assms(3) by (cases bs) auto
qed

lemma ring_insert:
  assumes r: "ring h k (as @ bs)" and e: "e \<notin> set (as @ bs)" "cells h (Node e) = noCell" and p: "p = hd (map Node bs @ [Head k])"
  shows "\<exists>h'. ring_addBefore k (Some p) e h = Ok h' \<and> ring h' k (as @ e # bs) \<and>
     heads h' = (heads h)(k := (heads h k)\<lparr>rcount := rcount (heads h k) + 1\<rparr>) \<and>
     (\<forall>a. a \<notin> members k (as @ e # bs) \<longrightarrow> cells h' a = cells h a)"
proof -
  define pv where pv: "pv = last (Head k # map Node as)"
  note d = ring_D [OF r pv p]
  have ne: "p \<noteq> Node e" "pv \<noteq> Node e" using d(3,4) e(1) by auto
  have init: "ring_initEmpty k h = h" using d(8) by (simp add: ring_initEmpty_def)
  have inq: "ring_isInQueue h p" "\<not> ring_isInQueue h (Node e)" using d(6) e(2) by (simp_all add: ring_isInQueue_def noCell_def)
  define h' where "h' = setHead k (\<lambda>d. d\<lparr>rcount := rcount d + 1\<rparr>) (setCell (Node e) (\<lambda>c. c\<lparr>cqueue := Some k\<rparr>)
    (setCell pv (\<lambda>c. c\<lparr>nextInQueue := Some (Node e)\<rparr>) (setCell p (\<lambda>c. c\<lparr>prevInQueue := Some (Node e)\<rparr>)
    (setCell (Node e) (\<lambda>c. c\<lparr>nextInQueue := Some p\<rparr>) (setCell (Node e) (\<lambda>c. c\<lparr>prevInQueue := Some pv\<rparr>) h)))))"
  have run: "ring_addBefore k (Some p) e h = Ok h'"
    using inq d(2) by (simp add: ring_addBefore_def ring_addQueuePrev_def init Let_def h'_def)
  have nx: "nextInQueue (cells h' a) = (if a = Node e then Some p else if a = pv then Some (Node e) else nextInQueue (cells h a))"
    and pr: "prevInQueue (cells h' a) = (if a = Node e then Some pv else if a = p then Some (Node e) else prevInQueue (cells h a))"
    and cq: "cqueue (cells h' a) = (if a = Node e then Some k else cqueue (cells h a))" for a
    using ne by (auto simp: h'_def setHead_def setCell_def)
  have "chained (cells h') (Head k # map Node as) = chained (cells h) (Head k # map Node as)"
    "chained (cells h') (map Node bs @ [Head k]) = chained (cells h) (map Node bs @ [Head k])"
    by (rule chained_side_cong [OF d(7) e(1) pv p]; simp add: nx pr)+
  moreover have "chained (cells h) (Head k # map Node (as @ bs) @ [Head k])" using r by (simp add: ring_def)
  note this [unfolded chained_sides(1), folded pv p]
  ultimately have "chained (cells h') (Head k # map Node (as @ e # bs) @ [Head k])"
    using ne by (simp only: chained_sides(2) [of _ k as e bs, folded pv p] nx pr simp_thms if_True if_False)
  then have "ring h' k (as @ e # bs)" using r e(1) by (auto simp: ring_def cq)
  moreover have "cells h' a = cells h a" if "a \<notin> members k (as @ e # bs)" for a
    using that d(3,4) by (auto simp: h'_def setHead_def setCell_def)
  ultimately show ?thesis using run by (auto simp: h'_def setHead_def setCell_def)
qed

lemma ring_next:
  assumes "ring h k (as @ e # bs)"
  shows "ring_QueueNext h (Node e) = Ok (case bs of [] \<Rightarrow> None | b # _ \<Rightarrow> Some (Node b))"
proof -
  have r: "ring h k ((as @ [e]) @ bs)" using assms by simp
  note d = ring_D [OF r refl refl]
  from d(1,6,9) show ?thesis
    by (cases bs) (auto simp: ring_QueueNext_def ring_neighbour_def ring_isQueueHead_def)
qed

lemma ring_delete:
  assumes r: "ring h k (as @ e # bs)"
  shows "\<exists>h'. ring_removeFromQueue e h = Ok h' \<and> ring h' k (as @ bs) \<and> cells h' (Node e) = noCell \<and>
     heads h' = (heads h)(k := \<lparr>rboost = (if rboost (heads h k) = Some e then (case bs of [] \<Rightarrow> None | b # _ \<Rightarrow> Some b) else rboost (heads h k)),
                               rcount = rcount (heads h k) - 1\<rparr>) \<and>
     (\<forall>a. a \<notin> members k (as @ e # bs) \<longrightarrow> cells h' a = cells h a)"
proof -
  define pv p where pv: "pv = last (Head k # map Node as)" and p: "p = hd (map Node bs @ [Head k])"
  have c: "chained (cells h) (Head k # map Node (as @ e # bs) @ [Head k])" and dis: "distinct (as @ e # bs)"
    and q: "\<And>a. a \<in> members k (as @ e # bs) \<Longrightarrow> cqueue (cells h a) = Some k" using r by (auto simp: ring_def)
  have l: "nextInQueue (cells h (Node e)) = Some p" "prevInQueue (cells h (Node e)) = Some pv"
    using c unfolding chained_sides(2) pv p by blast+
  have qe: "cqueue (cells h (Node e)) = Some k" by (rule q) simp
  have m: "pv \<in> members k as" "p \<in> members k bs" using pv p by (cases as rule: rev_cases; cases bs; auto)+
  have e: "e \<notin> set (as @ bs)" "distinct (as @ bs)" using dis by auto
  have ne: "p \<noteq> Node e" "pv \<noteq> Node e" using m e by auto
  define h1 where "h1 = (if rboost (heads h k) = Some e
      then setHead k (\<lambda>d. d\<lparr>rboost := (case bs of [] \<Rightarrow> None | b # _ \<Rightarrow> Some b)\<rparr>) h else h)"
  have h1c: "cells h1 = cells h" by (simp add: h1_def setHead_def)
  define h' where "h' = setCell (Node e) (\<lambda>c. noCell) (setHead k (\<lambda>d. d\<lparr>rcount := rcount d - 1\<rparr>)
    (setCell pv (\<lambda>c. c\<lparr>nextInQueue := Some p\<rparr>) (setCell p (\<lambda>c. c\<lparr>prevInQueue := Some pv\<rparr>) h1)))"
  have boost: "(if rboost (heads h k) = Some e
      then bnd (ring_QueueNext h (Node e)) (\<lambda>n. Ok (setHead k (\<lambda>d. d\<lparr>rboost := (case n of None \<Rightarrow> None | Some a \<Rightarrow> nodeOf a)\<rparr>) h))
      else Ok h) = Ok h1"
    by (simp add: h1_def ring_next [OF r] split: list.splits)
  have inq: "ring_isInQueue h (Node e)" using qe by (simp add: ring_isInQueue_def)
  have run: "ring_removeFromQueue e h = Ok h'"
    using qe l inq by (simp add: ring_removeFromQueue_def ring_isQueueHead_def boost h1c Let_def h'_def)
  have nx: "nextInQueue (cells h' a) = (if a = Node e then None else if a = pv then Some p else nextInQueue (cells h a))"
    and pr: "prevInQueue (cells h' a) = (if a = Node e then None else if a = p then Some pv else prevInQueue (cells h a))"
    and cq: "cqueue (cells h' a) = (if a = Node e then None else cqueue (cells h a))" for a
    using ne by (auto simp: h'_def setHead_def setCell_def noCell_def h1c)
  have "chained (cells h') (Head k # map Node as) = chained (cells h) (Head k # map Node as)"
    "chained (cells h') (map Node bs @ [Head k]) = chained (cells h) (map Node bs @ [Head k])"
    by (rule chained_side_cong [OF e(2,1) pv p]; simp add: nx pr)+
  with c [unfolded chained_sides(2), folded pv p] have "chained (cells h') (Head k # map Node (as @ bs) @ [Head k])"
    using ne by (simp only: chained_sides(1) [of _ k as bs, folded pv p] nx pr simp_thms if_True if_False)
  then have "ring h' k (as @ bs)" using e q by (auto simp: ring_def cq)
  moreover have "cells h' a = cells h a" if "a \<notin> members k (as @ e # bs)" for a
    using that m by (auto simp: h'_def setHead_def setCell_def h1c)
  moreover have "heads h' = (heads h)(k := \<lparr>rboost = (if rboost (heads h k) = Some e then (case bs of [] \<Rightarrow> None | b # _ \<Rightarrow> Some b) else rboost (heads h k)),
      rcount = rcount (heads h k) - 1\<rparr>)"
    by (cases "heads h k") (simp add: h'_def h1_def setHead_def setCell_def)
  ultimately show ?thesis using run by (auto simp: h'_def setCell_def)
qed

subsection \<open>Rings implement the queues\<close>

definition keepsOthers :: "ringHeap \<Rightarrow> ringHeap \<Rightarrow> nat \<Rightarrow> bool" where
  "keepsOthers h h' k \<longleftrightarrow> (\<forall>k' q'. k' \<noteq> k \<longrightarrow> represents h k' q' \<longrightarrow> represents h' k' q')"

lemma keepsOthersI:
  assumes "\<And>a. a \<notin> members k es \<Longrightarrow> cells h' a = cells h a" "\<And>k'. k' \<noteq> k \<Longrightarrow> heads h' k' = heads h k'"
    "\<And>e. e \<in> set es \<Longrightarrow> cqueue (cells h (Node e)) = Some k \<or> cqueue (cells h (Node e)) = None"
  shows "keepsOthers h h' k"
  unfolding keepsOthers_def
proof (intro allI impI)
  fix k' q' assume k: "k' \<noteq> k" and r: "represents h k' q'"
  have hd: "cells h' (Head k') = cells h (Head k')" using k by (intro assms(1)) auto
  have "ring h' k' (ids (items q'))" if "ring h k' (ids (items q'))"
  proof -
    have "cells h' a = cells h a" if "a \<in> members k' (ids (items q'))" for a
    proof (rule assms(1))
      show "a \<notin> members k es"
      proof
        assume "a \<in> members k es"
        moreover have "cqueue (cells h a) = Some k'" using that \<open>ring h k' (ids (items q'))\<close> unfolding ring_def by blast
        ultimately show False using assms(3) k that by fastforce
      qed
    qed
    then show ?thesis using ring_frame [of k' "ids (items q')" h' h] that by simp
  qed
  then show "represents h' k' q'" using r assms(2) [OF k] hd by (auto simp: represents_def split: if_splits)
qed

lemma ring_initEmpty_ok:
  assumes "represents h k q"
  shows "ring (ring_initEmpty k h) k (ids (items q))" "heads (ring_initEmpty k h) = heads h"
    "a \<noteq> Head k \<Longrightarrow> cells (ring_initEmpty k h) a = cells h a" "keepsOthers h (ring_initEmpty k h) k"
    "ring_addBefore k p e h = ring_addBefore k p e (ring_initEmpty k h)"
proof -
  show "ring (ring_initEmpty k h) k (ids (items q))"
    using assms by (auto simp: represents_def ring_initEmpty_def ring_def setCell_def noCell_def split: if_splits)
  show hc: "heads (ring_initEmpty k h) = heads h" "\<And>a. a \<noteq> Head k \<Longrightarrow> cells (ring_initEmpty k h) a = cells h a"
    by (simp_all add: ring_initEmpty_def setCell_def)
  show "keepsOthers h (ring_initEmpty k h) k" by (rule keepsOthersI [of k "[]"]) (simp_all add: hc)
  have "ring_initEmpty k (ring_initEmpty k h) = ring_initEmpty k h" by (auto simp: ring_initEmpty_def setCell_def)
  then show "ring_addBefore k p e h = ring_addBefore k p e (ring_initEmpty k h)" by (simp add: ring_addBefore_def)
qed

text \<open>Adding a new entry at a position is adding it at that position of the list.\<close>

lemma addBefore_represents:
  assumes "represents h k q" "ids (items q) = as @ bs" "eid e \<notin> set (ids (items q))" "cells h (Node (eid e)) = noCell"
    "p = hd (map Node bs @ [Head k])" "ids (items q') = as @ eid e # bs" "qcount q' = qcount q + 1" "boostHead q' = boostHead q" "qinit q'"
  shows "\<exists>h'. ring_addBefore k (Some p) (eid e) h = Ok h' \<and> represents h' k q' \<and> keepsOthers h h' k"
proof -
  let ?h = "ring_initEmpty k h"
  note i = ring_initEmpty_ok [OF assms(1)]
  have r: "ring ?h k (as @ bs)" using i(1) assms(2) by simp
  have e: "eid e \<notin> set (as @ bs)" "cells ?h (Node (eid e)) = noCell" using assms(2,3,4) i(3) [of "Node (eid e)"] by simp_all
  obtain h' where h': "ring_addBefore k (Some p) (eid e) ?h = Ok h'" "ring h' k (as @ eid e # bs)"
    "heads h' = (heads ?h)(k := (heads ?h k)\<lparr>rcount := rcount (heads ?h k) + 1\<rparr>)"
    "\<forall>a. a \<notin> members k (as @ eid e # bs) \<longrightarrow> cells h' a = cells ?h a" using ring_insert [OF r e assms(5)] by blast
  have "keepsOthers ?h h' k"
  proof (rule keepsOthersI)
    show "cells h' a = cells ?h a" if "a \<notin> members k (as @ eid e # bs)" for a using h'(4) that by blast
    show "heads h' k' = heads ?h k'" if "k' \<noteq> k" for k' using h'(3) that by simp
    show "cqueue (cells ?h (Node x)) = Some k \<or> cqueue (cells ?h (Node x)) = None" if "x \<in> set (as @ eid e # bs)" for x
      using that r e(2) by (auto simp: ring_def noCell_def)
  qed
  then have "keepsOthers h h' k" using i(4) by (simp add: keepsOthers_def)
  moreover have "represents h' k q'"
    using assms h'(2,3) i(2) by (simp add: represents_def)
  ultimately show ?thesis using h'(1) i(5) by auto
qed

lemma insertBefore_ids: "i \<in> set (ids es) \<Longrightarrow> distinct (ids es) \<Longrightarrow>
   \<exists>as b bs. es = as @ b # bs \<and> eid b = i \<and> insertBefore i e es = as @ e # b # bs"
proof -
  assume "i \<in> set (ids es)" "distinct (ids es)"
  then obtain as b bs where "es = as @ b # bs" "eid b = i" "i \<notin> set (ids as)"
    by (auto dest!: split_list)
  then show ?thesis using insertBefore_split [of i as b e bs] by blast
qed

lemma removeFromQueue_represents:
  assumes "represents h k q" "q_ok q" "contains q i"
  shows "\<exists>h'. ring_removeFromQueue i h = Ok h' \<and> represents h' k (removeFromQueue q i) \<and> cells h' (Node i) = noCell \<and> keepsOthers h h' k"
proof -
  obtain as b bs where s: "items q = as @ b # bs" "eid b = i" using assms(3) by (auto simp: contains_def dest!: split_list)
  have dis: "distinct (ids (items q))" and qi: "qinit q" using assms(2) s by (auto simp: q_ok_def)
  have r: "ring h k (ids as @ i # ids bs)" using assms(1) qi s by (simp add: represents_def)
  obtain h' where h': "ring_removeFromQueue i h = Ok h'" "ring h' k (ids as @ ids bs)" "cells h' (Node i) = noCell"
    "heads h' = (heads h)(k := \<lparr>rboost = (if rboost (heads h k) = Some i then (case ids bs of [] \<Rightarrow> None | b # _ \<Rightarrow> Some b) else rboost (heads h k)),
                               rcount = rcount (heads h k) - 1\<rparr>)"
    "\<forall>a. a \<notin> members k (ids as @ i # ids bs) \<longrightarrow> cells h' a = cells h a" using ring_delete [OF r] by blast
  have "nextAfter i (as @ b # bs) = (case bs of [] \<Rightarrow> None | f # _ \<Rightarrow> Some f)" if "i \<notin> set (ids as)"
    using that s(2) by (induction as) auto
  moreover have "i \<notin> set (ids as)" "filter (\<lambda>e. eid e \<noteq> i) (items q) = as @ bs" using dis s by (auto simp: filter_other_id)
  ultimately have "represents h' k (removeFromQueue q i)"
    using h'(2,4) assms(1) qi s(1)
    by (auto simp: represents_def removeFromQueue_def split: list.splits)
  moreover have "keepsOthers h h' k"
  proof (rule keepsOthersI)
    show "cells h' a = cells h a" if "a \<notin> members k (ids as @ i # ids bs)" for a using h'(5) that by blast
    show "heads h' k' = heads h k'" if "k' \<noteq> k" for k' using h'(4) that by simp
    show "cqueue (cells h (Node x)) = Some k \<or> cqueue (cells h (Node x)) = None" if "x \<in> set (ids as @ i # ids bs)" for x
      using that r by (auto simp: ring_def)
  qed
  ultimately show ?thesis using h'(1,3) by blast
qed

lemma ends_represent:
  assumes "represents h k q"
  shows "ring_First h k = Ok (map_option (Node \<circ> eid) (First q))" "ring_Last h k = Ok (map_option (Node \<circ> eid) (Last q))"
proof -
  have "ring_First h k = Ok (map_option (Node \<circ> eid) (First q)) \<and> ring_Last h k = Ok (map_option (Node \<circ> eid) (Last q))"
  proof (cases "qinit q")
    case False
    then show ?thesis using assms
      by (simp add: represents_def ring_First_def ring_Last_def ring_QueueNext_def ring_QueuePrev_def ring_neighbour_def noCell_def First_def Last_def)
  next
    case True
    then have r: "ring h k ([] @ ids (items q))" "ring h k (ids (items q) @ [])" using assms by (simp_all add: represents_def)
    note a = ring_D [OF r(1) refl refl] and b = ring_D [OF r(2) refl refl]
    have "ring_First h k = Ok (map_option (Node \<circ> eid) (First q))"
      using a(1,6) by (cases "items q") (simp_all add: ring_First_def ring_QueueNext_def ring_neighbour_def ring_isQueueHead_def First_def)
    moreover have "ring_Last h k = Ok (map_option (Node \<circ> eid) (Last q))"
      using b(2,5) by (cases "items q" rule: rev_cases)
        (simp_all add: ring_Last_def ring_QueuePrev_def ring_neighbour_def ring_isQueueHead_def Last_def)
    ultimately show ?thesis ..
  qed
  then show "ring_First h k = Ok (map_option (Node \<circ> eid) (First q))" "ring_Last h k = Ok (map_option (Node \<circ> eid) (Last q))" by blast+
qed

text \<open>
  C13: the rings of pointers are the queues.  For a head whose ring represents a well-formed queue, reading
  the first and the last entry, adding a fresh entry at the end, at the front or before a queued entry, and
  removing a queued entry run without a panic, give a ring that represents the queue the list operation
  gives, leave every other queue alone and reset the pointers of a removed entry; adding at the front of
  a head that was never used panics, as does removing an entry that is in no queue.
\<close>
theorem rings_implement_queues:
  assumes "represents h k q" "q_ok q" "eid e \<notin> set (ids (items q))" "cells h (Node (eid e)) = noCell"
  shows "ring_First h k = Ok (map_option (Node \<circ> eid) (First q)) \<and> ring_Last h k = Ok (map_option (Node \<circ> eid) (Last q)) \<and>
     (\<exists>h'. ring_AddLast k (eid e) h = Ok h' \<and> represents h' k (AddLast q e) \<and> keepsOthers h h' k) \<and>
     (case AddFirst q e of
        Ok q' \<Rightarrow> \<exists>h'. ring_AddFirst k (eid e) h = Ok h' \<and> represents h' k q' \<and> keepsOthers h h' k
      | Panic m \<Rightarrow> ring_AddFirst k (eid e) h = Panic m) \<and>
     (\<forall>i. contains q i \<longrightarrow>
        (\<exists>h'. ring_addBefore k (Some (Node i)) (eid e) h = Ok h' \<and> represents h' k (addBefore q i e) \<and> keepsOthers h h' k) \<and>
        (\<exists>h'. ring_removeFromQueue i h = Ok h' \<and> represents h' k (removeFromQueue q i) \<and> cells h' (Node i) = noCell \<and> keepsOthers h h' k)) \<and>
     ring_removeFromQueue (eid e) h = Panic ''nil pointer dereference''"
proof -
  have last: "\<exists>h'. ring_AddLast k (eid e) h = Ok h' \<and> represents h' k (AddLast q e) \<and> keepsOthers h h' k"
    unfolding ring_AddLast_def
    by (rule addBefore_represents [OF assms(1) _ assms(3,4), of "ids (items q)" "[]"]) (simp_all add: AddLast_def)
  have before: "\<exists>h'. ring_addBefore k (Some (Node i)) (eid e) h = Ok h' \<and> represents h' k (addBefore q i e) \<and> keepsOthers h h' k"
    if "contains q i" for i
  proof -
    have "i \<in> set (ids (items q))" using that by (simp add: contains_def)
    with assms(2) obtain as b bs where s: "items q = as @ b # bs" "eid b = i" "insertBefore i e (items q) = as @ e # b # bs"
      using insertBefore_ids [of i "items q" e] by (auto simp: q_ok_def)
    show ?thesis
      by (rule addBefore_represents [OF assms(1) _ assms(3,4), of "ids as" "ids (b # bs)"]) (simp_all add: s(1,2) s(3) [unfolded s(1)] addBefore_def)
  qed
  have first: "case AddFirst q e of
        Ok q' \<Rightarrow> \<exists>h'. ring_AddFirst k (eid e) h = Ok h' \<and> represents h' k q' \<and> keepsOthers h h' k
      | Panic m \<Rightarrow> ring_AddFirst k (eid e) h = Panic m"
  proof (cases "qinit q")
    case True
    then have r: "ring h k ([] @ ids (items q))" using assms(1) by (simp add: represents_def)
    have "nextInQueue (cells h (Head k)) = Some (hd (map Node (ids (items q)) @ [Head k]))"
      using ring_D(1) [OF r refl refl] by simp
    moreover have "\<exists>h'. ring_addBefore k (Some (hd (map Node (ids (items q)) @ [Head k]))) (eid e) h = Ok h' \<and>
        represents h' k (q\<lparr>items := e # items q, qcount := qcount q + 1\<rparr>) \<and> keepsOthers h h' k"
      by (rule addBefore_represents [OF assms(1) _ assms(3,4), of "[]" "ids (items q)"]) (use True in simp_all)
    ultimately show ?thesis using True by (simp add: AddFirst_def ring_AddFirst_def)
  next
    case False
    then have "nextInQueue (cells h (Head k)) = None" using assms(1) by (simp add: represents_def noCell_def)
    moreover have "\<not> ring_isInQueue (ring_initEmpty k h) (Node (eid e))"
      using ring_initEmpty_ok(3) [OF assms(1), of "Node (eid e)"] assms(4) by (simp add: ring_isInQueue_def noCell_def)
    ultimately show ?thesis using False
      by (simp add: AddFirst_def ring_AddFirst_def ring_addBefore_def ring_addQueuePrev_def nilPanic_def Let_def)
  qed
  have none: "ring_removeFromQueue (eid e) h = Panic ''nil pointer dereference''"
    using assms(4) by (simp add: ring_removeFromQueue_def ring_isQueueHead_def noCell_def nilPanic_def)
  from ends_represent [OF assms(1)] last first none before removeFromQueue_represents [OF assms(1,2)] show ?thesis
    by (intro conjI allI impI) assumption+
qed

definition emptyHeap :: ringHeap where
  "emptyHeap = \<lparr>cells = (\<lambda>_. noCell), heads = (\<lambda>_. \<lparr>rboost = None, rcount = 0\<rparr>)\<rparr>"

lemma emptyHeap_represents: "represents emptyHeap k (newQueue flags)"
  by (simp add: represents_def emptyHeap_def newQueue_def)

theorem rings_implement_queues_witness:
  "\<exists>h. ring_AddLast 0 7 emptyHeap = Ok h \<and> represents h 0 (AddLast (newQueue 0) (newEntry 7 \<lparr>link_id = 7, link_s = Some 0\<rparr> 0 None)) \<and>
     ring_First h 0 = Ok (Some (Node 7))" (is "\<exists>h. ?run h \<and> ?rep h \<and> ?first h")
proof -
  have "represents emptyHeap 0 (newQueue 0)" "q_ok (newQueue 0)" "eid (newEntry 7 \<lparr>link_id = 7, link_s = Some 0\<rparr> 0 None) \<notin> set (ids (items (newQueue 0)))"
    "cells emptyHeap (Node (eid (newEntry 7 \<lparr>link_id = 7, link_s = Some 0\<rparr> 0 None))) = noCell"
    by (rule emptyHeap_represents) (simp_all add: queue_simps emptyHeap_def)
  from rings_implement_queues [OF this] obtain h where h: "?run h" "?rep h" by (auto simp: newEntry_def)
  moreover have "First (AddLast (newQueue 0) (newEntry 7 \<lparr>link_id = 7, link_s = Some 0\<rparr> 0 None)) = Some (newEntry 7 \<lparr>link_id = 7, link_s = Some 0\<rparr> 0 None)" by (simp add: First_def queue_simps)
  ultimately have "?first h" using ends_represent(1) [OF h(2)] by (simp add: newEntry_def)
  with h show ?thesis by blast
qed

end
