(* ===== verification/Reference.thy ===== *)
theory Reference
  imports Pulse_Number
begin

text \<open>
  References of \<^verbatim>\<open>ledger-core/reference\<close>: a local reference is a header, which packs a pulse number with two bits
  of scope, and a hash of 28 bytes; a global reference is a pair of local ones.  The theory models the
  headers, the scopes, the constructors, the comparison, the templates from which references are made, and
  the binary form.  A \<^verbatim>\<open>Holder\<close> is read only through its two parts, so it is a \<open>Global\<close> here, and a nil
  holder is \<open>None\<close>.  A function with an error result gives \<open>Inl\<close> of the error or \<open>Inr\<close> of the value; a buffer that is
  written to is returned, also beside an error.
\<close>

subsection \<open>Scopes and headers\<close>

type_synonym SubScope = u8
type_synonym Scope = u8
type_synonym LocalHeader = u32

definition baseScopeLifeline :: u8 where "baseScopeLifeline = 0"
definition baseScopeLocalDomain :: u8 where "baseScopeLocalDomain = 1"
definition baseScopeReserved :: u8 where "baseScopeReserved = 2"
definition baseScopeGlobal :: u8 where "baseScopeGlobal = 3"

definition SubScopeMask :: u8 where "SubScopeMask = 3"
definition SuperScopeMask :: u8 where "SuperScopeMask = 12"
definition superScopeLifeline :: u8 where "superScopeLifeline = 0"
definition superScopeLocalDomain :: u8 where "superScopeLocalDomain = 4"
definition superScopeGlobal :: u8 where "superScopeGlobal = 12"
definition LocalDomainMember :: u8 where "LocalDomainMember = 4"
definition GlobalDomainMember :: u8 where "GlobalDomainMember = 15"

lemmas scope_consts = baseScopeLifeline_def baseScopeLocalDomain_def baseScopeReserved_def baseScopeGlobal_def
  SubScopeMask_def SuperScopeMask_def superScopeLifeline_def superScopeLocalDomain_def superScopeGlobal_def
  LocalDomainMember_def GlobalDomainMember_def

definition AsBaseOf :: "SubScope \<Rightarrow> SubScope \<Rightarrow> Scope" where
  "AsBaseOf v o' = push_bit 2 v OR o'"

definition scope_IsLocal :: "Scope \<Rightarrow> bool" where
  "scope_IsLocal v \<longleftrightarrow> v AND SuperScopeMask \<le> superScopeLocalDomain"

definition scope_IsOfLifeline :: "Scope \<Rightarrow> bool" where
  "scope_IsOfLifeline v \<longleftrightarrow> v AND SuperScopeMask = superScopeLifeline"

definition scope_IsOfLocalDomain :: "Scope \<Rightarrow> bool" where
  "scope_IsOfLocalDomain v \<longleftrightarrow> v AND SuperScopeMask = superScopeLocalDomain"

definition scope_IsGlobal :: "Scope \<Rightarrow> bool" where
  "scope_IsGlobal v \<longleftrightarrow> v AND SuperScopeMask = superScopeGlobal"

definition scope_SuperScope :: "Scope \<Rightarrow> SubScope" where
  "scope_SuperScope v = drop_bit 2 v"

definition scope_SubScope :: "Scope \<Rightarrow> SubScope" where
  "scope_SubScope v = v AND SubScopeMask"

definition selfScope_Scope :: "u8 \<Rightarrow> Scope" where
  "selfScope_Scope v = v OR push_bit 2 v"

definition NewLocalHeader :: "Number \<Rightarrow> SubScope \<Rightarrow> LocalHeader res" where
  "NewLocalHeader pn scope = WithFlags pn (uint scope)"

definition header_Pulse :: "LocalHeader \<Rightarrow> Number" where
  "header_Pulse v = OfUint32 v"

definition header_SubScope :: "LocalHeader \<Rightarrow> SubScope" where
  "header_SubScope v = word_of_int (FlagsOf v)"

definition header_WithPulse :: "LocalHeader \<Rightarrow> Number \<Rightarrow> LocalHeader res" where
  "header_WithPulse v pn = WithFlags pn (uint (header_SubScope v))"

definition header_WithSubScope :: "LocalHeader \<Rightarrow> SubScope \<Rightarrow> LocalHeader res" where
  "header_WithSubScope v scope = WithFlags (header_Pulse v) (uint scope)"

subsection \<open>Local and global references\<close>

definition LocalBinaryHashSize :: nat where "LocalBinaryHashSize = 28"
definition LocalBinaryPulseAndScopeSize :: nat where "LocalBinaryPulseAndScopeSize = 4"
definition LocalBinarySize :: nat where "LocalBinarySize = 32"
definition GlobalBinarySize :: nat where "GlobalBinarySize = 64"

lemmas size_consts = LocalBinaryHashSize_def LocalBinaryPulseAndScopeSize_def LocalBinarySize_def GlobalBinarySize_def

record Local =
  pulseAndScope :: LocalHeader
  local_hash :: "u8 list"

record Global =
  addressLocal :: Local
  addressBase :: Local

definition zeroHash :: "u8 list" where "zeroHash = replicate 28 0"

definition zeroLocal :: Local where "zeroLocal = \<lparr>pulseAndScope = 0, local_hash = zeroHash\<rparr>"

definition zeroGlobal :: Global where "zeroGlobal = \<lparr>addressLocal = zeroLocal, addressBase = zeroLocal\<rparr>"

definition NewLocal :: "Number \<Rightarrow> SubScope \<Rightarrow> u8 list \<Rightarrow> Local res" where
  "NewLocal pn scope h =
     (if \<not> IsSpecialOrTimePulse pn then Panic ''illegal value''
      else bnd (NewLocalHeader pn scope) (\<lambda>v. Ok \<lparr>pulseAndScope = v, local_hash = h\<rparr>))"

definition NewRecordID :: "Number \<Rightarrow> u8 list \<Rightarrow> Local res" where
  "NewRecordID pn h = NewLocal pn 0 h"

definition local_IsEmpty :: "Local \<Rightarrow> bool" where
  "local_IsEmpty v \<longleftrightarrow> pulseAndScope v = 0"

definition GetPulseNumber :: "Local \<Rightarrow> Number" where
  "GetPulseNumber v = header_Pulse (pulseAndScope v)"

definition local_SubScope :: "Local \<Rightarrow> SubScope" where
  "local_SubScope v = header_SubScope (pulseAndScope v)"

definition local_WithPulse :: "Local \<Rightarrow> Number \<Rightarrow> Local res" where
  "local_WithPulse v pn = bnd (header_WithPulse (pulseAndScope v) pn) (\<lambda>h. Ok (v\<lparr>pulseAndScope := h\<rparr>))"

definition local_WithSubScope :: "Local \<Rightarrow> SubScope \<Rightarrow> Local res" where
  "local_WithSubScope v scope = bnd (header_WithSubScope (pulseAndScope v) scope) (\<lambda>h. Ok (v\<lparr>pulseAndScope := h\<rparr>))"

fun bytesCompare :: "u8 list \<Rightarrow> u8 list \<Rightarrow> int" where
  "bytesCompare [] [] = 0"
| "bytesCompare [] (b # bs) = - 1"
| "bytesCompare (a # as) [] = 1"
| "bytesCompare (a # as) (b # bs) = (if a < b then - 1 else if b < a then 1 else bytesCompare as bs)"

definition local_Compare :: "Local \<Rightarrow> Local \<Rightarrow> int" where
  "local_Compare v other =
     (if pulseAndScope v < pulseAndScope other then - 1
      else if pulseAndScope v > pulseAndScope other then 1
      else bytesCompare (local_hash v) (local_hash other))"

fun hashLenFrom :: "u8 list \<Rightarrow> nat \<Rightarrow> nat" where
  "hashLenFrom h 0 = 0"
| "hashLenFrom h (Suc i) = (if h ! i = 0 then hashLenFrom h i else Suc i)"

definition hashLen :: "Local \<Rightarrow> nat" where
  "hashLen v = hashLenFrom (local_hash v) (length (local_hash v))"

definition NewRecordRef :: "Local \<Rightarrow> Global res" where
  "NewRecordRef recID =
     (if local_SubScope recID \<noteq> 0 then Panic ''illegal value'' else Ok \<lparr>addressLocal = recID, addressBase = zeroLocal\<rparr>)"

definition NewSelf :: "Local \<Rightarrow> Global res" where
  "NewSelf localID =
     (if local_SubScope localID = baseScopeReserved then Panic ''illegal value''
      else Ok \<lparr>addressLocal = localID, addressBase = localID\<rparr>)"

definition global_New :: "Local \<Rightarrow> Local \<Rightarrow> Global" where
  "global_New domainID localID = \<lparr>addressLocal = localID, addressBase = domainID\<rparr>"

definition NewRecordOf :: "Global \<Rightarrow> Local \<Rightarrow> Global res" where
  "NewRecordOf owner localID =
     (let base = addressBase owner; basePulse = GetPulseNumber base in
      if local_IsEmpty base then Panic ''IllegalValue''
      else if \<not> IsSpecial basePulse \<and> GetPulseNumber base > GetPulseNumber localID then Panic ''IllegalValue''
      else Ok \<lparr>addressLocal = localID, addressBase = base\<rparr>)"

definition global_IsEmpty :: "Global \<Rightarrow> bool" where
  "global_IsEmpty v \<longleftrightarrow> local_IsEmpty (addressLocal v) \<and> local_IsEmpty (addressBase v)"

definition global_GetScope :: "Global \<Rightarrow> Scope" where
  "global_GetScope v = AsBaseOf (local_SubScope (addressBase v)) (local_SubScope (addressLocal v))"

definition IsRecordScope :: "Global \<Rightarrow> bool" where
  "IsRecordScope ref \<longleftrightarrow> local_IsEmpty (addressBase ref) \<and> \<not> local_IsEmpty (addressLocal ref) \<and>
     local_SubScope (addressLocal ref) = baseScopeLifeline"

definition IsObjectReference :: "Global \<Rightarrow> bool" where
  "IsObjectReference ref \<longleftrightarrow> \<not> local_IsEmpty (addressBase ref) \<and> \<not> local_IsEmpty (addressLocal ref) \<and>
     local_SubScope (addressLocal ref) = baseScopeLifeline"

definition IsSelfScope :: "Global \<Rightarrow> bool" where
  "IsSelfScope ref \<longleftrightarrow> \<not> local_IsEmpty (addressLocal ref) \<and> addressBase ref = addressLocal ref"

definition IsLifelineScope :: "Global \<Rightarrow> bool" where
  "IsLifelineScope ref \<longleftrightarrow> local_SubScope (addressBase ref) = baseScopeLifeline \<and> \<not> local_IsEmpty (addressBase ref)"

definition IsLocalDomainScope :: "Global \<Rightarrow> bool" where
  "IsLocalDomainScope ref \<longleftrightarrow> local_SubScope (addressBase ref) = baseScopeLocalDomain"

definition IsGlobalScope :: "Global \<Rightarrow> bool" where
  "IsGlobalScope ref \<longleftrightarrow> local_SubScope (addressBase ref) = baseScopeGlobal"

definition AsRecordID :: "Global \<Rightarrow> Local res" where
  "AsRecordID v = (if IsSelfScope v \<or> IsRecordScope v then Ok (addressLocal v) else Panic ''IllegalState'')"

definition PulseNumberOf :: "Global option \<Rightarrow> Number" where
  "PulseNumberOf ref = (case ref of None \<Rightarrow> 0 | Some g \<Rightarrow> if global_IsEmpty g then 0 else GetPulseNumber (addressLocal g))"

definition global_Equal :: "Global option \<Rightarrow> Global option \<Rightarrow> bool" where
  "global_Equal ref0 ref1 =
     (case (ref0, ref1) of (None, None) \<Rightarrow> True | (None, Some _) \<Rightarrow> False | (Some _, None) \<Rightarrow> False
      | (Some a, Some b) \<Rightarrow> if addressLocal b \<noteq> addressLocal a then False else addressBase b = addressBase a)"

definition global_Compare :: "Global option \<Rightarrow> Global option \<Rightarrow> int" where
  "global_Compare ref0 ref1 =
     (case (ref0, ref1) of (None, None) \<Rightarrow> 0 | (None, Some _) \<Rightarrow> - 1 | (Some _, None) \<Rightarrow> 1
      | (Some a, Some b) \<Rightarrow>
          let cmp = local_Compare (addressBase a) (addressBase b) in
          if cmp \<noteq> 0 then cmp else local_Compare (addressLocal a) (addressLocal b))"

definition tryConvertToSelf :: "Global \<Rightarrow> Global \<times> bool" where
  "tryConvertToSelf v =
     (if \<not> local_IsEmpty (addressBase v) then (v, False) else (v\<lparr>addressBase := addressLocal v\<rparr>, True))"

definition tryApplyBase :: "Global \<Rightarrow> Global \<Rightarrow> Global \<times> bool" where
  "tryApplyBase v base =
     (if \<not> local_IsEmpty (addressBase v) then (v, False)
      else if \<not> IsSelfScope base \<and> global_GetScope base \<noteq> LocalDomainMember \<and> global_GetScope base \<noteq> GlobalDomainMember then (v, False)
      else (v\<lparr>addressBase := addressLocal base\<rparr>, True))"

subsection \<open>Binary form of a local reference\<close>

definition ErrShortBuffer :: string where "ErrShortBuffer = ''short buffer''"

text \<open>Go's \<^verbatim>\<open>copy\<close> gives the new contents of the target and the number of elements copied.\<close>

definition go_copy :: "'a list \<Rightarrow> 'a list \<Rightarrow> 'a list \<times> nat" where
  "go_copy dst src = (let n = min (length dst) (length src) in (take n src @ drop n dst, n))"

definition pulseAndScopeFromBytes :: "u8 list \<Rightarrow> LocalHeader" where
  "pulseAndScopeFromBytes b =
     push_bit 24 (ucast (b ! 0)) OR push_bit 16 (ucast (b ! 1)) OR push_bit 8 (ucast (b ! 2)) OR ucast (b ! 3)"

definition pulseAndScopeToBytes :: "Local \<Rightarrow> u8 list \<Rightarrow> u8 list" where
  "pulseAndScopeToBytes v b = NumberBytes (pulseAndScope v) @ drop LocalBinaryPulseAndScopeSize b"

definition WriteWholeLocalTo :: "Local \<Rightarrow> u8 list \<Rightarrow> u8 list \<times> nat" where
  "WriteWholeLocalTo v b =
     (if length b < LocalBinaryPulseAndScopeSize then (b, 0)
      else
        let b = pulseAndScopeToBytes v b in
        case go_copy (drop LocalBinaryPulseAndScopeSize b) (local_hash v) of (rest, n) \<Rightarrow>
          (take LocalBinaryPulseAndScopeSize b @ rest, LocalBinaryPulseAndScopeSize + n))"

definition ReadWholeLocalFrom :: "u8 list \<Rightarrow> Local res" where
  "ReadWholeLocalFrom b =
     (if length b < LocalBinarySize then Panic ''index out of range''
      else Ok \<lparr>pulseAndScope = pulseAndScopeFromBytes b, local_hash = fst (go_copy zeroHash (drop LocalBinaryPulseAndScopeSize b))\<rparr>)"

definition hasWholeForm :: "Number \<Rightarrow> bool" where
  "hasWholeForm pn \<longleftrightarrow> IsTimePulse pn \<or> pn = LocalRelative"

definition BinarySizeLocal :: "Local option \<Rightarrow> nat" where
  "BinarySizeLocal h =
     (case h of None \<Rightarrow> 0
      | Some v \<Rightarrow>
          if local_IsEmpty v then 0
          else let pn = GetPulseNumber v in
            if IsUnknown pn then 0
            else if hasWholeForm pn then LocalBinarySize
            else LocalBinaryPulseAndScopeSize + hashLen v)"

definition MarshalLocalTo :: "Local option \<Rightarrow> u8 list \<Rightarrow> u8 list \<times> (string + nat)" where
  "MarshalLocalTo h data =
     (case h of None \<Rightarrow> (data, Inr 0)
      | Some v \<Rightarrow>
          if local_IsEmpty v then (data, Inr 0)
          else let pn = GetPulseNumber v in
            if IsUnknown pn then (data, Inr 0)
            else if hasWholeForm pn then
              if length data \<ge> LocalBinarySize then (case WriteWholeLocalTo v data of (data', n) \<Rightarrow> (data', Inr n))
              else (data, Inl ErrShortBuffer)
            else if length data \<ge> LocalBinaryPulseAndScopeSize then
              let data = pulseAndScopeToBytes v data; i = hashLen v in
              case go_copy (drop LocalBinaryPulseAndScopeSize data) (take i (local_hash v)) of (rest, n) \<Rightarrow>
                (take LocalBinaryPulseAndScopeSize data @ rest,
                 if n = i then Inr (LocalBinaryPulseAndScopeSize + i) else Inl ErrShortBuffer)
            else (data, Inl ErrShortBuffer))"

definition MarshalLocal :: "Local option \<Rightarrow> string + u8 list" where
  "MarshalLocal h =
     (case h of None \<Rightarrow> Inr []
      | Some v \<Rightarrow>
          if local_IsEmpty v then Inr []
          else case MarshalLocalTo h (replicate LocalBinarySize 0) of
            (b, Inl e) \<Rightarrow> Inl e
          | (b, Inr n) \<Rightarrow> Inr (take n b))"

definition MarshalLocalToSizedBuffer :: "Local option \<Rightarrow> u8 list \<Rightarrow> u8 list \<times> (string + nat)" where
  "MarshalLocalToSizedBuffer h data =
     (case h of None \<Rightarrow> (data, Inr 0)
      | Some v \<Rightarrow>
          if local_IsEmpty v then (data, Inr 0)
          else let pn = GetPulseNumber v in
            if IsUnknown pn then (data, Inr 0)
            else if hasWholeForm pn then
              if length data \<ge> LocalBinarySize then
                let k = length data - LocalBinarySize in
                case WriteWholeLocalTo v (drop k data) of (rest, n) \<Rightarrow> (take k data @ rest, Inr n)
              else (data, Inl ErrShortBuffer)
            else if length data \<ge> LocalBinaryPulseAndScopeSize then
              let i = hashLen v + LocalBinaryPulseAndScopeSize in
              if length data < i then (data, Inl ErrShortBuffer)
              else
                let n = length data - i;
                    rest = pulseAndScopeToBytes v (drop n data) in
                (take n data @ take LocalBinaryPulseAndScopeSize rest @
                   fst (go_copy (drop LocalBinaryPulseAndScopeSize rest) (take (i - LocalBinaryPulseAndScopeSize) (local_hash v))), Inr i)
            else (data, Inl ErrShortBuffer))"

definition UnmarshalLocal :: "u8 list \<Rightarrow> string + Local" where
  "UnmarshalLocal data =
     (let n = length data in
      if n > LocalBinarySize then Inl ''too many bytes to unmarshal''
      else if n < LocalBinaryPulseAndScopeSize then
        if n = 0 then Inr zeroLocal else Inl ''not enough bytes to unmarshal''
      else
        let h = pulseAndScopeFromBytes data; pn = header_Pulse h;
            filled = \<lparr>pulseAndScope = h, local_hash = fst (go_copy zeroHash (drop LocalBinaryPulseAndScopeSize data))\<rparr> in
        if hasWholeForm pn then
          if n \<noteq> LocalBinarySize then Inl ''incorrect size of local hash'' else Inr filled
        else if IsSpecialOrPrivate pn then
          if n > LocalBinaryPulseAndScopeSize \<and> data ! (n - 1) = 0 then Inl ''incorrect padding of local hash'' else Inr filled
        else if IsUnknown pn then
          if n \<noteq> LocalBinaryPulseAndScopeSize then Inl ''too many bytes to unmarshal zero ref''
          else Inr \<lparr>pulseAndScope = h, local_hash = zeroHash\<rparr>
        else Inl ''impossible'')"

subsection \<open>Binary form of a global reference\<close>

definition BinarySize :: "Global option \<Rightarrow> nat" where
  "BinarySize h =
     (case h of None \<Rightarrow> 0
      | Some g \<Rightarrow>
          let base = addressBase g; loc = addressLocal g in
          if local_IsEmpty base then
            if local_IsEmpty loc then 0 else LocalBinarySize + LocalBinaryPulseAndScopeSize
          else if base = loc then BinarySizeLocal (Some loc)
          else LocalBinarySize + BinarySizeLocal (Some base))"

definition marshal_parts :: "Local \<Rightarrow> Local \<Rightarrow> u8 list \<Rightarrow> u8 list \<times> (string + nat)" where
  "marshal_parts base loc b =
     (case WriteWholeLocalTo loc b of (b, n) \<Rightarrow>
        if n \<noteq> LocalBinarySize then (b, Inl ErrShortBuffer)
        else if \<not> local_IsEmpty base then
          (case MarshalLocalTo (Some base) (drop n b) of
             (rest, Inr n2) \<Rightarrow> (take n b @ rest, Inr (n + n2))
           | (rest, Inl e) \<Rightarrow> (take n b @ rest, Inl ErrShortBuffer))
        else if length b < LocalBinarySize + LocalBinaryPulseAndScopeSize then (b, Inl ErrShortBuffer)
        else (take n b @ fst (go_copy (drop n b) (replicate LocalBinaryPulseAndScopeSize 0)),
              Inr (LocalBinarySize + LocalBinaryPulseAndScopeSize)))"

definition MarshalTo :: "Global option \<Rightarrow> u8 list \<Rightarrow> u8 list \<times> (string + nat)" where
  "MarshalTo h b =
     (case h of None \<Rightarrow> (b, Inr 0)
      | Some g \<Rightarrow>
          let base = addressBase g; loc = addressLocal g in
          if local_IsEmpty base \<and> local_IsEmpty loc then (b, Inr 0)
          else if \<not> local_IsEmpty base \<and> base = loc then MarshalLocalTo (Some loc) b
          else marshal_parts base loc b)"

definition Marshal :: "Global option \<Rightarrow> (string + u8 list) res" where
  "Marshal h =
     (case h of None \<Rightarrow> Ok (Inr [])
      | Some g \<Rightarrow>
          let base = addressBase g; loc = addressLocal g in
          if local_IsEmpty base then
            if local_IsEmpty loc then Ok (Inr [])
            else case WriteWholeLocalTo loc (replicate (LocalBinarySize + LocalBinaryPulseAndScopeSize) 0) of (b, n) \<Rightarrow>
              if n \<noteq> LocalBinarySize then Ok (Inl ErrShortBuffer) else Ok (Inr b)
          else if base = loc then Ok (MarshalLocal (Some loc))
          else case marshal_parts base loc (replicate (2 * LocalBinarySize) 0) of
            (b, Inl e) \<Rightarrow> Panic ''impossible''
          | (b, Inr n) \<Rightarrow> Ok (Inr (take n b)))"

definition MarshalToSizedBuffer :: "Global option \<Rightarrow> u8 list \<Rightarrow> (u8 list \<times> (string + nat)) res" where
  "MarshalToSizedBuffer h b =
     (case h of None \<Rightarrow> Ok (b, Inr 0)
      | Some g \<Rightarrow>
          let base = addressBase g; loc = addressLocal g in
          if local_IsEmpty base then
            if local_IsEmpty loc then Ok (b, Inr 0)
            else let n = LocalBinarySize + LocalBinaryPulseAndScopeSize in
              if length b < n then Panic ''slice bounds out of range''
              else let k = length b - n in
                case marshal_parts base loc (drop k b) of
                  (rest, Inr n2) \<Rightarrow> if n2 \<noteq> n then Panic ''impossible'' else Ok (take k b @ rest, Inr n)
                | (rest, Inl e) \<Rightarrow> Panic ''impossible''
          else if loc = base then Ok (MarshalLocalToSizedBuffer (Some loc) b)
          else case MarshalLocalToSizedBuffer (Some base) b of
            (b, Inl e) \<Rightarrow> Ok (b, Inl e)
          | (b, Inr n) \<Rightarrow>
              let n = n + LocalBinarySize in
              if length b < n then Ok (b, Inl ErrShortBuffer)
              else Ok (take (length b - n) b @ fst (WriteWholeLocalTo loc (drop (length b - n) b)), Inr n))"

definition UnmarshalGlobal :: "u8 list \<Rightarrow> (string + Global) res" where
  "UnmarshalGlobal b =
     (let n = length b in
      if n = 0 then Ok (Inr zeroGlobal)
      else if n < LocalBinaryPulseAndScopeSize then Ok (Inl ErrShortBuffer)
      else if n \<le> LocalBinarySize then
        (case UnmarshalLocal b of Inl e \<Rightarrow> Ok (Inl e) | Inr v \<Rightarrow> Ok (Inr \<lparr>addressLocal = v, addressBase = v\<rparr>))
      else if n > GlobalBinarySize then Ok (Inl ''too much bytes to unmarshal reference.Global'')
      else bnd (ReadWholeLocalFrom (take LocalBinarySize b)) (\<lambda>loc.
        case UnmarshalLocal (drop LocalBinarySize b) of Inl e \<Rightarrow> Ok (Inl e)
        | Inr base \<Rightarrow> Ok (Inr \<lparr>addressLocal = loc, addressBase = base\<rparr>)))"

definition global_AsBytes :: "Global \<Rightarrow> u8 list" where
  "global_AsBytes h =
     (let val = replicate GlobalBinarySize 0 in
      fst (WriteWholeLocalTo (addressLocal h) (take LocalBinarySize val)) @
      fst (WriteWholeLocalTo (addressBase h) (drop LocalBinarySize val)))"

subsection \<open>The bytes of a reference\<close>

definition wf_local :: "Local \<Rightarrow> bool" where
  "wf_local v \<longleftrightarrow> length (local_hash v) = 28 \<and> (if pulseAndScope v = 0 then v = zeroLocal else GetPulseNumber v \<noteq> Unknown)"

text \<open>
  A reference as the constructors make it: the arrays have their size, an empty base is all zero, a base
  that is not empty has a pulse, and a reference that is empty is all zero.
\<close>

definition wf_global :: "Global \<Rightarrow> bool" where
  "wf_global g \<longleftrightarrow> length (local_hash (addressLocal g)) = 28 \<and> wf_local (addressBase g) \<and> (global_IsEmpty g \<longrightarrow> g = zeroGlobal)"

definition localForm :: "Local \<Rightarrow> u8 list" where
  "localForm v =
     (if hasWholeForm (GetPulseNumber v) then NumberBytes (pulseAndScope v) @ local_hash v
      else NumberBytes (pulseAndScope v) @ take (hashLen v) (local_hash v))"

definition globalForm :: "Global \<Rightarrow> u8 list" where
  "globalForm g =
     (if local_IsEmpty (addressBase g) then
        if local_IsEmpty (addressLocal g) then []
        else NumberBytes (pulseAndScope (addressLocal g)) @ local_hash (addressLocal g) @ [0, 0, 0, 0]
      else if addressBase g = addressLocal g then localForm (addressBase g)
      else NumberBytes (pulseAndScope (addressLocal g)) @ local_hash (addressLocal g) @ localForm (addressBase g))"

lemma length_NumberBytes [simp]: "length (NumberBytes w) = 4"
  by (simp add: NumberBytes_def)

lemma header_bytes: "pulseAndScopeFromBytes (NumberBytes w @ xs) = w"
proof (rule bit_word_eqI)
  fix n assume n: "n < LENGTH(32)"
  consider "n < 8" | "8 \<le> n" "n < 16" | "16 \<le> n" "n < 24" | "24 \<le> n" by linarith
  then show "bit (pulseAndScopeFromBytes (NumberBytes w @ xs)) n \<longleftrightarrow> bit w n"
    using n by cases
      (auto simp: pulseAndScopeFromBytes_def NumberBytes_def bit_or_iff bit_push_bit_iff bit_ucast_iff bit_drop_bit_eq)
qed

lemma hashLenFrom_le: "hashLenFrom h n \<le> n"
  by (induction n) auto

lemma hashLenFrom_zeros: "hashLenFrom h n \<le> j \<Longrightarrow> j < n \<Longrightarrow> h ! j = 0"
  by (induction n) (auto split: if_splits simp: less_Suc_eq)

lemma hashLenFrom_last: "hashLenFrom h n > 0 \<Longrightarrow> h ! (hashLenFrom h n - 1) \<noteq> 0"
  by (induction n) (auto split: if_splits)

lemma hashLen_le: "hashLen v \<le> length (local_hash v)"
  by (simp add: hashLen_def hashLenFrom_le)

lemma hash_trim:
  assumes "length (local_hash v) = 28"
  shows "take (hashLen v) (local_hash v) @ drop (hashLen v) zeroHash = local_hash v"
proof (rule nth_equalityI)
  show "length (take (hashLen v) (local_hash v) @ drop (hashLen v) zeroHash) = length (local_hash v)"
    using hashLen_le [of v] assms by (simp add: zeroHash_def)
  fix j assume j: "j < length (take (hashLen v) (local_hash v) @ drop (hashLen v) zeroHash)"
  then have "j < 28" using hashLen_le [of v] assms by (simp add: zeroHash_def)
  then show "(take (hashLen v) (local_hash v) @ drop (hashLen v) zeroHash) ! j = local_hash v ! j"
    using hashLen_le [of v] assms hashLenFrom_zeros [of "local_hash v" 28 j]
    by (auto simp: nth_append hashLen_def zeroHash_def)
qed

lemma go_copy_fits: "length src \<le> length dst \<Longrightarrow> go_copy dst src = (src @ drop (length src) dst, length src)"
  by (simp add: go_copy_def Let_def)

lemma go_copy_short: "length src > length dst \<Longrightarrow> snd (go_copy dst src) = length dst"
  by (simp add: go_copy_def Let_def)

lemma take_NumberBytes [simp]: "take 4 (NumberBytes w @ xs) = NumberBytes w" "drop 4 (NumberBytes w @ xs) = xs"
  by simp_all

lemma WriteWhole_fits:
  assumes "length (local_hash v) = 28" "length b \<ge> 32"
  shows "WriteWholeLocalTo v b = (NumberBytes (pulseAndScope v) @ local_hash v @ drop 32 b, 32)"
  using assms by (simp add: WriteWholeLocalTo_def pulseAndScopeToBytes_def size_consts go_copy_fits Let_def)

lemma WriteWhole_short:
  assumes "length (local_hash v) = 28" "length b < 32"
  shows "snd (WriteWholeLocalTo v b) \<noteq> 32"
  using assms by (auto simp: WriteWholeLocalTo_def pulseAndScopeToBytes_def size_consts Let_def go_copy_def split: prod.splits)

lemma header_Pulse_le: "header_Pulse h \<le> MaxTimePulse"
  by (simp add: header_Pulse_def OfUint32_def word_and_le1)

lemma pulse_cases:
  assumes "header_Pulse h \<noteq> Unknown" "\<not> hasWholeForm (header_Pulse h)"
  shows "IsSpecialOrPrivate (header_Pulse h)"
proof -
  have "header_Pulse h < MinTimePulse" using assms(2) header_Pulse_le [of h]
    by (auto simp: hasWholeForm_def IsTimePulse_word not_le)
  then show ?thesis using assms(1) by (auto simp: IsSpecialOrPrivate_def pulse_consts word_gt_0)
qed

lemma length_localForm: "length (local_hash v) = 28 \<Longrightarrow> 4 \<le> length (localForm v) \<and> length (localForm v) \<le> 32"
  using hashLen_le [of v] by (simp add: localForm_def)

text \<open>Reading back what was written.\<close>

lemma UnmarshalLocal_form:
  assumes "wf_local v" "\<not> local_IsEmpty v"
  shows "UnmarshalLocal (localForm v) = Inr v"
proof -
  have len: "length (local_hash v) = 28" and p: "header_Pulse (pulseAndScope v) \<noteq> Unknown"
    using assms by (auto simp: wf_local_def local_IsEmpty_def GetPulseNumber_def split: if_splits)
  note hb = header_bytes [of "pulseAndScope v"]
  show ?thesis
  proof (cases "hasWholeForm (GetPulseNumber v)")
    case True
    then show ?thesis using len hb [of "local_hash v"]
      by (simp add: UnmarshalLocal_def localForm_def size_consts Let_def GetPulseNumber_def go_copy_fits zeroHash_def)
  next
    case False
    let ?t = "take (hashLen v) (local_hash v)"
    have sp: "IsSpecialOrPrivate (header_Pulse (pulseAndScope v))" using False p by (intro pulse_cases) (auto simp: GetPulseNumber_def)
    have l: "length ?t = hashLen v" "hashLen v \<le> 28" using hashLen_le [of v] len by simp_all
    have last: "(NumberBytes (pulseAndScope v) @ ?t) ! (3 + hashLen v) \<noteq> 0" if "hashLen v > 0"
    proof -
      have "(NumberBytes (pulseAndScope v) @ ?t) ! (3 + hashLen v) = ?t ! (hashLen v - 1)" using that l by (simp add: nth_append)
      then show ?thesis using that hashLenFrom_last [of "local_hash v" "length (local_hash v)"] by (simp add: hashLen_def)
    qed
    have copied: "fst (go_copy zeroHash ?t) = local_hash v"
      using l hash_trim [OF len] by (simp add: go_copy_fits zeroHash_def)
    show ?thesis using False sp l last hb [of ?t] copied
      by (auto simp: UnmarshalLocal_def localForm_def size_consts Let_def GetPulseNumber_def)
  qed
qed

lemma UnmarshalGlobal_form:
  assumes wf: "wf_global g"
  shows "UnmarshalGlobal (globalForm g) = Ok (Inr g)"
proof (cases "local_IsEmpty (addressBase g)")
  case True
  show ?thesis
  proof (cases "local_IsEmpty (addressLocal g)")
    case True
    with \<open>local_IsEmpty (addressBase g)\<close> wf show ?thesis
      by (simp add: wf_global_def globalForm_def UnmarshalGlobal_def global_IsEmpty_def)
  next
    case False
    have b: "addressBase g = zeroLocal" using True wf by (auto simp: wf_global_def wf_local_def local_IsEmpty_def)
    have z: "UnmarshalLocal [0, 0, 0, 0] = Inr zeroLocal"
      by (simp add: UnmarshalLocal_def size_consts Let_def pulseAndScopeFromBytes_def header_Pulse_def OfUint32_def hasWholeForm_def
          IsSpecialOrPrivate_def IsUnknown_def pulse_consts zeroLocal_def)
    have l: "length (local_hash (addressLocal g)) = 28" using wf by (simp add: wf_global_def)
    show ?thesis using True False l z b header_bytes [of "pulseAndScope (addressLocal g)" "local_hash (addressLocal g)"]
      by (simp add: globalForm_def UnmarshalGlobal_def size_consts Let_def ReadWholeLocalFrom_def go_copy_fits zeroHash_def)
  qed
next
  case False
  have w: "wf_local (addressBase g)" and l: "length (local_hash (addressLocal g)) = 28" "length (local_hash (addressBase g)) = 28"
    using wf by (simp_all add: wf_global_def wf_local_def)
  note f = length_localForm [OF l(2)] and u = UnmarshalLocal_form [OF w False]
  show ?thesis
  proof (cases "addressBase g = addressLocal g")
    case True
    then show ?thesis using False f u by (auto simp: globalForm_def UnmarshalGlobal_def size_consts Let_def)
  next
    case False
    then show ?thesis using \<open>\<not> local_IsEmpty (addressBase g)\<close> f u l
      header_bytes [of "pulseAndScope (addressLocal g)" "local_hash (addressLocal g)"]
      by (auto simp: globalForm_def UnmarshalGlobal_def size_consts Let_def ReadWholeLocalFrom_def go_copy_fits zeroHash_def)
  qed
qed

text \<open>Writing: each function stores the bytes of the form where it should, or reports a short buffer.\<close>

lemma MarshalLocalTo_form:
  assumes "wf_local v" "\<not> local_IsEmpty v"
  shows "length b \<ge> length (localForm v) \<Longrightarrow> MarshalLocalTo (Some v) b = (localForm v @ drop (length (localForm v)) b, Inr (length (localForm v)))"
    and "length b < length (localForm v) \<Longrightarrow> snd (MarshalLocalTo (Some v) b) = Inl ErrShortBuffer"
proof -
  have len: "length (local_hash v) = 28" and p: "GetPulseNumber v \<noteq> Unknown"
    using assms by (auto simp: wf_local_def local_IsEmpty_def split: if_splits)
  have hl: "hashLen v \<le> 28" using hashLen_le [of v] len by simp
  show "MarshalLocalTo (Some v) b = (localForm v @ drop (length (localForm v)) b, Inr (length (localForm v)))" if "length b \<ge> length (localForm v)"
    using that assms(2) p len hl
    by (cases "hasWholeForm (GetPulseNumber v)")
      (simp_all add: MarshalLocalTo_def IsUnknown_def localForm_def Let_def size_consts WriteWhole_fits pulseAndScopeToBytes_def go_copy_fits add.commute)
  show "snd (MarshalLocalTo (Some v) b) = Inl ErrShortBuffer" if "length b < length (localForm v)"
  proof (cases "hasWholeForm (GetPulseNumber v) \<or> length b < 4")
    case True
    then show ?thesis using that assms(2) p len
      by (auto simp: MarshalLocalTo_def IsUnknown_def localForm_def Let_def size_consts split: if_splits)
  next
    case False
    define r where "r = go_copy (drop 4 b) (take (hashLen v) (local_hash v))"
    have "length (take (hashLen v) (local_hash v)) > length (drop 4 b)" using False that len hl by (auto simp: localForm_def)
    then have "snd r = length b - 4" using go_copy_short [of "drop 4 b"] by (simp add: r_def)
    then show ?thesis using False that assms(2) p len hl
      by (simp add: MarshalLocalTo_def IsUnknown_def localForm_def Let_def size_consts pulseAndScopeToBytes_def flip: r_def split: prod.splits) auto
  qed
qed

lemma MarshalLocalToSizedBuffer_form:
  assumes "wf_local v" "\<not> local_IsEmpty v"
  shows "MarshalLocalToSizedBuffer (Some v) b =
    (if length b \<ge> length (localForm v) then (take (length b - length (localForm v)) b @ localForm v, Inr (length (localForm v)))
     else (b, Inl ErrShortBuffer))"
proof -
  have len: "length (local_hash v) = 28" and p: "GetPulseNumber v \<noteq> Unknown"
    using assms by (auto simp: wf_local_def local_IsEmpty_def split: if_splits)
  have hl: "hashLen v \<le> 28" using hashLen_le [of v] len by simp
  then show ?thesis using assms(2) p len
    by (auto simp: MarshalLocalToSizedBuffer_def IsUnknown_def localForm_def Let_def size_consts WriteWhole_fits pulseAndScopeToBytes_def go_copy_fits add.commute)
qed

lemma BinarySizeLocal_form: "wf_local v \<Longrightarrow> \<not> local_IsEmpty v \<Longrightarrow> BinarySizeLocal (Some v) = length (localForm v)"
  using hashLen_le [of v]
  by (auto simp: BinarySizeLocal_def wf_local_def local_IsEmpty_def IsUnknown_def localForm_def Let_def size_consts split: if_splits)

lemma marshal_parts_form:
  assumes "length (local_hash loc) = 28" "wf_local base"
  defines "form \<equiv> NumberBytes (pulseAndScope loc) @ local_hash loc @ (if local_IsEmpty base then [0, 0, 0, 0] else localForm base)"
  shows "length b \<ge> length form \<Longrightarrow> marshal_parts base loc b = (form @ drop (length form) b, Inr (length form))"
    and "length b < length form \<Longrightarrow> snd (marshal_parts base loc b) = Inl ErrShortBuffer"
proof -
  have z: "replicate 4 0 = [0, 0, 0, 0 :: u8]" by (simp add: numeral_eq_Suc)
  have lb: "\<not> local_IsEmpty base \<Longrightarrow> 4 \<le> length (localForm base)" using assms(2) length_localForm [of base] by (simp add: wf_local_def)
  show "marshal_parts base loc b = (form @ drop (length form) b, Inr (length form))" if b: "length b \<ge> length form"
  proof (cases "local_IsEmpty base")
    case True
    then show ?thesis using b assms(1) by (simp add: marshal_parts_def form_def WriteWhole_fits size_consts go_copy_fits z)
  next
    case False
    have "length (drop 32 b) \<ge> length (localForm base)" using b assms(1) False by (simp add: form_def)
    from MarshalLocalTo_form(1) [OF assms(2) False this] show ?thesis
      using b assms(1) False by (simp add: marshal_parts_def form_def WriteWhole_fits size_consts add.commute)
  qed
  show "snd (marshal_parts base loc b) = Inl ErrShortBuffer" if b: "length b < length form"
  proof (cases "length b < 32")
    case True
    then show ?thesis using WriteWhole_short [OF assms(1) True] by (cases "WriteWholeLocalTo loc b") (simp add: marshal_parts_def size_consts)
  next
    case False
    then have ww: "WriteWholeLocalTo loc b = (NumberBytes (pulseAndScope loc) @ local_hash loc @ drop 32 b, 32)"
      using assms(1) by (intro WriteWhole_fits) auto
    show ?thesis
    proof (cases "local_IsEmpty base")
      case True
      then show ?thesis using b False assms(1) ww by (simp add: marshal_parts_def form_def size_consts)
    next
      case ne: False
      have "length (drop 32 b) < length (localForm base)" using b assms(1) ne False by (simp add: form_def)
      from MarshalLocalTo_form(2) [OF assms(2) ne this] show ?thesis
        using ww ne assms(1) by (cases "MarshalLocalTo (Some base) (drop 32 b)") (simp add: marshal_parts_def size_consts)
    qed
  qed
qed

lemma globalForm_parts:
  assumes "wf_global g" "\<not> (local_IsEmpty (addressBase g) \<and> local_IsEmpty (addressLocal g))" "local_IsEmpty (addressBase g) \<or> addressBase g \<noteq> addressLocal g"
  shows "length b \<ge> length (globalForm g) \<Longrightarrow> marshal_parts (addressBase g) (addressLocal g) b = (globalForm g @ drop (length (globalForm g)) b, Inr (length (globalForm g)))"
    and "length b < length (globalForm g) \<Longrightarrow> snd (marshal_parts (addressBase g) (addressLocal g) b) = Inl ErrShortBuffer"
proof -
  have f: "globalForm g = NumberBytes (pulseAndScope (addressLocal g)) @ local_hash (addressLocal g) @
      (if local_IsEmpty (addressBase g) then [0, 0, 0, 0] else localForm (addressBase g))"
    using assms(2,3) by (auto simp: globalForm_def)
  have w: "length (local_hash (addressLocal g)) = 28" "wf_local (addressBase g)" using assms(1) by (simp_all add: wf_global_def)
  show "length b \<ge> length (globalForm g) \<Longrightarrow> marshal_parts (addressBase g) (addressLocal g) b = (globalForm g @ drop (length (globalForm g)) b, Inr (length (globalForm g)))"
    "length b < length (globalForm g) \<Longrightarrow> snd (marshal_parts (addressBase g) (addressLocal g) b) = Inl ErrShortBuffer"
    unfolding f using marshal_parts_form [OF w, of b] by blast+
qed

lemma length_globalForm: "wf_global g \<Longrightarrow> length (globalForm g) \<le> 64"
  using length_localForm [of "addressBase g"] by (auto simp: globalForm_def wf_global_def wf_local_def)

lemma Marshal_form:
  assumes wf: "wf_global g" shows "Marshal (Some g) = Ok (Inr (globalForm g))"
proof -
  consider "local_IsEmpty (addressBase g)" "local_IsEmpty (addressLocal g)" | "local_IsEmpty (addressBase g)" "\<not> local_IsEmpty (addressLocal g)"
    | "\<not> local_IsEmpty (addressBase g)" "addressBase g = addressLocal g" | "\<not> local_IsEmpty (addressBase g)" "addressBase g \<noteq> addressLocal g" by blast
  then show ?thesis
  proof cases
    case 2
    have "drop 32 (replicate 36 0) = [0, 0, 0, 0 :: u8]" by (simp add: numeral_eq_Suc)
    then show ?thesis using 2 wf WriteWhole_fits [of "addressLocal g" "replicate 36 0"]
      by (simp add: Marshal_def globalForm_def size_consts wf_global_def Let_def)
  next
    case 3
    have w: "wf_local (addressBase g)" using wf by (simp add: wf_global_def)
    then have "length (localForm (addressBase g)) \<le> length (replicate 32 (0 :: u8))" using length_localForm [of "addressBase g"] by (simp add: wf_local_def)
    from MarshalLocalTo_form(1) [OF w 3(1) this] show ?thesis using 3 by (simp add: Marshal_def MarshalLocal_def globalForm_def size_consts)
  next
    case 4
    have "length (globalForm g) \<le> length (replicate 64 (0 :: u8))" using length_globalForm [OF wf] by simp
    from globalForm_parts(1) [OF wf _ _ this] 4 show ?thesis by (simp add: Marshal_def size_consts)
  qed (simp add: Marshal_def globalForm_def)
qed

lemma BinarySize_form: "wf_global g \<Longrightarrow> BinarySize (Some g) = length (globalForm g)"
  using BinarySizeLocal_form [of "addressBase g"] by (auto simp: BinarySize_def globalForm_def wf_global_def size_consts Let_def)

lemma MarshalTo_form:
  assumes "wf_global g"
  shows "length b \<ge> length (globalForm g) \<Longrightarrow> MarshalTo (Some g) b = (globalForm g @ drop (length (globalForm g)) b, Inr (length (globalForm g)))"
    and "length b < length (globalForm g) \<Longrightarrow> snd (MarshalTo (Some g) b) = Inl ErrShortBuffer"
proof -
  have w: "wf_local (addressBase g)" using assms by (simp add: wf_global_def)
  show "MarshalTo (Some g) b = (globalForm g @ drop (length (globalForm g)) b, Inr (length (globalForm g)))" if "length b \<ge> length (globalForm g)"
    using globalForm_parts(1) [OF assms, of b] MarshalLocalTo_form(1) [OF w, of b] that by (auto simp: MarshalTo_def Let_def globalForm_def)
  show "snd (MarshalTo (Some g) b) = Inl ErrShortBuffer" if "length b < length (globalForm g)"
    using globalForm_parts(2) [OF assms, of b] MarshalLocalTo_form(2) [OF w, of b] that by (auto simp: MarshalTo_def Let_def globalForm_def)
qed

lemma MarshalToSizedBuffer_form:
  assumes wf: "wf_global g"
  shows "MarshalToSizedBuffer (Some g) b =
    (if length b \<ge> length (globalForm g) then Ok (take (length b - length (globalForm g)) b @ globalForm g, Inr (length (globalForm g)))
     else if local_IsEmpty (addressBase g) then Panic ''slice bounds out of range''
     else MarshalToSizedBuffer (Some g) b) \<and>
   (length b < length (globalForm g) \<and> \<not> local_IsEmpty (addressBase g) \<longrightarrow> (\<exists>b'. MarshalToSizedBuffer (Some g) b = Ok (b', Inl ErrShortBuffer)))"
proof -
  have w: "wf_local (addressBase g)" and l: "length (local_hash (addressLocal g)) = 28" using wf by (simp_all add: wf_global_def)
  let ?F = "globalForm g" and ?B = "localForm (addressBase g)"
  consider "local_IsEmpty (addressBase g)" "local_IsEmpty (addressLocal g)" | "local_IsEmpty (addressBase g)" "\<not> local_IsEmpty (addressLocal g)"
    | "\<not> local_IsEmpty (addressBase g)" "addressBase g = addressLocal g" | "\<not> local_IsEmpty (addressBase g)" "addressBase g \<noteq> addressLocal g" by blast
  then show ?thesis
  proof cases
    case 1
    then show ?thesis by (simp add: MarshalToSizedBuffer_def globalForm_def)
  next
    case 2
    then have f: "length ?F = 36" using l by (simp add: globalForm_def)
    have "length (drop (length b - 36) b) = 36" if "length b \<ge> 36" using that by simp
    then have "marshal_parts (addressBase g) (addressLocal g) (drop (length b - 36) b) = (?F, Inr 36)" if "length b \<ge> 36"
      using globalForm_parts(1) [OF wf, of "drop (length b - 36) b"] 2 that f by simp
    then show ?thesis using 2 f by (simp add: MarshalToSizedBuffer_def size_consts Let_def)
  next
    case 3
    then show ?thesis using MarshalLocalToSizedBuffer_form [OF w 3(1), of b] by (auto simp: MarshalToSizedBuffer_def globalForm_def Let_def)
  next
    case 4
    have f: "?F = NumberBytes (pulseAndScope (addressLocal g)) @ local_hash (addressLocal g) @ ?B" "length ?F = 32 + length ?B"
      using 4 l by (simp_all add: globalForm_def)
    note m = MarshalLocalToSizedBuffer_form [OF w 4(1), of b]
    show ?thesis
    proof (cases "length b \<ge> length ?F")
      case True
      define b1 where "b1 = take (length b - length ?B) b @ ?B"
      define k where "k = length b - length ?F"
      have b1: "length b1 = length b" "length b1 - (length ?B + 32) = k" "take k b1 = take k b" "drop 32 (drop k b1) = ?B" "length (drop k b1) \<ge> 32"
        using True f(2) by (simp_all add: b1_def k_def)
      have "MarshalLocalToSizedBuffer (Some (addressBase g)) b = (b1, Inr (length ?B))" using m True f(2) by (simp add: b1_def)
      moreover have "fst (WriteWholeLocalTo (addressLocal g) (drop k b1)) = ?F" using WriteWhole_fits [OF l b1(5)] b1(4) f(1) by simp
      ultimately have "MarshalToSizedBuffer (Some g) b = Ok (take k b @ ?F, Inr (length ?F))"
        using 4 True b1 f(2) by (simp add: MarshalToSizedBuffer_def size_consts)
      then show ?thesis using True by (simp add: k_def)
    next
      case False
      then show ?thesis using 4 m f by (auto simp: MarshalToSizedBuffer_def size_consts Let_def)
    qed
  qed
qed

text \<open>
  C9: the binary form of a reference loses nothing.  Every well-formed reference is marshalled without an
  error or a panic into as many bytes as \<^verbatim>\<open>BinarySize\<close> announces, at most 64, and unmarshalling these bytes gives
  the reference back: a record reference with its empty base, a self reference in its compact form, trailing
  zeros of the hash of a special pulse, which are not stored, included.
\<close>
theorem reference_roundtrip:
  assumes "wf_global g"
  shows "\<exists>bs. Marshal (Some g) = Ok (Inr bs) \<and> length bs = BinarySize (Some g) \<and> length bs \<le> GlobalBinarySize \<and>
    UnmarshalGlobal bs = Ok (Inr g)"
  using Marshal_form [OF assms] BinarySize_form [OF assms] length_globalForm [OF assms] UnmarshalGlobal_form [OF assms]
  by (simp add: size_consts)

definition ref_sample :: Global where
  "ref_sample = \<lparr>addressLocal = \<lparr>pulseAndScope = 70000, local_hash = replicate 28 7\<rparr>, addressBase = \<lparr>pulseAndScope = 300, local_hash = 5 # replicate 27 0\<rparr>\<rparr>"

lemma ref_sample_wf: "wf_global ref_sample"
  by (simp add: wf_global_def wf_local_def ref_sample_def global_IsEmpty_def local_IsEmpty_def GetPulseNumber_def header_Pulse_def OfUint32_def pulse_consts)

theorem reference_roundtrip_witness:
  "\<exists>bs. Marshal (Some ref_sample) = Ok (Inr bs) \<and> length bs = 37 \<and> UnmarshalGlobal bs = Ok (Inr ref_sample)"
proof -
  have "BinarySize (Some ref_sample) = 37" by code_simp
  then show ?thesis using reference_roundtrip [OF ref_sample_wf] by auto
qed

text \<open>
  C39: the three ways to marshal a reference agree.  For every buffer that is large enough \<^verbatim>\<open>MarshalTo\<close> puts the bytes of
  \<^verbatim>\<open>Marshal\<close> at its begin and \<^verbatim>\<open>MarshalToSizedBuffer\<close> at its end, both keep the rest of the buffer and return the
  number of bytes.  For a smaller buffer \<^verbatim>\<open>MarshalTo\<close> reports a short buffer; \<^verbatim>\<open>MarshalToSizedBuffer\<close> does so too unless the
  reference has no base, in which case it panics.
\<close>
theorem marshal_variants_agree:
  assumes "wf_global g" "Marshal (Some g) = Ok (Inr bs)"
  shows "(length bs \<le> length b \<longrightarrow>
      MarshalTo (Some g) b = (bs @ drop (length bs) b, Inr (length bs)) \<and>
      MarshalToSizedBuffer (Some g) b = Ok (take (length b - length bs) b @ bs, Inr (length bs))) \<and>
    (length b < length bs \<longrightarrow>
      snd (MarshalTo (Some g) b) = Inl ErrShortBuffer \<and>
      (if local_IsEmpty (addressBase g) then MarshalToSizedBuffer (Some g) b = Panic ''slice bounds out of range''
       else \<exists>b'. MarshalToSizedBuffer (Some g) b = Ok (b', Inl ErrShortBuffer)))"
proof -
  have bs: "bs = globalForm g" using assms(2) Marshal_form [OF assms(1)] by simp
  show ?thesis unfolding bs using MarshalTo_form [OF assms(1), of b] MarshalToSizedBuffer_form [OF assms(1), of b]
    by (auto split: if_splits)
qed

theorem marshal_variants_agree_witness:
  "\<exists>bs. Marshal (Some ref_sample) = Ok (Inr bs) \<and> MarshalToSizedBuffer (Some ref_sample) (replicate 40 1) = Ok (replicate 3 1 @ bs, Inr 37)"
proof -
  have "BinarySize (Some ref_sample) = 37" by code_simp
  then obtain bs where bs: "Marshal (Some ref_sample) = Ok (Inr bs)" "length bs = 37"
    using Marshal_form [OF ref_sample_wf] BinarySize_form [OF ref_sample_wf] by auto
  then show ?thesis using marshal_variants_agree [OF ref_sample_wf bs(1), of "replicate 40 1"] by (auto simp: min_def)
qed

subsection \<open>The comparison is a total order\<close>

text \<open>The contract of a Go comparison: the sign of the result orders the values.\<close>

locale three_way =
  fixes cmp :: "'a \<Rightarrow> 'a \<Rightarrow> int"
  assumes cmp_eq: "cmp a b = 0 \<longleftrightarrow> a = b"
    and cmp_anti: "cmp b a = - cmp a b"
    and cmp_trans: "cmp a b \<le> 0 \<Longrightarrow> cmp b c \<le> 0 \<Longrightarrow> cmp a c \<le> 0"
begin

lemma cmp_strict: "cmp a b \<le> 0 \<Longrightarrow> cmp b c \<le> 0 \<Longrightarrow> cmp a b < 0 \<or> cmp b c < 0 \<Longrightarrow> cmp a c < 0"
  using cmp_trans [of a b c] cmp_trans [of b c a] cmp_trans [of c a b] cmp_anti [of a c] cmp_anti [of b c] cmp_anti [of a b] cmp_eq
  by (metis cmp_anti dual_order.order_iff_strict neg_0_le_iff_le not_less)

end

text \<open>Two comparisons in sequence, the second one decides when the first finds its parts equal.\<close>

definition lexCompare :: "('a \<Rightarrow> 'b) \<Rightarrow> ('b \<Rightarrow> 'b \<Rightarrow> int) \<Rightarrow> ('a \<Rightarrow> 'c) \<Rightarrow> ('c \<Rightarrow> 'c \<Rightarrow> int) \<Rightarrow> 'a \<Rightarrow> 'a \<Rightarrow> int" where
  "lexCompare f ca g cb x y = (let c = ca (f x) (f y) in if c \<noteq> 0 then c else cb (g x) (g y))"

locale three_way_pair = left: three_way ca + right: three_way cb
  for ca :: "'b \<Rightarrow> 'b \<Rightarrow> int" and cb :: "'c \<Rightarrow> 'c \<Rightarrow> int" +
  fixes f :: "'a \<Rightarrow> 'b" and g :: "'a \<Rightarrow> 'c"
  assumes parts: "f x = f y \<Longrightarrow> g x = g y \<Longrightarrow> x = y"

sublocale three_way_pair \<subseteq> pair: three_way "lexCompare f ca g cb"
proof
  show "lexCompare f ca g cb a b = 0 \<longleftrightarrow> a = b" for a b
    using left.cmp_eq right.cmp_eq parts by (auto simp: lexCompare_def Let_def)
  show "lexCompare f ca g cb b a = - lexCompare f ca g cb a b" for a b
    using left.cmp_anti [of "f b" "f a"] right.cmp_anti [of "g b" "g a"] by (simp add: lexCompare_def Let_def)
  show "lexCompare f ca g cb a c \<le> 0" if "lexCompare f ca g cb a b \<le> 0" "lexCompare f ca g cb b c \<le> 0" for a b c
  proof (cases "ca (f a) (f b) = 0 \<and> ca (f b) (f c) = 0")
    case True
    then have "f a = f b" "f b = f c" using left.cmp_eq by blast+
    then show ?thesis using that True right.cmp_trans [of "g a" "g b" "g c"] left.cmp_eq by (simp add: lexCompare_def Let_def)
  next
    case False
    have "ca (f a) (f b) \<le> 0" "ca (f b) (f c) \<le> 0" using that by (auto simp: lexCompare_def Let_def split: if_splits)
    then have "ca (f a) (f c) < 0" using False left.cmp_strict [of "f a" "f b" "f c"] by auto
    then show ?thesis by (simp add: lexCompare_def Let_def)
  qed
qed

lemma bytesCompare_eq: "bytesCompare a b = 0 \<longleftrightarrow> a = b"
  by (induction a b rule: bytesCompare.induct) auto

lemma bytesCompare_anti: "bytesCompare b a = - bytesCompare a b"
  by (induction a b rule: bytesCompare.induct) auto

lemma bytesCompare_Nil: "bytesCompare [] c \<le> 0"
  by (cases c) auto

lemma bytesCompare_trans: "bytesCompare a b \<le> 0 \<Longrightarrow> bytesCompare b c \<le> 0 \<Longrightarrow> bytesCompare a c \<le> 0"
proof (induction a b arbitrary: c rule: bytesCompare.induct)
  case (4 x xs y ys)
  then show ?case by (cases c) (auto split: if_splits)
qed (auto simp: bytesCompare_Nil)

definition headerCompare :: "LocalHeader \<Rightarrow> LocalHeader \<Rightarrow> int" where
  "headerCompare a b = (if a < b then - 1 else if a > b then 1 else 0)"

interpretation bytes_order: three_way bytesCompare
  by unfold_locales (rule bytesCompare_eq, rule bytesCompare_anti, rule bytesCompare_trans)

interpretation local_order: three_way_pair headerCompare bytesCompare "pulseAndScope :: Local \<Rightarrow> LocalHeader" local_hash
  by unfold_locales (auto simp: headerCompare_def split: if_splits)

lemma local_Compare_lex: "local_Compare = lexCompare pulseAndScope headerCompare local_hash bytesCompare"
  by (auto simp: fun_eq_iff local_Compare_def lexCompare_def headerCompare_def Let_def)

interpretation global_order: three_way_pair local_Compare local_Compare "addressBase :: Global \<Rightarrow> Local" addressLocal
  unfolding local_Compare_lex by unfold_locales simp_all

lemma global_Compare_lex: "global_Compare (Some a) (Some b) = lexCompare addressBase local_Compare addressLocal local_Compare a b"
  by (simp add: global_Compare_def lexCompare_def)

text \<open>
  Comparing references is a total order that agrees with their equality, where no reference at all is the
  least: the result is 0 exactly for equal references, swapping the arguments negates it, and it is
  transitive.
\<close>
theorem references_totally_ordered:
  "(global_Compare a b = 0 \<longleftrightarrow> global_Equal a b) \<and> (global_Equal a b \<longleftrightarrow> a = b) \<and> global_Compare b a = - global_Compare a b \<and>
   (global_Compare a b \<le> 0 \<and> global_Compare b c \<le> 0 \<longrightarrow> global_Compare a c \<le> 0)"
proof -
  have e: "global_Equal a b \<longleftrightarrow> a = b" by (auto simp: global_Equal_def split: option.splits)
  note o = global_order.pair.cmp_eq global_order.pair.cmp_anti global_order.pair.cmp_trans
  have n: "global_Compare None None = 0" "global_Compare None (Some x) = - 1" "global_Compare (Some x) None = 1" for x
    by (simp_all add: global_Compare_def)
  have "global_Compare a b = 0 \<longleftrightarrow> a = b" by (cases a; cases b) (simp_all add: n global_Compare_lex o(1))
  moreover have "global_Compare b a = - global_Compare a b" by (cases a; cases b) (simp_all add: n global_Compare_lex o(2) [symmetric])
  moreover have "global_Compare a b \<le> 0 \<and> global_Compare b c \<le> 0 \<longrightarrow> global_Compare a c \<le> 0"
    by (cases a; cases b; cases c) (auto simp: n global_Compare_lex intro: o(3))
  ultimately show ?thesis using e by blast
qed

theorem references_totally_ordered_witness:
  "global_Compare (Some zeroGlobal) (Some ref_sample) \<le> 0 \<and> global_Compare None (Some ref_sample) \<le> 0"
proof -
  have "global_Compare None (Some zeroGlobal) \<le> 0 \<and> global_Compare (Some zeroGlobal) (Some ref_sample) \<le> 0" by code_simp
  then show ?thesis using references_totally_ordered [of None "Some zeroGlobal" "Some ref_sample"] by blast
qed

subsection \<open>Templates\<close>

record Template =
  tpl_base :: Local
  tpl_local :: LocalHeader

definition selfRefTemplate :: Number where "selfRefTemplate = 1"

definition NewSelfRefTemplateExt :: "Number \<Rightarrow> Scope \<Rightarrow> Template res" where
  "NewSelfRefTemplateExt pn scope =
     (if \<not> IsSpecialOrTimePulse pn then Panic ''IllegalValue''
      else bnd (NewLocalHeader pn (scope_SubScope scope)) (\<lambda>l.
        bnd (NewLocalHeader selfRefTemplate (scope_SuperScope scope)) (\<lambda>b.
          Ok \<lparr>tpl_base = zeroLocal\<lparr>pulseAndScope := b\<rparr>, tpl_local = l\<rparr>)))"

definition NewSelfRefTemplate :: "Number \<Rightarrow> u8 \<Rightarrow> Template res" where
  "NewSelfRefTemplate pn scope = NewSelfRefTemplateExt pn (selfScope_Scope scope)"

definition NewRecordRefTemplate :: "Number \<Rightarrow> Template res" where
  "NewRecordRefTemplate pn =
     (if \<not> IsSpecialOrTimePulse pn then Panic ''IllegalValue''
      else bnd (NewLocalHeader pn 0) (\<lambda>l. Ok \<lparr>tpl_base = zeroLocal, tpl_local = l\<rparr>))"

definition NewRefTemplateExt :: "Local \<Rightarrow> LocalHeader \<Rightarrow> Template res" where
  "NewRefTemplateExt base loc =
     (if \<not> IsSpecialOrTimePulse (header_Pulse loc) then Panic ''IllegalValue''
      else if \<not> IsSpecialOrTimePulse (GetPulseNumber base) then Panic ''IllegalValue''
      else Ok \<lparr>tpl_base = base, tpl_local = loc\<rparr>)"

definition NewRefTemplate :: "Global \<Rightarrow> Number \<Rightarrow> Template res" where
  "NewRefTemplate template pn =
     (if \<not> IsSpecialOrTimePulse pn then Panic ''IllegalValue''
      else bnd (header_WithPulse (pulseAndScope (addressLocal template)) pn) (NewRefTemplateExt (addressBase template)))"

definition tpl_IsZero :: "Template \<Rightarrow> bool" where
  "tpl_IsZero v \<longleftrightarrow> tpl_local v = 0"

definition tpl_GetScope :: "Template \<Rightarrow> Scope" where
  "tpl_GetScope v = AsBaseOf (local_SubScope (tpl_base v)) (header_SubScope (tpl_local v))"

definition tpl_isSelfRef :: "Template \<Rightarrow> bool" where
  "tpl_isSelfRef v \<longleftrightarrow> GetPulseNumber (tpl_base v) = selfRefTemplate"

definition tpl_CanAsRecord :: "Template \<Rightarrow> bool" where
  "tpl_CanAsRecord v \<longleftrightarrow> tpl_local v \<noteq> 0 \<and> (pulseAndScope (tpl_base v) = 0 \<or> tpl_isSelfRef v)"

definition tpl_HasBase :: "Template \<Rightarrow> bool" where
  "tpl_HasBase v \<longleftrightarrow> pulseAndScope (tpl_base v) \<noteq> 0"

definition tpl_LocalHeader :: "Template \<Rightarrow> LocalHeader res" where
  "tpl_LocalHeader v = (if tpl_local v = 0 then Panic ''IllegalState'' else Ok (tpl_local v))"

definition tpl_WithHashAsSelf :: "Template \<Rightarrow> u8 list \<Rightarrow> Global res" where
  "tpl_WithHashAsSelf v h =
     (if tpl_local v = 0 then Panic ''IllegalState''
      else if pulseAndScope (tpl_base v) = 0 then Panic ''IllegalState''
      else bnd (header_WithSubScope (tpl_local v) (local_SubScope (tpl_base v))) (\<lambda>b.
        Ok \<lparr>addressLocal = \<lparr>pulseAndScope = tpl_local v, local_hash = h\<rparr>, addressBase = \<lparr>pulseAndScope = b, local_hash = h\<rparr>\<rparr>))"

definition tpl_WithHash :: "Template \<Rightarrow> u8 list \<Rightarrow> Global res" where
  "tpl_WithHash v h =
     (if tpl_local v = 0 then Panic ''IllegalState''
      else if pulseAndScope (tpl_base v) = 0 then Panic ''IllegalState''
      else if tpl_isSelfRef v then
        bnd (header_WithSubScope (tpl_local v) (local_SubScope (tpl_base v))) (\<lambda>b.
          Ok \<lparr>addressLocal = \<lparr>pulseAndScope = tpl_local v, local_hash = h\<rparr>, addressBase = \<lparr>pulseAndScope = b, local_hash = h\<rparr>\<rparr>)
      else Ok \<lparr>addressLocal = \<lparr>pulseAndScope = tpl_local v, local_hash = h\<rparr>, addressBase = tpl_base v\<rparr>)"

definition tpl_WithHashAsRecord :: "Template \<Rightarrow> u8 list \<Rightarrow> Local res" where
  "tpl_WithHashAsRecord v h =
     (if tpl_local v = 0 then Panic ''IllegalState''
      else if pulseAndScope (tpl_base v) \<noteq> 0 \<and> \<not> tpl_isSelfRef v then Panic ''IllegalState''
      else Ok \<lparr>pulseAndScope = tpl_local v, local_hash = h\<rparr>)"

record MutableTemplate =
  mt_base :: Local
  mt_local :: Local
  hasHash :: bool

definition AsMutable :: "Template \<Rightarrow> MutableTemplate res" where
  "AsMutable v =
     (if tpl_IsZero v then Panic ''IllegalValue''
      else Ok \<lparr>mt_base = tpl_base v, mt_local = zeroLocal\<lparr>pulseAndScope := tpl_local v\<rparr>, hasHash = False\<rparr>)"

definition mt_isSelfRef :: "MutableTemplate \<Rightarrow> bool" where
  "mt_isSelfRef p \<longleftrightarrow> GetPulseNumber (mt_base p) = selfRefTemplate"

definition mt_GetScope :: "MutableTemplate \<Rightarrow> Scope" where
  "mt_GetScope p = AsBaseOf (local_SubScope (mt_base p)) (local_SubScope (mt_local p))"

definition mt_GetLocal :: "MutableTemplate \<Rightarrow> Local res" where
  "mt_GetLocal p = (if \<not> hasHash p then Panic ''IllegalState'' else Ok (mt_local p))"

definition mt_GetBase :: "MutableTemplate \<Rightarrow> Local res" where
  "mt_GetBase p =
     (if \<not> hasHash p then Panic ''IllegalState''
      else if pulseAndScope (mt_base p) = 0 then Ok zeroLocal
      else if \<not> mt_isSelfRef p then Ok (mt_base p)
      else if local_SubScope (mt_base p) = local_SubScope (mt_local p) then Ok (mt_local p)
      else bnd (header_WithSubScope (pulseAndScope (mt_local p)) (local_SubScope (mt_base p))) (\<lambda>b.
        Ok \<lparr>pulseAndScope = b, local_hash = local_hash (mt_local p)\<rparr>))"

definition mt_WithHash :: "MutableTemplate \<Rightarrow> u8 list \<Rightarrow> Global res" where
  "mt_WithHash p h =
     (let l = \<lparr>pulseAndScope = pulseAndScope (mt_local p), local_hash = h\<rparr> in
      if local_IsEmpty (mt_local p) then Panic ''IllegalState''
      else if pulseAndScope (mt_base p) = 0 then Panic ''IllegalState''
      else if \<not> mt_isSelfRef p then Ok \<lparr>addressLocal = l, addressBase = mt_base p\<rparr>
      else if local_SubScope (mt_base p) = local_SubScope (mt_local p) then NewSelf l
      else bnd (header_WithSubScope (pulseAndScope (mt_local p)) (local_SubScope (mt_base p))) (\<lambda>b.
        Ok \<lparr>addressLocal = l, addressBase = \<lparr>pulseAndScope = b, local_hash = h\<rparr>\<rparr>))"

definition mt_CanAsRecord :: "MutableTemplate \<Rightarrow> bool" where
  "mt_CanAsRecord p \<longleftrightarrow> pulseAndScope (mt_base p) = 0 \<or> mt_isSelfRef p"

definition mt_WithHashAsRecord :: "MutableTemplate \<Rightarrow> u8 list \<Rightarrow> Local res" where
  "mt_WithHashAsRecord p h =
     (if local_IsEmpty (mt_local p) then Panic ''IllegalState''
      else if pulseAndScope (mt_base p) \<noteq> 0 \<and> \<not> mt_isSelfRef p then Panic ''IllegalState''
      else Ok \<lparr>pulseAndScope = pulseAndScope (mt_local p), local_hash = h\<rparr>)"

definition mt_HasBase :: "MutableTemplate \<Rightarrow> bool" where
  "mt_HasBase p \<longleftrightarrow> pulseAndScope (mt_base p) \<noteq> 0"

definition SetHash :: "u8 list \<Rightarrow> MutableTemplate \<Rightarrow> MutableTemplate res" where
  "SetHash h p =
     (if local_IsEmpty (mt_local p) then Panic ''IllegalState''
      else Ok (p\<lparr>hasHash := True, mt_local := (mt_local p)\<lparr>local_hash := h\<rparr>\<rparr>))"

definition MustGlobal :: "MutableTemplate \<Rightarrow> Global res" where
  "MustGlobal p =
     (if \<not> hasHash p then Panic ''IllegalState''
      else if pulseAndScope (mt_base p) = 0 then
        if pulseAndScope (mt_local p) = 0 then Ok zeroGlobal else Panic ''IllegalState''
      else bnd (mt_GetBase p) (\<lambda>b. Ok \<lparr>addressLocal = mt_local p, addressBase = b\<rparr>))"

definition MustRecord :: "MutableTemplate \<Rightarrow> Local res" where
  "MustRecord p =
     (if \<not> hasHash p then Panic ''IllegalState'' else if \<not> mt_CanAsRecord p then Panic ''IllegalState'' else Ok (mt_local p))"

definition AsTemplate :: "MutableTemplate \<Rightarrow> Template res" where
  "AsTemplate p =
     (if local_IsEmpty (mt_local p) then Panic ''IllegalState''
      else Ok \<lparr>tpl_base = mt_base p, tpl_local = pulseAndScope (mt_local p)\<rparr>)"

definition SetZeroValue :: "MutableTemplate \<Rightarrow> MutableTemplate" where
  "SetZeroValue p = p\<lparr>mt_base := zeroLocal, mt_local := zeroLocal, hasHash := True\<rparr>"

subsection \<open>Headers come apart\<close>

lemma uint_SubScope: "uint (header_SubScope v) = FlagsOf v" "FlagsOf v \<ge> 0" "FlagsOf v < 4"
proof -
  have "unat v < 2 ^ 32" using unsigned_less [of v, where ?'a = nat] by simp
  then have "drop_bit 30 (unat v) < 4" and m: "unat v mod 4294967296 = unat v" by (simp_all add: drop_bit_eq_div div_less_iff_less_mult)
  then have a: "unat (drop_bit 30 v) < 4" by (simp only: unsigned_drop_bit_eq) (simp add: take_bit_eq_mod m)
  have f: "FlagsOf v = int (unat (drop_bit 30 v))" by (simp only: FlagsOf_def uint_nat)
  show b: "FlagsOf v \<ge> 0" "FlagsOf v < 4" unfolding f using a by linarith+
  show "uint (header_SubScope v) = FlagsOf v" using b by (simp add: header_SubScope_def uint_word_of_int)
qed

lemma WithFlags_scope: "n \<le> MaxTimePulse \<Longrightarrow> \<exists>w. WithFlags n (uint (header_SubScope s)) = Ok w"
  using uint_SubScope [of s] by (auto simp: WithFlags_def not_less)

lemma header_join: "WithFlags (header_Pulse v) (uint (header_SubScope v)) = Ok v"
proof -
  have "(v AND mask 30) OR push_bit 30 (drop_bit 30 v) = v"
  proof (rule bit_word_eqI)
    fix n assume "n < LENGTH(32)"
    then show "bit ((v AND mask 30) OR push_bit 30 (drop_bit 30 v)) n \<longleftrightarrow> bit v n"
      by (cases "n < 30") (auto simp: bit_or_iff bit_and_iff bit_mask_iff bit_push_bit_iff bit_drop_bit_eq)
  qed
  moreover have "word_of_int (FlagsOf v) = drop_bit 30 v" by (simp add: FlagsOf_def)
  ultimately show ?thesis using uint_SubScope [of v] header_Pulse_le [of v]
    by (auto simp: WithFlags_def header_Pulse_def OfUint32_def MaxTimePulse_def MaxTimePulse_mask not_less)
qed

lemma same_scope_header:
  assumes "header_SubScope a = header_SubScope v"
  shows "header_WithSubScope v (header_SubScope a) = Ok v"
  using header_join [of v] assms by (simp add: header_WithSubScope_def)

lemmas template_defs = tpl_WithHash_def tpl_WithHashAsSelf_def tpl_WithHashAsRecord_def mt_WithHash_def mt_WithHashAsRecord_def
  AsMutable_def SetHash_def MustGlobal_def MustRecord_def AsTemplate_def mt_GetBase_def tpl_isSelfRef_def mt_isSelfRef_def
  mt_CanAsRecord_def tpl_IsZero_def local_IsEmpty_def local_SubScope_def

text \<open>
  A template and the mutable template made from it build the same references.  Converting a template and
  back gives it again; setting the hash and asking for the global or the record reference gives the same
  reference, or fails in the same way, as giving the hash to the template; and so does giving the hash to
  the mutable template, except that it refuses self references of the reserved scope, which the template builds.
\<close>
theorem template_paths_agree:
  assumes "AsMutable t = Ok p" "SetHash h p = Ok p'"
  shows "AsTemplate p = Ok t \<and> AsTemplate p' = Ok t \<and>
    MustGlobal p' = tpl_WithHash t h \<and> MustRecord p' = tpl_WithHashAsRecord t h \<and>
    mt_WithHashAsRecord p h = tpl_WithHashAsRecord t h \<and>
    (mt_WithHash p h = tpl_WithHash t h \<or>
     mt_WithHash p h = Panic ''illegal value'' \<and> tpl_isSelfRef t \<and> header_SubScope (tpl_local t) = baseScopeReserved)"
proof -
  have t: "tpl_local t \<noteq> 0" and p: "p = \<lparr>mt_base = tpl_base t, mt_local = zeroLocal\<lparr>pulseAndScope := tpl_local t\<rparr>, hasHash = False\<rparr>"
    using assms(1) by (auto simp: AsMutable_def tpl_IsZero_def split: if_splits)
  have p': "p' = \<lparr>mt_base = tpl_base t, mt_local = \<lparr>pulseAndScope = tpl_local t, local_hash = h\<rparr>, hasHash = True\<rparr>"
    using assms(2) t by (auto simp: SetHash_def p local_IsEmpty_def zeroLocal_def)
  have "AsTemplate p = Ok t" "AsTemplate p' = Ok t" using t by (simp_all add: p p' AsTemplate_def local_IsEmpty_def)
  moreover have "MustGlobal p' = tpl_WithHash t h"
    using t same_scope_header [of "pulseAndScope (tpl_base t)" "tpl_local t"] by (auto simp: p' template_defs bnd_assoc)
  moreover have "MustRecord p' = tpl_WithHashAsRecord t h" "mt_WithHashAsRecord p h = tpl_WithHashAsRecord t h"
    using t by (auto simp: p p' template_defs)
  moreover have "mt_WithHash p h = tpl_WithHash t h \<or>
     mt_WithHash p h = Panic ''illegal value'' \<and> tpl_isSelfRef t \<and> header_SubScope (tpl_local t) = baseScopeReserved"
    using t same_scope_header [of "pulseAndScope (tpl_base t)" "tpl_local t"] by (auto simp: p template_defs NewSelf_def Let_def)
  ultimately show ?thesis by blast
qed

theorem template_paths_agree_witness:
  "\<exists>t p p'. NewSelfRefTemplate 70000 3 = Ok t \<and> AsMutable t = Ok p \<and> SetHash (replicate 28 9) p = Ok p' \<and>
     MustGlobal p' = tpl_WithHash t (replicate 28 9) \<and> is_ok (MustGlobal p')"
proof -
  define t where "t = (case NewSelfRefTemplate 70000 3 of Ok t \<Rightarrow> t)"
  define p where "p = (case AsMutable t of Ok p \<Rightarrow> p)"
  define p' where "p' = (case SetHash (replicate 28 9) p of Ok p \<Rightarrow> p)"
  have e: "NewSelfRefTemplate 70000 3 = Ok t" "AsMutable t = Ok p" "SetHash (replicate 28 9) p = Ok p'" "is_ok (MustGlobal p')"
    unfolding p'_def p_def t_def by code_simp+
  then show ?thesis using template_paths_agree [OF e(2,3)] by blast
qed

end
