(* ===== verification/Call_Registry.thy ===== *)
theory Call_Registry
  imports Pulse_Number "HOL-Library.AList"
begin

text \<open>
  The request tables of \<^verbatim>\<open>virtual/callregistry\<close>: working requests of the current pulse, pending requests of
  previous executors, and the results per object.  A reference is opaque here; the tables use its identity
  and, as the argument \<open>pn\<close>, its pulse number \<^verbatim>\<open>ref.GetLocal().GetPulseNumber()\<close>.  A Go map is an association
  list with distinct keys; what the code computes does not depend on the order of the list.
\<close>

subsection \<open>Activity of a list\<close>

record ('r, 'v) requestList =
  earliestActivePulse :: Number
  countActive :: int
  countFinish :: int
  requests :: "('r \<times> 'v) list"
  activity :: "(Number \<times> nat) list"

definition newRequestList :: "('r, 'v) requestList" where
  "newRequestList = \<lparr>earliestActivePulse = Unknown, countActive = 0, countFinish = 0, requests = [], activity = []\<rparr>"

definition activityOf :: "Number \<Rightarrow> ('r, 'v) requestList \<Rightarrow> nat" where
  "activityOf p rl = (case map_of (activity rl) p of None \<Rightarrow> 0 | Some n \<Rightarrow> n)"

definition listActivity :: "Number \<Rightarrow> ('r, 'v) requestList \<Rightarrow> ('r, 'v) requestList" where
  "listActivity requestPN rl =
     (let rl = rl\<lparr>countActive := countActive rl + 1, activity := AList.update requestPN (activityOf requestPN rl + 1) (activity rl)\<rparr> in
      if earliestActivePulse rl = Unknown \<or> requestPN < earliestActivePulse rl then rl\<lparr>earliestActivePulse := requestPN\<rparr> else rl)"

fun minPulse :: "(Number \<times> nat) list \<Rightarrow> Number \<Rightarrow> Number" where
  "minPulse [] mn = mn"
| "minPulse ((p, n) # ps) mn = minPulse ps (if mn = Unknown \<or> p < mn then p else mn)"

definition minActivePulse :: "('r, 'v) requestList \<Rightarrow> Number" where
  "minActivePulse rl = minPulse (activity rl) Unknown"

definition delistActivity :: "Number \<Rightarrow> ('r, 'v) requestList \<Rightarrow> ('r, 'v) requestList" where
  "delistActivity requestPN rl =
     (let rl = rl\<lparr>countActive := countActive rl - 1\<rparr>; cnt = activityOf requestPN rl in
      if cnt > 1 then rl\<lparr>activity := AList.update requestPN (cnt - 1) (activity rl)\<rparr>
      else
        let rl = rl\<lparr>activity := AList.delete requestPN (activity rl)\<rparr> in
        if requestPN = earliestActivePulse rl then rl\<lparr>earliestActivePulse := minActivePulse rl\<rparr> else rl)"

definition rl_Count :: "('r, 'v) requestList \<Rightarrow> int" where
  "rl_Count rl = int (length (requests rl))"

definition setRequest :: "'r \<Rightarrow> 'v \<Rightarrow> ('r, 'v) requestList \<Rightarrow> ('r, 'v) requestList" where
  "setRequest ref v rl = rl\<lparr>requests := AList.update ref v (requests rl)\<rparr>"

subsection \<open>Working requests\<close>

datatype WorkingRequestState = RequestUnknown | RequestStarted | RequestProcessing | RequestFinished

type_synonym 'r WorkingList = "('r, WorkingRequestState) requestList"

definition GetState :: "'r WorkingList \<Rightarrow> 'r \<Rightarrow> WorkingRequestState" where
  "GetState rl ref = (case map_of (requests rl) ref of None \<Rightarrow> RequestUnknown | Some s \<Rightarrow> s)"

definition wl_add :: "'r \<Rightarrow> 'r WorkingList \<Rightarrow> 'r WorkingList \<times> bool" where
  "wl_add ref rl =
     (if map_of (requests rl) ref \<noteq> None then (rl, False) else (setRequest ref RequestStarted rl, True))"

definition wl_setActive :: "('r \<Rightarrow> Number) \<Rightarrow> 'r \<Rightarrow> 'r WorkingList \<Rightarrow> 'r WorkingList \<times> bool" where
  "wl_setActive pn ref rl =
     (if GetState rl ref \<noteq> RequestStarted then (rl, False)
      else (listActivity (pn ref) (setRequest ref RequestProcessing rl), True))"

definition wl_finish :: "('r \<Rightarrow> Number) \<Rightarrow> 'r \<Rightarrow> 'r WorkingList \<Rightarrow> 'r WorkingList \<times> bool" where
  "wl_finish pn ref rl =
     (if GetState rl ref = RequestUnknown \<or> GetState rl ref = RequestFinished then (rl, False)
      else
        let rl = setRequest ref RequestFinished rl; rl = rl\<lparr>countFinish := countFinish rl + 1\<rparr> in
        (delistActivity (pn ref) rl, True))"

definition InterferenceFlagCount :: nat where "InterferenceFlagCount = 3"
definition CallIntolerable :: u8 where "CallIntolerable = 1"
definition CallTolerable :: u8 where "CallTolerable = 2"

text \<open>A call summary is the result of the call, nil while there is none.\<close>

record ('r, 'c) WorkingTable =
  wt_requests :: "'r WorkingList list"
  wt_results :: "('r \<times> 'c option) list"

definition NewWorkingTable :: "('r, 'c) WorkingTable" where
  "NewWorkingTable = \<lparr>wt_requests = replicate (InterferenceFlagCount - 1) newRequestList, wt_results = []\<rparr>"

definition flagIndex :: "'a list \<Rightarrow> u8 \<Rightarrow> nat res" where
  "flagIndex ls flag = (if flag > 0 \<and> unat flag \<le> length ls then Ok (unat flag - 1) else Panic ''IllegalValue'')"

definition wt_GetList :: "('r, 'c) WorkingTable \<Rightarrow> u8 \<Rightarrow> 'r WorkingList res" where
  "wt_GetList wt flag = bnd (flagIndex (wt_requests wt) flag) (\<lambda>i. Ok (wt_requests wt ! i))"

definition wt_Add :: "u8 \<Rightarrow> 'r \<Rightarrow> ('r, 'c) WorkingTable \<Rightarrow> (('r, 'c) WorkingTable \<times> bool) res" where
  "wt_Add flag ref wt =
     bnd (flagIndex (wt_requests wt) flag) (\<lambda>i. case wl_add ref (wt_requests wt ! i) of (rl, ok) \<Rightarrow>
       Ok (wt\<lparr>wt_requests := (wt_requests wt)[i := rl]\<rparr>, ok))"

definition wt_SetActive :: "('r \<Rightarrow> Number) \<Rightarrow> u8 \<Rightarrow> 'r \<Rightarrow> ('r, 'c) WorkingTable \<Rightarrow> (('r, 'c) WorkingTable \<times> bool) res" where
  "wt_SetActive pn flag ref wt =
     bnd (flagIndex (wt_requests wt) flag) (\<lambda>i. case wl_setActive pn ref (wt_requests wt ! i) of (rl, ok) \<Rightarrow>
       let wt = wt\<lparr>wt_requests := (wt_requests wt)[i := rl]\<rparr> in
       if ok then Ok (wt\<lparr>wt_results := AList.update ref None (wt_results wt)\<rparr>, True) else Ok (wt, False))"

definition wt_Finish :: "('r \<Rightarrow> Number) \<Rightarrow> u8 \<Rightarrow> 'r \<Rightarrow> 'c option \<Rightarrow> ('r, 'c) WorkingTable \<Rightarrow> (('r, 'c) WorkingTable \<times> bool) res" where
  "wt_Finish pn flag ref result wt =
     bnd (flagIndex (wt_requests wt) flag) (\<lambda>i. case wl_finish pn ref (wt_requests wt ! i) of (rl, ok) \<Rightarrow>
       let wt = wt\<lparr>wt_requests := (wt_requests wt)[i := rl]\<rparr> in
       if ok then
         if map_of (wt_results wt) ref = None then Panic ''IllegalState''
         else Ok (wt\<lparr>wt_results := AList.update ref result (wt_results wt)\<rparr>, True)
       else Ok (wt, False))"

text \<open>The loop of \<^verbatim>\<open>Len\<close> runs over \<^verbatim>\<open>requests[1:]\<close>, so only the tolerable requests are counted.\<close>

definition wt_Len :: "('r, 'c) WorkingTable \<Rightarrow> int" where
  "wt_Len wt = sum_list (map rl_Count (drop 1 (wt_requests wt)))"

subsection \<open>Pending requests\<close>

type_synonym 'r PendingList = "('r, bool) requestList"

definition pl_Exist :: "'r PendingList \<Rightarrow> 'r \<Rightarrow> bool" where
  "pl_Exist rl ref \<longleftrightarrow> map_of (requests rl) ref \<noteq> None"

definition pl_GetState :: "'r PendingList \<Rightarrow> 'r \<Rightarrow> bool \<times> bool" where
  "pl_GetState rl ref = (case map_of (requests rl) ref of None \<Rightarrow> (False, False) | Some active \<Rightarrow> (active, True))"

definition pl_Add :: "('r \<Rightarrow> Number) \<Rightarrow> 'r \<Rightarrow> 'r PendingList \<Rightarrow> 'r PendingList \<times> bool" where
  "pl_Add pn ref rl =
     (if map_of (requests rl) ref \<noteq> None then (rl, False)
      else (listActivity (pn ref) (setRequest ref True rl), True))"

definition pl_Finish :: "('r \<Rightarrow> Number) \<Rightarrow> 'r \<Rightarrow> 'r PendingList \<Rightarrow> 'r PendingList \<times> bool" where
  "pl_Finish pn ref rl =
     (if \<not> pl_Exist rl ref then (rl, False)
      else
        let rl = setRequest ref False rl; rl = rl\<lparr>countFinish := countFinish rl + 1\<rparr> in
        (delistActivity (pn ref) rl, True))"

type_synonym 'r PendingTable = "'r PendingList list"

definition NewRequestTable :: "'r PendingTable" where
  "NewRequestTable = replicate (InterferenceFlagCount - 1) newRequestList"

definition pt_GetList :: "'r PendingTable \<Rightarrow> u8 \<Rightarrow> 'r PendingList res" where
  "pt_GetList rt flag = bnd (flagIndex rt flag) (\<lambda>i. Ok (rt ! i))"

definition pt_Len :: "'r PendingTable \<Rightarrow> int" where
  "pt_Len rt = sum_list (map rl_Count rt)"

subsection \<open>Results per object\<close>

type_synonym ('r, 'c) ObjectCallResults = "('r \<times> 'c option) list"
type_synonym ('r, 'c) ObjectsResultCallRegistry = "('r \<times> ('r, 'c) ObjectCallResults) list"

definition AddObjectCallResults ::
  "'r \<Rightarrow> ('r, 'c) ObjectCallResults \<Rightarrow> ('r, 'c) ObjectsResultCallRegistry \<Rightarrow> ('r, 'c) ObjectsResultCallRegistry \<times> bool" where
  "AddObjectCallResults objectRef callResults ort =
     (if map_of ort objectRef \<noteq> None then (ort, False) else (AList.update objectRef callResults ort, True))"

definition AddObjectCallResult ::
  "'r \<Rightarrow> 'r \<Rightarrow> 'c option \<Rightarrow> ('r, 'c) ObjectsResultCallRegistry \<Rightarrow> ('r, 'c) ObjectsResultCallRegistry res" where
  "AddObjectCallResult objectRef reqRef result ort =
     (case map_of ort objectRef of None \<Rightarrow> Panic ''IllegalState''
      | Some reqs \<Rightarrow>
          (case map_of reqs reqRef of None \<Rightarrow> Panic ''IllegalState''
           | Some (Some _) \<Rightarrow> Panic ''IllegalState''
           | Some None \<Rightarrow> Ok (AList.update objectRef (AList.update reqRef result reqs) ort)))"

subsection \<open>What a list keeps track of\<close>

definition leastPulse :: "Number set \<Rightarrow> Number" where
  "leastPulse S = (if S = {} then Unknown else Min S)"

definition perPulse :: "('r \<Rightarrow> Number) \<Rightarrow> 'r set \<Rightarrow> Number \<Rightarrow> nat" where
  "perPulse pn A p = card {r \<in> A. pn r = p}"

definition tracks :: "('r \<Rightarrow> Number) \<Rightarrow> 'r set \<Rightarrow> ('r, 'v) requestList \<Rightarrow> bool" where
  "tracks pn A rl \<longleftrightarrow> finite A \<and> Unknown \<notin> pn ` A \<and> countActive rl = int (card A) \<and> distinct (map fst (activity rl)) \<and>
     (\<forall>p. map_of (activity rl) p = (if perPulse pn A p = 0 then None else Some (perPulse pn A p))) \<and>
     earliestActivePulse rl = leastPulse (pn ` A)"

lemma perPulse_0: "finite A \<Longrightarrow> perPulse pn A p = 0 \<longleftrightarrow> p \<notin> pn ` A"
  by (auto simp: perPulse_def)

lemma perPulse_insert:
  assumes "finite A" "r \<notin> A"
  shows "perPulse pn (insert r A) p = perPulse pn A p + (if p = pn r then 1 else 0)"
proof -
  have "{x \<in> insert r A. pn x = p} = (if p = pn r then insert r {x \<in> A. pn x = p} else {x \<in> A. pn x = p})" by auto
  then show ?thesis using assms unfolding perPulse_def by simp
qed

lemma perPulse_remove:
  assumes "finite A" "r \<in> A"
  shows "perPulse pn (A - {r}) p = perPulse pn A p - (if p = pn r then 1 else 0)"
  using perPulse_insert [of "A - {r}" r pn p] assms by (simp add: insert_absorb)

lemma image_remove:
  assumes "finite A" "r \<in> A"
  shows "pn ` (A - {r}) = (if perPulse pn A (pn r) > 1 then pn ` A else pn ` A - {pn r})"
proof -
  have a: "p \<in> pn ` (A - {r}) \<longleftrightarrow> perPulse pn A p - (if p = pn r then 1 else 0) \<noteq> 0" for p
    using perPulse_0 [of "A - {r}" pn p] perPulse_remove [OF assms, of pn p] assms(1) by simp
  have b: "p \<in> pn ` A \<longleftrightarrow> perPulse pn A p \<noteq> 0" for p using perPulse_0 [OF assms(1)] by simp
  show ?thesis
  proof (rule set_eqI)
    fix p show "p \<in> pn ` (A - {r}) \<longleftrightarrow> p \<in> (if perPulse pn A (pn r) > 1 then pn ` A else pn ` A - {pn r})"
      using a [of p] b [of p] by (cases "p = pn r") (simp_all del: image_iff)
  qed
qed

lemma minPulse_eq:
  assumes "Unknown \<notin> fst ` set ps"
  shows "minPulse ps mn = (if mn = Unknown then leastPulse (fst ` set ps) else Min (insert mn (fst ` set ps)))"
  using assms
proof (induction ps mn rule: minPulse.induct)
  case (2 p n ps mn)
  have m: "Min (insert x (insert y S)) = (if y < x then Min (insert y S) else Min (insert x S))" if "finite S" for x y :: Number and S
    using that by (cases "S = {}") (auto simp: min_def Min_insert2 split: if_splits)
  from 2 show ?case
    by (cases "ps = []") (auto simp: leastPulse_def m min_def)
qed (simp add: leastPulse_def)

lemma tracks_keys:
  assumes "tracks pn A rl" shows "fst ` set (activity rl) = pn ` A"
proof -
  have "p \<in> fst ` set (activity rl) \<longleftrightarrow> map_of (activity rl) p \<noteq> None" for p by (simp add: map_of_eq_None_iff)
  moreover have "p \<in> pn ` A \<longleftrightarrow> perPulse pn A p \<noteq> 0" for p using perPulse_0 [of A pn p] assms by (simp add: tracks_def)
  ultimately show ?thesis using assms unfolding tracks_def by (metis option.distinct(1) set_eqI)
qed

lemma activityOf_tracks: "tracks pn A rl \<Longrightarrow> activityOf p (rl\<lparr>countActive := c\<rparr>) = perPulse pn A p"
  by (simp add: tracks_def activityOf_def)

lemma tracks_cong:
  "countActive rl' = countActive rl \<Longrightarrow> activity rl' = activity rl \<Longrightarrow> earliestActivePulse rl' = earliestActivePulse rl \<Longrightarrow>
   tracks pn A rl' = tracks pn A rl"
  by (simp add: tracks_def)

lemma leastPulse_insert:
  assumes "finite A" "Unknown \<notin> pn ` A"
  shows "leastPulse (pn ` insert r A) = (if leastPulse (pn ` A) = Unknown \<or> pn r < leastPulse (pn ` A) then pn r else leastPulse (pn ` A))"
proof (cases "A = {}")
  case False
  then have "leastPulse (pn ` A) \<in> pn ` A" using assms by (simp add: leastPulse_def)
  then have nu: "leastPulse (pn ` A) \<noteq> Unknown" using assms by auto
  have "leastPulse (pn ` insert r A) = min (pn r) (leastPulse (pn ` A))" using False assms by (simp add: leastPulse_def)
  then show ?thesis using nu by (auto simp: min_def)
qed (simp add: leastPulse_def)

lemma tracks_list:
  assumes t: "tracks pn A rl" and r: "r \<notin> A" "pn r \<noteq> Unknown"
  shows "tracks pn (insert r A) (listActivity (pn r) rl)"
proof -
  have A: "finite A" "Unknown \<notin> pn ` A" "earliestActivePulse rl = leastPulse (pn ` A)" using t by (simp_all add: tracks_def)
  let ?rl = "listActivity (pn r) rl"
  have "activity ?rl = AList.update (pn r) (perPulse pn A (pn r) + 1) (activity rl)" "countActive ?rl = countActive rl + 1"
    "earliestActivePulse ?rl = leastPulse (pn ` insert r A)"
    using activityOf_tracks [OF t, of "pn r" "countActive rl"] A(3) leastPulse_insert [OF A(1,2), of r]
    by (auto simp: listActivity_def Let_def)
  then show ?thesis using t r A(1)
    by (simp add: tracks_def perPulse_insert [OF A(1) r(1)] update_conv distinct_update)
qed

lemma tracks_delist:
  assumes t: "tracks pn A rl" and r: "r \<in> A"
  shows "tracks pn (A - {r}) (delistActivity (pn r) rl)"
proof -
  have A: "finite A" "Unknown \<notin> pn ` A" "earliestActivePulse rl = leastPulse (pn ` A)" using t by (simp_all add: tracks_def)
  let ?n = "perPulse pn A (pn r)" and ?rl = "delistActivity (pn r) rl"
  have pos: "?n > 0" using perPulse_0 [OF A(1), of pn "pn r"] r by (intro gr0I) auto
  have cnt: "int (card (A - {r})) = int (card A) - 1" using A(1) r card_gt_0_iff [of A] by (auto simp: of_nat_diff)
  note ao = activityOf_tracks [OF t, of "pn r"]
  have len: "countActive ?rl = countActive rl - 1" using ao by (simp add: delistActivity_def Let_def)
  have base: "finite (A - {r})" "Unknown \<notin> pn ` (A - {r})" "countActive ?rl = int (card (A - {r}))"
    using t A cnt len by (auto simp: tracks_def)
  show ?thesis
  proof (cases "?n > 1")
    case True
    then have "activity ?rl = AList.update (pn r) (?n - 1) (activity rl)" "earliestActivePulse ?rl = earliestActivePulse rl"
      using ao by (simp_all add: delistActivity_def Let_def)
    then show ?thesis using t True base A(3) image_remove [OF A(1) r, of pn]
      by (simp add: tracks_def perPulse_remove [OF A(1) r] update_conv distinct_update)
  next
    case False
    define rl1 where "rl1 = rl\<lparr>countActive := countActive rl - 1, activity := AList.delete (pn r) (activity rl)\<rparr>"
    have rl: "?rl = (if pn r = earliestActivePulse rl then rl1\<lparr>earliestActivePulse := minActivePulse rl1\<rparr> else rl1)"
      using False ao by (simp add: delistActivity_def Let_def rl1_def)
    have im: "pn ` (A - {r}) = pn ` A - {pn r}" using image_remove [OF A(1) r, of pn] False by simp
    have "fst ` set (AList.delete (pn r) (activity rl)) = fst ` set (activity rl) - {pn r}"
      by (force simp: AList.delete_eq image_iff)
    then have keys: "fst ` set (activity rl1) = pn ` (A - {r})" using tracks_keys [OF t] im by (simp add: rl1_def)
    have "earliestActivePulse ?rl = leastPulse (pn ` (A - {r}))"
    proof (cases "pn r = earliestActivePulse rl")
      case True
      then have "earliestActivePulse ?rl = minPulse (activity rl1) Unknown" unfolding rl by (simp add: minActivePulse_def)
      then show ?thesis using minPulse_eq [of "activity rl1" Unknown] keys base(2) by simp
    next
      case False
      then have ne: "leastPulse (pn ` A) \<in> pn ` A - {pn r}" using r A by (auto simp: leastPulse_def)
      have "Min (pn ` A - {pn r}) = leastPulse (pn ` A)"
        by (rule Min_eqI) (use A(1) r ne in \<open>auto simp: leastPulse_def split: if_splits\<close>)
      moreover have "pn ` A - {pn r} \<noteq> {}" using ne by blast
      ultimately have "leastPulse (pn ` (A - {r})) = leastPulse (pn ` A)" unfolding im by (simp add: leastPulse_def [of "pn ` A - {pn r}"])
      then show ?thesis using False A(3) by (simp add: rl rl1_def)
    qed
    moreover have "activity ?rl = AList.delete (pn r) (activity rl)" by (simp add: rl rl1_def)
    ultimately show ?thesis using t base False pos
      by (auto simp: tracks_def perPulse_remove [OF A(1) r] delete_conv' distinct_delete)
  qed
qed

subsection \<open>Working requests are tracked\<close>

definition inState :: "WorkingRequestState \<Rightarrow> 'r WorkingList \<Rightarrow> 'r set" where
  "inState s rl = {r. GetState rl r = s}"

definition wl_ok :: "('r \<Rightarrow> Number) \<Rightarrow> 'r WorkingList \<Rightarrow> bool" where
  "wl_ok pn rl \<longleftrightarrow> distinct (map fst (requests rl)) \<and> tracks pn (inState RequestProcessing rl) rl \<and>
     countFinish rl = int (card (inState RequestFinished rl)) \<and> RequestUnknown \<notin> snd ` set (requests rl) \<and>
     (\<forall>r \<in> fst ` set (requests rl). pn r \<noteq> Unknown)"

lemma GetState_set [simp]:
  "GetState (setRequest r v rl) x = (if x = r then v else GetState rl x)"
  by (simp add: GetState_def setRequest_def update_conv)

lemma inState_set: "inState s (setRequest r v rl) = (if s = v then insert r (inState s rl) else inState s rl - {r})"
  by (auto simp: inState_def)

lemma GetState_cong: "requests rl' = requests rl \<Longrightarrow> GetState rl' = GetState rl"
  by (simp add: GetState_def fun_eq_iff)

lemma inState_cong: "requests rl' = requests rl \<Longrightarrow> inState s rl' = inState s rl"
  using GetState_cong [of rl' rl] by (simp add: inState_def)

lemma activity_requests [simp]:
  "requests (listActivity p rl) = requests rl" "countFinish (listActivity p rl) = countFinish rl"
  "requests (delistActivity p rl) = requests rl" "countFinish (delistActivity p rl) = countFinish rl"
  by (simp_all add: listActivity_def delistActivity_def Let_def)

lemma GetState_activity [simp]:
  "GetState (listActivity p rl) x = GetState rl x" "GetState (delistActivity p rl) x = GetState rl x"
  "GetState (rl\<lparr>countFinish := c\<rparr>) x = GetState rl x"
  by (simp_all add: GetState_def)

lemma set_fields [simp]:
  "countActive (setRequest r v rl) = countActive rl" "activity (setRequest r v rl) = activity rl"
  "earliestActivePulse (setRequest r v rl) = earliestActivePulse rl" "countFinish (setRequest r v rl) = countFinish rl"
  "requests (setRequest r v rl) = AList.update r v (requests rl)"
  by (simp_all add: setRequest_def)

lemma known_state:
  assumes "RequestUnknown \<notin> snd ` set (requests rl)"
  shows "GetState rl r \<noteq> RequestUnknown \<longleftrightarrow> r \<in> fst ` set (requests rl)"
proof -
  have "map_of (requests rl) r \<noteq> Some RequestUnknown" using assms by (force dest: map_of_SomeD)
  moreover have "map_of (requests rl) r = None \<longleftrightarrow> r \<notin> fst ` set (requests rl)" by (rule map_of_eq_None_iff)
  ultimately show ?thesis by (cases "map_of (requests rl) r") (simp_all add: GetState_def)
qed

lemma update_keys: "fst ` set (AList.update r v xs) = insert r (fst ` set xs)"
  by (metis dom_map_of_conv_image_fst dom_fun_upd option.distinct(1) update_conv')

lemma update_values: "snd ` set (AList.update r v xs) \<subseteq> insert v (snd ` set xs)"
  by (induction xs) (auto simp: image_iff)

lemma wl_ok_set:
  assumes "wl_ok pn rl" "v \<noteq> RequestUnknown" "pn r \<noteq> Unknown"
  shows "distinct (map fst (requests (setRequest r v rl)))" "RequestUnknown \<notin> snd ` set (requests (setRequest r v rl))"
    "\<forall>x \<in> fst ` set (requests (setRequest r v rl)). pn x \<noteq> Unknown"
  using assms update_values [of r v "requests rl"]
  by (auto simp: wl_ok_def distinct_update update_keys)

lemma wl_finite: "wl_ok pn rl \<Longrightarrow> s \<noteq> RequestUnknown \<Longrightarrow> finite (inState s rl)"
proof -
  assume "wl_ok pn rl" "s \<noteq> RequestUnknown"
  then have "inState s rl \<subseteq> fst ` set (requests rl)" using known_state [of rl] by (auto simp: inState_def wl_ok_def)
  then show ?thesis by (rule finite_subset) simp
qed

lemma wl_add_ok:
  assumes "wl_ok pn rl" "pn r \<noteq> Unknown" "wl_add r rl = (rl', ok)"
  shows "wl_ok pn rl'" "GetState rl' x = (if ok \<and> x = r then RequestStarted else GetState rl x)" "ok \<longleftrightarrow> GetState rl r = RequestUnknown"
proof -
  have k: "map_of (requests rl) r = None \<longleftrightarrow> GetState rl r = RequestUnknown"
    using known_state [of rl r] assms(1) by (auto simp: wl_ok_def map_of_eq_None_iff)
  show "ok \<longleftrightarrow> GetState rl r = RequestUnknown" "GetState rl' x = (if ok \<and> x = r then RequestStarted else GetState rl x)"
    using assms(3) k by (auto simp: wl_add_def split: if_splits)
  show "wl_ok pn rl'"
  proof (cases ok)
    case True
    then have rl': "rl' = setRequest r RequestStarted rl" and u: "GetState rl r = RequestUnknown" using assms(3) k by (auto simp: wl_add_def split: if_splits)
    have "inState RequestProcessing rl' = inState RequestProcessing rl" "inState RequestFinished rl' = inState RequestFinished rl"
      using u by (auto simp: rl' inState_set) (auto simp: inState_def)
    then show ?thesis using wl_ok_set [OF assms(1) _ assms(2), of RequestStarted] assms(1) tracks_cong [of rl' rl pn "inState RequestProcessing rl"]
      by (simp add: wl_ok_def rl')
  next
    case False
    then show ?thesis using assms by (auto simp: wl_add_def split: if_splits)
  qed
qed

lemma started_pulse: "wl_ok pn rl \<Longrightarrow> GetState rl r \<noteq> RequestUnknown \<Longrightarrow> pn r \<noteq> Unknown"
  using known_state [of rl r] by (auto simp: wl_ok_def)

lemma wl_setActive_ok:
  assumes "wl_ok pn rl" "wl_setActive pn r rl = (rl', ok)"
  shows "wl_ok pn rl'" "GetState rl' x = (if ok \<and> x = r then RequestProcessing else GetState rl x)" "ok \<longleftrightarrow> GetState rl r = RequestStarted"
proof -
  show "ok \<longleftrightarrow> GetState rl r = RequestStarted" "GetState rl' x = (if ok \<and> x = r then RequestProcessing else GetState rl x)"
    using assms(2) by (auto simp: wl_setActive_def split: if_splits)
  show "wl_ok pn rl'"
  proof (cases ok)
    case True
    let ?s = "setRequest r RequestProcessing rl"
    have rl': "rl' = listActivity (pn r) ?s" and st: "GetState rl r = RequestStarted"
      using assms(2) True by (auto simp: wl_setActive_def split: if_splits)
    have p: "pn r \<noteq> Unknown" using started_pulse [OF assms(1), of r] st by simp
    have n: "r \<notin> inState RequestProcessing rl" "r \<notin> inState RequestFinished rl" using st by (simp_all add: inState_def)
    have "tracks pn (inState RequestProcessing rl) ?s" using assms(1) tracks_cong [of ?s rl] by (simp add: wl_ok_def)
    from tracks_list [OF this n(1) p] have "tracks pn (inState RequestProcessing rl') rl'"
      by (simp add: rl' inState_set inState_cong [OF activity_requests(1)])
    moreover have "inState RequestFinished rl' = inState RequestFinished rl"
      using n(2) by (simp add: rl' inState_set inState_cong [OF activity_requests(1)])
    ultimately show ?thesis using wl_ok_set [OF assms(1) _ p, of RequestProcessing] assms(1) by (simp add: wl_ok_def rl')
  next
    case False
    then show ?thesis using assms by (auto simp: wl_setActive_def split: if_splits)
  qed
qed

lemma wl_finish_ok:
  assumes "wl_ok pn rl" "wl_finish pn r rl = (rl', ok)"
  shows "GetState rl' x = (if ok \<and> x = r then RequestFinished else GetState rl x)"
    "ok \<longleftrightarrow> GetState rl r = RequestStarted \<or> GetState rl r = RequestProcessing"
    "GetState rl r \<noteq> RequestStarted \<Longrightarrow> wl_ok pn rl'"
proof -
  let ?s = "(setRequest r RequestFinished rl)\<lparr>countFinish := countFinish rl + 1\<rparr>"
  show c: "ok \<longleftrightarrow> GetState rl r = RequestStarted \<or> GetState rl r = RequestProcessing"
    using assms(2) by (cases "GetState rl r") (auto simp: wl_finish_def Let_def)
  show "GetState rl' x = (if ok \<and> x = r then RequestFinished else GetState rl x)"
    using assms(2) by (auto simp: wl_finish_def Let_def split: if_splits)
  show "wl_ok pn rl'" if st: "GetState rl r \<noteq> RequestStarted"
  proof (cases ok)
    case True
    have rl': "rl' = delistActivity (pn r) ?s" using assms(2) True by (auto simp: wl_finish_def Let_def split: if_splits)
    have g: "GetState rl r = RequestProcessing" using c True st by blast
    have p: "pn r \<noteq> Unknown" using started_pulse [OF assms(1), of r] g by simp
    have n: "r \<in> inState RequestProcessing rl" "r \<notin> inState RequestFinished rl" using g by (simp_all add: inState_def)
    have i: "inState s rl' = inState s (setRequest r RequestFinished rl)" for s
      unfolding rl' by (rule inState_cong) simp
    have "tracks pn (inState RequestProcessing rl) ?s" using assms(1) tracks_cong [of ?s rl] by (simp add: wl_ok_def)
    from tracks_delist [OF this n(1)] have "tracks pn (inState RequestProcessing rl') rl'"
      unfolding i by (simp add: rl' inState_set)
    moreover have "card (inState RequestFinished rl') = card (inState RequestFinished rl) + 1"
      using n(2) wl_finite [OF assms(1), of RequestFinished] by (simp add: i inState_set)
    ultimately show ?thesis using wl_ok_set [OF assms(1) _ p, of RequestFinished] assms(1) by (simp add: wl_ok_def rl')
  next
    case False
    then show ?thesis using assms by (auto simp: wl_finish_def Let_def split: if_splits)
  qed
qed

definition stateAt :: "('r, 'c) WorkingTable \<Rightarrow> nat \<Rightarrow> 'r \<Rightarrow> WorkingRequestState" where
  "stateAt wt i r = GetState (wt_requests wt ! i) r"

text \<open>
  The tables in use: a request is added under one flag only, as the callers take the flag from the request, and
  its pulse is known; the other operations are used freely as long as they do not panic.  The code does not check
  this; \<^verbatim>\<open>table_reach_iff\<close> below says what it means for the operations as they are.
\<close>

inductive table_reach :: "('r \<Rightarrow> Number) \<Rightarrow> ('r, 'c) WorkingTable \<Rightarrow> bool" for pn where
  tr_new: "table_reach pn NewWorkingTable"
| tr_add: "table_reach pn wt \<Longrightarrow> pn r \<noteq> Unknown \<Longrightarrow> (\<And>j. j + 1 \<noteq> unat flag \<Longrightarrow> j < length (wt_requests wt) \<Longrightarrow> stateAt wt j r = RequestUnknown) \<Longrightarrow>
    wt_Add flag r wt = Ok (wt', ok) \<Longrightarrow> table_reach pn wt'"
| tr_active: "table_reach pn wt \<Longrightarrow> wt_SetActive pn flag r wt = Ok (wt', ok) \<Longrightarrow> table_reach pn wt'"
| tr_finish: "table_reach pn wt \<Longrightarrow> wt_Finish pn flag r result wt = Ok (wt', ok) \<Longrightarrow> table_reach pn wt'"

definition table_ok :: "('r \<Rightarrow> Number) \<Rightarrow> ('r, 'c) WorkingTable \<Rightarrow> bool" where
  "table_ok pn wt \<longleftrightarrow> length (wt_requests wt) = 2 \<and> (\<forall>i < 2. wl_ok pn (wt_requests wt ! i)) \<and>
     (\<forall>r i j. i < 2 \<longrightarrow> j < 2 \<longrightarrow> i \<noteq> j \<longrightarrow> stateAt wt i r = RequestUnknown \<or> stateAt wt j r = RequestUnknown) \<and>
     (\<forall>r. map_of (wt_results wt) r \<noteq> None \<longleftrightarrow> (\<exists>i < 2. stateAt wt i r = RequestProcessing \<or> stateAt wt i r = RequestFinished)) \<and>
     (\<forall>r i. i < 2 \<longrightarrow> stateAt wt i r = RequestProcessing \<longrightarrow> map_of (wt_results wt) r = Some None)"

lemma flagIndex_Ok: "flagIndex ls flag = Ok i \<longleftrightarrow> i + 1 = unat flag \<and> i < length ls"
  by (auto simp: flagIndex_def word_less_nat_alt split: if_splits)

lemma stateAt_update:
  "i < length (wt_requests wt) \<Longrightarrow> stateAt (wt\<lparr>wt_requests := (wt_requests wt)[i := rl]\<rparr>) j r = (if j = i then GetState rl r else stateAt wt j r)"
  "stateAt (wt\<lparr>wt_results := x\<rparr>) j r = stateAt wt j r"
  by (simp_all add: stateAt_def)

text \<open>One operation changes the state of one request in one list.\<close>

lemma table_ok_step:
  assumes t: "table_ok pn wt" and i: "i < 2" and rl: "wl_ok pn rl" "\<And>x. GetState rl x = (if x = r then s else stateAt wt i x)"
    and alone: "\<And>j. j < 2 \<Longrightarrow> j \<noteq> i \<Longrightarrow> stateAt wt j r = RequestUnknown"
    and res: "map_of results' = (if s = RequestStarted then map_of (wt_results wt) else (map_of (wt_results wt))(r \<mapsto> v))"
      "s = RequestProcessing \<Longrightarrow> v = None" "s = RequestStarted \<Longrightarrow> stateAt wt i r = RequestUnknown" "s \<noteq> RequestUnknown"
  shows "table_ok pn (wt\<lparr>wt_requests := (wt_requests wt)[i := rl], wt_results := results'\<rparr>)"
proof -
  let ?w = "wt\<lparr>wt_requests := (wt_requests wt)[i := rl], wt_results := results'\<rparr>"
  have len: "length (wt_requests wt) = 2" using t by (simp add: table_ok_def)
  have st: "stateAt ?w j x = (if j = i \<and> x = r then s else stateAt wt j x)" for j x
    using i len rl(2) [unfolded stateAt_def] by (cases "j = i") (simp_all add: stateAt_def)
  have lists: "wl_ok pn (wt_requests ?w ! j)" if "j < 2" for j using t that rl(1) i len by (auto simp: table_ok_def nth_list_update)
  have apart: "stateAt ?w j x = RequestUnknown \<or> stateAt ?w k x = RequestUnknown" if "j < 2" "k < 2" "j \<noteq> k" for x j k
  proof -
    have "stateAt wt j x = RequestUnknown \<or> stateAt wt k x = RequestUnknown" using t that unfolding table_ok_def by blast
    then show ?thesis using that alone st by metis
  qed
  have r0: "map_of (wt_results wt) r = None" if "s = RequestStarted"
  proof -
    have "stateAt wt j r = RequestUnknown" if "j < 2" for j using that alone res(3) \<open>s = RequestStarted\<close> by (cases "j = i") auto
    then show ?thesis using t unfolding table_ok_def by (metis WorkingRequestState.distinct)
  qed
  have old: "map_of (wt_results wt) x \<noteq> None \<longleftrightarrow> (\<exists>j < 2. stateAt wt j x = RequestProcessing \<or> stateAt wt j x = RequestFinished)" for x
    using t unfolding table_ok_def by blast
  have results: "map_of results' x \<noteq> None \<longleftrightarrow> (\<exists>j < 2. stateAt ?w j x = RequestProcessing \<or> stateAt ?w j x = RequestFinished)" for x
  proof (cases "x = r")
    case True
    have "(\<exists>j < 2. stateAt ?w j r = RequestProcessing \<or> stateAt ?w j r = RequestFinished) \<longleftrightarrow> s = RequestProcessing \<or> s = RequestFinished"
      using alone i st by (metis WorkingRequestState.distinct(3,5))
    moreover have "map_of results' r \<noteq> None \<longleftrightarrow> s \<noteq> RequestStarted" using r0 res(1) by simp
    moreover have "s = RequestProcessing \<or> s = RequestFinished \<longleftrightarrow> s \<noteq> RequestStarted" using res(4) by (cases s) auto
    ultimately show ?thesis using True by simp
  next
    case False
    then show ?thesis using old [of x] res(1) st by simp
  qed
  have proc: "map_of results' x = Some None" if "j < 2" "stateAt ?w j x = RequestProcessing" for x j
  proof (cases "x = r")
    case True
    then have "s = RequestProcessing" using that alone st by (metis WorkingRequestState.distinct(3))
    then show ?thesis using True res(1,2) by simp
  next
    case False
    then have "stateAt wt j x = RequestProcessing" using that st by simp
    then have "map_of (wt_results wt) x = Some None" using t that(1) unfolding table_ok_def by blast
    then show ?thesis using False res(1) by simp
  qed
  from len lists apart results proc show ?thesis unfolding table_ok_def by (simp del: split_paired_All)
qed

lemma table_unchanged: "length (wt_requests wt) = 2 \<Longrightarrow> wt\<lparr>wt_requests := (wt_requests wt)[i := wt_requests wt ! i]\<rparr> = wt"
  by simp

lemma table_reach_ok: "table_reach pn wt \<Longrightarrow> table_ok pn wt"
proof (induction rule: table_reach.induct)
  case tr_new
  let ?n = "newRequestList :: 'a WorkingList"
  have e: "inState s ?n = {}" if "s \<noteq> RequestUnknown" for s
    using that by (auto simp: inState_def GetState_def newRequestList_def)
  have f: "countActive ?n = 0" "activity ?n = []" "earliestActivePulse ?n = Unknown" "requests ?n = []" "countFinish ?n = 0"
    by (simp_all add: newRequestList_def)
  have "tracks pn {} ?n" by (simp add: tracks_def perPulse_def leastPulse_def f)
  then have "wl_ok pn ?n" by (simp add: wl_ok_def f e)
  moreover have "stateAt (NewWorkingTable :: ('a, 'b) WorkingTable) i r = RequestUnknown" if "i < 2" for i r
    using that by (simp add: stateAt_def NewWorkingTable_def InterferenceFlagCount_def GetState_def newRequestList_def)
  moreover have "wt_requests (NewWorkingTable :: ('a, 'b) WorkingTable) = replicate 2 ?n" "wt_results (NewWorkingTable :: ('a, 'b) WorkingTable) = []"
    by (simp_all add: NewWorkingTable_def InterferenceFlagCount_def)
  ultimately show ?case by (simp add: table_ok_def)
next
  case (tr_add wt r flag wt' ok)
  then have len: "length (wt_requests wt) = 2" by (simp add: table_ok_def)
  from tr_add.hyps(4) obtain i where fi: "flagIndex (wt_requests wt) flag = Ok i" by (auto simp: wt_Add_def go_simps)
  then have i: "i + 1 = unat flag" "i < 2" by (simp_all add: flagIndex_Ok len)
  obtain rl where a: "wl_add r (wt_requests wt ! i) = (rl, ok)" and wt': "wt' = wt\<lparr>wt_requests := (wt_requests wt)[i := rl]\<rparr>"
    using tr_add.hyps(4) fi by (cases "wl_add r (wt_requests wt ! i)") (auto simp: wt_Add_def)
  have ok: "wl_ok pn (wt_requests wt ! i)" using tr_add.IH i by (simp add: table_ok_def)
  note w = wl_add_ok [OF ok tr_add.hyps(2) a]
  show ?case
  proof (cases ok)
    case True
    have "table_ok pn (wt\<lparr>wt_requests := (wt_requests wt)[i := rl], wt_results := wt_results wt\<rparr>)"
    proof (rule table_ok_step [OF tr_add.IH i(2) w(1)])
      show "GetState rl x = (if x = r then RequestStarted else stateAt wt i x)" for x using w(2) True by (simp add: stateAt_def)
      show "stateAt wt j r = RequestUnknown" if "j < 2" "j \<noteq> i" for j using tr_add.hyps(3) [of j] that i len by simp
      show "stateAt wt i r = RequestUnknown" using w(3) True by (simp add: stateAt_def)
    qed simp_all
    then show ?thesis by (simp add: wt')
  next
    case False
    then have "rl = wt_requests wt ! i" using a by (auto simp: wl_add_def split: if_splits)
    then show ?thesis using tr_add.IH by (simp add: wt')
  qed
next
  case (tr_active wt flag r wt' ok)
  then have len: "length (wt_requests wt) = 2" by (simp add: table_ok_def)
  from tr_active.hyps(2) obtain i where fi: "flagIndex (wt_requests wt) flag = Ok i" by (auto simp: wt_SetActive_def go_simps)
  then have i: "i < 2" by (simp add: flagIndex_Ok len)
  obtain rl b where a: "wl_setActive pn r (wt_requests wt ! i) = (rl, b)"
    and wt': "wt' = (if b then wt\<lparr>wt_requests := (wt_requests wt)[i := rl], wt_results := AList.update r None (wt_results wt)\<rparr>
                    else wt\<lparr>wt_requests := (wt_requests wt)[i := rl]\<rparr>)"
    using tr_active.hyps(2) fi by (cases "wl_setActive pn r (wt_requests wt ! i)") (auto simp: wt_SetActive_def Let_def split: if_splits)
  have ok: "wl_ok pn (wt_requests wt ! i)" using tr_active.IH i by (simp add: table_ok_def)
  note w = wl_setActive_ok [OF ok a]
  show ?case
  proof (cases b)
    case True
    then have st: "stateAt wt i r = RequestStarted" using w(3) by (simp add: stateAt_def)
    have "table_ok pn (wt\<lparr>wt_requests := (wt_requests wt)[i := rl], wt_results := AList.update r None (wt_results wt)\<rparr>)"
    proof (rule table_ok_step [OF tr_active.IH i w(1)])
      show "GetState rl x = (if x = r then RequestProcessing else stateAt wt i x)" for x using w(2) True by (simp add: stateAt_def)
      show "stateAt wt j r = RequestUnknown" if "j < 2" "j \<noteq> i" for j
        using tr_active.IH that i st unfolding table_ok_def by (metis WorkingRequestState.distinct(1))
      show "map_of (AList.update r None (wt_results wt)) =
          (if RequestProcessing = RequestStarted then map_of (wt_results wt) else (map_of (wt_results wt))(r \<mapsto> None))"
        by (simp add: update_conv')
    qed simp_all
    then show ?thesis using True by (simp add: wt')
  next
    case False
    then have "rl = wt_requests wt ! i" using a by (auto simp: wl_setActive_def split: if_splits)
    then show ?thesis using tr_active.IH False by (simp add: wt')
  qed
next
  case (tr_finish wt flag r result wt' ok)
  then have len: "length (wt_requests wt) = 2" by (simp add: table_ok_def)
  from tr_finish.hyps(2) obtain i where fi: "flagIndex (wt_requests wt) flag = Ok i" by (auto simp: wt_Finish_def go_simps)
  then have i: "i < 2" by (simp add: flagIndex_Ok len)
  obtain rl b where a: "wl_finish pn r (wt_requests wt ! i) = (rl, b)"
    and res: "b \<Longrightarrow> map_of (wt_results wt) r \<noteq> None"
    and wt': "wt' = (if b then wt\<lparr>wt_requests := (wt_requests wt)[i := rl], wt_results := AList.update r result (wt_results wt)\<rparr>
                    else wt\<lparr>wt_requests := (wt_requests wt)[i := rl]\<rparr>)"
    using tr_finish.hyps(2) fi by (cases "wl_finish pn r (wt_requests wt ! i)") (auto simp: wt_Finish_def Let_def split: if_splits)
  have ok: "wl_ok pn (wt_requests wt ! i)" using tr_finish.IH i by (simp add: table_ok_def)
  note w = wl_finish_ok [OF ok a]
  show ?case
  proof (cases b)
    case True
    have alone: "stateAt wt j r = RequestUnknown" if "j < 2" "j \<noteq> i" for j
      using tr_finish.IH that i w(2) True unfolding table_ok_def stateAt_def by (metis WorkingRequestState.distinct(1,3))
    have "\<exists>j < 2. stateAt wt j r = RequestProcessing \<or> stateAt wt j r = RequestFinished"
      using tr_finish.IH res [OF True] unfolding table_ok_def by blast
    then have "stateAt wt i r \<noteq> RequestStarted" using alone by (metis WorkingRequestState.distinct(3,5,7,9))
    then have rl: "wl_ok pn rl" using w(3) by (simp add: stateAt_def)
    have "table_ok pn (wt\<lparr>wt_requests := (wt_requests wt)[i := rl], wt_results := AList.update r result (wt_results wt)\<rparr>)"
    proof (rule table_ok_step [OF tr_finish.IH i rl])
      show "GetState rl x = (if x = r then RequestFinished else stateAt wt i x)" for x using w(1) True by (simp add: stateAt_def)
      show "map_of (AList.update r result (wt_results wt)) =
          (if RequestFinished = RequestStarted then map_of (wt_results wt) else (map_of (wt_results wt))(r \<mapsto> result))"
        by (simp add: update_conv')
    qed (use alone in simp_all)
    then show ?thesis using True by (simp add: wt')
  next
    case False
    then have "rl = wt_requests wt ! i" using a by (auto simp: wl_finish_def Let_def split: if_splits)
    then show ?thesis using tr_finish.IH False by (simp add: wt')
  qed
qed

text \<open>What the operations alone build, without any condition on their use.\<close>

inductive table_runs :: "('r \<Rightarrow> Number) \<Rightarrow> ('r, 'c) WorkingTable \<Rightarrow> bool" for pn where
  tu_new: "table_runs pn NewWorkingTable"
| tu_add: "table_runs pn wt \<Longrightarrow> wt_Add flag r wt = Ok (wt', ok) \<Longrightarrow> table_runs pn wt'"
| tu_active: "table_runs pn wt \<Longrightarrow> wt_SetActive pn flag r wt = Ok (wt', ok) \<Longrightarrow> table_runs pn wt'"
| tu_finish: "table_runs pn wt \<Longrightarrow> wt_Finish pn flag r result wt = Ok (wt', ok) \<Longrightarrow> table_runs pn wt'"

definition requests_apart :: "('r \<Rightarrow> Number) \<Rightarrow> ('r, 'c) WorkingTable \<Rightarrow> bool" where
  "requests_apart pn wt \<longleftrightarrow> (\<forall>i r. i < length (wt_requests wt) \<longrightarrow> stateAt wt i r \<noteq> RequestUnknown \<longrightarrow>
     pn r \<noteq> Unknown \<and> (\<forall>j < length (wt_requests wt). j \<noteq> i \<longrightarrow> stateAt wt j r = RequestUnknown))"

text \<open>A request is never removed from the list that knows it.\<close>

definition extends :: "('r, 'c) WorkingTable \<Rightarrow> ('r, 'c) WorkingTable \<Rightarrow> bool" where
  "extends wt wt' \<longleftrightarrow> length (wt_requests wt') = length (wt_requests wt) \<and>
     (\<forall>i r. i < length (wt_requests wt) \<longrightarrow> stateAt wt i r \<noteq> RequestUnknown \<longrightarrow> stateAt wt' i r \<noteq> RequestUnknown)"

lemma extends_update:
  assumes "i < length (wt_requests wt)" "\<And>x. stateAt wt i x \<noteq> RequestUnknown \<Longrightarrow> GetState rl x \<noteq> RequestUnknown"
  shows "extends wt (wt\<lparr>wt_requests := (wt_requests wt)[i := rl]\<rparr>)"
    "extends wt (wt\<lparr>wt_requests := (wt_requests wt)[i := rl], wt_results := rs\<rparr>)"
  using assms by (auto simp: extends_def stateAt_def nth_list_update)

lemma wt_Add_parts:
  assumes "wt_Add flag r wt = Ok (wt', ok)"
  obtains i rl where "i + 1 = unat flag" "i < length (wt_requests wt)" "wl_add r (wt_requests wt ! i) = (rl, ok)"
    "wt' = wt\<lparr>wt_requests := (wt_requests wt)[i := rl]\<rparr>"
proof -
  from assms obtain i where fi: "flagIndex (wt_requests wt) flag = Ok i" by (auto simp: wt_Add_def go_simps)
  then have i: "i + 1 = unat flag" "i < length (wt_requests wt)" by (simp_all add: flagIndex_Ok)
  show ?thesis using assms fi that [OF i] by (cases "wl_add r (wt_requests wt ! i)") (auto simp: wt_Add_def)
qed

lemma wt_Add_extends:
  assumes "wt_Add flag r wt = Ok (wt', ok)" shows "extends wt wt'"
proof -
  obtain i rl where p: "i < length (wt_requests wt)" "wl_add r (wt_requests wt ! i) = (rl, ok)" "wt' = wt\<lparr>wt_requests := (wt_requests wt)[i := rl]\<rparr>"
    using wt_Add_parts [OF assms] by metis
  show ?thesis unfolding p(3) by (rule extends_update(1) [OF p(1)]) (use p(2) in \<open>auto simp: wl_add_def stateAt_def split: if_splits\<close>)
qed

lemma wt_SetActive_extends:
  assumes "wt_SetActive pn flag r wt = Ok (wt', ok)" shows "extends wt wt'"
proof -
  from assms obtain i where fi: "flagIndex (wt_requests wt) flag = Ok i" by (auto simp: wt_SetActive_def go_simps)
  then have i: "i < length (wt_requests wt)" by (simp add: flagIndex_Ok)
  obtain rl b where w: "wl_setActive pn r (wt_requests wt ! i) = (rl, b)" by (cases "wl_setActive pn r (wt_requests wt ! i)")
  have k: "stateAt wt i x \<noteq> RequestUnknown \<Longrightarrow> GetState rl x \<noteq> RequestUnknown" for x
    using w by (auto simp: wl_setActive_def stateAt_def split: if_splits)
  show ?thesis using assms fi w extends_update [OF i k] by (auto simp: wt_SetActive_def Let_def split: if_splits)
qed

lemma wt_Finish_extends:
  assumes "wt_Finish pn flag r result wt = Ok (wt', ok)" shows "extends wt wt'"
proof -
  from assms obtain i where fi: "flagIndex (wt_requests wt) flag = Ok i" by (auto simp: wt_Finish_def go_simps)
  then have i: "i < length (wt_requests wt)" by (simp add: flagIndex_Ok)
  obtain rl b where w: "wl_finish pn r (wt_requests wt ! i) = (rl, b)" by (cases "wl_finish pn r (wt_requests wt ! i)")
  have k: "stateAt wt i x \<noteq> RequestUnknown \<Longrightarrow> GetState rl x \<noteq> RequestUnknown" for x
    using w by (auto simp: wl_finish_def Let_def stateAt_def split: if_splits)
  show ?thesis using assms fi w extends_update [OF i k] by (auto simp: wt_Finish_def Let_def split: if_splits)
qed

lemma apart_before: "extends wt wt' \<Longrightarrow> requests_apart pn wt' \<Longrightarrow> requests_apart pn wt"
  unfolding extends_def requests_apart_def by metis

lemma table_reach_runs: "table_reach pn wt \<Longrightarrow> table_runs pn wt"
  by (induction rule: table_reach.induct) (auto intro: table_runs.intros)

lemma table_reach_apart: "table_reach pn wt \<Longrightarrow> requests_apart pn wt"
proof -
  assume "table_reach pn wt"
  then have t: "table_ok pn wt" by (rule table_reach_ok)
  then have l: "length (wt_requests wt) = 2" by (simp add: table_ok_def)
  have p: "pn r \<noteq> Unknown" if "i < 2" "stateAt wt i r \<noteq> RequestUnknown" for i r
    using t that started_pulse [of pn "wt_requests wt ! i" r] by (auto simp: table_ok_def stateAt_def)
  show ?thesis using t p unfolding requests_apart_def l table_ok_def by blast
qed

lemma table_runs_reach: "table_runs pn wt \<Longrightarrow> requests_apart pn wt \<Longrightarrow> table_reach pn wt"
proof (induction rule: table_runs.induct)
  case tu_new
  show ?case by (rule tr_new)
next
  case (tu_add wt flag r wt' ok)
  have e: "extends wt wt'" by (rule wt_Add_extends [OF tu_add.hyps(2)])
  have t: "table_reach pn wt" using tu_add.IH apart_before [OF e tu_add.prems] .
  obtain i rl where p: "i + 1 = unat flag" "i < length (wt_requests wt)" "wl_add r (wt_requests wt ! i) = (rl, ok)"
    "wt' = wt\<lparr>wt_requests := (wt_requests wt)[i := rl]\<rparr>" by (rule wt_Add_parts [OF tu_add.hyps(2)])
  have ok: "wl_ok pn (wt_requests wt ! i)" using table_reach_ok [OF t] p(2) by (simp add: table_ok_def)
  have "GetState rl r \<noteq> RequestUnknown"
    using p(3) known_state [of "wt_requests wt ! i" r] ok by (auto simp: wl_add_def wl_ok_def map_of_eq_None_iff split: if_splits)
  then have k: "stateAt wt' i r \<noteq> RequestUnknown" using p(2) by (simp add: p(4) stateAt_def)
  have l: "length (wt_requests wt') = length (wt_requests wt)" using p(4) by simp
  have a: "pn r \<noteq> Unknown" "j < length (wt_requests wt) \<Longrightarrow> j \<noteq> i \<Longrightarrow> stateAt wt' j r = RequestUnknown" for j
    using tu_add.prems k p(2) unfolding requests_apart_def l by blast+
  show ?case
  proof (rule tr_add [OF t a(1) _ tu_add.hyps(2)])
    fix j assume "j + 1 \<noteq> unat flag" "j < length (wt_requests wt)"
    then show "stateAt wt j r = RequestUnknown" using a(2) [of j] p(1,4) by (auto simp: stateAt_def)
  qed
next
  case (tu_active wt flag r wt' ok)
  have "requests_apart pn wt" using apart_before [OF wt_SetActive_extends [OF tu_active.hyps(2)] tu_active.prems] .
  then show ?case using tr_active [OF _ tu_active.hyps(2)] tu_active.IH by blast
next
  case (tu_finish wt flag r result wt' ok)
  have "requests_apart pn wt" using apart_before [OF wt_Finish_extends [OF tu_finish.hyps(2)] tu_finish.prems] .
  then show ?case using tr_finish [OF _ tu_finish.hyps(2)] tu_finish.IH by blast
qed

text \<open>So the guard of \<^const>\<open>table_reach\<close> is a condition on the table that was built.\<close>

lemma table_reach_iff: "table_reach pn wt \<longleftrightarrow> table_runs pn wt \<and> requests_apart pn wt"
  using table_runs_reach table_reach_runs table_reach_apart by blast

lemma table_list:
  assumes "table_reach pn wt" "wt_GetList wt flag = Ok rl"
  shows "wl_ok pn rl" "\<exists>i < 2. rl = wt_requests wt ! i"
  using assms(2) table_reach_ok [OF assms(1)] by (auto simp: wt_GetList_def go_simps flagIndex_Ok table_ok_def)

lemma known_card: "wl_ok pn rl \<Longrightarrow> rl_Count rl = int (card {r. GetState rl r \<noteq> RequestUnknown})"
  using known_state [of rl] distinct_card [of "map fst (requests rl)"] by (simp add: rl_Count_def wl_ok_def)

text \<open>
  C19: the working table tells the truth.  In every table that any sequence of additions, activations and
  completions without a panic builds from the new table, if every request in it has a known pulse and is in one of
  the two lists only, the counters of each list are the numbers of requests in the respective states, the earliest
  pulse is the least pulse of the requests in processing (or unknown when there is none), and there is a
  summary exactly for the requests that were activated, without a result as long as they are in processing.  A
  request that is used under both flags can break the counters: see \<^verbatim>\<open>both_flags_miscount\<close>.
\<close>
theorem working_table_counts:
  assumes "table_runs pn wt" "requests_apart pn wt" "wt_GetList wt flag = Ok rl"
  shows "countActive rl = int (card {r. GetState rl r = RequestProcessing}) \<and>
     countFinish rl = int (card {r. GetState rl r = RequestFinished}) \<and>
     rl_Count rl = int (card {r. GetState rl r \<noteq> RequestUnknown}) \<and>
     earliestActivePulse rl = leastPulse (pn ` {r. GetState rl r = RequestProcessing}) \<and>
     (\<forall>r. GetState rl r = RequestProcessing \<longrightarrow> map_of (wt_results wt) r = Some None) \<and>
     (\<forall>r. GetState rl r = RequestFinished \<longrightarrow> map_of (wt_results wt) r \<noteq> None) \<and>
     (\<forall>r. GetState rl r = RequestStarted \<longrightarrow> map_of (wt_results wt) r = None)"
proof -
  have reach: "table_reach pn wt" by (rule table_runs_reach [OF assms(1,2)])
  note l = table_list [OF reach assms(3)]
  obtain i where i: "i < 2" "rl = wt_requests wt ! i" using l(2) by blast
  have st: "GetState rl r = stateAt wt i r" for r using i by (simp add: stateAt_def)
  have t: "table_ok pn wt" by (rule table_reach_ok [OF reach])
  have "map_of (wt_results wt) r = None" if "GetState rl r = RequestStarted" for r
  proof -
    have "stateAt wt j r = RequestUnknown" if "j < 2" "j \<noteq> i" for j
      using t that i(1) \<open>GetState rl r = RequestStarted\<close> unfolding st table_ok_def by (metis WorkingRequestState.distinct(1))
    then have "\<not> (\<exists>j < 2. stateAt wt j r = RequestProcessing \<or> stateAt wt j r = RequestFinished)"
      using that [unfolded st] by (metis WorkingRequestState.distinct(3,5,7,9))
    then show ?thesis using t unfolding table_ok_def by blast
  qed
  moreover have "map_of (wt_results wt) r = Some None" if "GetState rl r = RequestProcessing" for r
    using t i(1) that unfolding st table_ok_def by blast
  moreover have "map_of (wt_results wt) r \<noteq> None" if "GetState rl r = RequestFinished" for r
    using t i(1) that unfolding st table_ok_def by blast
  ultimately show ?thesis using l(1) known_card [OF l(1)] by (auto simp: wl_ok_def tracks_def inState_def)
qed

lemma newRequestList_fields [simp]:
  "countActive newRequestList = 0" "countFinish newRequestList = 0" "requests newRequestList = []"
  "activity newRequestList = []" "earliestActivePulse newRequestList = Unknown"
  by (simp_all add: newRequestList_def)

text \<open>One request, identified by its pulse number, that was added and is being processed.\<close>

definition wt_sample :: "(Number, unit) WorkingTable res" where
  "wt_sample = bnd (wt_Add CallTolerable 70000 NewWorkingTable) (\<lambda>p. bnd (wt_SetActive id CallTolerable 70000 (fst p)) (\<lambda>q. Ok (fst q)))"

theorem working_table_counts_witness:
  "\<exists>wt rl. wt_sample = Ok wt \<and> wt_GetList wt CallTolerable = Ok rl \<and> countActive rl = int (card {r. GetState rl r = RequestProcessing}) \<and>
     countActive rl = 1 \<and> earliestActivePulse rl = 70000"
proof -
  define w1 :: "(Number, unit) WorkingTable" where "w1 = \<lparr>wt_requests = [newRequestList, setRequest 70000 RequestStarted newRequestList], wt_results = []\<rparr>"
  define l2 where "l2 = listActivity 70000 (setRequest 70000 RequestProcessing (setRequest 70000 RequestStarted newRequestList :: Number WorkingList))"
  define w2 :: "(Number, unit) WorkingTable" where "w2 = \<lparr>wt_requests = [newRequestList, l2], wt_results = [(70000, None)]\<rparr>"
  have f: "flagIndex xs CallTolerable = Ok 1" if "length xs = 2" for xs :: "'a list"
    using that by (simp add: flagIndex_def CallTolerable_def)
  have a: "wt_Add CallTolerable 70000 NewWorkingTable = Ok (w1, True)"
    by (simp add: wt_Add_def f NewWorkingTable_def InterferenceFlagCount_def wl_add_def w1_def numeral_2_eq_2)
  have b: "wt_SetActive id CallTolerable 70000 w1 = Ok (w2, True)"
    by (simp add: wt_SetActive_def f w1_def w2_def l2_def wl_setActive_def)
  have "table_reach id w1" using tr_add [OF tr_new _ _ a]
    by (auto simp: Pulse_Number.Unknown_def stateAt_def NewWorkingTable_def InterferenceFlagCount_def GetState_def)
  then have r: "table_reach id w2" using b by (rule tr_active)
  have g: "wt_GetList w2 CallTolerable = Ok l2" by (simp add: wt_GetList_def f w2_def)
  have "countActive l2 = 1 \<and> earliestActivePulse l2 = 70000" by (simp add: l2_def listActivity_def)
  then show ?thesis using working_table_counts [OF table_reach_runs [OF r] table_reach_apart [OF r] g] g a b by (auto simp: wt_sample_def)
qed

text \<open>A request that is added and activated under one flag and added and finished under the other one: the counter of
  the second list falls below zero.\<close>

definition wt_both_flags :: "(Number, unit) WorkingTable res" where
  "wt_both_flags = bnd (wt_Add CallTolerable 70000 NewWorkingTable) (\<lambda>p. bnd (wt_SetActive id CallTolerable 70000 (fst p))
     (\<lambda>q. bnd (wt_Add CallIntolerable 70000 (fst q)) (\<lambda>r. bnd (wt_Finish id CallIntolerable 70000 None (fst r)) (\<lambda>s. Ok (fst s)))))"

lemma both_flags_miscount:
  "\<exists>wt rl. wt_both_flags = Ok wt \<and> table_runs id wt \<and> wt_GetList wt CallIntolerable = Ok rl \<and> countActive rl = - 1"
proof -
  have "bnd wt_both_flags (\<lambda>wt. bnd (wt_GetList wt CallIntolerable) (\<lambda>rl. Ok (countActive rl))) = Ok (- 1)" by code_simp
  then obtain wt rl where w: "wt_both_flags = Ok wt" "wt_GetList wt CallIntolerable = Ok rl" "countActive rl = - 1" by (auto simp: go_simps)
  obtain a b c p q r s where o: "wt_Add CallTolerable 70000 (NewWorkingTable :: (Number, unit) WorkingTable) = Ok (a, p)"
    "wt_SetActive id CallTolerable 70000 a = Ok (b, q)" "wt_Add CallIntolerable 70000 b = Ok (c, r)" "wt_Finish id CallIntolerable 70000 None c = Ok (wt, s)"
    using w(1) unfolding wt_both_flags_def by (auto simp: go_simps)
  have "table_runs id wt" by (rule tu_finish [OF tu_add [OF tu_active [OF tu_add [OF tu_new o(1)] o(2)] o(3)] o(4)])
  with w show ?thesis by blast
qed

subsection \<open>Pending requests are tracked\<close>

definition pl_in :: "bool \<Rightarrow> 'r PendingList \<Rightarrow> 'r set" where
  "pl_in b rl = {r. pl_GetState rl r = (b, True)}"

definition pl_ok :: "('r \<Rightarrow> Number) \<Rightarrow> 'r PendingList \<Rightarrow> bool" where
  "pl_ok pn rl \<longleftrightarrow> distinct (map fst (requests rl)) \<and> tracks pn (pl_in True rl) rl \<and>
     countFinish rl = int (card (pl_in False rl)) \<and> (\<forall>r \<in> fst ` set (requests rl). pn r \<noteq> Unknown)"

lemma pl_GetState_iff: "pl_GetState rl r = (b, True) \<longleftrightarrow> map_of (requests rl) r = Some b"
  by (auto simp: pl_GetState_def split: option.splits)

lemma pl_in_cong: "requests rl' = requests rl \<Longrightarrow> pl_in b rl' = pl_in b rl"
  by (simp add: pl_in_def pl_GetState_def)

lemma pl_in_set: "pl_in b (setRequest r v rl) = (if b = v then insert r (pl_in b rl) else pl_in b rl - {r})"
  by (auto simp: pl_in_def pl_GetState_iff update_conv split: if_splits)

lemma pl_in_keys: "pl_in True rl \<union> pl_in False rl = fst ` set (requests rl)"
proof -
  have "r \<in> pl_in True rl \<union> pl_in False rl \<longleftrightarrow> map_of (requests rl) r \<noteq> None" for r
    by (cases "map_of (requests rl) r") (auto simp: pl_in_def pl_GetState_iff)
  then show ?thesis by (auto simp: map_of_eq_None_iff)
qed

lemma pl_finite: "finite (pl_in b rl)"
  using pl_in_keys [of rl] by (cases b) (metis List.finite_set finite_Un finite_imageI)+

lemma pl_ok_set:
  assumes "pl_ok pn rl" "pn r \<noteq> Unknown"
  shows "distinct (map fst (requests (setRequest r v rl)))" "\<forall>x \<in> fst ` set (requests (setRequest r v rl)). pn x \<noteq> Unknown"
  using assms by (auto simp: pl_ok_def distinct_update update_keys)

lemma pl_new_ok: "pl_ok (pn :: 'r \<Rightarrow> Number) newRequestList"
proof -
  have "pl_in b (newRequestList :: 'r PendingList) = {}" for b by (simp add: pl_in_def pl_GetState_def)
  then show ?thesis by (simp add: pl_ok_def tracks_def perPulse_def leastPulse_def)
qed

lemma pl_Add_ok:
  assumes "pl_ok pn rl" "pn r \<noteq> Unknown" "pl_Add pn r rl = (rl', ok)"
  shows "pl_ok pn rl'" "pl_GetState rl' x = (if ok \<and> x = r then (True, True) else pl_GetState rl x)" "ok \<longleftrightarrow> \<not> pl_Exist rl r"
    "rl_Count rl' = rl_Count rl + (if ok then 1 else 0)"
proof -
  let ?s = "setRequest r True rl"
  show ok: "ok \<longleftrightarrow> \<not> pl_Exist rl r" using assms(3) by (auto simp: pl_Add_def pl_Exist_def split: if_splits)
  have rl': "rl' = (if ok then listActivity (pn r) ?s else rl)" using assms(3) by (auto simp: pl_Add_def split: if_splits)
  show "pl_GetState rl' x = (if ok \<and> x = r then (True, True) else pl_GetState rl x)"
    by (simp add: rl' pl_GetState_def update_conv)
  have n: "b = True \<or> b = False \<Longrightarrow> r \<notin> pl_in b rl" if ok for b using that ok by (simp add: pl_in_def pl_GetState_iff pl_Exist_def)
  have k: "length (AList.update r True (requests rl)) = length (requests rl) + 1" if ok
  proof -
    have d: "distinct (map fst (AList.update r True (requests rl)))" using assms(1) by (simp add: pl_ok_def distinct_update)
    have "r \<notin> fst ` set (requests rl)" using that ok by (simp add: pl_Exist_def map_of_eq_None_iff)
    then have "card (fst ` set (AList.update r True (requests rl))) = card (fst ` set (requests rl)) + 1" by (simp add: update_keys)
    then show ?thesis using distinct_card [OF d] distinct_card [of "map fst (requests rl)"] assms(1) by (simp add: pl_ok_def)
  qed
  then show "rl_Count rl' = rl_Count rl + (if ok then 1 else 0)" by (simp add: rl' rl_Count_def)
  show "pl_ok pn rl'"
  proof (cases ok)
    case True
    have i: "pl_in b rl' = pl_in b ?s" for b using True by (simp add: rl' pl_in_cong [of "listActivity (pn r) ?s" ?s])
    have "tracks pn (pl_in True rl) ?s" using assms(1) tracks_cong [of ?s rl] by (simp add: pl_ok_def)
    from tracks_list [OF this _ assms(2)] n [OF True] have "tracks pn (pl_in True rl') rl'"
      unfolding i using True by (simp add: rl' pl_in_set)
    moreover have "pl_in False rl' = pl_in False rl" using n [OF True] by (simp add: i pl_in_set)
    ultimately show ?thesis using pl_ok_set [OF assms(1,2), of True] assms(1) True by (simp add: pl_ok_def rl')
  qed (use assms rl' in simp)
qed

lemma pl_Finish_ok:
  assumes "pl_ok pn rl" "pl_GetState rl r \<noteq> (False, True)" "pl_Finish pn r rl = (rl', ok)"
  shows "pl_ok pn rl'" "pl_GetState rl' x = (if ok \<and> x = r then (False, True) else pl_GetState rl x)" "ok \<longleftrightarrow> pl_Exist rl r"
    "rl_Count rl' = rl_Count rl"
proof -
  let ?s = "(setRequest r False rl)\<lparr>countFinish := countFinish rl + 1\<rparr>"
  show ok: "ok \<longleftrightarrow> pl_Exist rl r" using assms(3) by (auto simp: pl_Finish_def Let_def split: if_splits)
  have rl': "rl' = (if ok then delistActivity (pn r) ?s else rl)" using assms(3) by (auto simp: pl_Finish_def Let_def split: if_splits)
  show "pl_GetState rl' x = (if ok \<and> x = r then (False, True) else pl_GetState rl x)"
    by (simp add: rl' pl_GetState_def update_conv)
  have mem: "r \<in> fst ` set (requests rl)" if ok using that ok by (metis map_of_eq_None_iff pl_Exist_def)
  show "rl_Count rl' = rl_Count rl"
  proof (cases ok)
    case True
    have d: "distinct (map fst (AList.update r False (requests rl)))" using assms(1) by (simp add: pl_ok_def distinct_update)
    have "fst ` set (AList.update r False (requests rl)) = fst ` set (requests rl)" using mem [OF True] by (auto simp: update_keys)
    then show ?thesis using True distinct_card [OF d] distinct_card [of "map fst (requests rl)"] assms(1)
      by (simp add: pl_ok_def rl' rl_Count_def)
  qed (simp add: rl')
  show "pl_ok pn rl'"
  proof (cases ok)
    case True
    have i: "pl_in b rl' = pl_in b (setRequest r False rl)" for b using True
      by (simp add: rl' pl_in_cong [of "delistActivity (pn r) ?s" "setRequest r False rl"])
    have act: "r \<in> pl_in True rl" "r \<notin> pl_in False rl" using True ok assms(2)
      by (auto simp: pl_in_def pl_GetState_def pl_Exist_def)
    have p: "pn r \<noteq> Unknown" using mem [OF True] assms(1) by (auto simp: pl_ok_def)
    have "tracks pn (pl_in True rl) ?s" using assms(1) tracks_cong [of ?s rl] by (simp add: pl_ok_def)
    from tracks_delist [OF this act(1)] have "tracks pn (pl_in True rl') rl'"
      unfolding i using True by (simp add: rl' pl_in_set)
    moreover have "card (pl_in False rl') = card (pl_in False rl) + 1" using act(2) by (simp add: i pl_in_set pl_finite)
    ultimately show ?thesis using pl_ok_set [OF assms(1) p, of False] assms(1) True by (simp add: pl_ok_def rl')
  qed (use assms rl' in simp)
qed

text \<open>A pending list in use: a request is finished at most once.\<close>

inductive pending_reach :: "('r \<Rightarrow> Number) \<Rightarrow> 'r PendingList \<Rightarrow> bool" for pn where
  pr_new: "pending_reach pn newRequestList"
| pr_add: "pending_reach pn rl \<Longrightarrow> pn r \<noteq> Unknown \<Longrightarrow> pl_Add pn r rl = (rl', ok) \<Longrightarrow> pending_reach pn rl'"
| pr_finish: "pending_reach pn rl \<Longrightarrow> pl_GetState rl r \<noteq> (False, True) \<Longrightarrow> pl_Finish pn r rl = (rl', ok) \<Longrightarrow> pending_reach pn rl'"

lemma pending_reach_ok: "pending_reach pn rl \<Longrightarrow> pl_ok pn rl"
  by (induction rule: pending_reach.induct) (auto intro: pl_new_ok pl_Add_ok(1) pl_Finish_ok(1))

lemma pl_counts:
  assumes "pl_ok pn rl"
  shows "countActive rl = int (card (pl_in True rl))" "countFinish rl = int (card (pl_in False rl))"
    "earliestActivePulse rl = leastPulse (pn ` pl_in True rl)" "rl_Count rl = countActive rl + countFinish rl"
proof -
  show a: "countActive rl = int (card (pl_in True rl))" "countFinish rl = int (card (pl_in False rl))"
    "earliestActivePulse rl = leastPulse (pn ` pl_in True rl)" using assms by (simp_all add: pl_ok_def tracks_def)
  have "pl_in True rl \<inter> pl_in False rl = {}" by (auto simp: pl_in_def)
  then have "card (fst ` set (requests rl)) = card (pl_in True rl) + card (pl_in False rl)"
    using card_Un_disjoint [OF pl_finite [of True rl] pl_finite [of False rl]] pl_in_keys [of rl] by simp
  then show "rl_Count rl = countActive rl + countFinish rl"
    using a distinct_card [of "map fst (requests rl)"] assms by (simp add: rl_Count_def pl_ok_def)
qed

text \<open>
  A pending list tells the truth as long as no request is reported finished twice: its counters are the
  numbers of active and of finished requests, every request of the list is one or the other, and the
  earliest pulse is the least pulse of the active requests, or unknown when none is active.
\<close>
theorem pending_list_counts:
  assumes "pending_reach pn rl"
  shows "countActive rl = int (card {r. pl_GetState rl r = (True, True)}) \<and>
     countFinish rl = int (card {r. pl_GetState rl r = (False, True)}) \<and>
     rl_Count rl = countActive rl + countFinish rl \<and>
     earliestActivePulse rl = leastPulse (pn ` {r. pl_GetState rl r = (True, True)})"
  using pl_counts [OF pending_reach_ok [OF assms]] by (simp add: pl_in_def)

theorem pending_list_counts_witness:
  "let rl = fst (pl_Finish id 70000 (fst (pl_Add id 70010 (fst (pl_Add id 70000 newRequestList))))) in
   earliestActivePulse rl = leastPulse (id ` {r. pl_GetState rl r = (True, True)}) \<and> earliestActivePulse rl = 70010 \<and> countFinish rl = 1"
proof -
  have a: "pending_reach id (fst (pl_Add id 70000 newRequestList))"
    by (rule pr_add [OF pr_new _ prod.collapse [symmetric]]) (simp add: Pulse_Number.Unknown_def)
  have b: "pending_reach id (fst (pl_Add id 70010 (fst (pl_Add id 70000 newRequestList))))"
    by (rule pr_add [OF a _ prod.collapse [symmetric]]) (simp add: Pulse_Number.Unknown_def)
  have st: "pl_GetState (fst (pl_Add id 70010 (fst (pl_Add id 70000 newRequestList)))) 70000 \<noteq> (False, True)" by code_simp
  have v: "earliestActivePulse (fst (pl_Finish id 70000 (fst (pl_Add id 70010 (fst (pl_Add id 70000 newRequestList)))))) = 70010 \<and>
      countFinish (fst (pl_Finish id 70000 (fst (pl_Add id 70010 (fst (pl_Add id 70000 newRequestList)))))) = 1" by code_simp
  show ?thesis using pending_list_counts [OF pr_finish [OF b st prod.collapse [symmetric]]] v by (simp add: Let_def)
qed

text \<open>
  Finish does not look at the state of the request, so a second Finish of the same request is counted
  again: the list says that nothing is active while another request still is.
\<close>

definition pl_sample :: "nat PendingList" where
  "pl_sample = fst (pl_Add (\<lambda>_. 70000) 2 (fst (pl_Add (\<lambda>_. 70000) 1 newRequestList)))"

lemma pending_finish_twice:
  "let rl = fst (pl_Finish (\<lambda>_. 70000) 1 (fst (pl_Finish (\<lambda>_. 70000) 1 pl_sample))) in
   countActive rl = 0 \<and> pl_GetState rl 2 = (True, True) \<and> countFinish rl = 2 \<and> earliestActivePulse rl = Unknown"
  by code_simp

text \<open>
  A working request that was added and never made active is taken off the counter of active requests
  when it is finished; in a table the missing summary makes the same call panic.
\<close>

lemma working_finish_started:
  "let rl = fst (wl_finish (\<lambda>_. 70000) (1 :: nat) (fst (wl_add 1 newRequestList))) in countActive rl = - 1 \<and> GetState rl 1 = RequestFinished"
  by code_simp

end
