(* ===== verification/Message_Validation.thy ===== *)
theory Message_Validation
  imports Reference Call_Registry
begin

text \<open>
  Validation of the messages between virtual nodes, \<^verbatim>\<open>ledger-core/rms/proto_vnvn_validation*.go\<close>, with the flag words they
  carry.  A message is a record of the fields that its \<^verbatim>\<open>Validate\<close> reads: a reference field is \<open>None\<close> when it is not
  set, a binary field is a list of bytes, of a delegation token only the type is read.  A validation gives
  \<open>Inl\<close> of the message of the error or \<open>Inr\<close>.  References that are resolved lazily are not modelled.
\<close>

subsection \<open>Errors\<close>

fun ebnd :: "string + 'a \<Rightarrow> ('a \<Rightarrow> string + 'b) \<Rightarrow> string + 'b" where
  "ebnd (Inl e) f = Inl e"
| "ebnd (Inr v) f = f v"

lemma ebnd_Inr_iff: "ebnd m f = Inr r \<longleftrightarrow> (\<exists>v. m = Inr v \<and> f v = Inr r)"
  by (cases m) auto

text \<open>A switch whose cases all return an error: the first condition that holds decides.\<close>

fun firstFault :: "(bool \<times> string) list \<Rightarrow> string + unit" where
  "firstFault [] = Inr ()"
| "firstFault ((c, e) # cs) = (if c then Inl e else firstFault cs)"

lemma firstFault_Inr: "firstFault ((c, e) # cs) = Inr u \<longleftrightarrow> \<not> c \<and> firstFault cs = Inr u"
  by simp

subsection \<open>Fields\<close>

type_synonym ReferenceField = "Global option"
type_synonym Binary = "u8 list"
type_synonym CallDelegationToken = u16

definition GetValue :: "ReferenceField \<Rightarrow> Global" where
  "GetValue p = (case p of None \<Rightarrow> zeroGlobal | Some g \<Rightarrow> g)"

definition ref_IsZero :: "ReferenceField \<Rightarrow> bool" where
  "ref_IsZero p \<longleftrightarrow> p = None"

definition ref_IsEmpty :: "ReferenceField \<Rightarrow> bool" where
  "ref_IsEmpty p \<longleftrightarrow> (case p of None \<Rightarrow> True | Some g \<Rightarrow> global_IsEmpty g)"

definition GetPulseOfLocal :: "ReferenceField \<Rightarrow> Number" where
  "GetPulseOfLocal p = (case p of None \<Rightarrow> 0 | Some g \<Rightarrow> PulseNumberOf (Some g))"

definition token_IsZero :: "CallDelegationToken \<Rightarrow> bool" where
  "token_IsZero m \<longleftrightarrow> m = 0"

subsection \<open>Flags\<close>

type_synonym CallFlags = u32

definition StateFlagCount :: u8 where "StateFlagCount = 3"

definition interference_IsValid :: "u8 \<Rightarrow> bool" where
  "interference_IsValid f \<longleftrightarrow> f > 0 \<and> f < of_nat InterferenceFlagCount"

definition state_IsValid :: "u8 \<Rightarrow> bool" where
  "state_IsValid f \<longleftrightarrow> f > 0 \<and> f < StateFlagCount"

definition bitInterferenceMask :: u32 where "bitInterferenceMask = 3"
definition bitStateFlagMask :: u32 where "bitStateFlagMask = 12"

definition WithInterference :: "CallFlags \<Rightarrow> u8 \<Rightarrow> CallFlags res" where
  "WithInterference f t =
     (if t = 0 then Panic ''IllegalValue''
      else if t > of_nat InterferenceFlagCount then Panic ''IllegalValue''
      else Ok ((f AND NOT bitInterferenceMask) OR ucast t))"

definition GetInterference :: "CallFlags \<Rightarrow> u8" where
  "GetInterference f = ucast (f AND bitInterferenceMask)"

definition WithState :: "CallFlags \<Rightarrow> u8 \<Rightarrow> CallFlags res" where
  "WithState f s =
     (if s = 0 then Panic ''IllegalValue''
      else if s > StateFlagCount then Panic ''IllegalValue''
      else Ok ((f AND NOT bitStateFlagMask) OR push_bit 2 (ucast s)))"

definition callFlags_GetState :: "CallFlags \<Rightarrow> u8" where
  "callFlags_GetState f = drop_bit 2 (ucast (f AND bitStateFlagMask))"

definition callFlags_IsValid :: "CallFlags \<Rightarrow> bool" where
  "callFlags_IsValid f \<longleftrightarrow> interference_IsValid (GetInterference f) \<and> state_IsValid (callFlags_GetState f) \<and>
     f AND NOT bitStateFlagMask AND NOT bitInterferenceMask = 0"

definition BuildCallFlags :: "u8 \<Rightarrow> u8 \<Rightarrow> CallFlags res" where
  "BuildCallFlags interference state = bnd (WithInterference 0 interference) (\<lambda>f. WithState f state)"

type_synonym CallRequestFlags = u32

definition bitSendResultFullMask :: u32 where "bitSendResultFullMask = 1"
definition bitRepeatedCallMask :: u32 where "bitRepeatedCallMask = 2"

definition WithSendResultFull :: "CallRequestFlags \<Rightarrow> u8 \<Rightarrow> CallRequestFlags res" where
  "WithSendResultFull f t =
     (if t > 1 then Panic ''IllegalValue'' else Ok ((f AND NOT bitSendResultFullMask) OR ucast t))"

definition GetSendResult :: "CallRequestFlags \<Rightarrow> u8" where
  "GetSendResult f = ucast (f AND bitSendResultFullMask)"

definition WithRepeatedCall :: "CallRequestFlags \<Rightarrow> u8 \<Rightarrow> CallRequestFlags res" where
  "WithRepeatedCall f s =
     (if s > 1 then Panic ''IllegalValue'' else Ok ((f AND NOT bitRepeatedCallMask) OR push_bit 1 (ucast s)))"

definition GetRepeatedCall :: "CallRequestFlags \<Rightarrow> u8" where
  "GetRepeatedCall f = drop_bit 1 (ucast (f AND bitRepeatedCallMask))"

definition BuildCallRequestFlags :: "u8 \<Rightarrow> u8 \<Rightarrow> CallRequestFlags res" where
  "BuildCallRequestFlags sendResultFull repeatedCall = bnd (WithSendResultFull 0 sendResultFull) (\<lambda>f. WithRepeatedCall f repeatedCall)"

text \<open>The two single bit fields cannot panic when they are cleared.\<close>

definition callRequestFlags_IsValid :: "CallRequestFlags \<Rightarrow> bool" where
  "callRequestFlags_IsValid f \<longleftrightarrow> GetRepeatedCall f < 2 \<and> GetSendResult f < 2 \<and>
     bnd (WithRepeatedCall f 0) (\<lambda>f. WithSendResultFull f 0) = Ok 0"

type_synonym StateRequestContentFlags = u32

definition RequestLatestValidatedState :: u32 where "RequestLatestValidatedState = 1"
definition RequestLatestDirtyState :: u32 where "RequestLatestDirtyState = 2"
definition RequestOrderedQueue :: u32 where "RequestOrderedQueue = 16"
definition RequestUnorderedQueue :: u32 where "RequestUnorderedQueue = 32"
definition maxRequestedContentByte :: nat where "maxRequestedContentByte = 6"

definition content_Contains :: "StateRequestContentFlags \<Rightarrow> u32 \<Rightarrow> bool" where
  "content_Contains f other \<longleftrightarrow> f AND other \<noteq> 0"

definition content_Set :: "u32 list \<Rightarrow> StateRequestContentFlags \<Rightarrow> StateRequestContentFlags" where
  "content_Set flags f = fold (\<lambda>flag f. f OR flag) flags f"

definition content_Unset :: "u32 list \<Rightarrow> StateRequestContentFlags \<Rightarrow> StateRequestContentFlags" where
  "content_Unset flags f = fold (\<lambda>flag f. f AND NOT flag) flags f"

definition content_IsValid :: "StateRequestContentFlags \<Rightarrow> bool" where
  "content_IsValid f \<longleftrightarrow> fold (\<lambda>i f. content_Unset [push_bit i 1] f) [0 ..< maxRequestedContentByte] f = 0"

subsection \<open>Pulses and references\<close>

definition isSpecialOrTimePulseBefore :: "Number \<Rightarrow> Number \<Rightarrow> bool" where
  "isSpecialOrTimePulseBefore pn before \<longleftrightarrow> IsSpecial pn \<or> IsTimePulse pn \<and> IsBefore pn before"

definition isTimePulseBefore :: "Number \<Rightarrow> Number \<Rightarrow> bool" where
  "isTimePulseBefore pn before \<longleftrightarrow> IsTimePulse pn \<and> IsBefore pn before"

definition isSpecialOrTimePulseBeforeOrEq :: "Number \<Rightarrow> Number \<Rightarrow> bool" where
  "isSpecialOrTimePulseBeforeOrEq pn before \<longleftrightarrow> IsSpecial pn \<or> IsTimePulse pn \<and> IsBeforeOrEq pn before"

definition isTimePulseBeforeOrEq :: "Number \<Rightarrow> Number \<Rightarrow> bool" where
  "isTimePulseBeforeOrEq pn before \<longleftrightarrow> IsTimePulse pn \<and> IsBeforeOrEq pn before"

datatype PulseValidator = timePulseBefore | specialOrTmePulseBefore | timePulseBeforeOrEq | specialOrTmePulseBeforeOrEq

fun ValidateTime :: "PulseValidator \<Rightarrow> Number \<Rightarrow> Number \<Rightarrow> bool" where
  "ValidateTime timePulseBefore pn before = isTimePulseBefore pn before"
| "ValidateTime specialOrTmePulseBefore pn before = isSpecialOrTimePulseBeforeOrEq pn before"
| "ValidateTime timePulseBeforeOrEq pn before = isTimePulseBeforeOrEq pn before"
| "ValidateTime specialOrTmePulseBeforeOrEq pn before = isSpecialOrTimePulseBeforeOrEq pn before"

text \<open>Only the two validators of time pulses have this method.\<close>

fun ValidateSpecialOrTime :: "PulseValidator \<Rightarrow> Number \<Rightarrow> Number \<Rightarrow> bool" where
  "ValidateSpecialOrTime timePulseBefore pn before = isSpecialOrTimePulseBefore pn before"
| "ValidateSpecialOrTime timePulseBeforeOrEq pn before = isSpecialOrTimePulseBeforeOrEq pn before"
| "ValidateSpecialOrTime _ pn before = False"

definition globalBasePulseIsSpecialOrBeforeOrEqLocalPulse :: "Global \<Rightarrow> bool" where
  "globalBasePulseIsSpecialOrBeforeOrEqLocalPulse g =
     (let basePulse = GetPulseNumber (addressBase g); localPulse = GetPulseNumber (addressLocal g) in
      IsSpecial basePulse \<or> IsBeforeOrEq basePulse localPulse)"

definition validSelfScopedGlobalWithPulseCheck :: "Global \<Rightarrow> Number \<Rightarrow> PulseValidator \<Rightarrow> string + Number" where
  "validSelfScopedGlobalWithPulseCheck g before checker =
     (if \<not> IsSelfScope g then Inl ''Reference should be self scoped''
      else let pn = GetPulseNumber (addressLocal g) in
        if \<not> ValidateTime checker pn before then Inl ''Reference pulse should be valid time pulse with relation to given pulse''
        else Inr pn)"

definition validRequestGlobalWithPulseCheck :: "Global \<Rightarrow> Number \<Rightarrow> PulseValidator \<Rightarrow> string + Number" where
  "validRequestGlobalWithPulseCheck outgoing before checker =
     (if global_IsEmpty outgoing then Inl ''Reference should be non-empty''
      else
        let outgoingLocalPulse = GetPulseNumber (addressLocal outgoing); outgoingBasePulse = GetPulseNumber (addressBase outgoing) in
        if \<not> ValidateTime checker outgoingLocalPulse before
        then Inl ''Reference local pulse should be valid time pulse with relation to given pulse''
        else if \<not> ValidateSpecialOrTime checker outgoingBasePulse before
        then Inl ''Base part should have valid pulse with relation to given pulse''
        else if \<not> globalBasePulseIsSpecialOrBeforeOrEqLocalPulse outgoing
        then Inl ''Base pulse should be less or equal than local pulse''
        else Inr outgoingLocalPulse)"

definition validSelfScopedGlobalWithPulseBeforeOrEq :: "Global \<Rightarrow> Number \<Rightarrow> string + Number" where
  "validSelfScopedGlobalWithPulseBeforeOrEq g before = validSelfScopedGlobalWithPulseCheck g before timePulseBeforeOrEq"

definition validSelfScopedGlobalWithPulseSpecialOrBefore :: "Global \<Rightarrow> Number \<Rightarrow> string + Number" where
  "validSelfScopedGlobalWithPulseSpecialOrBefore g before = validSelfScopedGlobalWithPulseCheck g before specialOrTmePulseBefore"

definition validSelfScopedGlobalWithPulseSpecialOrBeforeOrEq :: "Global \<Rightarrow> Number \<Rightarrow> string + Number" where
  "validSelfScopedGlobalWithPulseSpecialOrBeforeOrEq g before = validSelfScopedGlobalWithPulseCheck g before specialOrTmePulseBeforeOrEq"

definition validRequestGlobalWithPulseBefore :: "Global \<Rightarrow> Number \<Rightarrow> string + Number" where
  "validRequestGlobalWithPulseBefore outgoing before = validRequestGlobalWithPulseCheck outgoing before timePulseBefore"

definition validRequestGlobalWithPulseBeforeOrEq :: "Global \<Rightarrow> Number \<Rightarrow> string + Number" where
  "validRequestGlobalWithPulseBeforeOrEq outgoing before = validRequestGlobalWithPulseCheck outgoing before timePulseBeforeOrEq"

datatype CallType = CallTypeInvalid | CallTypeInboundAPI | CallTypeOutboundAPI | CallTypeMethod | CallTypeConstructor
  | CallTypeNotify | CallTypeSAGA | CallTypeParallel | CallTypeSchedule | CallTypeOther int

definition validCallType :: "CallType \<Rightarrow> string + unit" where
  "validCallType ct =
     (case ct of CallTypeMethod \<Rightarrow> Inr () | CallTypeConstructor \<Rightarrow> Inr ()
      | CallTypeInvalid \<Rightarrow> Inl ''CallType must be valid'' | CallTypeOther _ \<Rightarrow> Inl ''CallType must be valid''
      | _ \<Rightarrow> Inl ''CallType is not implemented'')"

subsection \<open>Calls\<close>

record VCallRequest =
  req_CallType :: CallType
  req_CallFlags :: CallFlags
  req_CallAsOf :: Number
  req_Caller :: ReferenceField
  req_Callee :: ReferenceField
  req_CallSiteDeclaration :: ReferenceField
  req_CallSiteMethod :: string
  req_RootTX :: ReferenceField
  req_CallTX :: ReferenceField
  req_ExpenseCenter :: ReferenceField
  req_ResourceCenter :: ReferenceField
  req_ProducerSignature :: Binary
  req_RegistrarSignature :: Binary
  req_RegistrarDelegationSpec :: CallDelegationToken
  req_CallRequestFlags :: CallRequestFlags
  req_KnownCalleeIncoming :: ReferenceField
  req_CallOutgoing :: ReferenceField
  req_TXExpiry :: Number
  req_SecurityContext :: Binary
  req_TXContext :: Binary
  req_Arguments :: Binary

definition VCallRequest_validateUnimplemented :: "VCallRequest \<Rightarrow> string + unit" where
  "VCallRequest_validateUnimplemented m = firstFault
     [(\<not> ref_IsZero (req_CallSiteDeclaration m), ''CallSiteDeclaration should be empty''),
      (\<not> ref_IsZero (req_RootTX m), ''RootTX should be empty''),
      (\<not> ref_IsZero (req_CallTX m), ''CallTX should be empty''),
      (\<not> ref_IsZero (req_ExpenseCenter m), ''ExpenseCenter should be empty''),
      (\<not> ref_IsZero (req_ResourceCenter m), ''ResourceCenter should be empty''),
      (req_ProducerSignature m \<noteq> [], ''ProducerSignature should be nil''),
      (req_RegistrarSignature m \<noteq> [], ''RegistrarSignature should be nil''),
      (\<not> token_IsZero (req_RegistrarDelegationSpec m), ''RegistrarDelegationSpec should be empty''),
      (\<not> ref_IsZero (req_KnownCalleeIncoming m), ''KnownCalleeIncoming should be empty''),
      (\<not> IsUnknown (req_TXExpiry m), ''TXExpiry should be unknown''),
      (req_SecurityContext m \<noteq> [], ''SecurityContext should be nil''),
      (req_TXContext m \<noteq> [], ''TXContext should be nil''),
      (\<not> IsUnknown (req_CallAsOf m), ''CallAsOf should be zero'')]"

definition VCallRequest_Validate :: "Number \<Rightarrow> VCallRequest \<Rightarrow> string + unit" where
  "VCallRequest_Validate currentPulse m =
     ebnd (VCallRequest_validateUnimplemented m) (\<lambda>_.
     ebnd (validCallType (req_CallType m)) (\<lambda>_.
     ebnd (firstFault
       [(\<not> callFlags_IsValid (req_CallFlags m), ''CallFlags should be valid''),
        (req_CallSiteMethod m = [], ''CallSiteMethod shouldn't be empty''),
        (\<not> callRequestFlags_IsValid (req_CallRequestFlags m), ''CallRequestFlags should be valid''),
        (req_Arguments m = [], ''Arguments shouldn't be nil'')]) (\<lambda>_.
     ebnd (validSelfScopedGlobalWithPulseSpecialOrBeforeOrEq (GetValue (req_Caller m)) currentPulse) (\<lambda>callerPulse.
     ebnd (validSelfScopedGlobalWithPulseSpecialOrBeforeOrEq (GetValue (req_Caller m)) currentPulse) (\<lambda>calleePulse.
     ebnd (validRequestGlobalWithPulseBeforeOrEq (GetValue (req_CallOutgoing m)) currentPulse) (\<lambda>outgoingLocalPulse.
     firstFault
       [(\<not> isSpecialOrTimePulseBeforeOrEq calleePulse outgoingLocalPulse, ''Callee local pulse should be before or equal outgoing local pulse''),
        (\<not> isSpecialOrTimePulseBeforeOrEq callerPulse outgoingLocalPulse, ''Caller local pulse should be before or equal outgoing local pulse'')]))))))"

record VCallResult =
  res_CallType :: CallType
  res_CallFlags :: CallFlags
  res_CallAsOf :: Number
  res_Caller :: ReferenceField
  res_Callee :: ReferenceField
  res_ResultFlags :: u32
  res_CallOutgoing :: ReferenceField
  res_CallIncoming :: ReferenceField
  res_CallIncomingResult :: ReferenceField
  res_ProducerSignature :: Binary
  res_RegistrarSignature :: Binary
  res_RegistrarDelegationSpec :: CallDelegationToken
  res_SecurityContext :: Binary
  res_ReturnArguments :: Binary

definition VCallResult_validateUnimplemented :: "VCallResult \<Rightarrow> string + unit" where
  "VCallResult_validateUnimplemented m = firstFault
     [(res_SecurityContext m \<noteq> [], ''SecurityContext should be empty''),
      (\<not> token_IsZero (res_RegistrarDelegationSpec m), ''RegistrarDelegationSpec should be zero''),
      (res_RegistrarSignature m \<noteq> [], ''RegistrarSignature should be empty''),
      (res_ProducerSignature m \<noteq> [], ''ProducerSignature should be empty''),
      (res_ResultFlags m \<noteq> 0, ''ResultFlags should be zero''),
      (\<not> ref_IsEmpty (res_CallIncomingResult m), ''CallIncomingResult should be empty''),
      (\<not> IsUnknown (res_CallAsOf m), ''CallAsOf should be zero'')]"

definition VCallResult_Validate :: "Number \<Rightarrow> VCallResult \<Rightarrow> string + unit" where
  "VCallResult_Validate currentPulse m =
     ebnd (VCallResult_validateUnimplemented m) (\<lambda>_.
     ebnd (validCallType (res_CallType m)) (\<lambda>_.
     ebnd (firstFault
       [(\<not> callFlags_IsValid (res_CallFlags m), ''CallFlags should be valid''),
        (res_ReturnArguments m = [], ''ReturnArguments should not be empty'')]) (\<lambda>_.
     ebnd (validSelfScopedGlobalWithPulseSpecialOrBeforeOrEq (GetValue (res_Caller m)) currentPulse) (\<lambda>callerPulse.
     ebnd (validSelfScopedGlobalWithPulseSpecialOrBeforeOrEq (GetValue (res_Callee m)) currentPulse) (\<lambda>calleePulse.
     ebnd (validRequestGlobalWithPulseBeforeOrEq (GetValue (res_CallOutgoing m)) currentPulse) (\<lambda>outgoingLocalPulse.
     ebnd (validRequestGlobalWithPulseBeforeOrEq (GetValue (res_CallIncoming m)) currentPulse) (\<lambda>incomingLocalPulse.
     firstFault
       [(\<not> isSpecialOrTimePulseBeforeOrEq calleePulse outgoingLocalPulse, ''Callee local pulse should be before or equal outgoing local pulse''),
        (\<not> isSpecialOrTimePulseBeforeOrEq callerPulse outgoingLocalPulse, ''Caller local pulse should be before or equal outgoing local pulse''),
        (\<not> isSpecialOrTimePulseBeforeOrEq calleePulse incomingLocalPulse, ''Callee local pulse should be before or equal incoming local pulse''),
        (\<not> isSpecialOrTimePulseBeforeOrEq callerPulse incomingLocalPulse, ''Caller local pulse should be before or equal incoming local pulse'')])))))))"

subsection \<open>Delegation\<close>

record ObjectState =
  os_Reference :: ReferenceField
  os_Class :: ReferenceField
  os_Memory :: Binary
  os_Deactivated :: bool

record VDelegatedCallRequest =
  dcr_Callee :: ReferenceField
  dcr_CallFlags :: CallFlags
  dcr_CallOutgoing :: ReferenceField
  dcr_CallIncoming :: ReferenceField

definition VDelegatedCallRequest_Validate :: "Number \<Rightarrow> VDelegatedCallRequest \<Rightarrow> string + unit" where
  "VDelegatedCallRequest_Validate currentPulse m =
     ebnd (firstFault [(\<not> callFlags_IsValid (dcr_CallFlags m), ''CallFlags should be valid'')]) (\<lambda>_.
     ebnd (validSelfScopedGlobalWithPulseSpecialOrBefore (GetValue (dcr_Callee m)) currentPulse) (\<lambda>calleePulse.
     ebnd (validRequestGlobalWithPulseBefore (GetValue (dcr_CallOutgoing m)) currentPulse) (\<lambda>outgoingLocalPulse.
     ebnd (validRequestGlobalWithPulseBefore (GetValue (dcr_CallIncoming m)) currentPulse) (\<lambda>incomingLocalPulse.
     firstFault
       [(\<not> IsEqOrAfter outgoingLocalPulse incomingLocalPulse, ''CallOutgoing pulse should be more or equal than CallIncoming pulse''),
        (\<not> IsEqOrAfter incomingLocalPulse calleePulse, ''Callee pulse should be less or equal than CallOutgoing pulse'')]))))"

record VDelegatedCallResponse =
  dcs_Callee :: ReferenceField
  dcs_CallIncoming :: ReferenceField

definition VDelegatedCallResponse_Validate :: "Number \<Rightarrow> VDelegatedCallResponse \<Rightarrow> string + unit" where
  "VDelegatedCallResponse_Validate currentPulse m =
     ebnd (validSelfScopedGlobalWithPulseSpecialOrBefore (GetValue (dcs_Callee m)) currentPulse) (\<lambda>calleePulse.
     ebnd (validRequestGlobalWithPulseBefore (GetValue (dcs_CallIncoming m)) currentPulse) (\<lambda>incomingLocalPulse.
     firstFault [(\<not> IsEqOrAfter incomingLocalPulse calleePulse, ''Callee pulse should be less or equal than CallIncoming pulse'')]))"

record VDelegatedRequestFinished =
  drf_CallType :: CallType
  drf_CallFlags :: CallFlags
  drf_Callee :: ReferenceField
  drf_ResultFlags :: u32
  drf_CallOutgoing :: ReferenceField
  drf_CallIncoming :: ReferenceField
  drf_LatestState :: "ObjectState option"

definition drf_isIntolerable :: "VDelegatedRequestFinished \<Rightarrow> bool" where
  "drf_isIntolerable m \<longleftrightarrow> GetInterference (drf_CallFlags m) = CallIntolerable"

definition VDelegatedRequestFinished_Validate :: "Number \<Rightarrow> VDelegatedRequestFinished \<Rightarrow> string + unit" where
  "VDelegatedRequestFinished_Validate currentPulse m =
     ebnd (firstFault [(drf_ResultFlags m \<noteq> 0, ''ResultFlags should be zero'')]) (\<lambda>_.
     ebnd (validCallType (drf_CallType m)) (\<lambda>_.
     ebnd (firstFault [(\<not> callFlags_IsValid (drf_CallFlags m), ''CallFlags should be valid'')]) (\<lambda>_.
     ebnd (validSelfScopedGlobalWithPulseSpecialOrBeforeOrEq (GetValue (drf_Callee m)) currentPulse) (\<lambda>calleePulse.
     ebnd (validRequestGlobalWithPulseBeforeOrEq (GetValue (drf_CallOutgoing m)) currentPulse) (\<lambda>outgoingLocalPulse.
     ebnd (validRequestGlobalWithPulseBeforeOrEq (GetValue (drf_CallIncoming m)) currentPulse) (\<lambda>incomingLocalPulse.
     firstFault
       [(\<not> IsEqOrAfter outgoingLocalPulse incomingLocalPulse, ''CallOutgoing pulse should be more or equal than CallIncoming pulse''),
        (\<not> IsEqOrAfter incomingLocalPulse calleePulse, ''Callee pulse should be less or equal than CallOutgoing pulse''),
        (drf_isIntolerable m \<and> drf_LatestState m \<noteq> None, ''LatestState should be empty on Intolerable call''),
        (drf_CallType m = CallTypeConstructor \<and> drf_LatestState m = None, ''LatestState should be non-empty on Constructor call'')]))))))"

subsection \<open>Finding calls\<close>

record VFindCallRequest =
  fcr_LookAt :: Number
  fcr_Callee :: ReferenceField
  fcr_Outgoing :: ReferenceField

definition VFindCallRequest_Validate :: "Number \<Rightarrow> VFindCallRequest \<Rightarrow> string + unit" where
  "VFindCallRequest_Validate currentPulse m =
     (let lookAtPulse = fcr_LookAt m in
     ebnd (firstFault [(\<not> isTimePulseBeforeOrEq lookAtPulse currentPulse, ''LookAt should be valid time pulse before current pulse'')]) (\<lambda>_.
     ebnd (validSelfScopedGlobalWithPulseSpecialOrBefore (GetValue (fcr_Callee m)) currentPulse) (\<lambda>calleePulse.
     ebnd (validRequestGlobalWithPulseBeforeOrEq (GetValue (fcr_Outgoing m)) currentPulse) (\<lambda>outgoingLocalPulse.
     firstFault
       [(\<not> IsEqOrAfter lookAtPulse outgoingLocalPulse, ''LookAt should be more or equal Outgoing local pulse''),
        (\<not> IsEqOrAfter outgoingLocalPulse calleePulse, ''Outgoing local pulse should be more or equal Callee pulse'')]))))"

datatype CallState = CallStateInvalid | CallStateMissing | CallStateUnknown | CallStateFound

record VFindCallResponse =
  fcs_LookedAt :: Number
  fcs_Callee :: ReferenceField
  fcs_Outgoing :: ReferenceField
  fcs_Status :: CallState
  fcs_CallResult :: "VCallResult option"

definition VFindCallResponse_Validate :: "Number \<Rightarrow> VFindCallResponse \<Rightarrow> string + unit" where
  "VFindCallResponse_Validate currentPulse m =
     ebnd (firstFault [(\<not> isTimePulseBefore (fcs_LookedAt m) currentPulse, ''LookedAt should be valid pulse lesser than current pulse'')]) (\<lambda>_.
     ebnd (validSelfScopedGlobalWithPulseSpecialOrBefore (GetValue (fcs_Callee m)) currentPulse) (\<lambda>calleePulse.
     ebnd (validRequestGlobalWithPulseBefore (GetValue (fcs_Outgoing m)) currentPulse) (\<lambda>outgoingLocalPulse.
     ebnd (firstFault [(\<not> IsEqOrAfter outgoingLocalPulse calleePulse, ''Callee pulse should be before outgoing pulse'')]) (\<lambda>_.
     case fcs_Status m of
       CallStateInvalid \<Rightarrow> Inr ()
     | CallStateFound \<Rightarrow> (case fcs_CallResult m of None \<Rightarrow> Inr () | Some r \<Rightarrow> VCallResult_Validate currentPulse r)
     | _ \<Rightarrow> firstFault [(fcs_CallResult m \<noteq> None, ''Call result should be empty'')]))))"

subsection \<open>Object states\<close>

record VStateRequest =
  vsr_AsOf :: Number
  vsr_Object :: ReferenceField
  vsr_RequestedContent :: StateRequestContentFlags
  vsr_RequestedContentLimit :: Binary
  vsr_ProducerSignature :: Binary
  vsr_CallRequestFlags :: u32

definition VStateRequest_validateUnimplemented :: "VStateRequest \<Rightarrow> string + unit" where
  "VStateRequest_validateUnimplemented m = firstFault
     [(vsr_RequestedContentLimit m \<noteq> [], ''RequestedContentLimit should be empty''),
      (vsr_ProducerSignature m \<noteq> [], ''ProducerSignature should be empty''),
      (vsr_CallRequestFlags m \<noteq> 0, ''CallRequestFlags should be zero'')]"

definition VStateRequest_Validate :: "Number \<Rightarrow> VStateRequest \<Rightarrow> string + unit" where
  "VStateRequest_Validate currentPulse m =
     ebnd (VStateRequest_validateUnimplemented m) (\<lambda>_.
     ebnd (validSelfScopedGlobalWithPulseBeforeOrEq (GetValue (vsr_Object m)) currentPulse) (\<lambda>objectPulse.
     firstFault
       [(\<not> isTimePulseBefore (vsr_AsOf m) currentPulse, ''AsOf should be valid time pulse before current pulse''),
        (\<not> IsBeforeOrEq objectPulse (vsr_AsOf m), ''Object pulse should be before or equal AsOf pulse''),
        (\<not> content_IsValid (vsr_RequestedContent m), ''RequestedContent should be valid'')]))"

datatype StateStatus = StateStatusInvalid | StateStatusReady | StateStatusEmpty | StateStatusInactive | StateStatusMissing

record ProvidedContentBody =
  pc_LatestValidatedState :: "ObjectState option"
  pc_LatestDirtyState :: "ObjectState option"
  pc_LatestValidatedCode :: "ObjectState option"
  pc_LatestDirtyCode :: "ObjectState option"
  pc_OrderedQueue :: "ReferenceField list"
  pc_UnorderedQueue :: "ReferenceField list"

record VStateReport =
  vst_Status :: StateStatus
  vst_AsOf :: Number
  vst_Object :: ReferenceField
  vst_DelegationSpec :: CallDelegationToken
  vst_UnorderedPendingCount :: int
  vst_UnorderedPendingEarliestPulse :: Number
  vst_OrderedPendingCount :: int
  vst_OrderedPendingEarliestPulse :: Number
  vst_PreRegisteredQueueCount :: int
  vst_PreRegisteredEarliestPulse :: Number
  vst_PriorityCallQueueCount :: int
  vst_LatestValidatedState :: ReferenceField
  vst_LatestValidatedCode :: ReferenceField
  vst_LatestDirtyState :: ReferenceField
  vst_LatestDirtyCode :: ReferenceField
  vst_ProvidedContent :: "ProvidedContentBody option"

definition content_validateUnimplemented :: "ProvidedContentBody option \<Rightarrow> string + unit" where
  "content_validateUnimplemented m =
     (case m of None \<Rightarrow> Inr ()
      | Some c \<Rightarrow> firstFault
          [(pc_OrderedQueue c \<noteq> [], ''ProvidedContent.OrderedQueue should be empty''),
           (pc_UnorderedQueue c \<noteq> [], ''ProvidedContent.UnorderedQueue should be empty'')])"

definition content_validateIsEmpty :: "ProvidedContentBody option \<Rightarrow> string + unit" where
  "content_validateIsEmpty m =
     (case m of None \<Rightarrow> Inr ()
      | Some c \<Rightarrow> firstFault
          [(pc_LatestValidatedState c \<noteq> None, ''ProvidedContent.LatestValidatedState should be empty''),
           (pc_LatestValidatedCode c \<noteq> None, ''ProvidedContent.LatestValidatedCode should be empty''),
           (pc_LatestDirtyState c \<noteq> None, ''ProvidedContent.LatestDirtyState should be empty''),
           (pc_LatestDirtyCode c \<noteq> None, ''ProvidedContent.LatestDirtyCode should be empty'')])"

definition report_validateUnimplemented :: "VStateReport \<Rightarrow> string + unit" where
  "report_validateUnimplemented m =
     ebnd (firstFault
       [(\<not> token_IsZero (vst_DelegationSpec m), ''DelegationSpec should be empty''),
        (vst_PreRegisteredQueueCount m \<noteq> 0, ''PriorityCallQueueCount should be 0''),
        (\<not> IsUnknown (vst_PreRegisteredEarliestPulse m), ''PreRegisteredEarliestPulse should be unknown''),
        (vst_PriorityCallQueueCount m \<noteq> 0, ''PriorityCallQueueCount should be 0'')]) (\<lambda>_.
     content_validateUnimplemented (vst_ProvidedContent m))"

definition validateStateAndCodeAreEmpty :: "VStateReport \<Rightarrow> string + unit" where
  "validateStateAndCodeAreEmpty m = firstFault
     [(\<not> ref_IsEmpty (vst_LatestValidatedState m), ''LatestValidatedState should be empty''),
      (\<not> ref_IsEmpty (vst_LatestValidatedCode m), ''LatestValidatedCode should be empty''),
      (\<not> ref_IsEmpty (vst_LatestDirtyState m), ''LatestDirtyState should be empty''),
      (\<not> ref_IsEmpty (vst_LatestDirtyCode m), ''LatestDirtyCode should be empty'')]"

text \<open>The switch over the count of one kind of pending calls, which occurs twice in the code.\<close>

definition validatePending :: "int \<Rightarrow> Number \<Rightarrow> Number \<Rightarrow> Number \<Rightarrow> string \<Rightarrow> string + unit" where
  "validatePending pendingCount earliestPendingPulse objectPulse currentPulse rangeError =
     (if pendingCount = 0 then firstFault [(\<not> IsUnknown earliestPendingPulse, ''UnorderedPendingEarliestPulse should be Unknown'')]
      else if pendingCount > 0 \<and> pendingCount < 127 then
        firstFault [(\<not> isTimePulseBeforeOrEq earliestPendingPulse currentPulse \<or> \<not> IsEqOrAfter earliestPendingPulse objectPulse, rangeError)]
      else Inl ''UnorderedPendingCount should be in range [0..127)'')"

definition validateStatusReady :: "VStateReport \<Rightarrow> Number \<Rightarrow> Number \<Rightarrow> string + unit" where
  "validateStatusReady m objectPulse currentPulse =
     ebnd (validatePending (vst_UnorderedPendingCount m) (vst_UnorderedPendingEarliestPulse m) objectPulse currentPulse
       ''UnorderedPendingEarliestPulse should be in range [objectPulse..currentPulse]'') (\<lambda>_.
     validatePending (vst_OrderedPendingCount m) (vst_OrderedPendingEarliestPulse m) objectPulse currentPulse
       ''OrderedPendingEarliestPulse should be in range [objectPulse..currentPulse]'')"

definition validateStatusEmpty :: "VStateReport \<Rightarrow> Number \<Rightarrow> Number \<Rightarrow> string + unit" where
  "validateStatusEmpty m objectPulse currentPulse =
     (let orderedPendingPulse = vst_OrderedPendingEarliestPulse m in
     ebnd (firstFault
       [(vst_OrderedPendingCount m \<noteq> 1, ''Should be one ordered pending''),
        (vst_UnorderedPendingCount m \<noteq> 0, ''Unordered pending count should be 0''),
        (\<not> IsUnknown (vst_UnorderedPendingEarliestPulse m), ''Unordered pending earliest pulse should be Unknown''),
        (\<not> isTimePulseBefore orderedPendingPulse currentPulse \<or> \<not> IsBeforeOrEq objectPulse orderedPendingPulse, ''Incorrect pending ordered pulse number'')]) (\<lambda>_.
     ebnd (validateStateAndCodeAreEmpty m) (\<lambda>_.
     content_validateIsEmpty (vst_ProvidedContent m))))"

definition validateStatusMissingOrInactive :: "VStateReport \<Rightarrow> string + unit" where
  "validateStatusMissingOrInactive m =
     ebnd (firstFault
       [(vst_OrderedPendingCount m \<noteq> 0, ''OrderedPendingCount should be 0''),
        (vst_Status m = StateStatusMissing \<and> vst_UnorderedPendingCount m \<noteq> 0, ''UnorderedPendingCount should be 0''),
        (\<not> IsUnknown (vst_OrderedPendingEarliestPulse m), ''OrderedPendingEarliestPulse should be Unknown''),
        (\<not> IsUnknown (vst_UnorderedPendingEarliestPulse m), ''UnorderedPendingEarliestPulse should be Unknown'')]) (\<lambda>_.
     ebnd (content_validateIsEmpty (vst_ProvidedContent m)) (\<lambda>_.
     validateStateAndCodeAreEmpty m))"

definition VStateReport_Validate :: "Number \<Rightarrow> VStateReport \<Rightarrow> string + unit" where
  "VStateReport_Validate currentPulse m =
     ebnd (report_validateUnimplemented m) (\<lambda>_.
     ebnd (firstFault [(\<not> isTimePulseBefore (vst_AsOf m) currentPulse, ''AsOf should be time pulse and less that current pulse'')]) (\<lambda>_.
     ebnd (validSelfScopedGlobalWithPulseBeforeOrEq (GetValue (vst_Object m)) currentPulse) (\<lambda>objectPulse.
     case vst_Status m of
       StateStatusReady \<Rightarrow> validateStatusReady m objectPulse currentPulse
     | StateStatusEmpty \<Rightarrow> validateStatusEmpty m objectPulse currentPulse
     | StateStatusMissing \<Rightarrow> validateStatusMissingOrInactive m
     | StateStatusInactive \<Rightarrow> validateStatusMissingOrInactive m
     | StateStatusInvalid \<Rightarrow> Inl ''Unexpected state received'')))"

subsection \<open>Cached memory and transcripts\<close>

record VCachedMemoryRequest =
  cmr_Object :: ReferenceField
  cmr_State :: ReferenceField

definition VCachedMemoryRequest_Validate :: "Number \<Rightarrow> VCachedMemoryRequest \<Rightarrow> string + unit" where
  "VCachedMemoryRequest_Validate currentPulse m =
     ebnd (validSelfScopedGlobalWithPulseBeforeOrEq (GetValue (cmr_Object m)) currentPulse) (\<lambda>_.
     firstFault [(ref_IsEmpty (cmr_State m), ''State should not be empty'')])"

datatype CachedMemoryStatus = CachedMemoryStateInvalid | CachedMemoryStateFound | CachedMemoryStateUnknown | CachedMemoryStateMissing

record VCachedMemoryResponse =
  cms_CallStatus :: CachedMemoryStatus
  cms_State :: ObjectState

definition VCachedMemoryResponse_Validate :: "Number \<Rightarrow> VCachedMemoryResponse \<Rightarrow> string + unit" where
  "VCachedMemoryResponse_Validate currentPulse m =
     ebnd (firstFault [(ref_IsEmpty (os_Reference (cms_State m)), ''State.Reference should not be empty'')]) (\<lambda>_.
     case cms_CallStatus m of
       CachedMemoryStateFound \<Rightarrow> firstFault [(ref_IsEmpty (os_Class (cms_State m)), ''State.Class should not be empty'')]
     | CachedMemoryStateInvalid \<Rightarrow> Inl ''unexpected CallStatus''
     | _ \<Rightarrow> firstFault
         [(\<not> ref_IsEmpty (os_Class (cms_State m)), ''State.Class should be empty''),
          (os_Memory (cms_State m) \<noteq> [], ''State.Memory should be empty'')])"

datatype TranscriptEntry = EntryIncomingRequest | EntryIncomingResult | EntryOutgoingRequest | EntryOutgoingResult | EntryOther

fun validateEntries :: "TranscriptEntry list \<Rightarrow> string + unit" where
  "validateEntries [] = Inr ()"
| "validateEntries (e # es) = (if e = EntryOther then Inl ''unexpected type'' else validateEntries es)"

fun validatePendingTranscripts :: "TranscriptEntry list list \<Rightarrow> string + unit" where
  "validatePendingTranscripts [] = Inr ()"
| "validatePendingTranscripts (tr # trs) =
     (if tr = [] then Inl ''PendingTranscript entries mustn't be empty''
      else case validateEntries tr of Inl e \<Rightarrow> Inl ''PendingTranscript validation failed'' | Inr _ \<Rightarrow> validatePendingTranscripts trs)"

record VObjectTranscriptReport =
  otr_AsOf :: Number
  otr_Object :: ReferenceField
  otr_PendingTranscripts :: "TranscriptEntry list list"
  otr_ObjectTranscript :: "TranscriptEntry list"

definition VObjectTranscriptReport_Validate :: "Number \<Rightarrow> VObjectTranscriptReport \<Rightarrow> string + unit" where
  "VObjectTranscriptReport_Validate currentPulse m =
     ebnd (validSelfScopedGlobalWithPulseBeforeOrEq (GetValue (otr_Object m)) currentPulse) (\<lambda>_.
     ebnd (firstFault
       [(\<not> isTimePulseBefore (otr_AsOf m) currentPulse, ''AsOf should be time pulse and less than current pulse''),
        (otr_ObjectTranscript m = [], ''Transcript mustn't be empty'')]) (\<lambda>_.
     case validateEntries (otr_ObjectTranscript m) of Inl e \<Rightarrow> Inl ''ObjectTranscript validation failed''
     | Inr _ \<Rightarrow> if otr_PendingTranscripts m \<noteq> [] then validatePendingTranscripts (otr_PendingTranscripts m) else Inr ()))"

subsection \<open>The interface of all messages\<close>

datatype Validatable = MsgCallRequest VCallRequest | MsgCallResult VCallResult | MsgDelegatedCallRequest VDelegatedCallRequest
  | MsgDelegatedCallResponse VDelegatedCallResponse | MsgDelegatedRequestFinished VDelegatedRequestFinished
  | MsgFindCallRequest VFindCallRequest | MsgFindCallResponse VFindCallResponse | MsgStateRequest VStateRequest
  | MsgStateReport VStateReport | MsgCachedMemoryRequest VCachedMemoryRequest | MsgCachedMemoryResponse VCachedMemoryResponse
  | MsgObjectTranscriptReport VObjectTranscriptReport

fun Validate :: "Number \<Rightarrow> Validatable \<Rightarrow> string + unit" where
  "Validate cp (MsgCallRequest m) = VCallRequest_Validate cp m"
| "Validate cp (MsgCallResult m) = VCallResult_Validate cp m"
| "Validate cp (MsgDelegatedCallRequest m) = VDelegatedCallRequest_Validate cp m"
| "Validate cp (MsgDelegatedCallResponse m) = VDelegatedCallResponse_Validate cp m"
| "Validate cp (MsgDelegatedRequestFinished m) = VDelegatedRequestFinished_Validate cp m"
| "Validate cp (MsgFindCallRequest m) = VFindCallRequest_Validate cp m"
| "Validate cp (MsgFindCallResponse m) = VFindCallResponse_Validate cp m"
| "Validate cp (MsgStateRequest m) = VStateRequest_Validate cp m"
| "Validate cp (MsgStateReport m) = VStateReport_Validate cp m"
| "Validate cp (MsgCachedMemoryRequest m) = VCachedMemoryRequest_Validate cp m"
| "Validate cp (MsgCachedMemoryResponse m) = VCachedMemoryResponse_Validate cp m"
| "Validate cp (MsgObjectTranscriptReport m) = VObjectTranscriptReport_Validate cp m"

subsection \<open>What an accepted message promises\<close>

definition lpulse :: "ReferenceField \<Rightarrow> Number" where
  "lpulse r = GetPulseNumber (addressLocal (GetValue r))"

definition bpulse :: "ReferenceField \<Rightarrow> Number" where
  "bpulse r = GetPulseNumber (addressBase (GetValue r))"

text \<open>An object is named by a self reference, a request by a reference whose base is not younger than itself.\<close>

definition namesObject :: "ReferenceField \<Rightarrow> bool" where
  "namesObject r \<longleftrightarrow> IsSelfScope (GetValue r)"

definition namesRequest :: "ReferenceField \<Rightarrow> bool" where
  "namesRequest r \<longleftrightarrow> \<not> global_IsEmpty (GetValue r) \<and> IsTimePulse (lpulse r) \<and> bpulse r \<le> lpulse r"

text \<open>
  Causality: nothing refers to what is younger, and nothing is younger than the current pulse.  Special
  pulses are numerically before all time pulses.
\<close>

fun causal :: "Number \<Rightarrow> Validatable \<Rightarrow> bool" where
  "causal cp (MsgCallRequest m) \<longleftrightarrow> namesObject (req_Caller m) \<and> namesRequest (req_CallOutgoing m) \<and>
     lpulse (req_Caller m) \<le> lpulse (req_CallOutgoing m) \<and> lpulse (req_CallOutgoing m) \<le> cp"
| "causal cp (MsgCallResult m) \<longleftrightarrow> namesObject (res_Caller m) \<and> namesObject (res_Callee m) \<and>
     namesRequest (res_CallOutgoing m) \<and> namesRequest (res_CallIncoming m) \<and>
     max (lpulse (res_Caller m)) (lpulse (res_Callee m)) \<le> min (lpulse (res_CallOutgoing m)) (lpulse (res_CallIncoming m)) \<and>
     max (lpulse (res_CallOutgoing m)) (lpulse (res_CallIncoming m)) \<le> cp"
| "causal cp (MsgDelegatedCallRequest m) \<longleftrightarrow> namesObject (dcr_Callee m) \<and> namesRequest (dcr_CallIncoming m) \<and> namesRequest (dcr_CallOutgoing m) \<and>
     lpulse (dcr_Callee m) \<le> lpulse (dcr_CallIncoming m) \<and> lpulse (dcr_CallIncoming m) \<le> lpulse (dcr_CallOutgoing m) \<and>
     lpulse (dcr_CallOutgoing m) < cp"
| "causal cp (MsgDelegatedCallResponse m) \<longleftrightarrow> namesObject (dcs_Callee m) \<and> namesRequest (dcs_CallIncoming m) \<and>
     lpulse (dcs_Callee m) \<le> lpulse (dcs_CallIncoming m) \<and> lpulse (dcs_CallIncoming m) < cp"
| "causal cp (MsgDelegatedRequestFinished m) \<longleftrightarrow> namesObject (drf_Callee m) \<and> namesRequest (drf_CallIncoming m) \<and> namesRequest (drf_CallOutgoing m) \<and>
     lpulse (drf_Callee m) \<le> lpulse (drf_CallIncoming m) \<and> lpulse (drf_CallIncoming m) \<le> lpulse (drf_CallOutgoing m) \<and>
     lpulse (drf_CallOutgoing m) \<le> cp"
| "causal cp (MsgFindCallRequest m) \<longleftrightarrow> namesObject (fcr_Callee m) \<and> namesRequest (fcr_Outgoing m) \<and>
     lpulse (fcr_Callee m) \<le> lpulse (fcr_Outgoing m) \<and> lpulse (fcr_Outgoing m) \<le> fcr_LookAt m \<and> fcr_LookAt m \<le> cp"
| "causal cp (MsgFindCallResponse m) \<longleftrightarrow> namesObject (fcs_Callee m) \<and> namesRequest (fcs_Outgoing m) \<and>
     lpulse (fcs_Callee m) \<le> lpulse (fcs_Outgoing m) \<and> lpulse (fcs_Outgoing m) < cp \<and> fcs_LookedAt m < cp \<and>
     (case fcs_CallResult m of Some r \<Rightarrow> fcs_Status m = CallStateInvalid \<or> fcs_Status m = CallStateFound \<and> VCallResult_Validate cp r = Inr ()
      | None \<Rightarrow> True)"
| "causal cp (MsgStateRequest m) \<longleftrightarrow> namesObject (vsr_Object m) \<and> lpulse (vsr_Object m) \<le> vsr_AsOf m \<and> vsr_AsOf m < cp"
| "causal cp (MsgStateReport m) \<longleftrightarrow> namesObject (vst_Object m) \<and> lpulse (vst_Object m) \<le> cp \<and> vst_AsOf m < cp \<and>
     0 \<le> vst_OrderedPendingCount m \<and> vst_OrderedPendingCount m < 127 \<and>
     (vst_OrderedPendingCount m = 0 \<longleftrightarrow> vst_OrderedPendingEarliestPulse m = Unknown) \<and>
     (vst_OrderedPendingCount m > 0 \<longrightarrow>
        lpulse (vst_Object m) \<le> vst_OrderedPendingEarliestPulse m \<and> vst_OrderedPendingEarliestPulse m \<le> cp)"
| "causal cp (MsgCachedMemoryRequest m) \<longleftrightarrow> namesObject (cmr_Object m) \<and> lpulse (cmr_Object m) \<le> cp"
| "causal cp (MsgCachedMemoryResponse m) \<longleftrightarrow> \<not> ref_IsEmpty (os_Reference (cms_State m))"
| "causal cp (MsgObjectTranscriptReport m) \<longleftrightarrow> namesObject (otr_Object m) \<and> lpulse (otr_Object m) \<le> cp \<and> otr_AsOf m < cp \<and>
     (\<forall>tr \<in> set (otr_ObjectTranscript m # otr_PendingTranscripts m). tr \<noteq> [] \<and> EntryOther \<notin> set tr)"

lemma special_time: "IsSpecial a \<Longrightarrow> IsTimePulse b \<Longrightarrow> a \<le> b"
  by (auto simp: IsSpecial_def IsTimePulse_word)

lemma special_or_le:
  assumes "isSpecialOrTimePulseBeforeOrEq a b" "IsTimePulse b" shows "a \<le> b"
  using assms special_time [of a b] by (auto simp: isSpecialOrTimePulseBeforeOrEq_def IsBeforeOrEq_def)

lemma selfScoped:
  "validSelfScopedGlobalWithPulseCheck (GetValue r) before v = Inr p \<longleftrightarrow> namesObject r \<and> p = lpulse r \<and> ValidateTime v (lpulse r) before"
  by (auto simp: validSelfScopedGlobalWithPulseCheck_def namesObject_def lpulse_def Let_def)

lemma requestChecked:
  assumes "validRequestGlobalWithPulseCheck (GetValue r) before v = Inr p" "v = timePulseBefore \<or> v = timePulseBeforeOrEq"
  shows "namesRequest r" "p = lpulse r" "IsTimePulse p" "p \<le> before" "v = timePulseBefore \<Longrightarrow> p < before"
proof -
  have t: "\<not> global_IsEmpty (GetValue r)" "p = lpulse r" "ValidateTime v (lpulse r) before" "IsSpecial (bpulse r) \<or> IsBeforeOrEq (bpulse r) (lpulse r)"
    using assms(1) by (auto simp: validRequestGlobalWithPulseCheck_def globalBasePulseIsSpecialOrBeforeOrEqLocalPulse_def lpulse_def bpulse_def Let_def split: if_splits)
  then show p: "p = lpulse r" by blast
  show "IsTimePulse p" "p \<le> before" "v = timePulseBefore \<Longrightarrow> p < before"
    using assms(2) t by (auto simp: isTimePulseBefore_def isTimePulseBeforeOrEq_def IsBefore_def IsBeforeOrEq_def)
  then show "namesRequest r" using t p special_time [of "bpulse r" "lpulse r"] by (auto simp: namesRequest_def IsBeforeOrEq_def)
qed

lemmas reference_checks = validSelfScopedGlobalWithPulseBeforeOrEq_def validSelfScopedGlobalWithPulseSpecialOrBefore_def
  validSelfScopedGlobalWithPulseSpecialOrBeforeOrEq_def validRequestGlobalWithPulseBefore_def validRequestGlobalWithPulseBeforeOrEq_def

lemmas accept_simps = ebnd_Inr_iff firstFault_Inr reference_checks selfScoped firstFault.simps(1)

lemma IsEqOrAfter_le: "IsEqOrAfter a b \<Longrightarrow> b \<le> a"
  by (simp add: IsEqOrAfter_def)

lemma timeBeforeOrEq_le: "isTimePulseBeforeOrEq a b \<Longrightarrow> a \<le> b" "isTimePulseBefore a b \<Longrightarrow> a < b"
  by (simp_all add: isTimePulseBeforeOrEq_def isTimePulseBefore_def IsBeforeOrEq_def IsBefore_def)

lemma accepted_CallRequest:
  assumes "VCallRequest_Validate cp m = Inr ()" shows "causal cp (MsgCallRequest m)"
proof -
  from assms obtain po where "namesObject (req_Caller m)"
    and o: "validRequestGlobalWithPulseCheck (GetValue (req_CallOutgoing m)) cp timePulseBeforeOrEq = Inr po"
    and "isSpecialOrTimePulseBeforeOrEq (lpulse (req_Caller m)) po"
    unfolding VCallRequest_Validate_def accept_simps by blast
  then show ?thesis using requestChecked [OF o] special_or_le by auto
qed

lemma accepted_CallResult:
  assumes "VCallResult_Validate cp m = Inr ()" shows "causal cp (MsgCallResult m)"
proof -
  from assms obtain po pi where "namesObject (res_Caller m)" "namesObject (res_Callee m)"
    and o: "validRequestGlobalWithPulseCheck (GetValue (res_CallOutgoing m)) cp timePulseBeforeOrEq = Inr po"
    and i: "validRequestGlobalWithPulseCheck (GetValue (res_CallIncoming m)) cp timePulseBeforeOrEq = Inr pi"
    and "isSpecialOrTimePulseBeforeOrEq (lpulse (res_Callee m)) po" "isSpecialOrTimePulseBeforeOrEq (lpulse (res_Caller m)) po"
      "isSpecialOrTimePulseBeforeOrEq (lpulse (res_Callee m)) pi" "isSpecialOrTimePulseBeforeOrEq (lpulse (res_Caller m)) pi"
    unfolding VCallResult_Validate_def accept_simps by blast
  then show ?thesis using requestChecked [OF o] requestChecked [OF i] special_or_le by auto
qed

lemma accepted_DelegatedCallRequest:
  assumes "VDelegatedCallRequest_Validate cp m = Inr ()" shows "causal cp (MsgDelegatedCallRequest m)"
proof -
  from assms obtain po pi where "namesObject (dcr_Callee m)"
    and o: "validRequestGlobalWithPulseCheck (GetValue (dcr_CallOutgoing m)) cp timePulseBefore = Inr po"
    and i: "validRequestGlobalWithPulseCheck (GetValue (dcr_CallIncoming m)) cp timePulseBefore = Inr pi"
    and "IsEqOrAfter po pi" "IsEqOrAfter pi (lpulse (dcr_Callee m))"
    unfolding VDelegatedCallRequest_Validate_def accept_simps by blast
  then show ?thesis using requestChecked [OF o] requestChecked [OF i] IsEqOrAfter_le by auto
qed

lemma accepted_DelegatedCallResponse:
  assumes "VDelegatedCallResponse_Validate cp m = Inr ()" shows "causal cp (MsgDelegatedCallResponse m)"
proof -
  from assms obtain pi where "namesObject (dcs_Callee m)"
    and i: "validRequestGlobalWithPulseCheck (GetValue (dcs_CallIncoming m)) cp timePulseBefore = Inr pi"
    and "IsEqOrAfter pi (lpulse (dcs_Callee m))"
    unfolding VDelegatedCallResponse_Validate_def accept_simps by blast
  then show ?thesis using requestChecked [OF i] IsEqOrAfter_le by auto
qed

lemma accepted_DelegatedRequestFinished:
  assumes "VDelegatedRequestFinished_Validate cp m = Inr ()" shows "causal cp (MsgDelegatedRequestFinished m)"
proof -
  from assms obtain po pi where "namesObject (drf_Callee m)"
    and o: "validRequestGlobalWithPulseCheck (GetValue (drf_CallOutgoing m)) cp timePulseBeforeOrEq = Inr po"
    and i: "validRequestGlobalWithPulseCheck (GetValue (drf_CallIncoming m)) cp timePulseBeforeOrEq = Inr pi"
    and "IsEqOrAfter po pi" "IsEqOrAfter pi (lpulse (drf_Callee m))"
    unfolding VDelegatedRequestFinished_Validate_def accept_simps by blast
  then show ?thesis using requestChecked [OF o] requestChecked [OF i] IsEqOrAfter_le by auto
qed

lemma accepted_FindCallRequest:
  assumes "VFindCallRequest_Validate cp m = Inr ()" shows "causal cp (MsgFindCallRequest m)"
proof -
  from assms obtain po where "namesObject (fcr_Callee m)" "isTimePulseBeforeOrEq (fcr_LookAt m) cp"
    and o: "validRequestGlobalWithPulseCheck (GetValue (fcr_Outgoing m)) cp timePulseBeforeOrEq = Inr po"
    and "IsEqOrAfter (fcr_LookAt m) po" "IsEqOrAfter po (lpulse (fcr_Callee m))"
    unfolding VFindCallRequest_Validate_def Let_def accept_simps by blast
  then show ?thesis using requestChecked [OF o] IsEqOrAfter_le timeBeforeOrEq_le by auto
qed

lemma accepted_FindCallResponse:
  assumes "VFindCallResponse_Validate cp m = Inr ()" shows "causal cp (MsgFindCallResponse m)"
proof -
  from assms obtain po where "namesObject (fcs_Callee m)" "isTimePulseBefore (fcs_LookedAt m) cp"
    and o: "validRequestGlobalWithPulseCheck (GetValue (fcs_Outgoing m)) cp timePulseBefore = Inr po"
    and "IsEqOrAfter po (lpulse (fcs_Callee m))"
    and r: "(case fcs_Status m of CallStateInvalid \<Rightarrow> Inr ()
        | CallStateFound \<Rightarrow> (case fcs_CallResult m of None \<Rightarrow> Inr () | Some r \<Rightarrow> VCallResult_Validate cp r)
        | _ \<Rightarrow> firstFault [(fcs_CallResult m \<noteq> None, ''Call result should be empty'')]) = Inr ()"
    unfolding VFindCallResponse_Validate_def accept_simps by blast
  then show ?thesis using requestChecked [OF o] IsEqOrAfter_le timeBeforeOrEq_le by (auto split: CallState.splits option.splits if_splits)
qed

lemma accepted_StateRequest: "VStateRequest_Validate cp m = Inr () \<Longrightarrow> causal cp (MsgStateRequest m)"
  unfolding VStateRequest_Validate_def accept_simps by (auto simp: IsBeforeOrEq_def timeBeforeOrEq_le)

lemma pending_accepted:
  assumes "validatePending c e op cp err = Inr ()" "IsTimePulse op"
  shows "0 \<le> c \<and> c < 127 \<and> (c = 0 \<longleftrightarrow> e = Unknown) \<and> (c > 0 \<longrightarrow> op \<le> e \<and> e \<le> cp)"
  using assms IsTimePulse_not_Unknown by (auto simp: validatePending_def IsUnknown_def isTimePulseBeforeOrEq_def IsBeforeOrEq_def IsEqOrAfter_def split: if_splits)

lemma accepted_StateReport:
  assumes "VStateReport_Validate cp m = Inr ()" shows "causal cp (MsgStateReport m)"
proof -
  from assms have o: "namesObject (vst_Object m)" "isTimePulseBeforeOrEq (lpulse (vst_Object m)) cp" "isTimePulseBefore (vst_AsOf m) cp"
    and s: "(case vst_Status m of StateStatusReady \<Rightarrow> validateStatusReady m (lpulse (vst_Object m)) cp
     | StateStatusEmpty \<Rightarrow> validateStatusEmpty m (lpulse (vst_Object m)) cp
     | StateStatusMissing \<Rightarrow> validateStatusMissingOrInactive m
     | StateStatusInactive \<Rightarrow> validateStatusMissingOrInactive m
     | StateStatusInvalid \<Rightarrow> Inl ''Unexpected state received'') = Inr ()"
    unfolding VStateReport_Validate_def accept_simps by auto
  have t: "IsTimePulse (lpulse (vst_Object m))" using o(2) by (simp add: isTimePulseBeforeOrEq_def)
  have "0 \<le> vst_OrderedPendingCount m \<and> vst_OrderedPendingCount m < 127 \<and>
     (vst_OrderedPendingCount m = 0 \<longleftrightarrow> vst_OrderedPendingEarliestPulse m = Unknown) \<and>
     (vst_OrderedPendingCount m > 0 \<longrightarrow> lpulse (vst_Object m) \<le> vst_OrderedPendingEarliestPulse m \<and> vst_OrderedPendingEarliestPulse m \<le> cp)"
  proof (cases "vst_Status m")
    case StateStatusReady
    then show ?thesis using s pending_accepted [OF _ t] by (auto simp: validateStatusReady_def ebnd_Inr_iff)
  next
    case StateStatusEmpty
    then show ?thesis using s IsTimePulse_not_Unknown
      by (auto simp: validateStatusEmpty_def accept_simps isTimePulseBefore_def IsBeforeOrEq_def IsBefore_def Let_def split: if_splits)
  qed (use s in \<open>auto simp: validateStatusMissingOrInactive_def accept_simps IsUnknown_def split: if_splits\<close>)
  then show ?thesis using o timeBeforeOrEq_le by auto
qed

lemma entries_accepted: "validateEntries es = (if EntryOther \<in> set es then Inl ''unexpected type'' else Inr ())"
  by (induction es) auto

lemma transcripts_accepted: "validatePendingTranscripts trs = Inr u \<longleftrightarrow> (\<forall>tr \<in> set trs. tr \<noteq> [] \<and> EntryOther \<notin> set tr)"
  by (induction trs) (auto simp: entries_accepted split: sum.splits)

lemma accepted_ObjectTranscriptReport:
  "VObjectTranscriptReport_Validate cp m = Inr () \<Longrightarrow> causal cp (MsgObjectTranscriptReport m)"
  unfolding VObjectTranscriptReport_Validate_def accept_simps
  by (auto simp: timeBeforeOrEq_le entries_accepted transcripts_accepted split: sum.splits if_splits)

text \<open>
  C3: what validation guarantees of each kind of message (\<^const>\<open>causal\<close>).  In an accepted call request, call result, delegation message or message of the
  search for a call, each object named as caller or callee is given by a self reference and each outgoing or incoming call by a request
  reference of a time pulse; no such object is younger than such a call of the message, where a delegation message has both the incoming call is not younger than the outgoing one, and
  no call is younger than the current pulse; in the delegation request and response and in the answer of a search it is of an earlier pulse.  The
  callee of a call request is not constrained.  An accepted state request, state report, cached memory request or transcript names its object by a
  self reference not younger than the current pulse, and reports are as of an earlier pulse; the ordered pending count of a state report is from 0 to 126 and
  agrees with its earliest pulse; transcripts have known entries only.  Of a cached memory response only the presence of the reference is guaranteed.
\<close>
theorem accepted_messages_are_causal:
  assumes "Validate cp msg = Inr ()"
  shows "causal cp msg"
proof (cases msg)
  case (MsgCachedMemoryRequest m)
  then show ?thesis using assms by (auto simp: VCachedMemoryRequest_Validate_def accept_simps timeBeforeOrEq_le)
next
  case (MsgCachedMemoryResponse m)
  then show ?thesis using assms by (auto simp: VCachedMemoryResponse_Validate_def accept_simps)
qed (use assms in \<open>auto simp del: causal.simps intro: accepted_CallRequest accepted_CallResult accepted_DelegatedCallRequest
  accepted_DelegatedCallResponse accepted_DelegatedRequestFinished accepted_FindCallRequest accepted_FindCallResponse
  accepted_StateRequest accepted_StateReport accepted_ObjectTranscriptReport\<close>)

text \<open>A state request from the executor of the next pulse for an object of an earlier pulse.\<close>

definition obj_sample :: Global where
  "obj_sample = (let l = \<lparr>pulseAndScope = 70000, local_hash = replicate 28 1\<rparr> in \<lparr>addressLocal = l, addressBase = l\<rparr>)"

definition out_sample :: Global where
  "out_sample = \<lparr>addressLocal = \<lparr>pulseAndScope = 70020, local_hash = replicate 28 2\<rparr>, addressBase = addressLocal obj_sample\<rparr>"

theorem accepted_messages_are_causal_witness:
  "let m = MsgDelegatedCallRequest \<lparr>dcr_Callee = Some obj_sample, dcr_CallFlags = 6, dcr_CallOutgoing = Some out_sample, dcr_CallIncoming = Some out_sample\<rparr>
   in Validate 70030 m = Inr () \<and> causal 70030 m"
proof -
  have "Validate 70030 (MsgDelegatedCallRequest \<lparr>dcr_Callee = Some obj_sample, dcr_CallFlags = 6, dcr_CallOutgoing = Some out_sample, dcr_CallIncoming = Some out_sample\<rparr>) = Inr ()"
    by code_simp
  then show ?thesis using accepted_messages_are_causal by (simp del: causal.simps Validate.simps)
qed

text \<open>
  The callee of a call request is not validated.  The check of the callee looks at the caller instead, so
  whatever is put into the callee, even a reference that is empty or of a future pulse, the verdict is the same.
\<close>
theorem call_request_callee_unchecked:
  "VCallRequest_Validate cp (m\<lparr>req_Callee := c\<rparr>) = VCallRequest_Validate cp m"
  by (simp add: VCallRequest_Validate_def VCallRequest_validateUnimplemented_def)

text \<open>The validator of special or earlier pulses accepts the pulse itself as earlier.\<close>

lemma before_accepts_equal: "ValidateTime specialOrTmePulseBefore 70000 70000 \<and> \<not> isSpecialOrTimePulseBefore 70000 70000"
  by code_simp

subsection \<open>Flag words\<close>

lemma callFlags_values: "callFlags_IsValid f \<longleftrightarrow> f \<in> {5, 6, 9, 10}"
proof
  assume v: "callFlags_IsValid f"
  have "f AND NOT 12 AND NOT 3 = 0" using v by (simp add: callFlags_IsValid_def bitStateFlagMask_def bitInterferenceMask_def)
  moreover have "f = (f AND NOT 12 AND NOT 3) OR (f AND 15)"
    by (rule bit_word_eqI) (auto simp: bit_simps numeral_eq_Suc)
  ultimately have "f = f AND 15" by simp
  then have "f \<le> 15" by (metis word_and_le1)
  then have "unat f \<in> {0 .. 15}" by (simp add: word_le_nat_alt)
  moreover have "{0 .. 15} = set [0 ..< 16 :: nat]" by auto
  ultimately have "(of_nat (unat f) :: u32) \<in> of_nat ` set [0 ..< 16]" by (intro imageI) simp
  then have "f \<in> of_nat ` set [0 ..< 16]" by (simp only: of_nat_unat ucast_id)
  moreover have "\<forall>w \<in> of_nat ` set [0 ..< 16]. callFlags_IsValid w \<longrightarrow> w \<in> {5, 6, 9, 10 :: u32}"
    by code_simp
  ultimately show "f \<in> {5, 6, 9, 10}" using v by blast
next
  have "callFlags_IsValid 5" "callFlags_IsValid 6" "callFlags_IsValid 9" "callFlags_IsValid 10" by code_simp+
  then show "f \<in> {5, 6, 9, 10} \<Longrightarrow> callFlags_IsValid f" by blast
qed

text \<open>
  The flags of a call come apart into the interference and the state they were built from, and a flag word
  is valid exactly when it is built from a valid interference and a valid state.
\<close>
theorem call_flags_roundtrip:
  "(interference_IsValid i \<and> state_IsValid s \<longrightarrow>
     (\<exists>f. BuildCallFlags i s = Ok f \<and> GetInterference f = i \<and> callFlags_GetState f = s \<and> callFlags_IsValid f)) \<and>
   (callFlags_IsValid f \<longleftrightarrow>
     interference_IsValid (GetInterference f) \<and> state_IsValid (callFlags_GetState f) \<and> BuildCallFlags (GetInterference f) (callFlags_GetState f) = Ok f)"
proof (intro conjI impI)
  assume "interference_IsValid i \<and> state_IsValid s"
  then have "i \<in> {1, 2}" "s \<in> {1, 2}"
    by (auto simp: interference_IsValid_def state_IsValid_def InterferenceFlagCount_def StateFlagCount_def word_less_nat_alt word_unat_iff)
  then consider "i = 1 \<and> s = 1" | "i = 1 \<and> s = 2" | "i = 2 \<and> s = 1" | "i = 2 \<and> s = 2" by blast
  then show "\<exists>f. BuildCallFlags i s = Ok f \<and> GetInterference f = i \<and> callFlags_GetState f = s \<and> callFlags_IsValid f"
  proof cases
    case 1 moreover have "BuildCallFlags 1 1 = Ok 5 \<and> GetInterference 5 = 1 \<and> callFlags_GetState 5 = 1 \<and> callFlags_IsValid 5" by code_simp
    ultimately show ?thesis by blast
  next
    case 2 moreover have "BuildCallFlags 1 2 = Ok 9 \<and> GetInterference 9 = 1 \<and> callFlags_GetState 9 = 2 \<and> callFlags_IsValid 9" by code_simp
    ultimately show ?thesis by blast
  next
    case 3 moreover have "BuildCallFlags 2 1 = Ok 6 \<and> GetInterference 6 = 2 \<and> callFlags_GetState 6 = 1 \<and> callFlags_IsValid 6" by code_simp
    ultimately show ?thesis by blast
  next
    case 4 moreover have "BuildCallFlags 2 2 = Ok 10 \<and> GetInterference 10 = 2 \<and> callFlags_GetState 10 = 2 \<and> callFlags_IsValid 10" by code_simp
    ultimately show ?thesis by blast
  qed
next
  let ?b = "\<lambda>f. interference_IsValid (GetInterference f) \<and> state_IsValid (callFlags_GetState f) \<and> BuildCallFlags (GetInterference f) (callFlags_GetState f) = Ok f"
  show "callFlags_IsValid f \<longleftrightarrow> ?b f"
  proof
    have "?b 5" "?b 6" "?b 9" "?b 10" by code_simp+
    then show "callFlags_IsValid f \<Longrightarrow> ?b f" using callFlags_values [of f] by auto
    assume b: "?b f"
    then have "GetInterference f \<in> {1, 2}" "callFlags_GetState f \<in> {1, 2}"
      by (auto simp: interference_IsValid_def state_IsValid_def InterferenceFlagCount_def StateFlagCount_def word_less_nat_alt word_unat_iff)
    moreover have "BuildCallFlags 1 1 = Ok 5" "BuildCallFlags 1 2 = Ok 9" "BuildCallFlags 2 1 = Ok 6" "BuildCallFlags 2 2 = Ok 10" by code_simp+
    ultimately show "callFlags_IsValid f" using b callFlags_values [of f] by auto
  qed
qed

theorem call_flags_roundtrip_witness: "\<exists>f. BuildCallFlags CallTolerable 1 = Ok f \<and> GetInterference f = CallTolerable"
proof -
  have "interference_IsValid CallTolerable \<and> state_IsValid 1" by code_simp
  then show ?thesis using call_flags_roundtrip [of CallTolerable 1 0] by blast
qed

text \<open>The bound of the setters is off by one: the number of flags, which is not a flag, is accepted.\<close>

lemma interference_setter_accepts_count: "\<exists>f. BuildCallFlags 3 3 = Ok f \<and> \<not> callFlags_IsValid f"
proof -
  have "BuildCallFlags 3 3 = Ok 15 \<and> \<not> callFlags_IsValid 15" by code_simp
  then show ?thesis by blast
qed

end
