(* ===== verification/Object_Handover.thy ===== *)
theory Object_Handover
  imports Message_Validation
begin

text \<open>
  The state that a virtual executor keeps per object, \<^verbatim>\<open>virtual/object/object.go\<close>, and the handlers of the messages that
  hand it over between executors: the state report at the end of a pulse (\<^verbatim>\<open>Info.BuildStateReport\<close>, \<^verbatim>\<open>SMObject.migrate\<close>), its
  reception (\<^verbatim>\<open>handlers/vstatereport.go\<close>), the delegation of calls that still run at the previous executor
  (\<^verbatim>\<open>handlers/vdelegatedcallrequest.go\<close>, \<^verbatim>\<open>handlers/vdelegatedrequestfinished.go\<close>) and the deduplication of calls
  (\<^verbatim>\<open>execute/execute.go\<close>, \<^verbatim>\<open>handlers/vfindcallrequest.go\<close>).  A handler is the function that its shared state action applies; waiting,
  sending and logging are left out.
\<close>

subsection \<open>Descriptors\<close>

record ObjectDescriptor =
  desc_head :: Global
  desc_state :: Global
  desc_class :: Global
  desc_memory :: "u8 list"
  desc_deactivated :: bool

definition NewObject :: "Global \<Rightarrow> Local \<Rightarrow> Global \<Rightarrow> u8 list \<Rightarrow> bool \<Rightarrow> ObjectDescriptor res" where
  "NewObject head state cls memory deactivated =
     (let res = \<lparr>desc_head = head, desc_state = zeroGlobal, desc_class = cls, desc_memory = memory, desc_deactivated = deactivated\<rparr> in
      if \<not> global_IsEmpty head then
        if local_IsEmpty state then Panic ''IllegalValue''
        else bnd (NewRecordOf head state) (\<lambda>r. Ok (res\<lparr>desc_state := r\<rparr>))
      else if \<not> local_IsEmpty state then Panic ''IllegalValue''
      else Ok res)"

definition desc_IsEmpty :: "ObjectDescriptor \<Rightarrow> bool" where
  "desc_IsEmpty d \<longleftrightarrow> global_IsEmpty (desc_head d)"

subsection \<open>Shared state of an object\<close>

datatype objectLifecycle = StateUnknown | Missing | Inactive | Empty | HasState

record Info =
  info_Reference :: Global
  descriptorDirty :: "ObjectDescriptor option"
  descriptorValidated :: "ObjectDescriptor option"
  KnownRequests :: "(Global, VCallResult) WorkingTable"
  pendingTable :: "Global PendingTable"
  PreviousExecutorUnorderedPendingCount :: u8
  PreviousExecutorOrderedPendingCount :: u8
  UnorderedPendingEarliestPulse :: Number
  OrderedPendingEarliestPulse :: Number
  objectState :: objectLifecycle

definition localPulse :: "Global \<Rightarrow> Number" where
  "localPulse g = GetPulseNumber (addressLocal g)"

definition newInfo :: "Global \<Rightarrow> Info" where
  "newInfo ref =
     \<lparr>info_Reference = ref, descriptorDirty = None, descriptorValidated = None, KnownRequests = NewWorkingTable, pendingTable = NewRequestTable,
      PreviousExecutorUnorderedPendingCount = 0, PreviousExecutorOrderedPendingCount = 0,
      UnorderedPendingEarliestPulse = Unknown, OrderedPendingEarliestPulse = Unknown, objectState = StateUnknown\<rparr>"

definition IsReady :: "Info \<Rightarrow> bool" where
  "IsReady i \<longleftrightarrow> objectState i \<noteq> StateUnknown"

definition FinishRequest :: "u8 \<Rightarrow> Global \<Rightarrow> VCallResult option \<Rightarrow> Info \<Rightarrow> Info res" where
  "FinishRequest interference requestRef result i =
     bnd (wt_Finish localPulse interference requestRef result (KnownRequests i)) (\<lambda>(wt, _). Ok (i\<lparr>KnownRequests := wt\<rparr>))"

definition GetEarliestPulse :: "u8 \<Rightarrow> Info \<Rightarrow> Number res" where
  "GetEarliestPulse tolerance i =
     bnd (pt_GetList (pendingTable i) tolerance) (\<lambda>pl.
     bnd (wt_GetList (KnownRequests i) tolerance) (\<lambda>wl.
       let minPendingRequestPulse = earliestActivePulse pl; minKnownRequestPulse = earliestActivePulse wl in
       if \<not> IsUnknownOrTimePulse minKnownRequestPulse \<or> \<not> IsUnknownOrTimePulse minPendingRequestPulse then Panic ''IllegalState''
       else if IsUnknown minKnownRequestPulse \<or> IsBefore minPendingRequestPulse minKnownRequestPulse then Ok minPendingRequestPulse
       else Ok minKnownRequestPulse))"

text \<open>Conversion of a Go \<^verbatim>\<open>int\<close> to \<^verbatim>\<open>int32\<close>.\<close>

definition toInt32 :: "int \<Rightarrow> int" where
  "toInt32 n = sint (word_of_int n :: 32 word)"

definition pendingCount :: "u8 \<Rightarrow> Info \<Rightarrow> int res" where
  "pendingCount tolerance i =
     bnd (pt_GetList (pendingTable i) tolerance) (\<lambda>pl.
     bnd (wt_GetList (KnownRequests i) tolerance) (\<lambda>wl. Ok (countActive pl + countActive wl)))"

definition reportStatus :: "Info \<Rightarrow> StateStatus res" where
  "reportStatus i =
     (case objectState i of
        StateUnknown \<Rightarrow> Panic ''IllegalState''
      | Missing \<Rightarrow> Ok StateStatusMissing
      | Inactive \<Rightarrow> Ok StateStatusInactive
      | Empty \<Rightarrow> bnd (wt_GetList (KnownRequests i) CallTolerable) (\<lambda>wl.
          Ok (if countActive wl = 0 then StateStatusMissing else StateStatusEmpty))
      | HasState \<Rightarrow> Ok StateStatusReady)"

definition noContent :: ProvidedContentBody where
  "noContent = \<lparr>pc_LatestValidatedState = None, pc_LatestDirtyState = None, pc_LatestValidatedCode = None, pc_LatestDirtyCode = None,
     pc_OrderedQueue = [], pc_UnorderedQueue = []\<rparr>"

definition NewReference :: "Global \<Rightarrow> ReferenceField" where
  "NewReference g = (if global_IsEmpty g then None else Some g)"

definition BuildStateReport :: "Info \<Rightarrow> VStateReport res" where
  "BuildStateReport i =
     bnd (pendingCount CallIntolerable i) (\<lambda>unorderedPendingCount.
     bnd (pendingCount CallTolerable i) (\<lambda>orderedPendingCount.
     bnd (GetEarliestPulse CallIntolerable i) (\<lambda>unorderedEarliest.
     bnd (GetEarliestPulse CallTolerable i) (\<lambda>orderedEarliest.
     bnd (reportStatus i) (\<lambda>status.
       Ok \<lparr>vst_Status = status, vst_AsOf = Unknown, vst_Object = NewReference (info_Reference i), vst_DelegationSpec = 0,
         vst_UnorderedPendingCount = toInt32 unorderedPendingCount, vst_UnorderedPendingEarliestPulse = unorderedEarliest,
         vst_OrderedPendingCount = toInt32 orderedPendingCount, vst_OrderedPendingEarliestPulse = orderedEarliest,
         vst_PreRegisteredQueueCount = 0, vst_PreRegisteredEarliestPulse = Unknown, vst_PriorityCallQueueCount = 0,
         vst_LatestValidatedState = None, vst_LatestValidatedCode = None,
         vst_LatestDirtyState =
           (case descriptorDirty i of None \<Rightarrow> None
            | Some d \<Rightarrow> if desc_deactivated d then None else if desc_memory d = [] then None else NewReference (desc_head d)),
         vst_LatestDirtyCode = None, vst_ProvidedContent = Some noContent\<rparr>)))))"

definition BuildLatestDirtyState :: "Info \<Rightarrow> ObjectState option" where
  "BuildLatestDirtyState i = map_option (\<lambda>d.
     \<lparr>os_Reference = NewReference (desc_state d), os_Class = NewReference (desc_class d), os_Memory = desc_memory d,
      os_Deactivated = desc_deactivated d\<rparr>) (descriptorDirty i)"

text \<open>
  The end of the pulse: an object that is not ready is stopped without a report (\<open>None\<close>), otherwise the report
  is built; the pulse of the report is added when it is sent.
\<close>

definition migrateReport :: "Info \<Rightarrow> (Info \<times> VStateReport) option res" where
  "migrateReport i =
     (if objectState i = StateUnknown then Ok None
      else
        let i = (case descriptorDirty i of Some d \<Rightarrow> if desc_deactivated d then i\<lparr>objectState := Inactive\<rparr> else i | None \<Rightarrow> i) in
        bnd (BuildStateReport i) (\<lambda>report.
          if descriptorDirty i \<noteq> None \<and> vst_Status report \<noteq> StateStatusInactive then
            let state = BuildLatestDirtyState i in
            Ok (Some (i, report\<lparr>vst_ProvidedContent := map_option (\<lambda>c. c\<lparr>pc_LatestDirtyState := state, pc_LatestValidatedState := state\<rparr>)
              (vst_ProvidedContent report)\<rparr>))
          else Ok (Some (i, report))))"

definition stepSendVStateReport :: "Number \<Rightarrow> VStateReport \<Rightarrow> VStateReport" where
  "stepSendVStateReport slotPulse report = report\<lparr>vst_AsOf := slotPulse\<rparr>"

subsection \<open>Reception of a report\<close>

definition gotLatestDirty :: "VStateReport \<Rightarrow> bool" where
  "gotLatestDirty r \<longleftrightarrow> (case vst_ProvidedContent r of None \<Rightarrow> False | Some c \<Rightarrow> pc_LatestDirtyState c \<noteq> None)"

definition gotLatestValidated :: "VStateReport \<Rightarrow> bool" where
  "gotLatestValidated r \<longleftrightarrow> (case vst_ProvidedContent r of None \<Rightarrow> False | Some c \<Rightarrow> pc_LatestValidatedState c \<noteq> None)"

definition buildObjectDescriptor :: "Global \<Rightarrow> ObjectState \<Rightarrow> ObjectDescriptor res" where
  "buildObjectDescriptor headRef state =
     NewObject headRef (addressLocal (GetValue (os_Reference state))) (GetValue (os_Class state)) (os_Memory state) (os_Deactivated state)"

definition statusEmptyOrAbove :: "StateStatus \<Rightarrow> bool" where
  "statusEmptyOrAbove s \<longleftrightarrow> s = StateStatusEmpty \<or> s = StateStatusInactive \<or> s = StateStatusMissing"

definition setDescriptor :: "Global \<Rightarrow> ObjectState option \<Rightarrow> (ObjectDescriptor option \<Rightarrow> Info \<Rightarrow> Info) \<Rightarrow> Info \<Rightarrow> Info res" where
  "setDescriptor headRef content upd i =
     (case content of None \<Rightarrow> Ok i | Some s \<Rightarrow> bnd (buildObjectDescriptor headRef s) (\<lambda>d. Ok (upd (Some d) i)))"

definition report_updateSharedState :: "VStateReport \<Rightarrow> Info \<Rightarrow> Info res" where
  "report_updateSharedState r state =
     (let objectRef = GetValue (vst_Object r) in
     bnd (case vst_Status r of
         StateStatusInvalid \<Rightarrow> Panic ''IllegalValue''
       | StateStatusReady \<Rightarrow> if \<not> gotLatestDirty r then Panic ''IllegalState'' else Ok HasState
       | StateStatusEmpty \<Rightarrow> Ok Empty
       | StateStatusInactive \<Rightarrow> Ok Inactive
       | StateStatusMissing \<Rightarrow> Ok Missing) (\<lambda>objState.
     if statusEmptyOrAbove (vst_Status r) \<and> gotLatestDirty r then Panic ''IllegalState''
     else
       let state = state\<lparr>PreviousExecutorUnorderedPendingCount := word_of_int (vst_UnorderedPendingCount r),
             PreviousExecutorOrderedPendingCount := word_of_int (vst_OrderedPendingCount r),
             OrderedPendingEarliestPulse := vst_OrderedPendingEarliestPulse r,
             UnorderedPendingEarliestPulse := vst_UnorderedPendingEarliestPulse r\<rparr> in
       bnd (setDescriptor objectRef (Option.bind (vst_ProvidedContent r) pc_LatestDirtyState) (\<lambda>d. descriptorDirty_update (\<lambda>_. d)) state) (\<lambda>state.
       bnd (setDescriptor objectRef (Option.bind (vst_ProvidedContent r) pc_LatestValidatedState) (\<lambda>d. descriptorValidated_update (\<lambda>_. d)) state) (\<lambda>state.
         Ok (state\<lparr>objectState := objState\<rparr>)))))"

datatype reportOutcome = ReportIllegal | ReportOutdated | ReportIgnored | ReportApplied Info

definition report_stepProcess :: "Number \<Rightarrow> VStateReport \<Rightarrow> Info \<Rightarrow> reportOutcome res" where
  "report_stepProcess prevPulse r state =
     (if vst_Status r = StateStatusInvalid then Ok ReportIllegal
      else if statusEmptyOrAbove (vst_Status r) \<and> gotLatestDirty r then Ok ReportIllegal
      else if vst_AsOf r < prevPulse then Ok ReportOutdated
      else if IsReady state then Ok ReportIgnored
      else bnd (report_updateSharedState r state) (\<lambda>s. Ok (ReportApplied s)))"

subsection \<open>Delegated calls\<close>

datatype delegationResult = delegationOk | delegationOldRequest | delegationFullTable

definition setPendingList :: "u8 \<Rightarrow> Global PendingList \<Rightarrow> Info \<Rightarrow> Info" where
  "setPendingList tolerance pl i = i\<lparr>pendingTable := (pendingTable i)[unat tolerance - 1 := pl]\<rparr>"

definition delegated_stepProcessRequest :: "VDelegatedCallRequest \<Rightarrow> Info \<Rightarrow> (Info \<times> delegationResult) res" where
  "delegated_stepProcessRequest p state =
     (let callTolerance = GetInterference (dcr_CallFlags p) in
      if callTolerance \<noteq> CallTolerable \<and> callTolerance \<noteq> CallIntolerable then Panic ''Unsupported''
      else
        let oldestPulse = (if callTolerance = CallTolerable then OrderedPendingEarliestPulse state else UnorderedPendingEarliestPulse state);
            previousExecutorPendingCount =
              (if callTolerance = CallTolerable then uint (PreviousExecutorOrderedPendingCount state) else uint (PreviousExecutorUnorderedPendingCount state)) in
        bnd (pt_GetList (pendingTable state) callTolerance) (\<lambda>pendingList.
          if oldestPulse = Unknown \<or> GetPulseOfLocal (dcr_CallOutgoing p) < oldestPulse then Ok (state, delegationOldRequest)
          else
            let callOutgoing = GetValue (dcr_CallOutgoing p) in
            if rl_Count pendingList = previousExecutorPendingCount \<and> \<not> pl_Exist pendingList callOutgoing then Ok (state, delegationFullTable)
            else Ok (setPendingList callTolerance (fst (pl_Add localPulse callOutgoing pendingList)) state, delegationOk)))"

text \<open>The result says whether the handler signals that all ordered pending calls are finished.\<close>

definition latestState :: "VDelegatedRequestFinished \<Rightarrow> ObjectDescriptor res" where
  "latestState p = (case drf_LatestState p of None \<Rightarrow> Panic ''IllegalState'' | Some s \<Rightarrow> buildObjectDescriptor (GetValue (drf_Callee p)) s)"

definition updateObjectState :: "Info \<Rightarrow> Info res" where
  "updateObjectState state =
     (case objectState state of Empty \<Rightarrow> Ok (state\<lparr>objectState := HasState\<rparr>) | HasState \<Rightarrow> Ok state | _ \<Rightarrow> Panic ''Impossible'')"

definition finished_updateSharedState :: "VDelegatedRequestFinished \<Rightarrow> Info \<Rightarrow> (Info \<times> bool) res" where
  "finished_updateSharedState p state =
     (let interference = GetInterference (drf_CallFlags p) in
     bnd (if drf_LatestState p \<noteq> None then
            bnd (latestState p) (\<lambda>d. updateObjectState (state\<lparr>descriptorDirty := Some d\<rparr>))
          else if interference = CallTolerable \<and> drf_CallType p = CallTypeConstructor \<and> objectState state = Empty
          then Ok (state\<lparr>objectState := Missing\<rparr>)
          else Ok state) (\<lambda>state.
     bnd (pt_GetList (pendingTable state) interference) (\<lambda>pendingList.
       case pl_Finish localPulse (GetValue (drf_CallOutgoing p)) pendingList of (pl, ok) \<Rightarrow>
         if \<not> ok then Panic ''delegated request was not registered''
         else Ok (setPendingList interference pl state, interference = CallTolerable \<and> countActive pl = 0))))"

definition finished_stepProcess :: "VDelegatedRequestFinished \<Rightarrow> Info \<Rightarrow> (Info \<times> bool) res" where
  "finished_stepProcess p state = (if \<not> IsReady state then Ok (state, False) else finished_updateSharedState p state)"

subsection \<open>Opening the execution paths\<close>

text \<open>
  The object machine: the limits of the semaphores of ordered and unordered calls, the gate that says that the
  object is ready, the gate for a pending constructor (if there is one), and whether the signal for finished ordered
  pending calls exists and was created for an empty object.
\<close>

record SMObject =
  sm_info :: Info
  orderedLimit :: int
  unorderedLimit :: int
  readyToWork :: bool
  PendingConstructorFinished :: "bool option"
  SignalOrderedPendingFinished :: "bool option"

definition UnorderedMaxParallelism :: int where "UnorderedMaxParallelism = 30"

definition NewStateMachineObject :: "Global \<Rightarrow> SMObject" where
  "NewStateMachineObject ref =
     \<lparr>sm_info = newInfo ref, orderedLimit = 0, unorderedLimit = 0, readyToWork = False,
      PendingConstructorFinished = None, SignalOrderedPendingFinished = None\<rparr>"

definition releaseOrderedExecutionPath :: "SMObject \<Rightarrow> SMObject" where
  "releaseOrderedExecutionPath sm = sm\<lparr>orderedLimit := 1\<rparr>"

definition releaseUnorderedExecutionPath :: "SMObject \<Rightarrow> SMObject" where
  "releaseUnorderedExecutionPath sm = sm\<lparr>unorderedLimit := UnorderedMaxParallelism\<rparr>"

definition stepGotState :: "SMObject \<Rightarrow> SMObject" where
  "stepGotState sm =
     (let isEmpty = (objectState (sm_info sm) = Empty);
          sm = (if PreviousExecutorOrderedPendingCount (sm_info sm) = 0
                then releaseUnorderedExecutionPath (releaseOrderedExecutionPath sm)
                else (if isEmpty then sm\<lparr>PendingConstructorFinished := Some False\<rparr> else releaseUnorderedExecutionPath sm)
                  \<lparr>SignalOrderedPendingFinished := Some isEmpty\<rparr>) in
      sm\<lparr>readyToWork := True\<rparr>)"

definition orderedPendingFinished :: "SMObject \<Rightarrow> SMObject" where
  "orderedPendingFinished sm =
     (case SignalOrderedPendingFinished sm of None \<Rightarrow> sm
      | Some isEmpty \<Rightarrow>
          releaseOrderedExecutionPath
            (if isEmpty then releaseUnorderedExecutionPath (sm\<lparr>PendingConstructorFinished := Some True\<rparr>) else sm))"

definition smReport :: "Number \<Rightarrow> VStateReport \<Rightarrow> SMObject \<Rightarrow> SMObject res" where
  "smReport prevPulse r sm =
     bnd (report_stepProcess prevPulse r (sm_info sm)) (\<lambda>out.
       case out of ReportApplied i \<Rightarrow> Ok (stepGotState (sm\<lparr>sm_info := i\<rparr>)) | _ \<Rightarrow> Ok sm)"

definition smDelegatedCall :: "VDelegatedCallRequest \<Rightarrow> SMObject \<Rightarrow> (SMObject \<times> delegationResult) res" where
  "smDelegatedCall p sm = bnd (delegated_stepProcessRequest p (sm_info sm)) (\<lambda>(i, r). Ok (sm\<lparr>sm_info := i\<rparr>, r))"

definition smFinished :: "VDelegatedRequestFinished \<Rightarrow> SMObject \<Rightarrow> SMObject res" where
  "smFinished p sm =
     bnd (finished_stepProcess p (sm_info sm)) (\<lambda>(i, signal).
       let sm = sm\<lparr>sm_info := i\<rparr> in Ok (if signal then orderedPendingFinished sm else sm))"

subsection \<open>Deduplication\<close>

record MethodIsolation =
  Interference :: u8
  iso_State :: u8

definition CallDirty :: u8 where "CallDirty = 1"
definition CallValidated :: u8 where "CallValidated = 2"

definition negotiateIsolation :: "MethodIsolation \<Rightarrow> MethodIsolation \<Rightarrow> string + MethodIsolation" where
  "negotiateIsolation methodIsolation callIsolation =
     (if methodIsolation = callIsolation then Inr methodIsolation
      else
        let res = methodIsolation in
        ebnd (if Interference methodIsolation = Interference callIsolation then Inr res
              else if Interference methodIsolation = CallIntolerable \<and> Interference callIsolation = CallTolerable
              then Inr (res\<lparr>Interference := Interference methodIsolation\<rparr>)
              else Inl ''IllegalValue'') (\<lambda>res.
          if iso_State methodIsolation = iso_State callIsolation then Inr res
          else if iso_State methodIsolation = CallValidated \<and> iso_State callIsolation = CallDirty
          then Inr (res\<lparr>iso_State := iso_State callIsolation\<rparr>)
          else Inl ''IllegalValue''))"

datatype DeduplicationAction = Stop | SendResultAndStop VCallResult | DeduplicateThroughPreviousExecutor | ContinueExecute

record SMExecute =
  exec_Outgoing :: Global
  exec_Interference :: u8
  isConstructor :: bool
  hasState :: bool
  duplicateFinished :: bool

text \<open>\<open>fromSlotPulse\<close> is the answer of \<^verbatim>\<open>outgoingFromSlotPulse\<close>.  A panic stands for the error that the step panics with.\<close>

definition outgoingFromSlotPulse :: "Number \<Rightarrow> ReferenceField \<Rightarrow> bool" where
  "outgoingFromSlotPulse slotPulse outgoing \<longleftrightarrow> GetPulseOfLocal outgoing = slotPulse"

definition deduplicate :: "bool \<Rightarrow> SMExecute \<Rightarrow> Info \<Rightarrow> (SMExecute \<times> Info \<times> DeduplicationAction) res" where
  "deduplicate fromSlotPulse s state =
     bnd (wt_Add (exec_Interference s) (exec_Outgoing s) (KnownRequests state)) (\<lambda>(wt, added).
       let state = state\<lparr>KnownRequests := wt\<rparr> in
       if \<not> added then
         (case map_of (wt_results wt) (exec_Outgoing s) of
            Some (Some r) \<Rightarrow> Ok (s, state, SendResultAndStop r)
          | _ \<Rightarrow> Ok (s, state, Stop))
       else if \<not> fromSlotPulse then
         bnd (pt_GetList (pendingTable state) (exec_Interference s)) (\<lambda>pendingList.
           let filledTable = ((word_of_int (rl_Count pendingList) :: u8) = PreviousExecutorOrderedPendingCount state);
               (isActive, isDuplicate) = pl_GetState pendingList (exec_Outgoing s);
               s = s\<lparr>hasState := (objectState state = HasState \<or> objectState state = Inactive), duplicateFinished := isDuplicate \<and> \<not> isActive\<rparr> in
           if isDuplicate \<and> isActive then Ok (s, state, Stop)
           else if isConstructor s \<and> objectState state = Missing then Ok (s, state, ContinueExecute)
           else if isConstructor s \<and> \<not> hasState s \<and> filledTable \<and> \<not> isDuplicate then Panic ''NotImplemented''
           else Ok (s, state, DeduplicateThroughPreviousExecutor))
       else Ok (s, state, ContinueExecute))"

definition stepStartRequestProcessing :: "SMExecute \<Rightarrow> Info \<Rightarrow> Info res" where
  "stepStartRequestProcessing s state =
     bnd (wt_SetActive localPulse (exec_Interference s) (exec_Outgoing s) (KnownRequests state)) (\<lambda>(wt, ok).
       if \<not> ok then Panic ''Impossible'' else Ok (state\<lparr>KnownRequests := wt\<rparr>))"

text \<open>
  The answer of the previous executor to a call that asks whether it was seen: from the summary of its
  working table, when the object was there.
\<close>

definition stepPublishCallSummary :: "Info \<Rightarrow> (Global, VCallResult) ObjectsResultCallRegistry \<Rightarrow> (Global, VCallResult) ObjectsResultCallRegistry res" where
  "stepPublishCallSummary i summary =
     (case AddObjectCallResults (info_Reference i) (wt_results (KnownRequests i)) summary of (summary', ok) \<Rightarrow>
        if \<not> ok then Panic ''Impossible'' else Ok summary')"

definition findCall :: "(Global, VCallResult) ObjectsResultCallRegistry option \<Rightarrow> VFindCallRequest \<Rightarrow> VFindCallResponse" where
  "findCall summary p =
     (let found = (case summary of None \<Rightarrow> None
        | Some reg \<Rightarrow> (case map_of reg (GetValue (fcr_Callee p)) of None \<Rightarrow> None | Some results \<Rightarrow> map_of results (GetValue (fcr_Outgoing p)))) in
      \<lparr>fcs_LookedAt = fcr_LookAt p, fcs_Callee = fcr_Callee p, fcs_Outgoing = fcr_Outgoing p,
       fcs_Status = (case found of Some _ \<Rightarrow> CallStateFound
         | None \<Rightarrow> if GetPulseOfLocal (fcr_Outgoing p) < fcr_LookAt p then CallStateUnknown else CallStateMissing),
       fcs_CallResult = (case found of None \<Rightarrow> None | Some r \<Rightarrow> r)\<rparr>)"

datatype findOutcome = FindStop | FindResend VCallResult | FindExecute

definition stepProcessFindCallResponse :: "SMExecute \<Rightarrow> VFindCallResponse \<Rightarrow> findOutcome res" where
  "stepProcessFindCallResponse s resp =
     (case (fcs_Status resp, fcs_CallResult resp) of
        (CallStateFound, None) \<Rightarrow> if isConstructor s \<and> (hasState s \<or> duplicateFinished s) then Panic ''NotImplemented'' else Ok FindStop
      | (CallStateFound, Some r) \<Rightarrow> Ok (FindResend r)
      | (CallStateMissing, _) \<Rightarrow> if isConstructor s then Panic ''Impossible'' else Ok FindExecute
      | (CallStateUnknown, _) \<Rightarrow> if isConstructor s then Panic ''Impossible'' else Ok FindExecute
      | (CallStateInvalid, _) \<Rightarrow> Panic ''Impossible'')"

subsection \<open>Counting calls over both tables\<close>

text \<open>
  The contract that a list of requests offers to the object: how many requests are active and what their
  earliest pulse is.
\<close>

locale call_counter =
  fixes ok :: "('r \<Rightarrow> Number) \<Rightarrow> 'l \<Rightarrow> bool" and active :: "'l \<Rightarrow> 'r set" and count :: "'l \<Rightarrow> int" and earliest :: "'l \<Rightarrow> Number"
  assumes active_finite: "ok pn l \<Longrightarrow> finite (active l)"
    and active_count: "ok pn l \<Longrightarrow> count l = int (card (active l))"
    and active_earliest: "ok pn l \<Longrightarrow> earliest l = leastPulse (pn ` active l)"
begin

lemma nothing_active: "ok pn l \<Longrightarrow> count l = 0 \<Longrightarrow> active l = {}"
  using active_count active_finite by fastforce

lemma earliest_unknown:
  assumes "ok pn l" "\<forall>r \<in> active l. IsTimePulse (pn r)"
  shows "earliest l = Unknown \<longleftrightarrow> count l = 0" "IsUnknownOrTimePulse (earliest l)"
proof -
  have e: "earliest l = leastPulse (pn ` active l)" by (rule active_earliest [OF assms(1)])
  have m: "active l \<noteq> {} \<Longrightarrow> earliest l \<in> pn ` active l" using e active_finite [OF assms(1)] by (simp add: leastPulse_def)
  show "earliest l = Unknown \<longleftrightarrow> count l = 0"
  proof (cases "active l = {}")
    case True
    then show ?thesis using e active_count [OF assms(1)] by (simp add: leastPulse_def)
  next
    case False
    then show ?thesis using m assms(2) IsTimePulse_not_Unknown nothing_active [OF assms(1)] by fastforce
  qed
  show "IsUnknownOrTimePulse (earliest l)"
  proof (cases "active l = {}")
    case True
    then show ?thesis using e by (simp add: leastPulse_def IsUnknownOrTimePulse_def)
  next
    case False
    then show ?thesis using m assms(2) by (auto simp: IsUnknownOrTimePulse_def IsTimePulse_word)
  qed
qed

end

interpretation working: call_counter wl_ok "inState RequestProcessing" countActive earliestActivePulse
  by unfold_locales (auto simp: wl_ok_def tracks_def)

interpretation pending: call_counter pl_ok "pl_in True" countActive earliestActivePulse
  by unfold_locales (auto simp: pl_ok_def tracks_def)

lemma IsUnknownOrTimePulse_cases: "IsUnknownOrTimePulse n \<longleftrightarrow> n = Unknown \<or> IsTimePulse n"
  by (auto simp: IsUnknownOrTimePulse_def IsTimePulse_word)

lemma leastPulse_Un:
  assumes "finite A" "finite B" "\<forall>p \<in> A \<union> B. IsTimePulse p"
  shows "leastPulse (A \<union> B) =
    (if leastPulse B = Unknown \<or> IsBefore (leastPulse A) (leastPulse B) then leastPulse A else leastPulse B)"
proof -
  have t: "IsTimePulse (leastPulse S)" if "finite S" "S \<subseteq> A \<union> B" "S \<noteq> {}" for S
  proof -
    have "leastPulse S \<in> S" using that Min_in [of S] by (simp add: leastPulse_def)
    then show ?thesis using that(2) assms(3) by blast
  qed
  consider "A = {}" "B = {}" | "A = {}" "B \<noteq> {}" | "A \<noteq> {}" "B = {}" | "A \<noteq> {}" "B \<noteq> {}" by blast
  then show ?thesis
  proof cases
    case 2
    then show ?thesis using t [OF assms(2)] by (auto simp: leastPulse_def IsBefore_def pulse_consts)
  next
    case 4
    have "leastPulse (A \<union> B) = min (leastPulse A) (leastPulse B)" using 4 assms(1,2) by (simp add: leastPulse_def Min_Un)
    then show ?thesis using t [OF assms(1)] t [OF assms(2)] 4 IsTimePulse_not_Unknown
      by (auto simp: IsBefore_def IsTimePulse_word min_def)
  qed (auto simp: leastPulse_def)
qed

definition pendingActive :: "u8 \<Rightarrow> Info \<Rightarrow> Global set" where
  "pendingActive tol i = pl_in True (pendingTable i ! (unat tol - 1))"

definition knownActive :: "u8 \<Rightarrow> Info \<Rightarrow> Global set" where
  "knownActive tol i = inState RequestProcessing (wt_requests (KnownRequests i) ! (unat tol - 1))"

definition activeCount :: "u8 \<Rightarrow> Info \<Rightarrow> nat" where
  "activeCount tol i = card (pendingActive tol i) + card (knownActive tol i)"

definition activePulses :: "u8 \<Rightarrow> Info \<Rightarrow> Number set" where
  "activePulses tol i = localPulse ` (pendingActive tol i \<union> knownActive tol i)"

text \<open>The tables of an object in use.\<close>

definition info_ok :: "Info \<Rightarrow> bool" where
  "info_ok i \<longleftrightarrow> table_reach localPulse (KnownRequests i) \<and> length (pendingTable i) = 2 \<and>
     (\<forall>pl \<in> set (pendingTable i). pending_reach localPulse pl) \<and>
     (\<forall>tol \<in> {CallIntolerable, CallTolerable}. \<forall>p \<in> activePulses tol i. IsTimePulse p)"

lemma info_lists:
  assumes "info_ok i" "tol = CallIntolerable \<or> tol = CallTolerable"
  shows "pt_GetList (pendingTable i) tol = Ok (pendingTable i ! (unat tol - 1))" "pl_ok localPulse (pendingTable i ! (unat tol - 1))"
    "wt_GetList (KnownRequests i) tol = Ok (wt_requests (KnownRequests i) ! (unat tol - 1))" "wl_ok localPulse (wt_requests (KnownRequests i) ! (unat tol - 1))"
proof -
  have t: "table_ok localPulse (KnownRequests i)" using assms(1) table_reach_ok by (auto simp: info_ok_def)
  have tol: "unat tol - 1 < 2" "unat tol \<le> 2" "tol > 0" using assms(2) by (auto simp: CallIntolerable_def CallTolerable_def)
  have l: "length (wt_requests (KnownRequests i)) = 2" "length (pendingTable i) = 2" using t assms(1) by (simp_all add: table_ok_def info_ok_def)
  show "pt_GetList (pendingTable i) tol = Ok (pendingTable i ! (unat tol - 1))" "wt_GetList (KnownRequests i) tol = Ok (wt_requests (KnownRequests i) ! (unat tol - 1))"
    using l tol by (simp_all add: pt_GetList_def wt_GetList_def flagIndex_def)
  show "wl_ok localPulse (wt_requests (KnownRequests i) ! (unat tol - 1))" using t tol by (simp add: table_ok_def)
  have "pendingTable i ! (unat tol - 1) \<in> set (pendingTable i)" using l tol by simp
  then show "pl_ok localPulse (pendingTable i ! (unat tol - 1))" using assms(1) pending_reach_ok by (auto simp: info_ok_def)
qed

lemma info_counts:
  assumes ok: "info_ok i" and tol: "tol = CallIntolerable \<or> tol = CallTolerable"
  shows "pendingCount tol i = Ok (int (activeCount tol i))" "GetEarliestPulse tol i = Ok (leastPulse (activePulses tol i))"
proof -
  note l = info_lists [OF ok tol]
  let ?p = "pendingTable i ! (unat tol - 1)" and ?w = "wt_requests (KnownRequests i) ! (unat tol - 1)"
  show "pendingCount tol i = Ok (int (activeCount tol i))"
    using pending.active_count [OF l(2)] working.active_count [OF l(4)]
    by (simp add: pendingCount_def l activeCount_def pendingActive_def knownActive_def)
  have time: "IsTimePulse p" if "p \<in> localPulse ` (pl_in True ?p \<union> inState RequestProcessing ?w)" for p
  proof -
    have "p \<in> activePulses tol i" using that by (simp add: activePulses_def pendingActive_def knownActive_def)
    then show ?thesis using ok tol unfolding info_ok_def by blast
  qed
  have e: "earliestActivePulse ?p = leastPulse (localPulse ` pl_in True ?p)" "earliestActivePulse ?w = leastPulse (localPulse ` inState RequestProcessing ?w)"
    by (rule pending.active_earliest [OF l(2)], rule working.active_earliest [OF l(4)])
  have u: "IsUnknownOrTimePulse (earliestActivePulse ?p)" "IsUnknownOrTimePulse (earliestActivePulse ?w)"
    using pending.earliest_unknown(2) [OF l(2)] working.earliest_unknown(2) [OF l(4)] time by blast+
  have un: "leastPulse (localPulse ` pl_in True ?p \<union> localPulse ` inState RequestProcessing ?w) =
     (if earliestActivePulse ?w = Unknown \<or> IsBefore (earliestActivePulse ?p) (earliestActivePulse ?w) then earliestActivePulse ?p else earliestActivePulse ?w)"
    unfolding e using pending.active_finite [OF l(2)] working.active_finite [OF l(4)] time by (intro leastPulse_Un) auto
  show "GetEarliestPulse tol i = Ok (leastPulse (activePulses tol i))"
    using u un by (simp add: GetEarliestPulse_def l activePulses_def pendingActive_def knownActive_def image_Un IsUnknown_def Let_def)
qed

subsection \<open>Hand-over between executors\<close>

text \<open>
  An object with state at the end of a pulse: its reference is a self reference of a time pulse, the current
  state was made by \<open>NewObject\<close> and is not deactivated, and at most 126 calls of each kind run, none of which is older than the
  object or younger than the pulse.
\<close>

definition handover_ready :: "Number \<Rightarrow> Info \<Rightarrow> ObjectDescriptor \<Rightarrow> bool" where
  "handover_ready slotPulse i d \<longleftrightarrow> info_ok i \<and> objectState i = HasState \<and> descriptorDirty i = Some d \<and>
     IsSelfScope (info_Reference i) \<and> IsTimePulse (localPulse (info_Reference i)) \<and> IsTimePulse slotPulse \<and> localPulse (info_Reference i) \<le> slotPulse \<and>
     \<not> local_IsEmpty (addressLocal (desc_state d)) \<and> (global_IsEmpty (desc_class d) \<longrightarrow> desc_class d = zeroGlobal) \<and>
     NewObject (info_Reference i) (addressLocal (desc_state d)) (desc_class d) (desc_memory d) False = Ok d \<and>
     (\<forall>tol \<in> {CallIntolerable, CallTolerable}. activeCount tol i < 127 \<and>
        (\<forall>p \<in> activePulses tol i. localPulse (info_Reference i) \<le> p \<and> p \<le> slotPulse))"

lemma toInt32_small: "0 \<le> n \<Longrightarrow> n < 2 ^ 31 \<Longrightarrow> toInt32 n = n"
  by (simp add: toInt32_def sint_sbintrunc' signed_take_bit_int_eq_self)

lemma NewObject_deactivated: "NewObject h s c m de = Ok d \<Longrightarrow> desc_deactivated d = de"
  by (cases d) (auto simp: NewObject_def Let_def go_simps split: if_splits)

lemma GetValue_NewReference: "GetValue (NewReference g) = (if global_IsEmpty g then zeroGlobal else g)"
  by (simp add: GetValue_def NewReference_def)

lemma active_finite:
  assumes "info_ok i" "tol = CallIntolerable \<or> tol = CallTolerable"
  shows "finite (pendingActive tol i)" "finite (knownActive tol i)"
  using info_lists [OF assms] by (auto simp: pendingActive_def knownActive_def intro: pending.active_finite working.active_finite)

lemma activePulses_empty:
  assumes "info_ok i" "tol = CallIntolerable \<or> tol = CallTolerable"
  shows "activePulses tol i = {} \<longleftrightarrow> activeCount tol i = 0"
  using active_finite [OF assms] by (auto simp: activePulses_def activeCount_def)

lemma validatePending_ok:
  assumes ok: "info_ok i" and tol: "tol = CallIntolerable \<or> tol = CallTolerable" and c: "activeCount tol i < 127"
    and p: "\<forall>p \<in> activePulses tol i. op \<le> p \<and> p \<le> cp" and cp: "IsTimePulse op"
  shows "validatePending (int (activeCount tol i)) (leastPulse (activePulses tol i)) op cp e = Inr ()"
proof (cases "activeCount tol i = 0")
  case True
  then show ?thesis using activePulses_empty [OF ok tol] by (simp add: validatePending_def leastPulse_def IsUnknown_def)
next
  case False
  have ne: "activePulses tol i \<noteq> {}" using False activePulses_empty [OF ok tol] by simp
  have fin: "finite (activePulses tol i)" using active_finite [OF ok tol] by (simp add: activePulses_def)
  have m: "leastPulse (activePulses tol i) \<in> activePulses tol i" using ne fin by (simp add: leastPulse_def)
  then have "IsTimePulse (leastPulse (activePulses tol i))" using ok tol unfolding info_ok_def by blast
  moreover have "op \<le> leastPulse (activePulses tol i)" "leastPulse (activePulses tol i) \<le> cp" using m p by blast+
  ultimately show ?thesis using False c
    by (simp add: validatePending_def isTimePulseBeforeOrEq_def IsBeforeOrEq_def IsEqOrAfter_def IsTimePulse_word)
qed

text \<open>
  C2: the state of an object survives the change of its executor.  Take an object with state that is not deactivated, with a
  self reference of a time pulse not after the pulse of the slot, a current state descriptor as \<^verbatim>\<open>NewObject\<close> builds it,
  call tables in use, fewer than 127 calls of each kind that still run, and these calls of pulses from that of the object to
  that of the slot (\<^const>\<open>handover_ready\<close>).  Then the report built at the end of the pulse passes validation at any later pulse, and a new
  executor that applies it gets an object with state and with the same current state descriptor, with exactly
  the numbers of ordered and unordered calls that still run, those of earlier executors included, and with
  the earliest pulse of these calls.  The conversions to 32 and to 8 bits on the way lose nothing.
\<close>
theorem object_handover:
  assumes ready: "handover_ready slotPulse i d" and cp: "IsTimePulse cp" "slotPulse < cp"
  shows "\<exists>i' r i2. migrateReport i = Ok (Some (i', r)) \<and>
    VStateReport_Validate cp (stepSendVStateReport slotPulse r) = Inr () \<and>
    report_stepProcess slotPulse (stepSendVStateReport slotPulse r) (newInfo (info_Reference i)) = Ok (ReportApplied i2) \<and>
    objectState i2 = HasState \<and> descriptorDirty i2 = Some d \<and> descriptorValidated i2 = Some d \<and>
    unat (PreviousExecutorOrderedPendingCount i2) = activeCount CallTolerable i \<and>
    unat (PreviousExecutorUnorderedPendingCount i2) = activeCount CallIntolerable i \<and>
    OrderedPendingEarliestPulse i2 = leastPulse (activePulses CallTolerable i) \<and>
    UnorderedPendingEarliestPulse i2 = leastPulse (activePulses CallIntolerable i)"
proof -
  let ?ref = "info_Reference i"
  have ok: "info_ok i" and hs: "objectState i = HasState" and dd: "descriptorDirty i = Some d"
    and self: "IsSelfScope ?ref" "IsTimePulse (localPulse ?ref)" "localPulse ?ref \<le> slotPulse" "IsTimePulse slotPulse"
    and de: "\<not> local_IsEmpty (addressLocal (desc_state d))" "global_IsEmpty (desc_class d) \<longrightarrow> desc_class d = zeroGlobal"
    and no: "NewObject ?ref (addressLocal (desc_state d)) (desc_class d) (desc_memory d) False = Ok d"
    using ready by (simp_all add: handover_ready_def)
  have cnt: "activeCount tol i < 127" "\<forall>p \<in> activePulses tol i. localPulse ?ref \<le> p \<and> p \<le> cp" if "tol = CallIntolerable \<or> tol = CallTolerable" for tol
  proof -
    have "activeCount tol i < 127" "\<forall>p \<in> activePulses tol i. localPulse ?ref \<le> p \<and> p \<le> slotPulse" using ready that unfolding handover_ready_def by blast+
    then show "activeCount tol i < 127" "\<forall>p \<in> activePulses tol i. localPulse ?ref \<le> p \<and> p \<le> cp" using cp(2) by auto
  qed
  have nde: "desc_deactivated d = False"
    using NewObject_deactivated [OF no] .
  have ne: "\<not> global_IsEmpty ?ref" "\<not> global_IsEmpty (desc_state d)" using self(1) de by (auto simp: IsSelfScope_def global_IsEmpty_def)
  define st where "st = \<lparr>os_Reference = NewReference (desc_state d), os_Class = NewReference (desc_class d), os_Memory = desc_memory d, os_Deactivated = desc_deactivated d\<rparr>"
  define base where "base = \<lparr>vst_Status = StateStatusReady, vst_AsOf = Unknown, vst_Object = Some ?ref, vst_DelegationSpec = 0,
         vst_UnorderedPendingCount = int (activeCount CallIntolerable i), vst_UnorderedPendingEarliestPulse = leastPulse (activePulses CallIntolerable i),
         vst_OrderedPendingCount = int (activeCount CallTolerable i), vst_OrderedPendingEarliestPulse = leastPulse (activePulses CallTolerable i),
         vst_PreRegisteredQueueCount = 0, vst_PreRegisteredEarliestPulse = Unknown, vst_PriorityCallQueueCount = 0,
         vst_LatestValidatedState = None, vst_LatestValidatedCode = None,
         vst_LatestDirtyState = (if desc_memory d = [] then None else NewReference (desc_head d)),
         vst_LatestDirtyCode = None, vst_ProvidedContent = Some noContent\<rparr>"
  define r where "r = base\<lparr>vst_ProvidedContent := Some (noContent\<lparr>pc_LatestDirtyState := Some st, pc_LatestValidatedState := Some st\<rparr>)\<rparr>"
  have i32: "toInt32 (int (activeCount tol i)) = int (activeCount tol i)" if "tol = CallIntolerable \<or> tol = CallTolerable" for tol
    using cnt(1) [OF that] by (intro toInt32_small) auto
  have bsr: "BuildStateReport i = Ok base"
    using info_counts [OF ok] i32 hs dd nde ne by (simp add: BuildStateReport_def reportStatus_def base_def NewReference_def)
  have mig: "migrateReport i = Ok (Some (i, r))"
    using hs dd nde bsr by (simp add: migrateReport_def Let_def BuildLatestDirtyState_def r_def st_def base_def)
  have val: "VStateReport_Validate cp (stepSendVStateReport slotPulse r) = Inr ()"
  proof -
    have "validatePending (int (activeCount tol i)) (leastPulse (activePulses tol i)) (localPulse ?ref) cp e = Inr ()"
      if "tol = CallIntolerable \<or> tol = CallTolerable" for tol e
      using validatePending_ok [OF ok that cnt(1) [OF that] cnt(2) [OF that] self(2)] .
    moreover have "isTimePulseBefore slotPulse cp" using self cp by (simp add: isTimePulseBefore_def IsBefore_def IsTimePulse_word)
    moreover have "validSelfScopedGlobalWithPulseBeforeOrEq ?ref cp = Inr (localPulse ?ref)"
      using self cp by (auto simp: validSelfScopedGlobalWithPulseBeforeOrEq_def validSelfScopedGlobalWithPulseCheck_def localPulse_def
          isTimePulseBeforeOrEq_def IsBeforeOrEq_def IsTimePulse_word Let_def)
    ultimately show ?thesis
      by (simp add: VStateReport_Validate_def stepSendVStateReport_def r_def base_def report_validateUnimplemented_def token_IsZero_def IsUnknown_def
          content_validateUnimplemented_def noContent_def GetValue_def validateStatusReady_def)
  qed
  have bd: "buildObjectDescriptor ?ref st = Ok d"
    using no nde de ne by (auto simp: buildObjectDescriptor_def st_def GetValue_NewReference)
  have u8: "unat (word_of_int (int (activeCount tol i)) :: u8) = activeCount tol i" if "tol = CallIntolerable \<or> tol = CallTolerable" for tol
    using cnt(1) [OF that] by (simp add: unat_of_nat)
  define i2 where "i2 = (newInfo ?ref)\<lparr>PreviousExecutorUnorderedPendingCount := word_of_int (int (activeCount CallIntolerable i)),
             PreviousExecutorOrderedPendingCount := word_of_int (int (activeCount CallTolerable i)),
             OrderedPendingEarliestPulse := leastPulse (activePulses CallTolerable i),
             UnorderedPendingEarliestPulse := leastPulse (activePulses CallIntolerable i),
             descriptorDirty := Some d, descriptorValidated := Some d, objectState := HasState\<rparr>"
  have app: "report_stepProcess slotPulse (stepSendVStateReport slotPulse r) (newInfo ?ref) = Ok (ReportApplied i2)"
    using bd by (simp add: report_stepProcess_def stepSendVStateReport_def r_def base_def statusEmptyOrAbove_def IsReady_def newInfo_def
        report_updateSharedState_def gotLatestDirty_def setDescriptor_def GetValue_def Let_def i2_def)
  have "objectState i2 = HasState" "descriptorDirty i2 = Some d" "descriptorValidated i2 = Some d"
    "unat (PreviousExecutorOrderedPendingCount i2) = activeCount CallTolerable i" "unat (PreviousExecutorUnorderedPendingCount i2) = activeCount CallIntolerable i"
    "OrderedPendingEarliestPulse i2 = leastPulse (activePulses CallTolerable i)" "UnorderedPendingEarliestPulse i2 = leastPulse (activePulses CallIntolerable i)"
    using u8 by (simp_all add: i2_def)
  then show ?thesis using mig val app by blast
qed

text \<open>A table with one call that is being executed.\<close>

definition oneCall :: "Global \<Rightarrow> (Global, VCallResult) WorkingTable" where
  "oneCall r = \<lparr>wt_requests = [newRequestList, listActivity (localPulse r) (setRequest r RequestProcessing (setRequest r RequestStarted newRequestList))],
     wt_results = [(r, None)]\<rparr>"

lemma oneCall_reach: assumes "localPulse r \<noteq> Unknown" shows "table_reach localPulse (oneCall r)"
proof -
  define w1 :: "(Global, VCallResult) WorkingTable" where "w1 = \<lparr>wt_requests = [newRequestList, setRequest r RequestStarted newRequestList], wt_results = []\<rparr>"
  have f: "flagIndex xs CallTolerable = Ok 1" if "length xs = 2" for xs :: "'a list" using that by (simp add: flagIndex_def CallTolerable_def)
  have a: "wt_Add CallTolerable r NewWorkingTable = Ok (w1, True)"
    by (simp add: wt_Add_def f NewWorkingTable_def InterferenceFlagCount_def wl_add_def w1_def numeral_2_eq_2)
  have b: "wt_SetActive localPulse CallTolerable r w1 = Ok (oneCall r, True)"
    by (simp add: wt_SetActive_def f w1_def oneCall_def wl_setActive_def)
  have "table_reach localPulse w1" using tr_add [of localPulse _ r, OF tr_new assms _ a]
    by (auto simp: stateAt_def NewWorkingTable_def InterferenceFlagCount_def GetState_def)
  then show ?thesis using b by (rule tr_active)
qed

lemma oneCall_active:
  "inState RequestProcessing (wt_requests (oneCall r) ! 1) = {r}" "inState RequestProcessing (wt_requests (oneCall r) ! 0) = {}"
  by (auto simp: oneCall_def inState_def) (auto simp: GetState_def)

definition info_sample :: Info where
  "info_sample = (newInfo obj_sample)\<lparr>KnownRequests := oneCall out_sample, objectState := HasState,
     descriptorDirty := Some \<lparr>desc_head = obj_sample, desc_state = out_sample, desc_class = zeroGlobal, desc_memory = [1, 2], desc_deactivated = False\<rparr>\<rparr>"

lemma no_pending: "pl_in b (newRequestList :: 'r PendingList) = {}"
  by (simp add: pl_in_def pl_GetState_def)

lemma tolerance_index: "unat CallTolerable = 2" "unat CallIntolerable = 1"
  by (simp_all add: CallTolerable_def CallIntolerable_def)

lemma newInfo_pending: "pendingActive tol (newInfo ref\<lparr>KnownRequests := wt, objectState := s, descriptorDirty := d\<rparr>) = {}"
  if "tol = CallIntolerable \<or> tol = CallTolerable"
  using that by (auto simp: pendingActive_def newInfo_def NewRequestTable_def InterferenceFlagCount_def tolerance_index no_pending numeral_2_eq_2)

lemma sample_active:
  "pendingActive CallTolerable info_sample = {}" "pendingActive CallIntolerable info_sample = {}"
  "knownActive CallTolerable info_sample = {out_sample}" "knownActive CallIntolerable info_sample = {}"
  by (simp_all add: info_sample_def newInfo_pending) (simp_all add: knownActive_def newInfo_def tolerance_index oneCall_active [simplified])

lemma sample_pulses: "localPulse out_sample = 70020" "localPulse obj_sample = 70000" "IsTimePulse 70020" "IsTimePulse 70000" "IsTimePulse 70030" "IsTimePulse 70025"
  by code_simp+

lemma info_sample_ok: "info_ok info_sample"
proof -
  have "table_reach localPulse (KnownRequests info_sample)"
    using oneCall_reach [of out_sample] sample_pulses by (simp add: info_sample_def Pulse_Number.Unknown_def)
  moreover have "pendingTable info_sample = replicate 2 newRequestList" by (simp add: info_sample_def newInfo_def NewRequestTable_def InterferenceFlagCount_def)
  ultimately show ?thesis using sample_pulses by (auto simp: info_ok_def activePulses_def sample_active intro: pr_new)
qed

theorem object_handover_witness:
  "\<exists>i' r i2. migrateReport info_sample = Ok (Some (i', r)) \<and> VStateReport_Validate 70030 (stepSendVStateReport 70025 r) = Inr () \<and>
     report_stepProcess 70025 (stepSendVStateReport 70025 r) (newInfo obj_sample) = Ok (ReportApplied i2) \<and>
     unat (PreviousExecutorOrderedPendingCount i2) = 1 \<and> OrderedPendingEarliestPulse i2 = 70020"
proof -
  have "handover_ready 70025 info_sample \<lparr>desc_head = obj_sample, desc_state = out_sample, desc_class = zeroGlobal, desc_memory = [1, 2], desc_deactivated = False\<rparr>"
  proof -
    have "NewObject obj_sample (addressLocal out_sample) zeroGlobal [1, 2] False =
        Ok \<lparr>desc_head = obj_sample, desc_state = out_sample, desc_class = zeroGlobal, desc_memory = [1, 2], desc_deactivated = False\<rparr>"
      "IsSelfScope obj_sample" "\<not> local_IsEmpty (addressLocal out_sample)" by code_simp+
    moreover have "info_Reference info_sample = obj_sample" "objectState info_sample = HasState"
      "descriptorDirty info_sample = Some \<lparr>desc_head = obj_sample, desc_state = out_sample, desc_class = zeroGlobal, desc_memory = [1, 2], desc_deactivated = False\<rparr>"
      by (simp_all add: info_sample_def newInfo_def)
    ultimately show ?thesis using info_sample_ok sample_pulses
      by (auto simp: handover_ready_def activeCount_def activePulses_def sample_active)
  qed
  moreover have "info_Reference info_sample = obj_sample" by (simp add: info_sample_def newInfo_def)
  moreover have "activeCount CallTolerable info_sample = 1" "leastPulse (activePulses CallTolerable info_sample) = 70020"
    using sample_pulses by (simp_all add: activeCount_def activePulses_def sample_active leastPulse_def)
  moreover have "(70025 :: Number) < 70030" by simp
  ultimately show ?thesis using object_handover [OF _ sample_pulses(5)] by metis
qed

text \<open>
  Reports that the next executor cannot accept.  While the constructor of an object still runs at an
  earlier executor and no constructor runs here, the report says that the object is missing but counts the pending constructor;
  and the report of a deactivated object with calls that still run gives their earliest pulse.  Validation
  refuses such a report at every pulse, so the new executor never gets it.
\<close>
theorem refused_reports:
  assumes "info_ok i" "\<forall>tol \<in> {CallIntolerable, CallTolerable}. activeCount tol i < 2 ^ 31"
    and "objectState i = Empty \<and> knownActive CallTolerable i = {} \<and> activeCount CallTolerable i > 0 \<or>
      objectState i = Inactive \<and> (\<exists>tol \<in> {CallIntolerable, CallTolerable}. activeCount tol i > 0)"
  shows "\<exists>r. BuildStateReport i = Ok r \<and> (\<forall>cp slotPulse. VStateReport_Validate cp (stepSendVStateReport slotPulse r) \<noteq> Inr ())"
proof -
  note c = info_counts [OF assms(1)]
  have i32: "toInt32 (int (activeCount tol i)) = int (activeCount tol i)" if "tol = CallIntolerable \<or> tol = CallTolerable" for tol
    using assms(2) that by (intro toInt32_small) auto
  have known: "countActive (wt_requests (KnownRequests i) ! 1) = 0" if "knownActive CallTolerable i = {}"
    using working.active_count [OF info_lists(4) [OF assms(1), of CallTolerable]] that by (simp add: knownActive_def tolerance_index)
  have st: "reportStatus i = Ok (if objectState i = Inactive then StateStatusInactive else StateStatusMissing)"
    using assms(3) known info_lists(3) [OF assms(1), of CallTolerable] by (auto simp: reportStatus_def tolerance_index)
  obtain r where r: "BuildStateReport i = Ok r" "vst_Status r = (if objectState i = Inactive then StateStatusInactive else StateStatusMissing)"
    "vst_OrderedPendingCount r = int (activeCount CallTolerable i)" "vst_UnorderedPendingEarliestPulse r = leastPulse (activePulses CallIntolerable i)"
    using c i32 st by (simp add: BuildStateReport_def)
  have lp: "leastPulse (activePulses CallIntolerable i) \<noteq> Unknown" if "activeCount CallIntolerable i > 0"
  proof -
    have ne: "activePulses CallIntolerable i \<noteq> {}" "finite (activePulses CallIntolerable i)"
      using that activePulses_empty [OF assms(1), of CallIntolerable] active_finite [OF assms(1), of CallIntolerable] by (auto simp: activePulses_def)
    have "leastPulse (activePulses CallIntolerable i) \<in> activePulses CallIntolerable i" using ne by (simp add: leastPulse_def)
    then have "IsTimePulse (leastPulse (activePulses CallIntolerable i))" using assms(1) unfolding info_ok_def by blast
    then show ?thesis by auto
  qed
  have "validateStatusMissingOrInactive (stepSendVStateReport sp r) \<noteq> Inr ()" for sp
    using assms(3) r lp by (auto simp: validateStatusMissingOrInactive_def stepSendVStateReport_def accept_simps IsUnknown_def)
  then have "VStateReport_Validate cp (stepSendVStateReport sp r) \<noteq> Inr ()" for cp sp
    using r(2) by (auto simp: VStateReport_Validate_def accept_simps stepSendVStateReport_def split: StateStatus.splits if_splits)
  then show ?thesis using r(1) by blast
qed

theorem refused_reports_witness:
  "\<exists>r. BuildStateReport (info_sample\<lparr>objectState := Inactive\<rparr>) = Ok r \<and> VStateReport_Validate 70030 (stepSendVStateReport 70025 r) \<noteq> Inr ()"
proof -
  let ?i = "info_sample\<lparr>objectState := Inactive\<rparr>"
  have a: "pendingActive tol ?i = pendingActive tol info_sample" "knownActive tol ?i = knownActive tol info_sample" for tol
    by (simp_all add: pendingActive_def knownActive_def)
  have "info_ok ?i" using info_sample_ok by (simp add: info_ok_def activePulses_def a)
  then show ?thesis using refused_reports [of ?i] by (auto simp: activeCount_def a sample_active)
qed

subsection \<open>Delegated calls are bounded, and ordered calls wait for them\<close>

definition prevCount :: "u8 \<Rightarrow> Info \<Rightarrow> int" where
  "prevCount tol i = (if tol = CallTolerable then uint (PreviousExecutorOrderedPendingCount i) else uint (PreviousExecutorUnorderedPendingCount i))"

definition oldest :: "u8 \<Rightarrow> Info \<Rightarrow> Number" where
  "oldest tol i = (if tol = CallTolerable then OrderedPendingEarliestPulse i else UnorderedPendingEarliestPulse i)"

definition pendingOf :: "u8 \<Rightarrow> Info \<Rightarrow> Global PendingList" where
  "pendingOf tol i = pendingTable i ! (unat tol - 1)"

text \<open>
  The life of an object machine that was made ready by a state report: delegated calls come and finish in any
  order and any number of times, and the executor works on its own calls.
\<close>

inductive sm_reach :: "SMObject \<Rightarrow> bool" where
  so_report: "smReport prevPulse r (NewStateMachineObject ref) = Ok sm \<Longrightarrow> readyToWork sm \<Longrightarrow> sm_reach sm"
| so_call: "sm_reach sm \<Longrightarrow> smDelegatedCall p sm = Ok (sm', res) \<Longrightarrow> sm_reach sm'"
| so_finish: "sm_reach sm \<Longrightarrow> smFinished p sm = Ok sm' \<Longrightarrow> sm_reach sm'"
| so_known: "sm_reach sm \<Longrightarrow> sm_reach (sm\<lparr>sm_info := (sm_info sm)\<lparr>KnownRequests := wt\<rparr>\<rparr>)"

definition lists_ok :: "Info \<Rightarrow> bool" where
  "lists_ok i \<longleftrightarrow> length (pendingTable i) = 2 \<and> (\<forall>tol \<in> {CallIntolerable, CallTolerable}.
     distinct (map fst (requests (pendingOf tol i))) \<and> rl_Count (pendingOf tol i) \<le> prevCount tol i \<and>
     (\<forall>r \<in> fst ` set (requests (pendingOf tol i)). oldest tol i \<noteq> Unknown \<and> oldest tol i \<le> localPulse r))"

definition path_ok :: "SMObject \<Rightarrow> bool" where
  "path_ok sm \<longleftrightarrow> orderedLimit sm \<in> {0, 1} \<and>
     (orderedLimit sm = 1 \<longrightarrow> prevCount CallTolerable (sm_info sm) = 0 \<or> (\<exists>r. pl_GetState (pendingOf CallTolerable (sm_info sm)) r = (False, True)))"

lemma pt_GetList_Ok: "length pt = 2 \<Longrightarrow> tol \<in> {CallIntolerable, CallTolerable} \<Longrightarrow> pt_GetList pt tol = Ok (pt ! (unat tol - 1))"
  by (auto simp: pt_GetList_def flagIndex_def CallIntolerable_def CallTolerable_def)

lemma pt_GetList_length: "length pt = 2 \<Longrightarrow> pt_GetList pt tol = Ok pl \<Longrightarrow> tol \<in> {CallIntolerable, CallTolerable}"
  by (auto simp: pt_GetList_def flagIndex_Ok go_simps CallIntolerable_def CallTolerable_def word_unat_iff)

lemma pendingOf_set:
  assumes "length (pendingTable i) = 2" "tol \<in> {CallIntolerable, CallTolerable}" "t \<in> {CallIntolerable, CallTolerable}"
  shows "pendingOf t (setPendingList tol pl i) = (if t = tol then pl else pendingOf t i)"
  using assms by (auto simp: pendingOf_def setPendingList_def tolerance_index CallIntolerable_def CallTolerable_def)

lemma set_pending_simps [simp]:
  "prevCount t (setPendingList tol pl i) = prevCount t i" "oldest t (setPendingList tol pl i) = oldest t i"
  "length (pendingTable (setPendingList tol pl i)) = length (pendingTable i)" "objectState (setPendingList tol pl i) = objectState i"
  by (simp_all add: prevCount_def oldest_def setPendingList_def)

lemma update_length: "distinct (map fst xs) \<Longrightarrow> int (length (AList.update k v xs)) = int (length xs) + (if k \<in> fst ` set xs then 0 else 1)"
proof -
  assume d: "distinct (map fst xs)"
  have "length (AList.update k v xs) = card (fst ` set (AList.update k v xs))" "length xs = card (fst ` set xs)"
    using distinct_card [OF distinct_update [OF d, of k v]] distinct_card [OF d] by simp_all
  then show ?thesis by (simp add: update_keys card_insert_if)
qed

lemma pl_Add_requests: "requests (fst (pl_Add pn r pl)) = (if pl_Exist pl r then requests pl else AList.update r True (requests pl))"
  by (simp add: pl_Add_def pl_Exist_def)

lemma pl_Finish_requests: "requests (fst (pl_Finish pn r pl)) = (if pl_Exist pl r then AList.update r False (requests pl) else requests pl)"
  by (simp add: pl_Finish_def Let_def)

lemma pl_Exist_keys: "pl_Exist pl r \<longleftrightarrow> r \<in> fst ` set (requests pl)"
  by (metis map_of_eq_None_iff pl_Exist_def)

lemma lists_ok_set:
  assumes "lists_ok i" "tol \<in> {CallIntolerable, CallTolerable}" "distinct (map fst (requests pl))" "rl_Count pl \<le> prevCount tol i"
    "\<forall>r \<in> fst ` set (requests pl). oldest tol i \<noteq> Unknown \<and> oldest tol i \<le> localPulse r"
  shows "lists_ok (setPendingList tol pl i)"
  using assms pendingOf_set [OF _ assms(2), of i] unfolding lists_ok_def by (simp add: Ball_def) metis

lemma lists_okD:
  assumes "lists_ok i" "tol \<in> {CallIntolerable, CallTolerable}"
  shows "distinct (map fst (requests (pendingOf tol i)))" "rl_Count (pendingOf tol i) \<le> prevCount tol i"
    "\<forall>r \<in> fst ` set (requests (pendingOf tol i)). oldest tol i \<noteq> Unknown \<and> oldest tol i \<le> localPulse r" "pt_GetList (pendingTable i) tol = Ok (pendingOf tol i)"
  using assms pt_GetList_Ok [OF _ assms(2), of "pendingTable i"] unfolding lists_ok_def by (blast, blast, blast, simp add: pendingOf_def)

lemma call_step:
  assumes ok: "lists_ok i" and st: "delegated_stepProcessRequest p i = Ok (i', res)"
  defines "tol \<equiv> GetInterference (dcr_CallFlags p)" and "out \<equiv> GetValue (dcr_CallOutgoing p)"
  shows "tol \<in> {CallIntolerable, CallTolerable}"
    "i' = (if res = delegationOk then setPendingList tol (fst (pl_Add localPulse out (pendingOf tol i))) i else i)" "lists_ok i'"
proof -
  show t: "tol \<in> {CallIntolerable, CallTolerable}" using st by (auto simp: delegated_stepProcessRequest_def tol_def Let_def split: if_splits)
  note l = lists_okD [OF ok t]
  let ?old = "oldest tol i = Unknown \<or> GetPulseOfLocal (dcr_CallOutgoing p) < oldest tol i"
  let ?full = "rl_Count (pendingOf tol i) = prevCount tol i \<and> \<not> pl_Exist (pendingOf tol i) out"
  have ev: "delegated_stepProcessRequest p i =
     (if ?old then Ok (i, delegationOldRequest) else if ?full then Ok (i, delegationFullTable)
      else Ok (setPendingList tol (fst (pl_Add localPulse out (pendingOf tol i))) i, delegationOk))"
    using t l(4) by (auto simp: delegated_stepProcessRequest_def oldest_def prevCount_def Let_def simp flip: tol_def out_def)
  then show i': "i' = (if res = delegationOk then setPendingList tol (fst (pl_Add localPulse out (pendingOf tol i))) i else i)"
    using st by (auto split: if_splits)
  show "lists_ok i'"
  proof (cases "res = delegationOk")
    case True
    then have no: "\<not> ?old" "\<not> ?full" using st ev by (auto split: if_splits)
    have pulse: "oldest tol i \<noteq> Unknown" "oldest tol i \<le> localPulse out"
      using no(1) by (auto simp: GetPulseOfLocal_def PulseNumberOf_def out_def GetValue_def localPulse_def pulse_consts word_less_nat_alt word_unat_iff split: option.splits if_splits)
    let ?pl = "fst (pl_Add localPulse out (pendingOf tol i))"
    have "lists_ok (setPendingList tol ?pl i)"
    proof (rule lists_ok_set [OF ok t])
      show "distinct (map fst (requests ?pl))" using l(1) by (simp add: pl_Add_requests distinct_update)
      show "rl_Count ?pl \<le> prevCount tol i"
        using l(1,2) no(2) update_length [OF l(1), of out True] by (auto simp: pl_Add_requests rl_Count_def pl_Exist_keys)
      show "\<forall>r \<in> fst ` set (requests ?pl). oldest tol i \<noteq> Unknown \<and> oldest tol i \<le> localPulse r"
        using l(3) pulse by (cases "pl_Exist (pendingOf tol i) out") (simp_all only: pl_Add_requests update_keys if_True if_False ball_simps simp_thms)
    qed
    then show ?thesis using i' True by simp
  qed (use i' ok in simp)
qed

lemma finish_step:
  assumes ok: "lists_ok i" and st: "finished_updateSharedState p i = Ok (i', signal)"
  defines "tol \<equiv> GetInterference (drf_CallFlags p)" and "out \<equiv> GetValue (drf_CallOutgoing p)"
  shows "tol \<in> {CallIntolerable, CallTolerable}" "lists_ok i'" "prevCount t i' = prevCount t i"
    "t \<in> {CallIntolerable, CallTolerable} \<Longrightarrow> pendingOf t i' = (if t = tol then fst (pl_Finish localPulse out (pendingOf tol i)) else pendingOf t i)"
    "signal \<Longrightarrow> tol = CallTolerable" "pl_Exist (pendingOf tol i) out"
proof -
  define upd where "upd = (if drf_LatestState p \<noteq> None then
            bnd (latestState p) (\<lambda>d. updateObjectState (i\<lparr>descriptorDirty := Some d\<rparr>))
          else if tol = CallTolerable \<and> drf_CallType p = CallTypeConstructor \<and> objectState i = Empty
          then Ok (i\<lparr>objectState := Missing\<rparr>)
          else Ok i)"
  have ev: "finished_updateSharedState p i = bnd upd (\<lambda>state. bnd (pt_GetList (pendingTable state) tol) (\<lambda>pendingList.
       case pl_Finish localPulse out pendingList of (pl, ok) \<Rightarrow>
         if \<not> ok then Panic ''delegated request was not registered''
         else Ok (setPendingList tol pl state, tol = CallTolerable \<and> countActive pl = 0)))"
    unfolding finished_updateSharedState_def upd_def tol_def out_def Let_def by (rule refl)
  from st ev obtain s where s: "upd = Ok s" by (auto simp: go_simps)
  have same: "pendingTable s = pendingTable i" "prevCount t s = prevCount t i" "oldest t s = oldest t i" for t
    using s unfolding upd_def by (cases "objectState i"; force simp: go_simps updateObjectState_def prevCount_def oldest_def split: if_splits)+
  have p: "pendingOf t s = pendingOf t i" for t using same(1) by (simp add: pendingOf_def)
  have oks: "lists_ok s" using ok by (simp add: lists_ok_def same p)
  from st ev s obtain pl where gl: "pt_GetList (pendingTable s) tol = Ok pl" by (auto simp: go_simps)
  show t: "tol \<in> {CallIntolerable, CallTolerable}" using pt_GetList_length [OF _ gl] oks by (simp add: lists_ok_def)
  note l = lists_okD [OF oks t]
  let ?pl = "fst (pl_Finish localPulse out (pendingOf tol s))"
  have ex: "pl_Exist (pendingOf tol s) out" and i': "i' = setPendingList tol ?pl s" and sg: "signal \<Longrightarrow> tol = CallTolerable"
    using st ev s l(4) by (auto simp: pl_Finish_def Let_def split: if_splits)
  show "pl_Exist (pendingOf tol i) out" "signal \<Longrightarrow> tol = CallTolerable" using ex sg p by simp_all
  have "lists_ok (setPendingList tol ?pl s)"
  proof (rule lists_ok_set [OF oks t])
    show "distinct (map fst (requests ?pl))" using l(1) by (simp add: pl_Finish_requests distinct_update)
    show "rl_Count ?pl \<le> prevCount tol s"
      using l(1,2) ex update_length [OF l(1), of out False] by (simp add: pl_Finish_requests rl_Count_def pl_Exist_keys)
    show "\<forall>r \<in> fst ` set (requests ?pl). oldest tol s \<noteq> Unknown \<and> oldest tol s \<le> localPulse r" using l(3) ex by (auto simp: pl_Finish_requests update_keys pl_Exist_keys)
  qed
  then show "lists_ok i'" using i' by simp
  show "prevCount t i' = prevCount t i" using i' same by simp
  show "pendingOf t i' = (if t = tol then fst (pl_Finish localPulse out (pendingOf tol i)) else pendingOf t i)" if "t \<in> {CallIntolerable, CallTolerable}"
    using that i' pendingOf_set [OF _ t that, of s] oks p by (simp add: lists_ok_def)
qed

lemma pl_Finish_state: "pl_Exist pl r \<Longrightarrow> pl_GetState (fst (pl_Finish pn r pl)) x = (if x = r then (False, True) else pl_GetState pl x)"
  by (simp add: pl_Finish_def Let_def pl_GetState_def update_conv)

lemma pl_Add_finished: "pl_GetState pl x = (False, True) \<Longrightarrow> pl_GetState (fst (pl_Add pn r pl)) x = (False, True)"
  by (auto simp: pl_Add_def pl_GetState_def update_conv split: option.splits)

lemma got_state:
  "sm_info (stepGotState sm) = sm_info sm" "readyToWork (stepGotState sm)" "readyToWork sm = False \<Longrightarrow> orderedLimit sm = 0 \<Longrightarrow>
    orderedLimit (stepGotState sm) = (if PreviousExecutorOrderedPendingCount (sm_info sm) = 0 then 1 else 0)"
  by (simp_all add: stepGotState_def Let_def releaseUnorderedExecutionPath_def releaseOrderedExecutionPath_def)

lemma pending_finished_simps:
  "sm_info (orderedPendingFinished sm) = sm_info sm" "orderedLimit (orderedPendingFinished sm) \<in> {orderedLimit sm, 1}"
  by (auto simp: orderedPendingFinished_def releaseUnorderedExecutionPath_def releaseOrderedExecutionPath_def split: option.splits)

lemma report_keeps_tables: "report_stepProcess prevPulse r i = Ok (ReportApplied i') \<Longrightarrow> pendingTable i' = pendingTable i"
  by (auto simp: report_stepProcess_def report_updateSharedState_def setDescriptor_def go_simps Let_def split: if_splits option.splits StateStatus.splits)

lemma smReport_ready:
  assumes "smReport prevPulse r (NewStateMachineObject ref) = Ok sm" "readyToWork sm"
  obtains i where "report_stepProcess prevPulse r (newInfo ref) = Ok (ReportApplied i)" "sm_info sm = i"
    "orderedLimit sm = (if PreviousExecutorOrderedPendingCount i = 0 then 1 else 0)"
proof -
  from assms(1) obtain res where res: "report_stepProcess prevPulse r (newInfo ref) = Ok res"
    by (auto simp: smReport_def NewStateMachineObject_def go_simps)
  show ?thesis
  proof (cases res)
    case (ReportApplied i)
    then have "sm = stepGotState ((NewStateMachineObject ref)\<lparr>sm_info := i\<rparr>)" using assms(1) res by (simp add: smReport_def NewStateMachineObject_def)
    then show ?thesis using that [of i] res ReportApplied by (simp add: got_state NewStateMachineObject_def)
  qed (use assms res in \<open>auto simp: smReport_def NewStateMachineObject_def\<close>)
qed

lemma new_lists_ok: "pendingTable i = NewRequestTable \<Longrightarrow> lists_ok i"
  by (auto simp: lists_ok_def pendingOf_def NewRequestTable_def InterferenceFlagCount_def tolerance_index rl_Count_def numeral_2_eq_2 prevCount_def)

lemma sm_reach_ok: "sm_reach sm \<Longrightarrow> lists_ok (sm_info sm) \<and> path_ok sm"
proof (induction rule: sm_reach.induct)
  case (so_report prevPulse r ref sm)
  obtain i where i: "report_stepProcess prevPulse r (newInfo ref) = Ok (ReportApplied i)" "sm_info sm = i"
    "orderedLimit sm = (if PreviousExecutorOrderedPendingCount i = 0 then 1 else 0)" by (rule smReport_ready [OF so_report])
  then have "lists_ok i" using report_keeps_tables [OF i(1)] by (intro new_lists_ok) (simp add: newInfo_def)
  then show ?case using i by (simp add: path_ok_def prevCount_def)
next
  case (so_call sm p sm' res)
  obtain i where i: "delegated_stepProcessRequest p (sm_info sm) = Ok (i, res)" "sm' = sm\<lparr>sm_info := i\<rparr>"
    using so_call.hyps(2) by (auto simp: smDelegatedCall_def go_simps)
  note l = so_call.IH [THEN conjunct1] and c = call_step [OF so_call.IH [THEN conjunct1] i(1)]
  have "length (pendingTable (sm_info sm)) = 2" using l by (simp add: lists_ok_def)
  then have "pl_GetState (pendingOf CallTolerable i) r = (False, True)" if "pl_GetState (pendingOf CallTolerable (sm_info sm)) r = (False, True)" for r
    using that c(2) pendingOf_set [OF _ c(1), of "sm_info sm" CallTolerable] by (auto intro: pl_Add_finished)
  moreover have "prevCount CallTolerable i = prevCount CallTolerable (sm_info sm)" using c(2) by simp
  ultimately show ?case using so_call.IH c(3) i(2) by (auto simp: path_ok_def)
next
  case (so_finish sm p sm')
  obtain i sg where fs: "finished_stepProcess p (sm_info sm) = Ok (i, sg)"
    "sm' = (if sg then orderedPendingFinished (sm\<lparr>sm_info := i\<rparr>) else sm\<lparr>sm_info := i\<rparr>)"
    using so_finish.hyps(2) by (auto simp: smFinished_def go_simps Let_def)
  then have i: "finished_stepProcess p (sm_info sm) = Ok (i, sg)" "sm_info sm' = i" "orderedLimit sm' = orderedLimit sm \<or> sg \<and> orderedLimit sm' = 1"
    using pending_finished_simps [of "sm\<lparr>sm_info := i\<rparr>"] by auto
  show ?case
  proof (cases "IsReady (sm_info sm)")
    case True
    then have st: "finished_updateSharedState p (sm_info sm) = Ok (i, sg)" using i(1) by (simp add: finished_stepProcess_def)
    note f = finish_step [OF so_finish.IH [THEN conjunct1] st]
    have "pl_GetState (pendingOf CallTolerable i) r = (False, True)" if "pl_GetState (pendingOf CallTolerable (sm_info sm)) r = (False, True)" for r
      using that f(4) [of CallTolerable] pl_Finish_state [OF f(6)] by auto
    moreover have "\<exists>r. pl_GetState (pendingOf CallTolerable i) r = (False, True)" if sg
      using f(4) [of CallTolerable] f(5) [OF that] pl_Finish_state [OF f(6)] by auto
    ultimately show ?thesis using so_finish.IH f(2,3) i(2,3) by (auto simp: path_ok_def)
  next
    case False
    then show ?thesis using i so_finish.IH by (auto simp: finished_stepProcess_def path_ok_def)
  qed
next
  case (so_known sm wt)
  have "pendingOf t (i\<lparr>KnownRequests := wt\<rparr>) = pendingOf t i" "prevCount t (i\<lparr>KnownRequests := wt\<rparr>) = prevCount t i"
    "oldest t (i\<lparr>KnownRequests := wt\<rparr>) = oldest t i" for t and i :: Info
    by (simp_all add: pendingOf_def prevCount_def oldest_def)
  then show ?case using so_known by (simp add: lists_ok_def path_ok_def)
qed

text \<open>A report about an object with state and \<open>n\<close> ordered calls, and the messages about such a call.\<close>

definition report_sample :: "int \<Rightarrow> VStateReport" where
  "report_sample n =
     (let st = Some \<lparr>os_Reference = Some out_sample, os_Class = None, os_Memory = [1], os_Deactivated = False\<rparr> in
      \<lparr>vst_Status = StateStatusReady, vst_AsOf = 70025, vst_Object = Some obj_sample, vst_DelegationSpec = 0,
       vst_UnorderedPendingCount = 0, vst_UnorderedPendingEarliestPulse = Unknown,
       vst_OrderedPendingCount = n, vst_OrderedPendingEarliestPulse = 70020,
       vst_PreRegisteredQueueCount = 0, vst_PreRegisteredEarliestPulse = Unknown, vst_PriorityCallQueueCount = 0,
       vst_LatestValidatedState = None, vst_LatestValidatedCode = None, vst_LatestDirtyState = Some obj_sample, vst_LatestDirtyCode = None,
       vst_ProvidedContent = Some (noContent\<lparr>pc_LatestDirtyState := st, pc_LatestValidatedState := st\<rparr>)\<rparr>)"

definition call_sample :: VDelegatedCallRequest where
  "call_sample = \<lparr>dcr_Callee = Some obj_sample, dcr_CallFlags = 6, dcr_CallOutgoing = Some out_sample, dcr_CallIncoming = Some out_sample\<rparr>"

definition finish_sample :: VDelegatedRequestFinished where
  "finish_sample = \<lparr>drf_CallType = CallTypeMethod, drf_CallFlags = 6, drf_Callee = Some obj_sample, drf_ResultFlags = 0,
     drf_CallOutgoing = Some out_sample, drf_CallIncoming = Some out_sample, drf_LatestState = None\<rparr>"

definition sm_ready :: "int \<Rightarrow> SMObject res" where
  "sm_ready n = smReport 70025 (report_sample n) (NewStateMachineObject obj_sample)"

definition sm_called :: "int \<Rightarrow> SMObject res" where
  "sm_called n = bnd (sm_ready n) (\<lambda>sm. bnd (smDelegatedCall call_sample sm) (\<lambda>(sm, _). Ok sm))"

definition sm_done :: "int \<Rightarrow> SMObject res" where
  "sm_done n = bnd (sm_called n) (smFinished finish_sample)"

lemma sm_called_reach:
  assumes "bnd (sm_ready n) (\<lambda>sm. Ok (readyToWork sm)) = Ok True" "sm_called n = Ok sm"
  shows "sm_reach sm"
proof -
  obtain s0 where s0: "sm_ready n = Ok s0" "readyToWork s0" using assms(1) by (auto simp: go_simps)
  then have "sm_reach s0" unfolding sm_ready_def by (rule so_report)
  then show ?thesis using assms(2) s0 by (auto simp: sm_called_def go_simps intro: so_call)
qed

lemma sm_done_reach:
  assumes "bnd (sm_ready n) (\<lambda>sm. Ok (readyToWork sm)) = Ok True" "sm_done n = Ok sm"
  shows "sm_reach sm"
  using assms sm_called_reach [OF assms(1)] by (auto simp: sm_done_def go_simps intro: so_finish)

lemma samples_evaluate:
  "VStateReport_Validate 70030 (report_sample 1) = Inr ()" "VStateReport_Validate 70030 (report_sample 2) = Inr ()"
  "bnd (sm_ready 1) (\<lambda>sm. Ok (readyToWork sm)) = Ok True" "bnd (sm_ready 2) (\<lambda>sm. Ok (readyToWork sm)) = Ok True"
  "bnd (sm_called 1) (\<lambda>sm. Ok (pl_Exist (pendingOf CallTolerable (sm_info sm)) out_sample, orderedLimit sm)) = Ok (True, 0)"
  "bnd (sm_done 1) (\<lambda>sm. Ok (prevCount CallTolerable (sm_info sm), orderedLimit sm)) = Ok (1, 1)"
  "bnd (sm_done 2) (\<lambda>sm. Ok (prevCount CallTolerable (sm_info sm), rl_Count (pendingOf CallTolerable (sm_info sm)), orderedLimit sm)) = Ok (2, 1, 1)"
  by code_simp+

text \<open>
  C11: the delegations that an object grants are bounded.  In every state of the object machine the pending
  list of each tolerance holds at most as many calls as the previous executor announced and no call
  that is older than the announced earliest pulse; and a repeated request for a call in the list is granted
  again without any change.
\<close>
theorem delegation_bounded:
  assumes "sm_reach sm" "tol \<in> {CallIntolerable, CallTolerable}"
  shows "rl_Count (pendingOf tol (sm_info sm)) \<le> prevCount tol (sm_info sm) \<and>
    (\<forall>r. pl_Exist (pendingOf tol (sm_info sm)) r \<longrightarrow> oldest tol (sm_info sm) \<noteq> Unknown \<and> oldest tol (sm_info sm) \<le> localPulse r) \<and>
    (\<forall>p. GetInterference (dcr_CallFlags p) = tol \<and> pl_Exist (pendingOf tol (sm_info sm)) (GetValue (dcr_CallOutgoing p)) \<longrightarrow>
       smDelegatedCall p sm = Ok (sm, delegationOk))"
proof -
  let ?i = "sm_info sm"
  have ok: "lists_ok ?i" using sm_reach_ok [OF assms(1)] by simp
  note l = lists_okD [OF ok assms(2)]
  have e: "oldest tol ?i \<noteq> Unknown" "oldest tol ?i \<le> localPulse r" if "pl_Exist (pendingOf tol ?i) r" for r
    using l(3) that unfolding pl_Exist_keys by blast+
  have "smDelegatedCall p sm = Ok (sm, delegationOk)"
    if p: "GetInterference (dcr_CallFlags p) = tol" "pl_Exist (pendingOf tol ?i) (GetValue (dcr_CallOutgoing p))" for p
  proof -
    obtain g where g: "dcr_CallOutgoing p = Some g"
      using e [OF p(2)] by (cases "dcr_CallOutgoing p")
        (auto simp: GetValue_def localPulse_def zeroGlobal_def zeroLocal_def GetPulseNumber_def header_Pulse_def OfUint32_def pulse_consts)
    have "GetPulseOfLocal (dcr_CallOutgoing p) = localPulse (GetValue (dcr_CallOutgoing p))"
      using e [OF p(2)] by (auto simp: g GetPulseOfLocal_def PulseNumberOf_def GetValue_def localPulse_def global_IsEmpty_def local_IsEmpty_def
          GetPulseNumber_def header_Pulse_def OfUint32_def pulse_consts)
    then have "\<not> (oldest tol ?i = Unknown \<or> GetPulseOfLocal (dcr_CallOutgoing p) < oldest tol ?i)" using e [OF p(2)] by auto
    moreover have "setPendingList tol (fst (pl_Add localPulse (GetValue (dcr_CallOutgoing p)) (pendingOf tol ?i))) ?i = ?i"
      using p(2) by (simp add: pl_Add_def pl_Exist_def setPendingList_def pendingOf_def)
    ultimately have "delegated_stepProcessRequest p ?i = Ok (?i, delegationOk)"
      using assms(2) p l(4) by (auto simp: delegated_stepProcessRequest_def oldest_def Let_def)
    then show ?thesis by (simp add: smDelegatedCall_def)
  qed
  then show ?thesis using l(2) e by blast
qed

theorem delegation_bounded_witness:
  "\<exists>sm. sm_called 1 = Ok sm \<and> rl_Count (pendingOf CallTolerable (sm_info sm)) \<le> prevCount CallTolerable (sm_info sm) \<and>
     smDelegatedCall call_sample sm = Ok (sm, delegationOk)"
proof -
  obtain sm where sm: "sm_called 1 = Ok sm" "pl_Exist (pendingOf CallTolerable (sm_info sm)) out_sample"
    using samples_evaluate(5) by (auto simp: go_simps)
  have "GetInterference (dcr_CallFlags call_sample) = CallTolerable" "GetValue (dcr_CallOutgoing call_sample) = out_sample" by code_simp+
  then show ?thesis using sm delegation_bounded [OF sm_called_reach [OF samples_evaluate(3) sm(1)], of CallTolerable] by auto
qed

text \<open>
  C8: ordered calls wait for the ordered call of the previous executor.  If the previous executor announced at
  most one ordered call, then the semaphore of ordered calls is opened only when every announced call is finished and none is active.
\<close>
theorem ordered_path_waits:
  assumes "sm_reach sm" "prevCount CallTolerable (sm_info sm) \<le> 1" "orderedLimit sm > 0"
  shows "pl_in True (pendingOf CallTolerable (sm_info sm)) = {} \<and>
    int (card (pl_in False (pendingOf CallTolerable (sm_info sm)))) = prevCount CallTolerable (sm_info sm)"
proof -
  let ?pl = "pendingOf CallTolerable (sm_info sm)"
  have ok: "lists_ok (sm_info sm)" "path_ok sm" using sm_reach_ok [OF assms(1)] by simp_all
  have "0 \<le> prevCount CallTolerable (sm_info sm)" by (simp add: prevCount_def)
  have c: "int (length (requests ?pl)) \<le> prevCount CallTolerable (sm_info sm)" using lists_okD(2) [OF ok(1), of CallTolerable] by (simp add: rl_Count_def)
  consider "prevCount CallTolerable (sm_info sm) = 0" | r where "prevCount CallTolerable (sm_info sm) = 1" "map_of (requests ?pl) r = Some False"
    using ok(2) assms(2,3) \<open>0 \<le> _\<close> unfolding path_ok_def pl_GetState_iff by fastforce
  then show ?thesis
  proof cases
    case 1
    then show ?thesis using c by (auto simp: pl_in_def pl_GetState_iff)
  next
    case 2
    then have "requests ?pl = [(r, False)]" using c map_of_SomeD [OF 2(2)] by (cases "requests ?pl") auto
    then have "pl_in True ?pl = {}" "pl_in False ?pl = {r}" by (auto simp: pl_in_def pl_GetState_iff split: if_splits)
    then show ?thesis using 2 by simp
  qed
qed

theorem ordered_path_waits_witness:
  "\<exists>sm. sm_done 1 = Ok sm \<and> orderedLimit sm = 1 \<and> pl_in True (pendingOf CallTolerable (sm_info sm)) = {}"
proof -
  obtain sm where "sm_done 1 = Ok sm" "prevCount CallTolerable (sm_info sm) = 1" "orderedLimit sm = 1"
    using samples_evaluate(6) by (auto simp: go_simps)
  then show ?thesis using ordered_path_waits [OF sm_done_reach [OF samples_evaluate(3)], of sm] by auto
qed

text \<open>
  With two announced calls the semaphore is opened as soon as the first registered one finishes, although the other
  one was neither registered nor finished.
\<close>

lemma ordered_path_opens_early:
  "\<exists>sm. sm_reach sm \<and> prevCount CallTolerable (sm_info sm) = 2 \<and> rl_Count (pendingOf CallTolerable (sm_info sm)) = 1 \<and> orderedLimit sm = 1"
proof -
  obtain sm where "sm_done 2 = Ok sm" "prevCount CallTolerable (sm_info sm) = 2" "rl_Count (pendingOf CallTolerable (sm_info sm)) = 1" "orderedLimit sm = 1"
    using samples_evaluate(7) by (auto simp: go_simps)
  then show ?thesis using sm_done_reach [OF samples_evaluate(4)] by blast
qed

subsection \<open>A call is executed once\<close>

text \<open>What happens to the state of an object between two arrivals of the same call.\<close>

inductive info_run :: "Info \<Rightarrow> Info \<Rightarrow> bool" where
  ir_refl: "info_run i i"
| ir_dedup: "info_run i j \<Longrightarrow> deduplicate b s j = Ok (s', k, a) \<Longrightarrow> info_run i k"
| ir_start: "info_run i j \<Longrightarrow> stepStartRequestProcessing s j = Ok k \<Longrightarrow> info_run i k"
| ir_finish: "info_run i j \<Longrightarrow> FinishRequest flag r result j = Ok k \<Longrightarrow> info_run i k"
| ir_delegated: "info_run i j \<Longrightarrow> delegated_stepProcessRequest p j = Ok (k, d) \<Longrightarrow> info_run i k"
| ir_finished: "info_run i j \<Longrightarrow> finished_stepProcess q j = Ok (k, sg) \<Longrightarrow> info_run i k"

definition knownIn :: "(Global, VCallResult) WorkingTable \<Rightarrow> nat \<Rightarrow> Global set" where
  "knownIn wt n = dom (map_of (requests (wt_requests wt ! n)))"

definition keepsKnown :: "(Global, VCallResult) WorkingTable \<Rightarrow> (Global, VCallResult) WorkingTable \<Rightarrow> bool" where
  "keepsKnown wt wt' \<longleftrightarrow> length (wt_requests wt') = length (wt_requests wt) \<and> (\<forall>n < length (wt_requests wt). knownIn wt n \<subseteq> knownIn wt' n)"

lemma keepsKnown_update:
  assumes "dom (map_of (requests (wt_requests wt ! n))) \<subseteq> dom (map_of (requests rl))"
  shows "keepsKnown wt (wt\<lparr>wt_requests := (wt_requests wt)[n := rl]\<rparr>)"
  unfolding keepsKnown_def knownIn_def
proof (intro conjI allI impI)
  fix k assume "k < length (wt_requests wt)"
  then show "dom (map_of (requests (wt_requests wt ! k))) \<subseteq> dom (map_of (requests (wt_requests (wt\<lparr>wt_requests := (wt_requests wt)[n := rl]\<rparr>) ! k)))"
    using assms by (cases "k = n") simp_all
qed simp

lemma keepsKnown_results: "keepsKnown wt (wt'\<lparr>wt_results := x\<rparr>) \<longleftrightarrow> keepsKnown wt wt'"
  by (simp add: keepsKnown_def knownIn_def)

lemma list_ops_keep:
  "dom (map_of (requests rl)) \<subseteq> dom (map_of (requests (fst (wl_add r rl))))"
  "dom (map_of (requests rl)) \<subseteq> dom (map_of (requests (fst (wl_setActive pn r rl))))"
  "dom (map_of (requests rl)) \<subseteq> dom (map_of (requests (fst (wl_finish pn r rl))))"
  by (auto simp: wl_add_def wl_setActive_def wl_finish_def Let_def update_conv split: if_splits)

lemma table_ops_keep:
  "wt_Add flag r wt = Ok (wt', ok) \<Longrightarrow> keepsKnown wt wt'"
  "wt_SetActive pn flag r wt = Ok (wt', ok) \<Longrightarrow> keepsKnown wt wt'"
  "wt_Finish pn flag r result wt = Ok (wt', ok) \<Longrightarrow> keepsKnown wt wt'"
  using keepsKnown_update [OF list_ops_keep(1)] keepsKnown_update [OF list_ops_keep(2)] keepsKnown_update [OF list_ops_keep(3)]
  by (fastforce simp: wt_Add_def wt_SetActive_def wt_Finish_def go_simps Let_def keepsKnown_results case_prod_unfold split: if_splits)+

lemma keepsKnown_refl: "keepsKnown wt wt"
  by (simp add: keepsKnown_def)

lemma keepsKnown_trans: "keepsKnown a b \<Longrightarrow> keepsKnown b c \<Longrightarrow> keepsKnown a c"
  unfolding keepsKnown_def by (metis subset_trans)

lemma deduplicate_keeps: "deduplicate b s j = Ok (s', k, a) \<Longrightarrow> keepsKnown (KnownRequests j) (KnownRequests k)"
proof -
  assume d: "deduplicate b s j = Ok (s', k, a)"
  then obtain wt ok where w: "wt_Add (exec_Interference s) (exec_Outgoing s) (KnownRequests j) = Ok (wt, ok)" by (auto simp: deduplicate_def go_simps)
  then have "KnownRequests k = wt"
    using d by (auto simp: deduplicate_def go_simps Let_def case_prod_unfold split: if_splits option.splits)
  then show ?thesis using table_ops_keep(1) [OF w] by simp
qed

lemma start_keeps: "stepStartRequestProcessing s j = Ok k \<Longrightarrow> keepsKnown (KnownRequests j) (KnownRequests k)"
  using table_ops_keep(2) by (auto simp: stepStartRequestProcessing_def go_simps split: if_splits)

lemma finish_keeps: "FinishRequest flag r result j = Ok k \<Longrightarrow> keepsKnown (KnownRequests j) (KnownRequests k)"
  using table_ops_keep(3) by (auto simp: FinishRequest_def go_simps)

lemma delegated_known: "delegated_stepProcessRequest p j = Ok (k, d) \<Longrightarrow> KnownRequests k = KnownRequests j"
  by (auto simp: delegated_stepProcessRequest_def go_simps Let_def setPendingList_def split: if_splits)

lemma finished_known: "finished_stepProcess q j = Ok (k, sg) \<Longrightarrow> KnownRequests k = KnownRequests j"
  by (cases "objectState j")
    (auto simp: finished_stepProcess_def finished_updateSharedState_def updateObjectState_def go_simps Let_def setPendingList_def case_prod_unfold split: if_splits)

lemma info_run_keeps: "info_run i j \<Longrightarrow> keepsKnown (KnownRequests i) (KnownRequests j)"
proof (induction rule: info_run.induct)
  case (ir_refl i)
  show ?case by (rule keepsKnown_refl)
next
  case (ir_dedup i j b s s' k a)
  then show ?case using deduplicate_keeps by (blast intro: keepsKnown_trans)
next
  case (ir_start i j s k)
  then show ?case using start_keeps by (blast intro: keepsKnown_trans)
next
  case (ir_finish i j flag r result k)
  then show ?case using finish_keeps by (blast intro: keepsKnown_trans)
qed (simp_all add: delegated_known finished_known)

text \<open>
  C4: a call is executed at most once by an executor.  Once a call went through deduplication, every later
  arrival of the same call is stopped, whatever calls were deduplicated, started, finished, delegated or reported
  in between: the answer is sent again if it is known, and nothing changes.
\<close>
theorem call_executed_once:
  assumes first: "deduplicate b s i = Ok (s', j, a)" and run: "info_run j k"
    and same: "exec_Outgoing t = exec_Outgoing s" "exec_Interference t = exec_Interference s"
  shows "deduplicate c t k = Ok (t, k, case map_of (wt_results (KnownRequests k)) (exec_Outgoing s) of Some (Some r) \<Rightarrow> SendResultAndStop r | _ \<Rightarrow> Stop)"
proof -
  let ?r = "exec_Outgoing s"
  obtain wt ok where w: "wt_Add (exec_Interference s) ?r (KnownRequests i) = Ok (wt, ok)" using first by (auto simp: deduplicate_def go_simps)
  then obtain n where n: "flagIndex (wt_requests (KnownRequests i)) (exec_Interference s) = Ok n"
    and wt: "wt = (KnownRequests i)\<lparr>wt_requests := (wt_requests (KnownRequests i))[n := fst (wl_add ?r (wt_requests (KnownRequests i) ! n))]\<rparr>"
    by (auto simp: wt_Add_def go_simps case_prod_unfold)
  have j: "KnownRequests j = wt"
    using first w by (auto simp: deduplicate_def go_simps Let_def case_prod_unfold split: if_splits option.splits)
  have len: "n < length (wt_requests (KnownRequests i))" using n by (simp add: flagIndex_Ok)
  have "?r \<in> dom (map_of (requests (fst (wl_add ?r (wt_requests (KnownRequests i) ! n)))))" by (auto simp: wl_add_def update_conv)
  then have "?r \<in> knownIn (KnownRequests j) n" using len by (simp add: knownIn_def j wt)
  moreover have "keepsKnown (KnownRequests j) (KnownRequests k)" by (rule info_run_keeps [OF run])
  ultimately have k: "?r \<in> knownIn (KnownRequests k) n" "length (wt_requests (KnownRequests k)) = length (wt_requests (KnownRequests i))"
    using len by (auto simp: keepsKnown_def j wt)
  have "flagIndex (wt_requests (KnownRequests k)) (exec_Interference s) = Ok n" using n k(2) by (simp add: flagIndex_Ok)
  then have "wt_Add (exec_Interference t) (exec_Outgoing t) (KnownRequests k) = Ok (KnownRequests k, False)"
    using k by (auto simp: wt_Add_def wl_add_def knownIn_def same)
  then show ?thesis using same by (simp add: deduplicate_def split: option.split)
qed

definition exec_sample :: SMExecute where
  "exec_sample = \<lparr>exec_Outgoing = out_sample, exec_Interference = CallTolerable, isConstructor = False, hasState = False, duplicateFinished = False\<rparr>"

theorem call_executed_once_witness:
  "\<exists>s' j k. deduplicate True exec_sample (newInfo obj_sample) = Ok (s', j, ContinueExecute) \<and> stepStartRequestProcessing exec_sample j = Ok k \<and>
     deduplicate True exec_sample k = Ok (exec_sample, k, Stop)"
proof -
  let ?run = "bnd (deduplicate True exec_sample (newInfo obj_sample)) (\<lambda>(s, j, a). bnd (stepStartRequestProcessing exec_sample j) (\<lambda>k.
    Ok (a, map_of (wt_results (KnownRequests k)) (exec_Outgoing exec_sample))))"
  have "?run = Ok (ContinueExecute, Some None)" by code_simp
  then obtain s j k where r: "deduplicate True exec_sample (newInfo obj_sample) = Ok (s, j, ContinueExecute)" "stepStartRequestProcessing exec_sample j = Ok k"
    "map_of (wt_results (KnownRequests k)) (exec_Outgoing exec_sample) = Some None" by (auto simp: go_simps)
  then show ?thesis using call_executed_once [OF r(1) ir_start [OF ir_refl r(2)], of exec_sample True] by auto
qed

text \<open>
  C10: what the previous executor answers about a call.  Let the previous executor have registered each call under one flag (\<^const>\<open>table_reach\<close>) and
  have published the summary of the object.  Then its answer to the question about a method call lets the new executor go on with the call exactly when the
  previous executor had not begun with it; if it had finished with a result, the result is sent again, and otherwise
  the call is stopped.  This is about the answer alone: a call that earlier executors had begun is found in the pending list before the question is asked.
\<close>
theorem call_not_repeated:
  assumes "table_reach localPulse (KnownRequests i)" "stepPublishCallSummary i reg = Ok reg'" "\<not> isConstructor s"
    and "fcr_Callee p = Some (info_Reference i)" "fcr_Outgoing p = Some r"
  shows "stepProcessFindCallResponse s (findCall (Some reg') p) =
    Ok (if \<forall>j < 2. stateAt (KnownRequests i) j r \<notin> {RequestProcessing, RequestFinished} then FindExecute
        else case map_of (wt_results (KnownRequests i)) r of Some (Some res) \<Rightarrow> FindResend res | _ \<Rightarrow> FindStop)"
proof -
  have t: "map_of (wt_results (KnownRequests i)) r \<noteq> None \<longleftrightarrow> (\<exists>j < 2. stateAt (KnownRequests i) j r = RequestProcessing \<or> stateAt (KnownRequests i) j r = RequestFinished)"
    using table_reach_ok [OF assms(1)] unfolding table_ok_def by blast
  have "map_of reg' (info_Reference i) = Some (wt_results (KnownRequests i))"
    using assms(2) by (auto simp: stepPublishCallSummary_def AddObjectCallResults_def update_conv split: if_splits)
  then have f: "findCall (Some reg') p = \<lparr>fcs_LookedAt = fcr_LookAt p, fcs_Callee = fcr_Callee p, fcs_Outgoing = fcr_Outgoing p,
       fcs_Status = (case map_of (wt_results (KnownRequests i)) r of Some _ \<Rightarrow> CallStateFound
         | None \<Rightarrow> if GetPulseOfLocal (fcr_Outgoing p) < fcr_LookAt p then CallStateUnknown else CallStateMissing),
       fcs_CallResult = (case map_of (wt_results (KnownRequests i)) r of None \<Rightarrow> None | Some r \<Rightarrow> r)\<rparr>"
    by (simp add: findCall_def assms(4,5) GetValue_def Let_def)
  show ?thesis
  proof (cases "map_of (wt_results (KnownRequests i)) r")
    case None
    then have "\<forall>j < 2. stateAt (KnownRequests i) j r \<notin> {RequestProcessing, RequestFinished}" using t by auto
    then show ?thesis using None assms(3) by (simp add: f stepProcessFindCallResponse_def)
  next
    case (Some x)
    then have "\<not> (\<forall>j < 2. stateAt (KnownRequests i) j r \<notin> {RequestProcessing, RequestFinished})" using t by auto
    then show ?thesis using Some assms(3) by (cases x) (simp_all only: f stepProcessFindCallResponse_def option.case if_False prod.case CallState.case, simp_all)
  qed
qed

theorem call_not_repeated_witness:
  "\<exists>reg'. stepPublishCallSummary info_sample [] = Ok reg' \<and>
     stepProcessFindCallResponse exec_sample (findCall (Some reg') \<lparr>fcr_LookAt = 70025, fcr_Callee = Some obj_sample, fcr_Outgoing = Some out_sample\<rparr>) = Ok FindStop"
proof -
  let ?p = "\<lparr>fcr_LookAt = 70025, fcr_Callee = Some obj_sample, fcr_Outgoing = Some out_sample\<rparr>"
  have r: "table_reach localPulse (KnownRequests info_sample)" using info_sample_ok by (simp add: info_ok_def)
  have i: "info_Reference info_sample = obj_sample" "\<not> isConstructor exec_sample" "fcr_Callee ?p = Some obj_sample" "fcr_Outgoing ?p = Some out_sample"
    by (simp_all add: info_sample_def newInfo_def exec_sample_def)
  have e: "stateAt (KnownRequests info_sample) 1 out_sample = RequestProcessing" "map_of (wt_results (KnownRequests info_sample)) out_sample = Some None" by code_simp+
  then have ex: "\<not> (\<forall>j < 2. stateAt (KnownRequests info_sample) j out_sample \<notin> {RequestProcessing, RequestFinished})" by (auto intro: exI [of _ 1])
  obtain reg' where reg: "stepPublishCallSummary info_sample [] = Ok reg'" by (simp add: stepPublishCallSummary_def AddObjectCallResults_def)
  show ?thesis using call_not_repeated [OF r reg i(2), of ?p out_sample] i e(2) ex reg by auto
qed

end
