(* ===== verification/Line_Records.thy ===== *)
theory Line_Records
  imports Message_Validation
begin

text \<open>
  The record pages of \<^verbatim>\<open>ledger/server/lineage/line_records.go\<close> and the directory indices of
  \<^verbatim>\<open>ledger/api_directory.go\<close>.  A line keeps its records in pages of equal capacity, so that a record can be found by
  its number; only the first page may be smaller and grows up to a threshold.  A Go slice is modelled by its elements and by
  the rest of the array behind it, which can come back when the slice is extended again.
\<close>

subsection \<open>Slices\<close>

record 'a slice =
  elems :: "'a list"
  spare :: "'a list"

definition nilSlice :: "'a slice" where
  "nilSlice = \<lparr>elems = [], spare = []\<rparr>"

definition slen :: "'a slice \<Rightarrow> nat" where
  "slen s = length (elems s)"

definition scap :: "'a slice \<Rightarrow> nat" where
  "scap s = length (elems s) + length (spare s)"

text \<open>\<open>grow c\<close> is the capacity that the runtime chooses when a full array of \<open>c\<close> elements is extended by one; \<open>z\<close> is the zero value.\<close>

definition slice_append :: "(nat \<Rightarrow> nat) \<Rightarrow> 'a \<Rightarrow> 'a slice \<Rightarrow> 'a \<Rightarrow> 'a slice" where
  "slice_append grow z s x =
     (case spare s of
        y # ys \<Rightarrow> \<lparr>elems = elems s @ [x], spare = ys\<rparr>
      | [] \<Rightarrow> \<lparr>elems = elems s @ [x], spare = replicate (grow (slen s) - slen s - 1) z\<rparr>)"

definition reslice :: "nat \<Rightarrow> 'a slice \<Rightarrow> 'a slice res" where
  "reslice k s =
     (if k \<le> scap s then Ok \<lparr>elems = take k (elems s @ spare s), spare = drop k (elems s @ spare s)\<rparr> else Panic ''slice bounds out of range'')"

definition slice_set :: "nat \<Rightarrow> 'a \<Rightarrow> 'a slice \<Rightarrow> 'a slice" where
  "slice_set i x s = s\<lparr>elems := (elems s)[i := x]\<rparr>"

text \<open>The runtime has to make room for the new element.\<close>

definition grows :: "(nat \<Rightarrow> nat) \<Rightarrow> bool" where
  "grows grow \<longleftrightarrow> (\<forall>c. c < grow c)"

subsection \<open>Pages of records\<close>

type_synonym recordNo = nat
type_synonym filamentNo = nat

definition deadFilament :: recordNo where "deadFilament = 2 ^ 32 - 1"

type_synonym 'r lineRecords = "'r slice slice"

definition lr_getCount :: "'r lineRecords \<Rightarrow> nat" where
  "lr_getCount p =
     (if slen p = 0 then 1
      else let n = slen p - 1 in n * scap (elems p ! 0) + slen (elems p ! n) + 1)"

definition lr_getNextRecNo :: "'r lineRecords \<Rightarrow> recordNo" where
  "lr_getNextRecNo p = lr_getCount p"

definition pageSizeThreshold :: nat where "pageSizeThreshold = 1024"
definition pageSizeMin :: nat where "pageSizeMin = 8"

definition lr_newPage :: "(nat \<Rightarrow> nat) \<Rightarrow> 'r \<Rightarrow> nat \<Rightarrow> 'r \<Rightarrow> 'r lineRecords \<Rightarrow> 'r lineRecords" where
  "lr_newPage grow z pgSize r p = slice_append grow nilSlice p \<lparr>elems = [r], spare = replicate (pgSize - 1) z\<rparr>"

definition lr_add :: "(nat \<Rightarrow> nat) \<Rightarrow> 'r \<Rightarrow> 'r \<Rightarrow> 'r lineRecords \<Rightarrow> 'r lineRecords res" where
  "lr_add grow z r p =
     (let n = slen p in
      if n > 0 then
        let pg = elems p ! (n - 1); pgSize = scap pg in
        if pgSize > slen pg then Ok (slice_set (n - 1) (slice_append grow z pg r) p)
        else if pgSize \<ge> pageSizeThreshold then Ok (lr_newPage grow z pgSize r p)
        else if n \<noteq> 1 then Panic ''Impossible''
        else Ok (slice_set (n - 1) (slice_append grow z pg r) p)
      else Ok (lr_newPage grow z pageSizeMin r p))"

definition lr_get :: "recordNo \<Rightarrow> 'r lineRecords \<Rightarrow> 'r option" where
  "lr_get recNo p =
     (if recNo = 0 \<or> slen p = 0 then None
      else
        let n = slen p - 1; recNo = recNo - 1; pgSize = scap (elems p ! 0); pgIndex = recNo div pgSize; pgItem = recNo mod pgSize in
        if pgIndex < n then Some (elems (elems p ! pgIndex) ! pgItem)
        else if pgIndex > n then None
        else if pgItem \<ge> slen (elems p ! pgIndex) then None
        else Some (elems (elems p ! pgIndex) ! pgItem))"

text \<open>The pointer that \<^verbatim>\<open>get\<close> returns is used to change a record in place.\<close>

definition lr_update :: "recordNo \<Rightarrow> ('r \<Rightarrow> 'r) \<Rightarrow> 'r lineRecords \<Rightarrow> 'r lineRecords" where
  "lr_update recNo f p =
     (case lr_get recNo p of None \<Rightarrow> p
      | Some r \<Rightarrow>
          let pgSize = scap (elems p ! 0); pgIndex = (recNo - 1) div pgSize; pgItem = (recNo - 1) mod pgSize in
          slice_set pgIndex (slice_set pgItem (f r) (elems p ! pgIndex)) p)"

definition lr_truncate :: "recordNo \<Rightarrow> 'r lineRecords \<Rightarrow> 'r lineRecords res" where
  "lr_truncate recNo p =
     (if recNo = 0 \<and> slen p = 0 then Ok p
      else if recNo = 0 then
        bnd (reslice 1 p) (\<lambda>p. bnd (reslice 0 (elems p ! 0)) (\<lambda>pg. Ok (slice_set 0 pg p)))
      else if slen p = 0 then Panic ''index out of range''
      else
        let recNo = recNo - 1; pgSize = scap (elems p ! 0); pgIndex = recNo div pgSize; pgItem = recNo mod pgSize in
        bnd (reslice (pgIndex + 1) p) (\<lambda>p. bnd (reslice pgItem (elems p ! pgIndex)) (\<lambda>pg. Ok (slice_set pgIndex pg p))))"

subsection \<open>Pages implement a list of records\<close>

text \<open>The records in the order of their numbers.\<close>

definition flat :: "'r lineRecords \<Rightarrow> 'r list" where
  "flat p = concat (map elems (elems p))"

definition pages_ok :: "'r lineRecords \<Rightarrow> bool" where
  "pages_ok p \<longleftrightarrow> (\<forall>i < slen p. scap (elems p ! i) = scap (elems p ! 0) \<and> scap (elems p ! 0) > 0 \<and> (i + 1 < slen p \<longrightarrow> spare (elems p ! i) = [])) \<and>
     (slen p > 1 \<longrightarrow> scap (elems p ! 0) \<ge> pageSizeThreshold)"

text \<open>A line with a last page: full pages of capacity \<open>c\<close>, and the last one with some room.\<close>

definition paged :: "'r lineRecords \<Rightarrow> 'r slice list \<Rightarrow> 'r slice \<Rightarrow> nat \<Rightarrow> bool" where
  "paged p full lst c \<longleftrightarrow> elems p = full @ [lst] \<and> c > 0 \<and> scap lst = c \<and> (\<forall>pg \<in> set full. slen pg = c \<and> spare pg = []) \<and>
     (full \<noteq> [] \<longrightarrow> c \<ge> pageSizeThreshold)"

lemma paged_ok:
  assumes "paged p full lst c"
  shows "pages_ok p"
proof -
  have e: "elems p = full @ [lst]" and f: "\<forall>pg \<in> set full. slen pg = c \<and> spare pg = []" and c: "scap lst = c" "c > 0" "full \<noteq> [] \<longrightarrow> c \<ge> pageSizeThreshold"
    using assms by (simp_all add: paged_def)
  have cap: "scap (elems p ! i) = c" if "i < slen p" for i
  proof (cases "i < length full")
    case True
    then have "full ! i \<in> set full" by simp
    then show ?thesis using e f True by (auto simp: nth_append scap_def slen_def)
  next
    case False
    then show ?thesis using that e c by (simp add: nth_append slen_def)
  qed
  have sp: "spare (elems p ! i) = []" if "i + 1 < slen p" for i
    using that e f by (simp add: nth_append slen_def)
  have "slen p > 0" "slen p > 1 \<longrightarrow> full \<noteq> []" by (auto simp: slen_def e)
  then show ?thesis unfolding pages_ok_def using cap sp c by metis
qed

lemma ok_paged:
  assumes "pages_ok p" "slen p > 0"
  shows "\<exists>full lst c. paged p full lst c"
proof -
  let ?c = "scap (elems p ! 0)"
  obtain full lst where e: "elems p = full @ [lst]" using assms(2) by (metis append_butlast_last_id length_greater_0_conv slen_def)
  have n: "slen p = length full + 1" by (simp add: slen_def e)
  have i: "scap (elems p ! i) = ?c" "?c > 0" "i + 1 < slen p \<longrightarrow> spare (elems p ! i) = []" if "i < slen p" for i
    using assms(1) that unfolding pages_ok_def by blast+
  have "slen pg = ?c \<and> spare pg = []" if "pg \<in> set full" for pg
  proof -
    obtain k where k: "k < length full" "pg = full ! k" using \<open>pg \<in> set full\<close> by (metis in_set_conv_nth)
    have "elems p ! k = pg" using k by (simp add: e nth_append)
    then have "scap pg = ?c" "spare pg = []" using i(1) [of k] i(3) [of k] k(1) n by (simp_all only: less_Suc_eq Suc_eq_plus1 [symmetric] simp_thms, auto)
    then show ?thesis by (simp add: scap_def slen_def)
  qed
  moreover have "elems p ! length full = lst" by (simp add: e)
  then have "scap lst = ?c" "?c > 0" using i(1,2) [of "length full"] n by (metis less_add_one)+
  moreover have "slen p > 1 \<longrightarrow> ?c \<ge> pageSizeThreshold" using assms(1) unfolding pages_ok_def by (rule conjunct2)
  then have "full \<noteq> [] \<longrightarrow> ?c \<ge> pageSizeThreshold" using n by simp
  ultimately have "paged p full lst ?c" using e unfolding paged_def by blast
  then show ?thesis by blast
qed

lemma paged_flat:
  assumes "paged p full lst c"
  shows "flat p = concat (map elems full) @ elems lst" "length (concat (map elems full)) = length full * c" "length (flat p) = length full * c + slen lst"
    "slen lst \<le> c" "scap (elems p ! 0) = c" "slen p = length full + 1" "elems p ! length full = lst" "\<And>k. k < length full \<Longrightarrow> elems p ! k = full ! k"
proof -
  have e: "elems p = full @ [lst]" and f: "\<forall>pg \<in> set full. slen pg = c \<and> spare pg = []" using assms by (simp_all add: paged_def)
  show fl: "flat p = concat (map elems full) @ elems lst" by (simp add: flat_def e)
  show l: "length (concat (map elems full)) = length full * c" using length_concat_const [of "map elems full" c] f by (auto simp: slen_def)
  show "length (flat p) = length full * c + slen lst" using l by (simp add: fl slen_def)
  show "slen lst \<le> c" "slen p = length full + 1" using assms by (auto simp: paged_def slen_def scap_def)
  show "elems p ! length full = lst" "\<And>k. k < length full \<Longrightarrow> elems p ! k = full ! k" by (simp_all add: e nth_append)
  show "scap (elems p ! 0) = c" using assms by (cases full) (auto simp: paged_def slen_def scap_def)
qed

lemma empty_flat: "slen p = 0 \<Longrightarrow> flat p = []"
  by (simp add: flat_def slen_def)

lemma lr_count: assumes "pages_ok p" shows "lr_getNextRecNo p = length (flat p) + 1"
proof (cases "slen p = 0")
  case False
  then obtain full lst c where f: "paged p full lst c" using ok_paged [OF assms] by auto
  note g = paged_flat [OF f]
  show ?thesis using False g(3,5,6,7) by (simp add: lr_getNextRecNo_def lr_getCount_def Let_def)
qed (simp add: lr_getNextRecNo_def lr_getCount_def empty_flat)

lemma lr_get_flat: assumes "pages_ok p" shows "lr_get n p = (if 1 \<le> n \<and> n \<le> length (flat p) then Some (flat p ! (n - 1)) else None)"
proof (cases "slen p = 0 \<or> n = 0")
  case False
  then obtain full lst c where f: "paged p full lst c" using ok_paged [OF assms] by auto
  note g = paged_flat [OF f]
  have c: "c > 0" using f by (simp add: paged_def)
  let ?i = "n - 1"
  have l: "\<forall>xs \<in> set (map elems full). length xs = c" using f by (auto simp: paged_def slen_def)
  consider "?i div c < length full" | "?i div c = length full" | "?i div c > length full" by linarith
  then show ?thesis
  proof cases
    case 1
    then have lt: "?i < length full * c" using c by (simp add: div_less_iff_less_mult)
    have "flat p ! ?i = elems (full ! (?i div c)) ! (?i mod c)"
      using lt 1 concat_nth [OF l, of ?i] by (simp add: g(1,2) nth_append)
    moreover have "n \<le> length (flat p)" using lt g(3) False by linarith
    ultimately show ?thesis using 1 False g(5,6,8) by (simp add: lr_get_def Let_def)
  next
    case 2
    then have i: "?i = length full * c + ?i mod c" by (metis div_mult_mod_eq)
    then have "flat p ! ?i = elems lst ! (?i mod c)" using g(1,2) by (metis nth_append_length_plus)
    moreover have "n \<le> length (flat p) \<longleftrightarrow> ?i mod c < slen lst" using i g(3) False by linarith
    ultimately show ?thesis using 2 False g(5,6,7) by (auto simp: lr_get_def Let_def)
  next
    case 3
    then have "(length full + 1) * c \<le> ?i div c * c" by (intro mult_le_mono1) simp
    then have "(length full + 1) * c \<le> ?i" using div_times_less_eq_dividend le_trans by blast
    then have "n > length (flat p)" using g(3,4) False by (simp only: distrib_right mult_1) linarith
    then show ?thesis using 3 False g(5,6) by (simp add: lr_get_def Let_def)
  qed
qed (auto simp: lr_get_def empty_flat)

lemma set_last: "xs = full @ [lst] \<Longrightarrow> xs[length full := x] = full @ [x]"
  by simp

lemma slice_append_elems [simp]: "elems (slice_append grow z s x) = elems s @ [x]"
  by (simp add: slice_append_def split: list.split)

lemma slice_append_cap: "grows grow \<Longrightarrow> scap (slice_append grow z s x) = (if spare s = [] then grow (slen s) else scap s)"
proof -
  assume "grows grow"
  then have "slen s < grow (slen s)" by (simp add: grows_def)
  then show ?thesis by (cases "spare s") (simp_all add: slice_append_def scap_def slen_def)
qed

lemma lr_newPage_elems: "elems (lr_newPage grow z c r p) = elems p @ [\<lparr>elems = [r], spare = replicate (c - 1) z\<rparr>]"
  by (simp add: lr_newPage_def)

lemma lr_add_flat:
  assumes "pages_ok p" "grows grow"
  shows "\<exists>p'. lr_add grow z r p = Ok p' \<and> pages_ok p' \<and> flat p' = flat p @ [r]"
proof (cases "slen p = 0")
  case True
  let ?p = "lr_newPage grow z pageSizeMin r p"
  have "paged ?p [] \<lparr>elems = [r], spare = replicate (pageSizeMin - 1) z\<rparr> pageSizeMin"
    using True by (simp add: paged_def lr_newPage_elems slen_def scap_def pageSizeMin_def)
  then show ?thesis using True paged_ok paged_flat(1) by (fastforce simp: lr_add_def empty_flat)
next
  case False
  then obtain full lst c where f: "paged p full lst c" using ok_paged [OF assms(1)] by auto
  note g = paged_flat [OF f]
  have e: "elems p = full @ [lst]" and lst: "scap lst = c" "c > 0" and full: "\<forall>pg \<in> set full. slen pg = c \<and> spare pg = []" "full \<noteq> [] \<longrightarrow> c \<ge> pageSizeThreshold"
    using f by (simp_all add: paged_def)
  let ?s = "slice_set (length full) (slice_append grow z lst r) p"
  have es: "elems ?s = full @ [slice_append grow z lst r]" by (simp add: slice_set_def e)
  show ?thesis
  proof (cases "c > slen lst")
    case True
    then have "spare lst \<noteq> []" using lst by (auto simp: scap_def slen_def)
    then have "paged ?s full (slice_append grow z lst r) c" using es lst full slice_append_cap [OF assms(2), of z lst r] by (simp add: paged_def)
    then have "pages_ok ?s \<and> flat ?s = flat p @ [r]" using paged_ok paged_flat(1) g(1) by fastforce
    moreover have "lr_add grow z r p = Ok ?s" using True g(6,7) lst by (simp add: lr_add_def Let_def)
    ultimately show ?thesis by blast
  next
    case full_page: False
    then have sl: "slen lst = c" "spare lst = []" using g(4) lst by (auto simp: scap_def slen_def)
    show ?thesis
    proof (cases "c \<ge> pageSizeThreshold")
      case True
      let ?p = "lr_newPage grow z c r p"
      have "paged ?p (full @ [lst]) \<lparr>elems = [r], spare = replicate (c - 1) z\<rparr> c"
        using e lst full sl True by (auto simp: paged_def lr_newPage_elems scap_def)
      then have "pages_ok ?p \<and> flat ?p = flat p @ [r]" using paged_ok paged_flat(1) g(1) by fastforce
      moreover have "lr_add grow z r p = Ok ?p" using True g(6,7) lst sl by (simp add: lr_add_def Let_def)
      ultimately show ?thesis by blast
    next
      case small: False
      then have nf: "full = []" using full(2) by auto
      have "grow c > 0" using assms(2) by (metis grows_def gr_implies_not0 neq0_conv)
      then have "paged ?s full (slice_append grow z lst r) (grow c)"
        using es nf sl slice_append_cap [OF assms(2), of z lst r] by (simp add: paged_def)
      then have "pages_ok ?s \<and> flat ?s = flat p @ [r]" using paged_ok paged_flat(1) g(1) by fastforce
      moreover have "lr_add grow z r p = Ok ?s" using small nf g(6,7) lst sl by (simp add: lr_add_def Let_def)
      ultimately show ?thesis by blast
    qed
  qed
qed

lemma lr_truncate_flat:
  assumes "pages_ok p" "1 \<le> n" "n \<le> length (flat p)"
  shows "\<exists>p'. lr_truncate n p = Ok p' \<and> pages_ok p' \<and> flat p' = take (n - 1) (flat p)"
proof -
  have "slen p \<noteq> 0" using assms(2,3) empty_flat by fastforce
  then obtain full lst c where f: "paged p full lst c" using ok_paged [OF assms(1)] by auto
  note g = paged_flat [OF f]
  have e: "elems p = full @ [lst]" and lst: "scap lst = c" "c > 0" and full: "\<forall>pg \<in> set full. slen pg = c \<and> spare pg = []" "full \<noteq> [] \<longrightarrow> c \<ge> pageSizeThreshold"
    using f by (simp_all add: paged_def)
  define k j where "k = (n - 1) div c" and "j = (n - 1) mod c"
  have kj: "n - 1 = k * c + j" "j < c" using lst(2) by (simp_all add: k_def j_def)
  have kl: "k \<le> length full"
  proof (rule ccontr)
    assume "\<not> k \<le> length full"
    then have "(length full + 1) * c \<le> k * c" by (intro mult_le_mono1) simp
    moreover have "n - 1 < length full * c + c" using assms(2,3) g(3,4) by linarith
    ultimately show False using kj by simp
  qed
  define pg where "pg = elems p ! k"
  have pg: "scap pg = c" "j \<le> scap pg"
  proof -
    show "scap pg = c"
    proof (cases "k < length full")
      case True
      then have "pg \<in> set full" using g(8) by (simp add: pg_def)
      then show ?thesis using full(1) by (simp add: scap_def slen_def)
    qed (use kl g(7) lst in \<open>simp add: pg_def\<close>)
    then show "j \<le> scap pg" using kj by simp
  qed
  define pg' where "pg' = \<lparr>elems = take j (elems pg @ spare pg), spare = drop j (elems pg @ spare pg)\<rparr>"
  define p1 where "p1 = \<lparr>elems = take (k + 1) (elems p @ spare p), spare = drop (k + 1) (elems p @ spare p)\<rparr>"
  have kp: "k < length (elems p)" using kl by (simp add: e)
  then have p1: "elems p1 = take k (elems p) @ [pg]" using take_Suc_conv_app_nth [OF kp] by (simp add: p1_def pg_def)
  have r: "reslice (k + 1) p = Ok p1" using kl by (simp add: reslice_def p1_def scap_def e)
  have k1: "elems p1 ! k = pg" using kp by (simp add: p1 nth_append)
  have t: "lr_truncate n p = Ok (slice_set k pg' p1)"
  proof -
    have "reslice j pg = Ok pg'" using pg(2) by (simp add: reslice_def pg'_def)
    then show ?thesis using assms(2) \<open>slen p \<noteq> 0\<close> r k1 by (simp add: lr_truncate_def Let_def g(5) k_def j_def)
  qed
  have el: "elems (slice_set k pg' p1) = take k full @ [pg']" using kl by (simp add: slice_set_def p1 e list_update_append)
  have "paged (slice_set k pg' p1) (take k full) pg' c"
    using el full lst pg kj(2) by (auto simp: paged_def pg'_def scap_def min_def dest: in_set_takeD)
  then have ok: "pages_ok (slice_set k pg' p1)" "flat (slice_set k pg' p1) = concat (map elems (take k full)) @ elems pg'"
    using paged_ok paged_flat(1) by blast+
  have "flat (slice_set k pg' p1) = take (n - 1) (flat p)"
  proof (cases "k < length full")
    case True
    have l: "\<forall>xs \<in> set (map elems full). length xs = c" using full by (auto simp: slen_def)
    have p2: "pg = full ! k" "spare pg = []" using True full g(8) by (simp_all add: pg_def)
    have "k * c + j \<le> length full * c" using True kj(2) mult_le_mono1 [of "k + 1" "length full" c] by simp
    then have "take (n - 1) (flat p) = take (k * c + j) (concat (map elems full))" using g(1,2) kj by simp
    also have "\<dots> = concat (take k (map elems full)) @ take j (map elems full ! k)" using True kj(2) by (intro take_concat_const [OF l]) auto
    finally show ?thesis using ok(2) True p2 by (simp add: pg'_def take_map)
  next
    case False
    then have k: "k = length full" "pg = lst" using kl g(7) by (simp_all add: pg_def)
    have "j \<le> slen lst" using assms(2,3) g(3) kj k by simp
    then have "take (n - 1) (flat p) = concat (map elems full) @ take j (elems lst)" using g(1,2) kj k by simp
    then show ?thesis using ok(2) k \<open>j \<le> slen lst\<close> by (simp add: pg'_def slen_def)
  qed
  then show ?thesis using t ok(1) by blast
qed

lemma lr_update_flat:
  assumes "pages_ok p" "1 \<le> n" "n \<le> length (flat p)"
  shows "pages_ok (lr_update n f p)" "flat (lr_update n f p) = (flat p)[n - 1 := f (flat p ! (n - 1))]"
proof -
  have "slen p \<noteq> 0" using assms(2,3) empty_flat by fastforce
  then obtain full lst c where f: "paged p full lst c" using ok_paged [OF assms(1)] by auto
  note g = paged_flat [OF f]
  have e: "elems p = full @ [lst]" and lst: "scap lst = c" "c > 0" and full: "\<forall>pg \<in> set full. slen pg = c \<and> spare pg = []" "full \<noteq> [] \<longrightarrow> c \<ge> pageSizeThreshold"
    using f by (simp_all add: paged_def)
  define k j where "k = (n - 1) div c" and "j = (n - 1) mod c"
  have kj: "n - 1 = k * c + j" "j < c" using lst(2) by (simp_all add: k_def j_def)
  let ?x = "f (flat p ! (n - 1))" and ?u = "slice_set j (f (flat p ! (n - 1))) (elems p ! k)"
  have u: "lr_update n f p = slice_set k ?u p"
    using assms(2,3) lr_get_flat [OF assms(1), of n] by (simp add: lr_update_def Let_def g(5) k_def j_def)
  have "pages_ok (lr_update n f p) \<and> flat (lr_update n f p) = (flat p)[n - 1 := ?x]"
  proof (cases "k < length full")
    case True
    let ?full = "full[k := ?u]"
    have "elems (lr_update n f p) = ?full @ [lst]" using True by (simp add: u slice_set_def e list_update_append)
    moreover have "\<forall>pg \<in> set ?full. slen pg = c \<and> spare pg = []"
    proof
      fix pg assume "pg \<in> set ?full"
      then consider "pg \<in> set full" | "pg = ?u" using set_update_subset_insert [of full k ?u] by blast
      then show "slen pg = c \<and> spare pg = []" using full True g(8) by cases (simp_all add: slice_set_def slen_def)
    qed
    ultimately have p': "paged (lr_update n f p) ?full lst c" using lst full by (simp add: paged_def)
    have l: "\<forall>xs \<in> set (map elems full). length xs = c" using full by (auto simp: slen_def)
    have "map elems ?full = (map elems full)[k := (map elems full ! k)[j := ?x]]" using True g(8) by (simp add: map_update slice_set_def)
    then have "concat (map elems ?full) = (concat (map elems full))[n - 1 := ?x]" using concat_update [OF l, of k j ?x] True kj by simp
    moreover have "n - 1 < length (concat (map elems full))" using True kj g(2) mult_le_mono1 [of "k + 1" "length full" c] by simp
    ultimately show ?thesis using paged_ok [OF p'] paged_flat(1) [OF p'] g(1) by (simp add: list_update_append)
  next
    case False
    have kl: "k = length full"
    proof (rule ccontr)
      assume "k \<noteq> length full"
      then have "(length full + 1) * c \<le> k * c" using False by (intro mult_le_mono1) simp
      moreover have "n - 1 < length full * c + c" using assms(2,3) g(3,4) by linarith
      ultimately show False using kj by simp
    qed
    have "elems (lr_update n f p) = full @ [?u]" using kl by (simp add: u slice_set_def e)
    then have p': "paged (lr_update n f p) full ?u c" using lst full kl g(7) by (simp add: paged_def slice_set_def scap_def)
    have "j < slen lst" using assms(2,3) g(3) kj kl by simp
    then show ?thesis using paged_ok [OF p'] paged_flat(1) [OF p'] g(1,2,7) kl kj(1) by (simp add: slice_set_def list_update_append)
  qed
  then show "pages_ok (lr_update n f p)" "flat (lr_update n f p) = (flat p)[n - 1 := ?x]" by simp_all
qed

lemma pages_new_ok: "pages_ok nilSlice" "flat nilSlice = []"
  by (simp_all add: pages_ok_def flat_def nilSlice_def slen_def)

subsection \<open>The interface to a line\<close>

text \<open>What a line relies on: records are numbered from one in the order in which they are added.\<close>

locale record_store =
  fixes valid :: "'s \<Rightarrow> bool" and content :: "'s \<Rightarrow> 'r list" and nextNo :: "'s \<Rightarrow> nat" and fetch :: "nat \<Rightarrow> 's \<Rightarrow> 'r option"
    and append :: "'r \<Rightarrow> 's \<Rightarrow> 's res" and change :: "nat \<Rightarrow> ('r \<Rightarrow> 'r) \<Rightarrow> 's \<Rightarrow> 's" and cut :: "nat \<Rightarrow> 's \<Rightarrow> 's res"
  assumes next_no: "valid s \<Longrightarrow> nextNo s = length (content s) + 1"
    and fetched: "valid s \<Longrightarrow> fetch n s = (if 1 \<le> n \<and> n \<le> length (content s) then Some (content s ! (n - 1)) else None)"
    and appended: "valid s \<Longrightarrow> \<exists>s'. append r s = Ok s' \<and> valid s' \<and> content s' = content s @ [r]"
    and changed: "valid s \<Longrightarrow> 1 \<le> n \<Longrightarrow> n \<le> length (content s) \<Longrightarrow>
      valid (change n f s) \<and> content (change n f s) = (content s)[n - 1 := f (content s ! (n - 1))]"
    and truncated: "valid s \<Longrightarrow> 1 \<le> n \<Longrightarrow> n \<le> length (content s) \<Longrightarrow> \<exists>s'. cut n s = Ok s' \<and> valid s' \<and> content s' = take (n - 1) (content s)"
begin

lemma append_fetch:
  assumes "valid s" "append r s = Ok s'"
  shows "valid s'" "nextNo s' = nextNo s + 1" "fetch n s' = (if n = nextNo s then Some r else fetch n s)"
proof -
  have a: "valid s'" "content s' = content s @ [r]" using appended [OF assms(1), of r] assms(2) by auto
  show "valid s'" by (rule a(1))
  show "nextNo s' = nextNo s + 1" using a assms(1) by (simp add: next_no)
  show "fetch n s' = (if n = nextNo s then Some r else fetch n s)" using a assms(1) by (auto simp: next_no fetched nth_append)
qed

lemma cut_fetch:
  assumes "valid s" "cut n s = Ok s'" "1 \<le> n" "n < nextNo s"
  shows "valid s'" "nextNo s' = n" "fetch k s' = (if k < n then fetch k s else None)"
proof -
  have n: "n \<le> length (content s)" using assms(1,4) by (simp add: next_no)
  then have a: "valid s'" "content s' = take (n - 1) (content s)" using truncated [OF assms(1,3) n] assms(2) by auto
  show "valid s'" by (rule a(1))
  show "nextNo s' = n" using a n assms(3) by (simp add: next_no)
  show "fetch k s' = (if k < n then fetch k s else None)" using a n assms(1,3) by (auto simp: fetched)
qed

end

interpretation pages: record_store "\<lambda>p. pages_ok p \<and> grows grow" flat lr_getNextRecNo lr_get "lr_add grow z" lr_update lr_truncate for grow z
proof (unfold_locales, goal_cases)
  case (1 p)
  then show ?case using lr_count by blast
next
  case (2 p n)
  then show ?case using lr_get_flat by blast
next
  case (3 p r)
  then show ?case using lr_add_flat [of p grow z r] by simp
next
  case (4 p n f)
  then show ?case using lr_update_flat [of p n f] by simp
next
  case (5 p n)
  then show ?case using lr_truncate_flat [of p n] by simp
qed

text \<open>The growth of arrays that is used for examples: the capacity is doubled.\<close>

definition doubling :: "nat \<Rightarrow> nat" where
  "doubling c = (if c = 0 then 1 else 2 * c)"

lemma doubling_grows: "grows doubling"
  by (simp add: grows_def doubling_def)

text \<open>
  C27: the pages of a line implement the numbered list of its records, however the runtime grows arrays.  A
  record is added without a panic and gets the next number, the record of every number is found, a record that
  is changed in place is changed under its number only, and a truncation keeps exactly the records before the cut.
\<close>
theorem pages_implement_records:
  assumes "pages_ok p" "grows grow"
  shows "lr_getNextRecNo p = length (flat p) + 1 \<and>
    (\<forall>n. lr_get n p = (if 1 \<le> n \<and> n \<le> length (flat p) then Some (flat p ! (n - 1)) else None)) \<and>
    (\<forall>z r. \<exists>p'. lr_add grow z r p = Ok p' \<and> pages_ok p' \<and> flat p' = flat p @ [r]) \<and>
    (\<forall>n f. 1 \<le> n \<and> n \<le> length (flat p) \<longrightarrow> pages_ok (lr_update n f p) \<and> flat (lr_update n f p) = (flat p)[n - 1 := f (flat p ! (n - 1))]) \<and>
    (\<forall>n. 1 \<le> n \<and> n \<le> length (flat p) \<longrightarrow> (\<exists>p'. lr_truncate n p = Ok p' \<and> pages_ok p' \<and> flat p' = take (n - 1) (flat p)))"
  using lr_count [OF assms(1)] lr_get_flat [OF assms(1)] lr_add_flat [OF assms] lr_update_flat [OF assms(1)] lr_truncate_flat [OF assms(1)] by blast

theorem pages_implement_records_witness:
  "\<exists>p. lr_add doubling 0 (5 :: nat) nilSlice = Ok p \<and> flat p = [5] \<and> lr_get 1 p = Some 5"
proof -
  have "\<forall>z r. \<exists>p'. lr_add doubling z r (nilSlice :: nat lineRecords) = Ok p' \<and> pages_ok p' \<and> flat p' = flat nilSlice @ [r]"
    using pages_implement_records [OF pages_new_ok(1) doubling_grows, where 'a = nat] by blast
  then obtain p :: "nat lineRecords" where p: "lr_add doubling 0 5 nilSlice = Ok p" "pages_ok p" "flat p = [5]"
    unfolding pages_new_ok by fastforce
  then show ?thesis using pages_implement_records [OF p(2) doubling_grows] by auto
qed

unbundle bit_operations_syntax

subsection \<open>Directory indices\<close>

type_synonym SectionIDs = u16
type_synonym Ordinal = u32
type_synonym DirectoryIndex = u64
type_synonym DirectoryIndexAndFlags = u64
type_synonym DirectoryEntryFlags = u16

definition MaxSectionID :: SectionIDs where "MaxSectionID = 32767"
definition ControlSection :: SectionIDs where "ControlSection = 0"
definition DefaultEntrySection :: SectionIDs where "DefaultEntrySection = 1"
definition DefaultDustSection :: SectionIDs where "DefaultDustSection = 2"
definition RelativeEntry :: SectionIDs where "RelativeEntry = ControlSection"

definition FilamentClose :: DirectoryEntryFlags where "FilamentClose = 1"
definition FilamentLocalStart :: DirectoryEntryFlags where "FilamentLocalStart = 2"
definition FilamentReopen :: DirectoryEntryFlags where "FilamentReopen = 4"

definition NewDirectoryIndex :: "SectionIDs \<Rightarrow> Ordinal \<Rightarrow> DirectoryIndex res" where
  "NewDirectoryIndex sid ordinal =
     (if sid > MaxSectionID then Panic ''IllegalValue''
      else if ordinal = 0 then Panic ''IllegalValue''
      else Ok (push_bit 48 (ucast sid) OR ucast ordinal))"

definition index_SectionID :: "DirectoryIndex \<Rightarrow> SectionIDs" where
  "index_SectionID v = ucast (drop_bit 48 v)"

definition index_Ordinal :: "DirectoryIndex \<Rightarrow> Ordinal" where
  "index_Ordinal v = ucast v"

definition index_WithFlags :: "DirectoryIndex \<Rightarrow> DirectoryEntryFlags \<Rightarrow> DirectoryIndexAndFlags" where
  "index_WithFlags v flags = v OR push_bit 32 (ucast flags)"

definition flagsMask :: u64 where "flagsMask = push_bit 32 0xFFFF"

definition flagged_SectionID :: "DirectoryIndexAndFlags \<Rightarrow> SectionIDs" where
  "flagged_SectionID v = ucast (drop_bit 48 v)"

definition flagged_Ordinal :: "DirectoryIndexAndFlags \<Rightarrow> Ordinal" where
  "flagged_Ordinal v = ucast v"

definition flagged_DirectoryIndex :: "DirectoryIndexAndFlags \<Rightarrow> DirectoryIndex" where
  "flagged_DirectoryIndex v = v AND NOT flagsMask"

definition flagged_Flags :: "DirectoryIndexAndFlags \<Rightarrow> DirectoryEntryFlags" where
  "flagged_Flags v = ucast (drop_bit 32 v)"

definition flagged_WithIndex :: "DirectoryIndexAndFlags \<Rightarrow> DirectoryIndex \<Rightarrow> DirectoryIndexAndFlags" where
  "flagged_WithIndex v index = (v AND flagsMask) OR index"

definition flagged_WithFlags :: "DirectoryIndexAndFlags \<Rightarrow> DirectoryEntryFlags \<Rightarrow> DirectoryIndexAndFlags" where
  "flagged_WithFlags v flags = (v AND NOT flagsMask) OR push_bit 32 (ucast flags)"

lemma bit_flagsMask: "bit flagsMask n \<longleftrightarrow> 32 \<le> n \<and> n < 48"
proof -
  have "(0xFFFF :: u64) = mask 16" by (simp add: mask_eq_exp_minus_1)
  then have "flagsMask = push_bit 32 (mask 16)" by (simp only: flagsMask_def)
  moreover have "bit (push_bit 32 (mask 16) :: u64) n \<longleftrightarrow> 32 \<le> n \<and> n < 48" by (auto simp: bit_push_bit_iff bit_mask_iff)
  ultimately show ?thesis by simp
qed

lemma flags_disjoint:
  assumes "v AND flagsMask = 0" "32 \<le> n" "n < 48"
  shows "\<not> bit v n"
proof -
  have "\<not> bit (v AND flagsMask) n" using assms(1) by simp
  then show ?thesis using assms(2,3) by (simp add: bit_simps bit_flagsMask)
qed

text \<open>
  A directory index keeps its section and its ordinal, with and without flags, and the flags are read
  back; every index that is made this way leaves the bits of the flags free.
\<close>
theorem directory_index_roundtrip:
  assumes "sid \<le> MaxSectionID" "ordinal \<noteq> 0"
  shows "\<exists>v. NewDirectoryIndex sid ordinal = Ok v \<and> index_SectionID v = sid \<and> index_Ordinal v = ordinal \<and>
    flagged_DirectoryIndex (index_WithFlags v flags) = v \<and> flagged_Flags (index_WithFlags v flags) = flags \<and>
    flagged_SectionID (index_WithFlags v flags) = sid \<and> flagged_Ordinal (index_WithFlags v flags) = ordinal"
proof -
  define v where "v = (push_bit 48 (ucast sid) OR ucast ordinal :: u64)"
  have n: "NewDirectoryIndex sid ordinal = Ok v" using assms by (auto simp: NewDirectoryIndex_def v_def)
  have v: "bit v k \<longleftrightarrow> (if k < 32 then bit ordinal k else 48 \<le> k \<and> bit sid (k - 48))" for k
    by (auto simp: v_def bit_simps dest: bit_imp_le_length)
  have f: "bit (push_bit 32 (ucast flags) :: u64) k \<longleftrightarrow> 32 \<le> k \<and> k < 48 \<and> bit flags (k - 32)" for k
    by (auto simp: bit_simps dest: bit_imp_le_length)
  have w: "bit (index_WithFlags v flags) k \<longleftrightarrow> (if k < 32 then bit ordinal k else if k < 48 then bit flags (k - 32) else bit sid (k - 48))" for k
    using v [of k] f [of k] by (auto simp: index_WithFlags_def bit_or_iff)
  have s: "index_SectionID v = sid" "flagged_SectionID (index_WithFlags v flags) = sid"
    by (rule bit_eqI, simp add: index_SectionID_def flagged_SectionID_def bit_ucast_iff bit_drop_bit_eq v w)+
  have r: "index_Ordinal v = ordinal" "flagged_Ordinal (index_WithFlags v flags) = ordinal"
    by (rule bit_eqI, simp add: index_Ordinal_def flagged_Ordinal_def bit_ucast_iff v w)+
  have d: "flagged_DirectoryIndex (index_WithFlags v flags) = v"
    by (rule bit_eqI) (auto simp: flagged_DirectoryIndex_def bit_and_iff bit_not_iff bit_flagsMask v w)
  have g: "flagged_Flags (index_WithFlags v flags) = flags"
    by (rule bit_eqI) (simp add: flagged_Flags_def bit_ucast_iff bit_drop_bit_eq w)
  show ?thesis using n s r d g by blast
qed

theorem directory_index_roundtrip_witness:
  "\<exists>v. NewDirectoryIndex DefaultEntrySection 7 = Ok v \<and> index_Ordinal v = 7 \<and> flagged_Flags (index_WithFlags v FilamentClose) = FilamentClose"
proof -
  have "DefaultEntrySection \<le> MaxSectionID" by (simp add: DefaultEntrySection_def MaxSectionID_def)
  then show ?thesis using directory_index_roundtrip [of DefaultEntrySection 7 FilamentClose] by auto
qed

end
