(* ===== verification/Bit_Builder.thy ===== *)
theory Bit_Builder
  imports Prelude
begin

unbundle bit_operations_syntax

text \<open>
  The bit builder of \<^verbatim>\<open>vanilla/longbits/bit_builder.go\<close>, the bit readers of \<^verbatim>\<open>bit_reader.go\<close> and the bit slices of \<^verbatim>\<open>bit_array.go\<close>.
  A builder collects bits in bytes, from the least or from the most significant bit.
\<close>

subsection \<open>Bytes\<close>

datatype BitBuilderOrder = LSB | MSB

definition initLSB :: u8 where "initLSB = 0x01"
definition initMSB :: u8 where "initMSB = 0x80"

definition LeadingZeros8 :: "u8 \<Rightarrow> nat" where
  "LeadingZeros8 b = length (takeWhile (\<lambda>i. \<not> bit b i) [7, 6, 5, 4, 3, 2, 1, 0])"

definition TrailingZeros8 :: "u8 \<Rightarrow> nat" where
  "TrailingZeros8 b = length (takeWhile (\<lambda>i. \<not> bit b i) [0, 1, 2, 3, 4, 5, 6, 7])"

definition Reverse8 :: "u8 \<Rightarrow> u8" where
  "Reverse8 b = horner_sum of_bool 2 (map (bit b) [7, 6, 5, 4, 3, 2, 1, 0])"

definition shiftLeft :: "u8 \<Rightarrow> nat \<Rightarrow> u8" where "shiftLeft b n = push_bit n b"
definition shiftRight :: "u8 \<Rightarrow> nat \<Rightarrow> u8" where "shiftRight b n = drop_bit n b"

definition normFn :: "bool \<Rightarrow> u8 \<Rightarrow> nat \<Rightarrow> u8" where
  "normFn rightShift = (if rightShift then shiftRight else shiftLeft)"

definition revFn :: "bool \<Rightarrow> u8 \<Rightarrow> nat \<Rightarrow> u8" where
  "revFn rightShift = (if rightShift then shiftLeft else shiftRight)"

subsection \<open>Builder\<close>

record BitBuilder =
  bb_bytes :: "u8 list"
  accumulator :: u8
  accInit :: u8
  accBit :: u8

definition AppendBitBuilder :: "u8 list \<Rightarrow> BitBuilderOrder \<Rightarrow> BitBuilder" where
  "AppendBitBuilder appendTo direction =
     (case direction of
        LSB \<Rightarrow> \<lparr>bb_bytes = appendTo, accumulator = 0, accInit = initLSB, accBit = initLSB\<rparr>
      | MSB \<Rightarrow> \<lparr>bb_bytes = appendTo, accumulator = 0, accInit = initMSB, accBit = initMSB\<rparr>)"

definition NewBitBuilder :: "BitBuilderOrder \<Rightarrow> BitBuilder" where
  "NewBitBuilder direction = AppendBitBuilder [] direction"

definition zeroBuilder :: BitBuilder where
  "zeroBuilder = \<lparr>bb_bytes = [], accumulator = 0, accInit = 0, accBit = 0\<rparr>"

definition bb_ensure :: "BitBuilder \<Rightarrow> BitBuilder res" where
  "bb_ensure p =
     (if accInit p = 0 then
        if bb_bytes p \<noteq> [] then Panic ''illegal state'' else Ok (p\<lparr>accInit := initLSB, accBit := initLSB\<rparr>)
      else if accBit p = 0 then Panic ''illegal state''
      else Ok p)"

definition bb_rightShift :: "BitBuilder \<Rightarrow> bool res" where
  "bb_rightShift p =
     (if accInit p = initLSB then Ok False else if accInit p = initMSB then Ok True else Panic ''illegal state'')"

definition bb_align :: "BitBuilder \<Rightarrow> (bool \<times> nat) res" where
  "bb_align p = bnd (bb_rightShift p) (\<lambda>rightShift.
     Ok (rightShift, if accBit p = accInit p then 0 else if rightShift then LeadingZeros8 (accBit p) else TrailingZeros8 (accBit p)))"

definition AlignOffset :: "BitBuilder \<Rightarrow> nat res" where
  "AlignOffset p = bnd (bb_align p) (\<lambda>(_, ofs). Ok ofs)"

definition bb_BitLen :: "BitBuilder \<Rightarrow> nat res" where
  "bb_BitLen p = bnd (AlignOffset p) (\<lambda>ofs. Ok (8 * length (bb_bytes p) + ofs))"

definition AppendAlignedByte :: "u8 \<Rightarrow> BitBuilder \<Rightarrow> BitBuilder res" where
  "AppendAlignedByte b p =
     bnd (bb_ensure p) (\<lambda>p.
     if accBit p \<noteq> accInit p then Panic ''illegal state''
     else bnd (bb_rightShift p) (\<lambda>rs. Ok (p\<lparr>bb_bytes := bb_bytes p @ [if rs then Reverse8 b else b]\<rparr>)))"

definition bb_Append :: "bool \<Rightarrow> BitBuilder \<Rightarrow> BitBuilder res" where
  "bb_Append b p =
     bnd (bb_ensure p) (\<lambda>p.
     let p = (if b then p\<lparr>accumulator := accumulator p OR accBit p\<rparr> else p) in
     bnd (bb_rightShift p) (\<lambda>rs.
     let p = p\<lparr>accBit := if rs then drop_bit 1 (accBit p) else push_bit 1 (accBit p)\<rparr> in
     Ok (if accBit p = 0 then p\<lparr>bb_bytes := bb_bytes p @ [accumulator p], accumulator := 0, accBit := accInit p\<rparr> else p)))"

definition AppendBit :: "int \<Rightarrow> BitBuilder \<Rightarrow> BitBuilder res" where
  "AppendBit b = bb_Append (b \<noteq> 0)"

definition bb_AppendByte :: "u8 \<Rightarrow> BitBuilder \<Rightarrow> BitBuilder res" where
  "bb_AppendByte b p =
     bnd (bb_ensure p) (\<lambda>p.
     bnd (bb_align p) (\<lambda>(rightShift, usedCount).
     let b = (if rightShift then Reverse8 b else b) in
     if usedCount = 0 then Ok (p\<lparr>bb_bytes := bb_bytes p @ [b]\<rparr>)
     else
       let nextByte = accumulator p OR normFn rightShift b usedCount in
       Ok (p\<lparr>bb_bytes := bb_bytes p @ [nextByte], accumulator := revFn rightShift b (8 - usedCount)\<rparr>)))"

definition AppendSubByte :: "u8 \<Rightarrow> nat \<Rightarrow> BitBuilder \<Rightarrow> BitBuilder res" where
  "AppendSubByte value bitLen p =
     (if bitLen \<ge> 8 then if bitLen \<noteq> 8 then Panic ''illegal value'' else bb_AppendByte value p
      else if bitLen = 0 then Ok p
      else if bitLen = 1 then bb_Append (value AND 1 \<noteq> 0) p
      else
        bnd (bb_ensure p) (\<lambda>p.
        bnd (bb_align p) (\<lambda>(rightShift, usedCount).
        let value = (if rightShift then Reverse8 value else value);
            value = value AND revFn rightShift 0xFF (8 - bitLen);
            remainCount = 8 - usedCount in
        if usedCount = 0 then Ok (p\<lparr>accBit := normFn rightShift (accBit p) bitLen, accumulator := value\<rparr>)
        else if remainCount > bitLen then
          Ok (p\<lparr>accBit := normFn rightShift (accBit p) bitLen, accumulator := accumulator p OR normFn rightShift value usedCount\<rparr>)
        else
          let p = p\<lparr>accumulator := accumulator p OR normFn rightShift value usedCount\<rparr>; bitLen = bitLen - remainCount;
              p = p\<lparr>bb_bytes := bb_bytes p @ [accumulator p], accBit := accInit p\<rparr> in
          if bitLen = 0 then Ok (p\<lparr>accumulator := 0\<rparr>)
          else Ok (p\<lparr>accBit := normFn rightShift (accBit p) bitLen, accumulator := revFn rightShift value remainCount\<rparr>))))"

text \<open>A negative count fills up the current byte.\<close>

definition appendN0 :: "int \<Rightarrow> BitBuilder \<Rightarrow> BitBuilder res" where
  "appendN0 bitCount p =
     bnd (bb_ensure p) (\<lambda>p.
     bnd (bb_align p) (\<lambda>(rightShift, usedCount).
     let alignCount = 8 - int usedCount;
         tail = (\<lambda>bitCount p.
           let p = (if bitCount mod 8 > 0 then p\<lparr>accBit := normFn rightShift (accBit p) (nat (bitCount mod 8))\<rparr> else p) in
           Ok (p\<lparr>bb_bytes := bb_bytes p @ replicate (nat (bitCount div 8)) 0\<rparr>)) in
     if usedCount = 0 then if bitCount < 0 then Ok p else tail bitCount p
     else if bitCount \<ge> 0 \<and> alignCount > bitCount then Ok (p\<lparr>accBit := normFn rightShift (accBit p) (nat bitCount)\<rparr>)
     else
       let bitCount = (if bitCount < 0 then 0 else bitCount - alignCount);
           p = p\<lparr>bb_bytes := bb_bytes p @ [accumulator p], accumulator := 0, accBit := accInit p\<rparr> in
       if bitCount = 0 then Ok p else tail bitCount p))"

definition appendN1 :: "int \<Rightarrow> BitBuilder \<Rightarrow> BitBuilder res" where
  "appendN1 bitCount p =
     bnd (bb_ensure p) (\<lambda>p.
     bnd (bb_align p) (\<lambda>(rightShift, usedCount).
     let alignCount = 8 - int usedCount;
         tail = (\<lambda>bitCount p.
           let p = (if bitCount mod 8 > 0 then p\<lparr>accBit := normFn rightShift (accBit p) (nat (bitCount mod 8)),
                 accumulator := revFn rightShift 0xFF (8 - nat (bitCount mod 8))\<rparr> else p) in
           Ok (p\<lparr>bb_bytes := bb_bytes p @ replicate (nat (bitCount div 8)) 0xFF\<rparr>)) in
     if usedCount = 0 then if bitCount < 0 then Ok p else tail bitCount p
     else if bitCount \<ge> 0 \<and> alignCount > bitCount then
       let filler = revFn rightShift 0xFF (nat (alignCount - bitCount)) in
       Ok (p\<lparr>accumulator := accumulator p OR normFn rightShift filler usedCount, accBit := normFn rightShift (accBit p) (nat bitCount)\<rparr>)
     else
       let bitCount = (if bitCount < 0 then 0 else bitCount - alignCount);
           p = p\<lparr>accumulator := accumulator p OR normFn rightShift 0xFF usedCount\<rparr>;
           p = p\<lparr>bb_bytes := bb_bytes p @ [accumulator p], accumulator := 0, accBit := accInit p\<rparr> in
       if bitCount = 0 then Ok p else tail bitCount p))"

definition AppendN :: "int \<Rightarrow> bool \<Rightarrow> BitBuilder \<Rightarrow> BitBuilder res" where
  "AppendN bitCount b p =
     bnd (bb_ensure p) (\<lambda>p.
     if bitCount = 0 then Ok p
     else if bitCount = 1 then bb_Append b p
     else if bitCount < 0 then Panic ''invalid bitCount value''
     else if b then appendN1 bitCount p else appendN0 bitCount p)"

definition PadWith :: "bool \<Rightarrow> BitBuilder \<Rightarrow> BitBuilder res" where
  "PadWith b p = bnd (if b then appendN1 (- 1) p else Ok p) (appendN0 (- 1))"

definition BitPos :: "int \<Rightarrow> (nat \<times> nat) res" where
  "BitPos index = (if index < 0 then Panic ''IllegalValue'' else Ok (nat index div 8, nat index mod 8))"

definition ToggleBit :: "int \<Rightarrow> BitBuilder \<Rightarrow> (BitBuilder \<times> bool) res" where
  "ToggleBit index p =
     bnd (bb_align p) (\<lambda>(rightShift, _).
     bnd (BitPos index) (\<lambda>(byteIndex, bitIndex).
     let m = normFn rightShift 1 bitIndex in
     if byteIndex \<ge> length (bb_bytes p) then Panic ''index out of range''
     else let b = bb_bytes p ! byteIndex XOR m in Ok (p\<lparr>bb_bytes := (bb_bytes p)[byteIndex := b]\<rparr>, b AND m \<noteq> 0)))"

definition bb_Set :: "int \<Rightarrow> bool \<Rightarrow> bool \<Rightarrow> BitBuilder \<Rightarrow> BitBuilder res" where
  "bb_Set index b padding p =
     bnd (bb_ensure p) (\<lambda>p.
     if index < 0 then Panic ''IllegalValue''
     else bnd (bb_BitLen p) (\<lambda>len.
       let d = index - int len in
       if d < 0 then
         bnd (bb_align p) (\<lambda>(rightShift, _).
         bnd (BitPos index) (\<lambda>(byteIndex, bitIndex).
           let m = normFn rightShift 1 bitIndex; upd = (\<lambda>x. if b then x OR m else x AND NOT m) in
           Ok (if byteIndex = length (bb_bytes p) then p\<lparr>accumulator := upd (accumulator p)\<rparr>
               else p\<lparr>bb_bytes := (bb_bytes p)[byteIndex := upd (bb_bytes p ! byteIndex)]\<rparr>)))
       else bnd (if d > 0 then if padding then appendN1 d p else appendN0 d p else Ok p) (bb_Append b)))"

definition SetBit :: "int \<Rightarrow> int \<Rightarrow> BitBuilder \<Rightarrow> BitBuilder res" where
  "SetBit index b = bb_Set index (b \<noteq> 0) False"

text \<open>\<open>Done\<close> clears the bytes before it computes the length in bits.\<close>

definition Done :: "BitBuilder \<Rightarrow> (BitBuilder \<times> u8 list \<times> int) res" where
  "Done p =
     bnd (bb_align p) (\<lambda>(_, usedCount).
     let bs = bb_bytes p; p = p\<lparr>bb_bytes := []\<rparr> in
     if usedCount > 0 then
       let bs = bs @ [accumulator p]; p = p\<lparr>accumulator := 0, accBit := accInit p\<rparr> in
       Ok (p, bs, (int (length (bb_bytes p)) - 1) * 8 + int usedCount)
     else Ok (p, bs, int (length (bb_bytes p)) * 8))"

definition DoneToBytes :: "BitBuilder \<Rightarrow> u8 list res" where
  "DoneToBytes p = bnd (Done p) (\<lambda>(_, b, _). Ok b)"

definition trimTail :: "u8 list \<Rightarrow> u8 list" where
  "trimTail sb = take 1 sb @ rev (dropWhile (\<lambda>b. b = 0) (rev (drop 1 sb)))"

definition TrimZeros :: "BitBuilder \<Rightarrow> nat \<times> u8 list" where
  "TrimZeros p =
     (let skippedPrefix = length (takeWhile (\<lambda>b. b = 0) (bb_bytes p)); sb = drop skippedPrefix (bb_bytes p) in
      if accumulator p \<noteq> 0 then (skippedPrefix, sb @ [accumulator p])
      else if sb = [] then (0, [])
      else (skippedPrefix, trimTail sb))"

subsection \<open>Readers\<close>

record bitReader =
  br_accumulator :: u8
  br_accInit :: u8
  br_accBit :: u8

definition newBitReader :: "BitBuilderOrder \<Rightarrow> bitReader" where
  "newBitReader order =
     (case order of LSB \<Rightarrow> \<lparr>br_accumulator = 0, br_accInit = initLSB, br_accBit = 0\<rparr>
      | MSB \<Rightarrow> \<lparr>br_accumulator = 0, br_accInit = initMSB, br_accBit = 0\<rparr>)"

text \<open>A source of bytes gives a byte or an error and its next state; a reading is the next state of reader and source with a value or an error.\<close>

type_synonym 's source = "'s \<Rightarrow> ('s \<times> (string + u8)) res"
type_synonym ('s, 'a) reading = "((bitReader \<times> 's) \<times> (string + 'a)) res"

definition br_rightShift :: "bitReader \<Rightarrow> bool res" where
  "br_rightShift p =
     (if br_accInit p = initLSB then Ok False else if br_accInit p = initMSB then Ok True else Panic ''illegal state'')"

definition br_align :: "bitReader \<Rightarrow> (bool \<times> nat) res" where
  "br_align p = bnd (br_rightShift p) (\<lambda>rs.
     Ok (rs, if br_accBit p = 0 then 0 else if rs then LeadingZeros8 (br_accBit p) else TrailingZeros8 (br_accBit p)))"

definition br_ensure :: "'s source \<Rightarrow> bitReader \<Rightarrow> 's \<Rightarrow> ('s, unit) reading" where
  "br_ensure readFn p s =
     (if br_accBit p \<noteq> 0 then Ok ((p, s), Inr ())
      else
        let p = (if br_accInit p = 0 then p\<lparr>br_accInit := initLSB\<rparr> else p) in
        bnd (readFn s) (\<lambda>(s, r).
          case r of Inl e \<Rightarrow> Ok ((p, s), Inl e)
          | Inr b \<Rightarrow> Ok ((p\<lparr>br_accumulator := b, br_accBit := br_accInit p\<rparr>, s), Inr ())))"

definition readNext :: "'s source \<Rightarrow> bitReader \<Rightarrow> 's \<Rightarrow> ('s, u8) reading" where
  "readNext readFn p s =
     bnd (br_ensure readFn p s) (\<lambda>((p, s), r).
       case r of Inl e \<Rightarrow> Ok ((p, s), Inl e)
       | Inr _ \<Rightarrow>
           bnd (br_align p) (\<lambda>(rs, _).
             let m = br_accBit p; p = p\<lparr>br_accBit := if rs then drop_bit 1 (br_accBit p) else push_bit 1 (br_accBit p)\<rparr> in
             Ok ((p, s), Inr (br_accumulator p AND m))))"

definition readByte :: "'s source \<Rightarrow> bitReader \<Rightarrow> 's \<Rightarrow> ('s, u8) reading" where
  "readByte readFn p s =
     (if br_accBit p = 0 then
        let p = (if br_accInit p = 0 then p\<lparr>br_accInit := initLSB\<rparr> else p) in
        bnd (br_rightShift p) (\<lambda>rs. bnd (readFn s) (\<lambda>(s, r). Ok ((p, s), map_sum id (\<lambda>b. if rs then Reverse8 b else b) r)))
      else if br_accBit p = br_accInit p then
        let p = p\<lparr>br_accBit := 0\<rparr> in
        bnd (br_rightShift p) (\<lambda>rs. Ok ((p, s), Inr (if rs then Reverse8 (br_accumulator p) else br_accumulator p)))
      else
        let v = br_accumulator p in
        bnd (readFn s) (\<lambda>(s, r).
          case r of Inl e \<Rightarrow> Ok ((p, s), Inl e)
          | Inr b \<Rightarrow>
              let p = p\<lparr>br_accumulator := b\<rparr>; w = b in
              bnd (br_align p) (\<lambda>(rs, usedBits).
                Ok ((p, s), Inr (if rs then Reverse8 (push_bit usedBits v OR drop_bit (8 - usedBits) w)
                  else drop_bit usedBits v OR push_bit (8 - usedBits) w)))))"

definition readSubByte :: "nat \<Rightarrow> 's source \<Rightarrow> bitReader \<Rightarrow> 's \<Rightarrow> ('s, u8) reading" where
  "readSubByte bitLen readFn p s =
     (if bitLen = 0 then Ok ((p, s), Inr 0)
      else if bitLen = 1 then bnd (readNext readFn p s) (\<lambda>(ps, r). Ok (ps, map_sum id (\<lambda>v. if v \<noteq> 0 then 1 else 0) r))
      else if bitLen = 8 then readByte readFn p s
      else if bitLen > 8 then Panic ''illegal value''
      else
        bnd (br_ensure readFn p s) (\<lambda>((p, s), r).
        case r of Inl e \<Rightarrow> Ok ((p, s), Inl e)
        | Inr _ \<Rightarrow>
          bnd (br_align p) (\<lambda>(rightShift, usedBits).
          let remainBits = 8 - usedBits in
          if bitLen \<le> remainBits then
            if rightShift then
              let p = p\<lparr>br_accBit := drop_bit bitLen (br_accBit p)\<rparr>;
                  v = br_accumulator p;
                  v = (if br_accBit p \<noteq> 0 then v AND NOT (push_bit 1 (br_accBit p) - 1) else v) in
              Ok ((p, s), Inr (Reverse8 (push_bit usedBits v)))
            else
              let p = p\<lparr>br_accBit := push_bit bitLen (br_accBit p)\<rparr>; v = br_accumulator p AND (br_accBit p - 1) in
              Ok ((p, s), Inr (drop_bit usedBits v))
          else
            let bitLen = bitLen - remainBits; v = br_accumulator p; p = p\<lparr>br_accBit := 0\<rparr> in
            bnd (br_ensure readFn p s) (\<lambda>((p, s), r).
            case r of Inl e \<Rightarrow> Ok ((p, s), Inl e)
            | Inr _ \<Rightarrow>
                if rightShift then
                  let p = p\<lparr>br_accBit := drop_bit bitLen (br_accBit p)\<rparr>;
                      v = v AND drop_bit usedBits 0xFF;
                      w = push_bit 8 (ucast v :: u16) OR ucast (br_accumulator p);
                      w = push_bit bitLen w;
                      v = ucast (drop_bit 8 w);
                      v = push_bit (usedBits - bitLen) v in
                  Ok ((p, s), Inr (Reverse8 v))
                else
                  let p = p\<lparr>br_accBit := push_bit bitLen (br_accBit p)\<rparr>;
                      v = v AND push_bit usedBits 0xFF;
                      w = (ucast v :: u16) OR push_bit 8 (ucast (br_accumulator p));
                      w = drop_bit bitLen w;
                      v = ucast w;
                      v = drop_bit (usedBits - bitLen) v in
                  Ok ((p, s), Inr v)))))"

text \<open>The source of \<^verbatim>\<open>BitArrayReader\<close> and \<^verbatim>\<open>BitStrReader\<close>: indexing an empty array panics.\<close>

definition arrayRead :: "u8 list source" where
  "arrayRead bs = (case bs of [] \<Rightarrow> Panic ''index out of range'' | b # bs \<Rightarrow> Ok (bs, Inr b))"

definition NewBitArrayReader :: "BitBuilderOrder \<Rightarrow> u8 list \<Rightarrow> bitReader \<times> u8 list" where
  "NewBitArrayReader direction bs = (newBitReader direction, bs)"

definition IsArrayDepleted :: "bitReader \<times> u8 list \<Rightarrow> bool" where
  "IsArrayDepleted p \<longleftrightarrow> snd p = []"

definition ReadBool :: "'s source \<Rightarrow> bitReader \<Rightarrow> 's \<Rightarrow> ('s, bool) reading" where
  "ReadBool readFn p s = bnd (readNext readFn p s) (\<lambda>(ps, r). Ok (ps, map_sum id (\<lambda>v. v \<noteq> 0) r))"

definition ReadBit :: "'s source \<Rightarrow> bitReader \<Rightarrow> 's \<Rightarrow> ('s, int) reading" where
  "ReadBit readFn p s = bnd (readNext readFn p s) (\<lambda>(ps, r). Ok (ps, map_sum id (\<lambda>v. if v \<noteq> 0 then 1 else 0) r))"

subsection \<open>Bit slices\<close>

definition LSB_BitMasked :: "u8 list \<Rightarrow> int \<Rightarrow> (u8 \<times> u8) res" where
  "LSB_BitMasked v index = bnd (BitPos index) (\<lambda>(bytePos, bitPos).
     if bytePos \<ge> length v then Panic ''index out of range'' else let m = push_bit bitPos 1 in Ok (v ! bytePos AND m, m))"

definition LSB_BitBool :: "u8 list \<Rightarrow> int \<Rightarrow> bool res" where
  "LSB_BitBool v index = bnd (LSB_BitMasked v index) (\<lambda>(b, _). Ok (b \<noteq> 0))"

definition MSB_BitMasked :: "u8 list \<Rightarrow> int \<Rightarrow> (u8 \<times> u8) res" where
  "MSB_BitMasked v index = bnd (BitPos index) (\<lambda>(bytePos, bitPos).
     if bytePos \<ge> length v then Panic ''index out of range'' else let m = drop_bit bitPos 0x80 in Ok (v ! bytePos AND m, m))"

definition MSB_BitBool :: "u8 list \<Rightarrow> int \<Rightarrow> bool res" where
  "MSB_BitBool v index = bnd (MSB_BitMasked v index) (\<lambda>(b, _). Ok (b \<noteq> 0))"

text \<open>The search for the next byte with a bit of the wanted value; \<open>z\<close> counts the zeros before it.\<close>

fun searchFrom :: "(u8 \<Rightarrow> nat) \<Rightarrow> (u8 \<Rightarrow> u8) \<Rightarrow> nat \<Rightarrow> u8 list \<Rightarrow> int" where
  "searchFrom z f bytePos [] = - 1"
| "searchFrom z f bytePos (b # bs) = (if f b \<noteq> 0 then int (8 * bytePos + z (f b)) else searchFrom z f (bytePos + 1) bs)"

definition LSB_SearchBit :: "u8 list \<Rightarrow> int \<Rightarrow> bool \<Rightarrow> int res" where
  "LSB_SearchBit v startAt b = bnd (BitPos startAt) (\<lambda>(bytePos, bitPos).
     if bytePos \<ge> length v then Ok (- 1)
     else
       let f = (\<lambda>x. if b then x else NOT x); x = drop_bit bitPos (f (v ! bytePos)) in
       if x \<noteq> 0 then Ok (int (8 * bytePos + bitPos + TrailingZeros8 x))
       else Ok (searchFrom TrailingZeros8 f (bytePos + 1) (drop (bytePos + 1) v)))"

definition MSB_SearchBit :: "u8 list \<Rightarrow> int \<Rightarrow> bool \<Rightarrow> int res" where
  "MSB_SearchBit v startAt b = bnd (BitPos startAt) (\<lambda>(bytePos, bitPos).
     if bytePos \<ge> length v then Ok (- 1)
     else
       let f = (\<lambda>x. if b then x else NOT x); x = push_bit bitPos (f (v ! bytePos)) in
       if x \<noteq> 0 then Ok (int (8 * bytePos + bitPos + LeadingZeros8 x))
       else Ok (searchFrom LeadingZeros8 f (bytePos + 1) (drop (bytePos + 1) v)))"

subsection \<open>Bytes as lists of bits\<close>

text \<open>The bit of a byte at a position in the order of the builder; \<open>rs\<close> is true when the most significant bit is the first.\<close>

definition ob :: "bool \<Rightarrow> u8 \<Rightarrow> nat \<Rightarrow> bool" where
  "ob rs b i \<longleftrightarrow> i < 8 \<and> bit b (if rs then 7 - i else i)"

definition obits :: "bool \<Rightarrow> u8 \<Rightarrow> bool list" where
  "obits rs b = map (ob rs b) [0..<8]"

definition byteOf :: "bool list \<Rightarrow> u8" where
  "byteOf bs = horner_sum of_bool 2 (take 8 bs)"

definition initOf :: "bool \<Rightarrow> u8" where
  "initOf rs = (if rs then initMSB else initLSB)"

lemma ob_high: "8 \<le> i \<Longrightarrow> \<not> ob rs b i"
  by (simp add: ob_def)

lemma ob_eqI: assumes "\<And>i. i < 8 \<Longrightarrow> ob rs a i = ob rs b i" shows "a = b"
proof (rule bit_word_eqI)
  fix n assume "n < LENGTH(8)"
  then show "bit a n = bit b n" using assms [of "if rs then 7 - n else n"] by (cases rs) (simp_all add: ob_def)
qed

lemma ob_norm: "ob rs (normFn rs x k) i \<longleftrightarrow> i < 8 \<and> k \<le> i \<and> ob rs x (i - k)"
proof (cases rs)
  case True
  have "bit x (k + (7 - i)) \<longleftrightarrow> k \<le> i \<and> bit x (7 - (i - k))" if "i < 8"
  proof (cases "k \<le> i")
    case True
    then have "k + (7 - i) = 7 - (i - k)" using that by linarith
    then show ?thesis using True by simp
  next
    case False
    then have "8 \<le> k + (7 - i)" by linarith
    then show ?thesis using False by (auto dest: bit_imp_le_length)
  qed
  then show ?thesis using True by (auto simp: ob_def normFn_def shiftRight_def bit_drop_bit_eq)
qed (auto simp: ob_def normFn_def shiftLeft_def bit_push_bit_iff)

lemma ob_rev: "ob rs (revFn rs x k) i \<longleftrightarrow> i + k < 8 \<and> ob rs x (i + k)"
proof (cases rs)
  case True
  have "k \<le> 7 - i \<and> bit x (7 - i - k) \<longleftrightarrow> i + k < 8 \<and> bit x (7 - (i + k))" if "i < 8"
    using that by (cases "i + k < 8") (auto simp: diff_diff_left)
  then show ?thesis using True by (auto simp: ob_def revFn_def shiftLeft_def bit_push_bit_iff)
qed (auto simp: ob_def revFn_def shiftRight_def bit_drop_bit_eq add.commute dest: bit_imp_le_length)

lemma ob_or [simp]: "ob rs (a OR b) i \<longleftrightarrow> ob rs a i \<or> ob rs b i"
  by (auto simp: ob_def bit_or_iff)

lemma ob_and [simp]: "ob rs (a AND b) i \<longleftrightarrow> ob rs a i \<and> ob rs b i"
  by (auto simp: ob_def bit_and_iff)

lemma ob_0 [simp]: "\<not> ob rs 0 i"
  by (simp add: ob_def)

lemma ob_FF [simp]: "ob rs 0xFF i \<longleftrightarrow> i < 8"
proof -
  have "\<forall>i \<in> set [0..<8]. bit (0xFF :: u8) i" by code_simp
  then have a: "j < 8 \<Longrightarrow> bit (0xFF :: u8) j" for j by (metis atLeastLessThan_iff le0 set_upt)
  have "i < 8 \<Longrightarrow> (if rs then 7 - i else i) < 8" by auto
  then show ?thesis unfolding ob_def using a by blast
qed

lemma ob_init: "ob rs (initOf rs) i \<longleftrightarrow> i = 0"
proof -
  have "(initMSB :: u8) = push_bit 7 1" by (simp add: initMSB_def)
  moreover have "bit (push_bit 7 1 :: u8) n \<longleftrightarrow> n = 7" for n by (auto simp only: bit_push_bit_iff bit_1_iff) simp_all
  ultimately have "bit initMSB n \<longleftrightarrow> n = 7" for n by simp
  moreover have "bit initLSB n \<longleftrightarrow> n = 0" for n by (simp add: initLSB_def bit_1_iff)
  ultimately show ?thesis by (auto simp: ob_def initOf_def)
qed

lemma bit_Reverse8: "bit (Reverse8 b) i \<longleftrightarrow> i < 8 \<and> bit b (7 - i)"
proof -
  have "[7, 6, 5, 4, 3, 2, 1, 0] = map (\<lambda>i. 7 - i) [0..<8 :: nat]" by (simp add: upt_rec)
  then have "Reverse8 b = horner_sum of_bool 2 (map (\<lambda>i. bit b (7 - i)) [0..<8])" by (simp add: Reverse8_def comp_def)
  then show ?thesis by (auto simp: bit_horner_sum_bit_word_iff)
qed

lemma ob_Reverse8: "ob rs (if rs then Reverse8 b else b) i \<longleftrightarrow> ob False b i"
  by (auto simp: ob_def bit_Reverse8)

lemma obits_nth [simp]: "i < 8 \<Longrightarrow> obits rs b ! i = ob rs b i" "length (obits rs b) = 8"
  by (simp_all add: obits_def)

lemma obits_eq: "obits rs a = obits rs b \<longleftrightarrow> a = b"
  by (metis ob_eqI obits_nth(1))

lemma obits_Reverse8: "obits rs (if rs then Reverse8 b else b) = obits False b"
  by (rule nth_equalityI) (simp_all add: ob_Reverse8)

lemma byteOf_obits: "byteOf (obits False b) = b"
proof (rule bit_word_eqI)
  fix n assume "n < LENGTH(8)"
  then show "bit (byteOf (obits False b)) n = bit b n" by (simp add: byteOf_def bit_horner_sum_bit_word_iff ob_def)
qed

lemma ob_byteOf: "ob False (byteOf bs) i \<longleftrightarrow> i < 8 \<and> i < length bs \<and> bs ! i"
  by (auto simp: ob_def byteOf_def bit_horner_sum_bit_word_iff)

text \<open>The marker of the next position: the initial bit, shifted by the number of used bits.\<close>

lemma marker_zeros: "u < 8 \<Longrightarrow> TrailingZeros8 (push_bit u 1) = u" "u < 8 \<Longrightarrow> LeadingZeros8 (drop_bit u 0x80) = u"
proof -
  have "\<forall>u \<in> set [0..<8]. TrailingZeros8 (push_bit u 1) = u \<and> LeadingZeros8 (drop_bit u 0x80) = u" by code_simp
  then show "u < 8 \<Longrightarrow> TrailingZeros8 (push_bit u 1) = u" "u < 8 \<Longrightarrow> LeadingZeros8 (drop_bit u 0x80) = u" by simp_all
qed

lemma marker_eq: "ob rs (normFn rs (initOf rs) u) i \<longleftrightarrow> i < 8 \<and> i = u"
  by (auto simp: ob_norm ob_init)

lemma marker_used: assumes "u < 8" shows "(if rs then LeadingZeros8 (normFn rs (initOf rs) u) else TrailingZeros8 (normFn rs (initOf rs) u)) = u"
proof (cases rs)
  case True
  have "normFn True (initOf True) u = drop_bit u 0x80" by (simp only: normFn_def initOf_def initMSB_def shiftRight_def if_True)
  then show ?thesis using marker_zeros(2) [OF assms] True by (simp only: if_True)
next
  case False
  have "normFn False (initOf False) u = push_bit u 1" by (simp only: normFn_def initOf_def initLSB_def shiftLeft_def if_False)
  then show ?thesis using marker_zeros(1) [OF assms] False by (simp only: if_False)
qed

lemma marker_0: "normFn rs (initOf rs) u = 0 \<longleftrightarrow> 8 \<le> u"
proof
  assume "normFn rs (initOf rs) u = 0"
  then show "8 \<le> u" using marker_eq [of rs u u] by (metis leI ob_0)
next
  assume "8 \<le> u"
  then show "normFn rs (initOf rs) u = 0" by (intro ob_eqI [of rs]) (auto simp: marker_eq)
qed

lemma marker_init: assumes "u < 8" shows "normFn rs (initOf rs) u = initOf rs \<longleftrightarrow> u = 0"
proof
  assume "normFn rs (initOf rs) u = initOf rs"
  then show "u = 0" using marker_eq [of rs u u] ob_init [of rs u] assms by simp
next
  assume "u = 0"
  then show "normFn rs (initOf rs) u = initOf rs" by (simp add: normFn_def shiftLeft_def shiftRight_def)
qed

lemma norm_norm: "normFn rs (normFn rs x a) b = normFn rs x (a + b)"
  by (rule ob_eqI [of rs]) (auto simp: ob_norm add.commute)

subsection \<open>A builder is a list of bits\<close>

definition bb_ok :: "bool \<Rightarrow> nat \<Rightarrow> BitBuilder \<Rightarrow> bool" where
  "bb_ok rs u p \<longleftrightarrow> u < 8 \<and> accInit p = initOf rs \<and> accBit p = normFn rs (initOf rs) u \<and> (\<forall>i. u \<le> i \<longrightarrow> \<not> ob rs (accumulator p) i)"

definition builderBits :: "bool \<Rightarrow> nat \<Rightarrow> BitBuilder \<Rightarrow> bool list" where
  "builderBits rs u p = concat (map (obits rs) (bb_bytes p)) @ take u (obits rs (accumulator p))"

text \<open>The builder \<open>p\<close> of the given order holds the bits \<open>bs\<close>.\<close>

definition holds :: "bool \<Rightarrow> BitBuilder \<Rightarrow> bool list \<Rightarrow> bool" where
  "holds rs p bs \<longleftrightarrow> (\<exists>u. bb_ok rs u p \<and> builderBits rs u p = bs)"

lemma init_simps: "initOf rs \<noteq> 0" "initOf rs = initLSB \<longleftrightarrow> \<not> rs" "initOf rs = initMSB \<longleftrightarrow> rs" "initMSB \<noteq> initLSB"
  by (auto simp: initOf_def initLSB_def initMSB_def)

lemma ensure_ok: "bb_ok rs u p \<Longrightarrow> bb_ensure p = Ok p"
  by (auto simp: bb_ok_def bb_ensure_def init_simps marker_0)

lemma rightShift_ok: "bb_ok rs u p \<Longrightarrow> bb_rightShift p = Ok rs"
  by (auto simp: bb_ok_def bb_rightShift_def init_simps)

lemma align_ok: assumes "bb_ok rs u p" shows "bb_align p = Ok (rs, u)"
proof -
  have u: "u < 8" "accInit p = initOf rs" "accBit p = normFn rs (initOf rs) u" using assms by (auto simp: bb_ok_def)
  show ?thesis using rightShift_ok [OF assms] marker_used [OF u(1), of rs] marker_init [OF u(1), of rs] by (cases rs) (simp_all add: bb_align_def u)
qed

lemma new_holds: "holds (order = MSB) (NewBitBuilder order) []"
proof -
  have "bb_ok (order = MSB) 0 (NewBitBuilder order)"
    by (cases order) (auto simp: bb_ok_def NewBitBuilder_def AppendBitBuilder_def initOf_def normFn_def shiftLeft_def shiftRight_def)
  moreover have "builderBits (order = MSB) 0 (NewBitBuilder order) = []"
    by (cases order) (simp_all add: builderBits_def NewBitBuilder_def AppendBitBuilder_def)
  ultimately show ?thesis unfolding holds_def by blast
qed

text \<open>Completing the current byte, and adding bits to it.\<close>

lemma bits_split: "k \<le> 8 \<Longrightarrow> take k (obits rs b) = map (ob rs b) [0..<k]"
  by (simp add: obits_def take_map min_def)

lemma complete_byte:
  assumes "bb_ok rs u p" "\<And>i. i < 8 \<Longrightarrow> ob rs b i = (if i < u then ob rs (accumulator p) i else xs ! (i - u))" "length xs = 8 - u"
  shows "obits rs b = take u (obits rs (accumulator p)) @ xs"
proof (rule nth_equalityI)
  show "length (obits rs b) = length (take u (obits rs (accumulator p)) @ xs)" using assms(1,3) by (simp add: bb_ok_def)
  fix i assume "i < length (obits rs b)"
  then show "obits rs b ! i = (take u (obits rs (accumulator p)) @ xs) ! i" using assms by (simp add: nth_append bb_ok_def)
qed

lemma Append_holds:
  assumes "holds rs p bs"
  shows "\<exists>p'. bb_Append b p = Ok p' \<and> holds rs p' (bs @ [b])"
proof -
  obtain u where ok: "bb_ok rs u p" and bs: "builderBits rs u p = bs" using assms by (auto simp: holds_def)
  have u: "u < 8" "accInit p = initOf rs" "accBit p = normFn rs (initOf rs) u" "\<And>i. u \<le> i \<Longrightarrow> \<not> ob rs (accumulator p) i" using ok by (auto simp: bb_ok_def)
  define acc where "acc = (if b then accumulator p OR accBit p else accumulator p)"
  have acc: "ob rs acc i = (if i < u then ob rs (accumulator p) i else i = u \<and> b)" for i
    using u by (auto simp: acc_def marker_eq)
  have nx: "(if rs then drop_bit 1 (accBit p) else push_bit 1 (accBit p)) = normFn rs (initOf rs) (u + 1)"
    unfolding u(3) by (metis norm_norm normFn_def shiftLeft_def shiftRight_def)
  have t: "take (u + 1) (obits rs acc) = take u (obits rs (accumulator p)) @ [b]"
    using u(1) by (simp add: bits_split acc)
  have ev: "bb_Append b p = Ok (if u = 7 then p\<lparr>bb_bytes := bb_bytes p @ [acc], accumulator := 0, accBit := accInit p\<rparr>
      else p\<lparr>accumulator := acc, accBit := normFn rs (initOf rs) (u + 1)\<rparr>)" (is "_ = Ok ?q")
  proof -
    have "bb_rightShift (if b then p\<lparr>accumulator := accumulator p OR accBit p\<rparr> else p) = Ok rs"
      using u(2) by (auto simp: bb_rightShift_def init_simps)
    then show ?thesis using ensure_ok [OF ok] nx u(1) marker_0 [of rs "u + 1"] by (auto simp: bb_Append_def Let_def acc_def)
  qed
  have "holds rs ?q (bs @ [b])"
  proof (cases "u = 7")
    case True
    have "bb_ok rs 0 ?q" using True u by (auto simp: bb_ok_def normFn_def shiftLeft_def shiftRight_def)
    moreover have "builderBits rs 0 ?q = bs @ [b]" using True t bs [symmetric] by (simp add: builderBits_def)
    ultimately show ?thesis unfolding holds_def by blast
  next
    case False
    have "bb_ok rs (u + 1) ?q" using False u acc by (auto simp: bb_ok_def)
    moreover have "builderBits rs (u + 1) ?q = bs @ [b]" using False t bs [symmetric] by (simp add: builderBits_def)
    ultimately show ?thesis unfolding holds_def by blast
  qed
  then show ?thesis using ev by blast
qed


text \<open>Adding a chunk of at most eight bits, whose values are the first bits of \<open>w\<close> in the order of the builder.\<close>

definition chunked :: "bool \<Rightarrow> nat \<Rightarrow> u8 \<Rightarrow> nat \<Rightarrow> BitBuilder \<Rightarrow> BitBuilder" where
  "chunked rs u w n p =
     (if u + n < 8 then p\<lparr>accumulator := accumulator p OR normFn rs w u, accBit := normFn rs (initOf rs) (u + n)\<rparr>
      else p\<lparr>bb_bytes := bb_bytes p @ [accumulator p OR normFn rs w u], accumulator := revFn rs w (8 - u),
        accBit := normFn rs (initOf rs) (u + n - 8)\<rparr>)"

lemma chunked_holds:
  assumes ok: "bb_ok rs u p" and bs: "builderBits rs u p = bs" and xs: "length xs = n" "n \<le> 8" "\<And>i. ob rs w i \<longleftrightarrow> i < n \<and> xs ! i"
  shows "bb_ok rs ((u + n) mod 8) (chunked rs u w n p)" "builderBits rs ((u + n) mod 8) (chunked rs u w n p) = bs @ xs"
proof -
  have u: "u < 8" "accInit p = initOf rs" "accBit p = normFn rs (initOf rs) u" "\<And>i. u \<le> i \<Longrightarrow> \<not> ob rs (accumulator p) i" using ok by (auto simp: bb_ok_def)
  have "bb_ok rs ((u + n) mod 8) (chunked rs u w n p) \<and> builderBits rs ((u + n) mod 8) (chunked rs u w n p) = bs @ xs"
  proof (cases "u + n < 8")
    case True
    define m where "m = (accumulator p OR normFn rs w u)"
    have m: "ob rs m i = (if i < u then ob rs (accumulator p) i else i < u + n \<and> xs ! (i - u))" for i
      using u(4) xs(3) [of "i - u"] True by (auto simp: m_def ob_norm)
    have t: "take (u + n) (obits rs m) = take u (obits rs (accumulator p)) @ xs"
      using True m xs(1) by (intro nth_equalityI) (auto simp: nth_append)
    have c: "chunked rs u w n p = p\<lparr>accumulator := m, accBit := normFn rs (initOf rs) (u + n)\<rparr>" using True by (simp add: chunked_def m_def)
    have "bb_ok rs (u + n) (chunked rs u w n p)" using True u(2) m by (simp add: bb_ok_def c)
    then show ?thesis using True t bs [symmetric] by (simp add: builderBits_def c)
  next
    case False
    let ?k = "u + n - 8"
    have k: "(u + n) mod 8 = ?k" "?k < 8" using False u(1) xs(2) by (simp_all add: mod_if)
    have o: "obits rs (accumulator p OR normFn rs w u) = take u (obits rs (accumulator p)) @ take (8 - u) xs"
    proof (rule complete_byte [OF ok])
      fix i assume "i < (8 :: nat)"
      then show "ob rs (accumulator p OR normFn rs w u) i = (if i < u then ob rs (accumulator p) i else take (8 - u) xs ! (i - u))"
        using u(4) xs(3) [of "i - u"] False by (auto simp: ob_norm)
    qed (use False xs in simp)
    have r: "ob rs (revFn rs w (8 - u)) i = (i < ?k \<and> xs ! (i + (8 - u)))" for i
      using xs(2) xs(3) [of "i + (8 - u)"] u(1) by (auto simp: ob_rev)
    have "take ?k (obits rs (revFn rs w (8 - u))) = drop (8 - u) xs"
      using k(2) r xs(1) False u(1) by (intro nth_equalityI) (auto simp: add.commute)
    then show ?thesis using False k u bs [symmetric] o r
      by (auto simp: bb_ok_def chunked_def builderBits_def)
  qed
  then show "bb_ok rs ((u + n) mod 8) (chunked rs u w n p)" "builderBits rs ((u + n) mod 8) (chunked rs u w n p) = bs @ xs" by simp_all
qed

lemma holds_chunk:
  assumes "bb_ok rs u p" "builderBits rs u p = bs" "length xs = n" "n \<le> 8" "\<And>i. ob rs w i \<longleftrightarrow> i < n \<and> xs ! i"
  shows "holds rs (chunked rs u w n p) (bs @ xs)"
  using chunked_holds [OF assms] unfolding holds_def by blast

lemma norm_0 [simp]: "normFn rs x 0 = x" "revFn rs x 0 = x"
  by (simp_all add: normFn_def revFn_def shiftLeft_def shiftRight_def)

lemma rev_8 [simp]: "revFn rs x 8 = 0"
  by (rule ob_eqI [of rs]) (simp add: ob_rev)

lemma acc_empty: "bb_ok rs 0 p \<Longrightarrow> accumulator p = 0"
  by (rule ob_eqI [of rs]) (auto simp: bb_ok_def)

lemma obits_iff: "ob rs b i \<longleftrightarrow> i < 8 \<and> obits rs b ! i"
  by (cases "i < 8") (simp_all add: ob_high)

lemma AppendByte_holds:
  assumes "holds rs p bs"
  shows "\<exists>p'. bb_AppendByte b p = Ok p' \<and> holds rs p' (bs @ obits False b)"
proof -
  obtain u where ok: "bb_ok rs u p" and bs: "builderBits rs u p = bs" using assms by (auto simp: holds_def)
  let ?w = "if rs then Reverse8 b else b"
  have u: "u < 8" "accBit p = normFn rs (initOf rs) u" using ok by (auto simp: bb_ok_def)
  have "bb_AppendByte b p = Ok (chunked rs u ?w 8 p)"
    using u acc_empty [of rs p] ok by (cases "u = 0") (simp_all add: bb_AppendByte_def ensure_ok [OF ok] align_ok [OF ok] chunked_def Let_def)
  moreover have "holds rs (chunked rs u ?w 8 p) (bs @ obits False b)"
    by (intro holds_chunk [OF ok bs]) (simp_all only: obits_iff obits_Reverse8 obits_nth(2) order_refl)
  ultimately show ?thesis by blast
qed

lemma AppendSubByte_holds:
  assumes "holds rs p bs" "n \<le> 8"
  shows "\<exists>p'. AppendSubByte v n p = Ok p' \<and> holds rs p' (bs @ take n (obits False v))"
proof -
  consider "n = 0" | "n = 1" | "n = 8" | "2 \<le> n" "n < 8" using assms(2) by linarith
  then show ?thesis
  proof cases
    case 2
    have "(v AND 1 \<noteq> 0) = ob False v 0" by (simp add: ob_def and_one_eq odd_iff_mod_2_eq_one [symmetric] bit_0)
    then show ?thesis using 2 Append_holds [OF assms(1), of "v AND 1 \<noteq> 0"] by (simp add: AppendSubByte_def bits_split)
  next
    case 3
    then show ?thesis using AppendByte_holds [OF assms(1)] by (simp add: AppendSubByte_def)
  next
    case 4
    obtain u where ok: "bb_ok rs u p" and bs: "builderBits rs u p = bs" using assms by (auto simp: holds_def)
    have u: "u < 8" "accInit p = initOf rs" "accBit p = normFn rs (initOf rs) u" using ok by (auto simp: bb_ok_def)
    let ?w = "(if rs then Reverse8 v else v) AND revFn rs 0xFF (8 - n)"
    have w: "ob rs ?w i \<longleftrightarrow> i < n \<and> take n (obits False v) ! i" for i
    proof -
      have "ob rs (revFn rs 0xFF (8 - n)) i \<longleftrightarrow> i < n" using 4 by (auto simp: ob_rev)
      moreover have "ob rs (if rs then Reverse8 v else v) i \<longleftrightarrow> ob False v i" by (rule ob_Reverse8)
      ultimately show ?thesis using 4 by (simp only: ob_and) auto
    qed
    have "AppendSubByte v n p = Ok (chunked rs u ?w n p)"
    proof -
      have ev: "AppendSubByte v n p = (if u = 0 then Ok (p\<lparr>accBit := normFn rs (accBit p) n, accumulator := ?w\<rparr>)
        else if 8 - u > n then Ok (p\<lparr>accBit := normFn rs (accBit p) n, accumulator := accumulator p OR normFn rs ?w u\<rparr>)
        else if n - (8 - u) = 0 then Ok (p\<lparr>accumulator := 0, bb_bytes := bb_bytes p @ [accumulator p OR normFn rs ?w u], accBit := accInit p\<rparr>)
        else Ok (p\<lparr>bb_bytes := bb_bytes p @ [accumulator p OR normFn rs ?w u], accBit := normFn rs (accInit p) (n - (8 - u)), accumulator := revFn rs ?w (8 - u)\<rparr>))"
        using 4 by (simp add: AppendSubByte_def ensure_ok [OF ok] align_ok [OF ok] Let_def)
      consider "u = 0" | "u > 0" "8 - u > n" | "u > 0" "u + n = 8" | "u > 0" "u + n > 8" by linarith
      then show ?thesis
      proof cases
        case 1
        then show ?thesis using 4 u acc_empty [of rs p] ok by (simp only: ev if_True) (simp add: chunked_def)
      next
        case 2
        then show ?thesis using u norm_norm [of rs "initOf rs" u n] by (simp only: ev if_False if_True) (simp add: chunked_def)
      next
        case 3
        then have "8 - u = n" by simp
        moreover have "revFn rs ?w n = 0" using w by (intro ob_eqI [of rs]) (simp add: ob_rev del: if_split)
        ultimately show ?thesis using 3 u by (simp add: ev chunked_def)
      next
        case four: 4
        then have "n - (8 - u) = u + n - 8" using u by simp
        then show ?thesis using four u by (simp add: ev chunked_def)
      qed
    qed
    moreover have "holds rs (chunked rs u ?w n p) (bs @ take n (obits False v))"
      using 4 w by (intro holds_chunk [OF ok bs]) auto
    ultimately show ?thesis by blast
  qed (use assms in \<open>simp add: AppendSubByte_def\<close>)
qed

subsection \<open>A reader is a list of bits\<close>

definition br_ok :: "bool \<Rightarrow> nat \<Rightarrow> bitReader \<Rightarrow> bool" where
  "br_ok rs u p \<longleftrightarrow> u \<le> 8 \<and> br_accInit p = initOf rs \<and> br_accBit p = normFn rs (initOf rs) u"

text \<open>The bits that are left to a reader of the given order and the bytes of its source.\<close>

definition left :: "bool \<Rightarrow> bitReader \<times> u8 list \<Rightarrow> bool list \<Rightarrow> bool" where
  "left rs ps xs \<longleftrightarrow> (\<exists>u. br_ok rs u (fst ps) \<and> drop u (obits rs (br_accumulator (fst ps))) @ concat (map (obits rs) (snd ps)) = xs)"

lemma br_rightShift_ok: "br_ok rs u p \<Longrightarrow> br_rightShift p = Ok rs"
  by (auto simp: br_ok_def br_rightShift_def init_simps)

lemma br_align_ok: assumes "br_ok rs u p" "u < 8" shows "br_align p = Ok (rs, u)"
proof -
  have u: "br_accInit p = initOf rs" "br_accBit p = normFn rs (initOf rs) u" using assms by (auto simp: br_ok_def)
  show ?thesis using br_rightShift_ok [OF assms(1)] marker_used [OF assms(2), of rs] marker_0 [of rs u] assms(2) by (cases rs) (simp_all add: br_align_def u)
qed

lemma new_left: "left (order = MSB) (NewBitArrayReader order bs) (concat (map (obits (order = MSB)) bs))"
proof -
  have "normFn (order = MSB) (initOf (order = MSB)) 8 = 0" by (simp add: marker_0)
  then have "br_ok (order = MSB) 8 (newBitReader order)" by (cases order) (simp_all add: br_ok_def newBitReader_def initOf_def)
  then show ?thesis unfolding left_def NewBitArrayReader_def by fastforce
qed

lemma ensure_left:
  assumes "left rs (p, s) xs" "xs \<noteq> []"
  shows "\<exists>p' s' u. br_ensure arrayRead p s = Ok ((p', s'), Inr ()) \<and> u < 8 \<and> br_ok rs u p' \<and> drop u (obits rs (br_accumulator p')) @ concat (map (obits rs) s') = xs"
proof -
  obtain u where ok: "br_ok rs u p" and xs: "drop u (obits rs (br_accumulator p)) @ concat (map (obits rs) s) = xs" using assms(1) by (auto simp: left_def)
  have u: "u \<le> 8" "br_accInit p = initOf rs" "br_accBit p = normFn rs (initOf rs) u" using ok by (auto simp: br_ok_def)
  show ?thesis
  proof (cases "u < 8")
    case True
    then have "br_ensure arrayRead p s = Ok ((p, s), Inr ())" using u marker_0 [of rs u] by (simp add: br_ensure_def)
    then show ?thesis using True ok xs by blast
  next
    case False
    then have "u = 8" using u(1) by simp
    then have "s \<noteq> []" using xs assms(2) by auto
    then obtain b bs where s: "s = b # bs" by (cases s) auto
    let ?p = "p\<lparr>br_accumulator := b, br_accBit := br_accInit p\<rparr>"
    have "br_ensure arrayRead p s = Ok ((?p, bs), Inr ())" using \<open>u = 8\<close> u marker_0 [of rs u] by (simp add: br_ensure_def arrayRead_def s init_simps)
    moreover have "br_ok rs 0 ?p" using u by (simp add: br_ok_def)
    moreover have "drop 0 (obits rs (br_accumulator ?p)) @ concat (map (obits rs) bs) = xs" using xs \<open>u = 8\<close> by (simp add: s)
    ultimately show ?thesis by (metis zero_less_numeral)
  qed
qed

lemma readNext_left:
  assumes "left rs (p, s) (x # xs)"
  shows "\<exists>ps v. readNext arrayRead p s = Ok (ps, Inr v) \<and> (v \<noteq> 0 \<longleftrightarrow> x) \<and> left rs ps xs"
proof -
  obtain q s' u where e: "br_ensure arrayRead p s = Ok ((q, s'), Inr ())" "u < 8" "br_ok rs u q" "drop u (obits rs (br_accumulator q)) @ concat (map (obits rs) s') = x # xs"
    using ensure_left [OF assms] by auto
  have m: "br_accInit q = initOf rs" "br_accBit q = normFn rs (initOf rs) u" using e(3) by (auto simp: br_ok_def)
  let ?m = "if rs then drop_bit 1 (br_accBit q) else push_bit 1 (br_accBit q)"
  have nx: "?m = normFn rs (initOf rs) (u + 1)"
    unfolding m(2) by (metis norm_norm normFn_def shiftLeft_def shiftRight_def)
  have d: "drop u (obits rs (br_accumulator q)) = ob rs (br_accumulator q) u # drop (u + 1) (obits rs (br_accumulator q))"
    using e(2) by (simp add: Cons_nth_drop_Suc [symmetric])
  then have x: "x = ob rs (br_accumulator q) u" "drop (u + 1) (obits rs (br_accumulator q)) @ concat (map (obits rs) s') = xs" using e(4) by simp_all
  have "br_accumulator q AND br_accBit q \<noteq> 0 \<longleftrightarrow> x"
  proof
    assume "br_accumulator q AND br_accBit q \<noteq> 0"
    then have "\<exists>i. i < 8 \<and> ob rs (br_accumulator q AND br_accBit q) i" by (metis ob_0 ob_eqI)
    then show x using x(1) by (auto simp: m(2) marker_eq)
  next
    assume x
    then have "ob rs (br_accumulator q AND br_accBit q) u" using x(1) e(2) by (simp add: m(2) marker_eq)
    then show "br_accumulator q AND br_accBit q \<noteq> 0" by (metis ob_0)
  qed
  moreover have "left rs (q\<lparr>br_accBit := ?m\<rparr>, s') xs"
    unfolding left_def using e(2) m(1) nx x(2) by (intro exI [of _ "u + 1"]) (simp add: br_ok_def)
  moreover have "readNext arrayRead p s = Ok ((q\<lparr>br_accBit := ?m\<rparr>, s'), Inr (br_accumulator q AND br_accBit q))"
    using e(1) br_align_ok [OF e(3,2)] by (simp add: readNext_def Let_def)
  ultimately show ?thesis by blast
qed

lemma rev_value: "(\<And>i. i < 8 \<Longrightarrow> ob rs w i \<longleftrightarrow> i < length xs \<and> xs ! i) \<Longrightarrow> (if rs then Reverse8 w else w) = byteOf xs"
proof (rule ob_eqI [of False])
  fix i assume a: "\<And>i. i < 8 \<Longrightarrow> ob rs w i \<longleftrightarrow> i < length xs \<and> xs ! i" and "i < (8 :: nat)"
  have "ob False (if rs then Reverse8 w else w) i \<longleftrightarrow> ob rs w i" using \<open>i < 8\<close> by (auto simp: ob_def bit_Reverse8)
  then show "ob False (if rs then Reverse8 w else w) i = ob False (byteOf xs) i" using a \<open>i < 8\<close> by (simp add: ob_byteOf)
qed

lemma readByte_left:
  assumes "left rs (p, s) xs" "8 \<le> length xs"
  shows "\<exists>ps. readByte arrayRead p s = Ok (ps, Inr (byteOf (take 8 xs))) \<and> left rs ps (drop 8 xs)"
proof -
  obtain u where ok: "br_ok rs u p" and xs: "drop u (obits rs (br_accumulator p)) @ concat (map (obits rs) s) = xs" using assms(1) by (auto simp: left_def)
  have u: "u \<le> 8" "br_accInit p = initOf rs" "br_accBit p = normFn rs (initOf rs) u" using ok by (auto simp: br_ok_def)
  have rs: "br_rightShift (p\<lparr>br_accBit := z\<rparr>) = Ok rs" for z using u(2) by (auto simp: br_rightShift_def init_simps)
  have m8: "normFn rs (initOf rs) 8 = 0" by (simp add: marker_0)
  have val: "(if rs then Reverse8 b else b) = byteOf (obits rs b)" for b by (rule rev_value) simp
  show ?thesis
  proof (cases "u = 0")
    case True
    have "readByte arrayRead p s = Ok ((p\<lparr>br_accBit := 0\<rparr>, s), Inr (if rs then Reverse8 (br_accumulator p) else br_accumulator p))"
      using True u rs [of 0] by (simp add: readByte_def init_simps)
    moreover have "left rs (p\<lparr>br_accBit := 0\<rparr>, s) (drop 8 xs)"
      unfolding left_def using True u m8 xs [symmetric] by (intro exI [of _ 8]) (simp add: br_ok_def)
    ultimately show ?thesis using val [of "br_accumulator p"] True xs [symmetric] by simp
  next
    case ne: False
    have "s \<noteq> []" using assms(2) ne xs [symmetric] by auto
    then obtain b bs where s: "s = b # bs" by (cases s) auto
    show ?thesis
    proof (cases "u = 8")
      case True
      have "br_rightShift p = Ok rs" by (rule br_rightShift_ok [OF ok])
      then have "readByte arrayRead p s = Ok ((p, bs), Inr (if rs then Reverse8 b else b))"
        using True u m8 by (simp add: readByte_def init_simps arrayRead_def s)
      moreover have "left rs (p, bs) (drop 8 xs)" unfolding left_def using ok True xs [symmetric] s by (intro exI [of _ 8]) simp
      ultimately show ?thesis using val [of b] True xs [symmetric] s by simp
    next
      case False
      then have u8: "u < 8" using u(1) by simp
      let ?p = "p\<lparr>br_accumulator := b\<rparr>"
      have okp: "br_ok rs u ?p" using ok by (simp add: br_ok_def)
      let ?w = "revFn rs (br_accumulator p) u OR normFn rs b (8 - u)"
      have "readByte arrayRead p s = Ok ((?p, bs), Inr (if rs then Reverse8 ?w else ?w))"
        using u u8 ne marker_0 [of rs u] marker_init [OF u8, of rs] br_align_ok [OF okp u8]
        by (simp add: readByte_def arrayRead_def s Let_def revFn_def normFn_def shiftLeft_def shiftRight_def)
      moreover have "(if rs then Reverse8 ?w else ?w) = byteOf (take 8 xs)"
      proof (rule rev_value)
        fix i assume "i < (8 :: nat)"
        have x: "xs = drop u (obits rs (br_accumulator p)) @ obits rs b @ concat (map (obits rs) bs)" using xs s by simp
        show "ob rs ?w i \<longleftrightarrow> i < length (take 8 xs) \<and> take 8 xs ! i"
          using \<open>i < 8\<close> assms(2) u8 by (auto simp: ob_rev ob_norm x nth_append add.commute)
      qed
      moreover have "left rs (?p, bs) (drop 8 xs)" unfolding left_def using okp u8 xs [symmetric] s by (intro exI [of _ u]) simp
      ultimately show ?thesis by auto
    qed
  qed
qed


text \<open>The first branch of a sub-byte keeps the bits before the new marker.\<close>

definition kept :: "bool \<Rightarrow> u8 \<Rightarrow> u8 \<Rightarrow> u8" where
  "kept rs m v = (if rs then if m \<noteq> 0 then v AND NOT (push_bit 1 m - 1) else v else v AND (m - 1))"

lemma markers_mask:
  "\<forall>k \<in> set [0..<9]. \<forall>i \<in> set [0..<8]. \<forall>rs \<in> {False, True}. ob rs (kept rs (normFn rs (initOf rs) k) 0xFF) i = (i < k)"
  by code_simp

lemma kept_and: "kept rs m v = v AND kept rs m 0xFF"
  by (rule ob_eqI [of False]) (simp add: kept_def)

lemma ob_kept: "k \<le> 8 \<Longrightarrow> ob rs (kept rs (normFn rs (initOf rs) k) v) i \<longleftrightarrow> i < k \<and> ob rs v i"
proof (cases "i < 8")
  case True
  assume "k \<le> 8"
  then have "k \<in> set [0..<9]" "i \<in> set [0..<8]" "rs \<in> {False, True}" using True by auto
  then have "ob rs (kept rs (normFn rs (initOf rs) k) 0xFF) i = (i < k)" using markers_mask by blast
  then show ?thesis by (subst kept_and) auto
qed (simp add: ob_high)

definition joined :: "bool \<Rightarrow> nat \<Rightarrow> nat \<Rightarrow> u8 \<Rightarrow> u8 \<Rightarrow> u8" where
  "joined rs u n v a =
     (if rs then push_bit (u - n) (ucast (drop_bit 8 (push_bit n (push_bit 8 (ucast (v AND drop_bit u 0xFF) :: u16) OR ucast a))))
      else drop_bit (u - n) (ucast (drop_bit n ((ucast (v AND push_bit u 0xFF) :: u16) OR push_bit 8 (ucast a)))))"

lemma bit_shift_FF: "bit (drop_bit u 0xFF :: u8) j \<longleftrightarrow> j + u < 8" "bit (push_bit u 0xFF :: u8) j \<longleftrightarrow> u \<le> j \<and> j < 8"
proof -
  have lt: "bit x j \<Longrightarrow> j < 8" for x :: u8 by (auto dest: bit_imp_le_length)
  have "ob False (revFn False 0xFF u) j \<longleftrightarrow> j + u < 8" "ob False (normFn False 0xFF u) j \<longleftrightarrow> j < 8 \<and> u \<le> j" by (simp_all only: ob_rev ob_norm ob_FF) auto
  then have "j < 8 \<and> bit (drop_bit u 0xFF :: u8) j \<longleftrightarrow> j + u < 8" "j < 8 \<and> bit (push_bit u 0xFF :: u8) j \<longleftrightarrow> j < 8 \<and> u \<le> j"
    by (simp_all only: ob_def revFn_def normFn_def shiftRight_def shiftLeft_def if_False)
  then show "bit (drop_bit u 0xFF :: u8) j \<longleftrightarrow> j + u < 8" "bit (push_bit u 0xFF :: u8) j \<longleftrightarrow> u \<le> j \<and> j < 8"
    using lt by blast+
qed

lemma ob_joined:
  assumes "u < 8" "0 < n" "n < u" "i < 8"
  shows "ob rs (joined rs u n v a) i \<longleftrightarrow> (if i < 8 - u then ob rs v (u + i) else i < 8 - u + n \<and> ob rs a (i - (8 - u)))"
proof (cases rs)
  case True
  define w where "w = (push_bit 8 (ucast (v AND drop_bit u 0xFF)) OR ucast a :: u16)"
  have w: "bit w j \<longleftrightarrow> (if j < 8 then bit a j else j < 16 \<and> j - 8 + u < 8 \<and> bit v (j - 8))" for j
    by (auto simp: w_def bit_or_iff bit_push_bit_iff bit_ucast_iff bit_and_iff bit_shift_FF add.commute dest: bit_imp_le_length)
  define x where "x = (ucast (drop_bit 8 (push_bit n w)) :: u8)"
  have x: "bit x j \<longleftrightarrow> j < 8 \<and> bit w (j + 8 - n)" for j
    using assms(1,3) w [of "j + 8 - n"] by (auto simp: x_def bit_ucast_iff bit_drop_bit_eq bit_push_bit_iff add.commute dest: bit_imp_le_length)
  have j: "joined True u n v a = push_bit (u - n) x" by (simp only: joined_def if_True w_def x_def)
  have "bit (joined True u n v a) (7 - i) \<longleftrightarrow> u - n \<le> 7 - i \<and> bit w (7 - i - (u - n) + 8 - n)"
    using assms x [of "7 - i - (u - n)"] by (auto simp: j bit_push_bit_iff)
  also have "\<dots> \<longleftrightarrow> (if i < 8 - u then bit v (7 - (u + i)) else i < 8 - u + n \<and> bit a (7 - (i - (8 - u))))"
  proof (cases "i < 8 - u")
    case True
    define j where "j = 7 - (u + i)"
    have "7 - i - (u - n) + 8 - n = 8 + j" "u - n \<le> 7 - i" "j + u < 8" using True assms unfolding j_def by linarith+
    then show ?thesis using True w [of "8 + j"] by (simp add: j_def [symmetric])
  next
    case False
    then have "u - n \<le> 7 - i \<longleftrightarrow> i < 8 - u + n" using assms by linarith
    moreover have "i < 8 - u + n \<Longrightarrow> 7 - i - (u - n) + 8 - n = 7 - (i - (8 - u))" using False assms by linarith
    ultimately show ?thesis using False assms w by auto
  qed
  finally show ?thesis using True assms by (auto simp: ob_def)
next
  case False
  define w where "w = ((ucast (v AND push_bit u 0xFF) :: u16) OR push_bit 8 (ucast a))"
  have w: "bit w j \<longleftrightarrow> (if j < 8 then u \<le> j \<and> bit v j else j < 16 \<and> bit a (j - 8))" for j
    by (auto simp: w_def bit_or_iff bit_push_bit_iff [of 8] bit_ucast_iff bit_and_iff bit_shift_FF dest: bit_imp_le_length)
  define x where "x = (ucast (drop_bit n w) :: u8)"
  have x: "bit x j \<longleftrightarrow> j < 8 \<and> bit w (n + j)" for j
    by (auto simp: x_def bit_ucast_iff bit_drop_bit_eq)
  have j: "joined False u n v a = drop_bit (u - n) x" by (simp only: joined_def if_False w_def x_def)
  have "bit (joined False u n v a) i \<longleftrightarrow> u - n + i < 8 \<and> bit w (u + i)"
    using assms x [of "u - n + i"] by (simp add: j bit_drop_bit_eq)
  also have "\<dots> \<longleftrightarrow> (if i < 8 - u then bit v (u + i) else i < 8 - u + n \<and> bit a (i - (8 - u)))"
  proof (cases "i < 8 - u")
    case True
    then show ?thesis using assms w [of "u + i"] by auto
  next
    case False
    then have "u + i - 8 = i - (8 - u)" "u - n + i < 8 \<longleftrightarrow> i < 8 - u + n" "\<not> u + i < 8" "u + i < 16" using assms by linarith+
    then show ?thesis using False w [of "u + i"] by simp
  qed
  finally show ?thesis using False assms by (auto simp: ob_def)
qed

lemma readSubByte_left:
  assumes "left rs (p, s) xs" "n \<le> 8" "n \<le> length xs"
  shows "\<exists>ps. readSubByte n arrayRead p s = Ok (ps, Inr (byteOf (take n xs))) \<and> left rs ps (drop n xs)"
proof -
  consider "n = 0" | "n = 1" | "n = 8" | "2 \<le> n" "n < 8" using assms(2) by linarith
  then show ?thesis
  proof cases
    case 1
    then show ?thesis using assms(1) by (simp add: readSubByte_def byteOf_def)
  next
    case 2
    then obtain x ys where xs: "xs = x # ys" using assms(3) by (cases xs) auto
    obtain ps v where r: "readNext arrayRead p s = Ok (ps, Inr v)" "v \<noteq> 0 \<longleftrightarrow> x" "left rs ps ys" using readNext_left assms(1) xs by blast
    then show ?thesis using 2 xs by (auto simp: readSubByte_def byteOf_def)
  next
    case 3
    then show ?thesis using readByte_left [OF assms(1)] assms(3) by (simp add: readSubByte_def)
  next
    case 4
    have "xs \<noteq> []" using 4 assms(3) by auto
    then obtain q s' u where e: "br_ensure arrayRead p s = Ok ((q, s'), Inr ())" "u < 8" "br_ok rs u q" "drop u (obits rs (br_accumulator q)) @ concat (map (obits rs) s') = xs"
      using ensure_left [OF assms(1)] by blast
    have m: "br_accInit q = initOf rs" "br_accBit q = normFn rs (initOf rs) u" using e(3) by (auto simp: br_ok_def)
    show ?thesis
    proof (cases "n \<le> 8 - u")
      case True
      let ?m = "normFn rs (initOf rs) (u + n)"
      let ?w = "revFn rs (kept rs ?m (br_accumulator q)) u"
      have mm: "(if rs then drop_bit n (br_accBit q) else push_bit n (br_accBit q)) = ?m"
        unfolding m(2) by (metis norm_norm normFn_def shiftLeft_def shiftRight_def)
      have r: "readSubByte n arrayRead p s = Ok ((q\<lparr>br_accBit := ?m\<rparr>, s'), Inr (if rs then Reverse8 ?w else ?w))"
        using 4 True e(1) br_align_ok [OF e(3,2)] mm by (simp add: readSubByte_def Let_def kept_def revFn_def shiftLeft_def shiftRight_def split: if_splits)
      have "(if rs then Reverse8 ?w else ?w) = byteOf (take n xs)"
      proof (rule rev_value)
        fix i assume "i < (8 :: nat)"
        have "ob rs ?w i \<longleftrightarrow> i < n \<and> i + u < 8 \<and> ob rs (br_accumulator q) (i + u)"
          using ob_kept [of "u + n" rs "br_accumulator q" "i + u"] True e(2) by (auto simp: ob_rev)
        then show "ob rs ?w i \<longleftrightarrow> i < length (take n xs) \<and> take n xs ! i"
          using True e(2) assms(3) by (auto simp: e(4) [symmetric] nth_append add.commute)
      qed
      moreover have "left rs (q\<lparr>br_accBit := ?m\<rparr>, s') (drop n xs)"
        unfolding left_def using True e(2) m(1) by (intro exI [of _ "u + n"]) (simp add: br_ok_def e(4) [symmetric] add.commute)
      ultimately show ?thesis using r by auto
    next
      case False
      let ?k = "n - (8 - u)"
      have "s' \<noteq> []" using False assms(3) e(2) by (auto simp: e(4) [symmetric])
      then obtain b bs where s': "s' = b # bs" by (cases s') auto
      let ?q = "q\<lparr>br_accBit := initOf rs, br_accumulator := b\<rparr>"
      have e2: "br_ensure arrayRead (q\<lparr>br_accBit := 0\<rparr>) s' = Ok ((?q, bs), Inr ())"
        using m(1) by (simp add: br_ensure_def arrayRead_def s' init_simps)
      let ?w = "joined rs u ?k (br_accumulator q) b"
      have r: "readSubByte n arrayRead p s = Ok ((?q\<lparr>br_accBit := normFn rs (initOf rs) ?k\<rparr>, bs), Inr (if rs then Reverse8 ?w else ?w))"
        using 4 False e(1) br_align_ok [OF e(3,2)] e2 by (simp add: readSubByte_def Let_def joined_def normFn_def shiftLeft_def shiftRight_def split: if_splits)
      have k: "0 < ?k" "?k < u" using False 4 e(2) by auto
      have x: "xs = drop u (obits rs (br_accumulator q)) @ obits rs b @ concat (map (obits rs) bs)" using e(4) s' by simp
      have "(if rs then Reverse8 ?w else ?w) = byteOf (take n xs)"
      proof (rule rev_value)
        fix i assume "i < (8 :: nat)"
        have "take n xs ! i = (if i < 8 - u then ob rs (br_accumulator q) (u + i) else ob rs b (i - (8 - u)))" if "i < n"
        proof (cases "i < 8 - u")
          case True
          then show ?thesis using that e(2) by (simp add: x nth_append)
        next
          case False
          then show ?thesis using that 4 e(2) by (simp add: x nth_append)
        qed
        moreover have "8 - u + ?k = n" "i < length (take n xs) \<longleftrightarrow> i < n" "i < 8 - u \<Longrightarrow> i < n" using False assms(3) by auto
        ultimately show "ob rs ?w i \<longleftrightarrow> i < length (take n xs) \<and> take n xs ! i"
          using ob_joined [OF e(2) k \<open>i < 8\<close>, of rs "br_accumulator q" b] by (cases "i < 8 - u"; cases "i < n") (simp_all del: nth_take)
      qed
      moreover have "left rs (?q\<lparr>br_accBit := normFn rs (initOf rs) ?k\<rparr>, bs) (drop n xs)"
        unfolding left_def using k e(2) m(1) False by (intro exI [of _ ?k]) (simp add: br_ok_def x)
      ultimately show ?thesis using r by auto
    qed
  qed
qed

subsection \<open>Runs of bits\<close>

lemma obits_const: "obits rs 0 = replicate 8 False" "obits rs 0xFF = replicate 8 True"
  by (rule nth_equalityI; simp)+

lemma concat_const: "concat (replicate k (replicate 8 x)) = replicate (8 * k) x"
  by (induction k) (simp_all add: replicate_add)

lemma ok_simps: "bb_ok rs 0 p \<Longrightarrow> accBit p = initOf rs" "bb_ok rs u p \<Longrightarrow> accInit p = initOf rs" "bb_ok rs u p \<Longrightarrow> u < 8"
  by (simp_all add: bb_ok_def)

text \<open>A run of equal bits from an aligned position.\<close>

lemma run_aligned:
  assumes "bb_ok rs 0 p" "builderBits rs 0 p = bs" "k = n mod 8" "b \<longrightarrow> x = 0xFF" "\<not> b \<longrightarrow> x = 0"
  defines "q \<equiv> (if k > 0 then p\<lparr>accBit := normFn rs (initOf rs) k, accumulator := revFn rs x (8 - k)\<rparr> else p)\<lparr>bb_bytes := bb_bytes p @ replicate (n div 8) x\<rparr>"
  shows "holds rs q (bs @ replicate n b)"
proof -
  have a: "accumulator p = 0" by (rule acc_empty [OF assms(1)])
  have k: "k < 8" using assms(3) by simp
  have ox: "obits rs x = replicate 8 b" using assms(4,5) obits_const [of rs] by (cases b) simp_all
  have obx: "ob rs x i \<longleftrightarrow> i < 8 \<and> b" for i using assms(4,5) by (cases b) auto
  have acc: "ob rs (accumulator q) i \<longleftrightarrow> i < k \<and> b" for i using a k by (auto simp: q_def ob_rev obx)
  have "bb_ok rs k q" using assms(1) k acc by (auto simp: bb_ok_def q_def)
  moreover have "builderBits rs k q = bs @ replicate n b"
  proof -
    have t: "take k (obits rs (accumulator q)) = replicate k b" using k acc by (intro nth_equalityI) simp_all
    have "bs = concat (map (obits rs) (bb_bytes p))" using assms(2) a by (simp add: builderBits_def)
    moreover have "bb_bytes q = bb_bytes p @ replicate (n div 8) x" by (simp add: q_def)
    moreover have "replicate n b = replicate (8 * (n div 8)) b @ replicate k b" using assms(3) by (simp add: replicate_add [symmetric])
    ultimately show ?thesis using t by (simp add: builderBits_def ox concat_const)
  qed
  ultimately show ?thesis unfolding holds_def by blast
qed

lemma clear_acc: "accumulator q = 0 \<Longrightarrow> q\<lparr>accBit := a, accumulator := 0, bb_bytes := b\<rparr> = q\<lparr>accBit := a, bb_bytes := b\<rparr>"
  by (cases q) simp

lemma bb_bytes_accBit: "bb_bytes (q\<lparr>accBit := a\<rparr>) = bb_bytes q"
  by simp

lemma appendN0_holds:
  assumes "holds rs p bs" "0 \<le> n"
  shows "\<exists>p'. appendN0 n p = Ok p' \<and> holds rs p' (bs @ replicate (nat n) False)"
proof -
  obtain u where ok: "bb_ok rs u p" and bs: "builderBits rs u p = bs" using assms by (auto simp: holds_def)
  have u: "u < 8" "accInit p = initOf rs" "accBit p = normFn rs (initOf rs) u" using ok by (auto simp: bb_ok_def)
  have nm: "nat (m mod 8) = nat m mod 8" "nat (m div 8) = nat m div 8" if "m \<ge> 0" for m :: int
    using that by (simp_all add: nat_mod_distrib nat_div_distrib)
  define tail where "tail m p = (let p = (if m mod 8 > 0 then p\<lparr>accBit := normFn rs (accBit p) (nat (m mod 8))\<rparr> else p) in
    p\<lparr>bb_bytes := bb_bytes p @ replicate (nat (m div 8)) 0\<rparr>)" for m :: int and p :: BitBuilder
  have tail: "holds rs (tail m q) (cs @ replicate (nat m) False)" if q: "bb_ok rs 0 q" "builderBits rs 0 q = cs" and m: "0 \<le> m" for q cs m
  proof -
    have "tail m q = (if nat m mod 8 > 0 then q\<lparr>accBit := normFn rs (initOf rs) (nat m mod 8), accumulator := revFn rs 0 (8 - nat m mod 8)\<rparr> else q)
        \<lparr>bb_bytes := bb_bytes q @ replicate (nat m div 8) 0\<rparr>"
    proof -
      have z: "revFn rs 0 k = 0" for k by (rule ob_eqI [of rs]) (simp add: ob_rev)
      have "m mod 8 > 0 \<longleftrightarrow> nat m mod 8 > 0" using nm(1) [OF m] by linarith
      moreover note clear_acc [OF acc_empty [OF q(1)]]
      ultimately show ?thesis unfolding tail_def Let_def nm [OF m] ok_simps(1) [OF q(1)] z
        by (cases "nat m mod 8 > 0") (simp_all only: if_True if_False BitBuilder.simps bb_bytes_accBit)
    qed
    then show ?thesis using run_aligned [OF q refl, of False 0] by simp
  qed
  have ev: "appendN0 n p =
     (if u = 0 then Ok (tail n p)
      else if 8 - int u > n then Ok (p\<lparr>accBit := normFn rs (accBit p) (nat n)\<rparr>)
      else let q = p\<lparr>bb_bytes := bb_bytes p @ [accumulator p], accumulator := 0, accBit := accInit p\<rparr> in
        if n - (8 - int u) = 0 then Ok q else Ok (tail (n - (8 - int u)) q))"
    using assms(2) by (simp add: appendN0_def ensure_ok [OF ok] align_ok [OF ok] Let_def tail_def)
  consider "u = 0" | "u > 0" "8 - int u > n" | "u > 0" "8 - int u \<le> n" by linarith
  then show ?thesis
  proof cases
    case 1
    then show ?thesis using tail [of p bs n] ok bs assms(2) ev by simp
  next
    case 2
    have "p\<lparr>accBit := normFn rs (accBit p) (nat n)\<rparr> = chunked rs u 0 (nat n) p"
      using 2 u assms(2) norm_norm [of rs "initOf rs" u "nat n"] by (simp add: chunked_def normFn_def shiftLeft_def shiftRight_def)
    moreover have "holds rs (chunked rs u 0 (nat n) p) (bs @ replicate (nat n) False)" using 2 by (intro holds_chunk [OF ok bs]) auto
    ultimately show ?thesis using ev 2 by simp
  next
    case 3
    let ?q = "p\<lparr>bb_bytes := bb_bytes p @ [accumulator p], accumulator := 0, accBit := accInit p\<rparr>"
    have c: "?q = chunked rs u 0 (8 - u) p"
      using u 3 by (simp add: chunked_def normFn_def revFn_def shiftLeft_def shiftRight_def)
    have q: "bb_ok rs 0 ?q" "builderBits rs 0 ?q = bs @ replicate (8 - u) False"
      using chunked_holds [OF ok bs, of "replicate (8 - u) False" "8 - u" 0] u unfolding c by simp_all
    show ?thesis
    proof (cases "n = 8 - int u")
      case True
      then have "nat n = 8 - u" by simp
      then show ?thesis using ev 3 True q unfolding holds_def by (simp add: Let_def) blast
    next
      case False
      have r: "nat (n - (8 - int u)) + (8 - u) = nat n" using 3 u by simp
      have "holds rs (tail (n - (8 - int u)) ?q) ((bs @ replicate (8 - u) False) @ replicate (nat (n - (8 - int u))) False)" using 3 by (intro tail q) simp
      then have "holds rs (tail (n - (8 - int u)) ?q) (bs @ replicate (nat n) False)" using r by (simp add: replicate_add [symmetric] add.commute)
      then show ?thesis using ev 3 False by (simp add: Let_def)
    qed
  qed
qed

text \<open>
  A run of ones that ends inside the current byte marks bits behind its end: the filler has as many ones as the
  whole used part of the byte, not only as the run.
\<close>

lemma appendN1_spills:
  "bnd (bb_Append False (NewBitBuilder LSB)) (\<lambda>p. bnd (AppendN 2 True p) (\<lambda>p. bnd (AppendN 5 False p) DoneToBytes)) = Ok [0x0E]"
  "bnd (bb_Append False (NewBitBuilder LSB)) (\<lambda>p. bnd (bb_Append True p) (\<lambda>p. bnd (bb_Append True p) (\<lambda>p. bnd (AppendN 5 False p) DoneToBytes))) = Ok [0x06]"
  by code_simp+

text \<open>In the order from the most significant bit, a bit is set at the wrong place.\<close>

lemma set_misses_MSB:
  "bnd (bb_AppendByte 0 (NewBitBuilder MSB)) (\<lambda>p. bnd (SetBit 0 1 p) DoneToBytes) = Ok [0x01]"
  "bnd (bb_AppendByte 0 (NewBitBuilder MSB)) (\<lambda>p. bnd (SetBit 3 1 p) DoneToBytes) = Ok [0x00]"
  by code_simp+

text \<open>The length that \<open>Done\<close> returns does not depend on the bytes.\<close>

lemma done_length:
  assumes "bb_ok rs u p"
  shows "\<exists>q. Done p = Ok (q, bb_bytes p @ (if u > 0 then [accumulator p] else []), if u > 0 then int u - 8 else 0)"
  by (simp add: Done_def align_ok [OF assms] Let_def)

subsection \<open>A written stream is read back\<close>

text \<open>
  What a client writes: single bits, bytes and numbers of at most eight bits. The client reads with the same layout; the
  value in a layout is not looked at.
\<close>

datatype bitItem = OneBit bool | WholeByte u8 | SubByte u8 nat

fun item_ok :: "bitItem \<Rightarrow> bool" where
  "item_ok (SubByte v n) \<longleftrightarrow> n \<le> 8"
| "item_ok _ \<longleftrightarrow> True"

fun item_bits :: "bitItem \<Rightarrow> bool list" where
  "item_bits (OneBit b) = [b]"
| "item_bits (WholeByte v) = obits False v"
| "item_bits (SubByte v n) = take n (obits False v)"

fun item_value :: "bitItem \<Rightarrow> bitItem" where
  "item_value (SubByte v n) = SubByte (take_bit n v) n"
| "item_value i = i"

fun put_item :: "bitItem \<Rightarrow> BitBuilder \<Rightarrow> BitBuilder res" where
  "put_item (OneBit b) p = bb_Append b p"
| "put_item (WholeByte v) p = bb_AppendByte v p"
| "put_item (SubByte v n) p = AppendSubByte v n p"

fun get_item :: "bitItem \<Rightarrow> bitReader \<times> u8 list \<Rightarrow> ((bitReader \<times> u8 list) \<times> (string + bitItem)) res" where
  "get_item (OneBit _) (p, s) = bnd (ReadBool arrayRead p s) (\<lambda>(ps, r). Ok (ps, map_sum id OneBit r))"
| "get_item (WholeByte _) (p, s) = bnd (readByte arrayRead p s) (\<lambda>(ps, r). Ok (ps, map_sum id WholeByte r))"
| "get_item (SubByte _ n) (p, s) = bnd (readSubByte n arrayRead p s) (\<lambda>(ps, r). Ok (ps, map_sum id (\<lambda>v. SubByte v n) r))"

fun put_all :: "('i \<Rightarrow> 'w \<Rightarrow> 'w res) \<Rightarrow> 'i list \<Rightarrow> 'w \<Rightarrow> 'w res" where
  "put_all put [] w = Ok w"
| "put_all put (i # is) w = bnd (put i w) (put_all put is)"

fun get_all :: "('i \<Rightarrow> 'r \<Rightarrow> ('r \<times> (string + 'i)) res) \<Rightarrow> 'i list \<Rightarrow> 'r \<Rightarrow> ('r \<times> (string + 'i list)) res" where
  "get_all get [] r = Ok (r, Inr [])"
| "get_all get (i # is) r = bnd (get i r) (\<lambda>(r, x).
     case x of Inl e \<Rightarrow> Ok (r, Inl e) | Inr v \<Rightarrow> bnd (get_all get is r) (\<lambda>(r, y). Ok (r, map_sum id ((#) v) y)))"

text \<open>What a writer and a reader promise each other: items are sequences of bits, appended at the end and taken from the front.\<close>

locale bit_channel =
  fixes sink :: "'w \<Rightarrow> bool list \<Rightarrow> bool" and source :: "'r \<Rightarrow> bool list \<Rightarrow> bool"
    and put :: "'i \<Rightarrow> 'w \<Rightarrow> 'w res" and get :: "'i \<Rightarrow> 'r \<Rightarrow> ('r \<times> (string + 'i)) res"
    and ok :: "'i \<Rightarrow> bool" and bits :: "'i \<Rightarrow> bool list" and val :: "'i \<Rightarrow> 'i"
  assumes put_bits: "\<lbrakk>sink w xs; ok i\<rbrakk> \<Longrightarrow> \<exists>w'. put i w = Ok w' \<and> sink w' (xs @ bits i)"
    and get_bits: "\<lbrakk>source r (bits i @ xs); ok i\<rbrakk> \<Longrightarrow> \<exists>r'. get i r = Ok (r', Inr (val i)) \<and> source r' xs"
begin

lemma put_stream: "\<lbrakk>sink w xs; list_all ok is\<rbrakk> \<Longrightarrow> \<exists>w'. put_all put is w = Ok w' \<and> sink w' (xs @ concat (map bits is))"
proof (induction "is" arbitrary: w xs)
  case (Cons i "is")
  obtain w' where w: "put i w = Ok w'" "sink w' (xs @ bits i)" using put_bits Cons.prems by fastforce
  then show ?case using Cons.IH [OF w(2)] Cons.prems(2) by auto
qed simp

lemma get_stream: "\<lbrakk>source r (concat (map bits is) @ xs); list_all ok is\<rbrakk> \<Longrightarrow> \<exists>r'. get_all get is r = Ok (r', Inr (map val is)) \<and> source r' xs"
proof (induction "is" arbitrary: r)
  case (Cons i "is")
  obtain r' where r: "get i r = Ok (r', Inr (val i))" "source r' (concat (map bits is) @ xs)" using get_bits Cons.prems by fastforce
  then show ?case using Cons.IH [OF r(2)] Cons.prems(2) by auto
qed simp

end

lemma take_bit_byteOf: "n \<le> 8 \<Longrightarrow> byteOf (take n (obits False v)) = take_bit n v"
proof (rule ob_eqI [of False])
  fix i assume "n \<le> 8" "i < (8 :: nat)"
  then have "ob False (byteOf (take n (obits False v))) i \<longleftrightarrow> i < n \<and> ob False v i" by (auto simp: ob_byteOf)
  then show "ob False (byteOf (take n (obits False v))) i = ob False (take_bit n v) i" by (auto simp: ob_def bit_take_bit_iff)
qed

lemma put_item_bits: "\<lbrakk>holds rs p xs; item_ok i\<rbrakk> \<Longrightarrow> \<exists>p'. put_item i p = Ok p' \<and> holds rs p' (xs @ item_bits i)"
  using Append_holds AppendByte_holds AppendSubByte_holds by (cases i) auto

lemma get_item_bits: "\<lbrakk>left rs r (item_bits i @ xs); item_ok i\<rbrakk> \<Longrightarrow> \<exists>r'. get_item i r = Ok (r', Inr (item_value i)) \<and> left rs r' xs"
proof (cases r)
  case (Pair p s)
  assume l: "left rs r (item_bits i @ xs)" and ok: "item_ok i"
  show ?thesis
  proof (cases i)
    case (OneBit b)
    then obtain ps v where "readNext arrayRead p s = Ok (ps, Inr v)" "v \<noteq> 0 \<longleftrightarrow> b" "left rs ps xs" using readNext_left [of rs p s b xs] l Pair by auto
    then show ?thesis using OneBit Pair by (simp add: ReadBool_def)
  next
    case (WholeByte v)
    then show ?thesis using readByte_left [of rs p s "obits False v @ xs"] l Pair by (auto simp: byteOf_obits)
  next
    case (SubByte v n)
    then show ?thesis using readSubByte_left [of rs p s "take n (obits False v) @ xs" n] l ok Pair by (auto simp: take_bit_byteOf)
  qed
qed

interpretation bit_stream: bit_channel "holds rs" "left rs" put_item get_item item_ok item_bits item_value for rs
  by unfold_locales (blast intro: put_item_bits get_item_bits)+

text \<open>The bytes of a finished builder are its bits and zeros up to the end of the last byte.\<close>

lemma bytes_bits: "length (concat (map (obits rs) bs)) = 8 * length bs"
  by (induction bs) simp_all

lemma done_bytes:
  assumes "holds rs p xs"
  shows "\<exists>bs. DoneToBytes p = Ok bs \<and> length bs = (length xs + 7) div 8 \<and> concat (map (obits rs) bs) = xs @ replicate (8 * length bs - length xs) False"
proof -
  obtain u where ok: "bb_ok rs u p" and xs: "builderBits rs u p = xs" using assms by (auto simp: holds_def)
  have u: "u < 8" using ok by (simp add: bb_ok_def)
  let ?bs = "bb_bytes p @ (if u > 0 then [accumulator p] else [])"
  have d: "DoneToBytes p = Ok ?bs" using done_length [OF ok] by (auto simp: DoneToBytes_def)
  have len: "length xs = 8 * length (bb_bytes p) + u" using u xs [symmetric] by (simp add: builderBits_def bytes_bits)
  have "obits rs (accumulator p) = take u (obits rs (accumulator p)) @ replicate (8 - u) False"
    by (rule complete_byte [OF ok]) (use ok in \<open>auto simp: bb_ok_def\<close>)
  then have "concat (map (obits rs) ?bs) = xs @ replicate (8 * length ?bs - length xs) False"
    using xs u unfolding len by (auto simp: builderBits_def)
  moreover have "length ?bs = (length xs + 7) div 8" using u by (simp add: len) linarith
  ultimately show ?thesis using d by blast
qed

text \<open>
  C28: What a client writes with a new bit builder of either order by \<^verbatim>\<open>Append\<close>, \<^verbatim>\<open>AppendByte\<close> and \<^verbatim>\<open>AppendSubByte\<close>, that is bit by bit, byte by byte or in numbers
  of at most eight bits at any alignment, it reads back from the bytes with the reader of the same order and the same layout: the
  writer and the reader succeed, every item comes back (a number cut to its width), and the bytes are as many as the bits need.  The other ways to write,
  \<^verbatim>\<open>AppendN\<close> and \<^verbatim>\<open>SetBit\<close>, are not covered: see \<^verbatim>\<open>appendN1_spills\<close> and \<^verbatim>\<open>set_misses_MSB\<close>.
\<close>
theorem bit_stream_roundtrip:
  assumes "list_all item_ok is"
  shows "\<exists>p bs r. put_all put_item is (NewBitBuilder order) = Ok p \<and> DoneToBytes p = Ok bs
    \<and> length bs = (length (concat (map item_bits is)) + 7) div 8
    \<and> get_all get_item is (NewBitArrayReader order bs) = Ok (r, Inr (map item_value is))"
proof -
  let ?rs = "order = MSB" and ?xs = "concat (map item_bits is)"
  obtain p where p: "put_all put_item is (NewBitBuilder order) = Ok p" "holds ?rs p ?xs"
    using bit_stream.put_stream [OF new_holds assms] by auto
  obtain bs where bs: "DoneToBytes p = Ok bs" "length bs = (length ?xs + 7) div 8" "concat (map (obits ?rs) bs) = ?xs @ replicate (8 * length bs - length ?xs) False"
    using done_bytes [OF p(2)] by auto
  have "left ?rs (NewBitArrayReader order bs) (?xs @ replicate (8 * length bs - length ?xs) False)" using new_left [of order bs] bs(3) by simp
  then show ?thesis using bit_stream.get_stream [OF _ assms] p(1) bs(1,2) by blast
qed

theorem bit_stream_roundtrip_witness:
  "list_all item_ok [OneBit True, SubByte 0x1D 5, WholeByte 0xC4, SubByte 0x7F 3]
   \<and> (\<exists>p bs r. put_all put_item [OneBit True, SubByte 0x1D 5, WholeByte 0xC4, SubByte 0x7F 3] (NewBitBuilder MSB) = Ok p \<and> DoneToBytes p = Ok bs
     \<and> length bs = 3 \<and> get_all get_item [OneBit True, SubByte 0x1D 5, WholeByte 0xC4, SubByte 0x7F 3] (NewBitArrayReader MSB bs)
       = Ok (r, Inr [OneBit True, SubByte 0x1D 5, WholeByte 0xC4, SubByte 0x07 3]))"
  using bit_stream_roundtrip [of "[OneBit True, SubByte 0x1D 5, WholeByte 0xC4, SubByte 0x7F 3]" MSB] by simp

subsection \<open>Bits by index\<close>

text \<open>The bit at a position of a byte slice, in the order from the least significant bit.\<close>

definition bitAt :: "u8 list \<Rightarrow> nat \<Rightarrow> bool" where
  "bitAt bs i \<longleftrightarrow> i div 8 < length bs \<and> bit (bs ! (i div 8)) (i mod 8)"

lemma bitAt_concat: "bitAt bs i \<longleftrightarrow> i < 8 * length bs \<and> concat (map (obits False) bs) ! i"
proof (induction bs arbitrary: i)
  case (Cons b bs)
  show ?case
  proof (cases "i < 8")
    case True
    then show ?thesis by (simp add: bitAt_def nth_append ob_def)
  next
    case False
    then have "i div 8 = Suc ((i - 8) div 8)" "i mod 8 = (i - 8) mod 8" by (simp_all add: le_div_geq le_mod_geq)
    then have "bitAt (b # bs) i = bitAt bs (i - 8)" by (simp add: bitAt_def)
    then show ?thesis using Cons.IH [of "i - 8"] False by (auto simp: nth_append)
  qed
qed (simp add: bitAt_def)

lemma holds_bitAt:
  assumes "holds False p bs"
  shows "bitAt (bb_bytes p @ [accumulator p]) i \<longleftrightarrow> i < length bs \<and> bs ! i"
proof -
  obtain u where ok: "bb_ok False u p" and bs: "builderBits False u p = bs" using assms by (auto simp: holds_def)
  have u: "u < 8" using ok by (simp add: bb_ok_def)
  let ?n = "8 * length (bb_bytes p)"
  have len: "length (concat (map (obits False) (bb_bytes p))) = ?n" by (rule bytes_bits)
  have bl: "length bs = ?n + u" using u bs [symmetric] by (simp add: builderBits_def bytes_bits)
  show ?thesis
  proof (cases "i < ?n")
    case True
    then show ?thesis using len bl bs [symmetric] by (simp add: bitAt_concat nth_append builderBits_def)
  next
    case False
    have "i < ?n + 8 \<and> obits False (accumulator p) ! (i - ?n) \<longleftrightarrow> i < ?n + u \<and> take u (obits False (accumulator p)) ! (i - ?n)"
    proof (cases "i < ?n + u")
      case True
      then show ?thesis using u False by simp
    next
      case False
      then have "i < ?n + 8 \<Longrightarrow> \<not> ob False (accumulator p) (i - ?n)" using ok by (simp add: bb_ok_def)
      then show ?thesis using False by auto
    qed
    then show ?thesis using False len bl bs [symmetric] by (simp add: bitAt_concat nth_append builderBits_def add.commute)
  qed
qed

lemma BitLen_ok: assumes "holds rs p bs" shows "bb_BitLen p = Ok (length bs)"
proof -
  obtain u where ok: "bb_ok rs u p" and bs: "builderBits rs u p = bs" using assms by (auto simp: holds_def)
  have "length bs = 8 * length (bb_bytes p) + u" using ok bs [symmetric] by (simp add: builderBits_def bytes_bits bb_ok_def)
  then show ?thesis by (simp add: bb_BitLen_def AlignOffset_def align_ok [OF ok])
qed

text \<open>Setting one bit in place.\<close>

definition markBit :: "nat \<Rightarrow> bool \<Rightarrow> u8 \<Rightarrow> u8" where
  "markBit k b x = (let m = push_bit k 1 in if b then x OR m else x AND NOT m)"

lemma obits_markBit: "k < 8 \<Longrightarrow> obits False (markBit k b x) = (obits False x)[k := b]"
proof (rule nth_equalityI)
  fix i assume "k < 8" "i < length (obits False (markBit k b x))"
  moreover have "bit (push_bit k 1 :: u8) i \<longleftrightarrow> i = k" if "i < 8" "k < 8" using that by (auto simp only: bit_push_bit_iff bit_1_iff) simp_all
  ultimately show "obits False (markBit k b x) ! i = (obits False x)[k := b] ! i"
    by (auto simp: markBit_def Let_def ob_def nth_list_update bit_or_iff bit_and_iff bit_not_iff simp del: push_bit_of_1)
qed simp

lemma Set_holds:
  assumes "holds False p bs" "0 \<le> index"
  shows "\<exists>p'. bb_Set index b False p = Ok p' \<and>
    holds False p' (if nat index < length bs then bs[nat index := b] else bs @ replicate (nat index - length bs) False @ [b])"
proof -
  obtain u where ok: "bb_ok False u p" and bs: "builderBits False u p = bs" using assms(1) by (auto simp: holds_def)
  have u: "u < 8" "length bs = 8 * length (bb_bytes p) + u" using ok bs [symmetric] by (auto simp: builderBits_def bytes_bits bb_ok_def)
  show ?thesis
  proof (cases "nat index < length bs")
    case False
    define d where "d = nat index - length bs"
    obtain q where q: "(if int d > 0 then appendN0 (int d) p else Ok p) = Ok q" "holds False q (bs @ replicate d False)"
    proof (cases "d = 0")
      case True
      then show ?thesis using that [of p] assms(1) by simp
    next
      case False
      then show ?thesis using that appendN0_holds [OF assms(1), of "int d"] by auto
    qed
    moreover have "index - int (length bs) = int d" using False assms(2) by (simp add: d_def)
    moreover have "bb_Set index b False p = bnd (if index - int (length bs) > 0 then appendN0 (index - int (length bs)) p else Ok p) (bb_Append b)"
      using False assms(2) by (simp add: bb_Set_def ensure_ok [OF ok] BitLen_ok [OF assms(1)] Let_def) linarith
    ultimately have "bb_Set index b False p = bb_Append b q" by (metis bnd.simps(1))
    then show ?thesis using Append_holds [OF q(2), of b] False by (auto simp: d_def)
  next
    case True
    let ?i = "nat index" and ?y = "nat index div 8" and ?k = "nat index mod 8"
    let ?n = "8 * length (bb_bytes p)"
    have i: "?i = 8 * ?y + ?k" "?k < 8" by simp_all
    have lt: "index < int (length bs)" using True assms(2) by linarith
    have ev: "bb_Set index b False p = Ok (if ?y = length (bb_bytes p) then p\<lparr>accumulator := markBit ?k b (accumulator p)\<rparr>
        else p\<lparr>bb_bytes := (bb_bytes p)[?y := markBit ?k b (bb_bytes p ! ?y)]\<rparr>)"
      using lt assms(2) by (simp add: bb_Set_def ensure_ok [OF ok] BitLen_ok [OF assms(1)] align_ok [OF ok] BitPos_def Let_def markBit_def normFn_def shiftLeft_def del: push_bit_of_1)
    show ?thesis
    proof (cases "?y = length (bb_bytes p)")
      case y: True
      let ?p = "p\<lparr>accumulator := markBit ?k b (accumulator p)\<rparr>"
      have k: "?k < u" "?i = ?n + ?k" "?i - ?n = ?k" using True y u i by linarith+
      have acc: "\<not> ob False (markBit ?k b (accumulator p)) j" if "u \<le> j" for j
      proof (cases "j < 8")
        case True
        then have "ob False (markBit ?k b (accumulator p)) j = (obits False (accumulator p))[?k := b] ! j"
          by (simp only: obits_nth(1) [OF True, symmetric] obits_markBit [OF i(2)])
        then show ?thesis using ok that k(1) True by (simp add: bb_ok_def)
      qed (simp add: ob_high)
      then have "bb_ok False u ?p" using ok by (simp add: bb_ok_def)
      moreover have "builderBits False u ?p = bs[?i := b]"
        using k(2,3) bytes_bits [of False "bb_bytes p"] bs [symmetric] by (simp add: builderBits_def obits_markBit [OF i(2)] list_update_append take_update_swap)
      ultimately show ?thesis using ev y True unfolding holds_def by auto
    next
      case y: False
      then have yl: "?y < length (bb_bytes p)" "?i < ?n" using True u i by linarith+
      let ?p = "p\<lparr>bb_bytes := (bb_bytes p)[?y := markBit ?k b (bb_bytes p ! ?y)]\<rparr>"
      have "concat (map (obits False) (bb_bytes ?p)) = (concat (map (obits False) (bb_bytes p)))[?y * 8 + ?k := b]"
        using concat_update [of "map (obits False) (bb_bytes p)" 8 ?y ?k b] yl i(2) by (simp add: map_update obits_markBit [OF i(2)])
      then have "builderBits False u ?p = bs[?i := b]"
        using yl i bytes_bits [of False "bb_bytes p"] bs [symmetric] by (simp add: builderBits_def list_update_append)
      moreover have "bb_ok False u ?p" using ok by (simp add: bb_ok_def)
      ultimately show ?thesis using ev y True unfolding holds_def by auto
    qed
  qed
qed

text \<open>Trimming cuts zeros at both ends.\<close>

lemma takeWhile_zeros: "takeWhile (\<lambda>b. b = 0) xs = replicate (length (takeWhile (\<lambda>b. b = (0 :: u8)) xs)) 0"
  by (rule sym, rule replicate_length_same) (auto dest: set_takeWhileD)

lemma trimTail_zeros: "\<exists>t. sb = trimTail sb @ replicate t 0"
proof -
  let ?r = "rev (drop 1 sb)"
  have "?r = takeWhile (\<lambda>b. b = 0) ?r @ dropWhile (\<lambda>b. b = 0) ?r" by simp
  then have "drop 1 sb = rev (dropWhile (\<lambda>b. b = 0) ?r) @ rev (takeWhile (\<lambda>b. b = 0) ?r)" by (metis rev_append rev_rev_ident)
  then have "sb = trimTail sb @ replicate (length (takeWhile (\<lambda>b. b = 0) ?r)) 0"
    unfolding trimTail_def by (metis append.assoc append_take_drop_id rev_replicate takeWhile_zeros)
  then show ?thesis by blast
qed

lemma TrimZeros_parts:
  assumes "TrimZeros p = (skip, m)" "bb_bytes p @ [accumulator p] \<noteq> replicate (length (bb_bytes p) + 1) 0"
  shows "\<exists>t. bb_bytes p @ [accumulator p] = replicate skip 0 @ m @ replicate t 0"
proof -
  let ?k = "length (takeWhile (\<lambda>b. b = 0) (bb_bytes p))" and ?sb = "dropWhile (\<lambda>b. b = 0) (bb_bytes p)"
  have sb: "drop ?k (bb_bytes p) = ?sb" by (simp add: dropWhile_eq_drop)
  have tz: "TrimZeros p = (if accumulator p \<noteq> 0 then (?k, ?sb @ [accumulator p]) else if ?sb = [] then (0, []) else (?k, trimTail ?sb))"
    by (simp only: TrimZeros_def Let_def sb)
  have p: "bb_bytes p = replicate ?k 0 @ ?sb" by (metis takeWhile_dropWhile_id takeWhile_zeros)
  show ?thesis
  proof (cases "accumulator p = 0")
    case True
    have "?sb \<noteq> []" 
    proof
      assume "?sb = []"
      then have "bb_bytes p = replicate ?k 0" "?k = length (bb_bytes p)" using p by (metis append_Nil2, metis append_Nil2 length_replicate)
      then show False using assms(2) True by (metis replicate_append_same replicate_Suc Suc_eq_plus1)
    qed
    then have "skip = ?k" "m = trimTail ?sb" using assms(1) True unfolding tz by (simp_all only: if_False if_True simp_thms prod.inject)
    moreover obtain t where "?sb = trimTail ?sb @ replicate t 0" using trimTail_zeros by blast
    ultimately have "bb_bytes p @ [accumulator p] = replicate skip 0 @ m @ replicate t 0 @ [0]" using p True by (metis append.assoc)
    then show ?thesis by (metis replicate_append_same replicate_Suc)
  next
    case False
    then have "skip = ?k" "m = ?sb @ [accumulator p]" using assms(1) unfolding tz by (simp_all only: if_False if_True simp_thms prod.inject)
    then have "bb_bytes p @ [accumulator p] = replicate skip 0 @ m @ replicate 0 0" using p by simp
    then show ?thesis by blast
  qed
qed

lemma bitAt_trimmed: "bitAt (replicate k 0 @ m @ replicate t 0) i \<longleftrightarrow> 8 * k \<le> i \<and> bitAt m (i - 8 * k)"
proof -
  have d: "(i - 8 * k) div 8 = i div 8 - k" "(i - 8 * k) mod 8 = i mod 8" if "8 * k \<le> i"
    using that by (metis add_diff_cancel_left' div_mult_self2 le_add_diff_inverse mult.commute nonzero_mult_div_cancel_left add.commute zero_neq_numeral div_mult_self1, metis le_add_diff_inverse mod_mult_self2 add.commute mult.commute)
  have "8 * k \<le> i \<longleftrightarrow> k \<le> i div 8" by linarith
  moreover have "bitAt (replicate k 0 @ m @ replicate t 0) i \<longleftrightarrow> k \<le> i div 8 \<and> i div 8 - k < length m \<and> bit (m ! (i div 8 - k)) (i mod 8)"
  proof -
    define y where "y = i div 8"
    have "replicate t (0 :: u8) ! (y - (k + length m)) = 0" if "y < k + (length m + t)" "k \<le> y" "\<not> y - k < length m" using that by simp
    then show ?thesis unfolding bitAt_def y_def [symmetric] by (auto simp: nth_append)
  qed
  ultimately show ?thesis using d unfolding bitAt_def [of m] by metis
qed

end
