(* ===== verification/Record_Policy.thy ===== *)
theory Record_Policy
  imports Line_Records Bit_Builder
begin

unbundle bit_operations_syntax

text \<open>
  Record types and their policies: \<^verbatim>\<open>ledger/server/lineage/record_typeset.go\<close>, \<^verbatim>\<open>record_aliases.go\<close>,
  \<^verbatim>\<open>record_policies.go\<close>, \<^verbatim>\<open>record_policy.go\<close>, \<^verbatim>\<open>policy_resolver.go\<close>.
  A set of record types is a bit mask without its leading and trailing zero bytes. A policy says which flags a record type
  has, which types it can follow and which types it can be redirected to; its checks look at the references of a record.
\<close>

subsection \<open>Sets of record types\<close>

type_synonym RecordType = u32

definition RecordNotFound :: RecordType where "RecordNotFound = 0"
definition RecordNotAvailable :: RecordType where "RecordNotAvailable = - 1"
definition maxRecordType :: RecordType where "maxRecordType = 1000"

record RecordTypeSet =
  rts_ofs :: RecordType
  rts_mask :: "u8 list"

definition noTypes :: RecordTypeSet where
  "noTypes = \<lparr>rts_ofs = 0, rts_mask = []\<rparr>"

fun setTypeBits :: "RecordType list \<Rightarrow> BitBuilder \<Rightarrow> BitBuilder res" where
  "setTypeBits [] bb = Ok bb"
| "setTypeBits (mt # x) bb =
     (if mt > maxRecordType then Panic ''IllegalValue'' else bnd (SetBit (int (unat mt)) 1 bb) (setTypeBits x))"

definition setOf :: "RecordType list \<Rightarrow> RecordTypeSet res" where
  "setOf x =
     (if x = [] then Ok noTypes
      else bnd (setTypeBits x (NewBitBuilder LSB)) (\<lambda>bb.
        let (skip, b) = TrimZeros bb in Ok \<lparr>rts_ofs = of_nat (skip * 8), rts_mask = b\<rparr>))"

definition Has :: "RecordTypeSet \<Rightarrow> RecordType \<Rightarrow> bool res" where
  "Has v typ =
     (if typ < rts_ofs v then Ok False
      else
        let typ = typ - rts_ofs v in
        if drop_bit 3 typ \<ge> of_nat (length (rts_mask v)) then Ok False
        else LSB_BitBool (rts_mask v) (int (unat typ)))"

definition rts_IsZero :: "RecordTypeSet \<Rightarrow> bool" where
  "rts_IsZero v \<longleftrightarrow> rts_ofs v = 0 \<and> rts_mask v = []"

subsection \<open>The set has the members it was built from\<close>

definition marks :: "RecordType list \<Rightarrow> bool list \<Rightarrow> bool" where
  "marks ts bs \<longleftrightarrow> length bs \<le> 1001 \<and> (\<forall>i. i < length bs \<and> bs ! i \<longleftrightarrow> (\<exists>t \<in> set ts. unat t = i))"

lemma setTypeBits_marks:
  assumes "holds False bb bs" "marks ts bs" "\<forall>t \<in> set xs. t \<le> maxRecordType"
  shows "\<exists>bb' bs'. setTypeBits xs bb = Ok bb' \<and> holds False bb' bs' \<and> marks (ts @ xs) bs'"
  using assms
proof (induction xs arbitrary: bb bs ts)
  case Nil
  then show ?case by auto
next
  case (Cons x xs)
  let ?i = "unat x"
  have x: "x \<le> maxRecordType" "?i \<le> 1000" using Cons.prems(3) by (auto simp: maxRecordType_def word_le_nat_alt)
  let ?bs = "if ?i < length bs then bs[?i := True] else bs @ replicate (?i - length bs) False @ [True]"
  obtain b1 where b1: "bb_Set (int ?i) True False bb = Ok b1" "holds False b1 ?bs" using Set_holds [OF Cons.prems(1), of "int ?i" True] by (simp only: nat_int of_nat_0_le_iff simp_thms) blast
  have "marks (ts @ [x]) ?bs"
  proof -
    have m: "length bs \<le> 1001" "\<And>i. i < length bs \<and> bs ! i \<longleftrightarrow> (\<exists>t \<in> set ts. unat t = i)" using Cons.prems(2) by (auto simp: marks_def)
    have "i < length ?bs \<and> ?bs ! i \<longleftrightarrow> i < length bs \<and> bs ! i \<or> i = ?i" for i
      by (auto simp: nth_list_update nth_append nth_Cons split: nat.splits if_splits)
    then show ?thesis using m x(2) by (auto simp: marks_def)
  qed
  then obtain bb' bs' where "setTypeBits xs b1 = Ok bb'" "holds False bb' bs'" "marks ((ts @ [x]) @ xs) bs'"
    using Cons.IH [OF b1(2), of "ts @ [x]"] Cons.prems(3) by (meson list.set_intros(2))
  moreover have "setTypeBits (x # xs) bb = setTypeBits xs b1" using x(1) b1(1) by (simp add: SetBit_def linorder_not_less [symmetric])
  ultimately show ?case by auto
qed

lemma BitBool_bitAt: "i div 8 < length bs \<Longrightarrow> LSB_BitBool bs (int i) = Ok (bitAt bs i)"
proof -
  have "x AND push_bit k 1 \<noteq> 0 \<longleftrightarrow> bit x k" if "k < 8" for x :: u8 and k
    using that by (metis and_exp_eq_0_iff_not_bit push_bit_of_1)
  then show "i div 8 < length bs \<Longrightarrow> LSB_BitBool bs (int i) = Ok (bitAt bs i)"
    by (simp add: LSB_BitBool_def LSB_BitMasked_def BitPos_def bitAt_def Let_def del: push_bit_of_1)
qed

lemma Has_bitAt:
  assumes "8 * k + 8 * length m < 2 ^ 32"
  shows "Has \<lparr>rts_ofs = of_nat (k * 8), rts_mask = m\<rparr> t = Ok (8 * k \<le> unat t \<and> bitAt m (unat t - 8 * k))"
proof -
  let ?o = "of_nat (k * 8) :: u32"
  have o: "unat ?o = 8 * k" using assms by (simp only: unat_of_nat) (simp add: take_bit_nat_eq_self mult.commute)
  have l: "unat (of_nat (length m) :: u32) = length m" using assms by (simp add: unat_of_nat take_bit_nat_eq_self)
  show ?thesis
  proof (cases "t < ?o")
    case True
    then show ?thesis using o by (simp add: Has_def word_less_nat_alt)
  next
    case False
    then have le: "8 * k \<le> unat t" "unat (t - ?o) = unat t - 8 * k" using o by (simp_all add: word_less_nat_alt unat_sub word_le_nat_alt)
    have "of_nat (length m) \<le> (drop_bit 3 (t - ?o) :: u32) \<longleftrightarrow> length m \<le> (unat t - 8 * k) div 8"
    proof -
      have "unat (drop_bit 3 (t - ?o)) = (unat t - 8 * k) div 8" unfolding unat_drop_bit_eq le(2) by (simp add: drop_bit_eq_div)
      then show ?thesis by (simp only: word_le_nat_alt l)
    qed
    then show ?thesis using False le BitBool_bitAt [of "unat t - 8 * k" m] by (auto simp: Has_def Let_def bitAt_def)
  qed
qed

lemma setOf_has:
  assumes "\<forall>t \<in> set ts. t \<le> maxRecordType"
  shows "\<exists>s. setOf ts = Ok s \<and> (\<forall>t. Has s t = Ok (t \<in> set ts))"
proof (cases "ts = []")
  case True
  then show ?thesis by (simp add: setOf_def Has_def noTypes_def Let_def)
next
  case False
  have "marks [] []" by (simp add: marks_def)
  then obtain bb bs where b: "setTypeBits ts (NewBitBuilder LSB) = Ok bb" "holds False bb bs" "marks ts bs"
    using setTypeBits_marks [OF _ _ assms, of "NewBitBuilder LSB" "[]" "[]"] new_holds [of LSB] by auto
  have at: "bitAt (bb_bytes bb @ [accumulator bb]) i \<longleftrightarrow> (\<exists>t \<in> set ts. unat t = i)" for i
    using holds_bitAt [OF b(2)] b(3) by (auto simp: marks_def)
  obtain skip m where tz: "TrimZeros bb = (skip, m)" by fastforce
  have "bb_bytes bb @ [accumulator bb] \<noteq> replicate (length (bb_bytes bb) + 1) 0"
  proof
    assume z: "bb_bytes bb @ [accumulator bb] = replicate (length (bb_bytes bb) + 1) 0"
    have "\<not> bitAt (replicate n 0) i" for n i by (simp add: bitAt_def)
    then show False using at False unfolding z by (metis list.set_intros(1) neq_Nil_conv)
  qed
  then obtain t where p: "bb_bytes bb @ [accumulator bb] = replicate skip 0 @ m @ replicate t 0" using TrimZeros_parts [OF tz] by blast
  have "8 * length (bb_bytes bb) \<le> length bs" using b(2) by (auto simp: holds_def builderBits_def bytes_bits)
  moreover have "skip + length m \<le> length (bb_bytes bb) + 1" using arg_cong [OF p, of length] by simp
  ultimately have "8 * skip + 8 * length m < 2 ^ 32" using b(3) by (simp add: marks_def)
  then have "Has \<lparr>rts_ofs = of_nat (skip * 8), rts_mask = m\<rparr> x = Ok (x \<in> set ts)" for x
    using at [of "unat x"] unfolding p bitAt_trimmed by (simp only: Has_bitAt res.inject) (metis word_unat_eq_iff)
  then show ?thesis using False b(1) tz by (simp add: setOf_def)
qed

text \<open>C40: a set of record types, kept as a bit mask without its zero bytes at both ends, has exactly the types it was
  built from: building it succeeds for the types up to the maximal record type, and the membership test neither fails nor
  gives a wrong answer for any number.\<close>

theorem type_set_membership:
  assumes "\<forall>t \<in> set ts. t \<le> maxRecordType"
  shows "\<exists>s. setOf ts = Ok s \<and> (\<forall>t. Has s t = Ok (t \<in> set ts))"
  using assms by (rule setOf_has)

theorem type_set_membership_witness:
  "\<exists>s. setOf [900, 999] = Ok s \<and> (\<forall>t. Has s t = Ok (t = 900 \<or> t = 999))"
  using type_set_membership [of "[900, 999]"] by (simp add: maxRecordType_def)

subsection \<open>Policies\<close>

type_synonym PolicyFlags = u32

definition LineStart :: PolicyFlags where "LineStart = 0x001"
definition FilamentStart :: PolicyFlags where "FilamentStart = 0x002"
definition FilamentEnd :: PolicyFlags where "FilamentEnd = 0x004"
definition BranchedStart :: PolicyFlags where "BranchedStart = 0x008"
definition MustBeBranch :: PolicyFlags where "MustBeBranch = 0x010"
definition SideEffect :: PolicyFlags where "SideEffect = 0x020"
definition OnlyHash :: PolicyFlags where "OnlyHash = 0x040"
definition NextPulseOnly :: PolicyFlags where "NextPulseOnly = 0x080"
definition BlockNextPulse :: PolicyFlags where "BlockNextPulse = 0x100"
definition RecapFlag :: PolicyFlags where "RecapFlag = 0x200"
definition ReasonRequired :: PolicyFlags where "ReasonRequired = 0x400"
definition PayloadAllowed :: PolicyFlags where "PayloadAllowed = 0x800"

lemmas policy_flags = LineStart_def FilamentStart_def FilamentEnd_def BranchedStart_def MustBeBranch_def SideEffect_def OnlyHash_def
  NextPulseOnly_def BlockNextPulse_def RecapFlag_def ReasonRequired_def PayloadAllowed_def

record RecordPolicy =
  pol_flags :: PolicyFlags
  CanFollow :: RecordTypeSet
  RedirectTo :: RecordTypeSet

definition noPolicy :: RecordPolicy where
  "noPolicy = \<lparr>pol_flags = 0, CanFollow = noTypes, RedirectTo = noTypes\<rparr>"

definition pol_IsValid :: "RecordPolicy \<Rightarrow> bool" where
  "pol_IsValid v \<longleftrightarrow> pol_flags v \<noteq> 0 \<or> \<not> rts_IsZero (CanFollow v)"

text \<open>Whether one of the given flags is set.\<close>

definition hasAny :: "RecordPolicy \<Rightarrow> PolicyFlags \<Rightarrow> bool" where
  "hasAny v f \<longleftrightarrow> pol_flags v AND f \<noteq> 0"

definition IsAnyFilamentStart :: "RecordPolicy \<Rightarrow> bool" where
  "IsAnyFilamentStart v \<longleftrightarrow> hasAny v (LineStart OR FilamentStart)"

definition IsBranched :: "RecordPolicy \<Rightarrow> bool" where
  "IsBranched v \<longleftrightarrow> hasAny v BranchedStart"

definition IsFilamentStart :: "RecordPolicy \<Rightarrow> bool" where
  "IsFilamentStart v \<longleftrightarrow> hasAny v FilamentStart"

definition CanBeRejoined :: "RecordPolicy \<Rightarrow> bool" where
  "CanBeRejoined v \<longleftrightarrow> pol_flags v AND (SideEffect OR FilamentEnd) = FilamentEnd"

definition IsForkAllowed :: "RecordPolicy \<Rightarrow> bool" where
  "IsForkAllowed v \<longleftrightarrow> pol_flags v AND (FilamentStart OR BranchedStart) = FilamentStart"

subsection \<open>The record types and their policies\<close>

definition tRLineRecap :: RecordType where "tRLineRecap = 19"
definition tRLineActivate :: RecordType where "tRLineActivate = 20"
definition tRLineDeactivate :: RecordType where "tRLineDeactivate = 21"
definition tRLineMemory :: RecordType where "tRLineMemory = 22"
definition tRLineMemoryInit :: RecordType where "tRLineMemoryInit = tRLineMemory + 1"
definition tRLineMemoryProvided :: RecordType where "tRLineMemoryProvided = tRLineMemory + 2"
definition tRLineMemoryExpected :: RecordType where "tRLineMemoryExpected = 25"
definition tRLineMemoryReuse :: RecordType where "tRLineMemoryReuse = 26"
definition tRInboundResponse :: RecordType where "tRInboundResponse = 27"
definition tROutboundResponse :: RecordType where "tROutboundResponse = 28"
definition tROutboundRequest :: RecordType where "tROutboundRequest = 29"
definition tRLineInboundRequest :: RecordType where "tRLineInboundRequest = tROutboundRequest + 1"
definition tRInboundRequest :: RecordType where "tRInboundRequest = tROutboundRequest + 2"
definition tRLifelineStart :: RecordType where "tRLifelineStart = tROutboundRequest + 3"
definition tRSidelineStart :: RecordType where "tRSidelineStart = tROutboundRequest + 4"
definition tROutRetryableRequest :: RecordType where "tROutRetryableRequest = tROutboundRequest + 5"
definition tROutRetryRequest :: RecordType where "tROutRetryRequest = tROutboundRequest + 6"

lemmas record_types = tRLineRecap_def tRLineActivate_def tRLineDeactivate_def tRLineMemory_def tRLineMemoryInit_def tRLineMemoryProvided_def
  tRLineMemoryExpected_def tRLineMemoryReuse_def tRInboundResponse_def tROutboundResponse_def tROutboundRequest_def tRLineInboundRequest_def
  tRInboundRequest_def tRLifelineStart_def tRSidelineStart_def tROutRetryableRequest_def tROutRetryRequest_def

definition setLineStart :: "RecordType list" where "setLineStart = [tRLifelineStart, tRSidelineStart]"

definition setUnblockedLine :: "RecordType list" where
  "setUnblockedLine = [tRLineActivate, tRLineMemory, tRLineMemoryReuse, tRLineMemoryExpected, tRLineMemoryProvided]"

definition setUnblockedInbound :: "RecordType list" where
  "setUnblockedInbound = [tRLineInboundRequest, tRInboundRequest, tROutboundResponse]"

text \<open>An entry of the table: the type, its flags, the types it can follow and the types it can be redirected to.\<close>

definition policyEntries :: "(RecordType \<times> PolicyFlags \<times> RecordType list \<times> RecordType list) list" where
  "policyEntries =
    [(tRLifelineStart, LineStart OR ReasonRequired OR PayloadAllowed, [], []),
     (tRSidelineStart, LineStart OR BranchedStart OR ReasonRequired OR PayloadAllowed, [], []),
     (tRLineInboundRequest, FilamentStart OR ReasonRequired OR PayloadAllowed, setUnblockedLine, []),
     (tRInboundRequest, FilamentStart OR BranchedStart OR ReasonRequired OR PayloadAllowed, setUnblockedLine, []),
     (tRInboundResponse, FilamentEnd OR MustBeBranch OR PayloadAllowed,
        setUnblockedInbound @ [tROutboundRequest, tROutRetryableRequest, tROutRetryRequest], []),
     (tROutboundRequest, MustBeBranch OR PayloadAllowed, setUnblockedInbound, []),
     (tROutRetryableRequest, MustBeBranch OR PayloadAllowed, setUnblockedInbound, []),
     (tROutRetryRequest, NextPulseOnly OR OnlyHash, [tROutRetryableRequest, tROutRetryRequest], [tROutRetryableRequest]),
     (tROutboundResponse, PayloadAllowed, [tROutboundRequest, tROutRetryableRequest, tROutRetryRequest], []),
     (tRLineActivate, SideEffect, setLineStart @ [tRLineMemoryInit, tRLineMemory], []),
     (tRLineDeactivate, FilamentEnd OR SideEffect, setUnblockedLine, []),
     (tRLineMemoryInit, PayloadAllowed, setLineStart, []),
     (tRLineMemory, SideEffect OR PayloadAllowed, [tRLineInboundRequest, tRLineMemoryExpected], []),
     (tRLineMemoryReuse, SideEffect, [tRLineInboundRequest], [tRLineMemory, tRLineMemoryProvided]),
     (tRLineMemoryExpected, SideEffect OR OnlyHash OR BlockNextPulse, [tRLineInboundRequest], []),
     (tRLineMemoryProvided, PayloadAllowed, [tRLineMemoryExpected], []),
     (tRLineRecap, RecapFlag OR NextPulseOnly, [], [])]"

text \<open>The table is built when the package is initialized; a set that could not be built would panic there.\<close>

fun buildPolicies :: "(RecordType \<times> PolicyFlags \<times> RecordType list \<times> RecordType list) list \<Rightarrow> (RecordType \<times> RecordPolicy) list res" where
  "buildPolicies [] = Ok []"
| "buildPolicies ((t, flags, follow, redirect) # es) =
     bnd (setOf follow) (\<lambda>f. bnd (setOf redirect) (\<lambda>r. bnd (buildPolicies es) (\<lambda>ps.
       Ok ((t, \<lparr>pol_flags = flags, CanFollow = f, RedirectTo = r\<rparr>) # ps))))"

text \<open>A slice literal with keys: every entry is stored at its key, and the places without an entry are zero.\<close>

definition storeAt :: "'a \<Rightarrow> 'a list \<Rightarrow> nat \<Rightarrow> 'a \<Rightarrow> 'a list" where
  "storeAt zero xs k v = (if k < length xs then xs[k := v] else xs @ replicate (k - length xs) zero @ [v])"

definition policies :: "RecordPolicy list" where
  "policies = (case buildPolicies policyEntries of Ok ps \<Rightarrow> foldl (\<lambda>xs (t, p). storeAt noPolicy xs (unat t) p) [] ps | Panic e \<Rightarrow> [])"

definition GetRecordPolicy :: "RecordType \<Rightarrow> RecordPolicy" where
  "GetRecordPolicy recordType =
     (if recordType = 0 \<or> unat recordType \<ge> length policies then noPolicy else policies ! unat recordType)"

definition setDirectActivate :: "RecordType list" where
  "setDirectActivate = setLineStart @ [tRLineMemoryInit]"

subsection \<open>Resolved dependencies\<close>

record ResolvedDependency =
  dep_RecordType :: RecordType
  dep_RootRef :: "Global option"
  RedirectToType :: RecordType
  RedirectToRef :: "Global option"

definition noDep :: ResolvedDependency where
  "noDep = \<lparr>dep_RecordType = 0, dep_RootRef = None, RedirectToType = 0, RedirectToRef = None\<rparr>"

definition dep_IsZero :: "ResolvedDependency \<Rightarrow> bool" where
  "dep_IsZero v \<longleftrightarrow> dep_RecordType v = 0"

definition dep_IsNotAvailable :: "ResolvedDependency \<Rightarrow> bool" where
  "dep_IsNotAvailable v \<longleftrightarrow> dep_RecordType v = RecordNotAvailable"

subsection \<open>Checks with a resolver\<close>

text \<open>A step changes a state and gives a value or an error; a resolver is a step for every reference.\<close>

type_synonym ('s, 'a) step = "'s \<Rightarrow> ('s \<times> (string + 'a)) res"
type_synonym 's PolicyResolverFunc = "Global \<Rightarrow> ('s, ResolvedDependency) step"

definition sret :: "'a \<Rightarrow> ('s, 'a) step" where "sret x s = Ok (s, Inr x)"
definition sfail :: "string \<Rightarrow> ('s, 'a) step" where "sfail e s = Ok (s, Inl e)"
definition spanic :: "string \<Rightarrow> ('s, 'a) step" where "spanic e s = Panic e"
definition slift :: "'a res \<Rightarrow> ('s, 'a) step" where "slift r s = bnd r (\<lambda>x. Ok (s, Inr x))"

definition sbnd :: "('s, 'a) step \<Rightarrow> ('a \<Rightarrow> ('s, 'b) step) \<Rightarrow> ('s, 'b) step" where
  "sbnd m f s = bnd (m s) (\<lambda>(s, r). case r of Inl e \<Rightarrow> Ok (s, Inl e) | Inr x \<Rightarrow> f x s)"

lemmas step_simps = sret_def sfail_def spanic_def slift_def sbnd_def

record PolicyCheckDetails =
  pcd_RecordType :: RecordType
  pcd_LocalPN :: Number
  pcd_PolicyProvider :: "(RecordType \<Rightarrow> RecordPolicy) option"

definition provided :: "PolicyCheckDetails \<Rightarrow> RecordType \<Rightarrow> RecordPolicy res" where
  "provided details t = (case pcd_PolicyProvider details of None \<Rightarrow> Panic ''nil pointer'' | Some f \<Rightarrow> Ok (f t))"

text \<open>Gives the reference to look at, if there is one.\<close>

definition checkExact :: "Global option \<Rightarrow> bool \<Rightarrow> string + Global option" where
  "checkExact ref isRequired =
     (if isRequired then if ref_IsEmpty ref then Inl ''must be not empty'' else Inr ref
      else if \<not> ref_IsEmpty ref then Inl ''must be empty'' else Inr None)"

definition whenExact :: "Global option \<Rightarrow> bool \<Rightarrow> 'a \<Rightarrow> (Global \<Rightarrow> ('s, 'a) step) \<Rightarrow> ('s, 'a) step" where
  "whenExact ref isRequired skip f =
     (case checkExact ref isRequired of Inl e \<Rightarrow> sfail e | Inr None \<Rightarrow> sret skip | Inr (Some g) \<Rightarrow> f g)"

definition CheckRecordRef :: "RecordPolicy \<Rightarrow> Local \<Rightarrow> Global option \<Rightarrow> PolicyCheckDetails \<Rightarrow> (string + unit) res" where
  "CheckRecordRef v lineBase ref details =
     (case ref of None \<Rightarrow> Panic ''nil pointer''
      | Some g \<Rightarrow>
          let refLocal = addressLocal g in
          Ok (if local_SubScope refLocal \<noteq> baseScopeLifeline then Inl ''invalid scope''
              else if hasAny v LineStart \<and> \<not> hasAny v BranchedStart \<and> refLocal \<noteq> lineBase then Inl ''must be self-ref''
              else if pcd_LocalPN details \<noteq> GetPulseNumber refLocal then Inl ''wrong pulse number''
              else Inr ()))"

definition CheckRootRef :: "RecordPolicy \<Rightarrow> Global option \<Rightarrow> PolicyCheckDetails \<Rightarrow> 's PolicyResolverFunc \<Rightarrow> ('s, unit) step" where
  "CheckRootRef v ref details resolverFn =
     whenExact ref (pol_flags v AND (LineStart OR BranchedStart) \<noteq> LineStart) () (\<lambda>g.
     sbnd (resolverFn g) (\<lambda>found.
       if dep_IsZero found then sfail ''missing record''
       else if dep_IsNotAvailable found then sret ()
       else
         case pcd_PolicyProvider details of None \<Rightarrow> sret ()
         | Some provider \<Rightarrow>
             if hasAny v LineStart then sret ()
             else
               let policy = provider (dep_RecordType found) in
               if \<not> pol_IsValid policy then sfail ''unknown root type''
               else if \<not> hasAny policy (LineStart OR FilamentStart) then sfail ''wrong root type''
               else sret ()))"

text \<open>Whether the previous record is one that may be followed; a record without a redirect passes in every case.\<close>

definition followAllowed :: "RecordPolicy \<Rightarrow> ResolvedDependency \<Rightarrow> bool res" where
  "followAllowed v found =
     bnd (Has (CanFollow v) (dep_RecordType found)) (\<lambda>ok.
       if ok then Ok True
       else if RedirectToRef found = None then Ok True
       else Has (CanFollow v) (RedirectToType found))"

definition blockedByPulse :: "PolicyCheckDetails \<Rightarrow> Global \<Rightarrow> ResolvedDependency \<Rightarrow> RecordPolicy \<Rightarrow> ('s, unit) step" where
  "blockedByPulse details ref found prevPolicy =
     (if \<not> hasAny prevPolicy BlockNextPulse then sret ()
      else if GetPulseNumber (addressLocal ref) = pcd_LocalPN details then sret ()
      else if dep_RecordType found = tRLineMemoryExpected then
        if pcd_RecordType details = tRLineMemoryProvided \<or> pcd_RecordType details = tRLineDeactivate then sret ()
        else sfail ''memory is expected''
      else spanic ''Unsupported'')"

definition forkOf :: "RecordPolicy \<Rightarrow> Global option \<Rightarrow> Global \<Rightarrow> ResolvedDependency \<Rightarrow> RecordPolicy \<Rightarrow> ('s, bool) step" where
  "forkOf v rootRef ref found prevPolicy =
     (if IsBranched v then sret True
      else if global_Equal rootRef (Some ref) then sret (IsForkAllowed prevPolicy)
      else if \<not> ref_IsEmpty (dep_RootRef found) \<and> \<not> global_Equal rootRef (dep_RootRef found) then sfail ''filament crossing is forbidden''
      else sret False)"

definition CheckPrevRef :: "RecordPolicy \<Rightarrow> Global option \<Rightarrow> Global option \<Rightarrow> PolicyCheckDetails \<Rightarrow> 's PolicyResolverFunc \<Rightarrow> ('s, bool) step" where
  "CheckPrevRef v rootRef ref details resolverFn =
     whenExact ref (\<not> hasAny v LineStart) False (\<lambda>g.
     if hasAny v NextPulseOnly \<and> GetPulseNumber (addressLocal g) \<ge> pcd_LocalPN details then sfail ''must be prev pulse''
     else
       sbnd (resolverFn g) (\<lambda>found.
       if dep_IsZero found then sfail ''unknown record''
       else if dep_IsNotAvailable found then sret False
       else if hasAny v RecapFlag then
         if \<not> ref_IsEmpty (dep_RootRef found) \<and> \<not> global_Equal rootRef (dep_RootRef found) then sfail ''filament crossing is forbidden'' else sret False
       else
         sbnd (slift (followAllowed v found)) (\<lambda>ok.
         if \<not> ok then sfail ''wrong record sequence''
         else
           sbnd (slift (provided details (dep_RecordType found))) (\<lambda>prevPolicy.
           sbnd (blockedByPulse details g found prevPolicy) (\<lambda>_. forkOf v rootRef g found prevPolicy)))))"

definition CheckRejoinRef :: "RecordPolicy \<Rightarrow> Global option \<Rightarrow> PolicyCheckDetails \<Rightarrow> RecordType \<Rightarrow> 's PolicyResolverFunc \<Rightarrow> ('s, unit) step" where
  "CheckRejoinRef v ref details prevRecordType resolverFn =
     sbnd (slift (bnd (setOf setDirectActivate) (\<lambda>s. Has s prevRecordType))) (\<lambda>direct.
     let isSideEffect = hasAny v SideEffect;
         isSideEffect = (if isSideEffect \<and> pcd_RecordType details = tRLineActivate \<and> direct then False else isSideEffect) in
     whenExact ref isSideEffect () (\<lambda>g.
     if GetPulseNumber (addressLocal g) \<noteq> pcd_LocalPN details then sfail ''must be same pulse''
     else
       sbnd (resolverFn g) (\<lambda>found.
       if dep_IsZero found then sfail ''unknown record''
       else
         sbnd (slift (provided details (dep_RecordType found))) (\<lambda>joinPolicy.
         if \<not> CanBeRejoined joinPolicy then sfail ''rejoin forbidden'' else sret ()))))"

definition CheckRedirectRef :: "RecordPolicy \<Rightarrow> Global option \<Rightarrow> 's PolicyResolverFunc \<Rightarrow> ('s, unit) step" where
  "CheckRedirectRef v ref resolverFn =
     whenExact ref (\<not> rts_IsZero (RedirectTo v)) () (\<lambda>g.
     sbnd (resolverFn g) (\<lambda>found.
       if dep_IsZero found then sfail ''unknown record''
       else if dep_IsNotAvailable found then sret ()
       else if RedirectToRef found \<noteq> None then sfail ''redirect to redirect is forbidden''
       else sbnd (slift (Has (RedirectTo v) (dep_RecordType found))) (\<lambda>ok. if ok then sret () else sfail ''wrong redirect target'')))"

definition CheckReasonRef :: "RecordPolicy \<Rightarrow> Global option \<Rightarrow> 's PolicyResolverFunc \<Rightarrow> ('s, unit) step" where
  "CheckReasonRef v ref resolverFn =
     whenExact ref (hasAny v ReasonRequired) () (\<lambda>g.
     sbnd (resolverFn g) (\<lambda>found. if dep_IsZero found then sfail ''unknown record'' else sret ()))"


subsection \<open>The rules of the record types\<close>

text \<open>The types with a policy have the numbers from that of the recap to that of the retry.\<close>

definition knownType :: "RecordType \<Rightarrow> bool" where
  "knownType t \<longleftrightarrow> tRLineRecap \<le> t \<and> t \<le> tROutRetryRequest"

lemma policies_flags: "map pol_flags policies = replicate 19 0 @ [0x280, 0x020, 0x024, 0x820, 0x800, 0x800, 0x160, 0x020, 0x814, 0x800, 0x810, 0xC02, 0xC0A, 0xC01, 0xC09, 0x810, 0x0C0]"
  by code_simp

lemma policies_follow: "list_all (\<lambda>p. pol_flags p = 0 \<longrightarrow> p = noPolicy) policies"
  by code_simp

lemma policies_redirects: "map (\<lambda>p. rts_IsZero (RedirectTo p)) policies = replicate 26 True @ [False] @ replicate 8 True @ [False]"
  by code_simp

lemma policies_length: "length policies = 36"
  using arg_cong [OF policies_flags, of length] by simp

lemma redirect_targets:
  "setOf [tROutRetryableRequest] = Ok (RedirectTo (GetRecordPolicy tROutRetryRequest))"
  "setOf [tRLineMemory, tRLineMemoryProvided] = Ok (RedirectTo (GetRecordPolicy tRLineMemoryReuse))"
  "setOf setDirectActivate = Ok \<lparr>rts_ofs = 16, rts_mask = [0x80, 0, 3]\<rparr>"
  by code_simp+

lemma knownType_cases:
  assumes "knownType t"
  shows "unat t \<in> {19, 20, 21, 22, 23, 24, 25, 26, 27, 28, 29, 30, 31, 32, 33, 34, 35}"
proof -
  have "19 \<le> unat t" "unat t \<le> 35" using assms by (simp_all add: knownType_def record_types word_le_nat_alt)
  then show ?thesis by (simp only: insert_iff empty_iff) presburger
qed

lemma type_number: "t = n \<longleftrightarrow> unat t = unat n" for t n :: RecordType
  by (simp add: word_unat_eq_iff)

lemma policy_at:
  assumes "knownType t"
  shows "pol_flags (GetRecordPolicy t) = map pol_flags policies ! unat t"
    "rts_IsZero (RedirectTo (GetRecordPolicy t)) = map (\<lambda>p. rts_IsZero (RedirectTo p)) policies ! unat t"
  using knownType_cases [OF assms] by (auto simp: GetRecordPolicy_def policies_length)

lemma policy_classes:
  assumes "knownType t"
  shows "hasAny (GetRecordPolicy t) LineStart \<longleftrightarrow> t = tRLifelineStart \<or> t = tRSidelineStart"
    "hasAny (GetRecordPolicy t) BranchedStart \<longleftrightarrow> t = tRSidelineStart \<or> t = tRInboundRequest"
    "hasAny (GetRecordPolicy t) (LineStart OR FilamentStart) \<longleftrightarrow> t = tRLifelineStart \<or> t = tRSidelineStart \<or> t = tRLineInboundRequest \<or> t = tRInboundRequest"
    "pol_flags (GetRecordPolicy t) AND (LineStart OR BranchedStart) = LineStart \<longleftrightarrow> t = tRLifelineStart"
    "hasAny (GetRecordPolicy t) SideEffect \<longleftrightarrow>
      t = tRLineActivate \<or> t = tRLineDeactivate \<or> t = tRLineMemory \<or> t = tRLineMemoryReuse \<or> t = tRLineMemoryExpected"
    "hasAny (GetRecordPolicy t) NextPulseOnly \<longleftrightarrow> t = tROutRetryRequest \<or> t = tRLineRecap"
    "hasAny (GetRecordPolicy t) BlockNextPulse \<longleftrightarrow> t = tRLineMemoryExpected"
    "hasAny (GetRecordPolicy t) RecapFlag \<longleftrightarrow> t = tRLineRecap"
    "hasAny (GetRecordPolicy t) ReasonRequired \<longleftrightarrow> t = tRLifelineStart \<or> t = tRSidelineStart \<or> t = tRLineInboundRequest \<or> t = tRInboundRequest"
    "CanBeRejoined (GetRecordPolicy t) \<longleftrightarrow> t = tRInboundResponse"
    "IsForkAllowed (GetRecordPolicy t) \<longleftrightarrow> t = tRLineInboundRequest"
    "rts_IsZero (RedirectTo (GetRecordPolicy t)) \<longleftrightarrow> t \<noteq> tROutRetryRequest \<and> t \<noteq> tRLineMemoryReuse"
    "pol_flags (GetRecordPolicy t) \<noteq> 0"
  using knownType_cases [OF assms]
  by (auto simp: hasAny_def CanBeRejoined_def IsForkAllowed_def policy_at [OF assms] policies_flags policies_redirects policy_flags record_types type_number nth_append)

lemma known_valid: "pol_IsValid (GetRecordPolicy t) \<longleftrightarrow> knownType t"
proof (cases "knownType t")
  case True
  then show ?thesis using policy_classes(13) by (simp add: pol_IsValid_def)
next
  case False
  have "GetRecordPolicy t = noPolicy"
  proof (cases "t = 0 \<or> unat t \<ge> 36")
    case True
    then show ?thesis by (auto simp: GetRecordPolicy_def policies_length)
  next
    case b: False
    then have "unat t < 19" using False by (auto simp: knownType_def record_types word_le_nat_alt)
    then have "map pol_flags policies ! unat t = 0" by (simp add: policies_flags nth_append)
    then have "pol_flags (policies ! unat t) = 0" using b by (simp add: policies_length)
    then have "policies ! unat t = noPolicy" using policies_follow b by (auto simp: list_all_length policies_length)
    then show ?thesis using b by (simp add: GetRecordPolicy_def policies_length)
  qed
  then show ?thesis using False by (simp add: pol_IsValid_def noPolicy_def rts_IsZero_def noTypes_def)
qed

lemma redirect_has:
  "Has (RedirectTo (GetRecordPolicy tROutRetryRequest)) x = Ok (x = tROutRetryableRequest)"
  "Has (RedirectTo (GetRecordPolicy tRLineMemoryReuse)) x = Ok (x = tRLineMemory \<or> x = tRLineMemoryProvided)"
proof -
  have m: "tROutRetryableRequest \<le> maxRecordType" "tRLineMemory \<le> maxRecordType" "tRLineMemoryProvided \<le> maxRecordType" by code_simp+
  show "Has (RedirectTo (GetRecordPolicy tROutRetryRequest)) x = Ok (x = tROutRetryableRequest)"
    using setOf_has [of "[tROutRetryableRequest]"] m redirect_targets(1) by auto
  show "Has (RedirectTo (GetRecordPolicy tRLineMemoryReuse)) x = Ok (x = tRLineMemory \<or> x = tRLineMemoryProvided)"
    using setOf_has [of "[tRLineMemory, tRLineMemoryProvided]"] m redirect_targets(2) by auto
qed

lemma direct_has: "bnd (setOf setDirectActivate) (\<lambda>s. Has s x) = Ok (x = tRLifelineStart \<or> x = tRSidelineStart \<or> x = tRLineMemoryInit)"
proof -
  have m: "\<forall>x \<in> set setDirectActivate. x \<le> maxRecordType" by code_simp
  show ?thesis using setOf_has [OF m] by (auto simp: setDirectActivate_def setLineStart_def)
qed

text \<open>The membership test never fails.\<close>

lemma Has_total: "\<exists>b. Has v t = Ok b"
proof (cases "t < rts_ofs v \<or> drop_bit 3 (t - rts_ofs v) \<ge> of_nat (length (rts_mask v))")
  case True
  then show ?thesis by (auto simp: Has_def Let_def)
next
  case False
  have "unat (drop_bit 3 (t - rts_ofs v)) < unat (of_nat (length (rts_mask v)) :: u32)" using False by (simp add: word_less_nat_alt word_le_nat_alt)
  also have "\<dots> \<le> length (rts_mask v)" by (simp only: unat_of_nat) (simp add: take_bit_nat_less_eq_self)
  finally have "unat (t - rts_ofs v) div 8 < length (rts_mask v)" unfolding unat_drop_bit_eq by (simp add: drop_bit_eq_div)
  then show ?thesis using False BitBool_bitAt [of "unat (t - rts_ofs v)" "rts_mask v"] by (auto simp: Has_def Let_def)
qed

lemma follow_free: "RedirectToRef found = None \<Longrightarrow> followAllowed v found = Ok True"
  using Has_total [of "CanFollow v" "dep_RecordType found"] by (auto simp: followAllowed_def)

definition accepted :: "('s \<times> (string + 'a)) res \<Rightarrow> bool" where
  "accepted m \<longleftrightarrow> (\<exists>s x. m = Ok (s, Inr x))"

lemma accepted_simps [simp]: "accepted (Ok (s, Inr x))" "\<not> accepted (Ok (s, Inl e))" "\<not> accepted (Panic e)"
  by (simp_all add: accepted_def)

lemmas check_simps = whenExact_def checkExact_def step_simps Let_def CheckRootRef_def CheckPrevRef_def CheckRejoinRef_def CheckReasonRef_def CheckRedirectRef_def

lemma no_ref: "ref_IsEmpty None"
  by (simp add: ref_IsEmpty_def)

text \<open>C31: Which references a record must have. Exactly the types of the table have a valid policy. Of these, every record but the start of a
  lifeline must have a root, and every record but the two starts of a line a predecessor; exactly the starts of lines and the inbound requests
  must have a reason, exactly the retry and the reused memory a redirect, and exactly the changes of the line a rejoin, except an activation right
  after the start of the line or its initial memory. The checks refuse a record without a reference that it must have and accept the absence of the others.\<close>

theorem record_reference_presence:
  assumes "pol_IsValid (GetRecordPolicy t)" "pcd_RecordType d = t"
  shows "(\<forall>u. pol_IsValid (GetRecordPolicy u) \<longleftrightarrow> tRLineRecap \<le> u \<and> u \<le> tROutRetryRequest) \<and>
    (accepted (CheckRootRef (GetRecordPolicy t) None d R s) \<longleftrightarrow> t = tRLifelineStart) \<and>
    (accepted (CheckPrevRef (GetRecordPolicy t) root None d R s) \<longleftrightarrow> t \<in> {tRLifelineStart, tRSidelineStart}) \<and>
    (accepted (CheckReasonRef (GetRecordPolicy t) None R s) \<longleftrightarrow> t \<notin> {tRLifelineStart, tRSidelineStart, tRLineInboundRequest, tRInboundRequest}) \<and>
    (accepted (CheckRedirectRef (GetRecordPolicy t) None R s) \<longleftrightarrow> t \<notin> {tROutRetryRequest, tRLineMemoryReuse}) \<and>
    (accepted (CheckRejoinRef (GetRecordPolicy t) None d prev R s) \<longleftrightarrow>
       t \<notin> {tRLineActivate, tRLineDeactivate, tRLineMemory, tRLineMemoryReuse, tRLineMemoryExpected} \<or>
       t = tRLineActivate \<and> prev \<in> {tRLifelineStart, tRSidelineStart, tRLineMemoryInit})"
proof (intro conjI)
  have k: "knownType t" using assms(1) by (simp add: known_valid)
  note c = policy_classes [OF k] no_ref
  show "\<forall>u. pol_IsValid (GetRecordPolicy u) \<longleftrightarrow> tRLineRecap \<le> u \<and> u \<le> tROutRetryRequest" by (simp add: known_valid knownType_def)
  show "accepted (CheckRootRef (GetRecordPolicy t) None d R s) \<longleftrightarrow> t = tRLifelineStart" by (simp add: check_simps c)
  show "accepted (CheckPrevRef (GetRecordPolicy t) root None d R s) \<longleftrightarrow> t \<in> {tRLifelineStart, tRSidelineStart}" by (simp add: check_simps c)
  show "accepted (CheckReasonRef (GetRecordPolicy t) None R s) \<longleftrightarrow> t \<notin> {tRLifelineStart, tRSidelineStart, tRLineInboundRequest, tRInboundRequest}"
    by (simp add: check_simps c)
  show "accepted (CheckRedirectRef (GetRecordPolicy t) None R s) \<longleftrightarrow> t \<notin> {tROutRetryRequest, tRLineMemoryReuse}" by (simp add: check_simps c)
  show "accepted (CheckRejoinRef (GetRecordPolicy t) None d prev R s) \<longleftrightarrow>
       t \<notin> {tRLineActivate, tRLineDeactivate, tRLineMemory, tRLineMemoryReuse, tRLineMemoryExpected} \<or>
       t = tRLineActivate \<and> prev \<in> {tRLifelineStart, tRSidelineStart, tRLineMemoryInit}"
    by (simp add: check_simps c direct_has assms(2))
qed

theorem record_reference_presence_witness:
  "let d = \<lparr>pcd_RecordType = tRLineActivate, pcd_LocalPN = 70000, pcd_PolicyProvider = Some GetRecordPolicy\<rparr>; p = GetRecordPolicy tRLineActivate in
   pol_IsValid p \<and> accepted (CheckRejoinRef p None d tRLineMemoryInit (\<lambda>_. sret noDep) ()) \<and> \<not> accepted (CheckRejoinRef p None d tRLineMemory (\<lambda>_. sret noDep) ())"
proof -
  have v: "pol_IsValid (GetRecordPolicy tRLineActivate)" by (simp add: known_valid knownType_def record_types)
  have o: "tRLineMemory \<notin> {tRLifelineStart, tRSidelineStart, tRLineMemoryInit}" by (auto simp: record_types)
  let ?d = "\<lparr>pcd_RecordType = tRLineActivate, pcd_LocalPN = 70000, pcd_PolicyProvider = Some GetRecordPolicy\<rparr>"
  show ?thesis using v o record_reference_presence [of tRLineActivate ?d "\<lambda>_. sret noDep" "()" None tRLineMemoryInit, OF v]
      record_reference_presence [of tRLineActivate ?d "\<lambda>_. sret noDep" "()" None tRLineMemory, OF v] by (simp add: Let_def)
qed

text \<open>The check of a predecessor that is not redirected, as one decision, and when it succeeds.\<close>

lemma prev_decision:
  fixes root :: "Global option"
  assumes k: "knownType t" "knownType f" and d: "pcd_RecordType d = t" "pcd_PolicyProvider d = Some GetRecordPolicy" "\<not> ref_IsEmpty (Some g)"
    and r: "R g s = Ok (s', Inr found)" "dep_RecordType found = f" "RedirectToRef found = None"
  defines "crossing \<equiv> \<not> ref_IsEmpty (dep_RootRef found) \<and> \<not> global_Equal root (dep_RootRef found)"
  shows "CheckPrevRef (GetRecordPolicy t) root (Some g) d R s =
    (if t = tRLifelineStart \<or> t = tRSidelineStart then Ok (s, Inl ''must be empty'')
     else if (t = tROutRetryRequest \<or> t = tRLineRecap) \<and> \<not> GetPulseNumber (addressLocal g) < pcd_LocalPN d then Ok (s, Inl ''must be prev pulse'')
     else if t = tRLineRecap then if crossing then Ok (s', Inl ''filament crossing is forbidden'') else Ok (s', Inr False)
     else if f = tRLineMemoryExpected \<and> GetPulseNumber (addressLocal g) \<noteq> pcd_LocalPN d \<and> \<not> (t = tRLineMemoryProvided \<or> t = tRLineDeactivate)
       then Ok (s', Inl ''memory is expected'')
     else if t = tRInboundRequest then Ok (s', Inr True)
     else if global_Equal root (Some g) then Ok (s', Inr (f = tRLineInboundRequest))
     else if crossing then Ok (s', Inl ''filament crossing is forbidden'') else Ok (s', Inr False))"
proof -
  have top: "\<not> - 1 \<le> (35 :: RecordType)" by code_simp
  have z: "\<not> dep_IsZero found" "\<not> dep_IsNotAvailable found"
    using k(2) r(2) top by (auto simp: dep_IsZero_def dep_IsNotAvailable_def RecordNotAvailable_def knownType_def record_types)
  note c = policy_classes(1,2,6,8) [OF k(1)] policy_classes(7,11) [OF k(2)]
  consider (start) "t = tRLifelineStart \<or> t = tRSidelineStart"
    | (early) "\<not> (t = tRLifelineStart \<or> t = tRSidelineStart)" "(t = tROutRetryRequest \<or> t = tRLineRecap) \<and> \<not> GetPulseNumber (addressLocal g) < pcd_LocalPN d"
    | (checked) "\<not> (t = tRLifelineStart \<or> t = tRSidelineStart)" "\<not> ((t = tROutRetryRequest \<or> t = tRLineRecap) \<and> \<not> GetPulseNumber (addressLocal g) < pcd_LocalPN d)" by blast
  then show ?thesis
  proof cases
    case start
    then show ?thesis using d(3) by (simp add: CheckPrevRef_def whenExact_def checkExact_def c(1) sfail_def)
  next
    case early
    then have "hasAny (GetRecordPolicy t) NextPulseOnly \<and> pcd_LocalPN d \<le> GetPulseNumber (addressLocal g)" unfolding c(3) by auto
    then show ?thesis using early d(3) by (simp only: CheckPrevRef_def whenExact_def checkExact_def c(1) if_True if_False sum.case option.case simp_thms sfail_def)
  next
    case checked
    let ?v = "GetRecordPolicy t"
    have n: "\<not> (hasAny ?v NextPulseOnly \<and> GetPulseNumber (addressLocal g) \<ge> pcd_LocalPN d)" using checked(2) unfolding c(3) by auto
    have e: "CheckPrevRef ?v root (Some g) d R s =
      (if hasAny ?v RecapFlag then if crossing then Ok (s', Inl ''filament crossing is forbidden'') else Ok (s', Inr False)
       else sbnd (blockedByPulse d g found (GetRecordPolicy f)) (\<lambda>_. forkOf ?v root g found (GetRecordPolicy f)) s')"
      using checked(1) n d(3) z by (auto simp add: CheckPrevRef_def whenExact_def checkExact_def c(1) sbnd_def [of "R g"] sbnd_def [of "slift _"] slift_def r d(2)
        sfail_def sret_def follow_free provided_def crossing_def)
    have b: "blockedByPulse d g found (GetRecordPolicy f) s' =
      (if f = tRLineMemoryExpected \<and> GetPulseNumber (addressLocal g) \<noteq> pcd_LocalPN d \<and> \<not> (t = tRLineMemoryProvided \<or> t = tRLineDeactivate)
       then Ok (s', Inl ''memory is expected'') else Ok (s', Inr ()))" using d(1) r(2) by (auto simp: blockedByPulse_def c(5) sret_def sfail_def)
    have "hasAny ?v BranchedStart \<longleftrightarrow> t = tRInboundRequest" using checked(1) c(2) by blast
    then show ?thesis unfolding if_not_P [OF checked(1)] if_not_P [OF checked(2)] e
      by (simp add: sbnd_def b c(4) forkOf_def IsBranched_def c(6) sret_def sfail_def crossing_def)
  qed
qed

lemma decision_succeeds:
  assumes "RC \<Longrightarrow> \<not> BR"
  shows "(if A then Ok (s, Inl e1) else if NP \<and> \<not> LT then Ok (s, Inl e2) else if RC then if CR then Ok (s', Inl e3) else Ok (s', Inr False)
     else if ME \<and> \<not> SP \<and> \<not> PD then Ok (s', Inl e4) else if BR then Ok (s', Inr True) else if EQ then Ok (s', Inr FK)
     else if CR then Ok (s', Inl e5) else Ok (s', Inr False)) = Ok (s', Inr fork) \<longleftrightarrow>
     \<not> A \<and> (NP \<longrightarrow> LT) \<and> (ME \<longrightarrow> SP \<or> PD \<or> RC) \<and> (BR \<or> \<not> RC \<and> EQ \<or> \<not> CR) \<and> fork = (BR \<or> \<not> RC \<and> EQ \<and> FK)"
  using assms by auto

text \<open>C30: Which records the references of a record may name. If the resolver finds for the reference an available record of a known type,
  it is accepted as the root exactly when it starts a line or a filament, where the root of a sideline start may be of any type; as
  the rejoined record exactly when it is an inbound response of the same pulse; as the redirect of a retry when it is a retryable request and as the redirect of a reused memory when it
  is a memory, and is not redirected itself. It is accepted as the predecessor, if it is not redirected itself, exactly when
  retries and recaps follow records of earlier pulses, an expected memory of another pulse is followed by a provided memory, a deactivation or a recap only,
  and no filament is crossed; a fork is reported exactly for a branch and for a record right after a line request that is its root.
  A reference that the type of the record must not have is refused.\<close>

theorem record_reference_targets:
  assumes "pol_IsValid (GetRecordPolicy t)" "pcd_RecordType d = t" "pcd_PolicyProvider d = Some GetRecordPolicy" "\<not> ref_IsEmpty (Some g)"
    and "R g s = Ok (s', Inr found)" "dep_RecordType found = f" "pol_IsValid (GetRecordPolicy f)"
  shows "(accepted (CheckRootRef (GetRecordPolicy t) (Some g) d R s) \<longleftrightarrow>
       t \<noteq> tRLifelineStart \<and> (t = tRSidelineStart \<or> f \<in> {tRLifelineStart, tRSidelineStart, tRLineInboundRequest, tRInboundRequest})) \<and>
    (accepted (CheckReasonRef (GetRecordPolicy t) (Some g) R s) \<longleftrightarrow> t \<in> {tRLifelineStart, tRSidelineStart, tRLineInboundRequest, tRInboundRequest}) \<and>
    (accepted (CheckRedirectRef (GetRecordPolicy t) (Some g) R s) \<longleftrightarrow> RedirectToRef found = None \<and>
       (t = tROutRetryRequest \<and> f = tROutRetryableRequest \<or> t = tRLineMemoryReuse \<and> f \<in> {tRLineMemory, tRLineMemoryProvided})) \<and>
    (accepted (CheckRejoinRef (GetRecordPolicy t) (Some g) d prev R s) \<longleftrightarrow>
       t \<in> {tRLineActivate, tRLineDeactivate, tRLineMemory, tRLineMemoryReuse, tRLineMemoryExpected} \<and>
       \<not> (t = tRLineActivate \<and> prev \<in> {tRLifelineStart, tRSidelineStart, tRLineMemoryInit}) \<and>
       GetPulseNumber (addressLocal g) = pcd_LocalPN d \<and> f = tRInboundResponse) \<and>
    (RedirectToRef found = None \<longrightarrow> CheckPrevRef (GetRecordPolicy t) root (Some g) d R s = Ok (s', Inr fork) \<longleftrightarrow>
       t \<notin> {tRLifelineStart, tRSidelineStart} \<and>
       (t \<in> {tROutRetryRequest, tRLineRecap} \<longrightarrow> GetPulseNumber (addressLocal g) < pcd_LocalPN d) \<and>
       (f = tRLineMemoryExpected \<longrightarrow> GetPulseNumber (addressLocal g) = pcd_LocalPN d \<or> t \<in> {tRLineMemoryProvided, tRLineDeactivate, tRLineRecap}) \<and>
       (t = tRInboundRequest \<or> t \<noteq> tRLineRecap \<and> global_Equal root (Some g) \<or> ref_IsEmpty (dep_RootRef found) \<or> global_Equal root (dep_RootRef found)) \<and>
       fork = (t = tRInboundRequest \<or> t \<noteq> tRLineRecap \<and> global_Equal root (Some g) \<and> f = tRLineInboundRequest))"
proof (intro conjI impI)
  have k: "knownType t" "knownType f" using assms(1,7) by (simp_all add: known_valid)
  have top: "\<not> - 1 \<le> (35 :: RecordType)" by code_simp
  have z: "\<not> dep_IsZero found" "\<not> dep_IsNotAvailable found" "tRLineMemoryExpected \<noteq> tRLineInboundRequest"
    using k(2) assms(6) top by (auto simp: dep_IsZero_def dep_IsNotAvailable_def RecordNotAvailable_def knownType_def record_types)
  have o: "tRLineMemoryExpected \<noteq> tRLineInboundRequest" "tRLineRecap \<notin> {tRLifelineStart, tRSidelineStart, tRInboundRequest}"
    "tRInboundRequest \<notin> {tRLifelineStart, tRSidelineStart}" "tROutRetryRequest \<noteq> tRLineMemoryReuse" by (auto simp: record_types)
  note c = policy_classes(1-12) [OF k(1)] policy_classes(3,7,10,11) [OF k(2)]
  note s = check_simps z assms(2-7) c
  show "accepted (CheckRootRef (GetRecordPolicy t) (Some g) d R s) \<longleftrightarrow>
       t \<noteq> tRLifelineStart \<and> (t = tRSidelineStart \<or> f \<in> {tRLifelineStart, tRSidelineStart, tRLineInboundRequest, tRInboundRequest})" by (auto simp: s)
  show "accepted (CheckReasonRef (GetRecordPolicy t) (Some g) R s) \<longleftrightarrow> t \<in> {tRLifelineStart, tRSidelineStart, tRLineInboundRequest, tRInboundRequest}"
    by (auto simp: s)
  show "accepted (CheckRedirectRef (GetRecordPolicy t) (Some g) R s) \<longleftrightarrow> RedirectToRef found = None \<and>
       (t = tROutRetryRequest \<and> f = tROutRetryableRequest \<or> t = tRLineMemoryReuse \<and> f \<in> {tRLineMemory, tRLineMemoryProvided})"
    using o(4) by (auto simp: s redirect_has)
  show "accepted (CheckRejoinRef (GetRecordPolicy t) (Some g) d prev R s) \<longleftrightarrow>
       t \<in> {tRLineActivate, tRLineDeactivate, tRLineMemory, tRLineMemoryReuse, tRLineMemoryExpected} \<and>
       \<not> (t = tRLineActivate \<and> prev \<in> {tRLifelineStart, tRSidelineStart, tRLineMemoryInit}) \<and>
       GetPulseNumber (addressLocal g) = pcd_LocalPN d \<and> f = tRInboundResponse"
    by (auto simp: s direct_has provided_def)
  show "CheckPrevRef (GetRecordPolicy t) root (Some g) d R s = Ok (s', Inr fork) \<longleftrightarrow>
       t \<notin> {tRLifelineStart, tRSidelineStart} \<and>
       (t \<in> {tROutRetryRequest, tRLineRecap} \<longrightarrow> GetPulseNumber (addressLocal g) < pcd_LocalPN d) \<and>
       (f = tRLineMemoryExpected \<longrightarrow> GetPulseNumber (addressLocal g) = pcd_LocalPN d \<or> t \<in> {tRLineMemoryProvided, tRLineDeactivate, tRLineRecap}) \<and>
       (t = tRInboundRequest \<or> t \<noteq> tRLineRecap \<and> global_Equal root (Some g) \<or> ref_IsEmpty (dep_RootRef found) \<or> global_Equal root (dep_RootRef found)) \<and>
       fork = (t = tRInboundRequest \<or> t \<noteq> tRLineRecap \<and> global_Equal root (Some g) \<and> f = tRLineInboundRequest)"
    if "RedirectToRef found = None"
    unfolding prev_decision [of t f d g R s s' found root, OF k assms(2-6) that] by (subst decision_succeeds) (use o(2) in \<open>simp_all add: de_Morgan_conj\<close>)
qed

text \<open>A memory of a later pulse after an expected memory: it is refused as a memory and accepted as a provided memory.\<close>

theorem record_reference_targets_witness:
  "let g = \<lparr>addressLocal = \<lparr>pulseAndScope = 70000, local_hash = [1]\<rparr>, addressBase = \<lparr>pulseAndScope = 70000, local_hash = [1]\<rparr>\<rparr>;
       R = (\<lambda>_. sret (noDep\<lparr>dep_RecordType := tRLineMemoryExpected\<rparr>));
       d = (\<lambda>t. \<lparr>pcd_RecordType = t, pcd_LocalPN = 70010, pcd_PolicyProvider = Some GetRecordPolicy\<rparr>) in
   CheckPrevRef (GetRecordPolicy tRLineMemory) None (Some g) (d tRLineMemory) R () \<noteq> Ok ((), Inr False) \<and>
   CheckPrevRef (GetRecordPolicy tRLineMemoryProvided) None (Some g) (d tRLineMemoryProvided) R () = Ok ((), Inr False)"
proof -
  let ?g = "\<lparr>addressLocal = \<lparr>pulseAndScope = 70000, local_hash = [1]\<rparr>, addressBase = \<lparr>pulseAndScope = 70000, local_hash = [1]\<rparr>\<rparr>"
  let ?R = "\<lambda>_ :: Global. sret (noDep\<lparr>dep_RecordType := tRLineMemoryExpected\<rparr>)"
  let ?d = "\<lambda>t. \<lparr>pcd_RecordType = t, pcd_LocalPN = 70010, pcd_PolicyProvider = Some GetRecordPolicy\<rparr>"
  have v: "pol_IsValid (GetRecordPolicy t)" if "t \<in> {tRLineMemory, tRLineMemoryProvided, tRLineMemoryExpected}" for t
    using that by (auto simp: known_valid knownType_def record_types)
  have e: "\<not> ref_IsEmpty (Some ?g)" "GetPulseNumber (addressLocal ?g) \<noteq> 70010" "ref_IsEmpty None" by code_simp+
  have r: "?R ?g () = Ok ((), Inr (noDep\<lparr>dep_RecordType := tRLineMemoryExpected\<rparr>))" by (simp add: sret_def)
  have o: "tRLineMemory \<notin> {tRLineMemoryProvided, tRLineDeactivate, tRLineRecap}" "tRLineMemoryProvided \<notin> {tRLifelineStart, tRSidelineStart, tROutRetryRequest, tRLineRecap, tRInboundRequest}"
    "\<not> global_Equal None (Some ?g)" by (auto simp: record_types) code_simp
  have d: "dep_RecordType (noDep\<lparr>dep_RecordType := tRLineMemoryExpected\<rparr>) = tRLineMemoryExpected" "RedirectToRef (noDep\<lparr>dep_RecordType := tRLineMemoryExpected\<rparr>) = None"
    "dep_RootRef (noDep\<lparr>dep_RecordType := tRLineMemoryExpected\<rparr>) = None" by (simp_all add: noDep_def)
  have m: "CheckPrevRef (GetRecordPolicy tRLineMemory) None (Some ?g) (?d tRLineMemory) ?R () \<noteq> Ok ((), Inr False)"
    using record_reference_targets [of tRLineMemory "?d tRLineMemory" ?g ?R "()" "()", OF v _ _ e(1) r d(1) v, of tRLineMemory None False] o(1) e d by auto
  have p: "CheckPrevRef (GetRecordPolicy tRLineMemoryProvided) None (Some ?g) (?d tRLineMemoryProvided) ?R () = Ok ((), Inr False)"
    using record_reference_targets [of tRLineMemoryProvided "?d tRLineMemoryProvided" ?g ?R "()" "()", OF v _ _ e(1) r d(1) v, of tRLineMemory None False] o(2,3) e d by auto
  show ?thesis unfolding Let_def using m p by blast
qed

text \<open>
  The rule which types a record can follow is not enforced for a predecessor without a redirect: a memory record, which
  can follow an inbound request or an expected memory only, is accepted right after the start of a line.
\<close>

lemma follow_rule_unenforced:
  fixes g :: Global
  assumes "\<not> global_IsEmpty g"
  defines "details \<equiv> \<lparr>pcd_RecordType = tRLineMemory, pcd_LocalPN = GetPulseNumber (addressLocal g), pcd_PolicyProvider = Some GetRecordPolicy\<rparr>"
  defines "start \<equiv> noDep\<lparr>dep_RecordType := tRLifelineStart\<rparr>"
  shows "Has (CanFollow (GetRecordPolicy tRLineMemory)) tRLifelineStart = Ok False \<and>
    CheckPrevRef (GetRecordPolicy tRLineMemory) (Some g) (Some g) details (\<lambda>_. sret start) () = Ok ((), Inr False)"
proof -
  have k: "knownType tRLineMemory" "knownType tRLifelineStart" by (simp_all add: knownType_def record_types)
  have h: "Has (CanFollow (GetRecordPolicy tRLineMemory)) tRLifelineStart = Ok False" by code_simp
  have z: "\<not> dep_IsZero start" "\<not> dep_IsNotAvailable start" "RedirectToRef start = None" "dep_RecordType start = tRLifelineStart" "dep_RootRef start = None"
    unfolding start_def by code_simp+
  have o: "tRLineMemory \<notin> {tRLifelineStart, tRSidelineStart, tROutRetryRequest, tRLineRecap, tRInboundRequest}" "tRLifelineStart \<notin> {tRLineMemoryExpected, tRLineInboundRequest}"
    by (auto simp: record_types)
  show ?thesis using assms(1) z o h
    by (simp add: check_simps follow_free policy_classes [OF k(1)] policy_classes [OF k(2)] ref_IsEmpty_def provided_def details_def
      blockedByPulse_def forkOf_def IsBranched_def global_Equal_def)
qed

end
