(* ===== verification/Line_Bundle.thy ===== *)
theory Line_Bundle
  imports Record_Policy
begin

text \<open>
  Records and the resolver of a bundle: \<^verbatim>\<open>ledger/server/lineage/record.go\<close>, \<^verbatim>\<open>resolver_record.go\<close>,
  \<^verbatim>\<open>resolver_dep.go\<close>, \<^verbatim>\<open>resolver_line.go\<close>, \<^verbatim>\<open>resolver_bundle.go\<close>.
  A bundle collects records that are to be added to a line at once. Every record is checked against its policy, and its
  references are resolved within the bundle or by the line.
\<close>

subsection \<open>Records\<close>

record Excerpt =
  ex_RecordType :: RecordType
  ex_PayloadDigests :: "u8 list list"
  ex_PrevRef :: "Global option"
  ex_RootRef :: "Global option"
  ex_ReasonRef :: "Global option"
  ex_RedirectRef :: "Global option"
  ex_RejoinRef :: "Global option"

record LRegisterRequest =
  req_AnticipatedRef :: "Global option"
  req_ProducedBy :: "Global option"
  req_ProducerSignature :: "u8 list"
  req_lazyIsZero :: bool
  req_payloads :: "u8 list list"

record RLineRecap =
  rcp_State :: u32
  rcp_PrevType :: RecordType
  rcp_RedirectToType :: RecordType
  rcp_PrevRedirectRef :: "Global option"
  rcp_payloads :: "u8 list list"

record LRecord =
  rec_Excerpt :: Excerpt
  rec_RecRef :: "Global option"
  rec_ProducedBy :: "Global option"
  rec_ProducerSignature :: "u8 list"
  rec_RegistrarSignature :: "u8 list"
  rec_regReq :: "LRegisterRequest option"
  rec_recapRec :: "RLineRecap option"

definition NewRegRecord :: "Excerpt \<Rightarrow> LRegisterRequest \<Rightarrow> LRecord" where
  "NewRegRecord excerpt req =
     \<lparr>rec_Excerpt = excerpt, rec_RecRef = req_AnticipatedRef req, rec_ProducedBy = req_ProducedBy req,
      rec_ProducerSignature = req_ProducerSignature req, rec_RegistrarSignature = [], rec_regReq = Some req, rec_recapRec = None\<rparr>"

definition NewRecapRecord :: "Excerpt \<Rightarrow> Global option \<Rightarrow> RLineRecap option \<Rightarrow> LRecord res" where
  "NewRecapRecord excerpt recRef recap =
     (if recRef = None then Panic ''IllegalValue''
      else if recap = None then Panic ''IllegalValue''
      else Ok \<lparr>rec_Excerpt = excerpt, rec_RecRef = recRef, rec_ProducedBy = None, rec_ProducerSignature = [],
        rec_RegistrarSignature = [], rec_regReq = None, rec_recapRec = recap\<rparr>)"

definition excerpt_Equal :: "Excerpt \<Rightarrow> Excerpt \<Rightarrow> bool" where
  "excerpt_Equal a b \<longleftrightarrow>
     ex_RecordType a = ex_RecordType b \<and> ex_PayloadDigests a = ex_PayloadDigests b \<and> global_Equal (ex_PrevRef a) (ex_PrevRef b) \<and>
     global_Equal (ex_RootRef a) (ex_RootRef b) \<and> global_Equal (ex_ReasonRef a) (ex_ReasonRef b) \<and>
     global_Equal (ex_RedirectRef a) (ex_RedirectRef b) \<and> global_Equal (ex_RejoinRef a) (ex_RejoinRef b)"

definition EqualForRecordIdempotency :: "LRecord \<Rightarrow> LRecord \<Rightarrow> bool" where
  "EqualForRecordIdempotency v r \<longleftrightarrow> excerpt_Equal (rec_Excerpt v) (rec_Excerpt r)"

definition rec_IsValid :: "LRecord \<Rightarrow> bool res" where
  "rec_IsValid v =
     (if ref_IsEmpty (rec_RecRef v) then Ok False
      else case rec_regReq v of Some req \<Rightarrow> Ok (\<not> req_lazyIsZero req)
      | None \<Rightarrow> if rec_recapRec v \<noteq> None then Ok True else Panic ''IllegalState'')"

text \<open>The payloads of the record body.\<close>

definition recordPayloads :: "LRecord \<Rightarrow> u8 list list res" where
  "recordPayloads v =
     (case rec_regReq v of Some req \<Rightarrow> Ok (req_payloads req)
      | None \<Rightarrow> (case rec_recapRec v of Some rc \<Rightarrow> Ok (rcp_payloads rc) | None \<Rightarrow> Panic ''IllegalState''))"

record resolvedRecord =
  rr_prev :: recordNo
  rr_next :: recordNo
  rr_recordNo :: recordNo
  rr_filNo :: filamentNo
  rr_recapNo :: recordNo
  rr_storageIndex :: DirectoryIndex
  rr_filamentStartIndex :: DirectoryIndexAndFlags
  rr_redirectToType :: RecordType
  rr_Record :: LRecord

abbreviation rr_Excerpt :: "resolvedRecord \<Rightarrow> Excerpt" where
  "rr_Excerpt r \<equiv> rec_Excerpt (rr_Record r)"

definition asResolvedDependency :: "resolvedRecord \<Rightarrow> ResolvedDependency" where
  "asResolvedDependency p =
     (let rd = noDep\<lparr>dep_RecordType := ex_RecordType (rr_Excerpt p), dep_RootRef := ex_RootRef (rr_Excerpt p)\<rparr>;
          redirectToRef = ex_RedirectRef (rr_Excerpt p) in
      if \<not> ref_IsEmpty redirectToRef then rd\<lparr>RedirectToRef := redirectToRef, RedirectToType := rr_redirectToType p\<rparr> else rd)"

definition rr_IsRecap :: "resolvedRecord \<Rightarrow> bool" where
  "rr_IsRecap p \<longleftrightarrow> ex_RecordType (rr_Excerpt p) = tRLineRecap"

definition rr_IsSidelineStart :: "resolvedRecord \<Rightarrow> bool" where
  "rr_IsSidelineStart p \<longleftrightarrow> ex_RecordType (rr_Excerpt p) = tRSidelineStart"

definition rr_Local :: "resolvedRecord \<Rightarrow> Local res" where
  "rr_Local r = (case rec_RecRef (rr_Record r) of None \<Rightarrow> Panic ''nil pointer'' | Some g \<Rightarrow> Ok (addressLocal g))"

subsection \<open>The interface of a line\<close>

record DependencyResolver =
  FindOtherDependency :: "Global \<Rightarrow> string + ResolvedDependency"
  FindLineDependency :: "Global option \<Rightarrow> Global \<Rightarrow> string + ResolvedDependency"

record lineResolver =
  res_nextRecNo :: recordNo
  res_nextFilNo :: filamentNo
  res_lineBase :: Local
  res_localPN :: Number
  res_findOther :: "Global option \<Rightarrow> string + ResolvedDependency"
  res_findLine :: "Global option \<Rightarrow> Global option \<Rightarrow> string + ResolvedDependency"
  res_findChained :: "Global option \<Rightarrow> Global option \<Rightarrow> bool \<Rightarrow> (filamentNo \<times> recordNo \<times> ResolvedDependency \<times> recordNo) res"
  res_findLocal :: "Global option \<Rightarrow> Global option \<Rightarrow> (filamentNo \<times> recordNo \<times> ResolvedDependency) res"
  res_findFilament :: "Local \<Rightarrow> (filamentNo \<times> ResolvedDependency) res"
  res_findCollision :: "Local \<Rightarrow> LRecord \<Rightarrow> (string + recordNo) res"

subsection \<open>Bundles\<close>

record UnresolvedDependency =
  ud_RecordRef :: "Global option"
  ud_RecapRootRef :: "Global option"

definition ud_Key :: "UnresolvedDependency \<Rightarrow> Global option" where
  "ud_Key v = (if ud_RecordRef v \<noteq> None then ud_RecordRef v else ud_RecapRootRef v)"

definition ud_Equal :: "UnresolvedDependency \<Rightarrow> UnresolvedDependency \<Rightarrow> bool" where
  "ud_Equal v o' \<longleftrightarrow> global_Equal (ud_RecordRef v) (ud_RecordRef o') \<and> global_Equal (ud_RecapRootRef v) (ud_RecapRootRef o')"

text \<open>An error has the record and the field it is about, if there are any, and a message.\<close>

type_synonym bundleError = "Global option \<times> string \<times> string"

record BundleResolver =
  b_maxRecNo :: recordNo
  b_maxFilNo :: filamentNo
  b_lastRecord :: "Global option"
  b_unresolved :: "UnresolvedDependency list"
  b_errors :: "bundleError list"
  b_branchRoot :: recordNo
  b_branchFirst :: recordNo
  b_isLineStart :: bool
  b_isResolved :: bool
  b_records :: "resolvedRecord list"
  b_dupRecords :: "recordNo list"

definition newBundleResolver :: "lineResolver \<Rightarrow> BundleResolver" where
  "newBundleResolver resolver =
     \<lparr>b_maxRecNo = res_nextRecNo resolver, b_maxFilNo = res_nextFilNo resolver, b_lastRecord = None, b_unresolved = [], b_errors = [],
      b_branchRoot = 0, b_branchFirst = 0, b_isLineStart = False, b_isResolved = False, b_records = [], b_dupRecords = []\<rparr>"

definition b_hasNoTroubles :: "BundleResolver \<Rightarrow> bool" where
  "b_hasNoTroubles p \<longleftrightarrow> b_errors p = [] \<and> b_unresolved p = []"

definition b_IsEmpty :: "BundleResolver \<Rightarrow> bool" where
  "b_IsEmpty p \<longleftrightarrow> b_records p = [] \<and> b_dupRecords p = [] \<and> b_hasNoTroubles p"

definition b_HasErrors :: "BundleResolver \<Rightarrow> bool" where
  "b_HasErrors p \<longleftrightarrow> b_errors p \<noteq> []"

definition b_IsReadyForStage :: "BundleResolver \<Rightarrow> bool" where
  "b_IsReadyForStage p \<longleftrightarrow> (b_records p \<noteq> [] \<or> b_dupRecords p \<noteq> []) \<and> b_hasNoTroubles p"

definition b_setLastRecord :: "Global option \<Rightarrow> BundleResolver \<Rightarrow> BundleResolver" where
  "b_setLastRecord ref p = p\<lparr>b_lastRecord := ref\<rparr>"

definition b_addRefError :: "string \<Rightarrow> string \<Rightarrow> BundleResolver \<Rightarrow> BundleResolver" where
  "b_addRefError name err p = p\<lparr>b_errors := b_errors p @ [(b_lastRecord p, name, err)], b_isResolved := False\<rparr>"

definition b_addError :: "string \<Rightarrow> BundleResolver \<Rightarrow> BundleResolver" where
  "b_addError err p = b_addRefError '''' err p"

definition b_checkBase :: "Local \<Rightarrow> string \<Rightarrow> Global option \<Rightarrow> BundleResolver \<Rightarrow> bool \<times> BundleResolver" where
  "b_checkBase base fieldName ref p =
     (if ref_IsEmpty ref then (True, p)
      else if base \<noteq> addressBase (the ref) then (False, b_addRefError fieldName ''wrong base'' p)
      else (True, p))"

definition b_checkGenericRef :: "string \<Rightarrow> Global option \<Rightarrow> BundleResolver \<Rightarrow> bool \<times> BundleResolver" where
  "b_checkGenericRef fieldName ref p =
     (if ref_IsEmpty ref then (True, p)
      else if local_IsEmpty (addressBase (the ref)) then (False, b_addRefError fieldName ''empty base'' p)
      else (True, p))"

definition b_addDependency :: "Global option \<Rightarrow> Global option \<Rightarrow> BundleResolver \<Rightarrow> BundleResolver res" where
  "b_addDependency root ref p =
     (if ref = None \<and> root = None then Panic ''IllegalValue''
      else
        let p = p\<lparr>b_isResolved := False\<rparr> in
        Ok (if list_ex (\<lambda>d. global_Equal ref (ud_RecordRef d) \<and> global_Equal root (ud_RecapRootRef d)) (b_unresolved p) then p
            else p\<lparr>b_unresolved := b_unresolved p @ [\<lparr>ud_RecordRef = ref, ud_RecapRootRef = root\<rparr>]\<rparr>))"

definition b_checkOrdering :: "recordNo \<Rightarrow> filamentNo \<Rightarrow> BundleResolver \<Rightarrow> string + unit" where
  "b_checkOrdering recNo filNo p =
     (if recNo \<ge> b_maxRecNo p then Inl ''forward reference''
      else if filNo \<ge> b_maxFilNo p then Inl ''forward filament''
      else if filNo = 0 then Inl ''fork forbidden''
      else Inr ())"

text \<open>The index of the record of the bundle with the given local reference.\<close>

fun findIn :: "Local \<Rightarrow> nat \<Rightarrow> resolvedRecord list \<Rightarrow> nat option res" where
  "findIn refLocal i [] = Ok None"
| "findIn refLocal i (r # rs) = bnd (rr_Local r) (\<lambda>l. if refLocal = l then Ok (Some i) else findIn refLocal (Suc i) rs)"

definition b_findResolved :: "Local \<Rightarrow> BundleResolver \<Rightarrow> nat option res" where
  "b_findResolved refLocal p = findIn refLocal 0 (b_records p)"

definition b_getLocalFilament :: "Local \<Rightarrow> BundleResolver \<Rightarrow> (filamentNo \<times> ResolvedDependency) option res" where
  "b_getLocalFilament root p =
     bnd (b_findResolved root p) (\<lambda>found.
       case found of None \<Rightarrow> Ok None
       | Some i \<Rightarrow>
           let rd = b_records p ! i; rootRef = ex_RootRef (rr_Excerpt rd); filNo = (if rootRef = None then 1 else 0) in
           Ok (Some (filNo, noDep\<lparr>dep_RecordType := ex_RecordType (rr_Excerpt rd), dep_RootRef := rootRef\<rparr>)))"

definition b_checkCollision :: "lineResolver \<Rightarrow> resolvedRecord \<Rightarrow> Local \<Rightarrow> BundleResolver \<Rightarrow> (string + recordNo option) res" where
  "b_checkCollision resolver upd refLocal p =
     bnd (res_findCollision resolver refLocal (rr_Record upd)) (\<lambda>r.
       case r of Inl e \<Rightarrow> Ok (Inl e)
       | Inr foundNo \<Rightarrow>
           if foundNo \<noteq> 0 then if foundNo \<ge> b_maxRecNo p then Panic ''IllegalState'' else Ok (Inr (Some foundNo))
           else bnd (b_findResolved refLocal p) (\<lambda>d. if d \<noteq> None then Ok (Inl ''duplicate'') else Ok (Inr None)))"

subsection \<open>Adding a record to a bundle\<close>

text \<open>Subtraction of record numbers at their width.\<close>

definition recNo_sub :: "recordNo \<Rightarrow> recordNo \<Rightarrow> recordNo" where
  "recNo_sub a b = nat ((int a - int b) mod 2 ^ 32)"

text \<open>The state of the resolvers of one record: the bundle, the record, the type and the index of the previous record in the bundle.\<close>

record adding =
  ad_p :: BundleResolver
  ad_upd :: resolvedRecord
  ad_prevType :: RecordType
  ad_prevRecord :: "nat option"

definition ad_setFil :: "filamentNo \<Rightarrow> adding \<Rightarrow> adding" where
  "ad_setFil filNo s = s\<lparr>ad_upd := (ad_upd s)\<lparr>rr_filNo := filNo\<rparr>\<rparr>"

definition ad_depends :: "Global option \<Rightarrow> Global option \<Rightarrow> (adding, unit) step" where
  "ad_depends root ref s = bnd (b_addDependency root ref (ad_p s)) (\<lambda>p. Ok (s\<lparr>ad_p := p\<rparr>, Inr ()))"

definition ad_error :: "string \<Rightarrow> string \<Rightarrow> adding \<Rightarrow> adding" where
  "ad_error name err s = s\<lparr>ad_p := b_addRefError name err (ad_p s)\<rparr>"

text \<open>An error of a check is kept in the bundle.\<close>

definition checked :: "string \<Rightarrow> (adding, unit) step \<Rightarrow> adding \<Rightarrow> adding res" where
  "checked name m s = bnd (m s) (\<lambda>(s, r). case r of Inl e \<Rightarrow> Ok (ad_error name e s) | Inr _ \<Rightarrow> Ok s)"

definition rootResolver :: "lineResolver \<Rightarrow> adding PolicyResolverFunc" where
  "rootResolver resolver ref s =
     bnd (b_getLocalFilament (addressLocal ref) (ad_p s)) (\<lambda>found.
       case found of
         Some (filNo, dp) \<Rightarrow> if dep_IsZero dp then sfail ''not a root'' s else sret dp (ad_setFil filNo s)
       | None \<Rightarrow>
           bnd (res_findFilament resolver (addressLocal ref)) (\<lambda>(filNo, dep).
             let s = ad_setFil filNo s in
             if filNo \<ge> b_maxFilNo (ad_p s) then sfail ''forward filament'' s
             else if dep_IsNotAvailable dep then sbnd (ad_depends (Some ref) None) (\<lambda>_. sret dep) s
             else sret dep s))"

definition prevResolver :: "lineResolver \<Rightarrow> RecordPolicy \<Rightarrow> Global option \<Rightarrow> adding PolicyResolverFunc" where
  "prevResolver resolver policy rootRef ref s =
     bnd (b_findResolved (addressLocal ref) (ad_p s)) (\<lambda>found.
       case found of
         Some i \<Rightarrow>
           let rd = b_records (ad_p s) ! i; dep = asResolvedDependency rd in
           sret dep (s\<lparr>ad_prevRecord := Some i, ad_upd := (ad_upd s)\<lparr>rr_prev := rr_recordNo rd, rr_filNo := rr_filNo rd\<rparr>,
             ad_prevType := dep_RecordType dep\<rparr>)
       | None \<Rightarrow>
           let mustBeOpen = \<not> IsBranched policy in
           bnd (res_findChained resolver rootRef (Some ref) mustBeOpen) (\<lambda>(filNo, prev, dep, recap).
             let s = s\<lparr>ad_upd := (ad_upd s)\<lparr>rr_filNo := filNo, rr_prev := prev, rr_recapNo := recap\<rparr>\<rparr> in
             if dep_IsZero dep then sret dep s
             else if dep_IsNotAvailable dep then
               sbnd (if mustBeOpen then ad_depends rootRef (Some ref) else ad_depends None (Some ref)) (\<lambda>_. sret dep) s
             else if prev = 0 \<and> filNo \<noteq> 0 then Panic ''Impossible''
             else case b_checkOrdering prev filNo (ad_p s) of Inl e \<Rightarrow> sfail e s
             | Inr _ \<Rightarrow> sret dep (s\<lparr>ad_prevType := dep_RecordType dep\<rparr>)))"

definition forkPrev :: "adding \<Rightarrow> adding" where
  "forkPrev s =
     (let s = (if b_branchFirst (ad_p s) \<noteq> 0 then ad_error ''PrevRef'' ''can only be one branch in bundle'' s else s);
          s = (if recNo_sub (rr_recordNo (ad_upd s)) (b_branchRoot (ad_p s)) \<in> {0, 1}
               then s\<lparr>ad_p := (ad_p s)\<lparr>b_branchFirst := rr_recordNo (ad_upd s)\<rparr>\<rparr>
               else ad_error ''PrevRef'' ''misplaced branch fork'' s) in
      ad_setFil 0 s)"

definition linkPrev :: "nat \<Rightarrow> adding \<Rightarrow> adding" where
  "linkPrev i s =
     (let s = (if rr_next (b_records (ad_p s) ! i) \<noteq> 0 then ad_error ''PrevRef'' ''fork forbidden'' s else s);
          rd = b_records (ad_p s) ! i in
      ad_setFil (rr_filNo rd) (s\<lparr>ad_p := (ad_p s)\<lparr>b_records := (b_records (ad_p s))[i := rd\<lparr>rr_next := rr_recordNo (ad_upd s)\<rparr>]\<rparr>\<rparr>))"

definition resolvePrevRef :: "lineResolver \<Rightarrow> RecordPolicy \<Rightarrow> PolicyCheckDetails \<Rightarrow> adding \<Rightarrow> adding res" where
  "resolvePrevRef resolver policy details s =
     (let rootRef = ex_RootRef (rr_Excerpt (ad_upd s)) in
      bnd (CheckPrevRef policy rootRef (ex_PrevRef (rr_Excerpt (ad_upd s))) details (prevResolver resolver policy rootRef) s) (\<lambda>(s, r).
        case r of Inl e \<Rightarrow> Ok (ad_error ''PrevRef'' e s)
        | Inr isFork \<Rightarrow>
            Ok (if isFork then forkPrev s else case ad_prevRecord s of None \<Rightarrow> s | Some i \<Rightarrow> linkPrev i s)))"

definition rejoinResolver :: "adding PolicyResolverFunc" where
  "rejoinResolver ref s =
     bnd (b_findResolved (addressLocal ref) (ad_p s)) (\<lambda>found.
       case found of None \<Rightarrow> sret noDep s | Some i \<Rightarrow> sret (asResolvedDependency (b_records (ad_p s) ! i)) s)"

definition resolveSupplementaryRef :: "lineResolver \<Rightarrow> Global option \<Rightarrow> adding PolicyResolverFunc" where
  "resolveSupplementaryRef resolver rootRef ref s =
     (if ref_IsEmpty rootRef \<or> addressBase (the rootRef) \<noteq> addressBase ref then
        case res_findOther resolver (Some ref) of Inl e \<Rightarrow> sret noDep s
        | Inr dep \<Rightarrow> if dep_IsNotAvailable dep then sbnd (ad_depends None (Some ref)) (\<lambda>_. sret dep) s else sret dep s
      else
        bnd (res_findLocal resolver rootRef (Some ref)) (\<lambda>(filNo, recNo, dep).
          if dep_IsZero dep then
            case res_findLine resolver rootRef (Some ref) of Inl e \<Rightarrow> sfail e s
            | Inr dep \<Rightarrow> if dep_IsNotAvailable dep then sbnd (ad_depends None (Some ref)) (\<lambda>_. sret dep) s else sret dep s
          else if dep_IsNotAvailable dep then Panic ''Impossible''
          else if recNo = 0 \<and> filNo \<noteq> 0 then Panic ''Impossible''
          else case b_checkOrdering recNo filNo (ad_p s) of Inl e \<Rightarrow> sfail e s | Inr _ \<Rightarrow> sret dep s))"

definition redirectResolver :: "lineResolver \<Rightarrow> Global option \<Rightarrow> adding PolicyResolverFunc" where
  "redirectResolver resolver rootRef ref =
     sbnd (resolveSupplementaryRef resolver rootRef ref) (\<lambda>dep s. sret dep (s\<lparr>ad_upd := (ad_upd s)\<lparr>rr_redirectToType := RedirectToType dep\<rparr>\<rparr>))"

definition resolveRecordDependencies :: "lineResolver \<Rightarrow> RecordPolicy \<Rightarrow> PolicyCheckDetails \<Rightarrow> adding \<Rightarrow> adding res" where
  "resolveRecordDependencies resolver policy details s =
     (let ex = rr_Excerpt (ad_upd s); rootRef = ex_RootRef ex in
      bnd (checked ''RootRef'' (CheckRootRef policy rootRef details (rootResolver resolver)) s) (\<lambda>s.
      bnd (resolvePrevRef resolver policy details s) (\<lambda>s.
      bnd (checked ''RejoinRef'' (CheckRejoinRef policy (ex_RejoinRef ex) details (ad_prevType s) rejoinResolver) s) (\<lambda>s.
      checked ''RedirectRef'' (CheckRedirectRef policy (ex_RedirectRef ex) (redirectResolver resolver rootRef)) s))))"

text \<open>The checks of the bases, up to the first that fails.\<close>

definition b_checkBases :: "Local \<Rightarrow> resolvedRecord \<Rightarrow> BundleResolver \<Rightarrow> bool \<times> BundleResolver" where
  "b_checkBases base upd p =
     (let ex = rr_Excerpt upd;
          (ok, p) = b_checkBase base ''RecordRef'' (rec_RecRef (rr_Record upd)) p;
          (ok, p) = (if ok then b_checkBase base ''RootRef'' (ex_RootRef ex) p else (False, p));
          (ok, p) = (if ok then b_checkBase base ''PrevRef'' (ex_PrevRef ex) p else (False, p));
          (ok, p) = (if ok then b_checkBase base ''RedirectRef'' (ex_RedirectRef ex) p else (False, p));
          (ok, p) = (if ok then b_checkBase base ''RejoinRef'' (ex_RejoinRef ex) p else (False, p)) in
      if ok then b_checkGenericRef ''ReasonRef'' (ex_ReasonRef ex) p else (False, p))"

text \<open>The place of a record that starts a filament: an error, or the bundle with the number of its filament and the flags.\<close>

definition b_placeStart :: "RecordPolicy \<Rightarrow> Local \<Rightarrow> PolicyCheckDetails \<Rightarrow> resolvedRecord \<Rightarrow> BundleResolver \<Rightarrow> string + (BundleResolver \<times> resolvedRecord \<times> DirectoryEntryFlags)" where
  "b_placeStart policy base details upd p =
     (if \<not> IsAnyFilamentStart policy then Inr (p, upd, 0)
      else if b_records p = [] then
        if b_maxRecNo p \<le> 1 then Inr (p\<lparr>b_isLineStart := True\<rparr>, upd\<lparr>rr_filNo := 1\<rparr>, FilamentLocalStart)
        else Inr (p\<lparr>b_branchRoot := rr_recordNo upd\<rparr>, upd, FilamentLocalStart)
      else if b_branchRoot p \<noteq> 0 then Inl ''can only be one branch in bundle''
      else if GetPulseNumber base = pcd_LocalPN details \<or> PulseNumberOf (ex_ReasonRef (rr_Excerpt upd)) = pcd_LocalPN details then
        Inr (p\<lparr>b_branchRoot := rr_recordNo upd\<rparr>, upd, FilamentLocalStart)
      else Inl ''can only be first in bundle'')"

definition markRecord :: "RecordPolicy \<Rightarrow> DirectoryEntryFlags \<Rightarrow> resolvedRecord \<Rightarrow> resolvedRecord" where
  "markRecord policy flags upd =
     (let (flags, upd) = (if hasAny policy FilamentEnd then (flags OR FilamentClose, upd\<lparr>rr_next := deadFilament\<rparr>) else (flags, upd));
          flags = (if \<not> ref_IsEmpty (ex_RedirectRef (rr_Excerpt upd)) then flags OR FilamentReopen else flags) in
      if flags \<noteq> 0 then upd\<lparr>rr_filamentStartIndex := index_WithFlags 0 flags\<rparr> else upd)"

definition newUpdate :: "recordNo \<Rightarrow> LRecord \<Rightarrow> resolvedRecord" where
  "newUpdate recNo r =
     \<lparr>rr_prev = 0, rr_next = 0, rr_recordNo = recNo, rr_filNo = 0, rr_recapNo = 0, rr_storageIndex = 0, rr_filamentStartIndex = 0,
      rr_redirectToType = 0, rr_Record = r\<rparr>"

definition zeroRecord :: LRecord where
  "zeroRecord =
     \<lparr>rec_Excerpt = \<lparr>ex_RecordType = 0, ex_PayloadDigests = [], ex_PrevRef = None, ex_RootRef = None, ex_ReasonRef = None, ex_RedirectRef = None, ex_RejoinRef = None\<rparr>,
      rec_RecRef = None, rec_ProducedBy = None, rec_ProducerSignature = [], rec_RegistrarSignature = [], rec_regReq = None, rec_recapRec = None\<rparr>"

definition zeroUpdate :: resolvedRecord where
  "zeroUpdate = newUpdate 0 zeroRecord"

definition b_fail :: "string \<Rightarrow> string \<Rightarrow> BundleResolver \<Rightarrow> (BundleResolver \<times> bool) res" where
  "b_fail name e p = Ok (b_addRefError name e p, False)"

definition b_addRecord :: "resolvedRecord \<Rightarrow> BundleResolver \<Rightarrow> (BundleResolver \<times> bool) res" where
  "b_addRecord upd p = (let p = p\<lparr>b_records := b_records p @ [upd]\<rparr> in Ok (p, b_isResolved p))"

definition b_addChecked :: "lineResolver \<Rightarrow> RecordPolicy \<Rightarrow> PolicyCheckDetails \<Rightarrow> resolvedRecord \<Rightarrow> BundleResolver \<Rightarrow> (BundleResolver \<times> bool) res" where
  "b_addChecked resolver policy details upd p =
     (let base = res_lineBase resolver; ref = rec_RecRef (rr_Record upd) in
      bnd (CheckRecordRef policy base ref details) (\<lambda>r.
      case r of Inl e \<Rightarrow> b_fail ''RecordRef'' e p
      | Inr _ \<Rightarrow>
          bnd (b_checkCollision resolver upd (addressLocal (the ref)) p) (\<lambda>c.
          case c of Inl e \<Rightarrow> b_fail ''RecordRef'' e p
          | Inr (Some foundNo) \<Rightarrow> let p = p\<lparr>b_dupRecords := b_dupRecords p @ [foundNo]\<rparr> in Ok (p, b_isResolved p)
          | Inr None \<Rightarrow>
              (case b_placeStart policy base details upd p of Inl e \<Rightarrow> b_fail '''' e p
               | Inr (p, upd, flags) \<Rightarrow>
                   bnd (resolveRecordDependencies resolver policy details
                     \<lparr>ad_p = p, ad_upd = markRecord policy flags upd, ad_prevType = 0, ad_prevRecord = None\<rparr>) (\<lambda>s.
                   b_addRecord (ad_upd s) (ad_p s))))))"

definition b_Add :: "lineResolver \<Rightarrow> (RecordType \<Rightarrow> RecordPolicy) \<Rightarrow> LRecord \<Rightarrow> BundleResolver \<Rightarrow> (BundleResolver \<times> bool) res" where
  "b_Add resolver policyProvider r p =
     (let upd = newUpdate (b_maxRecNo p + length (b_records p)) r;
          p = (b_setLastRecord (rec_RecRef r) p)\<lparr>b_isResolved := True\<rparr>;
          recType = ex_RecordType (rec_Excerpt r);
          policy = policyProvider recType;
          details = \<lparr>pcd_RecordType = recType, pcd_LocalPN = res_localPN resolver, pcd_PolicyProvider = Some policyProvider\<rparr> in
      bnd (if \<not> pol_IsValid policy then b_fail '''' ''unknown type'' p
           else
             bnd (recordPayloads r) (\<lambda>payloads.
             if payloads \<noteq> [] \<and> \<not> hasAny policy PayloadAllowed then b_fail '''' ''payload forbidden'' p
             else
               let (ok, p) = b_checkBases (res_lineBase resolver) upd p in
               if ok then b_addChecked resolver policy details upd p else b_addRecord upd p))
        (\<lambda>(p, b). Ok (b_setLastRecord None p, b)))"

fun b_AddAll :: "lineResolver \<Rightarrow> (RecordType \<Rightarrow> RecordPolicy) \<Rightarrow> LRecord list \<Rightarrow> BundleResolver \<Rightarrow> BundleResolver res" where
  "b_AddAll resolver policyProvider [] p = Ok p"
| "b_AddAll resolver policyProvider (r # rs) p = bnd (b_Add resolver policyProvider r p) (\<lambda>(p, _). b_AddAll resolver policyProvider rs p)"

definition b_Reprocess :: "lineResolver \<Rightarrow> (RecordType \<Rightarrow> RecordPolicy) \<Rightarrow> BundleResolver \<Rightarrow> BundleResolver res" where
  "b_Reprocess resolver policyProvider p =
     (let records = b_records p; q = newBundleResolver resolver in
      if records = [] then Ok (q\<lparr>b_maxRecNo := b_maxRecNo p, b_maxFilNo := b_maxFilNo p\<rparr>)
      else b_AddAll resolver policyProvider (map rr_Record records) q)"

end
