(* ===== verification/Line_Stages.thy ===== *)
theory Line_Stages
  imports Line_Bundle "HOL-Library.AList"
begin

text \<open>
  The stages of a line: \<^verbatim>\<open>ledger/server/lineage/line_staged.go\<close>, \<^verbatim>\<open>line_stage_validator.go\<close> and the
  filaments of \<^verbatim>\<open>line_records.go\<close>. A line takes bundles one after another; every bundle that is added makes a stage
  with a copy of the state of all filaments, until its records are committed by the storage.
\<close>

subsection \<open>Filaments\<close>

record filament =
  fil_root :: recordNo
  fil_earliest :: recordNo
  fil_latest :: recordNo
  fil_recap :: recordNo
  fil_resolvedHead :: ResolvedDependency
  fil_state :: u8

definition ended :: u8 where "ended = 1"

definition newFilament :: filament where
  "newFilament = \<lparr>fil_root = 0, fil_earliest = 0, fil_latest = 0, fil_recap = 0, fil_resolvedHead = noDep, fil_state = 0\<rparr>"

definition fil_setRoot :: "recordNo \<Rightarrow> filament \<Rightarrow> filament res" where
  "fil_setRoot rn p =
     (if rn = 0 then Panic ''IllegalValue'' else if fil_root p \<noteq> 0 then Panic ''IllegalState'' else Ok (p\<lparr>fil_root := rn\<rparr>))"

definition fil_setLatest :: "recordNo \<Rightarrow> filament \<Rightarrow> filament res" where
  "fil_setLatest rn p =
     (if rn = 0 then Panic ''IllegalValue''
      else if rn = deadFilament then Ok (p\<lparr>fil_state := fil_state p OR ended\<rparr>)
      else if fil_earliest p = 0 then
        if fil_root p = 0 then Ok (p\<lparr>fil_root := rn, fil_earliest := rn, fil_latest := rn\<rparr>)
        else if fil_root p > rn then Panic ''IllegalValue''
        else Ok (p\<lparr>fil_earliest := rn, fil_latest := rn\<rparr>)
      else if fil_latest p \<ge> rn then Panic ''IllegalValue''
      else if fil_state p AND ended \<noteq> 0 then Ok (p\<lparr>fil_state := fil_state p AND NOT ended, fil_latest := rn\<rparr>)
      else Ok (p\<lparr>fil_latest := rn\<rparr>))"

subsection \<open>Stages\<close>

text \<open>A tracker is known by its number; \<open>None\<close> is the nil pointer.\<close>

type_synonym tracker = nat

record updateStage =
  st_seqNo :: nat
  st_tracker :: "tracker option"
  st_firstRec :: recordNo
  st_filaments :: "filament list"

text \<open>The stages are listed from the earliest to the latest; a map is an association list.\<close>

record LineStages =
  ls_base :: Local
  ls_pn :: Number
  ls_cache :: "DependencyResolver option"
  ls_stages :: "updateStage list"
  ls_accessFrequency :: nat
  ls_recordRefs :: "(u8 list \<times> recordNo) list"
  ls_filamentRefs :: "(Local \<times> filamentNo) list"
  ls_reasonRefs :: "(Global \<times> recordNo) list"
  ls_records :: "resolvedRecord lineRecords"

definition emptyStages :: "Local \<Rightarrow> Number \<Rightarrow> DependencyResolver option \<Rightarrow> LineStages" where
  "emptyStages base pn cache =
     \<lparr>ls_base = base, ls_pn = pn, ls_cache = cache, ls_stages = [], ls_accessFrequency = 0, ls_recordRefs = [], ls_filamentRefs = [],
      ls_reasonRefs = [], ls_records = nilSlice\<rparr>"

definition NewStages :: "Local \<Rightarrow> Number \<Rightarrow> DependencyResolver option \<Rightarrow> LineStages res" where
  "NewStages base pn cache =
     (if local_IsEmpty base then Panic ''IllegalValue''
      else if local_SubScope base \<noteq> baseScopeLifeline then Panic ''IllegalValue''
      else if \<not> IsTimePulse (GetPulseNumber base) then Panic ''IllegalValue''
      else if pn < GetPulseNumber base then Panic ''IllegalValue''
      else Ok (emptyStages base pn cache))"

definition mapGet :: "('k \<times> nat) list \<Rightarrow> 'k \<Rightarrow> nat" where
  "mapGet m k = (case map_of m k of None \<Rightarrow> 0 | Some n \<Rightarrow> n)"

definition ls_latest :: "LineStages \<Rightarrow> updateStage option" where
  "ls_latest p = (if ls_stages p = [] then None else Some (last (ls_stages p)))"

definition ls_filament :: "filamentNo \<Rightarrow> LineStages \<Rightarrow> filament res" where
  "ls_filament filNo p =
     (case ls_latest p of None \<Rightarrow> Panic ''nil pointer''
      | Some st \<Rightarrow> if filNo = 0 \<or> filNo > length (st_filaments st) then Panic ''index out of range'' else Ok (st_filaments st ! (filNo - 1)))"

definition ls_record :: "recordNo \<Rightarrow> LineStages \<Rightarrow> resolvedRecord res" where
  "ls_record n p = (case lr_get n (ls_records p) of None \<Rightarrow> Panic ''nil pointer'' | Some r \<Rightarrow> Ok r)"

subsection \<open>Resolving dependencies of bundles\<close>

definition ls_getNextRecNo :: "LineStages \<Rightarrow> recordNo" where
  "ls_getNextRecNo p = lr_getNextRecNo (ls_records p)"

definition ls_getNextFilNo :: "LineStages \<Rightarrow> filamentNo" where
  "ls_getNextFilNo p = length (ls_filamentRefs p) + 1"

definition ls_findOtherDependency :: "LineStages \<Rightarrow> Global option \<Rightarrow> string + ResolvedDependency" where
  "ls_findOtherDependency p ref =
     (case ls_cache p of None \<Rightarrow> Inr noDep
      | Some c \<Rightarrow> if ref_IsEmpty ref then Inr noDep else FindOtherDependency c (the ref))"

definition ls_findLineDependency :: "LineStages \<Rightarrow> Global option \<Rightarrow> Global option \<Rightarrow> string + ResolvedDependency" where
  "ls_findLineDependency p root ref =
     (case ls_cache p of None \<Rightarrow> Inr noDep
      | Some c \<Rightarrow> if ref_IsEmpty ref then Inr noDep else FindLineDependency c root (the ref))"

text \<open>\<open>None\<close> when the line does not know the record; the number of the filament is 0 for a nil reference or a mismatched filament.\<close>

definition ls_findLocalIn :: "LineStages \<Rightarrow> Global option \<Rightarrow> Global option \<Rightarrow> (filamentNo \<times> resolvedRecord option) option res" where
  "ls_findLocalIn p root ref =
     (if ref_IsEmpty root \<or> ref_IsEmpty ref then Ok (Some (0, None))
      else
        let recNo = mapGet (ls_recordRefs p) (local_hash (addressLocal (the ref))) in
        if recNo = 0 then Ok None
        else
          bnd (ls_record recNo p) (\<lambda>r.
          let filNo = mapGet (ls_filamentRefs p) (addressLocal (the root)) in
          if filNo \<noteq> rr_filNo r then Ok (Some (0, Some r)) else Ok (Some (filNo, Some r))))"

definition ls_findLocalDependency :: "LineStages \<Rightarrow> Global option \<Rightarrow> Global option \<Rightarrow> (filamentNo \<times> recordNo \<times> ResolvedDependency) res" where
  "ls_findLocalDependency p root ref =
     bnd (ls_findLocalIn p root ref) (\<lambda>f.
       case f of
         Some (filNo, Some r) \<Rightarrow> Ok (if filNo \<noteq> 0 then (filNo, rr_recordNo r, asResolvedDependency r) else (0, 0, noDep))
       | _ \<Rightarrow> Ok (0, 0, noDep))"

definition ls_findChainedDependency :: "LineStages \<Rightarrow> Global option \<Rightarrow> Global option \<Rightarrow> bool \<Rightarrow> (filamentNo \<times> recordNo \<times> ResolvedDependency \<times> recordNo) res" where
  "ls_findChainedDependency p root ref mustBeOpen =
     bnd (ls_findLocalIn p root ref) (\<lambda>f.
       case f of
         Some (filNo, r) \<Rightarrow>
           if filNo = 0 then Ok (0, 0, noDep, 0)
           else
             bnd (ls_filament filNo p) (\<lambda>fil.
             case r of None \<Rightarrow> Panic ''nil pointer''
             | Some r \<Rightarrow> Ok (if mustBeOpen \<and> rr_next r \<noteq> 0 then 0 else filNo, rr_recordNo r, asResolvedDependency r, fil_recap fil))
       | None \<Rightarrow> if ls_cache p \<noteq> None then Panic ''NotImplemented'' else Ok (0, 0, noDep, 0))"

definition ls_findFilament :: "LineStages \<Rightarrow> Local \<Rightarrow> (filamentNo \<times> ResolvedDependency) res" where
  "ls_findFilament p root =
     (let filNo = mapGet (ls_filamentRefs p) root in
      if filNo = 0 then Ok (0, noDep) else bnd (ls_filament filNo p) (\<lambda>fil. Ok (filNo, fil_resolvedHead fil)))"

definition ls_findCollision :: "LineStages \<Rightarrow> Local \<Rightarrow> LRecord \<Rightarrow> (string + recordNo) res" where
  "ls_findCollision p local r =
     (let recNo = mapGet (ls_recordRefs p) (local_hash local) in
      if recNo = 0 then Ok (Inr 0)
      else bnd (ls_record recNo p) (\<lambda>found.
        if EqualForRecordIdempotency (rr_Record found) r then Ok (Inr recNo) else Ok (Inl ''record content mismatch'')))"

definition ls_resolver :: "LineStages \<Rightarrow> lineResolver" where
  "ls_resolver p =
     \<lparr>res_nextRecNo = ls_getNextRecNo p, res_nextFilNo = ls_getNextFilNo p, res_lineBase = ls_base p, res_localPN = ls_pn p,
      res_findOther = ls_findOtherDependency p, res_findLine = ls_findLineDependency p, res_findChained = ls_findChainedDependency p,
      res_findLocal = ls_findLocalDependency p, res_findFilament = ls_findFilament p, res_findCollision = ls_findCollision p\<rparr>"

definition ls_NewBundle :: "LineStages \<Rightarrow> BundleResolver" where
  "ls_NewBundle p = newBundleResolver (ls_resolver p)"

definition ls_Add :: "LineStages \<Rightarrow> LRecord \<Rightarrow> BundleResolver \<Rightarrow> (BundleResolver \<times> bool) res" where
  "ls_Add p = b_Add (ls_resolver p) GetRecordPolicy"

subsection \<open>The validator of a stage\<close>

record stageValidator =
  sv_bundle :: BundleResolver
  sv_stage :: updateStage
  sv_filNo :: filamentNo
  sv_firstRec :: recordNo
  sv_recDelta :: recordNo
  sv_filRoot :: Local

definition newValidator :: "BundleResolver \<Rightarrow> updateStage \<Rightarrow> stageValidator res" where
  "newValidator bundle stage =
     (if b_maxRecNo bundle > st_firstRec stage then Panic ''IllegalState''
      else
        let recDelta = st_firstRec stage - b_maxRecNo bundle in
        Ok \<lparr>sv_bundle = bundle\<lparr>b_maxRecNo := b_maxRecNo bundle + recDelta\<rparr>, sv_stage = stage, sv_filNo = 0, sv_firstRec = b_maxRecNo bundle,
          sv_recDelta = recDelta, sv_filRoot = zeroLocal\<rparr>)"

definition adjustNext :: "stageValidator \<Rightarrow> resolvedRecord \<Rightarrow> resolvedRecord \<times> (string + unit)" where
  "adjustNext v r =
     (let r = r\<lparr>rr_recordNo := rr_recordNo r + sv_recDelta v\<rparr> in
      if rr_next r = deadFilament then (r, Inr ())
      else if rr_next r \<ge> sv_firstRec v then (r\<lparr>rr_next := rr_next r + sv_recDelta v\<rparr>, Inr ())
      else if rr_next r > 0 then (r, Inl ''next in past'')
      else (r, Inr ()))"

definition adjustPrevAndRecap :: "stageValidator \<Rightarrow> resolvedRecord \<Rightarrow> resolvedRecord \<times> (string + unit)" where
  "adjustPrevAndRecap v r =
     (let r = (if rr_recapNo r \<ge> sv_firstRec v then r\<lparr>rr_recapNo := rr_recapNo r + sv_recDelta v\<rparr> else r);
          isLineStart = b_isLineStart (sv_bundle v) in
      if rr_prev r \<ge> sv_firstRec v then (r\<lparr>rr_prev := rr_prev r + sv_recDelta v\<rparr>, Inr ())
      else if rr_prev r > 0 then (r, Inr ())
      else if isLineStart \<and> rr_recordNo r = 1 then (r, Inr ())
      else if \<not> isLineStart \<and> rr_IsSidelineStart r then (r, Inr ())
      else if rr_IsRecap r then if rr_recapNo r \<noteq> 0 then (r, Inl ''recap with recap'') else (r, Inr ())
      else if rr_recapNo r = 0 then (r, Inl ''recap is missing'')
      else if rr_recapNo r \<ge> rr_prev r then (r, Inl ''recap in future'')
      else (r, Inr ()))"

definition addFilament :: "stageValidator \<Rightarrow> resolvedRecord \<Rightarrow> (stageValidator \<times> resolvedRecord \<times> (string + unit)) res" where
  "addFilament v r =
     (if rr_filNo r \<noteq> 0 then Ok (v, r, Inr ())
      else if sv_filNo v \<noteq> 0 then Ok (v, r\<lparr>rr_filNo := sv_filNo v\<rparr>, Inr ())
      else if b_branchRoot (sv_bundle v) = 0 \<or> b_branchFirst (sv_bundle v) = 0 then Ok (v, r, Inl ''inconsistent filament data'')
      else if b_branchFirst (sv_bundle v) + sv_recDelta v \<noteq> rr_recordNo r then Ok (v, r, Inl ''inconsistent filament head'')
      else
        bnd (rr_Local r) (\<lambda>local.
        let fils = st_filaments (sv_stage v) @ [newFilament]; filNo = length fils in
        Ok (v\<lparr>sv_stage := (sv_stage v)\<lparr>st_filaments := fils\<rparr>, sv_filNo := filNo, sv_filRoot := local\<rparr>, r\<lparr>rr_filNo := filNo\<rparr>, Inr ())))"

definition FilamentTypeMask :: u32 where "FilamentTypeMask = 127"
definition FilamentLifeline :: u32 where "FilamentLifeline = 1"
definition FilamentUnknown :: u32 where "FilamentUnknown = 0"
definition ClosedFlag :: u32 where "ClosedFlag = 8192"

text \<open>The first record of a filament that is a recap.\<close>

definition recapHead :: "resolvedRecord \<Rightarrow> filament \<Rightarrow> (filament \<times> (string + recordNo)) res" where
  "recapHead r f =
     (if fil_recap f \<noteq> 0 then Panic ''Impossible''
      else
        case rec_recapRec (rr_Record r) of None \<Rightarrow> Ok (f, Inl ''recap body is missing'')
        | Some rc \<Rightarrow>
            let typ = rcp_State rc AND FilamentTypeMask in
            if typ = FilamentLifeline \<and> rr_filNo r \<noteq> 1 then Ok (f, Inl ''recap mismatched line type'')
            else if typ \<noteq> FilamentLifeline \<and> rr_filNo r = 1 then Ok (f, Inl ''recap mismatched filament type'')
            else if typ = FilamentUnknown then Ok (f, Inl ''recap is invalid'')
            else
              bnd (if rcp_State rc AND ClosedFlag \<noteq> 0 then fil_setLatest deadFilament f else Ok f) (\<lambda>f.
              let f = f\<lparr>fil_recap := rr_recordNo r,
                    fil_resolvedHead := noDep\<lparr>dep_RecordType := rcp_PrevType rc, dep_RootRef := ex_RootRef (rr_Excerpt r)\<rparr>\<rparr> in
              if rcp_RedirectToType rc \<noteq> 0 then
                if ref_IsEmpty (rcp_PrevRedirectRef rc) then
                  Ok (f\<lparr>fil_resolvedHead := (fil_resolvedHead f)\<lparr>RedirectToRef := rcp_PrevRedirectRef rc\<rparr>\<rparr>, Inl ''recap inconsistent redirect'')
                else
                  Ok (f\<lparr>fil_resolvedHead := (fil_resolvedHead f)\<lparr>RedirectToRef := rcp_PrevRedirectRef rc, RedirectToType := rcp_RedirectToType rc\<rparr>\<rparr>,
                    Inr (fil_root f))
              else Ok (f, Inr (fil_root f))))"

text \<open>The first record of a filament.\<close>

definition firstOfFilament :: "stageValidator \<Rightarrow> resolvedRecord \<Rightarrow> filament \<Rightarrow> (filament \<times> (string + recordNo)) res" where
  "firstOfFilament v r f =
     (let b = sv_bundle v;
          start = (\<lambda>f. if \<not> rr_IsRecap r then
              bnd (fil_setLatest (rr_recordNo r) (f\<lparr>fil_resolvedHead := asResolvedDependency r\<rparr>)) (\<lambda>f. Ok (f, Inr (fil_root f)))
            else recapHead r f) in
      if rr_filNo r \<noteq> 1 then
        if b_branchRoot b = 0 then Ok (f, Inl ''inconsistent bundle branching root'')
        else if b_branchFirst b = 0 then Ok (f, Inl ''inconsistent bundle branching'')
        else if b_branchFirst b + sv_recDelta v \<noteq> rr_recordNo r then Ok (f, Inl ''unexpected filament record'')
        else bnd (fil_setRoot (b_branchRoot b + sv_recDelta v) f) start
      else start f)"

definition applyFilament :: "stageValidator \<Rightarrow> resolvedRecord \<Rightarrow> (stageValidator \<times> resolvedRecord \<times> (string + recordNo)) res" where
  "applyFilament v r =
     bnd (addFilament v r) (\<lambda>(v, r, e).
     case e of Inl e \<Rightarrow> Ok (v, r, Inl e)
     | Inr _ \<Rightarrow>
         let fils = st_filaments (sv_stage v); i = rr_filNo r - 1 in
         if i \<ge> length fils then Panic ''index out of range''
         else
           let f = fils ! i; put = (\<lambda>f. v\<lparr>sv_stage := (sv_stage v)\<lparr>st_filaments := fils[i := f]\<rparr>\<rparr>) in
           if fil_earliest f \<noteq> 0 then
             if fil_latest f \<noteq> rr_prev r then Ok (v, r, Inl ''inconsistent filament sequence'')
             else if rr_recapNo r \<noteq> 0 \<and> fil_recap f \<noteq> rr_recapNo r then Ok (v, r, Inl ''inconsistent filament recap'')
             else bnd (fil_setLatest (rr_recordNo r) f) (\<lambda>f. Ok (put f, r, Inr (fil_root f)))
           else bnd (firstOfFilament v r f) (\<lambda>(f, e). Ok (put f, r, e)))"

definition postCheck :: "stageValidator \<Rightarrow> (string + unit) res" where
  "postCheck v =
     (if sv_filNo v = 0 then Ok (Inr ())
      else
        let latest = fil_latest (st_filaments (sv_stage v) ! (sv_filNo v - 1));
            records = b_records (sv_bundle v);
            i = recNo_sub latest (b_maxRecNo (sv_bundle v)) in
        if latest \<noteq> deadFilament \<and> i \<ge> length records then Panic ''index out of range''
        else if latest \<noteq> deadFilament \<and> rr_next (records ! i) \<noteq> 0 \<and> rr_next (records ! i) \<noteq> deadFilament then
          Ok (Inl ''inconsistent latest of filament'')
        else if local_IsEmpty (sv_filRoot v) then Ok (Inl ''illegal filament root'')
        else Ok (Inr ()))"

subsection \<open>Adding a bundle\<close>

definition ls_checkReason :: "LineStages \<Rightarrow> resolvedRecord \<Rightarrow> string + unit" where
  "ls_checkReason p r =
     (let reasonRef = ex_ReasonRef (rr_Excerpt r) in
      if ref_IsEmpty reasonRef then Inr ()
      else if map_of (ls_reasonRefs p) (the reasonRef) = None then Inr ()
      else Inl ''reused reason'')"

definition ls_putReason :: "resolvedRecord \<Rightarrow> LineStages \<Rightarrow> LineStages" where
  "ls_putReason r p =
     (let reasonRef = ex_ReasonRef (rr_Excerpt r) in
      if ref_IsEmpty reasonRef then p else p\<lparr>ls_reasonRefs := AList.update (the reasonRef) (rr_recordNo r) (ls_reasonRefs p)\<rparr>)"

definition ls_applyFilamentDependency :: "LineStages \<Rightarrow> resolvedRecord \<Rightarrow> recordNo \<Rightarrow> recordNo \<Rightarrow> (resolvedRecord \<times> (string + unit)) res" where
  "ls_applyFilamentDependency p r dependency bundleFirst =
     (let flags = flagged_Flags (rr_filamentStartIndex r) in
      if dependency = 0 then Panic ''IllegalValue''
      else if dependency > rr_recordNo r then Panic ''Impossible''
      else if rr_recapNo r \<noteq> 0 then Ok (r, Inl ''filament root is applicable with recap'')
      else if rr_recordNo r = dependency \<and> flags AND FilamentLocalStart = 0 then Ok (r, Inl ''self-root is only allowed for filament start'')
      else if dependency \<ge> bundleFirst then
        let depLocalIdx = dependency - bundleFirst in
        Ok (r\<lparr>rr_filamentStartIndex := index_WithFlags (of_nat (depLocalIdx + 1)) flags\<rparr>, Inr ())
      else
        case lr_get dependency (ls_records p) of None \<Rightarrow> Ok (r, Inl ''filament root is unknown'')
        | Some dep \<Rightarrow>
            Ok (if rr_storageIndex dep \<noteq> 0 then r\<lparr>rr_filamentStartIndex := index_WithFlags (rr_storageIndex dep) flags\<rparr> else r, Inr ()))"

text \<open>The checks of one record of the bundle: the validator, the changed record and an error or the root of its filament.\<close>

definition ls_validateRecord :: "LineStages \<Rightarrow> recordNo \<Rightarrow> stageValidator \<Rightarrow> resolvedRecord \<Rightarrow> (stageValidator \<times> resolvedRecord \<times> (string + recordNo)) res" where
  "ls_validateRecord p firstRec v r =
     (case ls_checkReason p r of Inl e \<Rightarrow> Ok (v, r, Inl e)
      | Inr _ \<Rightarrow>
          let (r, e) = adjustNext v r in
          case e of Inl e \<Rightarrow> Ok (v, r, Inl e)
          | Inr _ \<Rightarrow>
              let (r, e) = adjustPrevAndRecap v r in
              case e of Inl e \<Rightarrow> Ok (v, r, Inl e)
              | Inr _ \<Rightarrow>
                  bnd (applyFilament v r) (\<lambda>(v, r, e).
                  case e of Inl e \<Rightarrow> Ok (v, r, Inl e)
                  | Inr filDependency \<Rightarrow>
                      if filDependency = 0 then Ok (v, r, Inr 0)
                      else bnd (ls_applyFilamentDependency p r filDependency firstRec) (\<lambda>(r, e).
                        Ok (v, r, case e of Inl e \<Rightarrow> Inl e | Inr _ \<Rightarrow> Inr filDependency))))"

text \<open>All records are checked, also behind an error; the latest head matters only when there is no error.\<close>

fun ls_validateFrom :: "LineStages \<Rightarrow> recordNo \<Rightarrow> nat \<Rightarrow> nat \<Rightarrow> stageValidator \<Rightarrow> recordNo \<Rightarrow> (stageValidator \<times> recordNo) res" where
  "ls_validateFrom p firstRec i 0 v latestHeadRec = Ok (v, latestHeadRec)"
| "ls_validateFrom p firstRec i (Suc n) v latestHeadRec =
     (let r = b_records (sv_bundle v) ! i;
          v = v\<lparr>sv_bundle := b_setLastRecord (rec_RecRef (rr_Record r)) (sv_bundle v)\<rparr> in
      bnd (ls_validateRecord p firstRec v r) (\<lambda>(v, r, e).
      let b = (sv_bundle v)\<lparr>b_records := (b_records (sv_bundle v))[i := r]\<rparr>;
          b = (case e of Inl e \<Rightarrow> b_addError e b | Inr _ \<Rightarrow> b);
          head = (case e of Inl _ \<Rightarrow> latestHeadRec | Inr d \<Rightarrow> max d latestHeadRec) in
      ls_validateFrom p firstRec (Suc i) n (v\<lparr>sv_bundle := b\<rparr>) head))"

text \<open>The records of a stage are written one by one; a predecessor in the same filament gets its successor.\<close>

definition ls_addOne :: "(nat \<Rightarrow> nat) \<Rightarrow> recordNo \<Rightarrow> recordNo \<Rightarrow> resolvedRecord \<Rightarrow> LineStages \<Rightarrow> LineStages res" where
  "ls_addOne grow firstRec recNo r p =
     (if recNo \<noteq> rr_recordNo r then Panic ''Impossible''
      else if rr_filamentStartIndex r = 0 then Panic ''Impossible''
      else
        bnd (if rr_prev r > 0 \<and> rr_prev r < firstRec then
               bnd (ls_record (rr_prev r) p) (\<lambda>prevRec.
               if rr_next prevRec = 0 \<and> rr_filNo prevRec = rr_filNo r then
                 Ok (p\<lparr>ls_records := lr_update (rr_prev r) (\<lambda>x. x\<lparr>rr_next := rr_recordNo r\<rparr>) (ls_records p)\<rparr>)
               else Ok p)
             else Ok p) (\<lambda>p.
        bnd (lr_add grow (zeroUpdate) r (ls_records p)) (\<lambda>rs.
        bnd (rr_Local r) (\<lambda>local.
        Ok (ls_putReason r (p\<lparr>ls_records := rs, ls_recordRefs := AList.update (local_hash local) (rr_recordNo r) (ls_recordRefs p)\<rparr>))))))"

fun ls_addRecords :: "(nat \<Rightarrow> nat) \<Rightarrow> recordNo \<Rightarrow> recordNo \<Rightarrow> resolvedRecord list \<Rightarrow> LineStages \<Rightarrow> LineStages res" where
  "ls_addRecords grow firstRec recNo [] p = Ok p"
| "ls_addRecords grow firstRec recNo (r # rs) p = bnd (ls_addOne grow firstRec recNo r p) (ls_addRecords grow firstRec (recNo + 1) rs)"

definition ls_addStage :: "(nat \<Rightarrow> nat) \<Rightarrow> resolvedRecord list \<Rightarrow> updateStage \<Rightarrow> nat \<Rightarrow> Local \<Rightarrow> LineStages \<Rightarrow> LineStages res" where
  "ls_addStage grow records stage prevFilamentCount filRoot p =
     bnd (ls_addRecords grow (st_firstRec stage) (st_firstRec stage) records p) (\<lambda>p.
     if records = [] then Panic ''Impossible''
     else
       let (p, prevFilamentCount) =
             (if prevFilamentCount = 0 then (p\<lparr>ls_filamentRefs := AList.update (ls_base p) 1 (ls_filamentRefs p)\<rparr>, 1) else (p, prevFilamentCount));
           p = (if prevFilamentCount \<noteq> length (st_filaments stage)
                then p\<lparr>ls_filamentRefs := AList.update filRoot (length (st_filaments stage)) (ls_filamentRefs p)\<rparr> else p) in
       Ok (p\<lparr>ls_stages := ls_stages p @ [stage]\<rparr>))"

fun findStageFrom :: "updateStage option \<Rightarrow> updateStage list \<Rightarrow> recordNo \<Rightarrow> updateStage option" where
  "findStageFrom prev [] recNo = None"
| "findStageFrom prev (stage # stages) recNo =
     (if st_firstRec stage > recNo then prev
      else if st_firstRec stage = recNo then Some stage
      else findStageFrom (Some stage) stages recNo)"

definition ls_findStage :: "recordNo \<Rightarrow> LineStages \<Rightarrow> updateStage option" where
  "ls_findStage recNo p = findStageFrom None (ls_stages p) recNo"

definition ls_trackerOf :: "recordNo \<Rightarrow> LineStages \<Rightarrow> tracker option" where
  "ls_trackerOf recNo p = (case ls_findStage recNo p of None \<Rightarrow> None | Some s \<Rightarrow> st_tracker s)"

definition latestOf :: "recordNo list \<Rightarrow> recordNo" where
  "latestOf rs = fold max rs 0"

datatype AddResult = UnableToAdd | WaitForHead | Added | Deduplicated

record addOutcome =
  ao_result :: AddResult
  ao_tracker :: "tracker option"
  ao_update :: "resolvedRecord list"

definition outcome :: "AddResult \<Rightarrow> tracker option \<Rightarrow> addOutcome" where
  "outcome r t = \<lparr>ao_result = r, ao_tracker = t, ao_update = []\<rparr>"

definition ls_newStage :: "LineStages \<Rightarrow> tracker \<Rightarrow> updateStage" where
  "ls_newStage p t =
     (case ls_latest p of
        Some st \<Rightarrow> \<lparr>st_seqNo = st_seqNo st + 1, st_tracker = Some t, st_firstRec = ls_getNextRecNo p, st_filaments = st_filaments st\<rparr>
      | None \<Rightarrow> \<lparr>st_seqNo = 1, st_tracker = Some t, st_firstRec = ls_getNextRecNo p, st_filaments = []\<rparr>)"

text \<open>The first bundle of a line brings the filament of the line.\<close>

definition ls_startLine :: "LineStages \<Rightarrow> BundleResolver \<Rightarrow> updateStage \<Rightarrow> updateStage res" where
  "ls_startLine p bundle stage =
     (if \<not> b_isLineStart bundle then Ok stage
      else if ls_stages p \<noteq> [] then Panic ''IllegalState''
      else if rr_filNo (b_records bundle ! 0) \<noteq> 1 then Panic ''IllegalState''
      else Ok (stage\<lparr>st_filaments := st_filaments stage @ [newFilament]\<rparr>))"

text \<open>The bundle with the results of all checks, the stage, the root of a new filament and the latest root of the filaments it continues.\<close>

definition ls_validate :: "LineStages \<Rightarrow> BundleResolver \<Rightarrow> tracker \<Rightarrow> (BundleResolver \<times> updateStage \<times> Local \<times> recordNo) res" where
  "ls_validate p bundle t =
     bnd (ls_startLine p bundle (ls_newStage p t)) (\<lambda>stage.
     bnd (newValidator bundle stage) (\<lambda>v.
     bnd (ls_validateFrom p (st_firstRec stage) 0 (length (b_records bundle)) v 0) (\<lambda>(v, head).
     bnd (postCheck v) (\<lambda>e.
       let b = (case e of Inl e \<Rightarrow> b_addError e (sv_bundle v) | Inr _ \<Rightarrow> sv_bundle v) in
       Ok (b, sv_stage v, sv_filRoot v, head)))))"

text \<open>The outcome, the line and the bundle afterwards.\<close>

definition AddBundle :: "(nat \<Rightarrow> nat) \<Rightarrow> BundleResolver option \<Rightarrow> tracker option \<Rightarrow> LineStages \<Rightarrow> (LineStages \<times> BundleResolver \<times> addOutcome) res" where
  "AddBundle grow bundle tracker p =
     (case (tracker, bundle) of
        (None, _) \<Rightarrow> Panic ''IllegalValue''
      | (Some _, None) \<Rightarrow> Panic ''IllegalValue''
      | (Some t, Some bundle) \<Rightarrow>
          if \<not> b_hasNoTroubles bundle then Ok (p, bundle, outcome UnableToAdd None)
          else if b_records bundle = [] then
            if b_dupRecords bundle = [] then Ok (p, bundle, outcome Deduplicated None)
            else Ok (p, bundle, outcome Deduplicated (ls_trackerOf (latestOf (b_dupRecords bundle)) p))
          else
            let prevFilamentCount = (case ls_latest p of None \<Rightarrow> 0 | Some st \<Rightarrow> length (st_filaments st)) in
            bnd (ls_validate p bundle t) (\<lambda>(b, stage, filRoot, head).
            if \<not> b_hasNoTroubles b then Ok (p, b_setLastRecord None b, outcome UnableToAdd None)
            else if head \<noteq> 0 \<and> head < st_firstRec stage \<and> ls_trackerOf head p \<noteq> None then
              Ok (p, b_setLastRecord None b, outcome WaitForHead (ls_trackerOf head p))
            else
              bnd (ls_addStage grow (b_records b) stage prevFilamentCount filRoot p) (\<lambda>p.
              Ok (p\<lparr>ls_accessFrequency := ls_accessFrequency p + 1\<rparr>, b_setLastRecord None (b_addError ''processed bundle'' b),
                \<lparr>ao_result = Added, ao_tracker = Some t, ao_update = b_records b\<rparr>))))"

definition VerifyBundle :: "BundleResolver option \<Rightarrow> LineStages \<Rightarrow> (LineStages \<times> bool \<times> tracker option) res" where
  "VerifyBundle bundle p =
     (let p = p\<lparr>ls_accessFrequency := ls_accessFrequency p + 1\<rparr> in
      case bundle of None \<Rightarrow> Panic ''IllegalValue''
      | Some bundle \<Rightarrow>
          Ok (p, if \<not> b_hasNoTroubles bundle then (False, None)
                 else if b_records bundle \<noteq> [] then (False, None)
                 else if b_dupRecords bundle = [] then (True, None)
                 else (True, ls_trackerOf (latestOf (b_dupRecords bundle)) p)))"

definition RegisterRead :: "LineStages \<Rightarrow> LineStages" where
  "RegisterRead p = p\<lparr>ls_accessFrequency := ls_accessFrequency p + 1\<rparr>"

subsection \<open>Committed stages\<close>

text \<open>A tracker tells whether the records of its stage are stored, and at which places of the directory.\<close>

type_synonym futures = "tracker \<Rightarrow> bool \<times> DirectoryIndex list"

definition allocationFault :: "DirectoryIndex \<Rightarrow> bool" where
  "allocationFault alloc \<longleftrightarrow> index_SectionID alloc = RelativeEntry \<or> index_Ordinal alloc = 0"

fun writeAllocations :: "recordNo \<Rightarrow> DirectoryIndex list \<Rightarrow> resolvedRecord lineRecords \<Rightarrow> resolvedRecord lineRecords res" where
  "writeAllocations n [] rs = Ok rs"
| "writeAllocations n (a # as) rs =
     (if lr_get n rs = None then Panic ''nil pointer'' else writeAllocations (n + 1) as (lr_update n (\<lambda>r. r\<lparr>rr_storageIndex := a\<rparr>) rs))"

definition setAllocations :: "updateStage \<Rightarrow> updateStage list \<Rightarrow> DirectoryIndex list \<Rightarrow> resolvedRecord lineRecords \<Rightarrow> resolvedRecord lineRecords res" where
  "setAllocations stage later allocs rs =
     (let m = (case later of [] \<Rightarrow> lr_getNextRecNo rs - st_firstRec stage | st # _ \<Rightarrow> st_firstRec st - st_firstRec stage) in
      if m \<noteq> length allocs then Panic ''IllegalState''
      else if list_ex allocationFault allocs then Panic ''invalid record section or ordinal''
      else writeAllocations (st_firstRec stage) allocs rs)"

text \<open>The last committed stage, the stages from the earliest that remains, and the records.\<close>

fun trimFrom :: "futures \<Rightarrow> updateStage option \<Rightarrow> updateStage list \<Rightarrow> resolvedRecord lineRecords \<Rightarrow>
    (updateStage option \<times> updateStage list \<times> resolvedRecord lineRecords) res" where
  "trimFrom fut lst [] rs = Ok (lst, [], rs)"
| "trimFrom fut lst (st # later) rs =
     (case st_tracker st of
        None \<Rightarrow> if later = [] then Ok (Some st, [st], rs) else trimFrom fut (Some st) later rs
      | Some t \<Rightarrow>
          let (isReady, allocs) = fut t; st' = st\<lparr>st_tracker := None\<rparr> in
          if \<not> isReady then Ok (lst, st # later, rs)
          else if allocs = [] then Panic ''NotImplemented''
          else bnd (setAllocations st later allocs rs) (\<lambda>rs.
            if later = [] then Ok (Some st', [st'], rs) else trimFrom fut (Some st') later rs))"

definition trimCommittedStages :: "futures \<Rightarrow> LineStages \<Rightarrow> (updateStage option \<times> LineStages) res" where
  "trimCommittedStages fut p =
     bnd (trimFrom fut None (ls_stages p) (ls_records p)) (\<lambda>(lst, sts, rs). Ok (lst, p\<lparr>ls_stages := sts, ls_records := rs\<rparr>))"

definition TrimCommittedStages :: "futures \<Rightarrow> LineStages \<Rightarrow> LineStages res" where
  "TrimCommittedStages fut p = bnd (trimCommittedStages fut p) (\<lambda>(_, p). Ok p)"

subsection \<open>Rollback\<close>

text \<open>
  The order in which Go enumerates a map is not specified: it is an argument, a function that permutes the entries.
  The loop stops as soon as the map has fewer entries than the limit.
\<close>

record mapOrder =
  ord_records :: "(u8 list \<times> recordNo) list \<Rightarrow> (u8 list \<times> recordNo) list"
  ord_filaments :: "(Local \<times> filamentNo) list \<Rightarrow> (Local \<times> filamentNo) list"

fun cleanFrom :: "nat \<Rightarrow> ('k \<times> nat) list \<Rightarrow> ('k \<times> nat) list \<Rightarrow> ('k \<times> nat) list" where
  "cleanFrom lim [] m = m"
| "cleanFrom lim ((k, n) # es) m =
     (if length m < lim then m else cleanFrom lim es (if n \<ge> lim then AList.delete k m else m))"

fun reopenFilaments :: "recordNo \<Rightarrow> filament list \<Rightarrow> resolvedRecord lineRecords \<Rightarrow> resolvedRecord lineRecords res" where
  "reopenFilaments cutOffRec [] rs = Ok rs"
| "reopenFilaments cutOffRec (f # fs) rs =
     (if fil_latest f = deadFilament then reopenFilaments cutOffRec fs rs
      else
        case lr_get (fil_latest f) rs of None \<Rightarrow> Panic ''nil pointer''
        | Some r \<Rightarrow>
            reopenFilaments cutOffRec fs
              (if rr_next r \<ge> cutOffRec \<and> rr_next r \<noteq> deadFilament then lr_update (fil_latest f) (\<lambda>r. r\<lparr>rr_next := 0\<rparr>) rs else rs))"

definition restoreEmpty :: "LineStages \<Rightarrow> LineStages" where
  "restoreEmpty p = emptyStages (ls_base p) (ls_pn p) (ls_cache p)"

definition restoreLatest :: "mapOrder \<Rightarrow> recordNo \<Rightarrow> LineStages \<Rightarrow> LineStages res" where
  "restoreLatest ord cutOffRec p =
     (if cutOffRec = deadFilament then Ok p
      else
        bnd (lr_truncate cutOffRec (ls_records p)) (\<lambda>rs.
        let p = p\<lparr>ls_records := rs, ls_reasonRefs := filter (\<lambda>(k, recNo). recNo < cutOffRec) (ls_reasonRefs p),
              ls_recordRefs := cleanFrom cutOffRec (ord_records ord (ls_recordRefs p)) (ls_recordRefs p)\<rparr> in
        case ls_latest p of None \<Rightarrow> Ok p
        | Some st \<Rightarrow>
            let cutOffFil = length (st_filaments st) + 1;
                p = p\<lparr>ls_filamentRefs := cleanFrom cutOffFil (ord_filaments ord (ls_filamentRefs p)) (ls_filamentRefs p)\<rparr> in
            bnd (reopenFilaments cutOffRec (st_filaments st) (ls_records p)) (\<lambda>rs. Ok (p\<lparr>ls_records := rs\<rparr>))))"

definition RollbackUncommittedRecords :: "mapOrder \<Rightarrow> futures \<Rightarrow> LineStages \<Rightarrow> LineStages res" where
  "RollbackUncommittedRecords ord fut p =
     (if ls_stages p = [] then Ok p
      else
        bnd (trimCommittedStages fut p) (\<lambda>(lst, p).
        case ls_stages p of [] \<Rightarrow> Panic ''nil pointer''
        | st # _ \<Rightarrow>
            if st_tracker st = None then restoreLatest ord deadFilament (p\<lparr>ls_stages := [st]\<rparr>)
            else case lst of None \<Rightarrow> Ok (restoreEmpty p)
            | Some lst \<Rightarrow> restoreLatest ord (st_firstRec st) (p\<lparr>ls_stages := [lst]\<rparr>)))"

text \<open>
  The loop \<open>for ; next != p.latest; next = next.next\<close> over the list of stages: the argument is the list from \<open>next\<close> on and the
  position of \<open>next\<close>; a node is the one of \<open>p.latest\<close> when nothing follows it. The list is then cut behind the node found.
\<close>

fun searchLatest :: "updateStage list \<Rightarrow> nat \<Rightarrow> nat res" where
  "searchLatest [] i = Panic ''nil pointer''"
| "searchLatest (st # sts) i = (if sts = [] then Ok i else searchLatest sts (i + 1))"

definition RollbackLastBundle :: "mapOrder \<Rightarrow> tracker option \<Rightarrow> LineStages \<Rightarrow> LineStages res" where
  "RollbackLastBundle ord tracker p =
     (if tracker = None then Panic ''IllegalValue''
      else
        case ls_latest p of None \<Rightarrow> Panic ''IllegalState''
        | Some st \<Rightarrow>
            if st_tracker st \<noteq> tracker then Panic ''IllegalValue''
            else if length (ls_stages p) = 1 then Ok (restoreEmpty p)
            else
              bnd (searchLatest (tl (ls_stages p)) 1) (\<lambda>i.
              restoreLatest ord (st_firstRec st) (p\<lparr>ls_stages := take (i + 1) (ls_stages p)\<rparr>)))"

subsection \<open>Reading\<close>

definition FindRegistrarSignature :: "Global \<Rightarrow> LineStages \<Rightarrow> (DirectoryIndex \<times> u8 list) option" where
  "FindRegistrarSignature ref p =
     (case map_of (ls_recordRefs p) (local_hash (addressLocal ref)) of None \<Rightarrow> None
      | Some rn \<Rightarrow> map_option (\<lambda>r. (rr_storageIndex r, rec_RegistrarSignature (rr_Record r))) (lr_get rn (ls_records p)))"

type_synonym ReadRecord = "LRecord \<times> DirectoryIndex"

definition readRecord :: "resolvedRecord \<Rightarrow> ReadRecord" where
  "readRecord r = (rr_Record r, rr_storageIndex r)"

definition FindWithTracker :: "Global \<Rightarrow> LineStages \<Rightarrow> (tracker option \<times> ReadRecord) option" where
  "FindWithTracker ref p =
     (case map_of (ls_recordRefs p) (local_hash (addressLocal ref)) of None \<Rightarrow> None
      | Some rn \<Rightarrow> map_option (\<lambda>r. (ls_trackerOf rn p, readRecord r)) (lr_get rn (ls_records p)))"

text \<open>The loops follow the numbers in the records; \<open>None\<close> means that a loop does not end. The search function is a closure
  of the caller: it sees a record, may change the caller's variables \<open>s\<close> and says whether the scan is over.\<close>

partial_function (option) scanSequenceToPast :: "resolvedRecord lineRecords \<Rightarrow> (ReadRecord \<Rightarrow> 's \<Rightarrow> bool \<times> 's) \<Rightarrow> recordNo \<Rightarrow> 's \<Rightarrow> (bool \<times> 's) option" where
  "scanSequenceToPast rs findFn rn s =
     (if rn = 0 then Some (False, s)
      else case lr_get rn rs of None \<Rightarrow> Some (False, s)
      | Some r \<Rightarrow> (case findFn (readRecord r) s of (found, s') \<Rightarrow>
          if found then Some (True, s') else scanSequenceToPast rs findFn (rr_prev r) s'))"

partial_function (option) scanSequenceToPresent :: "resolvedRecord lineRecords \<Rightarrow> (ReadRecord \<Rightarrow> 's \<Rightarrow> bool \<times> 's) \<Rightarrow> recordNo \<Rightarrow> 's \<Rightarrow> (bool \<times> 's) option" where
  "scanSequenceToPresent rs findFn rn s =
     (if rn = 0 then Some (False, s)
      else case lr_get rn rs of None \<Rightarrow> Some (False, s)
      | Some r \<Rightarrow>
          if rr_storageIndex r = 0 then Some (False, s)
          else (case findFn (readRecord r) s of (found, s') \<Rightarrow>
            if found then Some (True, s') else scanSequenceToPresent rs findFn (rr_next r) s'))"

definition ScanFilamentFrom :: "Global \<Rightarrow> bool \<Rightarrow> (ReadRecord \<Rightarrow> 's \<Rightarrow> bool \<times> 's) \<Rightarrow> 's \<Rightarrow> LineStages \<Rightarrow> (bool \<times> tracker option \<times> 's) option" where
  "ScanFilamentFrom from toPast findFn s p =
     (case map_of (ls_recordRefs p) (local_hash (addressLocal from)) of None \<Rightarrow> Some (False, None, s)
      | Some rn \<Rightarrow>
          if ls_trackerOf rn p \<noteq> None then Some (False, ls_trackerOf rn p, s)
          else map_option (\<lambda>(found, s'). (found, None, s'))
            (if toPast then scanSequenceToPast (ls_records p) findFn rn s else scanSequenceToPresent (ls_records p) findFn rn s))"

end
