(* ===== verification/Line_Validation.thy ===== *)
theory Line_Validation
  imports Line_Stages
begin

text \<open>
  How a line takes a bundle: what writing the records of a stage does to the records of the line, and what the validator of a stage
  guarantees for the records and the filaments of a bundle without errors.
\<close>

subsection \<open>Writing the records of a stage\<close>

text \<open>The predecessor of a new record gets its successor when it is the open end of the same filament.\<close>

definition linkNext :: "recordNo \<Rightarrow> resolvedRecord \<Rightarrow> resolvedRecord list \<Rightarrow> resolvedRecord list" where
  "linkNext firstRec r R =
     (if 0 < rr_prev r \<and> rr_prev r < firstRec \<and> rr_next (R ! (rr_prev r - 1)) = 0 \<and> rr_filNo (R ! (rr_prev r - 1)) = rr_filNo r
      then R[rr_prev r - 1 := (R ! (rr_prev r - 1))\<lparr>rr_next := rr_recordNo r\<rparr>] else R)"

fun linkAll :: "recordNo \<Rightarrow> resolvedRecord list \<Rightarrow> resolvedRecord list \<Rightarrow> resolvedRecord list" where
  "linkAll firstRec [] R = R"
| "linkAll firstRec (r # rs) R = linkAll firstRec rs (linkNext firstRec r R)"

lemma linkNext_length [simp]: "length (linkNext firstRec r R) = length R"
  by (simp add: linkNext_def)

lemma linkAll_length [simp]: "length (linkAll firstRec rs R) = length R"
  by (induction rs arbitrary: R) simp_all

definition putRefs :: "resolvedRecord \<Rightarrow> (u8 list \<times> recordNo) list \<Rightarrow> (u8 list \<times> recordNo) list" where
  "putRefs r m = AList.update (local_hash (addressLocal (the (rec_RecRef (rr_Record r))))) (rr_recordNo r) m"

definition putReasons :: "resolvedRecord \<Rightarrow> (Global \<times> recordNo) list \<Rightarrow> (Global \<times> recordNo) list" where
  "putReasons r m = (if ref_IsEmpty (ex_ReasonRef (rr_Excerpt r)) then m else AList.update (the (ex_ReasonRef (rr_Excerpt r))) (rr_recordNo r) m)"

text \<open>The fields of a line that writing records does not touch.\<close>

definition sameFrame :: "LineStages \<Rightarrow> LineStages \<Rightarrow> bool" where
  "sameFrame p q \<longleftrightarrow> ls_base q = ls_base p \<and> ls_pn q = ls_pn p \<and> ls_cache q = ls_cache p \<and> ls_stages q = ls_stages p \<and>
     ls_accessFrequency q = ls_accessFrequency p \<and> ls_filamentRefs q = ls_filamentRefs p"

lemma addOne_flat:
  assumes ok: "pages_ok (ls_records p)" "grows grow" and fl: "flat (ls_records p) = A @ B" "length A = firstRec - 1"
    and add: "ls_addOne grow firstRec recNo r p = Ok q"
  shows "pages_ok (ls_records q)" "flat (ls_records q) = linkNext firstRec r A @ B @ [r]"
    "recNo = rr_recordNo r" "rr_filamentStartIndex r \<noteq> 0" "rec_RecRef (rr_Record r) \<noteq> None"
    "ls_recordRefs q = putRefs r (ls_recordRefs p)" "ls_reasonRefs q = putReasons r (ls_reasonRefs p)" "sameFrame p q"
proof -
  let ?c = "0 < rr_prev r \<and> rr_prev r < firstRec \<and> rr_next (A ! (rr_prev r - 1)) = 0 \<and> rr_filNo (A ! (rr_prev r - 1)) = rr_filNo r"
  let ?f = "\<lambda>x. x\<lparr>rr_next := rr_recordNo r\<rparr>"
  define p1 where "p1 = (if ?c then p\<lparr>ls_records := lr_update (rr_prev r) ?f (ls_records p)\<rparr> else p)"
  have g: "lr_get n (ls_records p) = (if 1 \<le> n \<and> n \<le> length (A @ B) then Some ((A @ B) ! (n - 1)) else None)" for n
    using lr_get_flat [OF ok(1)] fl(1) by simp
  show n: "recNo = rr_recordNo r" and i: "rr_filamentStartIndex r \<noteq> 0" using add by (auto simp: ls_addOne_def split: if_splits)
  have pr: "ls_record (rr_prev r) p = Ok (A ! (rr_prev r - 1))" if "0 < rr_prev r" "rr_prev r < firstRec"
    using that fl(2) g [of "rr_prev r"] by (auto simp: ls_record_def nth_append)
  have first: "(if rr_prev r > 0 \<and> rr_prev r < firstRec then bnd (ls_record (rr_prev r) p) (\<lambda>prevRec.
      if rr_next prevRec = 0 \<and> rr_filNo prevRec = rr_filNo r then Ok (p\<lparr>ls_records := lr_update (rr_prev r) ?f (ls_records p)\<rparr>) else Ok p) else Ok p) = Ok p1"
    using pr by (auto simp: p1_def)
  have p1: "pages_ok (ls_records p1) \<and> flat (ls_records p1) = linkNext firstRec r A @ B"
  proof (cases ?c)
    case True
    have le: "1 \<le> rr_prev r" "rr_prev r \<le> length (flat (ls_records p))" "rr_prev r - 1 < length A" using True fl by auto
    show ?thesis using lr_update_flat [OF ok(1) le(1,2), of ?f] True le(3) fl(1) by (simp add: p1_def linkNext_def nth_append list_update_append)
  next
    case False
    then have "p1 = p" "linkNext firstRec r A = A" unfolding p1_def linkNext_def by (simp_all only: if_False)
    then show ?thesis using ok(1) fl(1) by simp
  qed
  obtain rs where rs: "lr_add grow zeroUpdate r (ls_records p1) = Ok rs" "pages_ok rs" "flat rs = linkNext firstRec r A @ B @ [r]"
    using lr_add_flat [of "ls_records p1" grow zeroUpdate r] p1 ok(2) by auto
  have q: "bnd (rr_Local r) (\<lambda>local. Ok (ls_putReason r (p1\<lparr>ls_records := rs, ls_recordRefs := AList.update (local_hash local) (rr_recordNo r) (ls_recordRefs p1)\<rparr>))) = Ok q"
    using add n i first rs(1) unfolding ls_addOne_def by simp
  then show l: "rec_RecRef (rr_Record r) \<noteq> None" by (cases "rec_RecRef (rr_Record r)") (simp_all add: rr_Local_def)
  then have q: "q = ls_putReason r (p1\<lparr>ls_records := rs, ls_recordRefs := putRefs r (ls_recordRefs p1)\<rparr>)" using q by (auto simp: rr_Local_def putRefs_def)
  show "pages_ok (ls_records q)" "flat (ls_records q) = linkNext firstRec r A @ B @ [r]" "ls_recordRefs q = putRefs r (ls_recordRefs p)"
    "ls_reasonRefs q = putReasons r (ls_reasonRefs p)" "sameFrame p q"
    using rs(2,3) unfolding q p1_def by (simp_all add: ls_putReason_def putReasons_def Let_def sameFrame_def)
qed

lemma sameFrame_trans: "sameFrame p q \<Longrightarrow> sameFrame q r \<Longrightarrow> sameFrame p r"
  by (simp add: sameFrame_def)

lemma addRecords_flat:
  assumes "pages_ok (ls_records p)" "grows grow" "flat (ls_records p) = A @ B" "length A = firstRec - 1"
    and "ls_addRecords grow firstRec recNo rs p = Ok q"
  shows "pages_ok (ls_records q) \<and> flat (ls_records q) = linkAll firstRec rs A @ B @ rs \<and>
    (\<forall>i < length rs. rr_recordNo (rs ! i) = recNo + i \<and> rr_filamentStartIndex (rs ! i) \<noteq> 0 \<and> rec_RecRef (rr_Record (rs ! i)) \<noteq> None) \<and>
    ls_recordRefs q = fold putRefs rs (ls_recordRefs p) \<and> ls_reasonRefs q = fold putReasons rs (ls_reasonRefs p) \<and> sameFrame p q"
  using assms
proof (induction rs arbitrary: p recNo A B)
  case Nil
  then show ?case by (simp add: sameFrame_def)
next
  case (Cons r rs)
  obtain p1 where p1: "ls_addOne grow firstRec recNo r p = Ok p1" "ls_addRecords grow firstRec (recNo + 1) rs p1 = Ok q"
    using Cons.prems(5) by (auto simp: bnd_Ok_iff)
  note a = addOne_flat [OF Cons.prems(1-4) p1(1)]
  have len: "length (linkNext firstRec r A) = firstRec - 1" using Cons.prems(4) by simp
  note ih = Cons.IH [OF a(1) Cons.prems(2) a(2) len p1(2)]
  have "rr_recordNo ((r # rs) ! i) = recNo + i \<and> rr_filamentStartIndex ((r # rs) ! i) \<noteq> 0 \<and> rec_RecRef (rr_Record ((r # rs) ! i)) \<noteq> None"
    if "i < length (r # rs)" for i
    using that ih a(3-5) by (cases i) auto
  then show ?case using ih a(6-8) sameFrame_trans by auto
qed

subsection \<open>Validating the records of a bundle\<close>

abbreviation sv_fils :: "stageValidator \<Rightarrow> filament list" where
  "sv_fils v \<equiv> st_filaments (sv_stage v)"

text \<open>What a successful validation does to the filaments of the stage: the record continues a filament or is the first one of it.\<close>

definition filStep :: "resolvedRecord \<Rightarrow> filament \<Rightarrow> filament \<Rightarrow> bool" where
  "filStep r f f' \<longleftrightarrow>
     (if fil_earliest f \<noteq> 0 then fil_latest f = rr_prev r \<and> fil_setLatest (rr_recordNo r) f = Ok f'
      else rr_IsRecap r \<and> fil_earliest f' = 0 \<and> fil_latest f' = fil_latest f \<or> fil_earliest f' = rr_recordNo r \<and> fil_latest f' = rr_recordNo r)"

lemma setLatest_ok:
  assumes "fil_setLatest n f = Ok f'" "n \<noteq> deadFilament"
  shows "fil_latest f' = n" "fil_earliest f' = (if fil_earliest f = 0 then n else fil_earliest f)" "n \<noteq> 0" "fil_earliest f \<noteq> 0 \<Longrightarrow> fil_latest f < n"
  using assms by (auto simp: fil_setLatest_def split: if_splits)

lemma recapHead_ok:
  assumes "recapHead r f = Ok (f', Inr d)"
  shows "fil_earliest f' = fil_earliest f" "fil_latest f' = fil_latest f"
  using assms by (auto simp: recapHead_def fil_setLatest_def deadFilament_def Let_def split: if_splits option.splits)

lemma firstOfFilament_ok:
  assumes "firstOfFilament v r f = Ok (f', Inr d)" "rr_recordNo r \<noteq> deadFilament" "fil_earliest f = 0"
  shows "filStep r f f'"
proof -
  define g where "g = (if rr_filNo r \<noteq> 1 then f\<lparr>fil_root := b_branchRoot (sv_bundle v) + sv_recDelta v\<rparr> else f)"
  have g: "fil_earliest g = 0" "fil_latest g = fil_latest f"
    "(if \<not> rr_IsRecap r then bnd (fil_setLatest (rr_recordNo r) (g\<lparr>fil_resolvedHead := asResolvedDependency r\<rparr>)) (\<lambda>f. Ok (f, Inr (fil_root f))) else recapHead r g) = Ok (f', Inr d)"
    using assms(1,3) by (auto simp: g_def firstOfFilament_def fil_setRoot_def Let_def split: if_splits)
  show ?thesis
  proof (cases "rr_IsRecap r")
    case True
    then show ?thesis using g recapHead_ok [of r g f' d] assms(3) by (simp add: filStep_def)
  next
    case False
    then have "fil_setLatest (rr_recordNo r) (g\<lparr>fil_resolvedHead := asResolvedDependency r\<rparr>) = Ok f'" using g(3) by (auto simp: bnd_Ok_iff)
    then show ?thesis using setLatest_ok [OF _ assms(2)] g(1) assms(3) by (simp add: filStep_def)
  qed
qed

text \<open>The filament of a record: a given one, the new one of the bundle, or a new one.\<close>

lemma addFilament_ok:
  assumes "addFilament v r = Ok (v1, r1, Inr u)"
  shows "r1 = r\<lparr>rr_filNo := rr_filNo r1\<rparr>" "rr_filNo r1 \<noteq> 0"
    "if rr_filNo r \<noteq> 0 then v1 = v \<and> rr_filNo r1 = rr_filNo r
     else if sv_filNo v \<noteq> 0 then v1 = v \<and> rr_filNo r1 = sv_filNo v
     else v1 = v\<lparr>sv_stage := (sv_stage v)\<lparr>st_filaments := sv_fils v @ [newFilament]\<rparr>, sv_filNo := length (sv_fils v) + 1, sv_filRoot := sv_filRoot v1\<rparr> \<and>
       rr_filNo r1 = length (sv_fils v) + 1 \<and> rr_Local r = Ok (sv_filRoot v1)"
  using assms by (auto simp: addFilament_def Let_def bnd_Ok_iff split: if_splits)

lemma applyFilament_ok:
  assumes "applyFilament v r = Ok (v', r', Inr d)" "rr_recordNo r \<noteq> deadFilament"
  shows "\<exists>v1 i f'. addFilament v r = Ok (v1, r', Inr ()) \<and> i = rr_filNo r' - 1 \<and> i < length (sv_fils v1) \<and> filStep r' (sv_fils v1 ! i) f' \<and>
    v' = v1\<lparr>sv_stage := (sv_stage v1)\<lparr>st_filaments := (sv_fils v1)[i := f']\<rparr>\<rparr>"
proof -
  obtain v1 r1 e where a1: "addFilament v r = Ok (v1, r1, e)" using assms(1) by (cases "addFilament v r") (auto simp: applyFilament_def)
  note a = a1 assms(1) [unfolded applyFilament_def a1 bnd.simps prod.case]
  then obtain u where e: "e = Inr u" by (cases e) auto
  have n: "rr_recordNo r1 \<noteq> deadFilament" using addFilament_ok(1) [of v r v1 r1 u] a(1) e assms(2) by (metis resolvedRecord.select_convs(3) resolvedRecord.update_convs(4) resolvedRecord.surjective)
  let ?i = "rr_filNo r1 - 1" and ?f = "sv_fils v1 ! (rr_filNo r1 - 1)"
  have i: "?i < length (sv_fils v1)" using a(2) e by (auto simp: Let_def split: if_splits)
  show ?thesis
  proof (cases "fil_earliest ?f = 0")
    case True
    then obtain f' where f': "firstOfFilament v1 r1 ?f = Ok (f', Inr d)" "v' = v1\<lparr>sv_stage := (sv_stage v1)\<lparr>st_filaments := (sv_fils v1)[?i := f']\<rparr>\<rparr>" "r' = r1"
      using a(2) e i by (auto simp: Let_def bnd_Ok_iff)
    then show ?thesis using a(1) e i firstOfFilament_ok [OF f'(1) n True] by auto
  next
    case False
    then obtain f' where "fil_setLatest (rr_recordNo r1) ?f = Ok f'" "v' = v1\<lparr>sv_stage := (sv_stage v1)\<lparr>st_filaments := (sv_fils v1)[?i := f']\<rparr>\<rparr>" "r' = r1" "fil_latest ?f = rr_prev r1"
      using a(2) e i by (auto simp: Let_def bnd_Ok_iff split: if_splits)
    then show ?thesis using a(1) e i False by (auto simp: filStep_def)
  qed
qed

text \<open>The numbers of a record are renumbered by the records that were added since the bundle was made.\<close>

definition renumbered :: "recordNo \<Rightarrow> recordNo \<Rightarrow> resolvedRecord \<Rightarrow> resolvedRecord \<Rightarrow> bool" where
  "renumbered fr d r r' \<longleftrightarrow>
     rr_Record r' = rr_Record r \<and> rr_recordNo r' = rr_recordNo r + d \<and>
     rr_prev r' = (if rr_prev r \<ge> fr then rr_prev r + d else rr_prev r) \<and>
     rr_next r' = (if rr_next r \<noteq> deadFilament \<and> rr_next r \<ge> fr then rr_next r + d else rr_next r) \<and>
     (rr_next r = deadFilament \<or> rr_next r \<ge> fr \<or> rr_next r = 0)"

lemma renumbered_keeps: "renumbered fr d r (r'\<lparr>rr_filNo := n\<rparr>) = renumbered fr d r r'" "renumbered fr d r (r'\<lparr>rr_filamentStartIndex := x\<rparr>) = renumbered fr d r r'"
  by (simp_all add: renumbered_def)

lemma adjusted_renumbered:
  assumes "adjustNext v r = (r1, Inr u)" "adjustPrevAndRecap v r1 = (r2, Inr w)"
  shows "renumbered (sv_firstRec v) (sv_recDelta v) r r2" "rr_filNo r2 = rr_filNo r"
proof -
  have "rr_Record r1 = rr_Record r" "rr_recordNo r1 = rr_recordNo r + sv_recDelta v" "rr_prev r1 = rr_prev r" "rr_filNo r1 = rr_filNo r"
    "rr_next r1 = (if rr_next r \<noteq> deadFilament \<and> rr_next r \<ge> sv_firstRec v then rr_next r + sv_recDelta v else rr_next r)"
    "rr_next r = deadFilament \<or> rr_next r \<ge> sv_firstRec v \<or> rr_next r = 0"
    using assms(1) by (auto simp: adjustNext_def Let_def split: if_splits)
  moreover have "rr_Record r2 = rr_Record r1 \<and> rr_recordNo r2 = rr_recordNo r1 \<and> rr_next r2 = rr_next r1 \<and> rr_filNo r2 = rr_filNo r1 \<and>
      rr_prev r2 = (if rr_prev r1 \<ge> sv_firstRec v then rr_prev r1 + sv_recDelta v else rr_prev r1)"
    using assms(2) by (auto simp: adjustPrevAndRecap_def Let_def split: if_splits)
  ultimately show "renumbered (sv_firstRec v) (sv_recDelta v) r r2" "rr_filNo r2 = rr_filNo r" by (simp_all add: renumbered_def)
qed

text \<open>A validated record.\<close>

lemma validateRecord_ok:
  assumes "ls_validateRecord p N v r = Ok (v', r', Inr d)" "rr_recordNo r + sv_recDelta v \<noteq> deadFilament"
  shows "ls_checkReason p r = Inr ()" "renumbered (sv_firstRec v) (sv_recDelta v) r r'"
    "\<exists>v1 r1 r2 f'. addFilament v r1 = Ok (v1, r2, Inr ()) \<and> rr_filNo r1 = rr_filNo r \<and> rr_Record r1 = rr_Record r \<and> rr_filNo r2 = rr_filNo r' \<and>
       rr_filNo r' - 1 < length (sv_fils v1) \<and> filStep r' (sv_fils v1 ! (rr_filNo r' - 1)) f' \<and>
       v' = v1\<lparr>sv_stage := (sv_stage v1)\<lparr>st_filaments := (sv_fils v1)[rr_filNo r' - 1 := f']\<rparr>\<rparr>"
proof -
  obtain r1 e1 where r1: "adjustNext v r = (r1, e1)" by fastforce
  show c: "ls_checkReason p r = Inr ()" using assms(1) by (auto simp: ls_validateRecord_def split: sum.splits)
  obtain r2 e2 where r2: "adjustPrevAndRecap v r1 = (r2, e2)" by fastforce
  have e: "e1 = Inr ()" "e2 = Inr ()" using assms(1) c r1 r2 by (auto simp: ls_validateRecord_def split: sum.splits)
  note m = adjusted_renumbered [OF r1 [unfolded e(1)] r2 [unfolded e(2)]]
  obtain v3 r3 e3 where a: "applyFilament v r2 = Ok (v3, r3, e3)"
    using assms(1) c r1 r2 e by (cases "applyFilament v r2") (auto simp: ls_validateRecord_def)
  obtain d3 where e3: "e3 = Inr d3" and r': "r' = r3 \<or> (\<exists>x. r' = r3\<lparr>rr_filamentStartIndex := x\<rparr>)" and v': "v' = v3"
  proof -
    note u = assms(1) [unfolded ls_validateRecord_def c sum.case r1 Let_def prod.case e r2 a bnd.simps]
    obtain d3 where d3: "e3 = Inr d3" using u by (cases e3) auto
    have f: "ls_applyFilamentDependency p r3 k N = Ok (x, y) \<Longrightarrow> x = r3 \<or> (\<exists>z. x = r3\<lparr>rr_filamentStartIndex := z\<rparr>)" for k x y
      by (auto simp: ls_applyFilamentDependency_def Let_def split: if_splits option.splits)
    show ?thesis
    proof (cases "d3 = 0")
      case True
      then show ?thesis using u d3 that by simp
    next
      case False
      then obtain x y where xy: "ls_applyFilamentDependency p r3 d3 N = Ok (x, y)" "r' = x" "v' = v3"
        using u d3 by (cases "ls_applyFilamentDependency p r3 d3 N") auto
      then show ?thesis using f d3 that by blast
    qed
  qed
  have n: "rr_recordNo r2 \<noteq> deadFilament" using m(1) assms(2) by (simp add: renumbered_def)
  obtain v1 i f' where f: "addFilament v r2 = Ok (v1, r3, Inr ())" "i = rr_filNo r3 - 1" "i < length (sv_fils v1)" "filStep r3 (sv_fils v1 ! i) f'"
      "v3 = v1\<lparr>sv_stage := (sv_stage v1)\<lparr>st_filaments := (sv_fils v1)[i := f']\<rparr>\<rparr>"
    using applyFilament_ok [OF a [unfolded e3] n] by auto
  have s: "rr_filNo r' = rr_filNo r3" "filStep r' = filStep r3" using r' by (auto simp: filStep_def rr_IsRecap_def fun_eq_iff)
  have "renumbered (sv_firstRec v) (sv_recDelta v) r r3" using m(1) addFilament_ok(1) [OF f(1)] by (metis renumbered_keeps(1))
  then show "renumbered (sv_firstRec v) (sv_recDelta v) r r'" using r' by (auto simp: renumbered_keeps(2))
  have "rr_filNo r2 = rr_filNo r" "rr_Record r2 = rr_Record r" using m by (simp_all add: renumbered_def)
  then show "\<exists>v1 r1 r2 f'. addFilament v r1 = Ok (v1, r2, Inr ()) \<and> rr_filNo r1 = rr_filNo r \<and> rr_Record r1 = rr_Record r \<and> rr_filNo r2 = rr_filNo r' \<and>
       rr_filNo r' - 1 < length (sv_fils v1) \<and> filStep r' (sv_fils v1 ! (rr_filNo r' - 1)) f' \<and>
       v' = v1\<lparr>sv_stage := (sv_stage v1)\<lparr>st_filaments := (sv_fils v1)[rr_filNo r' - 1 := f']\<rparr>\<rparr>"
    using f v' s by metis
qed

subsection \<open>The loop over the records\<close>

definition withRecord :: "nat \<Rightarrow> resolvedRecord \<Rightarrow> stageValidator \<Rightarrow> stageValidator" where
  "withRecord i r v = v\<lparr>sv_bundle := (sv_bundle v)\<lparr>b_records := (b_records (sv_bundle v))[i := r]\<rparr>\<rparr>"

definition atRecord :: "nat \<Rightarrow> stageValidator \<Rightarrow> stageValidator" where
  "atRecord i v = v\<lparr>sv_bundle := b_setLastRecord (rec_RecRef (rr_Record (b_records (sv_bundle v) ! i))) (sv_bundle v)\<rparr>"

lemma validateRecord_bundle:
  assumes "ls_validateRecord p N v r = Ok (v', r', e)"
  shows "sv_bundle v' = sv_bundle v"
proof -
  have a: "addFilament v r = Ok (v', r', e) \<Longrightarrow> sv_bundle v' = sv_bundle v" for v r r' v' e
    by (auto simp: addFilament_def Let_def bnd_Ok_iff split: if_splits)
  have f: "applyFilament v r = Ok (v', r', e) \<Longrightarrow> sv_bundle v' = sv_bundle v" for v r r' v' e
  proof -
    assume f: "applyFilament v r = Ok (v', r', e)"
    then obtain v1 r1 e1 where a1: "addFilament v r = Ok (v1, r1, e1)" by (cases "addFilament v r") (auto simp: applyFilament_def)
    then show ?thesis using f a [OF a1] by (auto simp: applyFilament_def Let_def bnd_Ok_iff split: sum.splits if_splits)
  qed
  obtain r1 e1 where r1: "adjustNext v r = (r1, e1)" by fastforce
  obtain r2 e2 where r2: "adjustPrevAndRecap v r1 = (r2, e2)" by fastforce
  note u = assms [unfolded ls_validateRecord_def r1 Let_def prod.case r2]
  show ?thesis
  proof (cases "isl (ls_checkReason p r) \<or> isl e1 \<or> isl e2")
    case True
    then show ?thesis using u by (auto split: sum.splits)
  next
    case False
    then obtain a b c where c: "ls_checkReason p r = Inr a" "e1 = Inr b" "e2 = Inr c" by (cases "ls_checkReason p r"; cases e1; cases e2) auto
    obtain w r3 e3 where w: "applyFilament v r2 = Ok (w, r3, e3)" using u c by (cases "applyFilament v r2") auto
    have "v' = w" using u c w by (cases e3) (auto simp: bnd_Ok_iff split: if_splits)
    then show ?thesis using f [OF w] by simp
  qed
qed

text \<open>A bundle without errors at the end had none before, and every record was validated; so an invariant of the steps holds at the end.\<close>

lemma validateFrom_induct:
  assumes "ls_validateFrom p N i n v h = Ok (v', h')" "b_errors (sv_bundle v') = []" "P i v"
    and "\<And>i v v1 r1 d. \<lbrakk>P i v; b_errors (sv_bundle v) = []; ls_validateRecord p N (atRecord i v) (b_records (sv_bundle v) ! i) = Ok (v1, r1, Inr d)\<rbrakk> \<Longrightarrow> P (Suc i) (withRecord i r1 v1)"
  shows "P (i + n) v' \<and> b_errors (sv_bundle v) = []"
  using assms(1-3)
proof (induction n arbitrary: i v h)
  case 0
  then show ?case by simp
next
  case (Suc n)
  let ?r = "b_records (sv_bundle v) ! i"
  obtain v1 r1 e where s: "ls_validateRecord p N (atRecord i v) ?r = Ok (v1, r1, e)"
    using Suc.prems(1) by (cases "ls_validateRecord p N (atRecord i v) ?r") (auto simp: Let_def atRecord_def)
  let ?w = "withRecord i r1 v1"
  let ?w' = "case e of Inl e \<Rightarrow> ?w\<lparr>sv_bundle := b_addError e (sv_bundle ?w)\<rparr> | Inr _ \<Rightarrow> ?w"
  obtain h1 where rest: "ls_validateFrom p N (Suc i) n ?w' h1 = Ok (v', h')"
    using Suc.prems(1) s by (cases e) (simp_all add: Let_def atRecord_def withRecord_def)
  have eb: "b_errors (sv_bundle ?w) = b_errors (sv_bundle v)" using validateRecord_bundle [OF s] by (simp add: withRecord_def atRecord_def b_setLastRecord_def)
  have keep: "b_errors (sv_bundle w) = []" if "ls_validateFrom p N j m w g = Ok (v', h')" for j m w g
    using that
  proof (induction m arbitrary: j w g)
    case 0
    then show ?case using Suc.prems(2) by simp
  next
    case (Suc m)
    obtain w1 q1 e1 where s1: "ls_validateRecord p N (atRecord j w) (b_records (sv_bundle w) ! j) = Ok (w1, q1, e1)"
      using Suc.prems by (cases "ls_validateRecord p N (atRecord j w) (b_records (sv_bundle w) ! j)") (auto simp: Let_def atRecord_def)
    obtain g1 where "ls_validateFrom p N (Suc j) m (case e1 of Inl e \<Rightarrow> (withRecord j q1 w1)\<lparr>sv_bundle := b_addError e (sv_bundle (withRecord j q1 w1))\<rparr> | Inr _ \<Rightarrow> withRecord j q1 w1) g1 = Ok (v', h')"
      using Suc.prems s1 by (cases e1) (simp_all add: Let_def atRecord_def withRecord_def)
    then have "b_errors (sv_bundle (case e1 of Inl e \<Rightarrow> (withRecord j q1 w1)\<lparr>sv_bundle := b_addError e (sv_bundle (withRecord j q1 w1))\<rparr> | Inr _ \<Rightarrow> withRecord j q1 w1)) = []"
      by (rule Suc.IH)
    then show ?case using validateRecord_bundle [OF s1] by (cases e1) (simp_all add: withRecord_def atRecord_def b_setLastRecord_def b_addError_def b_addRefError_def)
  qed
  have z: "b_errors (sv_bundle ?w') = []" by (rule keep [OF rest])
  then obtain d where e: "e = Inr d" by (cases e) (auto simp: b_addError_def b_addRefError_def)
  have "b_errors (sv_bundle v) = []" using z eb e by simp
  then have "P (Suc i) ?w" using assms(4) [OF Suc.prems(3)] s e by blast
  then show ?case using Suc.IH [OF rest Suc.prems(2)] e \<open>b_errors (sv_bundle v) = []\<close> by simp
qed

end
