(* ===== verification/Line_Order.thy ===== *)
theory Line_Order
  imports Line_Validation
begin

text \<open>
  The order of records in a line: every bundle numbers its records one after another, a predecessor has a smaller and a successor a
  greater number, and every operation on a line keeps it so. The lines that the operations make are the reachable ones.
\<close>

subsection \<open>Bundles number their records in order\<close>

definition ordered :: "recordNo \<Rightarrow> recordNo \<Rightarrow> resolvedRecord list \<Rightarrow> bool" where
  "ordered M B rs \<longleftrightarrow> (\<forall>i < length rs. rr_recordNo (rs ! i) = M + i \<and> rr_prev (rs ! i) < M + i \<and>
     (rr_next (rs ! i) = 0 \<or> rr_next (rs ! i) = deadFilament \<or> M + i < rr_next (rs ! i) \<and> rr_next (rs ! i) < B))"

lemma ordered_append:
  assumes "ordered M B rs" "rr_recordNo r = M + length rs" "rr_prev r < M + length rs" "rr_next r = 0 \<or> rr_next r = deadFilament"
  shows "ordered M B (rs @ [r])"
  using assms by (auto simp: ordered_def nth_append less_Suc_eq)

lemma ordered_next: "ordered M B rs \<Longrightarrow> i < length rs \<Longrightarrow> M + i < n \<Longrightarrow> n < B \<Longrightarrow> ordered M B (rs[i := (rs ! i)\<lparr>rr_next := n\<rparr>])"
  by (auto simp: ordered_def nth_list_update)

lemma ordered_mono: "ordered M B rs \<Longrightarrow> B \<le> C \<Longrightarrow> ordered M C rs"
  by (force simp: ordered_def)

text \<open>A step keeps a property of the state, whether it succeeds or fails.\<close>

definition keeps :: "('s \<Rightarrow> bool) \<Rightarrow> ('s, 'a) step \<Rightarrow> bool" where
  "keeps I m \<longleftrightarrow> (\<forall>s s' r. I s \<longrightarrow> m s = Ok (s', r) \<longrightarrow> I s')"

named_theorems keeping

lemma keeps_basic [keeping]: "keeps I (sret x)" "keeps I (sfail e)" "keeps I (spanic e)" "keeps I (slift y)"
  by (auto simp: keeps_def step_simps bnd_Ok_iff)

lemma keeps_sbnd [keeping]: "keeps I m \<Longrightarrow> (\<And>x. keeps I (f x)) \<Longrightarrow> keeps I (sbnd m f)"
proof (unfold keeps_def, intro allI impI)
  fix s s' r
  assume m: "\<forall>s s' r. I s \<longrightarrow> m s = Ok (s', r) \<longrightarrow> I s'" and f: "\<And>x. \<forall>s s' r. I s \<longrightarrow> f x s = Ok (s', r) \<longrightarrow> I s'"
    and s: "I s" "sbnd m f s = Ok (s', r)"
  obtain t e where t: "m s = Ok (t, e)" using s(2) by (cases "m s") (auto simp: sbnd_def)
  then have "I t" using m s(1) by blast
  then show "I s'" using s(2) t f by (cases e) (auto simp: sbnd_def)
qed

lemma keeps_if [keeping]: "keeps I m \<Longrightarrow> keeps I n \<Longrightarrow> keeps I (if c then m else n)"
  by simp

lemma keeps_whenExact [keeping]: "(\<And>g. keeps I (f g)) \<Longrightarrow> keeps I (whenExact ref c x f)"
  by (auto simp: whenExact_def keeps_basic split: sum.splits option.splits)

lemma keeps_checks [keeping]:
  assumes "\<And>g. keeps I (f g)"
  shows "keeps I (CheckRootRef v ref d f)" "keeps I (CheckPrevRef v root ref d f)" "keeps I (CheckRejoinRef v ref d t f)" "keeps I (CheckRedirectRef v ref f)"
  unfolding CheckRootRef_def CheckPrevRef_def CheckRejoinRef_def CheckRedirectRef_def blockedByPulse_def forkOf_def Let_def
  by (intro keeping assms | simp add: keeping split: option.split)+

lemma keepsI: "(\<And>s s' r. I s \<Longrightarrow> m s = Ok (s', r) \<Longrightarrow> I s') \<Longrightarrow> keeps I m"
  by (simp add: keeps_def)

lemma keepsD: "keeps I m \<Longrightarrow> I s \<Longrightarrow> m s = Ok (s', r) \<Longrightarrow> I s'"
  by (simp add: keeps_def)

text \<open>The state of the resolvers of a record that is the next one of the bundle.\<close>

definition placing :: "recordNo \<Rightarrow> nat \<Rightarrow> adding \<Rightarrow> bool" where
  "placing M k s \<longleftrightarrow> b_maxRecNo (ad_p s) = M \<and> length (b_records (ad_p s)) = k \<and> ordered M (M + k + 1) (b_records (ad_p s)) \<and>
     rr_recordNo (ad_upd s) = M + k \<and> rr_prev (ad_upd s) < M + k \<and> (rr_next (ad_upd s) = 0 \<or> rr_next (ad_upd s) = deadFilament) \<and>
     (\<forall>i. ad_prevRecord s = Some i \<longrightarrow> i < k)"

lemma findIn_bound: "findIn l i rs = Ok (Some j) \<Longrightarrow> i \<le> j \<and> j < i + length rs"
  by (induction l i rs rule: findIn.induct) (fastforce simp: bnd_Ok_iff split: if_splits)+

lemma findResolved_bound: "b_findResolved l p = Ok (Some i) \<Longrightarrow> i < length (b_records p)"
  using findIn_bound [of l 0 "b_records p" i] by (simp add: b_findResolved_def)

lemma placing_depends [keeping]: "keeps (placing M k) (ad_depends root ref)"
  by (rule keepsI) (auto simp: ad_depends_def b_addDependency_def placing_def Let_def bnd_Ok_iff split: if_splits)

lemma placing_simps [simp]:
  "placing M k (ad_setFil f s) = placing M k s" "placing M k (ad_error n e s) = placing M k s"
  "placing M k (s\<lparr>ad_prevType := t\<rparr>) = placing M k s" "placing M k (s\<lparr>ad_upd := (ad_upd s)\<lparr>rr_redirectToType := rt\<rparr>\<rparr>) = placing M k s"
  by (simp_all add: placing_def ad_setFil_def ad_error_def b_addRefError_def)

lemma rootResolver_keeps [keeping]: "keeps (placing M k) (rootResolver resolver ref)"
proof (rule keepsI)
  fix s s' r
  assume s: "placing M k s" and m: "rootResolver resolver ref s = Ok (s', r)"
  obtain found where f: "b_getLocalFilament (addressLocal ref) (ad_p s) = Ok found"
    using m by (cases "b_getLocalFilament (addressLocal ref) (ad_p s)") (auto simp: rootResolver_def)
  show "placing M k s'"
  proof (cases found)
    case None
    obtain filNo dep where d: "res_findFilament resolver (addressLocal ref) = Ok (filNo, dep)"
      using m f None by (cases "res_findFilament resolver (addressLocal ref)") (auto simp: rootResolver_def)
    let ?m = "if filNo \<ge> b_maxFilNo (ad_p s) then sfail ''forward filament'' else if dep_IsNotAvailable dep then sbnd (ad_depends (Some ref) None) (\<lambda>_. sret dep) else sret dep"
    have "?m (ad_setFil filNo s) = Ok (s', r)" using m f None d by (auto simp: rootResolver_def Let_def ad_setFil_def split: if_splits)
    moreover have "keeps (placing M k) ?m" by (intro keeping)
    moreover have "placing M k (ad_setFil filNo s)" using s by (simp only: placing_simps)
    ultimately show ?thesis by (blast dest: keepsD)
  next
    case (Some x)
    then show ?thesis using m f s by (cases x) (auto simp: rootResolver_def step_simps split: if_splits)
  qed
qed

lemma prevResolver_keeps:
  assumes below: "\<And>f n d rc. res_findChained resolver rootRef (Some ref) b = Ok (f, n, d, rc) \<Longrightarrow> n < M" "b = (\<not> IsBranched policy)"
  shows "keeps (placing M k) (prevResolver resolver policy rootRef ref)"
proof (rule keepsI)
  fix s s' r
  assume s: "placing M k s" and m: "prevResolver resolver policy rootRef ref s = Ok (s', r)"
  obtain found where f: "b_findResolved (addressLocal ref) (ad_p s) = Ok found"
    using m by (cases "b_findResolved (addressLocal ref) (ad_p s)") (auto simp: prevResolver_def)
  show "placing M k s'"
  proof (cases found)
    case None
    obtain filNo prev dep recap where d: "res_findChained resolver rootRef (Some ref) b = Ok (filNo, prev, dep, recap)"
      using m f None below(2) by (cases "res_findChained resolver rootRef (Some ref) b") (auto simp: prevResolver_def)
    let ?t = "s\<lparr>ad_upd := (ad_upd s)\<lparr>rr_filNo := filNo, rr_prev := prev, rr_recapNo := recap\<rparr>\<rparr>"
    let ?m = "\<lambda>t. if dep_IsZero dep then sret dep t
      else if dep_IsNotAvailable dep then sbnd (if b then ad_depends rootRef (Some ref) else ad_depends None (Some ref)) (\<lambda>_. sret dep) t
      else if prev = 0 \<and> filNo \<noteq> 0 then Panic ''Impossible''
      else case b_checkOrdering prev filNo (ad_p t) of Inl e \<Rightarrow> sfail e t | Inr _ \<Rightarrow> sret dep (t\<lparr>ad_prevType := dep_RecordType dep\<rparr>)"
    have t: "placing M k ?t" using s below(1) [OF d] by (auto simp: placing_def)
    have m': "?m ?t = Ok (s', r)" using m f None d unfolding prevResolver_def Let_def below(2) by simp
    have k: "keeps (placing M k) (sbnd (if b then ad_depends rootRef (Some ref) else ad_depends None (Some ref)) (\<lambda>_. sret dep))" by (intro keeping)
    have "placing M k (?t\<lparr>ad_prevType := dep_RecordType dep\<rparr>)" using t by (simp only: placing_simps)
    then show ?thesis using m' t keepsD [OF k t] by (auto simp: sret_def sfail_def split: if_splits sum.splits)
  next
    case (Some i)
    have i: "i < length (b_records (ad_p s))" using findResolved_bound f Some by simp
    then have "rr_recordNo (b_records (ad_p s) ! i) < M + k" using s by (simp add: placing_def ordered_def)
    then show ?thesis using m f Some i s by (auto simp: prevResolver_def Let_def step_simps placing_def)
  qed
qed

lemma forkPrev_keeps: "placing M k s \<Longrightarrow> placing M k (forkPrev s)"
proof -
  have b: "placing M k (s\<lparr>ad_p := (ad_p s)\<lparr>b_branchFirst := n\<rparr>\<rparr>) = placing M k s" for s n by (simp add: placing_def)
  show "placing M k s \<Longrightarrow> placing M k (forkPrev s)" unfolding forkPrev_def Let_def placing_simps by (simp add: b del: insert_iff)
qed

lemma linkPrev_keeps: "placing M k s \<Longrightarrow> i < k \<Longrightarrow> placing M k (linkPrev i s)"
proof -
  have e: "placing M k (t\<lparr>ad_p := (ad_p t)\<lparr>b_records := (b_records (ad_p t))[i := (b_records (ad_p t) ! i)\<lparr>rr_next := rr_recordNo (ad_upd t)\<rparr>]\<rparr>\<rparr>)"
    if "placing M k t" "i < k" for t
    using that ordered_next [of M "M + k + 1" "b_records (ad_p t)" i "M + k"] by (auto simp: placing_def)
  show "placing M k s \<Longrightarrow> i < k \<Longrightarrow> placing M k (linkPrev i s)" unfolding linkPrev_def Let_def placing_simps by (rule e) simp_all
qed

lemma supplementary_keeps [keeping]: "keeps (placing M k) (resolveSupplementaryRef resolver rootRef ref)"
proof (rule keepsI)
  fix s s' r
  assume s: "placing M k s" and m: "resolveSupplementaryRef resolver rootRef ref s = Ok (s', r)"
  have k: "keeps (placing M k) (sbnd (ad_depends None (Some ref)) (\<lambda>_. sret dep))" for dep by (intro keeping)
  show "placing M k s'"
  proof (cases "ref_IsEmpty rootRef \<or> addressBase (the rootRef) \<noteq> addressBase ref")
    case True
    then show ?thesis using m s keepsD [OF k s] by (auto simp: resolveSupplementaryRef_def sret_def sfail_def split: if_splits sum.splits)
  next
    case False
    then obtain f n d where "res_findLocal resolver rootRef (Some ref) = Ok (f, n, d)"
      using m by (cases "res_findLocal resolver rootRef (Some ref)") (auto simp: resolveSupplementaryRef_def)
    then show ?thesis using m s keepsD [OF k s] False
      by (auto simp: resolveSupplementaryRef_def sret_def sfail_def split: if_splits sum.splits)
  qed
qed

text \<open>The resolver of a line finds predecessors among the records that were in the line when the bundle was made.\<close>

definition looksBack :: "lineResolver \<Rightarrow> bool" where
  "looksBack res \<longleftrightarrow> 0 < res_nextRecNo res \<and> (\<forall>root ref b f n d rc. res_findChained res root ref b = Ok (f, n, d, rc) \<longrightarrow> n < res_nextRecNo res)"

lemma checked_keeps:
  assumes "keeps (placing M k) m" "placing M k s" "checked n m s = Ok t"
  shows "placing M k t"
proof -
  obtain u e where u: "m s = Ok (u, e)" using assms(3) by (cases "m s") (auto simp: checked_def)
  then show ?thesis using assms(3) keepsD [OF assms(1,2) u] by (cases e) (auto simp: checked_def)
qed

lemma resolvePrevRef_keeps:
  assumes "looksBack res" "res_nextRecNo res = M" "placing M k s" "resolvePrevRef res policy details s = Ok t"
  shows "placing M k t"
proof -
  let ?root = "ex_RootRef (rr_Excerpt (ad_upd s))"
  let ?m = "CheckPrevRef policy ?root (ex_PrevRef (rr_Excerpt (ad_upd s))) details (prevResolver res policy ?root)"
  have below: "n < M" if "res_findChained res ?root (Some g) b = Ok (f, n, d, rc)" for g b f n d rc
    using assms(1,2) that unfolding looksBack_def by blast
  have k: "keeps (placing M k) ?m" by (intro keeps_checks prevResolver_keeps [OF _ refl]) (rule below)
  obtain u e where u: "?m s = Ok (u, e)" using assms(4) by (cases "?m s") (auto simp: resolvePrevRef_def Let_def)
  have "placing M k u" by (rule keepsD [OF k assms(3) u])
  moreover have "i < k" if "ad_prevRecord u = Some i" for i using that \<open>placing M k u\<close> by (simp add: placing_def)
  ultimately show ?thesis
    using assms(4) u by (cases e) (auto simp: resolvePrevRef_def Let_def forkPrev_keeps linkPrev_keeps split: if_splits option.splits)
qed

lemma redirectResolver_keeps [keeping]: "keeps (placing M k) (redirectResolver res rootRef ref)"
  unfolding redirectResolver_def
  by (intro keeps_sbnd supplementary_keeps keepsI) (auto simp: sret_def)

lemma rejoinResolver_keeps [keeping]: "keeps (placing M k) (rejoinResolver ref)"
  by (rule keepsI) (auto simp: rejoinResolver_def sret_def bnd_Ok_iff split: option.splits)

lemma dependencies_keep:
  assumes "looksBack res" "res_nextRecNo res = M" "placing M k s" "resolveRecordDependencies res policy details s = Ok t"
  shows "placing M k t"
proof -
  let ?ex = "rr_Excerpt (ad_upd s)"
  obtain s1 where s1: "checked ''RootRef'' (CheckRootRef policy (ex_RootRef ?ex) details (rootResolver res)) s = Ok s1"
    using assms(4) by (auto simp: resolveRecordDependencies_def Let_def bnd_Ok_iff)
  have p1: "placing M k s1" by (rule checked_keeps [OF _ assms(3) s1]) (intro keeping)
  obtain s2 where s2: "resolvePrevRef res policy details s1 = Ok s2"
    using assms(4) s1 by (auto simp: resolveRecordDependencies_def Let_def bnd_Ok_iff)
  have p2: "placing M k s2" by (rule resolvePrevRef_keeps [OF assms(1,2) p1 s2])
  obtain s3 where s3: "checked ''RejoinRef'' (CheckRejoinRef policy (ex_RejoinRef ?ex) details (ad_prevType s2) rejoinResolver) s2 = Ok s3"
      "checked ''RedirectRef'' (CheckRedirectRef policy (ex_RedirectRef ?ex) (redirectResolver res (ex_RootRef ?ex))) s3 = Ok t"
    using assms(4) s1 s2 by (auto simp: resolveRecordDependencies_def Let_def bnd_Ok_iff)
  have p3: "placing M k s3" by (rule checked_keeps [OF _ p2 s3(1)]) (intro keeping)
  show ?thesis by (rule checked_keeps [OF _ p3 s3(2)]) (intro keeping)
qed

text \<open>A bundle with its numbers in order.\<close>

definition bundle_ordered :: "BundleResolver \<Rightarrow> bool" where
  "bundle_ordered b \<longleftrightarrow> 0 < b_maxRecNo b \<and> ordered (b_maxRecNo b) (b_maxRecNo b + length (b_records b)) (b_records b)"

lemma bundle_ordered_cong: "b_maxRecNo b' = b_maxRecNo b \<Longrightarrow> b_records b' = b_records b \<Longrightarrow> bundle_ordered b' = bundle_ordered b"
  by (simp add: bundle_ordered_def)

lemma bundle_ordered_simps [simp]:
  "bundle_ordered (b_setLastRecord r b) = bundle_ordered b" "bundle_ordered (b_addRefError n e b) = bundle_ordered b"
  "bundle_ordered (b_addError e b) = bundle_ordered b" "bundle_ordered (b\<lparr>b_isResolved := x\<rparr>) = bundle_ordered b"
  "bundle_ordered (b\<lparr>b_dupRecords := ds\<rparr>) = bundle_ordered b"
  by (simp_all add: bundle_ordered_def b_setLastRecord_def b_addRefError_def b_addError_def)

lemma addChecked_ordered:
  assumes res: "looksBack res" "res_nextRecNo res = b_maxRecNo p" and p: "bundle_ordered p"
    and add: "b_addChecked res policy details (newUpdate (b_maxRecNo p + length (b_records p)) r) p = Ok (q, b)"
  shows "bundle_ordered q \<and> b_maxRecNo q = b_maxRecNo p"
proof -
  let ?M = "b_maxRecNo p" and ?k = "length (b_records p)"
  let ?u = "newUpdate (?M + ?k) r"
  have err: "q = b_addRefError n e p \<Longrightarrow> ?thesis" for n e using p by (simp add: b_addRefError_def bundle_ordered_def)
  have dup: "q = p\<lparr>b_dupRecords := b_dupRecords p @ [n]\<rparr> \<Longrightarrow> ?thesis" for n using p by (simp add: bundle_ordered_def)
  obtain e where e: "CheckRecordRef policy (res_lineBase res) (rec_RecRef r) details = Ok e"
    using add by (cases "CheckRecordRef policy (res_lineBase res) (rec_RecRef r) details") (auto simp: b_addChecked_def Let_def newUpdate_def)
  show ?thesis
  proof (cases e)
    case (Inl x)
    then show ?thesis using add e err by (auto simp: b_addChecked_def Let_def newUpdate_def b_fail_def)
  next
    case (Inr u)
    obtain c where c: "b_checkCollision res ?u (addressLocal (the (rec_RecRef r))) p = Ok c"
      using add e Inr by (cases "b_checkCollision res ?u (addressLocal (the (rec_RecRef r))) p") (auto simp: b_addChecked_def Let_def newUpdate_def)
    consider (E) x where "c = Inl x" | (D) n where "c = Inr (Some n)" | (N) "c = Inr None" by (cases c) auto
    then show ?thesis
    proof cases
      case E
      then show ?thesis using add e Inr c err by (auto simp: b_addChecked_def Let_def newUpdate_def b_fail_def)
    next
      case D
      then show ?thesis using add e Inr c dup by (auto simp: b_addChecked_def Let_def newUpdate_def)
    next
      case N
      note u = add [unfolded b_addChecked_def Let_def]
      show ?thesis
      proof (cases "b_placeStart policy (res_lineBase res) details ?u p")
        case (Inl x)
        then show ?thesis using u e Inr c N err by (auto simp: newUpdate_def b_fail_def)
      next
        case (Inr y)
        obtain p1 u1 fl where y: "y = (p1, u1, fl)" by (cases y)
        let ?s = "\<lparr>ad_p = p1, ad_upd = markRecord policy fl u1, ad_prevType = 0, ad_prevRecord = None\<rparr>"
        have p1: "b_maxRecNo p1 = ?M" "b_records p1 = b_records p" "rr_recordNo u1 = ?M + ?k" "rr_prev u1 = 0" "rr_next u1 = 0"
          using Inr y by (auto simp: b_placeStart_def newUpdate_def split: if_splits)
        have s: "placing ?M ?k ?s" using p1 p ordered_mono [of ?M "?M + ?k" "b_records p" "?M + ?k + 1"] by (auto simp: placing_def markRecord_def Let_def bundle_ordered_def)
        have g: "bnd (resolveRecordDependencies res policy details ?s) (\<lambda>s. b_addRecord (ad_upd s) (ad_p s)) = Ok (q, b)"
          using u e \<open>e = Inr u\<close> c N Inr y by (simp add: newUpdate_def)
        then obtain t where t: "resolveRecordDependencies res policy details ?s = Ok t" "b_addRecord (ad_upd t) (ad_p t) = Ok (q, b)"
          by (auto simp: bnd_Ok_iff)
        have "placing ?M ?k t" by (rule dependencies_keep [OF res s t(1)])
        then show ?thesis using t(2) p ordered_append [of ?M "?M + ?k + 1" "b_records (ad_p t)" "ad_upd t"]
          by (auto simp: b_addRecord_def Let_def placing_def bundle_ordered_def)
      qed
    qed
  qed
qed

lemma checkBases_keeps: "snd (b_checkBases base u p) = p \<or> (\<exists>n e. snd (b_checkBases base u p) = b_addRefError n e p)"
proof -
  let ?ok = "\<lambda>x. x = (True, p) \<or> (\<exists>n e. x = (False, b_addRefError n e p))"
  have step: "?ok (if ok then b_checkBase base f ref q else (False, q))" "?ok (if ok then b_checkGenericRef f ref q else (False, q))"
    if "?ok (ok, q)" for ok q f ref
    using that by (auto simp: b_checkBase_def b_checkGenericRef_def)
  have first: "?ok (b_checkBase base f ref p)" for f ref by (auto simp: b_checkBase_def)
  have bind: "?ok x \<Longrightarrow> (\<And>ok q. ?ok (ok, q) \<Longrightarrow> ?ok (f ok q)) \<Longrightarrow> ?ok (case x of (ok, q) \<Rightarrow> f ok q)" for x f by (cases x) simp
  have "?ok (b_checkBases base u p)"
    unfolding b_checkBases_def Let_def by (rule bind, rule first, rule bind, erule step, rule bind, erule step, rule bind, erule step, rule bind, erule step, erule step)
  then show ?thesis by (metis snd_conv)
qed

lemma Add_ordered:
  assumes res: "looksBack res" "res_nextRecNo res = b_maxRecNo p" and p: "bundle_ordered p" and add: "b_Add res provider r p = Ok (q, b)"
  shows "bundle_ordered q \<and> b_maxRecNo q = b_maxRecNo p"
proof -
  define p0 where "p0 = (b_setLastRecord (rec_RecRef r) p)\<lparr>b_isResolved := True\<rparr>"
  let ?M = "b_maxRecNo p" and ?u = "newUpdate (b_maxRecNo p + length (b_records p)) r"
  let ?t = "ex_RecordType (rec_Excerpt r)"
  let ?d = "\<lparr>pcd_RecordType = ?t, pcd_LocalPN = res_localPN res, pcd_PolicyProvider = Some provider\<rparr>"
  have p0: "b_maxRecNo p0 = ?M" "b_records p0 = b_records p" "bundle_ordered p0"
    using p by (simp_all add: p0_def b_setLastRecord_def bundle_ordered_def)
  have good: "bundle_ordered q \<and> b_maxRecNo q = ?M" if "q = b_setLastRecord None p1" "bundle_ordered p1" "b_maxRecNo p1 = ?M" for p1
    using that by (simp add: b_setLastRecord_def bundle_ordered_def)
  have err: "bundle_ordered (b_addRefError n e p0)" "b_maxRecNo (b_addRefError n e p0) = ?M" for n e
    using p0 by (simp_all add: b_addRefError_def bundle_ordered_def)
  note a = add [unfolded b_Add_def Let_def, folded p0_def]
  show ?thesis
  proof (cases "pol_IsValid (provider ?t)")
    case False
    then show ?thesis using a good err by (auto simp: b_fail_def)
  next
    case True
    then obtain pl where pl: "recordPayloads r = Ok pl" using a by (cases "recordPayloads r") auto
    show ?thesis
    proof (cases "pl \<noteq> [] \<and> \<not> hasAny (provider ?t) PayloadAllowed")
      case t: True
      then show ?thesis using a True pl good err by (auto simp: b_fail_def)
    next
      case False
      obtain ok p1 where c: "b_checkBases (res_lineBase res) ?u p0 = (ok, p1)" by fastforce
      have p1: "b_maxRecNo p1 = ?M" "b_records p1 = b_records p" "bundle_ordered p1"
        using checkBases_keeps [of "res_lineBase res" ?u p0] c p0 by (auto simp: b_addRefError_def bundle_ordered_def)
      have g: "bnd (if ok then b_addChecked res (provider ?t) ?d ?u p1 else b_addRecord ?u p1) (\<lambda>(p, b). Ok (b_setLastRecord None p, b)) = Ok (q, b)"
        using a True pl False c by (simp only: if_not_P if_False not_True_eq_False bnd.simps prod.case)
      then obtain p2 b2 where p2: "(if ok then b_addChecked res (provider ?t) ?d ?u p1 else b_addRecord ?u p1) = Ok (p2, b2)" "q = b_setLastRecord None p2"
        by (auto simp: bnd_Ok_iff)
      have u: "?u = newUpdate (b_maxRecNo p1 + length (b_records p1)) r" using p1 by simp
      have "bundle_ordered p2 \<and> b_maxRecNo p2 = ?M"
      proof (cases ok)
        case True
        then show ?thesis using addChecked_ordered [OF res(1) _ p1(3), of "provider ?t" ?d r p2 b2] res(2) p1(1) p2(1) u by simp
      next
        case False
        then show ?thesis using p2(1) p1 ordered_append [of ?M "?M + length (b_records p) + 1" "b_records p" ?u] ordered_mono [of ?M "?M + length (b_records p)" "b_records p" "?M + length (b_records p) + 1"]
          by (auto simp: b_addRecord_def Let_def newUpdate_def bundle_ordered_def)
      qed
      then show ?thesis using good p2(2) by blast
    qed
  qed
qed

lemma AddAll_ordered:
  "\<lbrakk>looksBack res; res_nextRecNo res = b_maxRecNo p; bundle_ordered p; b_AddAll res provider rs p = Ok q\<rbrakk> \<Longrightarrow> bundle_ordered q"
proof (induction rs arbitrary: p)
  case (Cons r rs)
  obtain p1 b where "b_Add res provider r p = Ok (p1, b)" "b_AddAll res provider rs p1 = Ok q"
    using Cons.prems(4) by (cases "b_Add res provider r p") auto
  then show ?case using Cons.IH Cons.prems(1,2) Add_ordered [OF Cons.prems(1-3)] by metis
qed simp

subsection \<open>Lines with their numbers in order\<close>

definition line_ordered :: "LineStages \<Rightarrow> bool" where
  "line_ordered p \<longleftrightarrow> pages_ok (ls_records p) \<and> ordered 1 deadFilament (flat (ls_records p)) \<and> length (flat (ls_records p)) < deadFilament"

text \<open>The bundles that are made from a line.\<close>

definition bundle_of :: "LineStages \<Rightarrow> LRecord list \<Rightarrow> BundleResolver res" where
  "bundle_of p rs = b_AddAll (ls_resolver p) GetRecordPolicy rs (ls_NewBundle p)"

lemma line_get:
  assumes "line_ordered p" "lr_get n (ls_records p) = Some r"
  shows "rr_recordNo r = n" "1 \<le> n" "n \<le> length (flat (ls_records p))" "r = flat (ls_records p) ! (n - 1)"
  using assms lr_get_flat [of "ls_records p" n] by (auto simp: line_ordered_def ordered_def split: if_splits)

lemma next_recNo: "line_ordered p \<Longrightarrow> ls_getNextRecNo p = length (flat (ls_records p)) + 1"
  using lr_count by (auto simp: line_ordered_def ls_getNextRecNo_def)

lemma findLocalIn_bound:
  assumes "line_ordered p" "ls_findLocalIn p root ref = Ok (Some (f, Some r))"
  shows "rr_recordNo r \<le> length (flat (ls_records p))"
proof -
  have "\<exists>n. ls_record n p = Ok r" using assms(2) by (auto simp: ls_findLocalIn_def Let_def bnd_Ok_iff split: if_splits)
  then obtain n where "lr_get n (ls_records p) = Some r" by (auto simp: ls_record_def split: option.splits)
  then show ?thesis using line_get [OF assms(1)] by blast
qed

lemma line_looksBack: assumes "line_ordered p" shows "looksBack (ls_resolver p)"
proof -
  have "n < ls_getNextRecNo p" if c: "ls_findChainedDependency p root ref b = Ok (f, n, d, rc)" for root ref b f n d rc
  proof -
    obtain x where x: "ls_findLocalIn p root ref = Ok x" using c by (auto simp: ls_findChainedDependency_def bnd_Ok_iff)
    show ?thesis
    proof (cases "\<exists>fil r. x = Some (fil, Some r) \<and> fil \<noteq> 0")
      case True
      then obtain fil r where y: "x = Some (fil, Some r)" "fil \<noteq> 0" by blast
      then have "n = rr_recordNo r" using c x by (auto simp: ls_findChainedDependency_def bnd_Ok_iff)
      then show ?thesis using findLocalIn_bound [OF assms x [unfolded y(1)]] next_recNo [OF assms] by simp
    next
      case False
      then have "n = 0" using c x by (auto simp: ls_findChainedDependency_def bnd_Ok_iff split: option.splits prod.splits if_splits)
      then show ?thesis using next_recNo [OF assms] by simp
    qed
  qed
  then show ?thesis using next_recNo [OF assms] by (auto simp: looksBack_def ls_resolver_def)
qed

lemma bundle_of_ordered:
  assumes "line_ordered p" "bundle_of p rs = Ok b"
  shows "bundle_ordered b"
proof -
  have n: "res_nextRecNo (ls_resolver p) = b_maxRecNo (ls_NewBundle p)" "bundle_ordered (ls_NewBundle p)"
    using next_recNo [OF assms(1)] by (simp_all add: ls_resolver_def ls_NewBundle_def newBundleResolver_def bundle_ordered_def ordered_def)
  show ?thesis by (rule AddAll_ordered [OF line_looksBack [OF assms(1)] n assms(2) [unfolded bundle_of_def]])
qed

subsection \<open>A validated bundle\<close>

text \<open>The records before \<open>i\<close> are validated, the others are as they were.\<close>

definition validated :: "LineStages \<Rightarrow> updateStage \<Rightarrow> recordNo \<Rightarrow> recordNo \<Rightarrow> resolvedRecord list \<Rightarrow> nat \<Rightarrow> stageValidator \<Rightarrow> bool" where
  "validated p S M d R i v \<longleftrightarrow> sv_firstRec v = M \<and> sv_recDelta v = d \<and> sv_stage v = S\<lparr>st_filaments := sv_fils v\<rparr> \<and>
     length (b_records (sv_bundle v)) = length R \<and>
     (\<forall>j < length R. if j < i then renumbered M d (R ! j) (b_records (sv_bundle v) ! j) \<and> ls_checkReason p (R ! j) = Inr () else b_records (sv_bundle v) ! j = R ! j)"

lemma addFilament_frame:
  assumes "addFilament v r = Ok (v1, r1, Inr u)"
  shows "sv_firstRec v1 = sv_firstRec v" "sv_recDelta v1 = sv_recDelta v" "sv_bundle v1 = sv_bundle v" "sv_stage v1 = (sv_stage v)\<lparr>st_filaments := sv_fils v1\<rparr>"
    "sv_fils v1 = sv_fils v \<or> sv_fils v1 = sv_fils v @ [newFilament]"
  using assms by (auto simp: addFilament_def Let_def bnd_Ok_iff split: if_splits)

lemma validateRecord_frame:
  assumes "ls_validateRecord p N v r = Ok (v', r', Inr d)" "rr_recordNo r + sv_recDelta v \<noteq> deadFilament"
  shows "sv_firstRec v' = sv_firstRec v" "sv_recDelta v' = sv_recDelta v" "sv_bundle v' = sv_bundle v" "sv_stage v' = (sv_stage v)\<lparr>st_filaments := sv_fils v'\<rparr>"
proof -
  obtain v1 r1 r2 f' where a: "addFilament v r1 = Ok (v1, r2, Inr ())" "v' = v1\<lparr>sv_stage := (sv_stage v1)\<lparr>st_filaments := (sv_fils v1)[rr_filNo r' - 1 := f']\<rparr>\<rparr>"
    using validateRecord_ok(3) [OF assms] by blast
  note f = addFilament_frame [OF a(1)]
  show "sv_firstRec v' = sv_firstRec v" "sv_recDelta v' = sv_recDelta v" "sv_bundle v' = sv_bundle v" using a(2) f(1-3) by simp_all
  show "sv_stage v' = (sv_stage v)\<lparr>st_filaments := sv_fils v'\<rparr>" unfolding a(2) by (subst f(4)) simp
qed

lemma validated_step:
  assumes i: "validated p S M d R i v" "\<And>j. j < length R \<Longrightarrow> rr_recordNo (R ! j) + d \<noteq> deadFilament" "i < length R"
    and s: "ls_validateRecord p N (atRecord i v) (b_records (sv_bundle v) ! i) = Ok (v1, r1, Inr x)"
  shows "validated p S M d R (Suc i) (withRecord i r1 v1)"
proof -
  have a: "sv_firstRec (atRecord i v) = M" "sv_recDelta (atRecord i v) = d" "sv_stage (atRecord i v) = sv_stage v"
      "b_records (sv_bundle (atRecord i v)) = b_records (sv_bundle v)" "b_records (sv_bundle v) ! i = R ! i" "length (b_records (sv_bundle v)) = length R"
    using i(1,3) by (auto simp: validated_def atRecord_def b_setLastRecord_def)
  note s' = s [unfolded a(5)]
  have n: "rr_recordNo (R ! i) + sv_recDelta (atRecord i v) \<noteq> deadFilament" using i(2,3) a(2) by simp
  note f = validateRecord_frame [OF s' n] and o = validateRecord_ok(1,2) [OF s' n]
  show ?thesis unfolding validated_def
  proof (intro conjI allI impI)
    show "sv_firstRec (withRecord i r1 v1) = M" "sv_recDelta (withRecord i r1 v1) = d" using f a by (simp_all add: withRecord_def)
    have w: "sv_stage (withRecord i r1 v1) = sv_stage v1" by (simp add: withRecord_def)
    have "sv_stage v1 = (sv_stage v)\<lparr>st_filaments := sv_fils v1\<rparr>" using f(4) a(3) by simp
    moreover have "sv_stage v = S\<lparr>st_filaments := sv_fils v\<rparr>" using i(1) by (simp add: validated_def)
    ultimately show "sv_stage (withRecord i r1 v1) = S\<lparr>st_filaments := sv_fils (withRecord i r1 v1)\<rparr>" unfolding w by (metis updateStage.update_convs(4) updateStage.surjective)
    show "length (b_records (sv_bundle (withRecord i r1 v1))) = length R" using f(3) a(4,6) by (simp add: withRecord_def)
    fix j
    assume "j < length R"
    then show "if j < Suc i then renumbered M d (R ! j) (b_records (sv_bundle (withRecord i r1 v1)) ! j) \<and> ls_checkReason p (R ! j) = Inr ()
      else b_records (sv_bundle (withRecord i r1 v1)) ! j = R ! j"
      using f(3) a o i(1) by (auto simp: withRecord_def nth_list_update validated_def less_Suc_eq)
  qed
qed

lemma validate_run:
  assumes v: "ls_validate p b t = Ok (b', stage, root, head)" "b_errors b' = []"
  obtains S v0 v1 h where "ls_startLine p b (ls_newStage p t) = Ok S" "newValidator b S = Ok v0"
    "ls_validateFrom p (st_firstRec S) 0 (length (b_records b)) v0 0 = Ok (v1, h)" "b_errors (sv_bundle v1) = []"
    "b' = sv_bundle v1" "stage = sv_stage v1" "root = sv_filRoot v1"
proof -
  let ?R = "b_records b"
  obtain S where S: "ls_startLine p b (ls_newStage p t) = Ok S" using v(1) by (cases "ls_startLine p b (ls_newStage p t)") (auto simp: ls_validate_def)
  obtain v0 where v0: "newValidator b S = Ok v0" using v(1) S by (cases "newValidator b S") (auto simp: ls_validate_def)
  obtain v1 h where v1: "ls_validateFrom p (st_firstRec S) 0 (length ?R) v0 0 = Ok (v1, h)"
    using v(1) S v0 by (cases "ls_validateFrom p (st_firstRec S) 0 (length ?R) v0 0") (auto simp: ls_validate_def)
  obtain e where e: "postCheck v1 = Ok e" "b' = (case e of Inl e \<Rightarrow> b_addError e (sv_bundle v1) | Inr _ \<Rightarrow> sv_bundle v1)" "stage = sv_stage v1" "root = sv_filRoot v1"
    using v(1) S v0 v1 by (cases "postCheck v1") (auto simp: ls_validate_def Let_def)
  have "b' = sv_bundle v1" "b_errors (sv_bundle v1) = []" using e(2) v(2) by (cases e; simp add: b_addError_def b_addRefError_def)+
  then show ?thesis using that [OF S v0 v1] e(3,4) by simp
qed

lemma newStage_frame:
  "ls_startLine p b (ls_newStage p t) = Ok S \<Longrightarrow> st_firstRec S = ls_getNextRecNo p \<and> st_tracker S = Some t"
  by (auto simp: ls_startLine_def ls_newStage_def split: if_splits option.splits)

lemma validated_numbers:
  assumes b: "bundle_ordered b" and N: "b_maxRecNo b \<le> N" "N + length (b_records b) \<le> deadFilament" and j: "j < length (b_records b)"
  shows "rr_recordNo (b_records b ! j) + (N - b_maxRecNo b) \<noteq> deadFilament" "N \<le> rr_recordNo (b_records b ! j) + (N - b_maxRecNo b)"
  using assms by (auto simp: bundle_ordered_def ordered_def)

lemma validate_ok:
  assumes v: "ls_validate p b t = Ok (b', stage, root, head)" "b_errors b' = []" and b: "bundle_ordered b"
    and N: "N = ls_getNextRecNo p" "N + length (b_records b) \<le> deadFilament"
  shows "b_maxRecNo b \<le> N" "st_firstRec stage = N" "st_tracker stage = Some t" "length (b_records b') = length (b_records b)"
    "\<forall>j < length (b_records b). renumbered (b_maxRecNo b) (N - b_maxRecNo b) (b_records b ! j) (b_records b' ! j) \<and> ls_checkReason p (b_records b ! j) = Inr ()"
proof -
  let ?M = "b_maxRecNo b" and ?R = "b_records b"
  from v obtain S v0 v1 h where run: "ls_startLine p b (ls_newStage p t) = Ok S" "newValidator b S = Ok v0"
    "ls_validateFrom p (st_firstRec S) 0 (length ?R) v0 0 = Ok (v1, h)" "b_errors (sv_bundle v1) = []" "b' = sv_bundle v1" "stage = sv_stage v1"
    by (rule validate_run)
  have S0: "st_firstRec S = N" "st_tracker S = Some t" using newStage_frame [OF run(1)] N(1) by simp_all
  show M: "?M \<le> N" using run(2) S0 by (auto simp: newValidator_def split: if_splits)
  have init: "validated p S ?M (N - ?M) ?R 0 v0" using run(2) S0 by (auto simp: newValidator_def validated_def Let_def split: if_splits)
  have "(\<lambda>i v. i \<le> length ?R \<longrightarrow> validated p S ?M (N - ?M) ?R i v) (0 + length ?R) v1 \<and> b_errors (sv_bundle v0) = []"
    by (rule validateFrom_induct [OF run(3)[unfolded S0] run(4)]) (use init validated_step [OF _ validated_numbers(1) [OF b M N(2)]] in \<open>auto\<close>)
  then have "validated p S ?M (N - ?M) ?R (length ?R) v1" by simp
  then show "st_firstRec stage = N" "st_tracker stage = Some t" "length (b_records b') = length ?R"
      "\<forall>j < length ?R. renumbered ?M (N - ?M) (?R ! j) (b_records b' ! j) \<and> ls_checkReason p (?R ! j) = Inr ()"
    using S0 unfolding run(5,6) validated_def by (metis updateStage.select_convs(2,3) updateStage.surjective updateStage.update_convs(4))+
qed

text \<open>The numbers of a validated bundle are in order behind the records of the line.\<close>

lemma renumbered_ordered:
  assumes "ordered M (M + length R) R" "M \<le> N" "length R' = length R" "N + length R \<le> deadFilament" "0 < M"
    and "\<forall>j < length R. renumbered M (N - M) (R ! j) (R' ! j)"
  shows "ordered N (N + length R) R'"
  unfolding ordered_def
proof (intro allI impI)
  fix i
  assume i: "i < length R'"
  then have r: "renumbered M (N - M) (R ! i) (R' ! i)"
    and o: "rr_recordNo (R ! i) = M + i" "rr_prev (R ! i) < M + i" "rr_next (R ! i) = 0 \<or> rr_next (R ! i) = deadFilament \<or> M + i < rr_next (R ! i) \<and> rr_next (R ! i) < M + length R"
    using assms(1,3,6) by (auto simp: ordered_def)
  show "rr_recordNo (R' ! i) = N + i \<and> rr_prev (R' ! i) < N + i \<and>
      (rr_next (R' ! i) = 0 \<or> rr_next (R' ! i) = deadFilament \<or> N + i < rr_next (R' ! i) \<and> rr_next (R' ! i) < N + length R)"
    using r o assms(2,4,5) by (auto simp: renumbered_def)
qed

lemma linkNext_ordered:
  assumes "ordered 1 B A" "N \<le> length A + 1" "N \<le> rr_recordNo r" "rr_recordNo r < B"
  shows "ordered 1 B (linkNext N r A)"
  using assms ordered_next [of 1 B A "rr_prev r - 1" "rr_recordNo r"] by (auto simp: linkNext_def)

lemma linkAll_ordered:
  assumes "ordered 1 B A" "N \<le> length A + 1" "\<forall>r \<in> set rs. N \<le> rr_recordNo r \<and> rr_recordNo r < B"
  shows "ordered 1 B (linkAll N rs A)"
  using assms by (induction rs arbitrary: A) (simp_all add: linkNext_ordered [simplified])

lemma ordered_concat:
  assumes "ordered M B A" "ordered (M + length A) B R"
  shows "ordered M B (A @ R)"
  unfolding ordered_def
proof (intro allI impI)
  fix i
  assume i: "i < length (A @ R)"
  show "rr_recordNo ((A @ R) ! i) = M + i \<and> rr_prev ((A @ R) ! i) < M + i \<and>
      (rr_next ((A @ R) ! i) = 0 \<or> rr_next ((A @ R) ! i) = deadFilament \<or> M + i < rr_next ((A @ R) ! i) \<and> rr_next ((A @ R) ! i) < B)"
  proof (cases "i < length A")
    case True
    then show ?thesis using assms(1) by (simp add: ordered_def nth_append)
  next
    case False
    then have "i - length A < length R" "M + length A + (i - length A) = M + i" using i by auto
    then show ?thesis using assms(2) [unfolded ordered_def, rule_format, of "i - length A"] False by (simp add: nth_append)
  qed
qed

text \<open>What a stage writes to a line.\<close>

lemma addStage_ok:
  assumes ok: "pages_ok (ls_records p)" "grows grow" and N: "st_firstRec stage = ls_getNextRecNo p"
    and add: "ls_addStage grow rs stage c root p = Ok q"
  shows "pages_ok (ls_records q)" "flat (ls_records q) = linkAll (ls_getNextRecNo p) rs (flat (ls_records p)) @ rs" "ls_stages q = ls_stages p @ [stage]"
    "ls_recordRefs q = fold putRefs rs (ls_recordRefs p)" "ls_reasonRefs q = fold putReasons rs (ls_reasonRefs p)"
    "ls_base q = ls_base p" "ls_pn q = ls_pn p" "ls_cache q = ls_cache p" "ls_accessFrequency q = ls_accessFrequency p"
    "\<forall>i < length rs. rr_recordNo (rs ! i) = ls_getNextRecNo p + i"
    "\<forall>i < length rs. rec_RecRef (rr_Record (rs ! i)) \<noteq> None"
proof -
  let ?N = "ls_getNextRecNo p"
  obtain p1 where p1: "ls_addRecords grow ?N ?N rs p = Ok p1" using add N by (cases "ls_addRecords grow ?N ?N rs p") (auto simp: ls_addStage_def)
  have len: "length (flat (ls_records p)) = ?N - 1" using lr_count [OF ok(1)] by (simp add: ls_getNextRecNo_def)
  note w = addRecords_flat [OF ok, of "flat (ls_records p)" "[]" ?N ?N rs p1] len p1
  have q: "q = p1\<lparr>ls_filamentRefs := ls_filamentRefs q, ls_stages := ls_stages p1 @ [stage]\<rparr>"
    using add p1 N unfolding ls_addStage_def by (auto simp: Let_def split: if_splits)
  show "pages_ok (ls_records q)" "flat (ls_records q) = linkAll ?N rs (flat (ls_records p)) @ rs" "ls_stages q = ls_stages p @ [stage]"
    "ls_recordRefs q = fold putRefs rs (ls_recordRefs p)" "ls_reasonRefs q = fold putReasons rs (ls_reasonRefs p)"
    "ls_base q = ls_base p" "ls_pn q = ls_pn p" "ls_cache q = ls_cache p" "ls_accessFrequency q = ls_accessFrequency p"
    using w by (subst q; simp add: sameFrame_def)+
  show "\<forall>i < length rs. rr_recordNo (rs ! i) = ?N + i" "\<forall>i < length rs. rec_RecRef (rr_Record (rs ! i)) \<noteq> None" using w by simp_all
qed

text \<open>A bundle that is not added leaves the line as it is.\<close>

lemma AddBundle_refused:
  assumes "AddBundle grow (Some b) (Some t) p = Ok (p', b', out)" "ao_result out \<noteq> Added"
  shows "p' = p" "ao_update out = []"
proof -
  have "p' = p \<and> ao_update out = []"
  proof (cases "\<not> b_hasNoTroubles b \<or> b_records b = []")
    case True
    then show ?thesis using assms by (auto simp: AddBundle_def outcome_def split: if_splits)
  next
    case False
    let ?c = "case ls_latest p of None \<Rightarrow> 0 | Some st \<Rightarrow> length (st_filaments st)"
    obtain b1 stage root head where v: "ls_validate p b t = Ok (b1, stage, root, head)"
      using assms(1) False by (cases "ls_validate p b t") (auto simp: AddBundle_def)
    have "\<not> b_hasNoTroubles b1 \<or> head \<noteq> 0 \<and> head < st_firstRec stage \<and> ls_trackerOf head p \<noteq> None"
      using assms False v by (cases "ls_addStage grow (b_records b1) stage ?c root p") (auto simp: AddBundle_def split: if_splits)
    then show ?thesis using assms(1) False v by (auto simp: AddBundle_def outcome_def split: if_splits)
  qed
  then show "p' = p" "ao_update out = []" by simp_all
qed

lemma AddBundle_added:
  assumes "AddBundle grow (Some b) (Some t) p = Ok (p', b', out)" "ao_result out = Added"
  shows "\<exists>b1 stage root head q. ls_validate p b t = Ok (b1, stage, root, head) \<and> b_hasNoTroubles b1 \<and>
    ls_addStage grow (b_records b1) stage (case ls_latest p of None \<Rightarrow> 0 | Some st \<Rightarrow> length (st_filaments st)) root p = Ok q \<and>
    p' = q\<lparr>ls_accessFrequency := ls_accessFrequency q + 1\<rparr> \<and> ao_update out = b_records b1 \<and> ao_tracker out = Some t \<and> b_records b \<noteq> [] \<and> b_hasNoTroubles b \<and>
    \<not> (head \<noteq> 0 \<and> head < st_firstRec stage \<and> ls_trackerOf head p \<noteq> None)"
proof -
  let ?c = "case ls_latest p of None \<Rightarrow> 0 | Some st \<Rightarrow> length (st_filaments st)"
  have False: "b_hasNoTroubles b" "b_records b \<noteq> []" using assms by (auto simp: AddBundle_def outcome_def split: if_splits)
  obtain b1 stage root head where v: "ls_validate p b t = Ok (b1, stage, root, head)"
    using assms(1) False by (cases "ls_validate p b t") (auto simp: AddBundle_def)
  have n: "b_hasNoTroubles b1" "\<not> (head \<noteq> 0 \<and> head < st_firstRec stage \<and> ls_trackerOf head p \<noteq> None)"
    using assms False v by (auto simp: AddBundle_def outcome_def split: if_splits)
  obtain q where q: "ls_addStage grow (b_records b1) stage ?c root p = Ok q"
    using assms(1) False v n by (cases "ls_addStage grow (b_records b1) stage ?c root p") (auto simp: AddBundle_def)
  have "p' = q\<lparr>ls_accessFrequency := ls_accessFrequency q + 1\<rparr> \<and> ao_update out = b_records b1 \<and> ao_tracker out = Some t"
    using assms(1) False v n q unfolding AddBundle_def by (auto split: if_splits)
  then show ?thesis using False v n q by blast
qed

text \<open>An added bundle.\<close>

lemma AddBundle_line:
  assumes line: "line_ordered p" "grows grow" and b: "bundle_ordered b" "length (flat (ls_records p)) + length (b_records b) < deadFilament"
    and add: "AddBundle grow (Some b) (Some t) p = Ok (p', b', out)" "ao_result out = Added"
  shows "line_ordered p'" "flat (ls_records p') = linkAll (ls_getNextRecNo p) (ao_update out) (flat (ls_records p)) @ ao_update out"
    "map rr_Record (ao_update out) = map rr_Record (b_records b)" "map rr_recordNo (ao_update out) = [ls_getNextRecNo p ..< ls_getNextRecNo p + length (b_records b)]"
    "\<forall>r \<in> set (b_records b). ls_checkReason p r = Inr ()" "ls_stages p' = ls_stages p @ [last (ls_stages p')]"
    "st_tracker (last (ls_stages p')) = Some t" "st_firstRec (last (ls_stages p')) = ls_getNextRecNo p"
    "ls_recordRefs p' = fold putRefs (ao_update out) (ls_recordRefs p)" "ls_reasonRefs p' = fold putReasons (ao_update out) (ls_reasonRefs p)"
    "\<forall>r \<in> set (ao_update out). rec_RecRef (rr_Record r) \<noteq> None"
proof -
  let ?N = "ls_getNextRecNo p" and ?R = "b_records b" and ?U = "ao_update out" and ?A = "flat (ls_records p)"
  obtain b1 stage root head q where a: "ls_validate p b t = Ok (b1, stage, root, head)" "b_hasNoTroubles b1"
      "ls_addStage grow (b_records b1) stage (case ls_latest p of None \<Rightarrow> 0 | Some st \<Rightarrow> length (st_filaments st)) root p = Ok q"
      "p' = q\<lparr>ls_accessFrequency := ls_accessFrequency q + 1\<rparr>" "?U = b_records b1"
    using AddBundle_added [OF add] by blast
  have N: "?N = length ?A + 1" "?N + length ?R \<le> deadFilament" using next_recNo [OF line(1)] b(2) by simp_all
  note v = validate_ok [OF a(1) _ b(1) refl N(2)]
  have e: "b_errors b1 = []" using a(2) by (simp add: b_hasNoTroubles_def)
  note w = addStage_ok [OF _ line(2) v(2) [OF e] a(3)]
  have pages: "pages_ok (ls_records p)" using line(1) by (simp add: line_ordered_def)
  show fl: "flat (ls_records p') = linkAll ?N ?U ?A @ ?U" using w(2) [OF pages] a(4,5) by simp
  have len: "length ?U = length ?R" using v(4) [OF e] a(5) by simp
  have ren: "\<forall>j < length ?R. renumbered (b_maxRecNo b) (?N - b_maxRecNo b) (?R ! j) (?U ! j)" using v(5) [OF e] a(5) by simp
  have ob: "ordered (b_maxRecNo b) (b_maxRecNo b + length ?R) ?R" "0 < b_maxRecNo b" using b(1) by (simp_all add: bundle_ordered_def)
  have o: "ordered ?N (?N + length ?R) ?U" by (rule renumbered_ordered [OF ob(1) v(1) [OF e] len N(2) ob(2) ren])
  have A: "ordered 1 deadFilament ?A" using line(1) by (simp add: line_ordered_def)
  have "\<forall>r \<in> set ?U. ?N \<le> rr_recordNo r \<and> rr_recordNo r < deadFilament" using o len N(2) by (fastforce simp: in_set_conv_nth ordered_def)
  then have "ordered 1 deadFilament (linkAll ?N ?U ?A @ ?U)" using A ordered_mono [OF o N(2)] N(1) by (intro ordered_concat linkAll_ordered) simp_all
  then show "line_ordered p'" using w(1) [OF pages] a(4) fl len N(1) b(2) by (simp add: line_ordered_def)
  show "map rr_Record ?U = map rr_Record ?R" by (rule nth_equalityI) (use len ren in \<open>auto simp: renumbered_def\<close>)
  show "map rr_recordNo ?U = [?N ..< ?N + length ?R]" by (rule nth_equalityI) (use len o in \<open>auto simp: ordered_def\<close>)
  show "\<forall>r \<in> set ?R. ls_checkReason p r = Inr ()" using v(5) [OF e] by (auto simp: in_set_conv_nth)
  show "ls_stages p' = ls_stages p @ [last (ls_stages p')]" "st_tracker (last (ls_stages p')) = Some t" "st_firstRec (last (ls_stages p')) = ?N"
    using w(3) [OF pages] a(4) v(2,3) [OF e] by simp_all
  show "ls_recordRefs p' = fold putRefs ?U (ls_recordRefs p)" "ls_reasonRefs p' = fold putReasons ?U (ls_reasonRefs p)"
    using w(4,5) [OF pages] a(4,5) by simp_all
  show "\<forall>r \<in> set ?U. rec_RecRef (rr_Record r) \<noteq> None" using w(11) [OF pages] a(5) by (auto simp: in_set_conv_nth)
qed

subsection \<open>Commit and rollback keep the order\<close>

lemma ordered_update:
  assumes "ordered M B R" "i < length R" "rr_recordNo r = rr_recordNo (R ! i)" "rr_prev r = rr_prev (R ! i)" "rr_next r = rr_next (R ! i) \<or> rr_next r = 0"
  shows "ordered M B (R[i := r])"
  using assms by (auto simp: ordered_def nth_list_update)

text \<open>Changes of single records that keep the numbers, or clear the number of the successor.\<close>

definition records_ordered :: "nat \<Rightarrow> resolvedRecord lineRecords \<Rightarrow> bool" where
  "records_ordered n rs \<longleftrightarrow> pages_ok rs \<and> length (flat rs) = n \<and> ordered 1 deadFilament (flat rs)"

lemma line_records_ordered: "line_ordered p \<longleftrightarrow> records_ordered (length (flat (ls_records p))) (ls_records p) \<and> length (flat (ls_records p)) < deadFilament"
  by (auto simp: line_ordered_def records_ordered_def)

lemma update_ordered:
  assumes "records_ordered n rs" "lr_get i rs = Some r" "\<And>r. rr_recordNo (f r) = rr_recordNo r \<and> rr_prev (f r) = rr_prev r \<and> (rr_next (f r) = rr_next r \<or> rr_next (f r) = 0)"
  shows "records_ordered n (lr_update i f rs)"
proof -
  have i: "1 \<le> i" "i \<le> length (flat rs)" using assms(1,2) lr_get_flat [of rs i] by (auto simp: records_ordered_def split: if_splits)
  have "flat (lr_update i f rs) = (flat rs)[i - 1 := f (flat rs ! (i - 1))]" "pages_ok (lr_update i f rs)"
    using lr_update_flat [OF _ i, of f] assms(1) by (simp_all add: records_ordered_def)
  then show ?thesis using assms(1) i ordered_update [of 1 deadFilament "flat rs" "i - 1" "f (flat rs ! (i - 1))"] assms(3) [of "flat rs ! (i - 1)"]
    by (simp add: records_ordered_def)
qed

lemma writeAllocations_ordered: "records_ordered n rs \<Longrightarrow> writeAllocations i as rs = Ok rs' \<Longrightarrow> records_ordered n rs'"
proof (induction as arbitrary: i rs)
  case (Cons a as)
  then obtain r where "lr_get i rs = Some r" by (auto split: if_splits)
  then show ?case using Cons.prems Cons.IH update_ordered [of n rs i r "\<lambda>r. r\<lparr>rr_storageIndex := a\<rparr>"] by simp
qed simp

lemma trimFrom_ordered: "records_ordered n rs \<Longrightarrow> trimFrom fut lst sts rs = Ok (lst', sts', rs') \<Longrightarrow> records_ordered n rs'"
proof (induction fut lst sts rs rule: trimFrom.induct)
  case (2 fut lst st later rs)
  show ?case
  proof (cases "st_tracker st")
    case None
    then show ?thesis using 2 by (auto split: if_splits)
  next
    case (Some t)
    obtain ready al where f: "fut t = (ready, al)" by fastforce
    show ?thesis
    proof (cases "ready \<and> al \<noteq> []")
      case True
      then obtain rs1 where rs1: "setAllocations st later al rs = Ok rs1" using 2(4) Some f by (cases "setAllocations st later al rs") (auto simp: Let_def)
      have "records_ordered n rs1" using rs1 2(3) writeAllocations_ordered by (auto simp: setAllocations_def Let_def split: if_splits)
      then show ?thesis using 2(4) Some f True rs1 2(2) [OF Some f [symmetric] refl] by (auto simp: Let_def split: if_splits)
    next
      case False
      then show ?thesis using 2(3,4) Some f by (auto simp: Let_def split: if_splits)
    qed
  qed
qed simp

lemma reopen_ordered: "records_ordered n rs \<Longrightarrow> reopenFilaments c fs rs = Ok rs' \<Longrightarrow> records_ordered n rs'"
proof (induction fs arbitrary: rs)
  case (Cons f fs)
  show ?case
  proof (cases "fil_latest f = deadFilament")
    case True
    then show ?thesis using Cons by simp
  next
    case False
    then obtain r where "lr_get (fil_latest f) rs = Some r" using Cons.prems(2) by (auto split: option.splits)
    then show ?thesis using Cons False update_ordered [of n rs "fil_latest f" r "\<lambda>r. r\<lparr>rr_next := 0\<rparr>"] by (simp split: if_splits)
  qed
qed simp

text \<open>The stages of a line begin at different records of it.\<close>

definition stages_ok :: "nat \<Rightarrow> updateStage list \<Rightarrow> bool" where
  "stages_ok n sts \<longleftrightarrow> sorted_wrt (<) (map st_firstRec sts) \<and> (\<forall>st \<in> set sts. 1 \<le> st_firstRec st \<and> st_firstRec st \<le> n)"

lemma stages_ok_Cons: "stages_ok n (st # sts) \<longleftrightarrow> 1 \<le> st_firstRec st \<and> st_firstRec st \<le> n \<and> (\<forall>s \<in> set sts. st_firstRec st < st_firstRec s) \<and> stages_ok n sts"
  by (auto simp: stages_ok_def)

lemma trimFrom_stages:
  assumes "stages_ok n sts" "trimFrom fut lst sts rs = Ok (lst', sts', rs')"
    and "\<forall>l. lst = Some l \<longrightarrow> 1 \<le> st_firstRec l \<and> st_firstRec l \<le> n \<and> (\<forall>st \<in> set sts. st_firstRec l < st_firstRec st)"
  shows "stages_ok n sts' \<and> (\<forall>l. lst' = Some l \<longrightarrow> 1 \<le> st_firstRec l \<and> st_firstRec l \<le> n \<and>
    (sts' = [l] \<and> st_tracker l = None \<or> (\<forall>st \<in> set sts'. st_firstRec l < st_firstRec st)))"
  using assms
proof (induction fut lst sts rs rule: trimFrom.induct)
  case (2 fut lst st later rs)
  have ok: "stages_ok n later" "stages_ok n [st]" "\<forall>l. Some (st\<lparr>st_tracker := None\<rparr>) = Some l \<longrightarrow> 1 \<le> st_firstRec l \<and> st_firstRec l \<le> n \<and> (\<forall>st \<in> set later. st_firstRec l < st_firstRec st)"
    using 2(3) by (auto simp: stages_ok_Cons stages_ok_def)
  show ?case
  proof (cases "st_tracker st")
    case None
    then have "st\<lparr>st_tracker := None\<rparr> = st" by simp
    then show ?thesis using 2(1,4) ok None by (auto split: if_splits)
  next
    case (Some t)
    obtain ready al where f: "fut t = (ready, al)" by fastforce
    show ?thesis
    proof (cases "ready \<and> al \<noteq> []")
      case True
      then obtain rs1 where rs1: "setAllocations st later al rs = Ok rs1" using 2(4) Some f by (cases "setAllocations st later al rs") (auto simp: Let_def)
      show ?thesis
      proof (cases "later = []")
        case l: True
        then show ?thesis using 2(3,4) Some f True rs1 by (auto simp: Let_def stages_ok_def)
      next
        case False
        have "trimFrom fut (Some (st\<lparr>st_tracker := None\<rparr>)) later rs1 = Ok (lst', sts', rs')" using 2(4) Some f True rs1 False by (simp add: Let_def)
        then show ?thesis using 2(2) [OF Some f [symmetric] refl refl _ _ rs1 False ok(1) _ ok(3)] True by simp
      qed
    next
      case False
      then show ?thesis using 2(3-5) Some f by (auto simp: Let_def split: if_splits)
    qed
  qed
qed (simp add: stages_ok_def)

definition line_ok :: "LineStages \<Rightarrow> bool" where
  "line_ok p \<longleftrightarrow> line_ordered p \<and> stages_ok (length (flat (ls_records p))) (ls_stages p)"

lemma emptyStages_ok: "line_ok (emptyStages base pn cache)"
  by (simp add: line_ok_def line_ordered_def emptyStages_def stages_ok_def ordered_def pages_new_ok deadFilament_def)

lemma AddBundle_ok:
  assumes p: "line_ok p" "grows grow" and b: "bundle_ordered b" "length (flat (ls_records p)) + length (b_records b) < deadFilament"
    and add: "AddBundle grow (Some b) (Some t) p = Ok (p', b', out)"
  shows "line_ok p'"
proof (cases "ao_result out = Added")
  case False
  then show ?thesis using AddBundle_refused [OF add] p(1) by simp
next
  case True
  have l: "line_ordered p" using p(1) by (simp add: line_ok_def)
  note a = AddBundle_line [OF l p(2) b add True]
  have N: "ls_getNextRecNo p = length (flat (ls_records p)) + 1" by (rule next_recNo [OF l])
  have "b_records b \<noteq> []" using AddBundle_added [OF add True] by blast
  moreover have "length (ao_update out) = length (b_records b)" using arg_cong [OF a(3), of length] by simp
  ultimately have n: "length (flat (ls_records p)) < length (flat (ls_records p'))" using arg_cong [OF a(2), of length] by simp
  obtain st where st: "ls_stages p' = ls_stages p @ [st]" "st_firstRec st = ls_getNextRecNo p" using a(6,8) by (metis last_snoc)
  have "stages_ok (length (flat (ls_records p'))) (ls_stages p')"
    using p(1) n N st by (auto simp: line_ok_def stages_ok_def sorted_wrt_append)
  then show ?thesis using a(1) by (simp add: line_ok_def)
qed

lemma trimCommitted_ok:
  assumes "line_ok p" "trimCommittedStages fut p = Ok (lst, p')"
  shows "line_ok p'" "\<forall>l. lst = Some l \<longrightarrow> stages_ok (length (flat (ls_records p'))) [l] \<and>
    (ls_stages p' = [l] \<and> st_tracker l = None \<or> (\<forall>st \<in> set (ls_stages p'). st_firstRec l < st_firstRec st))"
proof -
  obtain sts rs where t: "trimFrom fut None (ls_stages p) (ls_records p) = Ok (lst, sts, rs)" "p' = p\<lparr>ls_stages := sts, ls_records := rs\<rparr>"
    using assms(2) by (cases "trimFrom fut None (ls_stages p) (ls_records p)") (auto simp: trimCommittedStages_def)
  let ?n = "length (flat (ls_records p))"
  have o: "records_ordered ?n (ls_records p)" "?n < deadFilament" "stages_ok ?n (ls_stages p)"
    using assms(1) by (simp_all add: line_ok_def line_records_ordered)
  have r: "records_ordered ?n rs" by (rule trimFrom_ordered [OF o(1) t(1)])
  then have n: "length (flat rs) = ?n" by (simp add: records_ordered_def)
  note s = trimFrom_stages [OF o(3) t(1)]
  show "line_ok p'" using r o(2) s n t(2) by (simp add: line_ok_def line_records_ordered)
  show "\<forall>l. lst = Some l \<longrightarrow> stages_ok (length (flat (ls_records p'))) [l] \<and>
    (ls_stages p' = [l] \<and> st_tracker l = None \<or> (\<forall>st \<in> set (ls_stages p'). st_firstRec l < st_firstRec st))"
    using s n t(2) by (simp add: stages_ok_def)
qed

lemma restoreLatest_ok:
  assumes p: "line_ordered p" "1 \<le> c" "c \<le> length (flat (ls_records p))" "stages_ok (c - 1) (ls_stages p)" and r: "restoreLatest ord c p = Ok p'"
  shows "line_ok p'"
proof -
  obtain rs where rs: "lr_truncate c (ls_records p) = Ok rs" "pages_ok rs" "flat rs = take (c - 1) (flat (ls_records p))"
    using lr_truncate_flat [OF _ p(2,3)] p(1) by (auto simp: line_ordered_def)
  have c: "c \<noteq> deadFilament" "length (flat rs) = c - 1" "c < deadFilament" using p rs(3) by (auto simp: line_ordered_def)
  have "ordered 1 deadFilament (flat rs)" using p(1) rs(3) by (auto simp: line_ordered_def ordered_def)
  then have o: "records_ordered (c - 1) rs" using rs(2) c(2) by (simp add: records_ordered_def)
  have "\<exists>rs'. ls_records p' = rs' \<and> (rs' = rs \<or> (\<exists>fs. reopenFilaments c fs rs = Ok rs')) \<and> ls_stages p' = ls_stages p"
    using r rs(1) c(1) by (auto simp: restoreLatest_def Let_def ls_latest_def bnd_Ok_iff split: option.splits if_splits)
  then obtain rs' where "ls_records p' = rs'" "rs' = rs \<or> (\<exists>fs. reopenFilaments c fs rs = Ok rs')" "ls_stages p' = ls_stages p" by blast
  moreover have "records_ordered (c - 1) rs'" using calculation(2) o reopen_ordered by blast
  moreover have "length (flat rs') = c - 1" using calculation(4) by (simp add: records_ordered_def)
  ultimately show ?thesis using p(4) c(3) by (simp add: line_ok_def line_records_ordered)
qed

lemma RollbackUncommitted_ok:
  assumes "line_ok p" "RollbackUncommittedRecords ord fut p = Ok p'"
  shows "line_ok p'"
proof (cases "ls_stages p = []")
  case True
  then show ?thesis using assms by (simp add: RollbackUncommittedRecords_def)
next
  case False
  obtain lst q where q: "trimCommittedStages fut p = Ok (lst, q)"
    using assms(2) False by (cases "trimCommittedStages fut p") (auto simp: RollbackUncommittedRecords_def)
  note t = trimCommitted_ok [OF assms(1) q]
  have qo: "line_ordered q" "stages_ok (length (flat (ls_records q))) (ls_stages q)" using t(1) by (simp_all add: line_ok_def)
  obtain st sts where s: "ls_stages q = st # sts" using assms(2) False q by (cases "ls_stages q") (auto simp: RollbackUncommittedRecords_def)
  have st: "stages_ok (length (flat (ls_records q))) [st]" using qo(2) s by (simp add: stages_ok_Cons stages_ok_def)
  show ?thesis
  proof (cases "st_tracker st")
    case None
    then have "p' = q\<lparr>ls_stages := [st]\<rparr>" using assms(2) False q s by (simp add: RollbackUncommittedRecords_def restoreLatest_def)
    then show ?thesis using qo(1) st by (simp add: line_ok_def line_ordered_def)
  next
    case (Some x)
    show ?thesis
    proof (cases lst)
      case None
      then show ?thesis using assms(2) False q s Some by (auto simp: RollbackUncommittedRecords_def restoreEmpty_def emptyStages_ok)
    next
      case l: (Some l)
      have r: "restoreLatest ord (st_firstRec st) (q\<lparr>ls_stages := [l]\<rparr>) = Ok p'" using assms(2) False q s Some l by (simp add: RollbackUncommittedRecords_def)
      have "st_firstRec l < st_firstRec st" "1 \<le> st_firstRec l" using t(2) l s Some by (auto simp: stages_ok_def)
      then show ?thesis using restoreLatest_ok [OF _ _ _ _ r] qo(1) st by (simp add: line_ordered_def stages_ok_def)
    qed
  qed
qed

text \<open>
  The lines that the operations make. A bundle is made from a line at one time and may be added at a later one. The last bundle is
  rolled back only when it is the only one.
\<close>

inductive line_reach :: "LineStages \<Rightarrow> bool" where
  line_new: "NewStages base pn cache = Ok p \<Longrightarrow> line_reach p"
| line_add: "\<lbrakk>line_reach p; line_reach q; bundle_of q rs = Ok b; grows grow; length (flat (ls_records p)) + length (b_records b) < deadFilament;
     AddBundle grow (Some b) (Some t) p = Ok (p', b', out)\<rbrakk> \<Longrightarrow> line_reach p'"
| line_verify: "line_reach p \<Longrightarrow> VerifyBundle bundle p = Ok (p', x) \<Longrightarrow> line_reach p'"
| line_read: "line_reach p \<Longrightarrow> line_reach (RegisterRead p)"
| line_trim: "line_reach p \<Longrightarrow> TrimCommittedStages fut p = Ok p' \<Longrightarrow> line_reach p'"
| line_rollback: "line_reach p \<Longrightarrow> RollbackUncommittedRecords ord fut p = Ok p' \<Longrightarrow> line_reach p'"
| line_rollbackOnly: "line_reach p \<Longrightarrow> length (ls_stages p) = 1 \<Longrightarrow> RollbackLastBundle ord t p = Ok p' \<Longrightarrow> line_reach p'"

lemma line_ok_freq: "line_ok (p\<lparr>ls_accessFrequency := n\<rparr>) = line_ok p"
  by (simp add: line_ok_def line_ordered_def)

lemma line_reach_ok: "line_reach p \<Longrightarrow> line_ok p"
proof (induction rule: line_reach.induct)
  case (line_new base pn cache p)
  then show ?case using emptyStages_ok by (auto simp: NewStages_def split: if_splits)
next
  case (line_add p q rs b grow t p' b' out)
  have "bundle_ordered b" using bundle_of_ordered line_add by (auto simp: line_ok_def)
  then show ?case using AddBundle_ok line_add by blast
next
  case (line_verify p bu p' x)
  then show ?case by (auto simp: VerifyBundle_def Let_def line_ok_freq split: option.splits)
next
  case (line_read p)
  then show ?case by (simp add: RegisterRead_def line_ok_freq)
next
  case (line_trim p fut p')
  then obtain l where "trimCommittedStages fut p = Ok (l, p')" by (auto simp: TrimCommittedStages_def bnd_Ok_iff)
  then show ?case using trimCommitted_ok line_trim by blast
next
  case (line_rollback p ord fut p')
  then show ?case using RollbackUncommitted_ok by blast
next
  case (line_rollbackOnly p ord t p')
  then show ?case using emptyStages_ok by (auto simp: RollbackLastBundle_def restoreEmpty_def split: if_splits option.splits)
qed

end
