(* ===== verification/Line_Spec.thy ===== *)
theory Line_Spec
  imports Line_Order
begin

text \<open>
  What a line guarantees to its clients: a bundle is added as a whole or not at all and its records are found again, every scan of a line
  ends, and a rollback takes back what was added behind the last committed stage. Two theorems show rollbacks that fail to do so.
\<close>

subsection \<open>A sample line\<close>

definition sampleBase :: Local where
  "sampleBase = \<lparr>pulseAndScope = 70000, local_hash = replicate 27 0 @ [1]\<rparr>"

definition sampleRef :: Global where
  "sampleRef = \<lparr>addressLocal = sampleBase, addressBase = sampleBase\<rparr>"

definition sampleReason :: Global where
  "sampleReason = \<lparr>addressLocal = sampleBase\<lparr>local_hash := replicate 27 0 @ [2]\<rparr>, addressBase = sampleBase\<lparr>local_hash := replicate 27 0 @ [3]\<rparr>\<rparr>"

definition sampleStart :: LRecord where
  "sampleStart = zeroRecord\<lparr>rec_Excerpt := (rec_Excerpt zeroRecord)\<lparr>ex_RecordType := tRLifelineStart, ex_ReasonRef := Some sampleReason\<rparr>,
     rec_RecRef := Some sampleRef,
     rec_regReq := Some \<lparr>req_AnticipatedRef = None, req_ProducedBy = None, req_ProducerSignature = [], req_lazyIsZero = False, req_payloads = []\<rparr>\<rparr>"

definition sampleLine :: LineStages where
  "sampleLine = emptyStages sampleBase 70000 None"

lemma sampleLine_new: "NewStages sampleBase 70000 None = Ok sampleLine"
proof -
  have "\<not> local_IsEmpty sampleBase" "local_SubScope sampleBase = baseScopeLifeline" "IsTimePulse (GetPulseNumber sampleBase)" "\<not> 70000 < GetPulseNumber sampleBase" by code_simp+
  then show ?thesis by (simp add: NewStages_def sampleLine_def)
qed

definition sampleBundle :: BundleResolver where
  "sampleBundle =
     \<lparr>b_maxRecNo = 1, b_maxFilNo = 1, b_lastRecord = None, b_unresolved = [], b_errors = [], b_branchRoot = 0, b_branchFirst = 0, b_isLineStart = True,
      b_isResolved = True,
      b_records = [(newUpdate 1 sampleStart)\<lparr>rr_filNo := 1, rr_filamentStartIndex := index_WithFlags 0 FilamentLocalStart\<rparr>], b_dupRecords = []\<rparr>"

lemma sampleLine_bundle: "bundle_of sampleLine [sampleStart] = Ok sampleBundle"
  by code_simp

definition sampleUpdate :: resolvedRecord where
  "sampleUpdate = (newUpdate 1 sampleStart)\<lparr>rr_filNo := 1, rr_filamentStartIndex := index_WithFlags 1 FilamentLocalStart\<rparr>"

definition sampleStage :: updateStage where
  "sampleStage = \<lparr>st_seqNo = 1, st_tracker = Some 7, st_firstRec = 1,
     st_filaments = [newFilament\<lparr>fil_root := 1, fil_earliest := 1, fil_latest := 1, fil_resolvedHead := asResolvedDependency sampleUpdate\<rparr>]\<rparr>"

lemma dead_num: "deadFilament = 4294967295"
  by (simp add: deadFilament_def)

lemma sample_values:
  "\<not> local_IsEmpty sampleBase" "ref_IsEmpty None" "\<not> ref_IsEmpty (Some sampleReason)" "flagged_Flags (index_WithFlags 0 FilamentLocalStart) = FilamentLocalStart"
  "FilamentLocalStart AND FilamentLocalStart = FilamentLocalStart" "FilamentLocalStart \<noteq> 0" "index_WithFlags 1 FilamentLocalStart \<noteq> 0"
  "tRLifelineStart \<noteq> tRLineRecap" "tRLifelineStart \<noteq> tRSidelineStart"
  by code_simp+

lemma sample_validate: "ls_validate sampleLine sampleBundle 7 = Ok (sampleBundle\<lparr>b_records := [sampleUpdate], b_lastRecord := Some sampleRef\<rparr>, sampleStage, zeroLocal, 1)"
  by (simp add: ls_validate_def ls_startLine_def ls_newStage_def ls_latest_def sampleLine_def emptyStages_def sampleBundle_def newUpdate_def newValidator_def
    ls_getNextRecNo_def lr_getNextRecNo_def lr_getCount_def nilSlice_def slen_def sampleStage_def sampleUpdate_def Let_def
    ls_validateRecord_def ls_checkReason_def sample_values adjustNext_def adjustPrevAndRecap_def dead_num applyFilament_def addFilament_def newFilament_def
    firstOfFilament_def rr_IsRecap_def fil_setLatest_def ls_applyFilamentDependency_def b_setLastRecord_def postCheck_def sampleStart_def zeroRecord_def
    asResolvedDependency_def)

subsection \<open>Scans of a line\<close>

text \<open>The list of the records from a number on, as long as they exist and are visible, and the visit of a list in order until
  the search function is satisfied.\<close>

inductive recordsFrom :: "(resolvedRecord \<Rightarrow> recordNo) \<Rightarrow> (resolvedRecord \<Rightarrow> bool) \<Rightarrow> resolvedRecord lineRecords \<Rightarrow> recordNo \<Rightarrow> resolvedRecord list \<Rightarrow> bool"
  for step visible rs where
  from_end: "\<forall>r. lr_get n rs = Some r \<longrightarrow> \<not> visible r \<Longrightarrow> recordsFrom step visible rs n []"
| from_record: "lr_get n rs = Some r \<Longrightarrow> visible r \<Longrightarrow> recordsFrom step visible rs (step r) xs \<Longrightarrow> recordsFrom step visible rs n (r # xs)"

fun visit :: "(ReadRecord \<Rightarrow> 's \<Rightarrow> bool \<times> 's) \<Rightarrow> resolvedRecord list \<Rightarrow> 's \<Rightarrow> bool \<times> 's" where
  "visit F [] s = (False, s)"
| "visit F (r # xs) s = (case F (readRecord r) s of (found, s') \<Rightarrow> if found then (True, s') else visit F xs s')"

lemma get_ordered:
  assumes "records_ordered n rs" "lr_get i rs = Some r" "n < deadFilament"
  shows "1 \<le> i" "i \<le> n" "rr_prev r < i" "rr_next r = 0 \<or> i < rr_next r"
proof -
  have i: "1 \<le> i" "i \<le> n" "r = flat rs ! (i - 1)" using assms lr_get_flat [of rs i] by (auto simp: records_ordered_def split: if_splits)
  then show "1 \<le> i" "i \<le> n" by simp_all
  have "i - 1 < length (flat rs)" "1 + (i - 1) = i" using i assms(1) by (auto simp: records_ordered_def)
  then show "rr_prev r < i" "rr_next r = 0 \<or> i < rr_next r"
    using assms(1,3) i [unfolded One_nat_def] unfolding records_ordered_def ordered_def by (fastforce dest: spec [of _ "i - 1"])+
qed

lemma get_zero: "records_ordered n rs \<Longrightarrow> lr_get 0 rs = None"
  using lr_get_flat [of rs 0] by (simp add: records_ordered_def)

lemma recordsToPast:
  assumes "records_ordered n rs" "n < deadFilament"
  shows "\<exists>xs. recordsFrom rr_prev (\<lambda>_. True) rs rn xs \<and> length xs \<le> min n rn"
proof (induction rn rule: less_induct)
  case (less rn)
  show ?case
  proof (cases "lr_get rn rs")
    case None
    then show ?thesis using from_end [of rn rs "\<lambda>_. True" rr_prev] by fastforce
  next
    case (Some r)
    note g = get_ordered [OF assms(1) Some assms(2)]
    obtain xs where "recordsFrom rr_prev (\<lambda>_. True) rs (rr_prev r) xs" "length xs \<le> min n (rr_prev r)" using less [OF g(3)] by blast
    then show ?thesis using from_record [OF Some, of "\<lambda>_. True" rr_prev xs] g by (intro exI [of _ "r # xs"]) auto
  qed
qed

lemma recordsToPresent:
  assumes "records_ordered n rs" "n < deadFilament"
  shows "\<exists>xs. recordsFrom rr_next visible rs rn xs \<and> length xs \<le> (if rn = 0 then 0 else Suc n - rn)"
proof (induction "Suc n - rn" arbitrary: rn rule: less_induct)
  case less
  show ?case
  proof (cases "\<forall>r. lr_get rn rs = Some r \<longrightarrow> \<not> visible r")
    case True
    then show ?thesis using from_end [OF True, of rr_next] by fastforce
  next
    case False
    then obtain r where r: "lr_get rn rs = Some r" "visible r" by blast
    note g = get_ordered [OF assms(1) r(1) assms(2)]
    have "\<exists>xs. recordsFrom rr_next visible rs (rr_next r) xs \<and> length xs \<le> (if rr_next r = 0 then 0 else Suc n - rr_next r)"
    proof (cases "rr_next r = 0")
      case True
      then show ?thesis using from_end [of 0 rs visible rr_next] get_zero [OF assms(1)] by auto
    next
      case False
      then show ?thesis using g by (intro less) auto
    qed
    then obtain xs where "recordsFrom rr_next visible rs (rr_next r) xs" "length xs \<le> (if rr_next r = 0 then 0 else Suc n - rr_next r)" by blast
    then show ?thesis using from_record [of rn rs r visible rr_next xs, OF r] g by (intro exI [of _ "r # xs"]) (auto split: if_splits)
  qed
qed

lemma scanToPast_visits:
  assumes "recordsFrom rr_prev (\<lambda>_. True) rs rn xs" "lr_get 0 rs = None"
  shows "scanSequenceToPast rs F rn s = Some (visit F xs s)"
  using assms(1)
proof (induction arbitrary: s rule: recordsFrom.induct)
  case (from_end n)
  then have "lr_get n rs = None" by (cases "lr_get n rs") auto
  then show ?case by (subst scanSequenceToPast.simps) simp
next
  case (from_record n r xs)
  then have "n \<noteq> 0" using assms(2) by (cases n) auto
  then show ?case using from_record by (subst scanSequenceToPast.simps) (simp split: prod.split)
qed

lemma scanToPresent_visits:
  assumes "recordsFrom rr_next (\<lambda>r. rr_storageIndex r \<noteq> 0) rs rn xs" "lr_get 0 rs = None"
  shows "scanSequenceToPresent rs F rn s = Some (visit F xs s)"
  using assms(1)
proof (induction arbitrary: s rule: recordsFrom.induct)
  case (from_end n)
  then show ?case by (subst scanSequenceToPresent.simps) (simp split: option.split)
next
  case (from_record n r xs)
  then have "n \<noteq> 0" using assms(2) by (cases n) auto
  then show ?case using from_record by (subst scanSequenceToPresent.simps) (simp split: prod.split)
qed

text \<open>
  C7: Every scan of a line ends, for every line that the operations make, and visits the right records. A scan from an unknown record
  finds nothing; a scan from a record for which a pending stage is found is deferred to the tracker of that stage. Every other scan visits
  a finite list of records, not longer than the line, in order and until the search function accepts one: to the past the record and its
  predecessors, to the present the record and its successors up to the first one that is not stored. It returns whether a record
  was accepted, with the effects of the search function on exactly the visited records. No sequence of records runs in a circle.
\<close>

theorem scans_end:
  assumes "line_reach p"
  shows "case map_of (ls_recordRefs p) (local_hash (addressLocal from)) of
      None \<Rightarrow> ScanFilamentFrom from toPast F s p = Some (False, None, s)
    | Some rn \<Rightarrow> (case ls_trackerOf rn p of
        Some t \<Rightarrow> ScanFilamentFrom from toPast F s p = Some (False, Some t, s)
      | None \<Rightarrow> (\<exists>xs found s'. length xs < lr_getNextRecNo (ls_records p) \<and> visit F xs s = (found, s') \<and>
          recordsFrom (if toPast then rr_prev else rr_next) (\<lambda>r. toPast \<or> rr_storageIndex r \<noteq> 0) (ls_records p) rn xs \<and>
          ScanFilamentFrom from toPast F s p = Some (found, None, s')))"
proof (cases "map_of (ls_recordRefs p) (local_hash (addressLocal from))")
  case None
  then show ?thesis by (simp add: ScanFilamentFrom_def)
next
  case (Some rn)
  have o: "records_ordered (length (flat (ls_records p))) (ls_records p)" "length (flat (ls_records p)) < deadFilament"
    using line_reach_ok [OF assms] by (simp_all add: line_ok_def line_records_ordered)
  obtain xs where xs: "length xs \<le> length (flat (ls_records p))"
    "recordsFrom (if toPast then rr_prev else rr_next) (\<lambda>r. toPast \<or> rr_storageIndex r \<noteq> 0) (ls_records p) rn xs"
  proof (cases toPast)
    case True
    then show ?thesis using that recordsToPast [OF o, of rn] by fastforce
  next
    case False
    obtain xs where "recordsFrom rr_next (\<lambda>r. rr_storageIndex r \<noteq> 0) (ls_records p) rn xs"
      "length xs \<le> (if rn = 0 then 0 else Suc (length (flat (ls_records p))) - rn)" using recordsToPresent [OF o] by blast
    then show ?thesis using False by (intro that [of xs]) (auto split: if_splits)
  qed
  have count: "lr_getNextRecNo (ls_records p) = length (flat (ls_records p)) + 1" using o(1) lr_count [of "ls_records p"] by (simp add: records_ordered_def)
  obtain found s' where v: "visit F xs s = (found, s')" by (cases "visit F xs s")
  have "ScanFilamentFrom from toPast F s p = Some (found, None, s')" if "ls_trackerOf rn p = None"
    using that Some v xs(2) scanToPast_visits [of "ls_records p" rn xs F s, OF _ get_zero [OF o(1)]]
      scanToPresent_visits [of "ls_records p" rn xs F s, OF _ get_zero [OF o(1)]]
    by (cases toPast) (simp_all add: ScanFilamentFrom_def)
  moreover have "length xs < lr_getNextRecNo (ls_records p)" using xs(1) count by simp
  ultimately show ?thesis unfolding Some option.case using Some xs(2) v
    by (cases "ls_trackerOf rn p") (simp only: option.case, blast, simp add: ScanFilamentFrom_def)
qed

definition sampleLine1 :: LineStages where
  "sampleLine1 = sampleLine\<lparr>ls_stages := [sampleStage], ls_accessFrequency := 1, ls_recordRefs := [(local_hash sampleBase, 1)], ls_filamentRefs := [(sampleBase, 1)],
     ls_reasonRefs := [(sampleReason, 1)], ls_records := slice_append doubling nilSlice nilSlice \<lparr>elems = [sampleUpdate], spare = replicate 7 zeroUpdate\<rparr>\<rparr>"

lemma sample_stage: "ls_addStage doubling [sampleUpdate] sampleStage 0 zeroLocal sampleLine = Ok (sampleLine1\<lparr>ls_accessFrequency := 0\<rparr>)"
  by (simp add: ls_addStage_def sampleStage_def ls_addOne_def sampleUpdate_def newUpdate_def sample_values sampleLine_def emptyStages_def sampleLine1_def
    lr_add_def nilSlice_def slen_def lr_newPage_def rr_Local_def sampleStart_def zeroRecord_def sampleRef_def ls_putReason_def Let_def pageSizeMin_def)

lemma sample_added:
  "AddBundle doubling (Some sampleBundle) (Some 7) sampleLine =
     Ok (sampleLine1, b_setLastRecord None (b_addError ''processed bundle'' (sampleBundle\<lparr>b_records := [sampleUpdate], b_lastRecord := Some sampleRef\<rparr>)),
       \<lparr>ao_result = Added, ao_tracker = Some 7, ao_update = [sampleUpdate]\<rparr>)"
proof -
  have "b_hasNoTroubles sampleBundle" "b_records sampleBundle \<noteq> []" "ls_latest sampleLine = None" "st_firstRec sampleStage = 1"
      "b_hasNoTroubles (sampleBundle\<lparr>b_records := [sampleUpdate], b_lastRecord := Some sampleRef\<rparr>)"
    by (simp_all add: b_hasNoTroubles_def sampleBundle_def ls_latest_def sampleLine_def emptyStages_def sampleStage_def)
  moreover have "sampleLine1 = sampleLine1\<lparr>ls_accessFrequency := 1\<rparr>" by (simp add: sampleLine1_def)
  ultimately show ?thesis by (simp add: AddBundle_def sample_validate sample_stage)
qed

lemma sampleLine_reach: "line_reach sampleLine"
  by (rule line_new [OF sampleLine_new])

lemma sample_bound: "length (flat (ls_records sampleLine)) + length (b_records sampleBundle) < deadFilament"
  by (simp add: sampleLine_def emptyStages_def pages_new_ok sampleBundle_def dead_num)

lemma sampleLine1_reach: "line_reach sampleLine1"
  by (rule line_add [OF sampleLine_reach sampleLine_reach sampleLine_bundle doubling_grows sample_bound sample_added])

text \<open>The references of a stage lead to its records.\<close>

abbreviation rr_hash :: "resolvedRecord \<Rightarrow> u8 list" where
  "rr_hash r \<equiv> local_hash (addressLocal (the (rec_RecRef (rr_Record r))))"

lemma putRefs_other: "h \<notin> rr_hash ` set rs \<Longrightarrow> map_of (fold putRefs rs m) h = map_of m h"
  by (induction rs arbitrary: m) (auto simp: putRefs_def update_conv)

lemma putRefs_found:
  "distinct (map rr_hash rs) \<Longrightarrow> i < length rs \<Longrightarrow> map_of (fold putRefs rs m) (rr_hash (rs ! i)) = Some (rr_recordNo (rs ! i))"
proof (induction rs arbitrary: m i)
  case (Cons r rs)
  show ?case
  proof (cases i)
    case 0
    have "map_of (putRefs r m) (rr_hash r) = Some (rr_recordNo r)" by (simp add: putRefs_def update_conv)
    then show ?thesis using 0 Cons.prems(1) putRefs_other [of "rr_hash r" rs "putRefs r m"] by simp
  next
    case (Suc j)
    then show ?thesis using Cons by simp
  qed
qed simp

text \<open>A stage is found by a number behind it, the last one only by its own.\<close>

lemma findStage_last:
  "\<lbrakk>\<forall>s \<in> set sts. st_firstRec s < st_firstRec st; st_firstRec st \<le> n\<rbrakk> \<Longrightarrow> findStageFrom prev (sts @ [st]) n = (if n = st_firstRec st then Some st else None)"
  by (induction sts arbitrary: prev) auto

text \<open>
  C5: A bundle is added to a line as a whole or not at all. When it is added, its records follow the records of the line in the order
  of the bundle, with consecutive numbers that are their places, the earlier records change in the number of the successor only,
  no record repeats a reason that the line knows, and a stage with the tracker is appended. Otherwise the line is as it was.
  The bundle may be older than the line: its numbers are moved behind the records that were added since.
\<close>

theorem bundle_all_or_nothing:
  assumes "line_reach p" "line_reach q" "bundle_of q rs = Ok b" "grows grow" "length (flat (ls_records p)) + length (b_records b) < deadFilament"
    and "AddBundle grow (Some b) (Some t) p = Ok (p', b', out)"
  shows "if ao_result out = Added
    then flat (ls_records p') = linkAll (ls_getNextRecNo p) (ao_update out) (flat (ls_records p)) @ ao_update out \<and>
      map rr_Record (flat (ls_records p')) = map rr_Record (flat (ls_records p) @ b_records b) \<and>
      map rr_recordNo (flat (ls_records p')) = [1 ..< length (flat (ls_records p)) + length (b_records b) + 1] \<and>
      (\<forall>r \<in> set (b_records b). ls_checkReason p r = Inr ()) \<and>
      (\<exists>st. ls_stages p' = ls_stages p @ [st] \<and> st_tracker st = Some t \<and> st_firstRec st = length (flat (ls_records p)) + 1)
    else p' = p \<and> ao_update out = []"
proof (cases "ao_result out = Added")
  case False
  then show ?thesis using AddBundle_refused [OF assms(6)] by simp
next
  case True
  have l: "line_ordered p" "line_ordered q" using line_reach_ok assms(1,2) by (simp_all add: line_ok_def)
  have N: "ls_getNextRecNo p = length (flat (ls_records p)) + 1" by (rule next_recNo [OF l(1)])
  note a = AddBundle_line [OF l(1) assms(4) bundle_of_ordered [OF l(2) assms(3)] assms(5,6) True]
  have "map rr_Record (linkNext n u R) = map rr_Record R" for n u R
    by (cases "rr_prev u - 1 < length R") (auto simp: linkNext_def list_eq_iff_nth_eq nth_list_update)
  then have keep: "map rr_Record (linkAll n us R) = map rr_Record R" for n us R by (induction us arbitrary: R) simp_all
  have len: "length (flat (ls_records p')) = length (flat (ls_records p)) + length (b_records b)" using arg_cong [OF a(2), of length] arg_cong [OF a(3), of length] by simp
  have "map rr_recordNo (flat (ls_records p')) = [1 ..< length (flat (ls_records p)) + length (b_records b) + 1]"
    by (rule nth_equalityI) (use len a(1) in \<open>auto simp: line_ordered_def ordered_def simp del: upt_Suc\<close>)
  moreover have "map rr_Record (flat (ls_records p')) = map rr_Record (flat (ls_records p) @ b_records b)" using a(2,3) keep by simp
  ultimately show ?thesis using True a(2,5-8) N by auto
qed

theorem bundle_all_or_nothing_witness:
  "flat (ls_records sampleLine1) = [sampleUpdate] \<and> ls_stages sampleLine1 = [sampleStage] \<and> line_reach sampleLine1"
proof -
  have "flat (ls_records sampleLine1) = linkAll (ls_getNextRecNo sampleLine) [sampleUpdate] (flat (ls_records sampleLine)) @ [sampleUpdate]"
    using bundle_all_or_nothing [OF sampleLine_reach sampleLine_reach sampleLine_bundle doubling_grows sample_bound sample_added] by simp
  then show ?thesis using sampleLine1_reach by (simp add: sampleLine_def emptyStages_def pages_new_ok linkNext_def sampleUpdate_def newUpdate_def sampleLine1_def)
qed

text \<open>
  C29: A record of an added bundle is found by its reference. It comes with the tracker of its stage only when it is the first record
  of the bundle: the search for the stage of any other record of the last stage finds none.
\<close>

theorem added_records_found:
  assumes "line_reach p" "line_reach q" "bundle_of q rs = Ok b" "grows grow" "length (flat (ls_records p)) + length (b_records b) < deadFilament"
    and "AddBundle grow (Some b) (Some t) p = Ok (p', b', out)" "ao_result out = Added" "distinct (map rr_hash (ao_update out))" "i < length (ao_update out)"
  shows "FindWithTracker (the (rec_RecRef (rr_Record (ao_update out ! i)))) p' = Some (if i = 0 then Some t else None, readRecord (ao_update out ! i))"
proof -
  let ?U = "ao_update out" and ?n = "length (flat (ls_records p))"
  have l: "line_ordered p" "line_ordered q" and s: "stages_ok ?n (ls_stages p)" using line_reach_ok assms(1,2) by (simp_all add: line_ok_def)
  have N: "ls_getNextRecNo p = ?n + 1" by (rule next_recNo [OF l(1)])
  note a = AddBundle_line [OF l(1) assms(4) bundle_of_ordered [OF l(2) assms(3)] assms(5-7)]
  have "length ?U = length (b_records b)" using arg_cong [OF a(3), of length] by simp
  then have "rr_recordNo (?U ! i) = ls_getNextRecNo p + i" using arg_cong [OF a(4), of "\<lambda>xs. xs ! i"] assms(9) by simp
  then have no: "rr_recordNo (?U ! i) = ?n + 1 + i" using N by simp
  have get: "lr_get (?n + 1 + i) (ls_records p') = Some (?U ! i)" using lr_get_flat [of "ls_records p'"] a(1,2) assms(9) by (simp add: line_ordered_def nth_append)
  obtain st where st: "ls_stages p' = ls_stages p @ [st]" "st_tracker st = Some t" "st_firstRec st = ?n + 1" using a(6-8) N by metis
  have "\<forall>x \<in> set (ls_stages p). st_firstRec x < st_firstRec st" using s st(3) by (auto simp: stages_ok_def)
  then have "ls_findStage (?n + 1 + i) p' = (if i = 0 then Some st else None)" using findStage_last [of "ls_stages p" st "?n + 1 + i" None] st(1,3) by (simp add: ls_findStage_def)
  then have "ls_trackerOf (?n + 1 + i) p' = (if i = 0 then Some t else None)" using st(2) by (simp add: ls_trackerOf_def)
  then show ?thesis using putRefs_found [OF assms(8,9), of "ls_recordRefs p"] a(9) no get by (simp add: FindWithTracker_def)
qed

theorem added_records_found_witness: "FindWithTracker sampleRef sampleLine1 = Some (Some 7, readRecord sampleUpdate)"
proof -
  have "rec_RecRef (rr_Record sampleUpdate) = Some sampleRef" by (simp add: sampleUpdate_def newUpdate_def sampleStart_def)
  then show ?thesis using added_records_found [OF sampleLine_reach sampleLine_reach sampleLine_bundle doubling_grows sample_bound sample_added, of 0] by simp
qed

subsection \<open>The filaments a bundle touches\<close>






subsection \<open>Taking back what was added\<close>




















text \<open>A second bundle for the sample line, after its first record is stored.\<close>

definition sampleIndex :: DirectoryIndex where
  "sampleIndex = push_bit 48 1 OR 1"

definition sampleRecord1 :: resolvedRecord where
  "sampleRecord1 = sampleUpdate\<lparr>rr_storageIndex := sampleIndex\<rparr>"

definition sampleLine2 :: LineStages where
  "sampleLine2 = sampleLine1\<lparr>ls_stages := [sampleStage\<lparr>st_tracker := None\<rparr>], ls_records := lr_update 1 (\<lambda>r. r\<lparr>rr_storageIndex := sampleIndex\<rparr>) (ls_records sampleLine1)\<rparr>"

lemma sample_pages:
  "lr_get 1 (ls_records sampleLine1) = Some sampleUpdate" "lr_get 1 (ls_records sampleLine2) = Some sampleRecord1" "flat (ls_records sampleLine2) = [sampleRecord1]"
  "lr_getNextRecNo (ls_records sampleLine1) = 2" "lr_getNextRecNo (ls_records sampleLine2) = 2" "\<not> allocationFault sampleIndex" "sampleIndex \<noteq> 0"
  by code_simp+

lemma sampleLine2_trimmed: "TrimCommittedStages (\<lambda>_. (True, [sampleIndex])) sampleLine1 = Ok sampleLine2"
  by (simp add: TrimCommittedStages_def trimCommittedStages_def sampleLine1_def sampleStage_def setAllocations_def sample_pages(6) sampleLine2_def Let_def
    sample_pages(1,4) [unfolded sampleLine1_def, simplified])

lemma sampleLine2_reach: "line_reach sampleLine2"
  by (rule line_trim [OF sampleLine1_reach sampleLine2_trimmed])

text \<open>A scan of the stored line to the present that counts the records it visits.\<close>

theorem scans_end_witness:
  "line_reach sampleLine2 \<and> ScanFilamentFrom sampleRef False (\<lambda>r n. (True, n + 1)) (0::nat) sampleLine2 = Some (True, None, 1)"
proof -
  have m: "map_of (ls_recordRefs sampleLine2) (local_hash (addressLocal sampleRef)) = Some 1" by (simp add: sampleLine2_def sampleLine1_def sampleRef_def)
  have t: "ls_trackerOf 1 sampleLine2 = None" by (simp add: ls_trackerOf_def ls_findStage_def sampleLine2_def sampleStage_def)
  obtain xs found s' where x: "visit (\<lambda>r n. (True, n + 1)) xs (0::nat) = (found, s')"
    "recordsFrom rr_next (\<lambda>r. rr_storageIndex r \<noteq> 0) (ls_records sampleLine2) 1 xs"
    "ScanFilamentFrom sampleRef False (\<lambda>r n. (True, n + 1)) 0 sampleLine2 = Some (found, None, s')"
    using scans_end [OF sampleLine2_reach, of sampleRef False "\<lambda>r n. (True, n + 1)" "0::nat"] m t by auto
  have "rr_storageIndex sampleRecord1 \<noteq> 0" using sample_pages(7) by (simp add: sampleRecord1_def)
  then obtain ys where "xs = sampleRecord1 # ys" using x(2) sample_pages(2) by (auto elim: recordsFrom.cases)
  then show ?thesis using x sampleLine2_reach by auto
qed

definition sampleRef2 :: Global where
  "sampleRef2 = \<lparr>addressLocal = sampleBase\<lparr>local_hash := replicate 27 0 @ [4]\<rparr>, addressBase = sampleBase\<rparr>"

definition sampleMemory :: LRecord where
  "sampleMemory = zeroRecord\<lparr>rec_Excerpt := (rec_Excerpt zeroRecord)\<lparr>ex_RecordType := tRLineMemoryInit, ex_PrevRef := Some sampleRef, ex_RootRef := Some sampleRef\<rparr>,
     rec_RecRef := Some sampleRef2,
     rec_regReq := Some \<lparr>req_AnticipatedRef = None, req_ProducedBy = None, req_ProducerSignature = [], req_lazyIsZero = False, req_payloads = []\<rparr>\<rparr>"

definition sampleBundle2 :: BundleResolver where
  "sampleBundle2 =
     \<lparr>b_maxRecNo = 2, b_maxFilNo = 2, b_lastRecord = None, b_unresolved = [], b_errors = [], b_branchRoot = 0, b_branchFirst = 0, b_isLineStart = False,
      b_isResolved = True, b_records = [(newUpdate 2 sampleMemory)\<lparr>rr_prev := 1, rr_filNo := 1\<rparr>], b_dupRecords = []\<rparr>"

lemma sampleLine2_bundle: "bundle_of sampleLine2 [sampleMemory] = Ok sampleBundle2"
  by code_simp

definition sampleUpdate2 :: resolvedRecord where
  "sampleUpdate2 = (newUpdate 2 sampleMemory)\<lparr>rr_prev := 1, rr_filNo := 1, rr_filamentStartIndex := index_WithFlags sampleIndex 0\<rparr>"

definition sampleStage2 :: updateStage where
  "sampleStage2 = \<lparr>st_seqNo = 2, st_tracker = Some 8, st_firstRec = 2,
     st_filaments = [newFilament\<lparr>fil_root := 1, fil_earliest := 1, fil_latest := 2, fil_resolvedHead := asResolvedDependency sampleUpdate\<rparr>]\<rparr>"

lemma sample_values2: "flagged_Flags 0 = 0" "index_WithFlags sampleIndex 0 \<noteq> 0" "tRLineMemoryInit \<noteq> tRLineRecap" "sampleIndex \<noteq> 0" "rr_storageIndex sampleRecord1 = sampleIndex"
    "rr_next sampleRecord1 = 0" "rr_filNo sampleRecord1 = 1"
  by code_simp+

lemma sample_stages2: "ls_stages sampleLine2 = [sampleStage\<lparr>st_tracker := None\<rparr>]"
  by (simp add: sampleLine2_def)

lemma sample_validate2: "ls_validate sampleLine2 sampleBundle2 8 = Ok (sampleBundle2\<lparr>b_records := [sampleUpdate2], b_lastRecord := Some sampleRef2\<rparr>, sampleStage2, zeroLocal, 1)"
  by (simp add: ls_validate_def ls_startLine_def ls_newStage_def ls_latest_def sampleBundle2_def newUpdate_def newValidator_def
    ls_getNextRecNo_def sample_pages sample_pages(2) [simplified] sample_stages2 sampleStage_def sampleStage2_def sampleUpdate2_def Let_def sample_values2
    ls_validateRecord_def ls_checkReason_def sample_values adjustNext_def adjustPrevAndRecap_def dead_num applyFilament_def addFilament_def newFilament_def
    fil_setLatest_def ls_applyFilamentDependency_def b_setLastRecord_def postCheck_def sampleMemory_def zeroRecord_def)

lemma sample_added2: "\<exists>p' b' out. AddBundle doubling (Some sampleBundle2) (Some 8) sampleLine2 = Ok (p', b', out) \<and> ao_result out = Added \<and>
    ls_stages p' = [sampleStage\<lparr>st_tracker := None\<rparr>, sampleStage2]"
proof -
  let ?b = "sampleBundle2\<lparr>b_records := [sampleUpdate2], b_lastRecord := Some sampleRef2\<rparr>"
  have ok: "pages_ok (ls_records sampleLine2)" using line_reach_ok [OF sampleLine2_reach] by (simp add: line_ok_def line_ordered_def)
  have "ls_record 1 sampleLine2 = Ok sampleRecord1" using sample_pages(2) by (simp add: ls_record_def)
  moreover have "pages_ok (lr_update 1 (\<lambda>x. x\<lparr>rr_next := 2\<rparr>) (ls_records sampleLine2))" using lr_update_flat [OF ok, of 1] sample_pages(3) by simp
  then obtain rs where "lr_add doubling zeroUpdate sampleUpdate2 (lr_update 1 (\<lambda>x. x\<lparr>rr_next := 2\<rparr>) (ls_records sampleLine2)) = Ok rs"
    using lr_add_flat [OF _ doubling_grows, of "lr_update 1 (\<lambda>x. x\<lparr>rr_next := 2\<rparr>) (ls_records sampleLine2)" zeroUpdate sampleUpdate2] by auto
  ultimately have "\<exists>q. ls_addStage doubling [sampleUpdate2] sampleStage2 1 zeroLocal sampleLine2 = Ok q \<and> ls_stages q = ls_stages sampleLine2 @ [sampleStage2]"
    by (auto simp: ls_addStage_def sampleStage2_def ls_addOne_def sampleUpdate2_def newUpdate_def sample_values2 rr_Local_def sampleMemory_def zeroRecord_def Let_def ls_putReason_def)
  moreover have "b_hasNoTroubles sampleBundle2" "b_records sampleBundle2 \<noteq> []" "b_hasNoTroubles ?b" "ls_latest sampleLine2 = Some (sampleStage\<lparr>st_tracker := None\<rparr>)"
      "st_firstRec sampleStage2 = 2" "ls_trackerOf 1 sampleLine2 = None" "length (st_filaments sampleStage) = 1"
    by (simp_all add: b_hasNoTroubles_def sampleBundle2_def ls_latest_def sample_stages2 sampleStage2_def ls_trackerOf_def ls_findStage_def sampleStage_def)
  ultimately show ?thesis by (auto simp: AddBundle_def sample_validate2 sample_stages2)
qed


lemma sample_bound2: "length (flat (ls_records sampleLine2)) + length (b_records sampleBundle2) < deadFilament"
  by (simp add: sample_pages sampleBundle2_def dead_num)

definition sampleOrder :: mapOrder where
  "sampleOrder = \<lparr>ord_records = rev, ord_filaments = rev\<rparr>"


subsection \<open>Rollbacks that do not take back the last bundle\<close>

text \<open>
  C32: A rollback after the committed stages were trimmed loses the committed records. When the stage before a bundle is committed
  and dropped by \<open>TrimCommittedStages\<close> while the bundle is not stored yet, \<open>RollbackUncommittedRecords\<close> knows no committed stage
  and empties the line; without the call of \<open>TrimCommittedStages\<close> the same rollback keeps the committed records.
\<close>

theorem rollback_after_trim_loses_records:
  assumes p: "line_reach p" "ls_stages p = [st]" "st_tracker st = None" and q: "line_reach q" "bundle_of q rs = Ok b" "grows grow"
      "length (flat (ls_records p)) + length (b_records b) < deadFilament"
    and add: "AddBundle grow (Some b) (Some t) p = Ok (p', b', out)" "ao_result out = Added" "\<not> fst (fut t)"
  shows "\<exists>p2 p3. TrimCommittedStages fut p' = Ok p2 \<and> flat (ls_records p2) = flat (ls_records p') \<and> 0 < length (flat (ls_records p)) \<and>
    RollbackUncommittedRecords ord fut p2 = Ok p3 \<and> flat (ls_records p3) = [] \<and> ls_recordRefs p3 = [] \<and> ls_stages p3 = []"
proof -
  have l: "line_ordered p" "line_ordered q" "stages_ok (length (flat (ls_records p))) [st]" using line_reach_ok [OF p(1)] line_reach_ok [OF q(1)] p(2) by (simp_all add: line_ok_def)
  note a = AddBundle_line [OF l(1) q(3) bundle_of_ordered [OF l(2) q(2)] q(4) add(1,2)]
  obtain sg where sg: "ls_stages p' = [st, sg]" "st_tracker sg = Some t" using a(6,7) p(2) by (metis append_Cons append_Nil)
  obtain al where f: "fut t = (False, al)" using add(3) by (cases "fut t") auto
  have "TrimCommittedStages fut p' = Ok (p'\<lparr>ls_stages := [sg]\<rparr>)" using sg f p(3) by (simp add: TrimCommittedStages_def trimCommittedStages_def)
  moreover have "RollbackUncommittedRecords ord fut (p'\<lparr>ls_stages := [sg]\<rparr>) = Ok (restoreEmpty (p'\<lparr>ls_stages := [sg]\<rparr>))"
    using sg f by (simp add: RollbackUncommittedRecords_def trimCommittedStages_def restoreEmpty_def)
  moreover have "0 < length (flat (ls_records p))" using l(3) by (auto simp: stages_ok_def)
  ultimately show ?thesis by (simp add: restoreEmpty_def emptyStages_def pages_new_ok)
qed

theorem rollback_after_trim_loses_records_witness:
  "\<exists>p' b' out p2 p3. AddBundle doubling (Some sampleBundle2) (Some 8) sampleLine2 = Ok (p', b', out) \<and> TrimCommittedStages (\<lambda>_. (False, [])) p' = Ok p2 \<and>
    RollbackUncommittedRecords sampleOrder (\<lambda>_. (False, [])) p2 = Ok p3 \<and> flat (ls_records p3) = [] \<and> flat (ls_records sampleLine2) = [sampleRecord1]"
proof -
  obtain p' b' out where a: "AddBundle doubling (Some sampleBundle2) (Some 8) sampleLine2 = Ok (p', b', out)" "ao_result out = Added" using sample_added2 by blast
  show ?thesis
    using rollback_after_trim_loses_records [OF sampleLine2_reach sample_stages2 _ sampleLine2_reach sampleLine2_bundle doubling_grows sample_bound2 a,
      of "\<lambda>_. (False, [])" sampleOrder] a(1) by (auto simp: sample_pages)
qed

text \<open>A filament that ends behind the cut makes the rollback fail.\<close>

lemma reopen_panics:
  "\<lbrakk>records_ordered n rs; f \<in> set fs; fil_latest f \<noteq> deadFilament; n < fil_latest f\<rbrakk> \<Longrightarrow> \<exists>e. reopenFilaments c fs rs = Panic e"
proof (induction fs arbitrary: rs)
  case (Cons g fs)
  have none: "lr_get (fil_latest f) rs = None" using lr_get_flat [of rs] Cons.prems(1,4) by (simp add: records_ordered_def)
  show ?case
  proof (cases "f = g \<or> fil_latest g = deadFilament \<or> lr_get (fil_latest g) rs = None")
    case True
    then show ?thesis using Cons none by auto
  next
    case False
    then obtain r where "lr_get (fil_latest g) rs = Some r" "f \<in> set fs" using Cons.prems(2) by auto
    then show ?thesis using Cons False update_ordered [of n rs "fil_latest g" r "\<lambda>r. r\<lparr>rr_next := 0\<rparr>"] by simp
  qed
qed simp

lemma searchLatest_last: "xs \<noteq> [] \<Longrightarrow> searchLatest xs i = Ok (i + length xs - 1)"
  by (induction xs i rule: searchLatest.induct) auto

text \<open>
  C33: \<open>RollbackLastBundle\<close> cannot take back the last of several bundles. The loop that looks for the stage before the last one runs on to the last
  one, so that the stage stays while its records are cut off, and the rollback fails as soon as a filament of the stage ends in one of them.
\<close>

theorem rollback_last_bundle_panics:
  assumes "line_reach p" "1 < length (ls_stages p)" "st = last (ls_stages p)" "st_tracker st = Some t"
    and "f \<in> set (st_filaments st)" "st_firstRec st \<le> fil_latest f" "fil_latest f \<noteq> deadFilament"
  shows "\<exists>e. RollbackLastBundle ord (Some t) p = Panic e"
proof -
  have ok: "line_ordered p" "stages_ok (length (flat (ls_records p))) (ls_stages p)" using line_reach_ok [OF assms(1)] by (simp_all add: line_ok_def)
  have st: "st \<in> set (ls_stages p)" using assms(2,3) by (metis last_in_set length_0_conv not_less_zero)
  have n: "1 \<le> st_firstRec st" "st_firstRec st \<le> length (flat (ls_records p))" using ok(2) st by (auto simp: stages_ok_def)
  obtain rs where rs: "lr_truncate (st_firstRec st) (ls_records p) = Ok rs" "pages_ok rs" "flat rs = take (st_firstRec st - 1) (flat (ls_records p))"
    using lr_truncate_flat [OF _ n] ok(1) by (auto simp: line_ordered_def)
  have len: "length (flat rs) = st_firstRec st - 1" using rs(3) n(2) by simp
  have "ordered 1 deadFilament (flat rs)" using ok(1) rs(3) by (auto simp: line_ordered_def ordered_def)
  then have o: "records_ordered (st_firstRec st - 1) rs" using rs(2) len by (simp add: records_ordered_def)
  obtain e where e: "reopenFilaments (st_firstRec st) (st_filaments st) rs = Panic e"
    using reopen_panics [OF o assms(5,7)] assms(6) n(1) by (metis Suc_diff_1 Suc_le_eq less_eq_Suc_le One_nat_def)
  have dead: "st_firstRec st \<noteq> deadFilament" using n ok(1) by (simp add: line_ordered_def)
  have ne: "ls_stages p \<noteq> []" using st by auto
  have "tl (ls_stages p) \<noteq> []" using assms(2) by (cases "ls_stages p") auto
  then have s: "searchLatest (tl (ls_stages p)) 1 = Ok (length (ls_stages p) - 1)" using searchLatest_last [of "tl (ls_stages p)" 1] assms(2) by simp
  have "p\<lparr>ls_stages := take (length (ls_stages p) - 1 + 1) (ls_stages p)\<rparr> = p" using assms(2) by simp
  then show ?thesis using assms(2-4) rs(1) e dead ne s by (simp add: RollbackLastBundle_def ls_latest_def restoreLatest_def Let_def)
qed

theorem rollback_last_bundle_panics_witness:
  "\<exists>p' b' out e. AddBundle doubling (Some sampleBundle2) (Some 8) sampleLine2 = Ok (p', b', out) \<and> line_reach p' \<and> RollbackLastBundle sampleOrder (Some 8) p' = Panic e"
proof -
  obtain p' b' out where a: "AddBundle doubling (Some sampleBundle2) (Some 8) sampleLine2 = Ok (p', b', out)" "ao_result out = Added"
      "ls_stages p' = [sampleStage\<lparr>st_tracker := None\<rparr>, sampleStage2]" using sample_added2 by blast
  have r: "line_reach p'" by (rule line_add [OF sampleLine2_reach sampleLine2_reach sampleLine2_bundle doubling_grows sample_bound2 a(1)])
  show ?thesis
    using rollback_last_bundle_panics [OF r, of sampleStage2 8 "hd (st_filaments sampleStage2)" sampleOrder] a(1,3) r by (auto simp: sampleStage2_def dead_num)
qed

end
