(* ===== verification/Spec2Isabelle.thy ===== *)
theory Spec2Isabelle
  imports Pulse_Range Mutable_Key_Set Jet_Alloc Sync_Context Sync_Links Object_Handover Line_Spec
begin

text \<open>
  A verification library of the assured ledger (\<^verbatim>\<open>src/ledger-core\<close>): the parts of the platform that keep time,
  name things, divide the work and keep the state of objects when the executors change.

  \<^bold>\<open>The program.\<close>  The network advances in pulses.  A pulse has a number, which also dates every reference to a
  record or an object; ranges of pulses describe the time between two pulses that a node has seen.  Records are spread
  over jets, the leaves of a binary tree over the bits of references.  On every node a conveyor runs state machines in
  slots; they meet at synchronization objects (semaphores, exclusive sections, conditionals).  The state machines of a
  virtual node execute the calls of objects; at the end of a pulse they hand the objects over to the executors of the
  next pulse by messages between virtual nodes, which are validated on arrival.  A ledger node keeps the records of an object in a
  line: bundles of records are checked against the policies of the record types, resolved, added as stages, committed by the storage or rolled back.

  \<^bold>\<open>Theories and sources.\<close>
  \<^item> \<open>Prelude\<close>: the integers of Go as words, results of functions that may panic (\<open>res\<close>, \<open>bnd\<close>), enumerations with a
    stop answer, and the shared lemmas.
  \<^item> \<open>Pulse_Number\<close>, \<open>Pulse_Data\<close>, \<open>Pulse_Range\<close>: \<^verbatim>\<open>pulse/pulse_number.go\<close>, \<^verbatim>\<open>pulse_epoch.go\<close>,
    \<^verbatim>\<open>special_pulse_numbers.go\<close>, \<^verbatim>\<open>pulse_data.go\<close>, \<^verbatim>\<open>pulse_range.go\<close>.  A range enumerates a gapless chain of pulses.
  \<^item> \<open>Key_Set\<close>, \<open>Mutable_Key_Set\<close>: \<^verbatim>\<open>vanilla/keyset\<close>.  Closed and open sets are sets and complements of sets, and every
    operation is the operation of sets; the copy-on-write mutable set refines a set of keys.
  \<^item> \<open>Jet_Id\<close>, \<open>Jet_Tree\<close>, \<open>Jet_Tree_Spec\<close>, \<open>Jet_Alloc\<close>: \<^verbatim>\<open>ledger/jet/jet_id.go\<close>, \<^verbatim>\<open>ledger/jet/prefix_tree.go\<close>,
    \<^verbatim>\<open>ledger/jetalloc/prefix_calc.go\<close>.  The packed table implements a binary tree in the non-propagating mode; lookup, split,
    merge, counting and enumeration are the operations of that tree.
  \<^item> \<open>Sync_Api\<close>, \<open>Sync_Queue\<close>, \<open>Sync_Links\<close>, \<open>Sync_Contract\<close>, \<open>Sync_Semaphore\<close>, \<open>Sync_Moves\<close>, \<open>Sync_Family\<close>,
    \<open>Sync_Semaphore_Spec\<close>, \<open>Sync_Semaphore_Contract\<close>, \<open>Sync_Exclusive\<close>, \<open>Sync_Conditional\<close>, \<open>Sync_Context\<close>:
    \<^verbatim>\<open>conveyor/smachine\<close> (\<^verbatim>\<open>api_slot_link.go\<close>, \<^verbatim>\<open>api_decision.go\<close>, \<^verbatim>\<open>api_sync.go\<close>, the acquisition and release operations of
    \<^verbatim>\<open>context_basic.go\<close>) and all of \<^verbatim>\<open>conveyor/smachine/smsync\<close>.  Queues are lists; \<open>Sync_Links\<close> shows that the rings of pointers of
    the code implement these lists.  An operation of a synchronization object is what runs under its mutex.
  \<^item> \<open>Reference\<close>: \<^verbatim>\<open>reference\<close>: scopes, headers, local and global references, their order, their binary forms and templates.
  \<^item> \<open>Message_Validation\<close>: \<^verbatim>\<open>rms/proto_vnvn_validation*.go\<close> and the flag words of \<^verbatim>\<open>rms/proto_vnvn_*.go\<close>.
  \<^item> \<open>Call_Registry\<close>: \<^verbatim>\<open>virtual/callregistry\<close>, the tables of working and pending requests.
  \<^item> \<open>Object_Handover\<close>: \<^verbatim>\<open>virtual/object/object.go\<close>, the handlers of state reports, delegated calls and call searches in
    \<^verbatim>\<open>virtual/handlers\<close>, and deduplication in \<^verbatim>\<open>virtual/execute/execute.go\<close>.
  \<^item> \<open>Bit_Builder\<close>: \<^verbatim>\<open>vanilla/longbits/bit_builder.go\<close>, \<^verbatim>\<open>bit_reader.go\<close>, \<^verbatim>\<open>bit_array.go\<close>.  What is appended bit by bit or in parts of bytes is
    read back; sets of record types rest on it.
  \<^item> \<open>Line_Records\<close>: the pages of \<^verbatim>\<open>ledger/server/lineage/line_records.go\<close> over Go slices with their capacities, and the
    directory indices of \<^verbatim>\<open>ledger/api_directory.go\<close>.  The pages implement a list of records.
  \<^item> \<open>Record_Policy\<close>: \<^verbatim>\<open>record_typeset.go\<close>, \<^verbatim>\<open>record_aliases.go\<close>, \<^verbatim>\<open>record_policies.go\<close>, \<^verbatim>\<open>record_policy.go\<close>, \<^verbatim>\<open>policy_resolver.go\<close> of the
    same directory: which references a record of each type must have and which records they may name.
  \<^item> \<open>Line_Bundle\<close>: \<^verbatim>\<open>record.go\<close> and the resolvers \<^verbatim>\<open>resolver_*.go\<close>: bundles of records and the resolution of their references.
  \<^item> \<open>Line_Stages\<close>: \<^verbatim>\<open>line_staged.go\<close>, \<^verbatim>\<open>line_stage_validator.go\<close>: a line with its filaments and stages, and its operations
    \<open>NewStages\<close>, \<open>AddBundle\<close>, \<open>TrimCommittedStages\<close>, \<open>RollbackUncommittedRecords\<close>, \<open>RollbackLastBundle\<close>, lookups and scans.
    \<open>Line_Validation\<close> and \<open>Line_Order\<close> have the lemmas on the validation of a stage and the order of record numbers, with the lines that the operations
    reach (\<open>line_reach\<close>); \<open>Line_Spec\<close> has the properties of lines: a bundle is added as a whole or not at all, its records are found, scans end, and a
    rollback undoes a bundle, except in the cases that two of the theorems show.

  \<^bold>\<open>Interfaces.\<close>  \<open>foldable_enum\<close> and \<open>stoppable_enum\<close> (interpreted by pulse ranges, key sets and the jet tree),
  \<open>keyset_algebra\<close>, \<open>mutable_set\<close>, \<open>jet_store\<close>, \<open>sync_object\<close> and \<open>queued_object\<close> (interpreted by semaphores, their children,
  exclusive sections, conditionals, the constant locks and the controllers behind a sync link), \<open>three_way\<close> and
  \<open>three_way_pair\<close> (comparison of bytes, local and global references), \<open>call_counter\<close> (working and pending requests),
  \<open>record_store\<close> (numbered records, interpreted by the pages), \<open>bit_channel\<close> (a writer and a reader of bits, interpreted by the builder and the reader of bits).

  \<^bold>\<open>What the lemmas show.\<close>  For each component an invariant that all operations keep (\<open>*_ok\<close>, over the states that
  sequences of operations reach, \<open>*_reach\<close>), the behaviour of the operations on every branch, and the properties that
  clients rely on: limits and fairness of semaphores, mutual exclusion, unique lookup of jets, set semantics of key
  sets, round trips of identifiers and references, causality of accepted messages, the hand-over of an object, and
  that a call is executed once, the atomic addition of bundles, and the rules of record types.  The conditions under which a
  property holds (a mode of the jet tree, operations that a reachability predicate leaves out, bounds) are hypotheses of the theorem and named in its text.  Where the code does not do what it means to, the statement is about what it does, and a lemma
  or a property has the concrete case.

  \<^bold>\<open>Bounds.\<close>  Machine integers keep their width; Go's \<^verbatim>\<open>int\<close> is an integer where the values are bounded by sizes in
  memory, and 64 bits wide in the adjustment of limits, where overflow matters.  Loops over time (\<open>enumSegments\<close>) and over wait
  queues (\<open>moveLoop\<close>) carry a number of steps, which is the distance to the end of the range or the length of the queue; the lemmas show that it is enough.
  The scans of a line are partial functions whose value \<open>None\<close> stands for a loop that does not end; \<open>scans_end\<close> shows that they return.  Record and filament
  numbers, 32 bits wide in the code, are naturals; only the renumbering of a bundle, which subtracts, wraps, and \<open>line_reach\<close> keeps all numbers below
  \<open>deadFilament\<close>, the largest one.  The enumeration of a jet tree (\<open>enumFrom\<close>) steps by one at a missing entry of
  length zero, where the step of the code would be zero; no tree has such an entry.

  \<^bold>\<open>Parameters.\<close>  How Go grows an array (\<open>grow\<close>), the order in which it enumerates a map (\<open>mapOrder\<close>), what the storage reports of a
  stage (\<open>futures\<close>), and the dependencies that a line finds outside (the cache of the line and the resolver of references) are arguments; the theorems
  hold for all of them or name what they need, as that the array does grow.

  \<^bold>\<open>Steps.\<close>  An operation is one step.  The code of a semaphore releases its mutex before it updates the queues after a partial release
  and takes the read lock before the write lock when a dependency is used again; interleavings inside these operations are not modelled.

  \<^bold>\<open>Not modelled.\<close>  Network, consensus and transport; cryptography; the scheduler of the slot machine, whose effect on
  synchronization objects is given by the order of operations; execution of contracts; storage of drops; logging,
  configuration, code generation and generated code; text and JSON forms; serialization of the jet tree; the services of a ledger node around the lines (snapshot builders, readers, the state
  machines of the data writer), the summary of a line and the enumeration of an added stage.  Errors of a bundle keep the record and the field, not the full text.
  The current time, entropy, readers and what a slot reports of its state are arguments of the definitions that use them.
\<close>

end
